(* ===== verification/Prelude.thy ===== *)
theory Prelude
  imports "HOL-Library.Word" "HOL-Library.List_Lexorder" "HOL-Library.Char_ord"
    "HOL-Library.Sublist"
begin

text \<open>
  Shared vocabulary of the development: machine integers and byte strings, the error
  type and the propagation of errors that the source writes with the question-mark
  operator, big-endian byte views of machine words, sorted association lists for the
  ordered maps of the standard library, and the generic facts on lexicographic order and
  prefixes that the codec, the index keys and the iterators rest on.
\<close>

unbundle bit_operations_syntax

section \<open>Types\<close>

type_synonym u8 = "8 word"
type_synonym u32 = "32 word"
type_synonym u64 = "64 word"
type_synonym i64 = "64 word"
type_synonym i128 = "128 word"
type_synonym bytes = "u8 list"
type_synonym entid = i64

text \<open>
  Rust strings are UTF-8 byte sequences; a \<^typ>\<open>char\<close> of HOL is an 8-bit byte, so a
  \<^typ>\<open>string\<close> is the byte sequence of a Rust string.
\<close>

datatype error = Err string | Panic string | OutOfFuel

type_synonym 'a result = "error + 'a"

abbreviation Ok :: "'a \<Rightarrow> 'a result" where "Ok \<equiv> Inr"
abbreviation Error :: "error \<Rightarrow> 'a result" where "Error \<equiv> Inl"

named_theorems result_simps \<open>simplification of error propagation\<close>
named_theorems codec_simps \<open>round trips of the primitive encodings\<close>
named_theorems key_simps \<open>layout of index keys\<close>

section \<open>Error propagation\<close>

definition rbind :: "'a result \<Rightarrow> ('a \<Rightarrow> 'b result) \<Rightarrow> 'b result" where
  "rbind m f = (case m of Inl e \<Rightarrow> Inl e | Inr x \<Rightarrow> f x)"

definition ensure :: "bool \<Rightarrow> string \<Rightarrow> unit result" where
  "ensure b msg = (if b then Ok () else Error (Err msg))"

definition ok_or :: "'a option \<Rightarrow> string \<Rightarrow> 'a result" where
  "ok_or x msg = (case x of None \<Rightarrow> Error (Err msg) | Some y \<Rightarrow> Ok y)"

primrec rmapM :: "('a \<Rightarrow> 'b result) \<Rightarrow> 'a list \<Rightarrow> 'b list result" where
  "rmapM f [] = Ok []"
| "rmapM f (x # xs) = rbind (f x) (\<lambda>y. rbind (rmapM f xs) (\<lambda>ys. Ok (y # ys)))"

primrec rfold :: "('s \<Rightarrow> 'a \<Rightarrow> 's result) \<Rightarrow> 's \<Rightarrow> 'a list \<Rightarrow> 's result" where
  "rfold f s [] = Ok s"
| "rfold f s (x # xs) = rbind (f s x) (\<lambda>s'. rfold f s' xs)"

lemma rbind_simps [simp, result_simps]:
  "rbind (Inl e) f = Inl e"
  "rbind (Inr x) f = f x"
  by (simp_all add: rbind_def)

lemma rbind_cong [fundef_cong]:
  assumes "m = m'" and "\<And>x. m' = Inr x \<Longrightarrow> f x = g x"
  shows "rbind m f = rbind m' g"
  using assms by (simp add: rbind_def split: sum.split)

lemma rbind_assoc: "rbind (rbind m f) g = rbind m (\<lambda>x. rbind (f x) g)"
  by (simp add: rbind_def split: sum.split)

lemma rbind_eq_Ok [simp]: "rbind m f = Inr y \<longleftrightarrow> (\<exists>x. m = Inr x \<and> f x = Inr y)"
  by (auto simp: rbind_def split: sum.splits)

lemma rbind_eq_Error: "rbind m f = Inl e \<longleftrightarrow> m = Inl e \<or> (\<exists>x. m = Inr x \<and> f x = Inl e)"
  by (auto simp: rbind_def split: sum.splits)

lemma ensure_eq_Ok [simp]: "ensure b msg = Inr u \<longleftrightarrow> b"
  by (simp add: ensure_def)

lemma ensure_simps [simp, result_simps]:
  "ensure True msg = Ok ()"
  "ensure False msg = Error (Err msg)"
  by (simp_all add: ensure_def)

lemma ok_or_simps [simp, result_simps]:
  "ok_or None msg = Error (Err msg)"
  "ok_or (Some x) msg = Ok x"
  by (simp_all add: ok_or_def)

lemma ok_or_eq_Ok [simp]: "ok_or x msg = Inr y \<longleftrightarrow> x = Some y"
  by (auto simp: ok_or_def split: option.splits)

lemma rmapM_eq_Ok: "rmapM f xs = Inr ys \<longleftrightarrow> list_all2 (\<lambda>x y. f x = Inr y) xs ys"
  by (induction xs arbitrary: ys) (auto simp: list_all2_Cons1)

lemma rmapM_Ok_length: "rmapM f xs = Inr ys \<Longrightarrow> length ys = length xs"
  by (auto simp: rmapM_eq_Ok dest: list_all2_lengthD)

lemma rmapM_total: "(\<And>x. x \<in> set xs \<Longrightarrow> f x = Inr (g x)) \<Longrightarrow> rmapM f xs = Inr (map g xs)"
  by (induction xs) auto

lemma rfold_append: "rfold f s (xs @ ys) = rbind (rfold f s xs) (\<lambda>s'. rfold f s' ys)"
  by (induction xs arbitrary: s) (simp_all add: rbind_assoc)

text \<open>An invariant kept by every step of a loop holds of its result.\<close>

lemma rfold_invariant:
  assumes "rfold f s xs = Inr s'" and "P s"
    and "\<And>s x s'. x \<in> set xs \<Longrightarrow> P s \<Longrightarrow> f s x = Inr s' \<Longrightarrow> P s'"
  shows "P s'"
  using assms
proof (induction xs arbitrary: s)
  case (Cons x xs)
  from Cons.prems(1) obtain s1 where s1: "f s x = Inr s1" and rest: "rfold f s1 xs = Inr s'"
    by auto
  have "P s1" using Cons.prems(2,3) s1 by auto
  then show ?case using Cons.IH [OF rest] Cons.prems(3) by auto
qed simp

section \<open>Big-endian bytes\<close>

primrec be_digits :: "nat \<Rightarrow> nat \<Rightarrow> bytes" where
  "be_digits 0 x = []"
| "be_digits (Suc n) x = word_of_nat (x div 256 ^ n) # be_digits n x"

primrec be_value :: "bytes \<Rightarrow> nat" where
  "be_value [] = 0"
| "be_value (b # bs) = unat b * 256 ^ length bs + be_value bs"

definition to_be_bytes :: "'a::len word \<Rightarrow> bytes" where
  "to_be_bytes w = be_digits (LENGTH('a) div 8) (unat w)"

definition from_be_bytes :: "bytes \<Rightarrow> 'a::len word" where
  "from_be_bytes bs = word_of_nat (be_value bs)"

lemma length_be_digits [simp]: "length (be_digits n x) = n"
  by (induction n) auto

lemma be_value_bound: "be_value bs < 256 ^ length bs"
proof (induction bs)
  case (Cons b bs)
  have "unat b < 256" using unsigned_less [where ?'a = nat and w = b] by simp
  then have "unat b * 256 ^ length bs + 256 ^ length bs \<le> 256 * 256 ^ length bs"
    by (metis Suc_leI add.commute mult_Suc mult_le_mono1)
  with Cons.IH show ?case
    by (simp only: be_value.simps list.size power_Suc add_Suc_right add_0_right)
qed simp

lemma be_digits_mod: "n \<le> m \<Longrightarrow> be_digits n (x mod 256 ^ m) = be_digits n x"
proof (induction n)
  case (Suc n)
  then obtain k where m: "m = Suc n + k" using le_Suc_ex by blast
  have "x mod 256 ^ m = 256 ^ n * (x div 256 ^ n mod 256 ^ Suc k) + x mod 256 ^ n"
    using mod_mult2_eq [of x "256 ^ n" "256 ^ Suc k"] by (simp add: m power_add mult.left_commute)
  then have "(x mod 256 ^ m) div 256 ^ n = x div 256 ^ n mod 256 ^ Suc k"
    by simp
  then have "word_of_nat ((x mod 256 ^ m) div 256 ^ n) = (word_of_nat (x div 256 ^ n) :: u8)"
    by (simp add: word_of_nat_eq_iff take_bit_eq_mod mod_mod_cancel)
  with Suc show ?case by simp
qed simp

lemma be_value_be_digits: "be_value (be_digits n x) = x mod 256 ^ n"
proof (induction n)
  case (Suc n)
  have "unat (word_of_nat (x div 256 ^ n) :: u8) = x div 256 ^ n mod 256"
    by (simp add: unat_of_nat)
  with Suc show ?case
    using mod_mult2_eq [of x "256 ^ n" 256] by (simp add: mult.commute)
qed simp

lemma be_digits_be_value: "be_digits (length bs) (be_value bs) = bs"
proof (induction bs)
  case (Cons b bs)
  have "be_value (b # bs) div 256 ^ length bs = unat b"
    using be_value_bound [of bs] by simp
  moreover have "be_digits (length bs) (be_value (b # bs)) = be_digits (length bs) (be_value bs)"
    using be_digits_mod [of "length bs" "length bs" "be_value (b # bs)"] be_value_bound [of bs]
    by simp
  ultimately show ?case using Cons.IH by simp
qed simp

lemma length_to_be_bytes [simp]: "length (to_be_bytes (w :: 'a::len word)) = LENGTH('a) div 8"
  by (simp add: to_be_bytes_def)

lemma byte_power: "8 dvd n \<Longrightarrow> (256 :: nat) ^ (n div 8) = 2 ^ n"
proof -
  assume "8 dvd n"
  then obtain k where "n = 8 * k" ..
  then show ?thesis using power_mult [of "2 :: nat" 8 k] by simp
qed

lemma from_to_be_bytes:
  assumes "8 dvd LENGTH('a::len)"
  shows "from_be_bytes (to_be_bytes (w :: 'a word)) = w"
  using assms by (simp add: from_be_bytes_def to_be_bytes_def be_value_be_digits byte_power)

lemma to_from_be_bytes:
  assumes "8 dvd LENGTH('a::len)" and "length bs = LENGTH('a) div 8"
  shows "to_be_bytes (from_be_bytes bs :: 'a word) = bs"
proof -
  have "unat (from_be_bytes bs :: 'a word) = be_value bs"
    using be_value_bound [of bs] assms
    by (simp add: from_be_bytes_def unat_of_nat byte_power)
  then show ?thesis
    using be_digits_be_value [of bs] assms(2) by (simp add: to_be_bytes_def)
qed

section \<open>Lexicographic order and prefixes\<close>

lemma lex_append_same [simp]: "(xs @ ys < xs @ zs) \<longleftrightarrow> (ys < (zs :: 'a::linorder list))"
  by (induction xs) auto

lemma lex_le_append_same [simp]: "(xs @ ys \<le> xs @ zs) \<longleftrightarrow> (ys \<le> (zs :: 'a::linorder list))"
  by (induction xs) auto

lemma prefix_imp_le: "prefix xs (ys :: 'a::linorder list) \<Longrightarrow> xs \<le> ys"
  by (auto simp: prefix_def) (metis Nil_le_Cons append_Nil2 lex_le_append_same list.exhaust order_refl)

lemma lex_less_appendI:
  assumes "(xs :: 'a::linorder list) < ys" and "\<not> prefix xs ys"
  shows "xs @ us < ys @ vs"
  using assms by (induction xs arbitrary: ys) (case_tac ys; auto)+

lemma div_mod_less_iff:
  "x < y \<longleftrightarrow> x div p < y div p \<or> x div p = y div p \<and> x mod p < y mod (p :: nat)"
proof (cases "x div p" "y div p" rule: linorder_cases)
  case equal
  then show ?thesis
    by (metis div_mult_mod_eq nat_add_left_cancel_less less_irrefl)
next
  case less
  then show ?thesis by (meson div_le_mono leD le_less_linear)
next
  case greater
  then show ?thesis by (metis div_le_mono leD less_imp_le_nat nat_neq_iff)
qed

text \<open>Comparing digits from the most significant one is comparing the numbers.\<close>

lemma be_digits_less_iff:
  "x < 256 ^ n \<Longrightarrow> y < 256 ^ n \<Longrightarrow> be_digits n x < be_digits n y \<longleftrightarrow> x < y"
proof (induction n arbitrary: x y)
  case (Suc n)
  let ?p = "256 ^ n :: nat"
  have less: "x div ?p < 256" "y div ?p < 256"
    using Suc.prems by (simp_all add: less_mult_imp_div_less mult.commute)
  have tails: "be_digits n x = be_digits n (x mod ?p)" "be_digits n y = be_digits n (y mod ?p)"
    by (simp_all add: be_digits_mod)
  have IH: "be_digits n x < be_digits n y \<longleftrightarrow> x mod ?p < y mod ?p"
    unfolding tails by (rule Suc.IH) simp_all
  have head: "(word_of_nat (x div ?p) :: u8) < word_of_nat (y div ?p) \<longleftrightarrow> x div ?p < y div ?p"
    "(word_of_nat (x div ?p) :: u8) = word_of_nat (y div ?p) \<longleftrightarrow> x div ?p = y div ?p"
    using less by (simp_all add: word_less_nat_alt unat_of_nat word_of_nat_eq_iff take_bit_eq_mod)
  show ?case using IH head div_mod_less_iff [of x y ?p] by simp
qed simp

lemma to_be_bytes_less_iff:
  assumes "8 dvd LENGTH('a::len)"
  shows "to_be_bytes (v :: 'a word) < to_be_bytes w \<longleftrightarrow> v < w"
  unfolding to_be_bytes_def word_less_nat_alt
  by (rule be_digits_less_iff) (simp_all add: byte_power assms)

section \<open>Machine words\<close>

lemma int_xor_mask: "k XOR mask n = k - 2 * take_bit n k + mask n" for k :: int
proof -
  have "k XOR mask n = push_bit n (drop_bit n k) OR take_bit n (NOT k)"
    by (rule bit_eqI) (auto simp: bit_simps)
  also have "\<dots> = push_bit n (drop_bit n k) + take_bit n (NOT k)"
    by (rule disjunctive_add [symmetric]) (auto simp: bit_simps)
  also have "take_bit n (NOT k) = mask n - take_bit n k"
    by (rule take_bit_not_eq_mask_diff)
  also have "push_bit n (drop_bit n k) = k - take_bit n k"
    using bits_ident [of n k] by linarith
  finally show ?thesis by simp
qed

lemma uint_take_bit_self: "uint (v :: 'a::len word) = take_bit LENGTH('a) (uint v)"
  by (metis take_bit_length_eq unsigned_take_bit_eq)

lemma uint_xor_max:
  "uint (v XOR mask (LENGTH('a) - 1)) = 2 ^ (LENGTH('a) - 1) - 1 - sint (v :: 'a::len word)"
proof -
  let ?n = "LENGTH('a) - 1"
  have suc: "Suc ?n = LENGTH('a)" by simp
  have "uint (v XOR mask ?n) = uint v XOR mask ?n"
    by (rule bit_eqI) (auto simp: bit_simps not_le)
  also have "\<dots> = uint v - 2 * take_bit ?n (uint v) + mask ?n"
    by (rule int_xor_mask)
  also have "take_bit ?n (uint v) = uint v - 2 ^ ?n * of_bool (bit (uint v) ?n)"
  proof -
    have "uint v = take_bit (Suc ?n) (uint v)"
      using uint_take_bit_self [of v] by (simp only: suc)
    then show ?thesis using take_bit_Suc_from_most [of ?n "uint v"] by simp
  qed
  also have "2 * (uint v - 2 ^ ?n * of_bool (bit (uint v) ?n)) = 2 * uint v - 2 ^ Suc ?n * of_bool (bit (uint v) ?n)"
    by (simp only: power_Suc right_diff_distrib mult.assoc)
  also have "2 ^ Suc ?n * of_bool (bit (uint v) ?n) = uint v - sint v"
  proof -
    have "take_bit (Suc ?n) (uint v) = uint v"
      using uint_take_bit_self [of v] by (simp only: suc)
    moreover have "sint v = signed_take_bit ?n (uint v)"
      by (simp add: sint_uint)
    ultimately show ?thesis
      using signed_take_bit_eq_take_bit_minus [of ?n "uint v"] by linarith
  qed
  finally show ?thesis by (simp add: mask_eq_exp_minus_1)
qed

lemma unat_not: "unat (NOT v) = 2 ^ LENGTH('a) - 1 - unat (v :: 'a::len word)"
proof -
  have "uint (NOT v) = mask LENGTH('a) - uint v"
    using uint_take_bit_self [of v]
    by (simp add: unsigned_not_eq take_bit_not_eq_mask_diff)
  then have "int (unat (NOT v)) + int (unat v) + 1 = 2 ^ LENGTH('a)"
    by (simp add: mask_eq_exp_minus_1)
  then have "int (unat (NOT v) + unat v + 1) = int (2 ^ LENGTH('a))"
    by simp
  then have "unat (NOT v) + unat v + 1 = 2 ^ LENGTH('a)"
    by (simp only: of_nat_eq_iff)
  then show ?thesis by linarith
qed

section \<open>Ordered maps\<close>

text \<open>
  A \<^verbatim>\<open>BTreeMap\<close> is the list of its entries in strictly increasing key order;
  inserting replaces the value of a key that is present.
\<close>

fun bt_insert :: "'k::linorder \<Rightarrow> 'v \<Rightarrow> ('k \<times> 'v) list \<Rightarrow> ('k \<times> 'v) list" where
  "bt_insert k v [] = [(k, v)]"
| "bt_insert k v ((l, w) # m) =
     (if k < l then (k, v) # (l, w) # m
      else if k = l then (k, v) # m
      else (l, w) # bt_insert k v m)"

definition bt_of :: "('k::linorder \<times> 'v) list \<Rightarrow> ('k \<times> 'v) list" where
  "bt_of kvs = fold (\<lambda>(k, v). bt_insert k v) kvs []"

abbreviation bt_wf :: "('k::linorder \<times> 'v) list \<Rightarrow> bool" where
  "bt_wf m \<equiv> sorted_wrt (<) (map fst m)"

lemma bt_insert_keys: "fst ` set (bt_insert k v m) = insert k (fst ` set m)"
  by (induction k v m rule: bt_insert.induct) (simp_all add: insert_commute)

lemma bt_insert_wf: "bt_wf m \<Longrightarrow> bt_wf (bt_insert k v m)"
proof (induction m)
  case (Cons a m)
  obtain l w where a: "a = (l, w)" by (cases a)
  have "\<forall>y \<in> fst ` set (bt_insert k v m). l < y" if "l < k"
    using Cons.prems that by (auto simp: bt_insert_keys a)
  then show ?case using Cons by (auto simp: a not_less order_le_less)
qed simp

lemma bt_insert_lookup: "map_of (bt_insert k v m) = (map_of m)(k \<mapsto> v)"
  by (induction m) (auto simp: fun_eq_iff)

text \<open>Inserting the entries in key order rebuilds the map.\<close>

lemma bt_insert_last: "bt_wf (m @ [(k, v)]) \<Longrightarrow> bt_insert k v m = m @ [(k, v)]"
  by (induction m) (auto simp: sorted_wrt_append)

lemma bt_of_wf: "bt_wf (bt_of kvs)"
proof -
  have "bt_wf (fold (\<lambda>(k, v). bt_insert k v) kvs m)" if "bt_wf m" for m :: "('a \<times> 'b) list"
    using that by (induction kvs arbitrary: m) (auto simp: bt_insert_wf)
  then show ?thesis by (simp add: bt_of_def)
qed

section \<open>Hash maps\<close>

text \<open>
  A \<^verbatim>\<open>HashMap\<close> whose entries are iterated is an association list in the order of
  first insertion; the iteration order of the source is unspecified, and no result of the
  model that is stated as a property depends on it. One that is only looked up is a HOL map.
  \<open>hm_modify\<close> is \<^verbatim>\<open>entry(k).or_insert(d)\<close> followed by an update in place.
\<close>

definition or_insert :: "('k \<rightharpoonup> 'v) \<Rightarrow> 'k \<Rightarrow> 'v \<Rightarrow> 'v" where
  "or_insert m k d = (case m k of None \<Rightarrow> d | Some v \<Rightarrow> v)"

primrec hm_modify :: "'k \<Rightarrow> 'v \<Rightarrow> ('v \<Rightarrow> 'v) \<Rightarrow> ('k \<times> 'v) list \<Rightarrow> ('k \<times> 'v) list" where
  "hm_modify k d f [] = [(k, f d)]"
| "hm_modify k d f (x # m) = (if fst x = k then (k, f (snd x)) # m else x # hm_modify k d f m)"

abbreviation hm_insert :: "'k \<Rightarrow> 'v \<Rightarrow> ('k \<times> 'v) list \<Rightarrow> ('k \<times> 'v) list" where
  "hm_insert k v \<equiv> hm_modify k v (\<lambda>_. v)"

abbreviation hm_wf :: "('k \<times> 'v) list \<Rightarrow> bool" where
  "hm_wf m \<equiv> distinct (map fst m)"

lemma hm_modify_lookup:
  "map_of (hm_modify k d f m) = (map_of m)(k \<mapsto> f (or_insert (map_of m) k d))"
  by (induction m) (auto simp: or_insert_def fun_eq_iff)

lemma hm_modify_keys: "fst ` set (hm_modify k d f m) = insert k (fst ` set m)"
  by (induction m) auto

lemma hm_modify_wf: "hm_wf m \<Longrightarrow> hm_wf (hm_modify k d f m)"
proof (induction m)
  case (Cons x m)
  then show ?case using hm_modify_keys [of k d f m] by (auto simp: image_iff)
qed simp

lemma hm_mem_iff: "hm_wf m \<Longrightarrow> (k, v) \<in> set m \<longleftrightarrow> map_of m k = Some v"
  by simp

end
