(* ===== verification/Data_Types.thy ===== *)
theory Data_Types
  imports Prelude
begin

text \<open>
  The value universe of the database, from \<^verbatim>\<open>triplox-client/src/ops.rs\<close>,
  \<^verbatim>\<open>triplox-client/src/protocol.rs\<close>, \<^verbatim>\<open>src/ops.rs\<close> and the keywords of
  \<^verbatim>\<open>edn/src/namespaceable_name.rs\<close>: values, their type tags, the comparison of
  values, entity references, transaction operations and datoms.

  Floats are kept as their bit patterns, an instant as its microsecond timestamp and the
  nanoseconds below it, an ordered map as the list of its entries in key order.
\<close>

section \<open>Keywords\<close>

record keyword =
  kw_text :: string
  kw_boundary :: nat

definition kw_plain :: "string \<Rightarrow> keyword result" where
  "kw_plain n =
     (if n = [] then Error (Panic ''Symbols and keywords cannot be unnamed.'')
      else Ok \<lparr>kw_text = n, kw_boundary = 0\<rparr>)"

definition kw_namespaced :: "string \<Rightarrow> string \<Rightarrow> keyword result" where
  "kw_namespaced ns n =
     (if n = [] then Error (Panic ''Symbols and keywords cannot be unnamed.'')
      else if ns = []
      then Error (Panic ''Symbols and keywords cannot have an empty non-null namespace.'')
      else Ok \<lparr>kw_text = ns @ ''/'' @ n, kw_boundary = length ns\<rparr>)"

definition kw_namespace :: "keyword \<Rightarrow> string option" where
  "kw_namespace k = (if kw_boundary k > 0 then Some (take (kw_boundary k) (kw_text k)) else None)"

definition kw_name :: "keyword \<Rightarrow> string" where
  "kw_name k = (if kw_boundary k = 0 then kw_text k else drop (kw_boundary k + 1) (kw_text k))"

definition kw_components :: "keyword \<Rightarrow> string \<times> string" where
  "kw_components k =
     (if kw_boundary k > 0
      then (take (kw_boundary k) (kw_text k), drop (kw_boundary k + 1) (kw_text k))
      else ([], kw_text k))"

definition kw_is_backward :: "keyword \<Rightarrow> bool" where
  "kw_is_backward k = (case kw_name k of [] \<Rightarrow> False | c # _ \<Rightarrow> c = CHR ''_'')"

definition kw_to_reversed :: "keyword \<Rightarrow> keyword result" where
  "kw_to_reversed k =
     (let n = (case kw_name k of
                 [] \<Rightarrow> ''_'' @ kw_name k
               | c # cs \<Rightarrow> if c = CHR ''_'' then cs else ''_'' @ kw_name k)
      in case kw_namespace k of Some ns \<Rightarrow> kw_namespaced ns n | None \<Rightarrow> kw_plain n)"

text \<open>The order of keywords: by namespace, then by name; the empty namespace comes first.\<close>

definition kw_less :: "keyword \<Rightarrow> keyword \<Rightarrow> bool" where
  "kw_less a b =
     (let (na, ma) = kw_components a; (nb, mb) = kw_components b
      in na < nb \<or> na = nb \<and> ma < mb)"

text \<open>What the constructors guarantee: the boundary is 0 or the position of the solidus.\<close>

definition kw_wf :: "keyword \<Rightarrow> bool" where
  "kw_wf k \<longleftrightarrow>
     (if kw_boundary k = 0 then kw_text k \<noteq> []
      else Suc (kw_boundary k) < length (kw_text k) \<and> kw_text k ! kw_boundary k = CHR ''/'')"

lemma kw_plain_wf: "kw_plain n = Inr k \<Longrightarrow> kw_wf k"
  by (auto simp: kw_plain_def kw_wf_def split: if_splits)

lemma kw_namespaced_wf: "kw_namespaced ns n = Inr k \<Longrightarrow> kw_wf k"
  by (auto simp: kw_namespaced_def kw_wf_def nth_append split: if_splits)

lemma kw_plain_parts:
  "kw_plain n = Inr k \<Longrightarrow> kw_namespace k = None \<and> kw_name k = n \<and> kw_components k = ([], n)"
  by (auto simp: kw_plain_def kw_namespace_def kw_name_def kw_components_def split: if_splits)

lemma kw_namespaced_parts:
  "kw_namespaced ns n = Inr k \<Longrightarrow>
     kw_namespace k = Some ns \<and> kw_name k = n \<and> kw_components k = (ns, n)"
  by (auto simp: kw_namespaced_def kw_namespace_def kw_name_def kw_components_def split: if_splits)

lemma kw_rebuild:
  assumes "kw_wf k"
  shows "(case kw_namespace k of None \<Rightarrow> kw_plain (kw_name k)
          | Some ns \<Rightarrow> kw_namespaced ns (kw_name k)) = Inr k"
proof (cases "kw_boundary k = 0")
  case True
  with assms show ?thesis
    by (simp add: kw_wf_def kw_namespace_def kw_name_def kw_plain_def)
next
  case False
  with assms have len: "Suc (kw_boundary k) < length (kw_text k)"
    and slash: "kw_text k ! kw_boundary k = CHR ''/''" by (simp_all add: kw_wf_def)
  have "take (kw_boundary k) (kw_text k) @ ''/'' @ drop (Suc (kw_boundary k)) (kw_text k) = kw_text k"
    using len slash id_take_nth_drop [of "kw_boundary k" "kw_text k"] by simp
  with False len show ?thesis
    by (auto simp: kw_namespace_def kw_name_def kw_namespaced_def min_def intro: keyword.equality)
qed

lemma kw_name_nonempty: "kw_wf k \<Longrightarrow> kw_name k \<noteq> []"
  by (auto simp: kw_wf_def kw_name_def split: if_splits)

lemma kw_namespace_nonempty: "kw_wf k \<Longrightarrow> kw_namespace k \<noteq> Some []"
  by (auto simp: kw_wf_def kw_namespace_def split: if_splits)

text \<open>Keyword literals, the \<^verbatim>\<open>kw!\<close> macro of the source.\<close>

definition kw :: "string \<Rightarrow> string \<Rightarrow> keyword" where
  "kw ns n = \<lparr>kw_text = ns @ ''/'' @ n, kw_boundary = length ns\<rparr>"

lemma kw_eq_iff: "kw a b = kw c d \<longleftrightarrow> a = c \<and> b = d"
  by (auto simp: kw_def)

text \<open>Variables of queries, by name.\<close>

type_synonym variable = string

section \<open>Values\<close>

record datetime =
  dt_micros :: i64
  dt_subnanos :: nat

datatype data_type =
    DBigInt i128
  | DBoolean bool
  | DBytes bytes
  | DDouble u64
  | DFloat u32
  | DInstant datetime
  | DKeyword keyword
  | DLong i64
  | DString string
  | DUuid "128 word"
  | DVector "data_type list"
  | DMap "(string \<times> data_type) list"

definition TAG_BIG_INT :: u8 where "TAG_BIG_INT = 1"
definition TAG_BOOLEAN :: u8 where "TAG_BOOLEAN = 2"
definition TAG_BYTES :: u8 where "TAG_BYTES = 3"
definition TAG_DOUBLE :: u8 where "TAG_DOUBLE = 4"
definition TAG_FLOAT :: u8 where "TAG_FLOAT = 5"
definition TAG_INSTANT :: u8 where "TAG_INSTANT = 6"
definition TAG_LONG :: u8 where "TAG_LONG = 7"
definition TAG_STRING :: u8 where "TAG_STRING = 9"
definition TAG_UUID :: u8 where "TAG_UUID = 10"
definition TAG_VECTOR :: u8 where "TAG_VECTOR = 11"
definition TAG_MAP :: u8 where "TAG_MAP = 12"
definition TAG_KEYWORD :: u8 where "TAG_KEYWORD = 13"

lemmas tag_defs = TAG_BIG_INT_def TAG_BOOLEAN_def TAG_BYTES_def TAG_DOUBLE_def TAG_FLOAT_def
  TAG_INSTANT_def TAG_LONG_def TAG_STRING_def TAG_UUID_def TAG_VECTOR_def TAG_MAP_def
  TAG_KEYWORD_def

fun data_type_tag :: "data_type \<Rightarrow> u8" where
  "data_type_tag (DBigInt _) = TAG_BIG_INT"
| "data_type_tag (DBoolean _) = TAG_BOOLEAN"
| "data_type_tag (DBytes _) = TAG_BYTES"
| "data_type_tag (DDouble _) = TAG_DOUBLE"
| "data_type_tag (DFloat _) = TAG_FLOAT"
| "data_type_tag (DInstant _) = TAG_INSTANT"
| "data_type_tag (DKeyword _) = TAG_KEYWORD"
| "data_type_tag (DLong _) = TAG_LONG"
| "data_type_tag (DString _) = TAG_STRING"
| "data_type_tag (DUuid _) = TAG_UUID"
| "data_type_tag (DVector _) = TAG_VECTOR"
| "data_type_tag (DMap _) = TAG_MAP"

text \<open>No tag is the byte 0, which ends composites.\<close>

lemma data_type_tag_nonzero [simp]: "data_type_tag v \<noteq> 0"
  by (cases v) (simp_all add: tag_defs)

section \<open>Floating-point bit patterns\<close>

text \<open>
  IEEE 754 comparison on bit patterns with \<open>m\<close> fraction bits in a word of width
  \<open>w\<close>: the magnitude is the pattern without its sign bit, read as a number.
\<close>

definition f_sign :: "'a::len word \<Rightarrow> bool" where
  "f_sign b \<longleftrightarrow> 2 ^ (LENGTH('a) - 1) \<le> unat b"

definition f_mag :: "'a::len word \<Rightarrow> nat" where
  "f_mag b = unat b mod 2 ^ (LENGTH('a) - 1)"

definition f_key :: "'a::len word \<Rightarrow> int" where
  "f_key b = (if f_sign b then - int (f_mag b) else int (f_mag b))"

definition f64_is_nan :: "u64 \<Rightarrow> bool" where
  "f64_is_nan b \<longleftrightarrow> 0x7FF0000000000000 < f_mag b"

definition f32_is_nan :: "u32 \<Rightarrow> bool" where
  "f32_is_nan b \<longleftrightarrow> 0x7F800000 < f_mag b"

datatype ordering = Less | Equal | Greater

definition cmp_int :: "int \<Rightarrow> int \<Rightarrow> ordering" where
  "cmp_int a b = (if a < b then Less else if a = b then Equal else Greater)"

definition f64_partial_cmp :: "u64 \<Rightarrow> u64 \<Rightarrow> ordering option" where
  "f64_partial_cmp a b =
     (if f64_is_nan a \<or> f64_is_nan b then None else Some (cmp_int (f_key a) (f_key b)))"

definition f32_partial_cmp :: "u32 \<Rightarrow> u32 \<Rightarrow> ordering option" where
  "f32_partial_cmp a b =
     (if f32_is_nan a \<or> f32_is_nan b then None else Some (cmp_int (f_key a) (f_key b)))"

text \<open>
  The cast of an integer to a float rounds to the nearest value, ties to even. \<open>m\<close> is
  the number of fraction bits, \<open>bias\<close> the exponent bias; the rounded significand
  carries into the exponent when it overflows.
\<close>

definition round_shift :: "nat \<Rightarrow> nat \<Rightarrow> nat" where
  "round_shift s n =
     (let q = n div 2 ^ s; r = 2 * (n mod 2 ^ s)
      in if r > 2 ^ s \<or> r = 2 ^ s \<and> odd q then Suc q else q)"

fun bit_length :: "nat \<Rightarrow> nat" where
  "bit_length n = (if n = 0 then 0 else Suc (bit_length (n div 2)))"

declare bit_length.simps [simp del]

definition nat_to_fbits :: "nat \<Rightarrow> nat \<Rightarrow> nat \<Rightarrow> nat" where
  "nat_to_fbits m bias n =
     (if n = 0 then 0
      else let k = bit_length n - 1
           in if k \<le> m then (k + bias - 1) * 2 ^ m + n * 2 ^ (m - k)
              else (k + bias - 1) * 2 ^ m + round_shift (k - m) n)"

definition int_to_f64 :: "int \<Rightarrow> u64" where
  "int_to_f64 x =
     word_of_nat ((if x < 0 then 2 ^ 63 else 0) + nat_to_fbits 52 1023 (nat \<bar>x\<bar>))"

definition int_to_f32 :: "int \<Rightarrow> u32" where
  "int_to_f32 x =
     word_of_nat ((if x < 0 then 2 ^ 31 else 0) + nat_to_fbits 23 127 (nat \<bar>x\<bar>))"

text \<open>The cast from single to double precision is exact; a NaN stays a NaN.\<close>

definition f32_to_f64 :: "u32 \<Rightarrow> u64" where
  "f32_to_f64 b =
     (let sign = (if f_sign b then 2 ^ 63 else 0); e = f_mag b div 2 ^ 23; f = f_mag b mod 2 ^ 23
      in word_of_nat (sign +
           (if e = 255 then 0x7FF * 2 ^ 52 + f * 2 ^ 29
            else if e = 0 then
              (if f = 0 then 0
               else let k = bit_length f - 1 in (k + 873) * 2 ^ 52 + f * 2 ^ (52 - k))
            else (e + 896) * 2 ^ 52 + f * 2 ^ 29)))"

section \<open>Comparison of values\<close>

definition nan_or :: "ordering option \<Rightarrow> ordering result" where
  "nan_or o' = ok_or o' ''cannot compare NaN values''"

definition cmp_str :: "string \<Rightarrow> string \<Rightarrow> ordering" where
  "cmp_str a b = (if a < b then Less else if a = b then Equal else Greater)"

definition cmp_instant :: "datetime \<Rightarrow> datetime \<Rightarrow> ordering" where
  "cmp_instant a b =
     (if sint (dt_micros a) = sint (dt_micros b)
      then cmp_int (int (dt_subnanos a)) (int (dt_subnanos b))
      else cmp_int (sint (dt_micros a)) (sint (dt_micros b)))"

definition incomparable :: "ordering result" where
  "incomparable = Error (Err ''cannot compare'')"

definition partial_compare :: "data_type \<Rightarrow> data_type \<Rightarrow> ordering result" where
  "partial_compare self other =
     (case self of
        DLong a \<Rightarrow>
          (case other of
             DLong b \<Rightarrow> Ok (cmp_int (sint a) (sint b))
           | DBigInt b \<Rightarrow> Ok (cmp_int (sint a) (sint b))
           | DDouble b \<Rightarrow> nan_or (f64_partial_cmp (int_to_f64 (sint a)) b)
           | DFloat b \<Rightarrow> nan_or (f32_partial_cmp (int_to_f32 (sint a)) b)
           | _ \<Rightarrow> incomparable)
      | DBigInt a \<Rightarrow>
          (case other of
             DBigInt b \<Rightarrow> Ok (cmp_int (sint a) (sint b))
           | DLong b \<Rightarrow> Ok (cmp_int (sint a) (sint b))
           | DFloat b \<Rightarrow> nan_or (f32_partial_cmp (int_to_f32 (sint a)) b)
           | DDouble b \<Rightarrow> nan_or (f64_partial_cmp (int_to_f64 (sint a)) b)
           | _ \<Rightarrow> incomparable)
      | DDouble a \<Rightarrow>
          (case other of
             DDouble b \<Rightarrow> nan_or (f64_partial_cmp a b)
           | DLong b \<Rightarrow> nan_or (f64_partial_cmp a (int_to_f64 (sint b)))
           | DBigInt b \<Rightarrow> nan_or (f64_partial_cmp a (int_to_f64 (sint b)))
           | DFloat b \<Rightarrow> nan_or (f64_partial_cmp a (f32_to_f64 b))
           | _ \<Rightarrow> incomparable)
      | DFloat a \<Rightarrow>
          (case other of
             DFloat b \<Rightarrow> nan_or (f32_partial_cmp a b)
           | DLong b \<Rightarrow> nan_or (f32_partial_cmp a (int_to_f32 (sint b)))
           | DBigInt b \<Rightarrow> nan_or (f32_partial_cmp a (int_to_f32 (sint b)))
           | DDouble b \<Rightarrow> nan_or (f64_partial_cmp (f32_to_f64 a) b)
           | _ \<Rightarrow> incomparable)
      | DString a \<Rightarrow> (case other of DString b \<Rightarrow> Ok (cmp_str a b) | _ \<Rightarrow> incomparable)
      | DBoolean a \<Rightarrow>
          (case other of DBoolean b \<Rightarrow> Ok (cmp_int (of_bool a) (of_bool b)) | _ \<Rightarrow> incomparable)
      | DInstant a \<Rightarrow> (case other of DInstant b \<Rightarrow> Ok (cmp_instant a b) | _ \<Rightarrow> incomparable)
      | _ \<Rightarrow> incomparable)"

text \<open>Equality of values as the derived \<^verbatim>\<open>PartialEq\<close> has it: floats by IEEE comparison.\<close>

fun dt_eq :: "data_type \<Rightarrow> data_type \<Rightarrow> bool"
  and dt_list_eq :: "data_type list \<Rightarrow> data_type list \<Rightarrow> bool"
  and dt_map_eq :: "(string \<times> data_type) list \<Rightarrow> (string \<times> data_type) list \<Rightarrow> bool" where
  "dt_eq (DBigInt a) b = (b = DBigInt a)"
| "dt_eq (DBoolean a) b = (b = DBoolean a)"
| "dt_eq (DBytes a) b = (b = DBytes a)"
| "dt_eq (DDouble a) b = (case b of DDouble b' \<Rightarrow> f64_partial_cmp a b' = Some Equal | _ \<Rightarrow> False)"
| "dt_eq (DFloat a) b = (case b of DFloat b' \<Rightarrow> f32_partial_cmp a b' = Some Equal | _ \<Rightarrow> False)"
| "dt_eq (DInstant a) b = (b = DInstant a)"
| "dt_eq (DKeyword a) b = (b = DKeyword a)"
| "dt_eq (DLong a) b = (b = DLong a)"
| "dt_eq (DString a) b = (b = DString a)"
| "dt_eq (DUuid a) b = (b = DUuid a)"
| "dt_eq (DVector a) b = (case b of DVector b' \<Rightarrow> dt_list_eq a b' | _ \<Rightarrow> False)"
| "dt_eq (DMap a) b = (case b of DMap b' \<Rightarrow> dt_map_eq a b' | _ \<Rightarrow> False)"
| "dt_list_eq [] ys = (ys = [])"
| "dt_list_eq (x # xs) ys = (case ys of [] \<Rightarrow> False | y # ys' \<Rightarrow> dt_eq x y \<and> dt_list_eq xs ys')"
| "dt_map_eq [] ys = (ys = [])"
| "dt_map_eq ((k, x) # xs) ys =
     (case ys of [] \<Rightarrow> False | (l, y) # ys' \<Rightarrow> k = l \<and> dt_eq x y \<and> dt_map_eq xs ys')"

text \<open>A value without a NaN: the values on which equality is reflexive.\<close>

definition dt_refl :: "data_type \<Rightarrow> bool" where
  "dt_refl v = dt_eq v v"

end
