(* ===== verification/Codec_Prim.thy ===== *)
theory Codec_Prim
  imports Data_Types
begin

text \<open>
  The primitive encodings of \<^verbatim>\<open>src/codec.rs\<close>: fixed-width integers, floats, booleans,
  escaped byte strings, text, instants, UUIDs and keywords. An encoder yields the bytes it
  appends to the buffer; a decoder takes the cursor and returns the value with the rest of
  the cursor, or the error.

  The interface every encoding offers its clients is the locale \<open>codec\<close> (decoding
  inverts encoding whatever follows), from which injectivity and prefix-freeness follow
  once; \<open>ordered_codec\<close> adds that the byte order reflects an order on values.
\<close>

section \<open>The codec interface\<close>

locale codec =
  fixes enc :: "'a \<Rightarrow> bytes"
    and dec :: "bytes \<Rightarrow> ('a \<times> bytes) result"
    and wf :: "'a \<Rightarrow> bool"
  assumes dec_enc: "wf x \<Longrightarrow> dec (enc x @ rest) = Ok (x, rest)"
begin

lemma enc_append_eq:
  assumes "wf x" and "wf y" and "enc x @ r = enc y @ s"
  shows "x = y \<and> r = s"
proof -
  have "dec (enc y @ s) = Inr (x, r)" using dec_enc [OF assms(1), of r] assms(3) by simp
  moreover have "dec (enc y @ s) = Inr (y, s)" using dec_enc [OF assms(2), of s] .
  ultimately show ?thesis by simp
qed

lemma enc_inj: "wf x \<Longrightarrow> wf y \<Longrightarrow> enc x = enc y \<Longrightarrow> x = y"
  using enc_append_eq [of x y "[]" "[]"] by simp

lemma enc_prefix_free: "wf x \<Longrightarrow> wf y \<Longrightarrow> prefix (enc x) (enc y) \<Longrightarrow> x = y"
  using enc_append_eq [of x y _ "[]"] by (auto simp: prefix_def)

lemma enc_prefix_key: "wf x \<Longrightarrow> wf y \<Longrightarrow> prefix (enc x) (enc y @ s) \<longleftrightarrow> x = y"
  using enc_append_eq [of y x s] by (auto elim: prefixE)

end

locale ordered_codec = codec +
  fixes less :: "'a \<Rightarrow> 'a \<Rightarrow> bool"
  assumes less_enc: "wf x \<Longrightarrow> wf y \<Longrightarrow> less x y \<Longrightarrow> enc x < enc y"
begin

lemma less_enc_append:
  assumes "wf x" and "wf y" and "less x y"
  shows "enc x @ r < enc y @ s"
proof -
  have lt: "enc x < enc y" using assms by (rule less_enc)
  moreover have "\<not> prefix (enc x) (enc y)" using enc_prefix_free [OF assms(1,2)] lt by auto
  ultimately show ?thesis by (rule lex_less_appendI)
qed

end

section \<open>Integers\<close>

definition split_at :: "nat \<Rightarrow> string \<Rightarrow> bytes \<Rightarrow> (bytes \<times> bytes) result" where
  "split_at n msg cursor =
     (if length cursor < n then Error (Err msg) else Ok (take n cursor, drop n cursor))"

definition i64_MAX :: i64 where "i64_MAX = 0x7FFFFFFFFFFFFFFF"
definition i128_MAX :: i128 where "i128_MAX = 0x7FFFFFFFFFFFFFFFFFFFFFFFFFFFFFFF"

definition encode_i64_bytes :: "i64 \<Rightarrow> bytes" where
  "encode_i64_bytes value = to_be_bytes (value XOR i64_MAX)"

definition encode_i64 :: "i64 \<Rightarrow> bytes" where
  "encode_i64 value = encode_i64_bytes value"

definition decode_i64 :: "bytes \<Rightarrow> (i64 \<times> bytes) result" where
  "decode_i64 cursor =
     rbind (split_at 8 ''not enough bytes for i64'' cursor)
       (\<lambda>(bs, cursor'). Ok (from_be_bytes bs XOR i64_MAX, cursor'))"

definition encode_i128 :: "i128 \<Rightarrow> bytes" where
  "encode_i128 value = to_be_bytes (value XOR i128_MAX)"

definition decode_i128 :: "bytes \<Rightarrow> (i128 \<times> bytes) result" where
  "decode_i128 cursor =
     rbind (split_at 16 ''not enough bytes for i128'' cursor)
       (\<lambda>(bs, cursor'). Ok (from_be_bytes bs XOR i128_MAX, cursor'))"

definition encode_u64 :: "u64 \<Rightarrow> bytes" where
  "encode_u64 value = to_be_bytes value"

definition decode_u64 :: "bytes \<Rightarrow> (u64 \<times> bytes) result" where
  "decode_u64 cursor =
     rbind (split_at 8 ''not enough bytes for u64'' cursor)
       (\<lambda>(bs, cursor'). Ok (from_be_bytes bs, cursor'))"

lemma split_at_append: "length bs = n \<Longrightarrow> split_at n msg (bs @ rest) = Ok (bs, rest)"
  by (simp add: split_at_def)

lemma split_at_short: "length cursor < n \<Longrightarrow> split_at n msg cursor = Error (Err msg)"
  by (simp add: split_at_def)

lemma length_encode_i64 [simp]: "length (encode_i64_bytes v) = 8" "length (encode_i64 v) = 8"
  by (simp_all add: encode_i64_def encode_i64_bytes_def)

lemma length_encode_i128 [simp]: "length (encode_i128 v) = 16"
  by (simp add: encode_i128_def)

lemma i64_MAX_mask: "i64_MAX = mask (LENGTH(64) - 1)"
  by (simp add: i64_MAX_def mask_eq_exp_minus_1)

lemma i128_MAX_mask: "i128_MAX = mask (LENGTH(128) - 1)"
  by (simp add: i128_MAX_def mask_eq_exp_minus_1)

lemma xor_cancel: "(v XOR m) XOR m = (v :: 'a::len word)"
  by (simp add: xor.assoc)

lemma decode_encode_i64 [codec_simps]: "decode_i64 (encode_i64 v @ rest) = Ok (v, rest)"
  by (simp add: decode_i64_def encode_i64_def encode_i64_bytes_def split_at_append
      from_to_be_bytes xor_cancel)

lemma decode_encode_i128 [codec_simps]: "decode_i128 (encode_i128 v @ rest) = Ok (v, rest)"
  by (simp add: decode_i128_def encode_i128_def split_at_append from_to_be_bytes xor_cancel)

lemma decode_encode_u64 [codec_simps]: "decode_u64 (encode_u64 v @ rest) = Ok (v, rest)"
  by (simp add: decode_u64_def encode_u64_def split_at_append from_to_be_bytes)

text \<open>The signed encodings reverse the order: larger integers come first in byte order.\<close>

lemma uint_xor_i64_MAX: "uint (v XOR i64_MAX) = 2 ^ 63 - 1 - sint v"
  using uint_xor_max [of v] by (simp add: i64_MAX_mask)

lemma uint_xor_i128_MAX: "uint (v XOR i128_MAX) = 2 ^ 127 - 1 - sint v"
  using uint_xor_max [of v] by (simp add: i128_MAX_mask)

lemma encode_i64_less_iff: "encode_i64 a < encode_i64 b \<longleftrightarrow> sint b < sint a"
  by (simp add: encode_i64_def encode_i64_bytes_def to_be_bytes_less_iff word_less_def
      uint_xor_i64_MAX)

lemma encode_i128_less_iff: "encode_i128 a < encode_i128 b \<longleftrightarrow> sint b < sint a"
  by (simp add: encode_i128_def to_be_bytes_less_iff word_less_def uint_xor_i128_MAX)

lemma encode_u64_less_iff: "encode_u64 a < encode_u64 b \<longleftrightarrow> a < b"
  by (simp add: encode_u64_def to_be_bytes_less_iff)

interpretation i64: ordered_codec encode_i64 decode_i64 "\<lambda>_. True" "\<lambda>a b. sint b < sint a"
  by unfold_locales (simp_all add: codec_simps encode_i64_less_iff)

interpretation i128: ordered_codec encode_i128 decode_i128 "\<lambda>_. True" "\<lambda>a b. sint b < sint a"
  by unfold_locales (simp_all add: codec_simps encode_i128_less_iff)

interpretation u64: ordered_codec encode_u64 decode_u64 "\<lambda>_. True" "(<)"
  by unfold_locales (simp_all add: codec_simps encode_u64_less_iff)

section \<open>Floats\<close>

definition encode_f64 :: "u64 \<Rightarrow> bytes" where
  "encode_f64 bits =
     (let sign_mask = 0x8000000000000000;
          sortable = (if bits AND sign_mask \<noteq> 0 then NOT bits else bits XOR sign_mask)
      in to_be_bytes sortable)"

definition decode_f64 :: "bytes \<Rightarrow> (u64 \<times> bytes) result" where
  "decode_f64 cursor =
     rbind (split_at 8 ''not enough bytes for f64'' cursor)
       (\<lambda>(bs, cursor').
          let sortable = from_be_bytes bs; sign_mask = 0x8000000000000000;
              bits = (if sortable AND sign_mask \<noteq> 0 then sortable XOR sign_mask else NOT sortable)
          in Ok (bits, cursor'))"

definition encode_f32 :: "u32 \<Rightarrow> bytes" where
  "encode_f32 bits =
     (let sign_mask = 0x80000000;
          sortable = (if bits AND sign_mask \<noteq> 0 then NOT bits else bits XOR sign_mask)
      in to_be_bytes sortable)"

definition decode_f32 :: "bytes \<Rightarrow> (u32 \<times> bytes) result" where
  "decode_f32 cursor =
     rbind (split_at 4 ''not enough bytes for f32'' cursor)
       (\<lambda>(bs, cursor').
          let sortable = from_be_bytes bs; sign_mask = 0x80000000;
              bits = (if sortable AND sign_mask \<noteq> 0 then sortable XOR sign_mask else NOT sortable)
          in Ok (bits, cursor'))"

text \<open>Both widths at once: the sortable pattern of a float and its inverse.\<close>

definition sign_bit :: "'a::len word" where
  "sign_bit = 2 ^ (LENGTH('a) - 1)"

definition sortable :: "'a::len word \<Rightarrow> 'a word" where
  "sortable b = (if b AND sign_bit \<noteq> 0 then NOT b else b XOR sign_bit)"

definition unsortable :: "'a::len word \<Rightarrow> 'a word" where
  "unsortable b = (if b AND sign_bit \<noteq> 0 then b XOR sign_bit else NOT b)"

lemma bit_sign_bit: "bit (sign_bit :: 'a::len word) n \<longleftrightarrow> n = LENGTH('a) - 1"
  by (auto simp: sign_bit_def bit_simps)

lemma and_sign_bit: "b AND sign_bit = 0 \<longleftrightarrow> \<not> bit b (LENGTH('a) - 1)" for b :: "'a::len word"
proof
  assume "b AND sign_bit = 0"
  then have "\<not> bit (b AND sign_bit) (LENGTH('a) - 1)" by simp
  then show "\<not> bit b (LENGTH('a) - 1)" by (simp add: bit_and_iff bit_sign_bit)
next
  assume "\<not> bit b (LENGTH('a) - 1)"
  then show "b AND sign_bit = 0" by (intro bit_eqI) (auto simp: bit_and_iff bit_sign_bit)
qed

lemma unsortable_sortable [simp]: "unsortable (sortable b) = (b :: 'a::len word)"
proof (cases "bit b (LENGTH('a) - 1)")
  case True
  then have s: "sortable b = NOT b" by (simp add: sortable_def and_sign_bit)
  then have "\<not> bit (sortable b) (LENGTH('a) - 1)" using True by (simp add: bit_simps)
  then show ?thesis by (simp add: unsortable_def and_sign_bit s)
next
  case False
  then have s: "sortable b = b XOR sign_bit" by (simp add: sortable_def and_sign_bit)
  then have "bit (sortable b) (LENGTH('a) - 1)" using False by (simp add: bit_xor_iff bit_sign_bit)
  then show ?thesis by (simp add: unsortable_def and_sign_bit s xor.assoc)
qed

lemma f_sign_bit: "f_sign b \<longleftrightarrow> bit b (LENGTH('a) - 1)" for b :: "'a::len word"
proof -
  have "unat b < 2 * 2 ^ (LENGTH('a) - 1)"
    using unsigned_less [where ?'a = nat and w = b] by (simp flip: power_Suc)
  then have "unat b div 2 ^ (LENGTH('a) - 1) < 2" by (simp add: less_mult_imp_div_less)
  then have "unat b div 2 ^ (LENGTH('a) - 1) = 0 \<or> unat b div 2 ^ (LENGTH('a) - 1) = 1"
    by linarith
  moreover have "bit b (LENGTH('a) - 1) \<longleftrightarrow> odd (unat b div 2 ^ (LENGTH('a) - 1))"
    by (simp add: bit_unsigned_iff flip: bit_iff_odd)
  moreover have "f_sign b \<longleftrightarrow> 0 < unat b div 2 ^ (LENGTH('a) - 1)"
    by (simp add: f_sign_def div_greater_zero_iff)
  ultimately show ?thesis by auto
qed

lemma unat_sortable:
  "unat (sortable b) =
     (if f_sign b then 2 ^ LENGTH('a) - 1 - unat b else unat b + 2 ^ (LENGTH('a) - 1))"
  for b :: "'a::len word"
proof (cases "f_sign b")
  case True
  then show ?thesis by (simp add: sortable_def and_sign_bit f_sign_bit unat_not)
next
  case False
  then have clear: "\<not> bit b (LENGTH('a) - 1)" by (simp add: f_sign_bit)
  then have "sortable b = b XOR sign_bit" by (simp add: sortable_def and_sign_bit)
  also have "\<dots> = b + sign_bit"
  proof -
    have "b + sign_bit = b OR sign_bit"
      by (rule disjunctive_add) (use clear in \<open>auto simp: bit_sign_bit\<close>)
    also have "\<dots> = b XOR sign_bit"
      by (rule bit_eqI) (use clear in \<open>auto simp: bit_sign_bit bit_simps\<close>)
    finally show ?thesis ..
  qed
  finally have s: "sortable b = b + sign_bit" .
  have lt: "unat b < 2 ^ (LENGTH('a) - 1)" using False by (simp add: f_sign_def)
  have u: "unat (sign_bit :: 'a word) = 2 ^ (LENGTH('a) - 1)"
    using unat_of_nat [of "2 ^ (LENGTH('a) - 1)", where ?'a = 'a] by (simp add: sign_bit_def)
  have "(2 :: nat) ^ LENGTH('a) = 2 ^ (LENGTH('a) - 1) + 2 ^ (LENGTH('a) - 1)"
    by (metis One_nat_def Suc_pred len_gt_0 mult_2 power_Suc)
  with lt u have "unat (b + sign_bit) = unat b + 2 ^ (LENGTH('a) - 1)"
    by (simp add: unat_word_ariths)
  with False s show ?thesis by simp
qed

text \<open>
  Byte order against IEEE order: a smaller float has a smaller sortable pattern. Two
  patterns that compare as equal are the same pattern or the two zeros, of which the
  negative one comes first.
\<close>

lemma f_key_less_sortable:
  assumes "f_key a < f_key (b :: 'a::len word)"
  shows "sortable a < sortable b"
proof -
  let ?h = "2 ^ (LENGTH('a) - 1) :: nat"
  have full: "(2 :: nat) ^ LENGTH('a) = ?h + ?h"
    by (metis One_nat_def Suc_pred len_gt_0 mult_2 power_Suc)
  have bound: "unat w < ?h + ?h" for w :: "'a word"
    using unsigned_less [where ?'a = nat and w = w] full by simp
  have mag: "f_mag w = (if f_sign w then unat w - ?h else unat w)" for w :: "'a word"
    using bound [of w] by (auto simp: f_mag_def f_sign_def le_mod_geq)
  have pos: "f_sign w \<longleftrightarrow> ?h \<le> unat w" for w :: "'a word" by (simp add: f_sign_def)
  have "f_sign a \<and> \<not> f_sign b \<or> f_sign a \<and> f_sign b \<and> f_mag b < f_mag a
      \<or> \<not> f_sign a \<and> \<not> f_sign b \<and> f_mag a < f_mag b"
    using assms by (auto simp: f_key_def split: if_splits)
  then show ?thesis
    using bound [of a] bound [of b] pos [of a] pos [of b]
    by (auto simp: word_less_nat_alt unat_sortable mag full) arith
qed

lemma encode_f64_sortable: "encode_f64 b = to_be_bytes (sortable b)"
  by (simp add: encode_f64_def sortable_def sign_bit_def Let_def)

lemma encode_f32_sortable: "encode_f32 b = to_be_bytes (sortable b)"
  by (simp add: encode_f32_def sortable_def sign_bit_def Let_def)

lemma decode_encode_f64 [codec_simps]: "decode_f64 (encode_f64 v @ rest) = Ok (v, rest)"
proof -
  have "decode_f64 (encode_f64 v @ rest) = Ok (unsortable (sortable v), rest)"
    unfolding encode_f64_sortable
    by (simp add: decode_f64_def split_at_append from_to_be_bytes Let_def unsortable_def sign_bit_def)
  then show ?thesis by simp
qed

lemma decode_encode_f32 [codec_simps]: "decode_f32 (encode_f32 v @ rest) = Ok (v, rest)"
proof -
  have "decode_f32 (encode_f32 v @ rest) = Ok (unsortable (sortable v), rest)"
    unfolding encode_f32_sortable
    by (simp add: decode_f32_def split_at_append from_to_be_bytes Let_def unsortable_def sign_bit_def)
  then show ?thesis by simp
qed

lemma cmp_int_eq [simp]:
  "cmp_int a b = Less \<longleftrightarrow> a < b" "cmp_int a b = Equal \<longleftrightarrow> a = b" "cmp_int a b = Greater \<longleftrightarrow> b < a"
  by (auto simp: cmp_int_def)

lemma encode_f64_less: "f64_partial_cmp a b = Some Less \<Longrightarrow> encode_f64 a < encode_f64 b"
  by (simp add: encode_f64_sortable to_be_bytes_less_iff f64_partial_cmp_def f_key_less_sortable
      split: if_splits)

lemma encode_f32_less: "f32_partial_cmp a b = Some Less \<Longrightarrow> encode_f32 a < encode_f32 b"
  by (simp add: encode_f32_sortable to_be_bytes_less_iff f32_partial_cmp_def f_key_less_sortable
      split: if_splits)

interpretation f64: ordered_codec encode_f64 decode_f64 "\<lambda>_. True"
  "\<lambda>a b. f64_partial_cmp a b = Some Less"
  by unfold_locales (simp_all add: codec_simps encode_f64_less)

interpretation f32: ordered_codec encode_f32 decode_f32 "\<lambda>_. True"
  "\<lambda>a b. f32_partial_cmp a b = Some Less"
  by unfold_locales (simp_all add: codec_simps encode_f32_less)

section \<open>Booleans and byte strings\<close>

definition encode_bool :: "bool \<Rightarrow> bytes" where
  "encode_bool value = [if value then 0x01 else 0x00]"

definition decode_bool :: "bytes \<Rightarrow> (bool \<times> bytes) result" where
  "decode_bool cursor =
     (case cursor of
        [] \<Rightarrow> Error (Err ''not enough bytes for bool'')
      | byte # cursor' \<Rightarrow>
          if byte = 0x00 then Ok (False, cursor')
          else if byte = 0x01 then Ok (True, cursor')
          else Error (Err ''invalid bool byte''))"

definition escape_byte :: "u8 \<Rightarrow> bytes" where
  "escape_byte b = (if b = 0x00 then [0x01, 0x01] else if b = 0x01 then [0x01, 0x02] else [b])"

definition encode_bytes :: "bytes \<Rightarrow> bytes" where
  "encode_bytes value = concat (map escape_byte value) @ [0x00]"

fun decode_bytes_loop :: "bytes \<Rightarrow> bytes \<Rightarrow> (bytes \<times> bytes) result" where
  "decode_bytes_loop acc [] = Error (Err ''unexpected end of input in bytes'')"
| "decode_bytes_loop acc (b # cursor) =
     (if b = 0x00 then Ok (acc, cursor)
      else if b = 0x01 then
        (case cursor of
           [] \<Rightarrow> Error (Err ''unexpected end of input after escape byte'')
         | next # cursor' \<Rightarrow>
             if next = 0x01 then decode_bytes_loop (acc @ [0x00]) cursor'
             else if next = 0x02 then decode_bytes_loop (acc @ [0x01]) cursor'
             else Error (Err ''invalid escape sequence''))
      else decode_bytes_loop (acc @ [b]) cursor)"

definition decode_bytes :: "bytes \<Rightarrow> (bytes \<times> bytes) result" where
  "decode_bytes cursor = decode_bytes_loop [] cursor"

lemma decode_encode_bool [codec_simps]: "decode_bool (encode_bool v @ rest) = Ok (v, rest)"
  by (simp add: decode_bool_def encode_bool_def)

lemma decode_bytes_loop_escaped:
  "decode_bytes_loop acc (concat (map escape_byte v) @ 0 # rest) = Ok (acc @ v, rest)"
  by (induction v arbitrary: acc) (simp_all add: escape_byte_def)

lemma decode_encode_bytes [codec_simps]: "decode_bytes (encode_bytes v @ rest) = Ok (v, rest)"
  by (simp add: decode_bytes_def encode_bytes_def decode_bytes_loop_escaped)

lemma encode_bytes_Cons: "encode_bytes (b # bs) = escape_byte b @ encode_bytes bs"
  by (simp add: encode_bytes_def)

lemma encode_bytes_Nil: "encode_bytes [] = [0]"
  by (simp add: encode_bytes_def)

lemma word_pos_iff: "(0 < (b :: u8)) \<longleftrightarrow> b \<noteq> 0"
  by (simp add: word_neq_0_conv)

lemma escape_byte_less:
  assumes "a < b"
  shows "escape_byte a @ r < escape_byte b @ s"
proof -
  have "b \<noteq> 0" using assms by auto
  moreover have "a \<noteq> 0 \<Longrightarrow> a \<noteq> 1 \<Longrightarrow> b \<noteq> 1" using assms word_pos_iff [of a] by unat_arith
  moreover have "a \<noteq> 0 \<Longrightarrow> a = 1 \<Longrightarrow> b \<noteq> 1" using assms by auto
  moreover have "b \<noteq> 0 \<Longrightarrow> b \<noteq> 1 \<Longrightarrow> 1 < b" by unat_arith
  ultimately show ?thesis using assms by (auto simp: escape_byte_def)
qed

lemma escape_byte_pos: "[0] @ s < escape_byte b @ r"
  by (simp add: escape_byte_def word_pos_iff)

lemma encode_bytes_less: "a < b \<Longrightarrow> encode_bytes a < encode_bytes b"
proof (induction a arbitrary: b)
  case Nil
  then obtain c cs where "b = c # cs" by (cases b) auto
  then show ?case
    using escape_byte_pos [of "[]" c "encode_bytes cs"] by (simp add: encode_bytes_Cons encode_bytes_Nil)
next
  case (Cons x xs)
  then obtain y ys where b: "b = y # ys" by (cases b) auto
  with Cons show ?case by (auto simp: encode_bytes_Cons escape_byte_less)
qed

lemma encode_bool_less: "\<not> a \<and> b \<Longrightarrow> encode_bool a < encode_bool b"
  by (simp add: encode_bool_def)

interpretation bools: ordered_codec encode_bool decode_bool "\<lambda>_. True" "\<lambda>a b. \<not> a \<and> b"
  by unfold_locales (simp_all add: codec_simps encode_bool_less)

interpretation blob: ordered_codec encode_bytes decode_bytes "\<lambda>_. True" "(<)"
  by unfold_locales (simp_all add: codec_simps encode_bytes_less)

section \<open>Text\<close>

definition as_bytes :: "string \<Rightarrow> bytes" where
  "as_bytes s = map of_char s"

definition of_bytes :: "bytes \<Rightarrow> string" where
  "of_bytes bs = map (\<lambda>b. char_of (unat b)) bs"

text \<open>
  \<^verbatim>\<open>String::from_utf8\<close> accepts exactly the well-formed UTF-8 sequences: shortest forms,
  no surrogates, no code point above 10FFFF.
\<close>

definition utf8_cont :: "u8 \<Rightarrow> bool" where
  "utf8_cont b \<longleftrightarrow> 0x80 \<le> b \<and> b \<le> 0xBF"

fun utf8_valid :: "bytes \<Rightarrow> bool" where
  "utf8_valid [] = True"
| "utf8_valid (b # bs) =
     (if b \<le> 0x7F then utf8_valid bs
      else if 0xC2 \<le> b \<and> b \<le> 0xDF then
        (case bs of c # rest \<Rightarrow> utf8_cont c \<and> utf8_valid rest | _ \<Rightarrow> False)
      else if 0xE0 \<le> b \<and> b \<le> 0xEF then
        (case bs of
           c # d # rest \<Rightarrow>
             utf8_cont c \<and> (b = 0xE0 \<longrightarrow> 0xA0 \<le> c) \<and> (b = 0xED \<longrightarrow> c \<le> 0x9F) \<and>
             utf8_cont d \<and> utf8_valid rest
         | _ \<Rightarrow> False)
      else if 0xF0 \<le> b \<and> b \<le> 0xF4 then
        (case bs of
           c # d # e # rest \<Rightarrow>
             utf8_cont c \<and> (b = 0xF0 \<longrightarrow> 0x90 \<le> c) \<and> (b = 0xF4 \<longrightarrow> c \<le> 0x8F) \<and>
             utf8_cont d \<and> utf8_cont e \<and> utf8_valid rest
         | _ \<Rightarrow> False)
      else False)"

definition str_wf :: "string \<Rightarrow> bool" where
  "str_wf s = utf8_valid (as_bytes s)"

definition encode_string :: "string \<Rightarrow> bytes" where
  "encode_string value = encode_bytes (as_bytes value)"

definition decode_string :: "bytes \<Rightarrow> (string \<times> bytes) result" where
  "decode_string cursor =
     rbind (decode_bytes cursor)
       (\<lambda>(bs, cursor').
          if utf8_valid bs then Ok (of_bytes bs, cursor') else Error (Err ''invalid UTF-8''))"

lemma unat_of_char: "unat (of_char c :: u8) = of_char c"
proof -
  have "(of_char c :: nat) < 256" by simp
  moreover have "(of_char c :: u8) = word_of_nat (of_char c)" by (simp add: of_nat_of_char)
  ultimately show ?thesis by (simp add: unat_of_nat)
qed

lemma of_bytes_as_bytes [simp]: "of_bytes (as_bytes s) = s"
  by (induction s) (simp_all add: of_bytes_def as_bytes_def unat_of_char)

lemma of_char_less_iff: "(of_char c :: u8) < of_char d \<longleftrightarrow> c < d"
  by (simp add: word_less_nat_alt unat_of_char less_char_def)

lemma of_char_eq_iff: "(of_char c :: u8) = of_char d \<longleftrightarrow> c = d"
  by (metis char_of_char unat_of_char)

lemma as_bytes_less: "a < b \<Longrightarrow> as_bytes a < as_bytes b"
proof (induction a arbitrary: b)
  case Nil
  then show ?case by (cases b) (auto simp: as_bytes_def)
next
  case (Cons x xs)
  then show ?case by (cases b) (auto simp: as_bytes_def of_char_less_iff)
qed

lemma decode_encode_string [codec_simps]:
  "str_wf s \<Longrightarrow> decode_string (encode_string s @ rest) = Ok (s, rest)"
  by (simp add: decode_string_def encode_string_def codec_simps str_wf_def)

lemma encode_string_less: "a < b \<Longrightarrow> encode_string a < encode_string b"
  by (simp add: encode_string_def encode_bytes_less as_bytes_less)

interpretation str: ordered_codec encode_string decode_string str_wf "(<)"
  by unfold_locales (simp_all add: codec_simps encode_string_less)

section \<open>Instants, UUIDs and keywords\<close>

text \<open>
  \<open>timestamp_opt\<close> stands for the constructor of instants in the chrono crate, which is
  not part of the repository: it takes seconds and nanoseconds and may refuse them. What
  the code relies on is \<open>timestamp_law\<close>: on the supported seconds it makes the instant
  with that many microseconds.
\<close>

type_synonym timestamp_opt = "i64 \<Rightarrow> u32 \<Rightarrow> datetime option"

definition timestamp_law :: "timestamp_opt \<Rightarrow> (int \<Rightarrow> bool) \<Rightarrow> bool" where
  "timestamp_law ts supported \<longleftrightarrow>
     (\<forall>secs nanos. supported (sint secs) \<and> unat nanos < 1000000000 \<longrightarrow>
        ts secs nanos =
          Some \<lparr>dt_micros = secs * 1000000 + word_of_nat (unat nanos div 1000),
                dt_subnanos = unat nanos mod 1000\<rparr>)"

definition micros_to_datetime :: "timestamp_opt \<Rightarrow> i64 \<Rightarrow> datetime result" where
  "micros_to_datetime ts micros =
     (let secs = word_of_int (sint micros div 1000000);
          nanos = word_of_int (sint micros mod 1000000) * 1000
      in ok_or (ts secs nanos) ''Invalid timestamp'')"

definition encode_instant :: "datetime \<Rightarrow> bytes" where
  "encode_instant value = encode_i64 (dt_micros value)"

definition decode_instant :: "timestamp_opt \<Rightarrow> bytes \<Rightarrow> (datetime \<times> bytes) result" where
  "decode_instant ts cursor =
     rbind (decode_i64 cursor)
       (\<lambda>(micros, cursor').
          case micros_to_datetime ts micros of
            Inl _ \<Rightarrow> Error (Err ''invalid instant'')
          | Inr d \<Rightarrow> Ok (d, cursor'))"

text \<open>Instants that survive storage: microsecond precision, on a supported second.\<close>

definition instant_wf :: "(int \<Rightarrow> bool) \<Rightarrow> datetime \<Rightarrow> bool" where
  "instant_wf supported d \<longleftrightarrow> dt_subnanos d = 0 \<and> supported (sint (dt_micros d) div 1000000)"

lemma sint_bounds_i64: "- (2 ^ 63) \<le> sint (v :: i64)" "sint (v :: i64) < 2 ^ 63"
  using sint_ge [of v] sint_lt [of v] by simp_all

lemma micros_to_datetime_ok:
  assumes law: "timestamp_law ts supported" and wf: "instant_wf supported d"
  shows "micros_to_datetime ts (dt_micros d) = Ok d"
proof -
  let ?m = "sint (dt_micros d)"
  let ?secs = "word_of_int (?m div 1000000) :: i64"
  let ?nanos = "word_of_int (?m mod 1000000) * 1000 :: u32"
  have secs: "sint ?secs = ?m div 1000000"
    unfolding sint_sbintrunc'
    by (rule signed_take_bit_int_eq_self) (use sint_bounds_i64 [of "dt_micros d"] in auto)
  have r: "0 \<le> ?m mod 1000000" "?m mod 1000000 < 1000000" by simp_all
  define k where "k = nat (?m mod 1000000)"
  have k: "?m mod 1000000 = int k" and lt: "k < 1000000"
    using r by (simp_all add: k_def nat_less_iff)
  have "?nanos = word_of_nat (k * 1000)" by (simp add: k)
  then have "unat ?nanos = k * 1000 mod 2 ^ 32"
    using unat_of_nat [of "k * 1000", where ?'a = 32] by (simp only: len_num1 len_bit0 len_num0) simp
  then have nanos: "unat ?nanos = nat (?m mod 1000000) * 1000"
    using lt by (simp add: k)
  have "ts ?secs ?nanos =
      Some \<lparr>dt_micros = ?secs * 1000000 + word_of_nat (nat (?m mod 1000000)), dt_subnanos = 0\<rparr>"
    using law wf secs nanos r by (simp add: timestamp_law_def instant_wf_def)
  moreover have "?secs * 1000000 + word_of_nat (nat (?m mod 1000000)) = dt_micros d"
  proof -
    have "?secs * 1000000 + word_of_nat (nat (?m mod 1000000)) =
        word_of_int (?m div 1000000 * 1000000) + word_of_int (?m mod 1000000)"
      by simp
    also have "\<dots> = word_of_int ?m" by (simp only: of_int_add [symmetric] div_mult_mod_eq)
    finally show ?thesis by simp
  qed
  moreover have "dt_subnanos d = 0" using wf by (simp add: instant_wf_def)
  ultimately show ?thesis by (simp add: micros_to_datetime_def)
qed

lemma decode_encode_instant [codec_simps]:
  "timestamp_law ts supported \<Longrightarrow> instant_wf supported d \<Longrightarrow>
     decode_instant ts (encode_instant d @ rest) = Ok (d, rest)"
  by (simp add: decode_instant_def encode_instant_def codec_simps micros_to_datetime_ok)

definition encode_uuid :: "128 word \<Rightarrow> bytes" where
  "encode_uuid value = to_be_bytes value"

definition decode_uuid :: "bytes \<Rightarrow> (128 word \<times> bytes) result" where
  "decode_uuid cursor =
     rbind (split_at 16 ''not enough bytes for UUID'' cursor)
       (\<lambda>(bs, cursor'). Ok (from_be_bytes bs, cursor'))"

lemma decode_encode_uuid [codec_simps]: "decode_uuid (encode_uuid v @ rest) = Ok (v, rest)"
  by (simp add: decode_uuid_def encode_uuid_def split_at_append from_to_be_bytes)

definition encode_keyword :: "keyword \<Rightarrow> bytes" where
  "encode_keyword value =
     (let ns = (case kw_namespace value of Some n \<Rightarrow> n | None \<Rightarrow> [])
      in encode_string ns @ encode_string (kw_name value))"

definition decode_keyword :: "bytes \<Rightarrow> (keyword \<times> bytes) result" where
  "decode_keyword cursor =
     rbind (decode_string cursor) (\<lambda>(ns, cursor1).
     rbind (decode_string cursor1) (\<lambda>(name, cursor2).
     rbind (if ns = [] then kw_plain name else kw_namespaced ns name) (\<lambda>k. Ok (k, cursor2))))"

definition kw_str_wf :: "keyword \<Rightarrow> bool" where
  "kw_str_wf k \<longleftrightarrow> kw_wf k \<and> str_wf (fst (kw_components k)) \<and> str_wf (snd (kw_components k))"

lemma encode_keyword_components:
  "encode_keyword k = encode_string (fst (kw_components k)) @ encode_string (snd (kw_components k))"
  by (simp add: encode_keyword_def kw_components_def kw_namespace_def kw_name_def)

lemma decode_encode_keyword [codec_simps]:
  assumes "kw_str_wf k"
  shows "decode_keyword (encode_keyword k @ rest) = Ok (k, rest)"
proof -
  obtain ns n where c: "kw_components k = (ns, n)" by (cases "kw_components k")
  have "(if ns = [] then kw_plain n else kw_namespaced ns n) = Inr k"
    using kw_rebuild [of k] kw_namespace_nonempty [of k] assms c
    by (auto simp: kw_str_wf_def kw_components_def kw_namespace_def kw_name_def split: if_splits)
  then show ?thesis
    using assms c by (simp add: decode_keyword_def encode_keyword_components codec_simps kw_str_wf_def)
qed

lemma encode_keyword_less:
  assumes "kw_str_wf a" and "kw_str_wf b" and "kw_less a b"
  shows "encode_keyword a < encode_keyword b"
  using assms str.less_enc_append
  by (auto simp: kw_less_def kw_str_wf_def encode_keyword_components encode_string_less
      split: prod.splits)

interpretation uuids: codec encode_uuid decode_uuid "\<lambda>_. True"
  by unfold_locales (simp add: codec_simps)

interpretation kws: ordered_codec encode_keyword decode_keyword kw_str_wf kw_less
  by unfold_locales (simp_all add: codec_simps encode_keyword_less)

end
