(* ===== verification/Codec.thy ===== *)
theory Codec
  imports Codec_Prim
begin

text \<open>
  The tagged encoding of values in \<^verbatim>\<open>src/codec.rs\<close>: \<open>encode_datatype\<close>,
  \<open>decode_datatype\<close> with its composite and map loops, \<open>skip_datatype\<close>, and the
  \<^verbatim>\<open>Encode\<close>/\<^verbatim>\<open>Decode\<close> implementations of values.

  The decoder recurses on what earlier decoding left of the cursor, so it is defined with
  fuel; \<open>decode_datatype\<close> gives fuel in proportion to the cursor, which is shown to be
  always enough, and the equations without fuel are derived.
\<close>

section \<open>Encoding\<close>

fun encode_datatype :: "data_type \<Rightarrow> bytes"
  and encode_composite :: "data_type list \<Rightarrow> bytes"
  and encode_map :: "(string \<times> data_type) list \<Rightarrow> bytes" where
  "encode_datatype (DBigInt v) = TAG_BIG_INT # encode_i128 v"
| "encode_datatype (DBoolean v) = TAG_BOOLEAN # encode_bool v"
| "encode_datatype (DBytes v) = TAG_BYTES # encode_bytes v"
| "encode_datatype (DDouble v) = TAG_DOUBLE # encode_f64 v"
| "encode_datatype (DFloat v) = TAG_FLOAT # encode_f32 v"
| "encode_datatype (DInstant v) = TAG_INSTANT # encode_instant v"
| "encode_datatype (DKeyword v) = TAG_KEYWORD # encode_keyword v"
| "encode_datatype (DLong v) = TAG_LONG # encode_i64 v"
| "encode_datatype (DString v) = TAG_STRING # encode_string v"
| "encode_datatype (DUuid v) = TAG_UUID # encode_uuid v"
| "encode_datatype (DVector v) = TAG_VECTOR # encode_composite v"
| "encode_datatype (DMap v) = TAG_MAP # encode_map v"
| "encode_composite [] = [0x00]"
| "encode_composite (x # xs) = encode_datatype x @ encode_composite xs"
| "encode_map [] = [0x00]"
| "encode_map ((k, v) # m) = TAG_STRING # encode_string k @ encode_datatype v @ encode_map m"

section \<open>Decoding\<close>

text \<open>
  The loops over the elements of a composite take the element decoder as an argument;
  \<open>n\<close> bounds the number of rounds.
\<close>

primrec decode_composite_loop ::
  "(bytes \<Rightarrow> (data_type \<times> bytes) result) \<Rightarrow> nat \<Rightarrow> data_type list \<Rightarrow> bytes \<Rightarrow>
     (data_type list \<times> bytes) result" where
  "decode_composite_loop dd 0 elements cursor = Error OutOfFuel"
| "decode_composite_loop dd (Suc n) elements cursor =
     (case cursor of
        [] \<Rightarrow> Error (Err ''unexpected end of input in composite'')
      | b # cursor' \<Rightarrow>
          if b = 0x00 then Ok (elements, cursor')
          else rbind (dd cursor)
                 (\<lambda>(v, c). decode_composite_loop dd n (elements @ [v]) c))"

primrec decode_map_loop ::
  "(bytes \<Rightarrow> (data_type \<times> bytes) result) \<Rightarrow> nat \<Rightarrow> (string \<times> data_type) list \<Rightarrow> bytes \<Rightarrow>
     ((string \<times> data_type) list \<times> bytes) result" where
  "decode_map_loop dd 0 m cursor = Error OutOfFuel"
| "decode_map_loop dd (Suc n) m cursor =
     (case cursor of
        [] \<Rightarrow> Error (Err ''unexpected end of input in map'')
      | key_tag # cursor' \<Rightarrow>
          if key_tag = 0x00 then Ok (m, cursor')
          else if key_tag \<noteq> TAG_STRING then Error (Err ''expected TAG_STRING for map key'')
          else rbind (decode_string cursor') (\<lambda>(key, c1).
               rbind (dd c1) (\<lambda>(v, c2).
               decode_map_loop dd n (bt_insert key v m) c2)))"

definition decode_datatype_payload ::
  "timestamp_opt \<Rightarrow> (bytes \<Rightarrow> (data_type \<times> bytes) result) \<Rightarrow> u8 \<Rightarrow> bytes \<Rightarrow>
     (data_type \<times> bytes) result" where
  "decode_datatype_payload ts dd tag cursor =
     (if tag = TAG_BIG_INT then rbind (decode_i128 cursor) (\<lambda>(v, c). Ok (DBigInt v, c))
      else if tag = TAG_BOOLEAN then rbind (decode_bool cursor) (\<lambda>(v, c). Ok (DBoolean v, c))
      else if tag = TAG_BYTES then rbind (decode_bytes cursor) (\<lambda>(v, c). Ok (DBytes v, c))
      else if tag = TAG_DOUBLE then rbind (decode_f64 cursor) (\<lambda>(v, c). Ok (DDouble v, c))
      else if tag = TAG_FLOAT then rbind (decode_f32 cursor) (\<lambda>(v, c). Ok (DFloat v, c))
      else if tag = TAG_INSTANT then rbind (decode_instant ts cursor) (\<lambda>(v, c). Ok (DInstant v, c))
      else if tag = TAG_KEYWORD then rbind (decode_keyword cursor) (\<lambda>(v, c). Ok (DKeyword v, c))
      else if tag = TAG_LONG then rbind (decode_i64 cursor) (\<lambda>(v, c). Ok (DLong v, c))
      else if tag = TAG_STRING then rbind (decode_string cursor) (\<lambda>(v, c). Ok (DString v, c))
      else if tag = TAG_UUID then rbind (decode_uuid cursor) (\<lambda>(v, c). Ok (DUuid v, c))
      else if tag = TAG_VECTOR then
        rbind (decode_composite_loop dd (Suc (length cursor)) [] cursor) (\<lambda>(v, c). Ok (DVector v, c))
      else if tag = TAG_MAP then
        rbind (decode_map_loop dd (Suc (length cursor)) [] cursor) (\<lambda>(v, c). Ok (DMap v, c))
      else Error (Err ''unknown type tag''))"

primrec decode_datatype_f :: "timestamp_opt \<Rightarrow> nat \<Rightarrow> bytes \<Rightarrow> (data_type \<times> bytes) result" where
  "decode_datatype_f ts 0 cursor = Error OutOfFuel"
| "decode_datatype_f ts (Suc n) cursor =
     (case cursor of
        [] \<Rightarrow> Error (Err ''unexpected end of input: expected type tag'')
      | tag # cursor' \<Rightarrow> decode_datatype_payload ts (decode_datatype_f ts n) tag cursor')"

definition decode_datatype :: "timestamp_opt \<Rightarrow> bytes \<Rightarrow> (data_type \<times> bytes) result" where
  "decode_datatype ts cursor = decode_datatype_f ts (Suc (length cursor)) cursor"

definition decode_composite :: "timestamp_opt \<Rightarrow> bytes \<Rightarrow> (data_type list \<times> bytes) result" where
  "decode_composite ts cursor =
     decode_composite_loop (decode_datatype ts) (Suc (length cursor)) [] cursor"

definition decode_map ::
  "timestamp_opt \<Rightarrow> bytes \<Rightarrow> ((string \<times> data_type) list \<times> bytes) result" where
  "decode_map ts cursor = decode_map_loop (decode_datatype ts) (Suc (length cursor)) [] cursor"

section \<open>Skipping\<close>

definition skip_n :: "bytes \<Rightarrow> nat \<Rightarrow> bytes result" where
  "skip_n cursor n =
     (if length cursor < n then Error (Err ''not enough bytes to skip'') else Ok (drop n cursor))"

fun skip_terminated :: "bytes \<Rightarrow> bytes result" where
  "skip_terminated [] = Error (Err ''unexpected end of input skipping terminated bytes'')"
| "skip_terminated (b # cursor) =
     (if b = 0x00 then Ok cursor
      else if b = 0x01 then
        (case cursor of
           [] \<Rightarrow> Error (Err ''unexpected end of input after escape byte'')
         | _ # cursor' \<Rightarrow> skip_terminated cursor')
      else skip_terminated cursor)"

primrec skip_composite_loop :: "(bytes \<Rightarrow> bytes result) \<Rightarrow> nat \<Rightarrow> bytes \<Rightarrow> bytes result" where
  "skip_composite_loop sd 0 cursor = Error OutOfFuel"
| "skip_composite_loop sd (Suc n) cursor =
     (case cursor of
        [] \<Rightarrow> Error (Err ''unexpected end of input in composite'')
      | b # c \<Rightarrow> if b = 0x00 then Ok c else rbind (sd cursor) (skip_composite_loop sd n))"

primrec skip_map_loop :: "(bytes \<Rightarrow> bytes result) \<Rightarrow> nat \<Rightarrow> bytes \<Rightarrow> bytes result" where
  "skip_map_loop sd 0 cursor = Error OutOfFuel"
| "skip_map_loop sd (Suc n) cursor =
     (case cursor of
        [] \<Rightarrow> Error (Err ''unexpected end of input in map'')
      | b # c \<Rightarrow>
          if b = 0x00 then Ok c
          else rbind (sd cursor) (\<lambda>c1. rbind (sd c1) (skip_map_loop sd n)))"

definition skip_payload :: "(bytes \<Rightarrow> bytes result) \<Rightarrow> u8 \<Rightarrow> bytes \<Rightarrow> bytes result" where
  "skip_payload sd tag c =
     (if tag = TAG_BIG_INT then skip_n c 16
      else if tag = TAG_BOOLEAN then skip_n c 1
      else if tag = TAG_BYTES then skip_terminated c
      else if tag = TAG_DOUBLE then skip_n c 8
      else if tag = TAG_FLOAT then skip_n c 4
      else if tag = TAG_INSTANT then skip_n c 8
      else if tag = TAG_KEYWORD then rbind (skip_terminated c) skip_terminated
      else if tag = TAG_LONG then skip_n c 8
      else if tag = TAG_STRING then skip_terminated c
      else if tag = TAG_UUID then skip_n c 16
      else if tag = TAG_VECTOR then skip_composite_loop sd (Suc (length c)) c
      else if tag = TAG_MAP then skip_map_loop sd (Suc (length c)) c
      else Error (Err ''unknown type tag in skip''))"

primrec skip_datatype_f :: "nat \<Rightarrow> bytes \<Rightarrow> bytes result" where
  "skip_datatype_f 0 cursor = Error OutOfFuel"
| "skip_datatype_f (Suc n) cursor =
     (case cursor of
        [] \<Rightarrow> Error (Err ''unexpected end of input: expected type tag'')
      | tag # c \<Rightarrow> skip_payload (skip_datatype_f n) tag c)"

definition skip_datatype :: "bytes \<Rightarrow> bytes result" where
  "skip_datatype cursor = skip_datatype_f (Suc (length cursor)) cursor"

section \<open>The Encode and Decode traits\<close>

definition encode :: "data_type \<Rightarrow> bytes" where
  "encode v = encode_datatype v"

definition decode :: "timestamp_opt \<Rightarrow> bytes \<Rightarrow> data_type result" where
  "decode ts buf =
     rbind (decode_datatype ts buf)
       (\<lambda>(v, cursor). if cursor \<noteq> [] then Error (Err ''trailing bytes after decode'') else Ok v)"

section \<open>Fuel is enough\<close>

text \<open>
  A decoder is total on cursors up to a length when it never runs out of fuel there and
  leaves a shorter cursor behind.
\<close>

definition total_upto :: "nat \<Rightarrow> (bytes \<Rightarrow> ('a \<times> bytes) result) \<Rightarrow> bool" where
  "total_upto l d \<longleftrightarrow>
     (\<forall>c. length c \<le> l \<longrightarrow> d c \<noteq> Inl OutOfFuel \<and>
        (\<forall>v c'. d c = Inr (v, c') \<longrightarrow> length c' < length c))"

lemma total_uptoD:
  assumes "total_upto l d" and "length c \<le> l"
  shows "d c \<noteq> Inl OutOfFuel" and "d c = Inr (v, c') \<Longrightarrow> length c' < length c"
  using assms by (auto simp: total_upto_def)

lemma total_upto_mono: "total_upto l d \<Longrightarrow> k \<le> l \<Longrightarrow> total_upto k d"
  by (auto simp: total_upto_def)

lemma total_split_at:
  assumes "0 < n"
  shows "total_upto l (\<lambda>c. rbind (split_at n msg c) (\<lambda>(bs, c'). Ok (f bs, c')))"
  using assms by (auto simp: total_upto_def split_at_def rbind_eq_Error split: if_splits)

lemma total_fixed:
  "total_upto l decode_i64" "total_upto l decode_i128" "total_upto l decode_f64"
  "total_upto l decode_f32" "total_upto l decode_uuid"
  using total_split_at [of 8 l] total_split_at [of 16 l] total_split_at [of 4 l]
  unfolding decode_i64_def [abs_def] decode_i128_def [abs_def] decode_f64_def [abs_def]
    decode_f32_def [abs_def] decode_uuid_def [abs_def] Let_def
  by simp_all

lemma total_bool: "total_upto l decode_bool"
  by (auto simp: total_upto_def decode_bool_def split: list.splits if_splits)

lemma decode_bytes_loop_fuel: "decode_bytes_loop acc c \<noteq> Inl OutOfFuel"
  by (induction acc c rule: decode_bytes_loop.induct) (simp_all split: list.splits)

lemma decode_bytes_loop_shrinks:
  "decode_bytes_loop acc c = Inr (v, c') \<Longrightarrow> length c' < length c"
proof (induction acc c rule: decode_bytes_loop.induct)
  case (2 acc b cursor)
  show ?case
  proof (cases cursor)
    case Nil
    with 2 show ?thesis by (auto split: if_splits)
  next
    case (Cons x xs)
    with 2 show ?thesis by (fastforce split: if_splits)
  qed
qed simp

lemma total_bytes: "total_upto l decode_bytes"
  by (simp add: total_upto_def decode_bytes_def decode_bytes_loop_fuel decode_bytes_loop_shrinks)

lemma total_string: "total_upto l decode_string"
  unfolding total_upto_def decode_string_def
  by (auto simp: rbind_eq_Error dest: total_uptoD [OF total_bytes] split: if_splits)

lemma total_keyword: "total_upto l decode_keyword"
proof -
  have "length c' < length c" if "decode_keyword c = Inr (k, c')" for c k c'
  proof -
    from that obtain ns c1 name c2 where "decode_string c = Inr (ns, c1)"
      and "decode_string c1 = Inr (name, c2)" and "c2 = c'"
      by (auto simp: decode_keyword_def)
    then show ?thesis using total_uptoD(2) [OF total_string order_refl] by (metis order.strict_trans)
  qed
  moreover have "decode_keyword c \<noteq> Inl OutOfFuel" for c
    using total_uptoD(1) [OF total_string order_refl]
    by (auto simp: decode_keyword_def rbind_eq_Error kw_plain_def kw_namespaced_def split: if_splits)
  ultimately show ?thesis by (simp add: total_upto_def)
qed

lemma total_instant: "total_upto l (decode_instant ts)"
  using total_uptoD [OF total_fixed(1) order_refl]
  by (fastforce simp: total_upto_def decode_instant_def rbind_def split: sum.splits)

lemma total_map_Ok: "total_upto l d \<Longrightarrow> total_upto l (\<lambda>c. rbind (d c) (\<lambda>(v, c'). Ok (f v, c')))"
  by (auto simp: total_upto_def rbind_eq_Error)

lemma composite_loop_total:
  assumes "total_upto l dd"
  shows "length c \<le> l \<Longrightarrow> length c < n \<Longrightarrow>
    decode_composite_loop dd n acc c \<noteq> Inl OutOfFuel \<and>
    (\<forall>v c'. decode_composite_loop dd n acc c = Inr (v, c') \<longrightarrow> length c' < length c)"
proof (induction n arbitrary: acc c)
  case (Suc n)
  note dd = total_uptoD [OF assms Suc.prems(1)]
  have step: "decode_composite_loop dd n acc' c1 \<noteq> Inl OutOfFuel \<and>
      (\<forall>v c'. decode_composite_loop dd n acc' c1 = Inr (v, c') \<longrightarrow> length c' < length c)"
    if "dd c = Inr (v, c1)" for v c1 acc'
    using Suc.IH [of c1 acc'] dd(2) [OF that] Suc.prems by fastforce
  show ?case
    using step dd(1) by (auto simp: rbind_eq_Error split: list.splits)
qed simp

lemma map_loop_total:
  assumes "total_upto l dd"
  shows "length c \<le> l \<Longrightarrow> length c < n \<Longrightarrow>
    decode_map_loop dd n m c \<noteq> Inl OutOfFuel \<and>
    (\<forall>v c'. decode_map_loop dd n m c = Inr (v, c') \<longrightarrow> length c' < length c)"
proof (induction n arbitrary: m c)
  case (Suc n)
  show ?case
  proof (cases c)
    case (Cons b c0)
    have str: "decode_string c0 \<noteq> Inl OutOfFuel"
      and shrink: "decode_string c0 = Inr (k, c1) \<Longrightarrow> length c1 < length c0" for k c1
      using total_uptoD [OF total_string order_refl] by blast+
    have step: "dd c1 \<noteq> Inl OutOfFuel \<and> (dd c1 = Inr (v, c2) \<longrightarrow>
        decode_map_loop dd n m' c2 \<noteq> Inl OutOfFuel \<and>
        (\<forall>w c'. decode_map_loop dd n m' c2 = Inr (w, c') \<longrightarrow> length c' < length c))"
      if k: "decode_string c0 = Inr (k, c1)" for k c1 v c2 m'
    proof -
      have len: "length c1 \<le> l" using shrink [OF k] Suc.prems Cons by simp
      have "dd c1 = Inr (v, c2) \<Longrightarrow> length c2 < length c1" using total_uptoD(2) [OF assms len] .
      then show ?thesis
        using total_uptoD(1) [OF assms len] Suc.IH [of c2 m'] shrink [OF k] Suc.prems Cons
        by fastforce
    qed
    show ?thesis
      using step str Cons by (auto simp: rbind_eq_Error)
  qed simp
qed simp

lemma payload_total:
  assumes "total_upto (length c) dd"
  shows "decode_datatype_payload ts dd tag c \<noteq> Inl OutOfFuel \<and>
    (\<forall>v c'. decode_datatype_payload ts dd tag c = Inr (v, c') \<longrightarrow> length c' < length c)"
proof -
  note leafs = total_fixed total_bool total_bytes total_string total_keyword total_instant
  have vec: "total_upto (length c) (\<lambda>c. decode_composite_loop dd (Suc (length c)) [] c)"
    and maps: "total_upto (length c) (\<lambda>c. decode_map_loop dd (Suc (length c)) [] c)"
    unfolding total_upto_def
    using composite_loop_total [OF assms] map_loop_total [OF assms] lessI by blast+
  define good where "good r \<longleftrightarrow> r \<noteq> Inl OutOfFuel \<and>
      (\<forall>v c'. r = Inr (v, c') \<longrightarrow> length c' < length c)" for r :: "(data_type \<times> bytes) result"
  have any: "good (rbind (d c) (\<lambda>(v, c'). Ok (f v, c')))" if "total_upto (length c) d"
    for d :: "bytes \<Rightarrow> ('x \<times> bytes) result" and f :: "'x \<Rightarrow> data_type"
    using total_map_Ok [OF that, of f] unfolding total_upto_def good_def by blast
  have ite: "good x \<Longrightarrow> good y \<Longrightarrow> good (if b then x else y)" for x y b by simp
  have unknown: "good (Inl (Err msg))" for msg by (simp add: good_def)
  have "good (decode_datatype_payload ts dd tag c)"
    unfolding decode_datatype_payload_def
    by (intro ite any [OF leafs(1)] any [OF leafs(2)] any [OF leafs(3)] any [OF leafs(4)]
        any [OF leafs(5)] any [OF leafs(6)] any [OF leafs(7)] any [OF leafs(8)] any [OF leafs(9)]
        any [OF leafs(10)] any [OF vec] any [OF maps] unknown)
  then show ?thesis by (simp add: good_def)
qed

text \<open>The loops depend on the element decoder only up to the length of the cursor.\<close>

lemma composite_loop_cong:
  assumes "total_upto l d1" and "\<And>c. length c \<le> l \<Longrightarrow> d1 c = d2 c"
  shows "length c \<le> l \<Longrightarrow> decode_composite_loop d1 n acc c = decode_composite_loop d2 n acc c"
proof (induction n arbitrary: acc c)
  case (Suc n)
  have "decode_composite_loop d1 n acc' c1 = decode_composite_loop d2 n acc' c1"
    if "d2 c = Inr (v, c1)" for v c1 acc'
  proof -
    have "d1 c = Inr (v, c1)" using that assms(2) Suc.prems by simp
    then have "length c1 \<le> l" using total_uptoD(2) [OF assms(1) Suc.prems] Suc.prems by fastforce
    then show ?thesis by (rule Suc.IH)
  qed
  then show ?case
    using assms(2) [OF Suc.prems]
    by (cases "d2 c") (auto split: list.split)
qed simp

lemma map_loop_cong:
  assumes "total_upto l d1" and "\<And>c. length c \<le> l \<Longrightarrow> d1 c = d2 c"
  shows "length c \<le> l \<Longrightarrow> decode_map_loop d1 n m c = decode_map_loop d2 n m c"
proof (induction n arbitrary: m c)
  case (Suc n)
  show ?case
  proof (cases c)
    case (Cons b c0)
    show ?thesis
    proof (cases "decode_string c0")
      case (Inr kc)
      obtain k c1 where kc: "kc = (k, c1)" by (cases kc)
      have len: "length c1 \<le> l"
        using total_uptoD(2) [OF total_string order_refl, of c0 k c1] Inr kc Suc.prems Cons by simp
      have "decode_map_loop d1 n m' c2 = decode_map_loop d2 n m' c2" if "d2 c1 = Inr (v, c2)" for v c2 m'
        using Suc.IH [of c2 m'] total_uptoD(2) [OF assms(1) len, of v c2] that assms(2) [OF len] len
        by simp
      then show ?thesis
        using Cons Inr kc assms(2) [OF len] by (cases "d2 c1") auto
    qed (simp add: Cons)
  qed simp
qed simp

lemma payload_cong:
  assumes "total_upto (length c) d1" and "\<And>c'. length c' \<le> length c \<Longrightarrow> d1 c' = d2 c'"
  shows "decode_datatype_payload ts d1 tag c = decode_datatype_payload ts d2 tag c"
  using composite_loop_cong [OF assms order_refl] map_loop_cong [OF assms order_refl]
  by (simp only: decode_datatype_payload_def)

text \<open>Fuel above the length of the cursor never changes the result.\<close>

lemma decode_f_fuel:
  "length c < n \<Longrightarrow>
     decode_datatype_f ts n c = decode_datatype ts c \<and> decode_datatype ts c \<noteq> Inl OutOfFuel \<and>
     (\<forall>v c'. decode_datatype ts c = Inr (v, c') \<longrightarrow> length c' < length c)"
proof (induction c arbitrary: n rule: length_induct)
  case (1 c)
  then obtain k where n: "n = Suc k" by (cases n) auto
  show ?case
  proof (cases c)
    case (Cons tag c0)
    have sub: "decode_datatype_f ts i c' = decode_datatype ts c' \<and>
        decode_datatype ts c' \<noteq> Inl OutOfFuel \<and>
        (\<forall>v c2. decode_datatype ts c' = Inr (v, c2) \<longrightarrow> length c2 < length c')"
      if "length c' \<le> length c0" and "length c' < i" for c' i
      using 1(1) that Cons by simp
    have tot: "total_upto (length c0) (decode_datatype_f ts i)" if "length c0 < i" for i
      unfolding total_upto_def
    proof (intro allI impI)
      fix c' :: bytes assume "length c' \<le> length c0"
      then show "decode_datatype_f ts i c' \<noteq> Inl OutOfFuel \<and>
          (\<forall>v c2. decode_datatype_f ts i c' = Inr (v, c2) \<longrightarrow> length c2 < length c')"
        using sub [of c' i] that by simp
    qed
    have k: "length c0 < k" using 1(2) n Cons by simp
    have "decode_datatype_payload ts (decode_datatype_f ts k) tag c0 =
        decode_datatype_payload ts (decode_datatype_f ts (length c)) tag c0"
    proof (rule payload_cong [OF tot [OF k]])
      fix c' :: bytes assume "length c' \<le> length c0"
      then show "decode_datatype_f ts k c' = decode_datatype_f ts (length c) c'"
        using sub [of c' k] sub [of c' "length c"] k Cons by simp
    qed
    moreover have "total_upto (length c0) (decode_datatype_f ts (length c))"
      using tot Cons by simp
    ultimately show ?thesis
      using payload_total [of c0 "decode_datatype_f ts (length c)" ts tag] n Cons
      by (auto simp: decode_datatype_def)
  qed (simp add: n decode_datatype_def)
qed

lemma decode_datatype_total: "total_upto l (decode_datatype ts)"
  using decode_f_fuel [OF lessI] unfolding total_upto_def by blast

lemma decode_datatype_Nil:
  "decode_datatype ts [] = Error (Err ''unexpected end of input: expected type tag'')"
  by (simp add: decode_datatype_def)

lemma decode_datatype_Cons:
  "decode_datatype ts (tag # c) = decode_datatype_payload ts (decode_datatype ts) tag c"
proof -
  have "decode_datatype ts (tag # c) =
      decode_datatype_payload ts (decode_datatype_f ts (Suc (length c))) tag c"
    by (simp add: decode_datatype_def)
  also have "\<dots> = decode_datatype_payload ts (decode_datatype ts) tag c"
  proof (rule payload_cong)
    show "total_upto (length c) (decode_datatype_f ts (Suc (length c)))"
      unfolding total_upto_def using decode_f_fuel [of _ "Suc (length c)" ts] by fastforce
  qed (simp add: decode_f_fuel less_Suc_eq_le del: decode_datatype_f.simps)
  finally show ?thesis .
qed

section \<open>Round trip\<close>

text \<open>
  The values the storage can hold: text is UTF-8, keywords come from their constructors,
  instants have microsecond precision on a supported second, maps have increasing keys.
\<close>

fun dt_wf :: "(int \<Rightarrow> bool) \<Rightarrow> data_type \<Rightarrow> bool"
  and dts_wf :: "(int \<Rightarrow> bool) \<Rightarrow> data_type list \<Rightarrow> bool"
  and dtm_wf :: "(int \<Rightarrow> bool) \<Rightarrow> (string \<times> data_type) list \<Rightarrow> bool" where
  "dt_wf okt (DInstant d) = instant_wf okt d"
| "dt_wf okt (DKeyword k) = kw_str_wf k"
| "dt_wf okt (DString s) = str_wf s"
| "dt_wf okt (DVector xs) = dts_wf okt xs"
| "dt_wf okt (DMap m) = (bt_wf m \<and> dtm_wf okt m)"
| "dt_wf okt _ = True"
| "dts_wf okt [] = True"
| "dts_wf okt (x # xs) = (dt_wf okt x \<and> dts_wf okt xs)"
| "dtm_wf okt [] = True"
| "dtm_wf okt ((k, v) # m) = (str_wf k \<and> dt_wf okt v \<and> dtm_wf okt m)"

lemma encode_datatype_tag: "\<exists>bs. encode_datatype v = data_type_tag v # bs"
  by (cases v) simp_all

lemma length_encode_datatype_pos: "0 < length (encode_datatype v)"
  using encode_datatype_tag [of v] by auto

lemma composite_loop_step:
  "decode_composite_loop dd (Suc n) acc (encode_datatype v @ c) =
     rbind (dd (encode_datatype v @ c)) (\<lambda>(v, c). decode_composite_loop dd n (acc @ [v]) c)"
  using encode_datatype_tag [of v] by auto

lemma roundtrip_aux:
  assumes law: "timestamp_law ts okt"
  shows "dt_wf okt v \<Longrightarrow> decode_datatype ts (encode_datatype v @ rest) = Ok (v, rest)"
    and "dts_wf okt xs \<Longrightarrow> length (encode_composite xs @ rest) < n \<Longrightarrow>
      decode_composite_loop (decode_datatype ts) n acc (encode_composite xs @ rest) =
        Ok (acc @ xs, rest)"
    and "dtm_wf okt m \<Longrightarrow> bt_wf (acc' @ m) \<Longrightarrow> length (encode_map m @ rest) < n \<Longrightarrow>
      decode_map_loop (decode_datatype ts) n acc' (encode_map m @ rest) = Ok (acc' @ m, rest)"
proof (induction v and xs and m arbitrary: rest and rest n acc and rest n acc'
    rule: encode_datatype_encode_composite_encode_map.induct)
  case (14 x xs)
  then obtain k where n: "n = Suc k" by (cases n) auto
  have len: "length (encode_composite xs @ rest) < k"
    using 14(4) length_encode_datatype_pos [of x] n by (simp del: length_greater_0_conv)
  have "decode_composite_loop (decode_datatype ts) n acc (encode_composite (x # xs) @ rest) =
      decode_composite_loop (decode_datatype ts) k (acc @ [x]) (encode_composite xs @ rest)"
    using 14(1) [of "encode_composite xs @ rest"] 14(3) n composite_loop_step
    by (simp del: decode_composite_loop.simps)
  also have "\<dots> = Ok ((acc @ [x]) @ xs, rest)"
    using 14(2) [OF _ len] 14(3) by simp
  finally show ?case by simp
next
  case 13
  then show ?case by (cases n) auto
next
  case 15
  then show ?case by (cases n) auto
next
  case (16 k v m)
  then obtain j where n: "n = Suc j" by (cases n) auto
  have wf: "str_wf k" "dt_wf okt v" "dtm_wf okt m" using 16(3) by simp_all
  have "bt_wf (acc' @ [(k, v)])" using 16(4) by (simp add: sorted_wrt_append)
  then have ins: "bt_insert k v acc' = acc' @ [(k, v)]" by (rule bt_insert_last)
  have len: "length (encode_map m @ rest) < j" using 16(5) n by simp
  have "decode_map_loop (decode_datatype ts) n acc' (encode_map ((k, v) # m) @ rest) =
      decode_map_loop (decode_datatype ts) j (acc' @ [(k, v)]) (encode_map m @ rest)"
    using wf 16(1) [OF wf(2), of "encode_map m @ rest"] ins n
    by (simp add: codec_simps tag_defs)
  also have "\<dots> = Ok ((acc' @ [(k, v)]) @ m, rest)"
    using 16(2) [OF wf(3) _ len, of "acc' @ [(k, v)]"] 16(4) by simp
  finally show ?case by simp
qed (auto simp: decode_datatype_Cons decode_datatype_payload_def tag_defs codec_simps
      intro: decode_encode_instant [OF law] simp del: decode_composite_loop.simps decode_map_loop.simps)

lemma decode_encode_datatype:
  "timestamp_law ts okt \<Longrightarrow> dt_wf okt v \<Longrightarrow>
     decode_datatype ts (encode_datatype v @ rest) = Ok (v, rest)"
  by (rule roundtrip_aux(1))

text \<open>
  Facts about the encoding alone do not depend on which seconds the calendar supports:
  with a constructor of instants that supports all of them, the values form a codec.
\<close>

definition any_timestamp :: timestamp_opt where
  "any_timestamp secs nanos =
     Some \<lparr>dt_micros = secs * 1000000 + word_of_nat (unat nanos div 1000),
           dt_subnanos = unat nanos mod 1000\<rparr>"

lemma any_timestamp_law: "timestamp_law any_timestamp okt"
  by (simp add: timestamp_law_def any_timestamp_def)

abbreviation storable :: "data_type \<Rightarrow> bool" where
  "storable v \<equiv> dt_wf (\<lambda>_. True) v"

lemma dt_wf_storable:
  "dt_wf okt v \<Longrightarrow> storable v"
  "dts_wf okt xs \<Longrightarrow> dts_wf (\<lambda>_. True) xs"
  "dtm_wf okt m \<Longrightarrow> dtm_wf (\<lambda>_. True) m"
  by (induction okt v and okt xs and okt m rule: dt_wf_dts_wf_dtm_wf.induct)
    (simp_all add: instant_wf_def)

interpretation vals: codec encode_datatype "decode_datatype any_timestamp" "dt_wf (\<lambda>_. True)"
  by unfold_locales (rule decode_encode_datatype [OF any_timestamp_law])

section \<open>Skipping follows decoding\<close>

lemma skip_terminated_follows:
  "decode_bytes_loop acc c = Inr (v, c') \<Longrightarrow> skip_terminated c = Inr c'"
proof (induction acc c rule: decode_bytes_loop.induct)
  case (2 acc b cursor)
  then show ?case by (cases cursor) (auto split: if_splits)
qed simp

lemma skip_string_follows: "decode_string c = Inr (v, c') \<Longrightarrow> skip_terminated c = Inr c'"
  by (auto simp: decode_string_def decode_bytes_def intro: skip_terminated_follows split: if_splits)

lemma skip_keyword_follows:
  "decode_keyword c = Inr (v, c') \<Longrightarrow> rbind (skip_terminated c) skip_terminated = Inr c'"
  by (auto simp: decode_keyword_def dest!: skip_string_follows)

lemma skip_split_at:
  "rbind (split_at n msg c) (\<lambda>(bs, c'). Ok (f bs, c')) = Inr (v, c') \<Longrightarrow> skip_n c n = Inr c'"
  by (auto simp: split_at_def skip_n_def split: if_splits)

lemma skip_fixed_follows:
  "decode_i64 c = Inr (i, c') \<Longrightarrow> skip_n c 8 = Inr c'"
  "decode_i128 c = Inr (j, c') \<Longrightarrow> skip_n c 16 = Inr c'"
  "decode_f64 c = Inr (d, c') \<Longrightarrow> skip_n c 8 = Inr c'"
  "decode_f32 c = Inr (f, c') \<Longrightarrow> skip_n c 4 = Inr c'"
  "decode_uuid c = Inr (u, c') \<Longrightarrow> skip_n c 16 = Inr c'"
  "decode_bool c = Inr (b, c') \<Longrightarrow> skip_n c 1 = Inr c'"
  unfolding decode_i64_def decode_i128_def decode_f64_def decode_f32_def decode_uuid_def Let_def
  by (erule skip_split_at)+ (auto simp: decode_bool_def skip_n_def split: list.splits if_splits)

lemma skip_instant_follows: "decode_instant ts c = Inr (v, c') \<Longrightarrow> skip_n c 8 = Inr c'"
  by (auto simp: decode_instant_def rbind_def intro: skip_fixed_follows(1) split: sum.splits)

lemma skip_composite_follows:
  assumes "\<And>c v c'. dd c = Inr (v, c') \<Longrightarrow> sd c = Inr c'"
  shows "decode_composite_loop dd n acc c = Inr (vs, c') \<Longrightarrow> skip_composite_loop sd n c = Inr c'"
  by (induction n arbitrary: acc c) (auto split: list.splits if_splits dest!: assms)

lemma skip_map_follows:
  assumes "\<And>c v c'. dd c = Inr (v, c') \<Longrightarrow> sd c = Inr c'"
    and "\<And>c k c1 v c2. decode_string c = Inr (k, c1) \<Longrightarrow> dd c1 = Inr (v, c2) \<Longrightarrow>
      sd (TAG_STRING # c) = Inr c1"
  shows "decode_map_loop dd n m c = Inr (vs, c') \<Longrightarrow> skip_map_loop sd n c = Inr c'"
proof (induction n arbitrary: m c)
  case (Suc n)
  then show ?case
    by (fastforce split: list.splits if_splits dest: assms)
qed simp

lemma skip_f_follows:
  "decode_datatype_f ts n c = Inr (v, c') \<Longrightarrow> skip_datatype_f n c = Inr c'"
proof (induction n arbitrary: c v c')
  case (Suc n)
  then obtain tag c0 where c: "c = tag # c0"
    and p: "decode_datatype_payload ts (decode_datatype_f ts n) tag c0 = Inr (v, c')"
    by (auto split: list.splits)
  have key: "skip_datatype_f n (TAG_STRING # c1) = Inr c2"
    if "decode_string c1 = Inr (k, c2)" and "decode_datatype_f ts n c2 = Inr (w, c3)" for c1 k c2 w c3
    using that by (cases n) (auto simp: skip_payload_def tag_defs skip_string_follows)
  note loops = skip_composite_follows [of "decode_datatype_f ts n" "skip_datatype_f n", OF Suc.IH]
    skip_map_follows [of "decode_datatype_f ts n" "skip_datatype_f n", OF Suc.IH key]
  define rel where "rel d s \<longleftrightarrow> (\<forall>v c'. d = Inr (v, c') \<longrightarrow> s = Inr c')"
    for d :: "(data_type \<times> bytes) result" and s :: "bytes result"
  have ite: "rel d s \<Longrightarrow> rel d' s' \<Longrightarrow> rel (if b then d else d') (if b then s else s')" for d s d' s' b
    by simp
  have any: "rel (rbind d (\<lambda>(v, c'). Ok (f v, c'))) s" if "\<And>v c'. d = Inr (v, c') \<Longrightarrow> s = Inr c'"
    for d :: "('x \<times> bytes) result" and f :: "'x \<Rightarrow> data_type" and s
    using that by (auto simp: rel_def)
  have unknown: "rel (Inl e) s" for e s by (simp add: rel_def)
  have blob: "decode_bytes c0 = Inr (w, c1) \<Longrightarrow> skip_terminated c0 = Inr c1" for w c1
    by (simp add: decode_bytes_def skip_terminated_follows)
  have "rel (decode_datatype_payload ts (decode_datatype_f ts n) tag c0)
      (skip_payload (skip_datatype_f n) tag c0)"
    unfolding decode_datatype_payload_def skip_payload_def
    by (intro ite any unknown; (rule skip_fixed_follows skip_instant_follows skip_keyword_follows
          skip_string_follows blob loops; assumption))
  then show ?case using p by (simp add: c rel_def)
qed simp

end
