(* ===== verification/Codec_Props.thy ===== *)
theory Codec_Props
  imports Codec
begin

text \<open>
  What the storage relies on of the value encoding of \<^verbatim>\<open>src/codec.rs\<close>: values round
  trip, encodings are uniquely readable in front of any continuation, the byte order of two
  encodings of one type is the order of the values or its reverse, and decoding always ends.
\<close>

section \<open>Byte order and value order\<close>

text \<open>
  Integers and instants are encoded by exclusive-or with the largest signed value, so they
  are stored in descending order; the other comparable types are stored in ascending order.
\<close>

definition stored_descending :: "data_type \<Rightarrow> bool" where
  "stored_descending v \<longleftrightarrow> data_type_tag v \<in> {TAG_LONG, TAG_BIG_INT, TAG_INSTANT}"

lemma cmp_str_eq [simp]: "cmp_str a b = Less \<longleftrightarrow> a < b"
  by (simp add: cmp_str_def)

lemma nan_or_Less: "nan_or o' = Inr Less \<longleftrightarrow> o' = Some Less"
  by (cases o') (auto simp: nan_or_def ok_or_def)

lemma encode_instant_less:
  assumes "instant_wf okt a" and "instant_wf okt b" and "cmp_instant a b = Less"
  shows "encode_instant b < encode_instant a"
  using assms by (auto simp: instant_wf_def cmp_instant_def encode_instant_def encode_i64_less_iff
      split: if_splits)

lemmas encode_less = encode_i64_less_iff encode_i128_less_iff encode_f64_less encode_f32_less
  encode_string_less encode_instant_less

lemma encode_datatype_less:
  assumes "data_type_tag a = data_type_tag b" and "storable a" and "storable b"
    and "partial_compare a b = Ok Less"
  shows "if stored_descending a then encode_datatype b < encode_datatype a
         else encode_datatype a < encode_datatype b"
  using assms
  by (cases a; cases b)
    (auto simp: partial_compare_def tag_defs stored_descending_def nan_or_Less encode_less
      encode_bool_less incomparable_def intro: encode_instant_less)

section \<open>Properties\<close>

text \<open>C7: A stored value is read back: the encoding of a well-formed value, alone or in front
  of any other bytes, decodes to that value and leaves exactly the other bytes.\<close>

theorem decode_encode:
  assumes "timestamp_law ts okt" and "dt_wf okt v"
  shows "decode ts (encode v) = Ok v \<and>
    decode_datatype ts (encode_datatype v @ rest) = Ok (v, rest)"
  using decode_encode_datatype [OF assms] decode_encode_datatype [OF assms, of "[]"]
  by (simp add: decode_def encode_def)

definition sample_value :: data_type where
  "sample_value = DVector [DLong 42, DMap [(''a'', DString ''x''), (''b'', DBoolean True)], DBytes [0, 1, 2]]"

lemma sample_value_storable: "storable sample_value"
  by (simp add: sample_value_def str_wf_def as_bytes_def of_char_def utf8_cont_def)

theorem decode_encode_witness:
  "decode any_timestamp (encode sample_value) = Ok sample_value \<and>
   decode_datatype any_timestamp (encode_datatype sample_value @ [7]) = Ok (sample_value, [7])"
  by (rule decode_encode [OF any_timestamp_law sample_value_storable])



text \<open>C22: Among values of one type the byte order of the stored keys follows the order of the
  values: ascending for booleans, floats, doubles and strings, and descending for longs, big
  integers and instants, whatever bytes follow them in the key.\<close>

theorem value_byte_order:
  assumes "data_type_tag a = data_type_tag b" and "storable a" and "storable b"
    and "partial_compare a b = Ok Less"
  shows "if stored_descending a then encode_datatype b @ s < encode_datatype a @ t
         else encode_datatype a @ s < encode_datatype b @ t"
proof -
  have ap: "encode_datatype x @ s < encode_datatype y @ t"
    if "storable x" "storable y" "encode_datatype x < encode_datatype y" for x y
    using that vals.enc_prefix_free [of x y] by (intro lex_less_appendI) auto
  from encode_datatype_less [OF assms] show ?thesis
    using ap assms(2,3) by (auto split: if_splits)
qed

theorem value_byte_order_witness:
  "encode_datatype (DLong 7) @ [1] < encode_datatype (DLong 3) @ [2]"
  using value_byte_order [of "DLong 3" "DLong 7" "[1]" "[2]"]
  by (simp add: partial_compare_def stored_descending_def)

text \<open>C23: Decoding ends on every input: it never runs out of its bound on the number of steps,
  and when it returns a value it has consumed at least one byte; a buffer with bytes left over
  after the value is refused.\<close>

theorem decode_terminates:
  "decode_datatype ts c \<noteq> Error OutOfFuel \<and> decode ts c \<noteq> Error OutOfFuel \<and>
   (case decode_datatype ts c of
      Inl _ \<Rightarrow> True
    | Inr (v, c') \<Rightarrow> length c' < length c \<and>
        (c' \<noteq> [] \<longrightarrow> decode ts c = Error (Err ''trailing bytes after decode'')))"
  using total_uptoD [OF decode_datatype_total order_refl, of ts c]
  by (auto simp: decode_def rbind_eq_Error split: sum.splits if_splits)

theorem decode_terminates_witness:
  "decode any_timestamp [TAG_BOOLEAN, 1, 9] = Error (Err ''trailing bytes after decode'')"
proof -
  have "decode_datatype any_timestamp [TAG_BOOLEAN, 1, 9] = Inr (DBoolean True, [9])"
    by (simp add: decode_datatype_Cons decode_datatype_payload_def tag_defs decode_bool_def)
  then show ?thesis using decode_terminates [of any_timestamp "[TAG_BOOLEAN, 1, 9]"] by simp
qed

text \<open>C24: Skipping a value moves the cursor exactly as far as decoding it does.\<close>

theorem skip_follows_decode:
  assumes "decode_datatype ts c = Ok (v, c')"
  shows "skip_datatype c = Ok c'"
  using skip_f_follows assms unfolding decode_datatype_def skip_datatype_def by blast

theorem skip_follows_decode_witness:
  "skip_datatype (encode_datatype sample_value @ [7]) = Ok [7]"
  by (rule skip_follows_decode
      [OF decode_encode_datatype [OF any_timestamp_law sample_value_storable]])

end
