(* ===== verification/Partition.thy ===== *)
theory Partition
  imports Codec
begin

text \<open>
  Entity identifiers and their partitions, \<^verbatim>\<open>src/partition.rs\<close>, and the counters of
  \<^verbatim>\<open>src/metadata.rs\<close> that hand them out. An identifier holds a 20-bit partition above a
  42-bit counter; bits 62 and 63 are zero in every identifier that is made. The counters are
  64-bit integers whose increment wraps, as in a release build.
\<close>

section \<open>Identifiers\<close>

definition COUNTER_BITS :: nat where "COUNTER_BITS = 42"
definition COUNTER_MASK :: i64 where "COUNTER_MASK = push_bit 42 1 - 1"
definition PARTITION_MASK :: i64 where "PARTITION_MASK = push_bit 42 (push_bit 20 1 - 1)"

definition DB_PARTITION :: u32 where "DB_PARTITION = 0"
definition TX_PARTITION :: u32 where "TX_PARTITION = 1"
definition USER_PARTITION :: u32 where "USER_PARTITION = 2"
definition DEFAULT_PARTITION :: u32 where "DEFAULT_PARTITION = USER_PARTITION"

definition dominant_partition :: "u32 \<Rightarrow> u32 \<Rightarrow> u32" where
  "dominant_partition a b = (if a = DB_PARTITION \<or> b = DB_PARTITION then DB_PARTITION else a)"

definition make_entity_id :: "u32 \<Rightarrow> i64 \<Rightarrow> entid result" where
  "make_entity_id part counter =
     (if \<not> part < push_bit 20 1 then Error (Panic ''partition must fit in 20 bits'')
      else if \<not> (0 \<le> sint counter \<and> sint counter \<le> sint COUNTER_MASK)
      then Error (Panic ''counter must fit in 42 bits'')
      else Ok (push_bit COUNTER_BITS (ucast part) OR counter))"

definition extract_partition :: "entid \<Rightarrow> u32" where
  "extract_partition eid = ucast (signed_drop_bit COUNTER_BITS (eid AND PARTITION_MASK))"

definition extract_counter :: "entid \<Rightarrow> i64" where
  "extract_counter eid = eid AND COUNTER_MASK"

definition partition_entity_prefix :: "u32 \<Rightarrow> bytes result" where
  "partition_entity_prefix part =
     rbind (make_entity_id part 0) (\<lambda>base.
     let encoded = encode_i64_bytes base in Ok (TAG_LONG # take 3 encoded))"

definition tx_eid_from_tx_id :: "i64 \<Rightarrow> entid result" where
  "tx_eid_from_tx_id tx_id = make_entity_id TX_PARTITION tx_id"

section \<open>The counters of the partitions\<close>

type_synonym partition_map = "u32 \<rightharpoonup> i64"


definition allocate_counter :: "partition_map \<Rightarrow> u32 \<Rightarrow> i64 \<times> partition_map" where
  "allocate_counter pm part =
     (let value = or_insert pm part 0 in (value, pm(part \<mapsto> value + 1)))"

definition allocate_entid :: "partition_map \<Rightarrow> u32 \<Rightarrow> (entid \<times> partition_map) result" where
  "allocate_entid pm part =
     (let (counter, pm') = allocate_counter pm part
      in rbind (make_entity_id part counter) (\<lambda>eid. Ok (eid, pm')))"

definition set_tx_counter :: "partition_map \<Rightarrow> i64 \<Rightarrow> partition_map result" where
  "set_tx_counter pm tx_id =
     (let next_id = or_insert pm TX_PARTITION 0
      in if tx_id <s next_id then Error (Err ''non-monotonic tx_id'')
         else Ok (pm(TX_PARTITION \<mapsto> tx_id + 1)))"

definition contains_entid :: "partition_map \<Rightarrow> entid \<Rightarrow> bool" where
  "contains_entid pm eid =
     (let part = extract_partition eid; counter = extract_counter eid
      in case pm part of Some next_id \<Rightarrow> counter <s next_id | None \<Rightarrow> False)"

lemmas partition_defs = COUNTER_BITS_def COUNTER_MASK_def PARTITION_MASK_def DB_PARTITION_def
  TX_PARTITION_def USER_PARTITION_def DEFAULT_PARTITION_def

section \<open>Identifiers and their parts\<close>

lemma COUNTER_MASK_mask: "COUNTER_MASK = mask 42"
  by (simp add: COUNTER_MASK_def mask_eq_exp_minus_1)

lemma PARTITION_MASK_mask: "PARTITION_MASK = push_bit 42 (mask 20)"
  by (simp add: PARTITION_MASK_def mask_eq_exp_minus_1)

lemma sint_cases: "sint v = (if uint v < 2 ^ 63 then uint v else uint v - 2 ^ 64)" for v :: i64
proof -
  have m: "uint v = sint v mod 2 ^ 64" by (simp add: uint_sint take_bit_eq_mod)
  have "sint v mod 2 ^ 64 = (sint v + 2 ^ 64) mod 2 ^ 64" by simp
  also have "\<dots> = sint v + 2 ^ 64" if "sint v < 0"
    using that sint_bounds_i64(1) [of v] by (intro mod_pos_pos_trivial) simp_all
  finally show ?thesis
    using m sint_bounds_i64 [of v] mod_pos_pos_trivial [of "sint v" "2 ^ 64"] by fastforce
qed

lemma sint_nonneg_uint: "0 \<le> sint v \<Longrightarrow> uint v = sint (v :: i64)"
  using uint_lt2p [of v] by (simp add: sint_cases split: if_splits)

lemma counter_range: "0 \<le> sint c \<and> sint c \<le> sint COUNTER_MASK \<longleftrightarrow> uint c < 2 ^ 42" for c :: i64
proof -
  have m: "sint COUNTER_MASK = 2 ^ 42 - 1" by (simp add: COUNTER_MASK_def)
  have "uint c < 2 ^ 64" using uint_lt2p [of c] by simp
  then show ?thesis unfolding m by (auto simp: sint_cases)
qed

lemma bit_high: "uint c < 2 ^ k \<Longrightarrow> bit c n \<Longrightarrow> n < k" for c :: "'a::len word"
proof -
  assume "uint c < 2 ^ k" and "bit c n"
  then have "take_bit k (uint c) = uint c" and "bit (uint c) n"
    by (simp_all add: take_bit_int_eq_self_iff bit_uint_iff bit_imp_le_length)
  then show "n < k" by (metis bit_take_bit_iff)
qed

lemma bit_high_u32: "part < 2 ^ 20 \<Longrightarrow> bit part n \<Longrightarrow> n < 20" for part :: u32
  by (rule bit_high [of part]) (simp_all add: word_less_def)

lemma make_entity_id_Ok:
  "make_entity_id part counter = Ok eid \<longleftrightarrow>
     part < 2 ^ 20 \<and> uint counter < 2 ^ 42 \<and> eid = push_bit 42 (ucast part) OR counter"
  using counter_range by (auto simp: make_entity_id_def COUNTER_BITS_def)

lemma extract_make:
  assumes "make_entity_id part counter = Ok eid"
  shows "extract_partition eid = part" and "extract_counter eid = counter"
proof -
  note e = assms [unfolded make_entity_id_Ok]
  show "extract_partition eid = part"
  proof (rule bit_word_eqI)
    fix n assume "n < LENGTH(32)"
    then show "bit (extract_partition eid) n \<longleftrightarrow> bit part n"
      using e bit_high_u32 [of part n] bit_high [of counter 42 "42 + n"]
      by (auto simp: extract_partition_def PARTITION_MASK_mask COUNTER_BITS_def bit_simps)
  qed
  show "extract_counter eid = counter"
  proof (rule bit_word_eqI)
    fix n assume "n < LENGTH(64)"
    then show "bit (extract_counter eid) n \<longleftrightarrow> bit counter n"
      using e bit_high [of counter 42 n]
      by (auto simp: extract_counter_def COUNTER_MASK_mask bit_simps)
  qed
qed

lemma make_entity_id_total:
  "part < 2 ^ 20 \<Longrightarrow> uint counter < 2 ^ 42 \<Longrightarrow> \<exists>eid. make_entity_id part counter = Ok eid"
  by (simp add: make_entity_id_Ok)

lemma make_entity_id_inj:
  "make_entity_id p c = Ok e \<Longrightarrow> make_entity_id q d = Ok e \<Longrightarrow> p = q \<and> c = d"
  using extract_make by metis

text \<open>The identifier as a number: the partition above, the counter below.\<close>

lemma uint_make_entity_id:
  assumes "make_entity_id part counter = Ok eid"
  shows "uint eid = uint part * 2 ^ 42 + uint counter" and "uint eid < 2 ^ 62"
proof -
  note e = assms [unfolded make_entity_id_Ok]
  have p: "uint part < 2 ^ 20" using e by (simp add: word_less_def)
  have "uint (push_bit 42 (ucast part) :: i64) = uint part * 2 ^ 42"
    using p by (simp add: push_bit_eq_mult uint_word_ariths unsigned_ucast_eq take_bit_int_eq_self)
  moreover have "uint eid = uint (push_bit 42 (ucast part) :: i64) + uint counter"
  proof -
    have "push_bit 42 (ucast part) AND counter = 0"
      using e bit_high [of counter 42] by (intro bit_word_eqI) (fastforce simp: bit_simps)
    then have "eid = push_bit 42 (ucast part) + counter" using e by (simp add: disjunctive_add_eq_or)
    then show ?thesis using e p calculation by (simp add: uint_word_ariths)
  qed
  ultimately show "uint eid = uint part * 2 ^ 42 + uint counter" by simp
  then show "uint eid < 2 ^ 62" using p e by simp
qed

section \<open>The prefix of a partition\<close>

lemma take_be_digits: "k \<le> n \<Longrightarrow> take k (be_digits n x) = be_digits k (x div 256 ^ (n - k))"
proof (induction k arbitrary: n)
  case (Suc k)
  then obtain m where n: "n = Suc m" by (cases n) auto
  have "x div 256 ^ (m - k) div 256 ^ k = x div 256 ^ m"
    using Suc.prems n by (simp add: div_mult2_eq [symmetric] power_add [symmetric])
  then show ?case using Suc n by simp
qed simp

lemma be_digits_eq_iff:
  "x < 256 ^ n \<Longrightarrow> y < 256 ^ n \<Longrightarrow> be_digits n x = be_digits n y \<longleftrightarrow> x = y"
  by (metis be_value_be_digits mod_less)

lemma take3_encode_i64:
  assumes "uint e < 2 ^ 62"
  shows "take 3 (encode_i64_bytes e) = be_digits 3 (nat (2 ^ 23 - 1 - uint e div 2 ^ 40))"
proof -
  have "uint (e XOR i64_MAX) = 2 ^ 63 - 1 - uint e"
    using assms uint_xor_i64_MAX [of e] by (simp add: sint_cases)
  then have "unat (e XOR i64_MAX) div 2 ^ 40 = nat ((2 ^ 63 - 1 - uint e) div 2 ^ 40)"
    by (simp add: unat_eq_nat_uint nat_div_distrib)
  also have "(2 ^ 63 - 1 - uint e) div 2 ^ 40 =
      ((2 ^ 40 - 1 - uint e mod 2 ^ 40) + 2 ^ 40 * (2 ^ 23 - 1 - uint e div 2 ^ 40)) div 2 ^ 40"
    using mult_div_mod_eq [of "2 ^ 40" "uint e"] by (simp add: algebra_simps)
  also have "\<dots> = (2 ^ 40 - 1 - uint e mod 2 ^ 40) div 2 ^ 40 + (2 ^ 23 - 1 - uint e div 2 ^ 40)"
    by (subst div_mult_self2) simp_all
  also have "(2 ^ 40 - 1 - uint e mod 2 ^ 40) div 2 ^ 40 = 0"
    using pos_mod_bound [of "2 ^ 40" "uint e"] pos_mod_sign [of "2 ^ 40" "uint e"]
    by (intro div_pos_pos_trivial) simp_all
  finally show ?thesis by (simp add: encode_i64_bytes_def to_be_bytes_def take_be_digits)
qed

lemma be_digits3_eq_iff:
  "0 \<le> a \<Longrightarrow> a < 2 ^ 22 \<Longrightarrow> 0 \<le> b \<Longrightarrow> b < 2 ^ 22 \<Longrightarrow>
     be_digits 3 (nat (2 ^ 23 - 1 - a)) = be_digits 3 (nat (2 ^ 23 - 1 - b)) \<longleftrightarrow> a = b"
  by (subst be_digits_eq_iff) auto

lemma take3_encode_i64_eq_iff:
  assumes "uint e < 2 ^ 62" and "uint b < 2 ^ 62"
  shows "take 3 (encode_i64_bytes e) = take 3 (encode_i64_bytes b) \<longleftrightarrow>
    uint e div 2 ^ 40 = uint b div 2 ^ 40"
proof -
  have q: "uint x div 2 ^ 40 < 2 ^ 22" "0 \<le> uint x div 2 ^ 40" if "uint x < 2 ^ 62" for x :: i64
    using that by (auto simp: pos_imp_zdiv_nonneg_iff)
  show ?thesis
    unfolding take3_encode_i64 [OF assms(1)] take3_encode_i64 [OF assms(2)]
    by (rule be_digits3_eq_iff) (simp_all only: q [OF assms(1)] q [OF assms(2)])
qed

section \<open>Allocation\<close>

text \<open>The counters are well formed while they stay in the 42 bits of an identifier.\<close>

definition pm_wf :: "partition_map \<Rightarrow> bool" where
  "pm_wf pm \<longleftrightarrow> (\<forall>part next_id. pm part = Some next_id \<longrightarrow> uint next_id \<le> 2 ^ 42)"

lemma or_insert_wf: "pm_wf pm \<Longrightarrow> uint (or_insert pm part 0) \<le> 2 ^ 42"
  by (auto simp: pm_wf_def or_insert_def split: option.split)

lemma pm_wf_update: "pm_wf pm \<Longrightarrow> uint n \<le> 2 ^ 42 \<Longrightarrow> pm_wf (pm(part \<mapsto> n))"
  by (simp add: pm_wf_def)

lemma sint_small: "uint v \<le> 2 ^ 42 \<Longrightarrow> sint (v :: i64) = uint v"
  by (simp add: sint_cases)

lemma uint_Suc_small: "uint v < 2 ^ 42 \<Longrightarrow> uint (v + 1 :: i64) = uint v + 1"
  by (simp add: uint_word_ariths)

lemma extract_counter_bound: "uint (extract_counter eid) < 2 ^ 42"
proof -
  have "extract_counter eid = take_bit 42 eid"
    by (simp add: extract_counter_def COUNTER_MASK_mask take_bit_eq_mask)
  then show ?thesis using take_bit_int_less_exp [of 42 "uint eid"] by (simp add: unsigned_take_bit_eq)
qed

text \<open>On well-formed counters the signed comparison is the comparison of the numbers.\<close>

lemma contains_entid_iff:
  assumes "pm_wf pm"
  shows "contains_entid pm eid \<longleftrightarrow>
    (\<exists>next_id. pm (extract_partition eid) = Some next_id \<and>
       uint (extract_counter eid) < uint next_id)"
proof -
  have "uint (extract_counter eid) \<le> 2 ^ 42" using extract_counter_bound [of eid] by simp
  moreover have "uint next_id \<le> 2 ^ 42" if "pm part = Some next_id" for part next_id
    using assms that by (auto simp: pm_wf_def)
  ultimately show ?thesis
    by (auto simp: contains_entid_def word_sless_alt sint_small split: option.split)
qed

lemma contains_entid_update:
  assumes "pm_wf pm" and "uint (or_insert pm part 0) \<le> uint n" and "uint n \<le> 2 ^ 42"
    and "contains_entid pm eid"
  shows "contains_entid (pm(part \<mapsto> n)) eid"
  using assms by (auto simp: contains_entid_iff pm_wf_update or_insert_def split: if_splits)

section \<open>Properties\<close>

text \<open>An entity identifier determines its partition and its counter: reading the parts of
  a made identifier gives back what it was made of, every 20-bit partition and 42-bit counter
  makes one, anything else panics, and it is a non-negative 64-bit integer.\<close>

theorem entity_id_roundtrip:
  "(case make_entity_id part counter of
      Inr eid \<Rightarrow> extract_partition eid = part \<and> extract_counter eid = counter \<and>
        0 \<le> sint eid \<and> sint eid < 2 ^ 62
    | Inl e \<Rightarrow> (part \<ge> 2 ^ 20 \<or> sint counter < 0 \<or> sint counter \<ge> 2 ^ 42) \<and>
        e \<in> {Panic ''partition must fit in 20 bits'', Panic ''counter must fit in 42 bits''})"
proof (cases "make_entity_id part counter")
  case (Inl e)
  have "sint COUNTER_MASK = 2 ^ 42 - 1" by (simp add: COUNTER_MASK_def)
  with Inl show ?thesis by (auto simp: make_entity_id_def split: if_splits)
next
  case (Inr eid)
  then show ?thesis
    using extract_make [OF Inr] uint_make_entity_id(2) [OF Inr] by (simp add: sint_cases)
qed

lemma allocate_entid_ok:
  assumes "pm_wf pm" and "allocate_entid pm part = Ok (eid, pm')"
  shows "\<not> contains_entid pm eid \<and> contains_entid pm' eid \<and> extract_partition eid = part \<and>
    (\<forall>e. contains_entid pm e \<longrightarrow> contains_entid pm' e) \<and> pm_wf pm'"
proof -
  let ?c = "or_insert pm part 0"
  have m: "make_entity_id part ?c = Ok eid" and pm': "pm' = pm(part \<mapsto> ?c + 1)"
    using assms(2) by (auto simp: allocate_entid_def allocate_counter_def Let_def)
  have c: "uint ?c < 2 ^ 42" using m by (simp add: make_entity_id_Ok)
  note up = uint_Suc_small [OF c]
  have wf': "pm_wf pm'" using assms(1) c up unfolding pm' by (intro pm_wf_update) simp_all
  have "contains_entid pm' e" if "contains_entid pm e" for e
    using contains_entid_update [OF assms(1) _ _ that, of part "?c + 1"] c up unfolding pm' by simp
  moreover have "\<not> contains_entid pm eid"
    using extract_make [OF m] by (auto simp: contains_entid_iff [OF assms(1)] or_insert_def)
  moreover have "contains_entid pm' eid"
    unfolding contains_entid_iff [OF wf'] using extract_make [OF m] up by (simp add: pm')
  ultimately show ?thesis using extract_make [OF m] wf' by simp
qed


text \<open>C28: Allocating an identifier gives one that was not allocated before, in the partition
  asked for; afterwards it is allocated, nothing that was allocated is lost, and the counters
  stay well formed.\<close>

theorem allocate_entid_fresh:
  assumes "pm_wf pm" and "allocate_entid pm part = Ok (eid, pm')"
  shows "\<not> contains_entid pm eid \<and> contains_entid pm' eid \<and> extract_partition eid = part \<and>
    (\<forall>e. contains_entid pm e \<longrightarrow> contains_entid pm' e) \<and> pm_wf pm'"
  by (rule allocate_entid_ok [OF assms])

theorem allocate_entid_fresh_witness:
  "\<exists>eid pm'. allocate_entid [USER_PARTITION \<mapsto> 5] USER_PARTITION = Ok (eid, pm') \<and>
     \<not> contains_entid [USER_PARTITION \<mapsto> 5] eid \<and> contains_entid pm' eid"
proof -
  have "pm_wf [USER_PARTITION \<mapsto> 5]" by (simp add: pm_wf_def)
  moreover have "\<exists>eid pm'. allocate_entid [USER_PARTITION \<mapsto> 5] USER_PARTITION = Ok (eid, pm')"
    by (simp add: allocate_entid_def allocate_counter_def or_insert_def make_entity_id_Ok
        partition_defs)
  ultimately show ?thesis using allocate_entid_fresh by blast
qed

lemma set_tx_counter_ok:
  assumes "pm_wf pm" and "0 \<le> sint tx_id" and "sint tx_id < 2 ^ 42"
    and "tx_eid_from_tx_id tx_id = Ok eid"
  shows "case set_tx_counter pm tx_id of
      Inl e \<Rightarrow> e = Err ''non-monotonic tx_id'' \<and> contains_entid pm eid
    | Inr pm' \<Rightarrow> \<not> contains_entid pm eid \<and> contains_entid pm' eid \<and> pm_wf pm' \<and>
        (\<forall>e. contains_entid pm e \<longrightarrow> contains_entid pm' e)"
proof -
  let ?n = "or_insert pm TX_PARTITION 0"
  have t: "uint tx_id < 2 ^ 42" "sint tx_id = uint tx_id"
    using assms(2,3) sint_nonneg_uint [of tx_id] by simp_all
  note up = uint_Suc_small [OF t(1)] and n = or_insert_wf [OF assms(1), of TX_PARTITION]
  have ex: "extract_partition eid = TX_PARTITION" "extract_counter eid = tx_id"
    using extract_make assms(4) by (simp_all add: tx_eid_from_tx_id_def)
  have old: "contains_entid pm eid \<longleftrightarrow> uint tx_id < uint ?n"
    by (auto simp: contains_entid_iff [OF assms(1)] ex or_insert_def split: option.split)
  have lt: "tx_id <s ?n \<longleftrightarrow> uint tx_id < uint ?n"
    by (simp add: word_sless_alt t(2) sint_small [OF n])
  have wf': "pm_wf (pm(TX_PARTITION \<mapsto> tx_id + 1))"
    using t(1) up by (intro pm_wf_update assms(1)) simp
  have "contains_entid (pm(TX_PARTITION \<mapsto> tx_id + 1)) e"
    if "contains_entid pm e" and "\<not> uint tx_id < uint ?n" for e
    using contains_entid_update [OF assms(1) _ _ that(1), of TX_PARTITION "tx_id + 1"] that(2) t(1) up
    by simp
  then show ?thesis
    using old lt wf' up by (simp add: set_tx_counter_def contains_entid_iff [OF wf'] ex)
qed

text \<open>Recording a transaction number is monotone: a number below the counter of the
  transaction partition is refused, any other one becomes allocated, was not allocated before,
  and keeps every allocated identifier allocated.\<close>

theorem set_tx_counter_monotone:
  assumes "pm_wf pm" and "0 \<le> sint tx_id" and "sint tx_id < 2 ^ 42"
    and "tx_eid_from_tx_id tx_id = Ok eid"
  shows "case set_tx_counter pm tx_id of
      Inl e \<Rightarrow> e = Err ''non-monotonic tx_id'' \<and> contains_entid pm eid
    | Inr pm' \<Rightarrow> \<not> contains_entid pm eid \<and> contains_entid pm' eid \<and> pm_wf pm' \<and>
        (\<forall>e. contains_entid pm e \<longrightarrow> contains_entid pm' e)"
  by (rule set_tx_counter_ok [OF assms])

theorem set_tx_counter_monotone_witness:
  "set_tx_counter [TX_PARTITION \<mapsto> 5] 3 = Error (Err ''non-monotonic tx_id'') \<and>
   (\<exists>eid. tx_eid_from_tx_id 3 = Ok eid \<and> contains_entid [TX_PARTITION \<mapsto> 5] eid)"
proof -
  have "pm_wf [TX_PARTITION \<mapsto> 5]" by (simp add: pm_wf_def)
  moreover obtain eid where "tx_eid_from_tx_id 3 = Ok eid"
    by (simp add: tx_eid_from_tx_id_def make_entity_id_Ok TX_PARTITION_def)
  moreover have "set_tx_counter [TX_PARTITION \<mapsto> 5] 3 = Error (Err ''non-monotonic tx_id'')"
    by (simp add: set_tx_counter_def or_insert_def word_sless_alt)
  ultimately show ?thesis
    using set_tx_counter_monotone [of "[TX_PARTITION \<mapsto> 5]" 3 eid] by simp
qed

lemma partition_prefix_ok:
  assumes "partition_entity_prefix part = Ok p" and "make_entity_id part' counter = Ok eid"
  shows "prefix p (encode_datatype (DLong eid)) \<longleftrightarrow> part' = part \<and> sint counter < 2 ^ 40"
proof -
  obtain base where b: "make_entity_id part 0 = Ok base"
    and p: "p = TAG_LONG # take 3 (encode_i64_bytes base)"
    using assms(1) by (auto simp: partition_entity_prefix_def)
  note e = uint_make_entity_id [OF assms(2)] and eb = uint_make_entity_id [OF b]
  have cb: "uint counter < 2 ^ 42" using assms(2) by (simp add: make_entity_id_Ok)
  have sc: "sint counter = uint counter" using cb by (simp add: sint_small)
  have q: "uint eid div 2 ^ 40 = uint part' * 4 + uint counter div 2 ^ 40"
    "uint base div 2 ^ 40 = uint part * 4"
    by (simp_all add: e(1) eb(1) div_plus_div_distrib_dvd_left)
  have d: "uint counter div 2 ^ 40 < 4" "0 \<le> uint counter div 2 ^ 40"
    using cb by (auto simp: div_less_iff_less_mult pos_imp_zdiv_nonneg_iff)
  have four: "a * 4 + x = b * 4 \<longleftrightarrow> a = b \<and> x = 0" if "0 \<le> x" "x < 4" for a b x :: int
    using that by presburger
  have "prefix p (encode_datatype (DLong eid)) \<longleftrightarrow>
      take 3 (encode_i64_bytes eid) = take 3 (encode_i64_bytes base)"
    by (auto simp: p encode_i64_def prefix_def) (metis append_take_drop_id)+
  also have "\<dots> \<longleftrightarrow> uint eid div 2 ^ 40 = uint base div 2 ^ 40"
    by (rule take3_encode_i64_eq_iff [OF e(2) eb(2)])
  also have "\<dots> \<longleftrightarrow> uint part' = uint part \<and> uint counter div 2 ^ 40 = 0"
    unfolding q using four [OF d(2,1)] .
  also have "\<dots> \<longleftrightarrow> part' = part \<and> uint counter < 2 ^ 40"
    using cb by (auto simp: word_uint_eq_iff zdiv_eq_0_iff)
  finally show ?thesis by (simp add: sc)
qed

text \<open>The key prefix of a partition selects exactly the stored identifiers of that partition
  whose counter is below \<open>2 ^ 40\<close>; it never selects an identifier of another partition.\<close>

theorem partition_prefix_selects:
  assumes "partition_entity_prefix part = Ok p" and "make_entity_id part' counter = Ok eid"
  shows "prefix p (encode_datatype (DLong eid)) \<longleftrightarrow> part' = part \<and> sint counter < 2 ^ 40"
  by (rule partition_prefix_ok [OF assms])

theorem partition_prefix_selects_witness:
  "\<exists>p eid. partition_entity_prefix TX_PARTITION = Ok p \<and> make_entity_id TX_PARTITION 9 = Ok eid \<and>
     prefix p (encode_datatype (DLong eid))"
proof -
  obtain p where "partition_entity_prefix TX_PARTITION = Ok p"
    by (simp add: partition_entity_prefix_def make_entity_id_def partition_defs Let_def)
  moreover obtain eid where "make_entity_id TX_PARTITION 9 = Ok eid"
    by (simp add: make_entity_id_Ok TX_PARTITION_def)
  ultimately show ?thesis using partition_prefix_selects by fastforce
qed

text \<open>The check for allocated identifiers does not look at bits 62 and 63: an integer that
  was never handed out, with one of these bits set, passes as the allocated identifier that
  agrees with it on the other bits.\<close>

theorem contains_entid_ignores_high_bits:
  "contains_entid pm (eid OR push_bit 62 1) = contains_entid pm eid \<and>
   contains_entid pm (eid OR push_bit 63 1) = contains_entid pm eid"
proof -
  have "extract_partition (eid OR push_bit k 1) = extract_partition eid \<and>
      extract_counter (eid OR push_bit k 1) = extract_counter eid" if "62 \<le> k" for k
    using that by (intro conjI bit_word_eqI) (auto simp: extract_partition_def extract_counter_def
        PARTITION_MASK_mask COUNTER_MASK_mask COUNTER_BITS_def bit_simps)
  from this [of 62] this [of 63] show ?thesis by (simp only: contains_entid_def)
qed

end
