(* ===== verification/Index_Keys.thy ===== *)
theory Index_Keys
  imports Codec
begin

text \<open>
  The layout of index keys: the constants of \<^verbatim>\<open>src/codec.rs\<close>, the index types of
  \<^verbatim>\<open>src/index.rs\<close>, the slicing functions of \<^verbatim>\<open>src/util.rs\<close>, the keys that
  \<^verbatim>\<open>write_index_entries\<close> of \<^verbatim>\<open>src/indexer.rs\<close> writes for a datom and the functions
  that take a key apart again. A slice out of range and a subtraction below zero panic.
\<close>

section \<open>Constants and index types\<close>

datatype index_type = EAV_index | AVE_index | AEV_index | VAE_index | AE_index | AV_index

definition CODEC_LENGTH :: nat where "CODEC_LENGTH = 1"
definition ENTITY_LENGTH :: nat where "ENTITY_LENGTH = 9"
definition ATTRIBUTE_LENGTH :: nat where "ATTRIBUTE_LENGTH = 8"
definition OP_LENGTH :: nat where "OP_LENGTH = 1"
definition TX_EID_LENGTH :: nat where "TX_EID_LENGTH = 8"
definition TX_EID_OP_SUFFIX :: nat where "TX_EID_OP_SUFFIX = TX_EID_LENGTH + OP_LENGTH"

definition EAV :: u8 where "EAV = 0"
definition AVE :: u8 where "AVE = 1"
definition AEV :: u8 where "AEV = 2"
definition AE :: u8 where "AE = 3"
definition AV :: u8 where "AV = 4"
definition VAE :: u8 where "VAE = 5"
definition ADD :: u8 where "ADD = 0"
definition RETRACT :: u8 where "RETRACT = 1"

lemmas key_length_defs = CODEC_LENGTH_def ENTITY_LENGTH_def ATTRIBUTE_LENGTH_def OP_LENGTH_def
  TX_EID_LENGTH_def TX_EID_OP_SUFFIX_def

lemmas index_defs = EAV_def AVE_def AEV_def AE_def AV_def VAE_def ADD_def RETRACT_def

definition index_type_to_prefix :: "index_type \<Rightarrow> u8 result" where
  "index_type_to_prefix it =
     (case it of
        EAV_index \<Rightarrow> Ok EAV | AVE_index \<Rightarrow> Ok AVE | AEV_index \<Rightarrow> Ok AEV | VAE_index \<Rightarrow> Ok VAE
      | AE_index \<Rightarrow> Ok AE | AV_index \<Rightarrow> Ok AV)"

text \<open>The numbering of the enumeration itself, as a cast to a byte sees it.\<close>

definition index_type_as_u8 :: "index_type \<Rightarrow> u8" where
  "index_type_as_u8 it =
     (case it of
        EAV_index \<Rightarrow> 0 | AVE_index \<Rightarrow> 1 | AEV_index \<Rightarrow> 2 | VAE_index \<Rightarrow> 3
      | AE_index \<Rightarrow> 4 | AV_index \<Rightarrow> 5)"

definition remove_index_type :: "bytes \<Rightarrow> bytes result" where
  "remove_index_type bs =
     (if length bs < 1 then Error (Panic ''at split index out of bounds'') else Ok (take 1 bs))"

definition add_index_type :: "bytes \<Rightarrow> index_type \<Rightarrow> bytes" where
  "add_index_type bs it = index_type_as_u8 it # bs"

section \<open>Slices\<close>

definition concat_bytes :: "bytes list \<Rightarrow> bytes" where
  "concat_bytes parts = foldl (\<lambda>result part. result @ part) [] parts"

definition usub :: "nat \<Rightarrow> nat \<Rightarrow> nat result" where
  "usub a b = (if a < b then Error (Panic ''attempt to subtract with overflow'') else Ok (a - b))"

definition get_slice :: "bytes \<Rightarrow> nat \<Rightarrow> nat \<Rightarrow> bytes result" where
  "get_slice bs s e =
     (if e < s \<or> length bs < e then Error (Panic ''slice index out of range'')
      else Ok (take (e - s) (drop s bs)))"

definition strip_prefix :: "bytes \<Rightarrow> nat \<Rightarrow> bytes result" where
  "strip_prefix bs prefix_len = get_slice bs prefix_len (length bs)"

definition strip_suffix :: "bytes \<Rightarrow> nat \<Rightarrow> bytes result" where
  "strip_suffix bs suffix_len = rbind (usub (length bs) suffix_len) (get_slice bs 0)"

definition check_position :: "nat \<Rightarrow> index_type \<Rightarrow> unit result" where
  "check_position position it =
     (if it \<in> {EAV_index, AVE_index, AEV_index, VAE_index} then
        (if position < 3 then Ok () else Error (Panic ''Position must be less than 3''))
      else
        (if position < 2 then Ok () else Error (Panic ''Position must be less than 2'')))"

text \<open>The bounds of the slot at a position, given the length of the key.\<close>

definition extractor_range :: "nat \<Rightarrow> index_type \<Rightarrow> nat \<Rightarrow> (nat \<times> nat) result" where
  "extractor_range position it total_length =
     (let to_end = (\<lambda>s n. rbind (usub total_length n) (\<lambda>e. Ok (s, e)));
          from_end = (\<lambda>m n. rbind (usub total_length m) (\<lambda>s. rbind (usub total_length n) (\<lambda>e. Ok (s, e))))
      in case it of
        EAV_index \<Rightarrow>
          (if position = 0 then Ok (CODEC_LENGTH, CODEC_LENGTH + ENTITY_LENGTH)
           else if position = 1 then
             Ok (CODEC_LENGTH + ENTITY_LENGTH, CODEC_LENGTH + ENTITY_LENGTH + ATTRIBUTE_LENGTH)
           else to_end (CODEC_LENGTH + ENTITY_LENGTH + ATTRIBUTE_LENGTH) TX_EID_OP_SUFFIX)
      | AVE_index \<Rightarrow>
          (if position = 0 then Ok (CODEC_LENGTH, CODEC_LENGTH + ATTRIBUTE_LENGTH)
           else if position = 1 then
             to_end (CODEC_LENGTH + ATTRIBUTE_LENGTH) (ENTITY_LENGTH + TX_EID_OP_SUFFIX)
           else from_end (ENTITY_LENGTH + TX_EID_OP_SUFFIX) TX_EID_OP_SUFFIX)
      | AEV_index \<Rightarrow>
          (if position = 0 then Ok (CODEC_LENGTH, CODEC_LENGTH + ATTRIBUTE_LENGTH)
           else if position = 1 then
             Ok (CODEC_LENGTH + ATTRIBUTE_LENGTH, CODEC_LENGTH + ATTRIBUTE_LENGTH + ENTITY_LENGTH)
           else to_end (CODEC_LENGTH + ATTRIBUTE_LENGTH + ENTITY_LENGTH) TX_EID_OP_SUFFIX)
      | VAE_index \<Rightarrow>
          (if position = 0 then
             to_end CODEC_LENGTH (ATTRIBUTE_LENGTH + ENTITY_LENGTH + TX_EID_OP_SUFFIX)
           else if position = 1 then
             from_end (ATTRIBUTE_LENGTH + ENTITY_LENGTH + TX_EID_OP_SUFFIX)
               (ENTITY_LENGTH + TX_EID_OP_SUFFIX)
           else from_end (ENTITY_LENGTH + TX_EID_OP_SUFFIX) TX_EID_OP_SUFFIX)
      | AE_index \<Rightarrow>
          (if position = 0 then Ok (CODEC_LENGTH, CODEC_LENGTH + ATTRIBUTE_LENGTH)
           else Ok (CODEC_LENGTH + ATTRIBUTE_LENGTH, total_length))
      | AV_index \<Rightarrow>
          (if position = 0 then Ok (CODEC_LENGTH, CODEC_LENGTH + ATTRIBUTE_LENGTH)
           else Ok (CODEC_LENGTH + ATTRIBUTE_LENGTH, total_length)))"

definition make_extractor :: "nat \<Rightarrow> index_type \<Rightarrow> bytes \<Rightarrow> bytes result" where
  "make_extractor position it bs =
     rbind (check_position position it) (\<lambda>_.
     rbind (extractor_range position it (length bs)) (\<lambda>(s, e). get_slice bs s e))"

definition extract_value :: "bytes \<Rightarrow> nat \<Rightarrow> index_type \<Rightarrow> bytes result" where
  "extract_value bs position it = make_extractor position it bs"

definition prefix_end :: "nat \<Rightarrow> index_type \<Rightarrow> nat \<Rightarrow> nat result" where
  "prefix_end position it total_length =
     (case it of
        EAV_index \<Rightarrow>
          (if position = 0 then Ok CODEC_LENGTH
           else if position = 1 then Ok (CODEC_LENGTH + ENTITY_LENGTH)
           else Ok (CODEC_LENGTH + ENTITY_LENGTH + ATTRIBUTE_LENGTH))
      | AVE_index \<Rightarrow>
          (if position = 0 then Ok CODEC_LENGTH
           else if position = 1 then Ok (CODEC_LENGTH + ATTRIBUTE_LENGTH)
           else usub total_length (ENTITY_LENGTH + TX_EID_OP_SUFFIX))
      | AEV_index \<Rightarrow>
          (if position = 0 then Ok CODEC_LENGTH
           else if position = 1 then Ok (CODEC_LENGTH + ATTRIBUTE_LENGTH)
           else Ok (CODEC_LENGTH + ATTRIBUTE_LENGTH + ENTITY_LENGTH))
      | VAE_index \<Rightarrow>
          (if position = 0 then Ok CODEC_LENGTH
           else if position = 1 then
             usub total_length (ATTRIBUTE_LENGTH + ENTITY_LENGTH + TX_EID_OP_SUFFIX)
           else usub total_length (ENTITY_LENGTH + TX_EID_OP_SUFFIX))
      | AE_index \<Rightarrow>
          (if position = 0 then Ok CODEC_LENGTH else Ok (CODEC_LENGTH + ATTRIBUTE_LENGTH))
      | AV_index \<Rightarrow>
          (if position = 0 then Ok CODEC_LENGTH else Ok (CODEC_LENGTH + ATTRIBUTE_LENGTH)))"

definition prefix_extractor :: "nat \<Rightarrow> index_type \<Rightarrow> bytes \<Rightarrow> bytes result" where
  "prefix_extractor position it bs =
     rbind (check_position position it) (\<lambda>_.
     rbind (prefix_end position it (length bs)) (get_slice bs 0))"

definition extract_prefix :: "bytes \<Rightarrow> nat \<Rightarrow> index_type \<Rightarrow> bytes result" where
  "extract_prefix bs position it = prefix_extractor position it bs"

primrec next_prefix_loop :: "nat \<Rightarrow> bytes \<Rightarrow> bytes option" where
  "next_prefix_loop 0 p = None"
| "next_prefix_loop (Suc i) p =
     (if p ! i < 0xFF then Some (take (i + 1) (p[i := p ! i + 1])) else next_prefix_loop i p)"

definition next_prefix :: "bytes \<Rightarrow> bytes option" where
  "next_prefix p = next_prefix_loop (length p) p"

section \<open>Keys\<close>

text \<open>
  The key that is written for a datom under an index, from the bytes of its parts. The
  atemporal indices have no transaction and no operation.
\<close>

definition index_key :: "index_type \<Rightarrow> bytes \<Rightarrow> bytes \<Rightarrow> bytes \<Rightarrow> bytes \<Rightarrow> u8 \<Rightarrow> bytes" where
  "index_key it entity_bytes attr_bytes value tx_eid_bytes op_byte =
     (case it of
        EAV_index \<Rightarrow> EAV # entity_bytes @ attr_bytes @ value @ tx_eid_bytes @ [op_byte]
      | AVE_index \<Rightarrow> AVE # attr_bytes @ value @ entity_bytes @ tx_eid_bytes @ [op_byte]
      | AEV_index \<Rightarrow> AEV # attr_bytes @ entity_bytes @ value @ tx_eid_bytes @ [op_byte]
      | VAE_index \<Rightarrow> VAE # value @ attr_bytes @ entity_bytes @ tx_eid_bytes @ [op_byte]
      | AE_index \<Rightarrow> AE # attr_bytes @ entity_bytes
      | AV_index \<Rightarrow> AV # attr_bytes @ value)"

definition strip_temporal_key :: "bytes \<Rightarrow> u8 \<Rightarrow> (bytes \<times> i64 \<times> u8) result" where
  "strip_temporal_key key expected_prefix =
     (if key = [] \<or> hd key \<noteq> expected_prefix then Error (Err ''Not a key of the index'')
      else if length key < 1 + TX_EID_OP_SUFFIX then Error (Err ''Key too short'')
      else
        (let data = take (length key - TX_EID_OP_SUFFIX - 1) (drop 1 key);
             cursor = take (TX_EID_OP_SUFFIX - OP_LENGTH) (drop (length key - TX_EID_OP_SUFFIX) key)
         in rbind (decode_i64 cursor) (\<lambda>(tx_eid, _). Ok (data, tx_eid, key ! (length key - 1)))))"

definition strip_atemporal_key :: "bytes \<Rightarrow> u8 \<Rightarrow> bytes result" where
  "strip_atemporal_key key expected_prefix =
     (if key = [] \<or> hd key \<noteq> expected_prefix then Error (Err ''Not a key of the index'')
      else if length key < 2 then Error (Err ''Key too short'')
      else Ok (drop 1 key))"

definition eav_key_to_parts ::
  "timestamp_opt \<Rightarrow> bytes \<Rightarrow> (data_type \<times> i64 \<times> data_type \<times> i64 \<times> u8) result" where
  "eav_key_to_parts ts key =
     rbind (strip_temporal_key key EAV) (\<lambda>(data, tx_eid, op).
     rbind (decode_datatype ts data) (\<lambda>(entity_id, c1).
     rbind (decode_i64 c1) (\<lambda>(attribute, c2).
     rbind (decode_datatype ts c2) (\<lambda>(value, _).
     Ok (entity_id, attribute, value, tx_eid, op)))))"

definition ave_key_to_parts ::
  "timestamp_opt \<Rightarrow> bytes \<Rightarrow> (i64 \<times> data_type \<times> data_type \<times> i64 \<times> u8) result" where
  "ave_key_to_parts ts key =
     rbind (strip_temporal_key key AVE) (\<lambda>(data, tx_eid, op).
     rbind (decode_i64 data) (\<lambda>(attribute, c1).
     rbind (decode_datatype ts c1) (\<lambda>(value, c2).
     rbind (decode_datatype ts c2) (\<lambda>(entity_id, _).
     Ok (attribute, value, entity_id, tx_eid, op)))))"

definition aev_key_to_parts ::
  "timestamp_opt \<Rightarrow> bytes \<Rightarrow> (i64 \<times> data_type \<times> data_type \<times> i64 \<times> u8) result" where
  "aev_key_to_parts ts key =
     rbind (strip_temporal_key key AEV) (\<lambda>(data, tx_eid, op).
     rbind (decode_i64 data) (\<lambda>(attribute, c1).
     rbind (decode_datatype ts c1) (\<lambda>(entity_id, c2).
     rbind (decode_datatype ts c2) (\<lambda>(value, _).
     Ok (attribute, entity_id, value, tx_eid, op)))))"

definition vae_key_to_parts ::
  "timestamp_opt \<Rightarrow> bytes \<Rightarrow> (data_type \<times> i64 \<times> data_type \<times> i64 \<times> u8) result" where
  "vae_key_to_parts ts key =
     rbind (strip_temporal_key key VAE) (\<lambda>(data, tx_eid, op).
     rbind (decode_datatype ts data) (\<lambda>(value, c1).
     rbind (decode_i64 c1) (\<lambda>(attribute, c2).
     rbind (decode_datatype ts c2) (\<lambda>(entity_id, _).
     Ok (value, attribute, entity_id, tx_eid, op)))))"

definition ae_key_to_parts :: "timestamp_opt \<Rightarrow> bytes \<Rightarrow> (i64 \<times> data_type) result" where
  "ae_key_to_parts ts key =
     rbind (strip_atemporal_key key AE) (\<lambda>data.
     rbind (decode_i64 data) (\<lambda>(attribute, c1).
     rbind (decode_datatype ts c1) (\<lambda>(entity_id, _). Ok (attribute, entity_id))))"

definition av_key_to_parts :: "timestamp_opt \<Rightarrow> bytes \<Rightarrow> (i64 \<times> data_type) result" where
  "av_key_to_parts ts key =
     rbind (strip_atemporal_key key AV) (\<lambda>data.
     rbind (decode_i64 data) (\<lambda>(attribute, c1).
     rbind (decode_datatype ts c1) (\<lambda>(value, _). Ok (attribute, value))))"

section \<open>The successor of a prefix\<close>

lemma next_prefix_loop_Cons:
  "i \<le> length p \<Longrightarrow> next_prefix_loop (Suc i) (b # p) =
     (case next_prefix_loop i p of
        Some n \<Rightarrow> Some (b # n)
      | None \<Rightarrow> if b < 0xFF then Some [b + 1] else None)"
  by (induction i) simp_all

lemma next_prefix_Nil [simp]: "next_prefix [] = None"
  by (simp add: next_prefix_def)

lemma next_prefix_Cons:
  "next_prefix (b # p) =
     (case next_prefix p of
        Some n \<Rightarrow> Some (b # n)
      | None \<Rightarrow> if b < 0xFF then Some [b + 1] else None)"
  using next_prefix_loop_Cons [of "length p" p b] by (simp add: next_prefix_def)

lemma byte_less_Suc: "b < 0xFF \<Longrightarrow> c < b + 1 \<longleftrightarrow> c \<le> b" for b c :: u8
  by (auto simp: word_less_nat_alt word_le_nat_alt unat_word_ariths)

lemma byte_max: "\<not> b < 0xFF \<Longrightarrow> \<not> b < c" for b c :: u8
  using unsigned_less [where ?'a = nat and w = c] by (auto simp: word_less_nat_alt)

lemma prefix_range:
  "case next_prefix p of
     Some n \<Rightarrow> prefix p k \<longleftrightarrow> p \<le> k \<and> k < n
   | None \<Rightarrow> prefix p k \<longleftrightarrow> p \<le> k"
proof (induction p arbitrary: k)
  case (Cons b p)
  show ?case
  proof (cases k)
    case (Cons c ks)
    show ?thesis
    proof (cases "next_prefix p")
      case None
      then have "prefix p ks \<longleftrightarrow> p \<le> ks" using Cons.IH [of ks] by simp
      then show ?thesis using None byte_less_Suc [of b c] byte_max [of b c] \<open>k = c # ks\<close>
        by (auto simp: next_prefix_Cons)
    next
      case (Some n)
      then have "prefix p ks \<longleftrightarrow> p \<le> ks \<and> ks < n" using Cons.IH [of ks] by simp
      then show ?thesis using Some \<open>k = c # ks\<close> by (auto simp: next_prefix_Cons)
    qed
  qed (simp add: next_prefix_Cons split: option.split)
qed simp

section \<open>Taking keys apart\<close>

text \<open>
  The contract of a key format: parsing a key that was built from well-formed parts gives the
  parts back. A client may then identify a key with its parts.
\<close>

locale key_format =
  fixes mk :: "'p \<Rightarrow> bytes"
    and parts :: "bytes \<Rightarrow> 'p result"
    and wf :: "'p \<Rightarrow> bool"
  assumes parts_mk: "wf p \<Longrightarrow> parts (mk p) = Ok p"
begin

lemma mk_eq_iff: "wf p \<Longrightarrow> wf q \<Longrightarrow> mk p = mk q \<longleftrightarrow> p = q"
  by (metis parts_mk sum.inject(2))

lemma mk_inj_on: "inj_on mk {p. wf p}"
  by (rule inj_onI) (simp add: mk_eq_iff)

end

definition entity_bytes :: "entid \<Rightarrow> bytes" where
  "entity_bytes e = encode_datatype (DLong e)"

lemma length_entity_bytes [simp]: "length (entity_bytes e) = 9"
  by (simp add: entity_bytes_def)

lemma decode_entity_bytes [codec_simps]:
  "decode_datatype ts (entity_bytes e @ rest) = Ok (DLong e, rest)"
  "decode_datatype ts (entity_bytes e) = Ok (DLong e, [])"
  using codec_simps(1) [of e "[]"]
  by (simp_all add: entity_bytes_def decode_datatype_Cons decode_datatype_payload_def tag_defs
      codec_simps)

lemma decode_i64_bytes [codec_simps]:
  "decode_i64 (encode_i64_bytes a @ rest) = Ok (a, rest)"
  "decode_i64 (encode_i64_bytes a) = Ok (a, [])"
  using decode_encode_i64 [of a rest] decode_encode_i64 [of a "[]"] by (simp_all add: encode_i64_def)

lemma strip_temporal_key_mk [key_simps]:
  "strip_temporal_key (p # data @ encode_i64_bytes tx @ [op]) p = Ok (data, tx, op)"
  by (simp add: strip_temporal_key_def key_length_defs codec_simps nth_append)

lemma strip_atemporal_key_mk [key_simps]:
  "strip_atemporal_key (p # encode_i64_bytes a @ r) p = Ok (encode_i64_bytes a @ r)"
  by (simp add: strip_atemporal_key_def)

text \<open>The parts of a key as the functions return them, and the keys written for them.\<close>

definition mk_eav :: "data_type \<times> i64 \<times> data_type \<times> i64 \<times> u8 \<Rightarrow> bytes" where
  "mk_eav = (\<lambda>(e, a, v, tx, op). index_key EAV_index (encode_datatype e) (encode_i64_bytes a)
     (encode_datatype v) (encode_i64_bytes tx) op)"

definition mk_ave :: "i64 \<times> data_type \<times> data_type \<times> i64 \<times> u8 \<Rightarrow> bytes" where
  "mk_ave = (\<lambda>(a, v, e, tx, op). index_key AVE_index (encode_datatype e) (encode_i64_bytes a)
     (encode_datatype v) (encode_i64_bytes tx) op)"

definition mk_aev :: "i64 \<times> data_type \<times> data_type \<times> i64 \<times> u8 \<Rightarrow> bytes" where
  "mk_aev = (\<lambda>(a, e, v, tx, op). index_key AEV_index (encode_datatype e) (encode_i64_bytes a)
     (encode_datatype v) (encode_i64_bytes tx) op)"

definition mk_vae :: "data_type \<times> i64 \<times> data_type \<times> i64 \<times> u8 \<Rightarrow> bytes" where
  "mk_vae = (\<lambda>(v, a, e, tx, op). index_key VAE_index (encode_datatype e) (encode_i64_bytes a)
     (encode_datatype v) (encode_i64_bytes tx) op)"

definition mk_ae :: "i64 \<times> data_type \<Rightarrow> bytes" where
  "mk_ae = (\<lambda>(a, e). index_key AE_index (encode_datatype e) (encode_i64_bytes a) [] [] 0)"

definition mk_av :: "i64 \<times> data_type \<Rightarrow> bytes" where
  "mk_av = (\<lambda>(a, v). index_key AV_index [] (encode_i64_bytes a) (encode_datatype v) [] 0)"

lemmas mk_defs = mk_eav_def mk_ave_def mk_aev_def mk_vae_def mk_ae_def mk_av_def

lemmas key_to_parts_defs = eav_key_to_parts_def ave_key_to_parts_def aev_key_to_parts_def
  vae_key_to_parts_def ae_key_to_parts_def av_key_to_parts_def

lemma key_to_parts_mk:
  assumes law: "timestamp_law ts okt" and "dt_wf okt e" and "dt_wf okt v"
  shows "eav_key_to_parts ts (mk_eav (e, a, v, tx, op)) = Ok (e, a, v, tx, op)"
    and "ave_key_to_parts ts (mk_ave (a, v, e, tx, op)) = Ok (a, v, e, tx, op)"
    and "aev_key_to_parts ts (mk_aev (a, e, v, tx, op)) = Ok (a, e, v, tx, op)"
    and "vae_key_to_parts ts (mk_vae (v, a, e, tx, op)) = Ok (v, a, e, tx, op)"
    and "ae_key_to_parts ts (mk_ae (a, e)) = Ok (a, e)"
    and "av_key_to_parts ts (mk_av (a, v)) = Ok (a, v)"
proof -
  note dec = decode_encode_datatype [OF law assms(2)] decode_encode_datatype [OF law assms(3)]
    decode_encode_datatype [OF law assms(2), of "[]", simplified]
    decode_encode_datatype [OF law assms(3), of "[]", simplified]

  have strip: "strip_temporal_key (p # x @ y @ z @ encode_i64_bytes tx @ [op]) p = Ok (x @ y @ z, tx, op)"
    for p x y z
    using strip_temporal_key_mk [of p "x @ y @ z"] by simp
  show "eav_key_to_parts ts (mk_eav (e, a, v, tx, op)) = Ok (e, a, v, tx, op)"
    and "ave_key_to_parts ts (mk_ave (a, v, e, tx, op)) = Ok (a, v, e, tx, op)"
    and "aev_key_to_parts ts (mk_aev (a, e, v, tx, op)) = Ok (a, e, v, tx, op)"
    and "vae_key_to_parts ts (mk_vae (v, a, e, tx, op)) = Ok (v, a, e, tx, op)"
    and "ae_key_to_parts ts (mk_ae (a, e)) = Ok (a, e)"
    and "av_key_to_parts ts (mk_av (a, v)) = Ok (a, v)"
    unfolding key_to_parts_defs mk_defs index_key_def
    by (simp_all add: strip dec decode_i64_bytes key_simps)
qed

interpretation eav: key_format mk_eav "eav_key_to_parts any_timestamp"
  "\<lambda>(e, a, v, tx, op). storable e \<and> storable v"
  by unfold_locales (auto intro: key_to_parts_mk any_timestamp_law)

interpretation ave: key_format mk_ave "ave_key_to_parts any_timestamp"
  "\<lambda>(a, v, e, tx, op). storable e \<and> storable v"
  by unfold_locales (auto intro: key_to_parts_mk any_timestamp_law)

interpretation aev: key_format mk_aev "aev_key_to_parts any_timestamp"
  "\<lambda>(a, e, v, tx, op). storable e \<and> storable v"
  by unfold_locales (auto intro: key_to_parts_mk any_timestamp_law)

interpretation vae: key_format mk_vae "vae_key_to_parts any_timestamp"
  "\<lambda>(v, a, e, tx, op). storable e \<and> storable v"
  by unfold_locales (auto intro: key_to_parts_mk any_timestamp_law)

interpretation ae: key_format mk_ae "ae_key_to_parts any_timestamp" "\<lambda>(a, e). storable e"
  by unfold_locales (auto intro: key_to_parts_mk any_timestamp_law)

interpretation av: key_format mk_av "av_key_to_parts any_timestamp" "\<lambda>(a, v). storable v"
  by unfold_locales (auto intro: key_to_parts_mk any_timestamp_law)

section \<open>Slots of keys\<close>

text \<open>The slots of a key in the order of the index.\<close>

definition key_slots :: "index_type \<Rightarrow> bytes \<Rightarrow> bytes \<Rightarrow> bytes \<Rightarrow> bytes list" where
  "key_slots it e a v =
     (case it of
        EAV_index \<Rightarrow> [e, a, v] | AVE_index \<Rightarrow> [a, v, e] | AEV_index \<Rightarrow> [a, e, v]
      | VAE_index \<Rightarrow> [v, a, e] | AE_index \<Rightarrow> [a, e] | AV_index \<Rightarrow> [a, v])"

lemma position_cases:
  "position < length (key_slots it e a v) \<Longrightarrow>
     position = 0 \<or> position = 1 \<or> (position = 2 \<and> it \<notin> {AE_index, AV_index})"
  by (cases it) (auto simp: key_slots_def)

lemma usub_ok: "b \<le> a \<Longrightarrow> usub a b = Ok (a - b)"
  by (simp add: usub_def)

lemmas slot_simps = make_extractor_def extractor_range_def prefix_extractor_def prefix_end_def
  check_position_def get_slice_def index_key_def key_slots_def key_length_defs usub_ok
  drop_Cons' take_Cons'

lemma extract_slot:
  assumes "length e = 9" and "length a = 8" and "length tx = 8"
    and "position < length (key_slots it e a v)"
  shows "make_extractor position it (index_key it e a v tx op) = Ok (key_slots it e a v ! position)"
  using position_cases [OF assms(4)] assms(1-3) by (cases it) (elim disjE; simp add: slot_simps)+

lemma extract_prefix_slot:
  assumes "length e = 9" and "length a = 8" and "length tx = 8"
    and "position < length (key_slots it e a v)" and "index_type_to_prefix it = Ok p"
  shows "prefix_extractor position it (index_key it e a v tx op) =
    Ok (p # concat (take position (key_slots it e a v)))"
  using position_cases [OF assms(4)] assms(1-3,5)
  by (cases it) (elim disjE; simp add: slot_simps index_type_to_prefix_def)+

section \<open>Properties\<close>

text \<open>C25: The keys written to the indices are read back: from the key of a datom with
  well-formed entity and value under each of the six indices, the parsing function of that
  index returns exactly the parts the key was built from.\<close>

theorem key_to_parts_roundtrip:
  assumes "timestamp_law ts okt" and "dt_wf okt e" and "dt_wf okt v"
  shows "eav_key_to_parts ts (index_key EAV_index (encode_datatype e) (encode_i64_bytes a)
      (encode_datatype v) (encode_i64_bytes tx) op) = Ok (e, a, v, tx, op) \<and>
    ave_key_to_parts ts (index_key AVE_index (encode_datatype e) (encode_i64_bytes a)
      (encode_datatype v) (encode_i64_bytes tx) op) = Ok (a, v, e, tx, op) \<and>
    aev_key_to_parts ts (index_key AEV_index (encode_datatype e) (encode_i64_bytes a)
      (encode_datatype v) (encode_i64_bytes tx) op) = Ok (a, e, v, tx, op) \<and>
    vae_key_to_parts ts (index_key VAE_index (encode_datatype e) (encode_i64_bytes a)
      (encode_datatype v) (encode_i64_bytes tx) op) = Ok (v, a, e, tx, op) \<and>
    ae_key_to_parts ts (index_key AE_index (encode_datatype e) (encode_i64_bytes a) [] [] 0) =
      Ok (a, e) \<and>
    av_key_to_parts ts (index_key AV_index [] (encode_i64_bytes a) (encode_datatype v) [] 0) =
      Ok (a, v)"
  using key_to_parts_mk [OF assms] unfolding mk_defs by simp

theorem key_to_parts_roundtrip_witness:
  "eav_key_to_parts any_timestamp (index_key EAV_index (encode_datatype (DLong 7))
     (encode_i64_bytes 1) (encode_datatype (DBoolean True)) (encode_i64_bytes 9) RETRACT) =
     Ok (DLong 7, 1, DBoolean True, 9, RETRACT)"
proof -
  have "dt_wf (\<lambda>_. True) (DLong 7)" and "dt_wf (\<lambda>_. True) (DBoolean True)" by simp_all
  from key_to_parts_roundtrip [OF any_timestamp_law this] show ?thesis by blast
qed

text \<open>C26: Two datoms have the same key in an index that keeps the transaction only when they
  have the same entity, attribute, value, transaction and operation, and keys of different
  indices differ.\<close>

theorem temporal_keys_injective:
  assumes "storable v" and "storable w"
    and "it \<in> {EAV_index, AVE_index, AEV_index, VAE_index}"
  shows "index_key it (entity_bytes e) (encode_i64_bytes a) (encode_datatype v)
      (encode_i64_bytes tx) op =
    index_key it' (entity_bytes f) (encode_i64_bytes b) (encode_datatype w)
      (encode_i64_bytes tx') op' \<longleftrightarrow> it = it' \<and> e = f \<and> a = b \<and> v = w \<and> tx = tx' \<and> op = op'"
    (is "?k = ?k' \<longleftrightarrow> ?same")
proof (cases "it = it'")
  case False
  then have "hd ?k \<noteq> hd ?k'" by (cases it; cases it') (simp_all add: index_key_def index_defs)
  with False show ?thesis by auto
next
  case True
  have st: "storable (DLong e)" "storable (DLong f)" by simp_all
  show ?thesis
    using assms True st
      eav.mk_eq_iff [of "(DLong e, a, v, tx, op)" "(DLong f, b, w, tx', op')"]
      ave.mk_eq_iff [of "(a, v, DLong e, tx, op)" "(b, w, DLong f, tx', op')"]
      aev.mk_eq_iff [of "(a, DLong e, v, tx, op)" "(b, DLong f, w, tx', op')"]
      vae.mk_eq_iff [of "(v, a, DLong e, tx, op)" "(w, b, DLong f, tx', op')"]
    unfolding mk_defs entity_bytes_def by auto
qed

theorem temporal_keys_injective_witness:
  "index_key EAV_index (entity_bytes 1) (encode_i64_bytes 2) (encode_datatype (DLong 3))
     (encode_i64_bytes 4) ADD \<noteq>
   index_key EAV_index (entity_bytes 1) (encode_i64_bytes 2) (encode_datatype (DLong 3))
     (encode_i64_bytes 5) ADD"
  using temporal_keys_injective [of "DLong 3" "DLong 3" EAV_index 1 2 4 ADD EAV_index 1 2 5 ADD]
  by simp

text \<open>C27: The slot extractor returns, for every index and every valid position, exactly the
  bytes of that slot of a written key, and the prefix extractor returns the index byte with
  the slots before that position; nothing panics. \<close>

theorem extractors_correct:
  assumes "position < length (key_slots it (entity_bytes e) (encode_i64_bytes a) v)"
    and "index_type_to_prefix it = Ok p"
    and key_def: "key = index_key it (entity_bytes e) (encode_i64_bytes a) v (encode_i64_bytes tx) op"
  shows "extract_value key position it =
      Ok (key_slots it (entity_bytes e) (encode_i64_bytes a) v ! position) \<and>
    extract_prefix key position it =
      Ok (p # concat (take position (key_slots it (entity_bytes e) (encode_i64_bytes a) v)))"
  using extract_slot [OF _ _ _ assms(1)] extract_prefix_slot [OF _ _ _ assms(1,2)]
  by (simp add: key_def extract_value_def extract_prefix_def)

theorem extractors_correct_witness:
  "extract_value (index_key AVE_index (entity_bytes 1) (encode_i64_bytes 2) [8, 9]
     (encode_i64_bytes 4) ADD) 1 AVE_index = Ok [8, 9]"
  using extractors_correct [of 1 AVE_index 1 2 "[8, 9]" AVE _ 4 ADD, OF _ _ refl]
  by (simp add: key_slots_def index_type_to_prefix_def)

text \<open>The successor of a prefix bounds its range exactly: the keys that start with the
  prefix are the keys from the prefix up to, and not including, the successor; when there is no
  successor they are all the keys from the prefix on.\<close>

theorem next_prefix_range:
  "{k. prefix p k} =
     (case next_prefix p of Some n \<Rightarrow> {k. p \<le> k \<and> k < n} | None \<Rightarrow> {k. p \<le> k})"
  using prefix_range [of p] by (auto split: option.splits)

text \<open>The two helpers that take the index byte off a key and put one on do not undo each
  other: taking the byte off keeps that byte alone and drops the rest of the key, and the byte
  put on differs from the prefix the index is written under for VAE, AE and AV.\<close>

theorem index_type_byte_helpers:
  "remove_index_type (add_index_type key it) = Ok [index_type_as_u8 it] \<and>
   (index_type_to_prefix it = Ok (index_type_as_u8 it) \<longleftrightarrow> it \<in> {EAV_index, AVE_index, AEV_index})"
  by (cases it) (simp_all add: remove_index_type_def add_index_type_def index_type_as_u8_def
      index_type_to_prefix_def index_defs)

end
