(* ===== verification/Datoms.thy ===== *)
theory Datoms
  imports Partition Index_Keys
begin

text \<open>
  Transaction input and datoms: \<^verbatim>\<open>triplox-client/src/ops.rs\<close> (entity references and
  operations), \<^verbatim>\<open>src/ops.rs\<close> (datoms) and \<^verbatim>\<open>triplox-client/src/transaction.rs\<close>
  (transaction keys and their order).
\<close>

datatype entity_ref =
    ERId entid
  | ERTempId string
  | ERIdent keyword
  | ERLookupRef keyword data_type

text \<open>A put carries an ordered map from keywords to values.\<close>

datatype tx_op =
    Put "(keyword \<times> data_type) list"
  | Add entity_ref keyword data_type
  | Retract entity_ref keyword data_type
  | RetractEntity entity_ref
  | Erase entity_ref

primrec kw_insert :: "keyword \<Rightarrow> 'v \<Rightarrow> (keyword \<times> 'v) list \<Rightarrow> (keyword \<times> 'v) list" where
  "kw_insert k v [] = [(k, v)]"
| "kw_insert k v (x # m) =
     (if k = fst x then (k, v) # m
      else if kw_less k (fst x) then (k, v) # x # m
      else x # kw_insert k v m)"

definition tx_op_put :: "(keyword \<times> data_type) list \<Rightarrow> tx_op" where
  "tx_op_put attrs = Put (fold (\<lambda>(k, v). kw_insert k v) attrs [])"

datatype datom_op = Assert_op | Retract_op

record datom =
  d_entity :: entid
  d_attribute :: keyword
  d_value :: data_type
  d_op :: datom_op

section \<open>Transaction keys\<close>

datatype tx_key = TxKey (tx_id: i64) (system_time: datetime)

text \<open>The derived order: by transaction number, then by time.\<close>


instantiation tx_key :: linorder
begin

definition less_eq_tx_key :: "tx_key \<Rightarrow> tx_key \<Rightarrow> bool" where
  "less_eq_tx_key a b \<longleftrightarrow>
     sint (tx_id a) < sint (tx_id b) \<or> sint (tx_id a) = sint (tx_id b) \<and>
     (sint (dt_micros (system_time a)) < sint (dt_micros (system_time b)) \<or>
      sint (dt_micros (system_time a)) = sint (dt_micros (system_time b)) \<and>
      dt_subnanos (system_time a) \<le> dt_subnanos (system_time b))"

definition less_tx_key :: "tx_key \<Rightarrow> tx_key \<Rightarrow> bool" where
  "less_tx_key a b \<longleftrightarrow> a \<le> b \<and> \<not> b \<le> (a :: tx_key)"

instance
proof
  fix x y z :: tx_key
  show "x < y \<longleftrightarrow> x \<le> y \<and> \<not> y \<le> x" by (simp add: less_tx_key_def)
  show "x \<le> x" by (simp add: less_eq_tx_key_def)
  show "x \<le> y \<Longrightarrow> y \<le> z \<Longrightarrow> x \<le> z" unfolding less_eq_tx_key_def by linarith
  show "x \<le> y \<Longrightarrow> y \<le> x \<Longrightarrow> x = y"
    unfolding less_eq_tx_key_def
    by (cases x; cases y) (auto intro!: datetime.equality intro: signed_word_eqI sym)
  show "x \<le> y \<or> y \<le> x" unfolding less_eq_tx_key_def by linarith
qed

end

lemma tx_key_less_id: "sint (tx_id a) < sint (tx_id b) \<Longrightarrow> a < (b :: tx_key)"
  by (simp add: less_tx_key_def less_eq_tx_key_def)

end
