(* ===== verification/Schema.thy ===== *)
theory Schema
  imports Datoms
begin

text \<open>
  The schema, \<^verbatim>\<open>src/schema.rs\<close>: reserved identifiers, value types, attributes,
  validation of the datoms of a transaction, preparation and application of schema changes,
  and the bootstrap schema. Messages of errors are their fixed text.
\<close>

section \<open>Reserved identifiers\<close>

definition DB_IDENT :: entid where "DB_IDENT = 1"
definition DB_VALUE_TYPE :: entid where "DB_VALUE_TYPE = 2"
definition DB_CARDINALITY :: entid where "DB_CARDINALITY = 3"
definition DB_UNIQUE :: entid where "DB_UNIQUE = 4"
definition DB_TYPE_KEYWORD :: entid where "DB_TYPE_KEYWORD = 10"
definition DB_TYPE_STRING :: entid where "DB_TYPE_STRING = 11"
definition DB_TYPE_LONG :: entid where "DB_TYPE_LONG = 12"
definition DB_TYPE_REF :: entid where "DB_TYPE_REF = 13"
definition DB_TYPE_BOOLEAN :: entid where "DB_TYPE_BOOLEAN = 14"
definition DB_TYPE_DOUBLE :: entid where "DB_TYPE_DOUBLE = 15"
definition DB_TYPE_FLOAT :: entid where "DB_TYPE_FLOAT = 16"
definition DB_TYPE_INSTANT :: entid where "DB_TYPE_INSTANT = 17"
definition DB_TYPE_UUID :: entid where "DB_TYPE_UUID = 18"
definition DB_TYPE_BYTES :: entid where "DB_TYPE_BYTES = 19"
definition DB_TYPE_BIGINT :: entid where "DB_TYPE_BIGINT = 20"
definition DB_TYPE_VECTOR :: entid where "DB_TYPE_VECTOR = 21"
definition DB_TYPE_MAP :: entid where "DB_TYPE_MAP = 22"
definition DB_CARDINALITY_ONE :: entid where "DB_CARDINALITY_ONE = 30"
definition DB_CARDINALITY_MANY :: entid where "DB_CARDINALITY_MANY = 31"
definition DB_UNIQUE_VALUE :: entid where "DB_UNIQUE_VALUE = 32"
definition DB_UNIQUE_IDENTITY :: entid where "DB_UNIQUE_IDENTITY = 33"
definition DB_TX_INSTANT :: entid where "DB_TX_INSTANT = 40"
definition DB_TX_ID :: entid where "DB_TX_ID = 41"
definition DB_TX_RESULT :: entid where "DB_TX_RESULT = 42"
definition DB_TX_ERROR :: entid where "DB_TX_ERROR = 43"
definition DB_TX_COMMITTED :: entid where "DB_TX_COMMITTED = 50"
definition DB_TX_ABORTED :: entid where "DB_TX_ABORTED = 51"

lemmas db_type_defs = DB_TYPE_KEYWORD_def DB_TYPE_STRING_def DB_TYPE_LONG_def DB_TYPE_REF_def
  DB_TYPE_BOOLEAN_def DB_TYPE_DOUBLE_def DB_TYPE_FLOAT_def DB_TYPE_INSTANT_def DB_TYPE_UUID_def
  DB_TYPE_BYTES_def DB_TYPE_BIGINT_def DB_TYPE_VECTOR_def DB_TYPE_MAP_def

lemmas db_id_defs = db_type_defs DB_IDENT_def DB_VALUE_TYPE_def DB_CARDINALITY_def DB_UNIQUE_def
  DB_CARDINALITY_ONE_def DB_CARDINALITY_MANY_def DB_UNIQUE_VALUE_def DB_UNIQUE_IDENTITY_def
  DB_TX_INSTANT_def DB_TX_ID_def DB_TX_RESULT_def DB_TX_ERROR_def DB_TX_COMMITTED_def
  DB_TX_ABORTED_def

definition V1_IDENTS :: "(keyword \<times> entid) list" where
  "V1_IDENTS =
     [(kw ''db'' ''ident'', DB_IDENT),
      (kw ''db'' ''valueType'', DB_VALUE_TYPE),
      (kw ''db'' ''cardinality'', DB_CARDINALITY),
      (kw ''db'' ''unique'', DB_UNIQUE),
      (kw ''db.type'' ''keyword'', DB_TYPE_KEYWORD),
      (kw ''db.type'' ''string'', DB_TYPE_STRING),
      (kw ''db.type'' ''long'', DB_TYPE_LONG),
      (kw ''db.type'' ''ref'', DB_TYPE_REF),
      (kw ''db.type'' ''boolean'', DB_TYPE_BOOLEAN),
      (kw ''db.type'' ''double'', DB_TYPE_DOUBLE),
      (kw ''db.type'' ''float'', DB_TYPE_FLOAT),
      (kw ''db.type'' ''instant'', DB_TYPE_INSTANT),
      (kw ''db.type'' ''uuid'', DB_TYPE_UUID),
      (kw ''db.type'' ''bytes'', DB_TYPE_BYTES),
      (kw ''db.type'' ''bigint'', DB_TYPE_BIGINT),
      (kw ''db.type'' ''vector'', DB_TYPE_VECTOR),
      (kw ''db.type'' ''map'', DB_TYPE_MAP),
      (kw ''db.cardinality'' ''one'', DB_CARDINALITY_ONE),
      (kw ''db.cardinality'' ''many'', DB_CARDINALITY_MANY),
      (kw ''db.unique'' ''value'', DB_UNIQUE_VALUE),
      (kw ''db.unique'' ''identity'', DB_UNIQUE_IDENTITY),
      (kw ''db'' ''txInstant'', DB_TX_INSTANT),
      (kw ''db'' ''txId'', DB_TX_ID),
      (kw ''db'' ''txResult'', DB_TX_RESULT),
      (kw ''db'' ''txError'', DB_TX_ERROR),
      (kw ''db.tx'' ''committed'', DB_TX_COMMITTED),
      (kw ''db.tx'' ''aborted'', DB_TX_ABORTED)]"

definition V1_ATTRIBUTES :: "(keyword \<times> keyword \<times> keyword \<times> keyword option) list" where
  "V1_ATTRIBUTES =
     [(kw ''db'' ''ident'', kw ''db.type'' ''keyword'', kw ''db.cardinality'' ''one'',
       Some (kw ''db.unique'' ''identity'')),
      (kw ''db'' ''valueType'', kw ''db.type'' ''ref'', kw ''db.cardinality'' ''one'', None),
      (kw ''db'' ''cardinality'', kw ''db.type'' ''ref'', kw ''db.cardinality'' ''one'', None),
      (kw ''db'' ''unique'', kw ''db.type'' ''ref'', kw ''db.cardinality'' ''one'', None),
      (kw ''db'' ''txInstant'', kw ''db.type'' ''instant'', kw ''db.cardinality'' ''one'', None),
      (kw ''db'' ''txId'', kw ''db.type'' ''long'', kw ''db.cardinality'' ''one'', None),
      (kw ''db'' ''txResult'', kw ''db.type'' ''ref'', kw ''db.cardinality'' ''one'', None),
      (kw ''db'' ''txError'', kw ''db.type'' ''string'', kw ''db.cardinality'' ''one'', None)]"

section \<open>Value types, cardinality and uniqueness\<close>

datatype value_type =
    VT_Keyword | VT_String | VT_Long | VT_Ref | VT_Boolean | VT_Double | VT_Float | VT_Instant
  | VT_Uuid | VT_Bytes | VT_BigInt | VT_Vector | VT_Map

definition vt_from_entity_id :: "entid \<Rightarrow> value_type result" where
  "vt_from_entity_id eid' =
     (if eid' = DB_TYPE_KEYWORD then Ok VT_Keyword
      else if eid' = DB_TYPE_STRING then Ok VT_String
      else if eid' = DB_TYPE_LONG then Ok VT_Long
      else if eid' = DB_TYPE_REF then Ok VT_Ref
      else if eid' = DB_TYPE_BOOLEAN then Ok VT_Boolean
      else if eid' = DB_TYPE_DOUBLE then Ok VT_Double
      else if eid' = DB_TYPE_FLOAT then Ok VT_Float
      else if eid' = DB_TYPE_INSTANT then Ok VT_Instant
      else if eid' = DB_TYPE_UUID then Ok VT_Uuid
      else if eid' = DB_TYPE_BYTES then Ok VT_Bytes
      else if eid' = DB_TYPE_BIGINT then Ok VT_BigInt
      else if eid' = DB_TYPE_VECTOR then Ok VT_Vector
      else if eid' = DB_TYPE_MAP then Ok VT_Map
      else Error (Err ''Unknown value type entity ID''))"

definition vt_entity_id :: "value_type \<Rightarrow> entid" where
  "vt_entity_id t =
     (case t of
        VT_Keyword \<Rightarrow> DB_TYPE_KEYWORD | VT_String \<Rightarrow> DB_TYPE_STRING | VT_Long \<Rightarrow> DB_TYPE_LONG
      | VT_Ref \<Rightarrow> DB_TYPE_REF | VT_Boolean \<Rightarrow> DB_TYPE_BOOLEAN | VT_Double \<Rightarrow> DB_TYPE_DOUBLE
      | VT_Float \<Rightarrow> DB_TYPE_FLOAT | VT_Instant \<Rightarrow> DB_TYPE_INSTANT | VT_Uuid \<Rightarrow> DB_TYPE_UUID
      | VT_Bytes \<Rightarrow> DB_TYPE_BYTES | VT_BigInt \<Rightarrow> DB_TYPE_BIGINT | VT_Vector \<Rightarrow> DB_TYPE_VECTOR
      | VT_Map \<Rightarrow> DB_TYPE_MAP)"

definition value_type_of :: "data_type \<Rightarrow> value_type" where
  "value_type_of dt =
     (case dt of
        DBigInt _ \<Rightarrow> VT_BigInt | DBoolean _ \<Rightarrow> VT_Boolean | DBytes _ \<Rightarrow> VT_Bytes
      | DDouble _ \<Rightarrow> VT_Double | DFloat _ \<Rightarrow> VT_Float | DInstant _ \<Rightarrow> VT_Instant
      | DKeyword _ \<Rightarrow> VT_Keyword | DLong _ \<Rightarrow> VT_Long | DString _ \<Rightarrow> VT_String
      | DUuid _ \<Rightarrow> VT_Uuid | DVector _ \<Rightarrow> VT_Vector | DMap _ \<Rightarrow> VT_Map)"

definition vt_matches :: "value_type \<Rightarrow> data_type \<Rightarrow> bool" where
  "vt_matches t data =
     (case t of VT_Ref \<Rightarrow> value_type_of data = VT_Long | _ \<Rightarrow> t = value_type_of data)"

datatype cardinality = One | Many

definition card_from_entity_id :: "entid \<Rightarrow> cardinality result" where
  "card_from_entity_id eid' =
     (if eid' = DB_CARDINALITY_ONE then Ok One
      else if eid' = DB_CARDINALITY_MANY then Ok Many
      else Error (Err ''Unknown cardinality entity ID''))"

definition card_entity_id :: "cardinality \<Rightarrow> entid" where
  "card_entity_id c = (case c of One \<Rightarrow> DB_CARDINALITY_ONE | Many \<Rightarrow> DB_CARDINALITY_MANY)"

datatype unique = U_Value | U_Identity

definition unique_from_entity_id :: "entid \<Rightarrow> unique result" where
  "unique_from_entity_id eid' =
     (if eid' = DB_UNIQUE_VALUE then Ok U_Value
      else if eid' = DB_UNIQUE_IDENTITY then Ok U_Identity
      else Error (Err ''Unknown unique entity ID''))"

definition unique_entity_id :: "unique \<Rightarrow> entid" where
  "unique_entity_id u = (case u of U_Value \<Rightarrow> DB_UNIQUE_VALUE | U_Identity \<Rightarrow> DB_UNIQUE_IDENTITY)"

section \<open>Attributes and the schema\<close>

record attribute =
  a_value_type :: value_type
  a_multival :: bool
  a_unique :: "unique option"

record attribute_builder =
  b_value_type :: "value_type option"
  b_multival :: "bool option"
  b_unique :: "unique option option"

definition empty_builder :: attribute_builder where
  "empty_builder = \<lparr>b_value_type = None, b_multival = None, b_unique = None\<rparr>"

definition validate_install_attribute :: "attribute_builder \<Rightarrow> unit result" where
  "validate_install_attribute b =
     (if b_value_type b = None then Error (Err ''db/valueType is required for schema attribute'')
      else if b_multival b = None then Error (Err ''db/cardinality is required for schema attribute'')
      else Ok ())"

definition build_attribute :: "attribute_builder \<Rightarrow> attribute result" where
  "build_attribute b =
     (case b_value_type b of
        None \<Rightarrow> Error (Panic ''value_type must be set'')
      | Some vt \<Rightarrow>
          (case b_multival b of
             None \<Rightarrow> Error (Panic ''multival must be set'')
           | Some mv \<Rightarrow>
               Ok \<lparr>a_value_type = vt, a_multival = mv,
                   a_unique = (case b_unique b of None \<Rightarrow> None | Some u \<Rightarrow> u)\<rparr>))"

record schema_update =
  u_idents :: "(entid \<times> keyword) list"
  u_attributes :: "(entid \<times> attribute) list"

definition schema_update_is_empty :: "schema_update \<Rightarrow> bool" where
  "schema_update_is_empty u \<longleftrightarrow> u_idents u = [] \<and> u_attributes u = []"

record schema =
  entid_map :: "entid \<rightharpoonup> keyword"
  ident_map :: "keyword \<rightharpoonup> entid"
  attribute_map :: "entid \<rightharpoonup> attribute"

definition empty_schema :: schema where
  "empty_schema = \<lparr>entid_map = Map.empty, ident_map = Map.empty, attribute_map = Map.empty\<rparr>"

definition is_schema_attribute :: "keyword \<Rightarrow> bool" where
  "is_schema_attribute a =
     (kw_components a \<in> {(''db'', ''ident''), (''db'', ''valueType''), (''db'', ''cardinality''),
        (''db'', ''unique'')})"

definition get_attribute :: "schema \<Rightarrow> keyword \<Rightarrow> (entid \<times> attribute) option" where
  "get_attribute s ident =
     (case ident_map s ident of
        None \<Rightarrow> None
      | Some eid \<Rightarrow> (case attribute_map s eid of None \<Rightarrow> None | Some attr \<Rightarrow> Some (eid, attr)))"

definition get_ident :: "schema \<Rightarrow> entid \<Rightarrow> keyword option" where
  "get_ident s eid = entid_map s eid"

definition is_schema_entity :: "schema \<Rightarrow> entid \<Rightarrow> bool" where
  "is_schema_entity s eid \<longleftrightarrow> attribute_map s eid \<noteq> None"

section \<open>Validation of datoms\<close>

record add_retract_set =
  adds :: "data_type list"
  retracts :: "data_type list"

definition empty_ars :: add_retract_set where
  "empty_ars = \<lparr>adds = [], retracts = []\<rparr>"

text \<open>
  Hash sets of values, in the order of insertion. An element is found when it is the same
  value and equal to itself, so a NaN is never found.
\<close>

definition hs_mem :: "data_type \<Rightarrow> data_type list \<Rightarrow> bool" where
  "hs_mem v xs \<longleftrightarrow> v \<in> set xs \<and> dt_refl v"

definition hs_insert :: "data_type \<Rightarrow> data_type list \<Rightarrow> data_type list" where
  "hs_insert v xs = (if hs_mem v xs then xs else xs @ [v])"

type_synonym aev_map = "((entid \<times> attribute) \<times> (entid \<times> add_retract_set) list) list"

datatype validation_conflict =
    TypeMismatch entid keyword data_type value_type
  | AddRetractConflict entid keyword "data_type list"
  | CardinalityOneAddConflict entid keyword "data_type list"

definition aev_step ::
  "schema \<Rightarrow> aev_map \<times> bool \<Rightarrow> datom \<Rightarrow> (aev_map \<times> bool) result" where
  "aev_step s = (\<lambda>(aev, changes) d.
     rbind (ok_or (get_attribute s (d_attribute d)) ''Unknown attribute'') (\<lambda>(attribute_id, attr).
     let changes' = (changes \<or> is_schema_attribute (d_attribute d));
         put = (\<lambda>e. case d_op d of
                  Assert_op \<Rightarrow> e\<lparr>adds := hs_insert (d_value d) (adds e)\<rparr>
                | Retract_op \<Rightarrow> e\<lparr>retracts := hs_insert (d_value d) (retracts e)\<rparr>)
     in Ok (hm_modify (attribute_id, attr) [] (hm_modify (d_entity d) empty_ars put) aev, changes')))"

definition build_aev_validation_map :: "schema \<Rightarrow> datom list \<Rightarrow> (aev_map \<times> bool) result" where
  "build_aev_validation_map s datoms = rfold (aev_step s) ([], False) datoms"

definition attribute_ident :: "schema \<Rightarrow> entid \<Rightarrow> keyword" where
  "attribute_ident s attribute_id =
     (case entid_map s attribute_id of None \<Rightarrow> kw ''db'' ''unknown'' | Some k \<Rightarrow> k)"

definition type_mismatches :: "schema \<Rightarrow> aev_map \<Rightarrow> validation_conflict list" where
  "type_mismatches s aev =
     concat (map (\<lambda>((attribute_id, attr), evs).
       concat (map (\<lambda>(entity, ars).
         map (\<lambda>v. TypeMismatch entity (attribute_ident s attribute_id) v (a_value_type attr))
           (filter (\<lambda>v. \<not> vt_matches (a_value_type attr) v) (adds ars @ retracts ars))) evs)) aev)"

definition add_retract_conflicts :: "schema \<Rightarrow> aev_map \<Rightarrow> validation_conflict list" where
  "add_retract_conflicts s aev =
     concat (map (\<lambda>((attribute_id, attr), evs).
       if a_multival attr then []
       else concat (map (\<lambda>(entity, ars).
         let overlap = filter (\<lambda>v. hs_mem v (retracts ars)) (adds ars)
         in if overlap \<noteq> []
            then [AddRetractConflict entity (attribute_ident s attribute_id) overlap] else []) evs))
       aev)"

definition cardinality_conflicts :: "schema \<Rightarrow> aev_map \<Rightarrow> validation_conflict list" where
  "cardinality_conflicts s aev =
     concat (map (\<lambda>((attribute_id, attr), evs).
       if a_multival attr then []
       else concat (map (\<lambda>(entity, ars).
         if length (adds ars) > 1
         then [CardinalityOneAddConflict entity (attribute_ident s attribute_id) (adds ars)] else [])
         evs)) aev)"

definition conflict_error :: "validation_conflict \<Rightarrow> error" where
  "conflict_error c =
     (case c of
        TypeMismatch _ _ _ _ \<Rightarrow> Err ''Type mismatch for attribute''
      | AddRetractConflict _ _ _ \<Rightarrow> Err ''Transaction cannot both assert and retract''
      | CardinalityOneAddConflict _ _ _ \<Rightarrow>
          Err ''Transaction cannot assert multiple values for cardinality-one attribute'')"

text \<open>The report of a successful validation is whether schema attributes occur.\<close>

definition validate_datoms :: "schema \<Rightarrow> datom list \<Rightarrow> bool result" where
  "validate_datoms s datoms =
     rbind (build_aev_validation_map s datoms) (\<lambda>(aev, schema_changes_detected).
     let conflicts = type_mismatches s aev @ add_retract_conflicts s aev @ cardinality_conflicts s aev
     in case conflicts of
          [] \<Rightarrow> Ok schema_changes_detected
        | conflict # _ \<Rightarrow> Error (conflict_error conflict))"

section \<open>Schema changes\<close>

type_synonym builders = "(entid \<times> attribute_builder) list"

definition long_ref :: "data_type \<Rightarrow> string \<Rightarrow> entid result" where
  "long_ref v msg = (case v of DLong eid' \<Rightarrow> Ok eid' | _ \<Rightarrow> Error (Err msg))"

definition schema_datom_step ::
  "schema \<Rightarrow> (entid \<times> keyword) list \<times> builders \<Rightarrow> datom \<Rightarrow>
     ((entid \<times> keyword) list \<times> builders) result" where
  "schema_datom_step s = (\<lambda>(idents, bs) d.
     let e = d_entity d; attr = kw_components (d_attribute d);
         upd = (\<lambda>f. hm_modify e empty_builder f bs)
     in if \<not> is_schema_attribute (d_attribute d) then Ok (idents, bs)
        else if is_schema_entity s e then Error (Err ''Cannot modify schema entity'')
        else if d_op d \<noteq> Assert_op then Error (Err ''Schema retractions are not supported'')
        else if attr = (''db'', ''ident'') then
          (case d_value d of
             DKeyword k \<Rightarrow> Ok (idents @ [(e, k)], bs)
           | _ \<Rightarrow> Error (Err ''db/ident must be a Keyword''))
        else if attr = (''db'', ''valueType'') then
          rbind (long_ref (d_value d) ''db/valueType must be a Ref (Long entity ID)'') (\<lambda>eid'.
          rbind (vt_from_entity_id eid') (\<lambda>vt. Ok (idents, upd (\<lambda>b. b\<lparr>b_value_type := Some vt\<rparr>))))
        else if attr = (''db'', ''cardinality'') then
          rbind (long_ref (d_value d) ''db/cardinality must be a Ref (Long entity ID)'') (\<lambda>eid'.
          rbind (card_from_entity_id eid') (\<lambda>c. Ok (idents, upd (\<lambda>b. b\<lparr>b_multival := Some (c = Many)\<rparr>))))
        else if attr = (''db'', ''unique'') then
          rbind (long_ref (d_value d) ''db/unique must be a Ref (Long entity ID)'') (\<lambda>eid'.
          rbind (unique_from_entity_id eid') (\<lambda>u. Ok (idents, upd (\<lambda>b. b\<lparr>b_unique := Some (Some u)\<rparr>))))
        else Ok (idents, bs))"

definition prepare_schema_update :: "schema \<Rightarrow> datom list \<Rightarrow> schema_update result" where
  "prepare_schema_update s datoms =
     rbind (rfold (schema_datom_step s) ([], []) datoms) (\<lambda>(idents, bs).
     rbind (rmapM (\<lambda>(eid, b).
        rbind (validate_install_attribute b) (\<lambda>_.
        rbind (build_attribute b) (\<lambda>attr. Ok (eid, attr)))) bs) (\<lambda>attributes.
     Ok \<lparr>u_idents = idents, u_attributes = attributes\<rparr>))"

definition apply_schema_update :: "schema \<Rightarrow> schema_update \<Rightarrow> schema" where
  "apply_schema_update s u =
     (let s1 = foldl (\<lambda>s (eid, ident).
            s\<lparr>ident_map := (ident_map s)(ident \<mapsto> eid), entid_map := (entid_map s)(eid \<mapsto> ident)\<rparr>)
            s (u_idents u)
      in foldl (\<lambda>s (eid, attr). s\<lparr>attribute_map := (attribute_map s)(eid \<mapsto> attr)\<rparr>)
           s1 (u_attributes u))"

section \<open>Bootstrap\<close>

definition expect :: "'a option \<Rightarrow> string \<Rightarrow> 'a result" where
  "expect x msg = (case x of None \<Rightarrow> Error (Panic msg) | Some v \<Rightarrow> Ok v)"

definition expect_ok :: "'a result \<Rightarrow> string \<Rightarrow> 'a result" where
  "expect_ok x msg = (case x of Inl _ \<Rightarrow> Error (Panic msg) | Inr v \<Rightarrow> Ok v)"

definition bootstrap_idents :: schema where
  "bootstrap_idents =
     foldl (\<lambda>s (ident, eid).
       s\<lparr>ident_map := (ident_map s)(ident \<mapsto> eid), entid_map := (entid_map s)(eid \<mapsto> ident)\<rparr>)
       empty_schema V1_IDENTS"

definition bootstrap_attribute ::
  "schema \<Rightarrow> keyword \<times> keyword \<times> keyword \<times> keyword option \<Rightarrow> schema result" where
  "bootstrap_attribute s = (\<lambda>(ident, vt_ident, card_ident, unique_ident).
     rbind (expect (ident_map s ident) ''V1_ATTRIBUTES ident not in V1_IDENTS'') (\<lambda>eid.
     rbind (expect (ident_map s vt_ident) ''value type ident not in V1_IDENTS'') (\<lambda>vt_id.
     rbind (expect (ident_map s card_ident) ''cardinality ident not in V1_IDENTS'') (\<lambda>card_id.
     rbind (case unique_ident of
              None \<Rightarrow> Ok None
            | Some i \<Rightarrow>
                rbind (expect (ident_map s i) ''unique ident not in V1_IDENTS'') (\<lambda>eid'.
                rbind (expect_ok (unique_from_entity_id eid')
                  ''invalid unique entity ID in V1_ATTRIBUTES'') (\<lambda>u. Ok (Some u)))) (\<lambda>u.
     rbind (expect_ok (vt_from_entity_id vt_id)
       ''invalid value type entity ID in V1_ATTRIBUTES'') (\<lambda>vt.
     Ok (s\<lparr>attribute_map := (attribute_map s)(eid \<mapsto>
           \<lparr>a_value_type = vt, a_multival = (card_id = DB_CARDINALITY_MANY), a_unique = u\<rparr>)\<rparr>)))))))"

definition bootstrap_schema :: "schema result" where
  "bootstrap_schema = rfold bootstrap_attribute bootstrap_idents V1_ATTRIBUTES"

definition bootstrap_attribute_op ::
  "keyword \<times> keyword \<times> keyword \<times> keyword option \<Rightarrow> tx_op result" where
  "bootstrap_attribute_op = (\<lambda>(ident, vt_ident, card_ident, unique_ident).
     rbind (expect (map_of V1_IDENTS ident) ''called `Option::unwrap()` on a `None` value'') (\<lambda>eid.
     Ok (tx_op_put
       ([(kw ''db'' ''id'', DLong eid),
         (kw ''db'' ''ident'', DKeyword ident),
         (kw ''db'' ''valueType'', DKeyword vt_ident),
         (kw ''db'' ''cardinality'', DKeyword card_ident)] @
        (case unique_ident of None \<Rightarrow> [] | Some u \<Rightarrow> [(kw ''db'' ''unique'', DKeyword u)])))))"

definition bootstrap_schema_tx :: "tx_op list result" where
  "bootstrap_schema_tx =
     (let attr_idents = map fst V1_ATTRIBUTES
      in rbind (rmapM bootstrap_attribute_op V1_ATTRIBUTES) (\<lambda>ops.
         Ok (ops @ map (\<lambda>(ident, eid). Add (ERId eid) (kw ''db'' ''ident'') (DKeyword ident))
                     (filter (\<lambda>(ident, eid). ident \<notin> set attr_idents) V1_IDENTS))))"

section \<open>Loading the schema from the indices\<close>

text \<open>
  The rows are the results of the three queries the source runs: entity and ident; entity,
  ident, value type and cardinality; entity and uniqueness. A row of another shape panics.
\<close>

definition row_long :: "data_type list \<Rightarrow> nat \<Rightarrow> string \<Rightarrow> entid result" where
  "row_long row i msg =
     (if length row \<le> i then Error (Panic ''index out of bounds'')
      else case row ! i of DLong eid' \<Rightarrow> Ok eid' | _ \<Rightarrow> Error (Panic msg))"

definition row_keyword :: "data_type list \<Rightarrow> nat \<Rightarrow> string \<Rightarrow> keyword result" where
  "row_keyword row i msg =
     (if length row \<le> i then Error (Panic ''index out of bounds'')
      else case row ! i of DKeyword k \<Rightarrow> Ok k | _ \<Rightarrow> Error (Panic msg))"

definition load_ident_row :: "schema \<Rightarrow> data_type list \<Rightarrow> schema result" where
  "load_ident_row s row =
     rbind (row_long row 0 ''Expected Long for entity_id'') (\<lambda>entity_id.
     rbind (row_keyword row 1 ''Expected Keyword for ident'') (\<lambda>ident.
     Ok (s\<lparr>ident_map := (ident_map s)(ident \<mapsto> entity_id),
           entid_map := (entid_map s)(entity_id \<mapsto> ident)\<rparr>)))"

definition load_unique_row :: "(entid \<rightharpoonup> unique) \<Rightarrow> data_type list \<Rightarrow> (entid \<rightharpoonup> unique) result" where
  "load_unique_row m row =
     rbind (row_long row 0 ''Expected Long for entity_id'') (\<lambda>entity_id.
     rbind (row_long row 1 ''Expected Long for unique'') (\<lambda>eid'.
     rbind (expect_ok (unique_from_entity_id eid') ''Invalid unique'') (\<lambda>u. Ok (m(entity_id \<mapsto> u)))))"

definition load_attr_row ::
  "schema \<times> (entid \<rightharpoonup> unique) \<Rightarrow> data_type list \<Rightarrow> (schema \<times> (entid \<rightharpoonup> unique)) result" where
  "load_attr_row = (\<lambda>(s, unique_map) row.
     rbind (row_long row 0 ''Expected Long for entity_id'') (\<lambda>entity_id.
     rbind (row_long row 2 ''Expected Long for valueType'') (\<lambda>vt_id.
     rbind (expect_ok (vt_from_entity_id vt_id) ''Invalid value type'') (\<lambda>vt.
     rbind (row_long row 3 ''Expected Long for cardinality'') (\<lambda>card_id.
     rbind (expect_ok (card_from_entity_id card_id) ''Invalid cardinality'') (\<lambda>c.
     Ok (s\<lparr>attribute_map := (attribute_map s)(entity_id \<mapsto>
           \<lparr>a_value_type = vt, a_multival = (c = Many), a_unique = unique_map entity_id\<rparr>)\<rparr>,
         unique_map(entity_id := None))))))))"

definition load_schema_from_rows ::
  "data_type list list \<Rightarrow> data_type list list \<Rightarrow> data_type list list \<Rightarrow> schema result" where
  "load_schema_from_rows ident_results attr_results unique_results =
     rbind (rfold load_ident_row empty_schema ident_results) (\<lambda>s.
     rbind (rfold load_unique_row Map.empty unique_results) (\<lambda>unique_map.
     rbind (rfold load_attr_row (s, unique_map) attr_results) (\<lambda>(s', _). Ok s')))"

section \<open>What validation accepts\<close>

text \<open>The adds and retracts collected for an attribute and an entity.\<close>

definition aev_lookup :: "aev_map \<Rightarrow> entid \<times> attribute \<Rightarrow> entid \<Rightarrow> add_retract_set" where
  "aev_lookup aev k e = or_insert (map_of (or_insert (map_of aev) k [])) e empty_ars"

definition aev_wf :: "aev_map \<Rightarrow> bool" where
  "aev_wf aev \<longleftrightarrow> hm_wf aev \<and> (\<forall>k. hm_wf (or_insert (map_of aev) k []))"

definition witnessed :: "schema \<Rightarrow> datom list \<Rightarrow> entid \<times> attribute \<Rightarrow> entid \<Rightarrow> datom_op \<Rightarrow> data_type set" where
  "witnessed s ds k e op =
     {d_value d | d. d \<in> set ds \<and> get_attribute s (d_attribute d) = Some k \<and> d_entity d = e \<and> d_op d = op}"

definition aev_inv :: "schema \<Rightarrow> datom list \<Rightarrow> aev_map \<Rightarrow> bool" where
  "aev_inv s ds aev \<longleftrightarrow> aev_wf aev \<and>
     (\<forall>k e. set (adds (aev_lookup aev k e)) = witnessed s ds k e Assert_op \<and>
        set (retracts (aev_lookup aev k e)) = witnessed s ds k e Retract_op \<and>
        distinct (adds (aev_lookup aev k e)))"

lemma hs_insert_set [simp]: "set (hs_insert v xs) = insert v (set xs)"
  by (auto simp: hs_insert_def hs_mem_def)

lemma hs_insert_distinct: "dt_refl v \<Longrightarrow> distinct xs \<Longrightarrow> distinct (hs_insert v xs)"
  by (auto simp: hs_insert_def hs_mem_def)

lemma or_insert_upd [simp]: "or_insert (m(k \<mapsto> v)) j d = (if j = k then v else or_insert m j d)"
  by (simp add: or_insert_def)

lemma aev_wf_modify:
  "aev_wf aev \<Longrightarrow> aev_wf (hm_modify k [] (hm_modify e empty_ars f) aev)"
  unfolding aev_wf_def hm_modify_lookup or_insert_upd
  by (auto intro: hm_modify_wf simp del: split_paired_All)

lemma aev_lookup_modify:
  "aev_lookup (hm_modify k [] (hm_modify e empty_ars f) aev) k' e' =
     (if k' = k \<and> e' = e then f (aev_lookup aev k e) else aev_lookup aev k' e')"
  by (simp add: aev_lookup_def hm_modify_lookup)

lemma witnessed_snoc:
  "witnessed s (ds @ [d]) k e op =
     (if get_attribute s (d_attribute d) = Some k \<and> d_entity d = e \<and> d_op d = op
      then insert (d_value d) (witnessed s ds k e op) else witnessed s ds k e op)"
  by (auto simp: witnessed_def)

lemma aev_inv_step:
  assumes "aev_inv s ds aev" and "aev_step s (aev, c) d = Ok (aev', c')" and "dt_refl (d_value d)"
  shows "aev_inv s (ds @ [d]) aev'"
proof -
  obtain k where k: "get_attribute s (d_attribute d) = Some k"
    and aev': "aev' = hm_modify k [] (hm_modify (d_entity d) empty_ars (\<lambda>e. case d_op d of
        Assert_op \<Rightarrow> e\<lparr>adds := hs_insert (d_value d) (adds e)\<rparr>
      | Retract_op \<Rightarrow> e\<lparr>retracts := hs_insert (d_value d) (retracts e)\<rparr>)) aev"
    using assms(2) by (auto simp: aev_step_def ok_or_def Let_def split: option.splits prod.splits)
  show ?thesis
    using assms(1,3) unfolding aev_inv_def aev' aev_lookup_modify witnessed_snoc k
    by (cases "d_op d") (auto simp: aev_wf_modify hs_insert_distinct)
qed

lemma aev_step_Ok:
  "aev_step s (aev, c) d = Ok (aev', c') \<Longrightarrow>
     get_attribute s (d_attribute d) \<noteq> None \<and> c' = (c \<or> is_schema_attribute (d_attribute d))"
  by (auto simp: aev_step_def ok_or_def Let_def split: option.splits)

lemma aev_step_total:
  "get_attribute s (d_attribute d) \<noteq> None \<Longrightarrow> \<exists>r. aev_step s st d = Ok r"
  by (cases st) (auto simp: aev_step_def ok_or_def Let_def)

lemma aev_fold_inv:
  assumes "aev_inv s ds0 aev0" and "\<forall>d \<in> set ds. dt_refl (d_value d)"
    and "rfold (aev_step s) (aev0, c0) ds = Ok (aev, c)"
  shows "aev_inv s (ds0 @ ds) aev \<and> c = (c0 \<or> (\<exists>d \<in> set ds. is_schema_attribute (d_attribute d))) \<and>
    (\<forall>d \<in> set ds. get_attribute s (d_attribute d) \<noteq> None)"
  using assms
proof (induction ds arbitrary: ds0 aev0 c0)
  case (Cons d ds)
  then obtain aev1 c1 where st: "aev_step s (aev0, c0) d = Ok (aev1, c1)"
    and rest: "rfold (aev_step s) (aev1, c1) ds = Ok (aev, c)" by auto
  have "aev_inv s (ds0 @ [d]) aev1" using aev_inv_step [OF Cons.prems(1) st] Cons.prems(2) by simp
  from Cons.IH [OF this _ rest] show ?case using Cons.prems(2) aev_step_Ok [OF st] by auto
qed simp

lemma aev_fold_total:
  "\<forall>d \<in> set ds. get_attribute s (d_attribute d) \<noteq> None \<Longrightarrow> \<exists>r. rfold (aev_step s) st ds = Ok r"
proof (induction ds arbitrary: st)
  case (Cons d ds)
  then obtain st1 where "aev_step s st d = Ok st1" using aev_step_total [of s d st] by auto
  with Cons show ?case by simp
qed simp

lemma aev_inv_empty: "aev_inv s [] []"
  by (simp add: aev_inv_def aev_wf_def aev_lookup_def or_insert_def witnessed_def empty_ars_def)

text \<open>Whatever holds of an empty entry holds of all entries when it holds of all lookups.\<close>

lemma aev_all_iff:
  assumes "aev_wf aev" and "\<And>k e. P k e empty_ars"
  shows "(\<forall>(k, evs) \<in> set aev. \<forall>(e, ars) \<in> set evs. P k e ars) \<longleftrightarrow> (\<forall>k e. P k e (aev_lookup aev k e))"
proof
  assume L: "\<forall>(k, evs) \<in> set aev. \<forall>(e, ars) \<in> set evs. P k e ars"
  show "\<forall>k e. P k e (aev_lookup aev k e)"
  proof (intro allI)
    fix k e
    show "P k e (aev_lookup aev k e)"
    proof (cases "map_of aev k")
      case (Some evs)
      then have evs: "(k, evs) \<in> set aev" by (rule map_of_SomeD)
      show ?thesis
        using L evs assms(2) Some
        by (cases "map_of evs e") (fastforce simp: aev_lookup_def or_insert_def dest: map_of_SomeD)+
    qed (simp add: aev_lookup_def or_insert_def assms(2))
  qed
next
  assume R: "\<forall>k e. P k e (aev_lookup aev k e)"
  have "P k e ars" if "(k, evs) \<in> set aev" and "(e, ars) \<in> set evs" for k evs e ars
  proof -
    have k: "or_insert (map_of aev) k [] = evs"
      using that(1) assms(1) by (simp add: aev_wf_def or_insert_def)
    then have "hm_wf evs" using assms(1) unfolding aev_wf_def by blast
    then have "aev_lookup aev k e = ars" using that(2) k by (simp add: aev_lookup_def or_insert_def)
    with R show ?thesis by metis
  qed
  then show "\<forall>(k, evs) \<in> set aev. \<forall>(e, ars) \<in> set evs. P k e ars" by blast
qed

lemma type_mismatches_Nil:
  assumes "aev_wf aev"
  shows "type_mismatches s aev = [] \<longleftrightarrow>
    (\<forall>k e. \<forall>v \<in> set (adds (aev_lookup aev k e)) \<union> set (retracts (aev_lookup aev k e)).
       vt_matches (a_value_type (snd k)) v)"
  using aev_all_iff [OF assms, of "\<lambda>k e ars. \<forall>v \<in> set (adds ars) \<union> set (retracts ars).
      vt_matches (a_value_type (snd k)) v"]
  by (fastforce simp: type_mismatches_def empty_ars_def filter_empty_conv)

lemma add_retract_conflicts_Nil:
  assumes "aev_wf aev"
  shows "add_retract_conflicts s aev = [] \<longleftrightarrow>
    (\<forall>k e. a_multival (snd k) \<or>
       (\<forall>v \<in> set (adds (aev_lookup aev k e)). \<not> hs_mem v (retracts (aev_lookup aev k e))))"
  using aev_all_iff [OF assms, of "\<lambda>k e ars. a_multival (snd k) \<or>
      (\<forall>v \<in> set (adds ars). \<not> hs_mem v (retracts ars))"]
  by (fastforce simp: add_retract_conflicts_def empty_ars_def filter_empty_conv Let_def split: if_splits)

lemma cardinality_conflicts_Nil:
  assumes "aev_wf aev"
  shows "cardinality_conflicts s aev = [] \<longleftrightarrow>
    (\<forall>k e. a_multival (snd k) \<or> length (adds (aev_lookup aev k e)) \<le> 1)"
  using aev_all_iff [OF assms, of "\<lambda>k e ars. a_multival (snd k) \<or> length (adds ars) \<le> 1"]
  by (fastforce simp: cardinality_conflicts_def empty_ars_def split: if_splits)

lemma distinct_length_le_1: "distinct xs \<Longrightarrow> length xs \<le> 1 \<longleftrightarrow> (\<forall>v \<in> set xs. \<forall>w \<in> set xs. v = w)"
  by (cases xs; cases "tl xs") auto

text \<open>
  The contract of validation, on the datoms alone: attributes are known, values have the type
  of their attribute, and for an attribute of cardinality one no value is both asserted and
  retracted for an entity and at most one value is asserted.
\<close>

definition valid_datoms :: "schema \<Rightarrow> datom list \<Rightarrow> bool" where
  "valid_datoms s ds \<longleftrightarrow>
     (\<forall>d \<in> set ds. case get_attribute s (d_attribute d) of
        None \<Rightarrow> False
      | Some (aid, attr) \<Rightarrow> vt_matches (a_value_type attr) (d_value d) \<and>
          (\<forall>d' \<in> set ds. get_attribute s (d_attribute d') = Some (aid, attr) \<and>
             d_entity d' = d_entity d \<and> \<not> a_multival attr \<and> d_op d = Assert_op \<longrightarrow>
             (if d_op d' = Assert_op then d_value d' = d_value d else d_value d' \<noteq> d_value d)))"

lemma datom_op_cases: "op \<noteq> Assert_op \<longleftrightarrow> op = Retract_op"
  by (cases op) auto

lemma witnessed_Un:
  "witnessed s ds k e Assert_op \<union> witnessed s ds k e Retract_op =
     {d_value d | d. d \<in> set ds \<and> get_attribute s (d_attribute d) = Some k \<and> d_entity d = e}"
  unfolding witnessed_def using datom_op_cases by blast

lemma case_known:
  "(case x of None \<Rightarrow> False | Some (a, b) \<Rightarrow> P a b) \<longleftrightarrow>
     x \<noteq> None \<and> (\<forall>k. x = Some k \<longrightarrow> P (fst k) (snd k))"
  by (cases x) auto

lemma no_conflicts_iff:
  assumes inv: "aev_inv s ds aev" and refl: "\<forall>d \<in> set ds. dt_refl (d_value d)"
    and known: "\<forall>d \<in> set ds. get_attribute s (d_attribute d) \<noteq> None"
  shows "type_mismatches s aev = [] \<and> add_retract_conflicts s aev = [] \<and>
    cardinality_conflicts s aev = [] \<longleftrightarrow> valid_datoms s ds"
proof -
  have wf: "aev_wf aev" and sets: "set (adds (aev_lookup aev k e)) = witnessed s ds k e Assert_op"
    "set (retracts (aev_lookup aev k e)) = witnessed s ds k e Retract_op"
    "distinct (adds (aev_lookup aev k e))" for k e
    using inv by (auto simp: aev_inv_def simp del: split_paired_All)
  have ty: "type_mismatches s aev = [] \<longleftrightarrow>
      (\<forall>d \<in> set ds. \<forall>k. get_attribute s (d_attribute d) = Some k \<longrightarrow>
         vt_matches (a_value_type (snd k)) (d_value d))"
    unfolding type_mismatches_Nil [OF wf] sets witnessed_Un by blast
  have ar: "add_retract_conflicts s aev = [] \<longleftrightarrow>
      (\<forall>d \<in> set ds. \<forall>d' \<in> set ds. \<forall>k. get_attribute s (d_attribute d) = Some k \<and>
         get_attribute s (d_attribute d') = Some k \<and> d_entity d' = d_entity d \<and>
         \<not> a_multival (snd k) \<and> d_op d = Assert_op \<and> d_op d' = Retract_op \<longrightarrow> d_value d' \<noteq> d_value d)"
    unfolding add_retract_conflicts_Nil [OF wf] hs_mem_def sets witnessed_def
    using refl by blast
  have card: "cardinality_conflicts s aev = [] \<longleftrightarrow>
      (\<forall>d \<in> set ds. \<forall>d' \<in> set ds. \<forall>k. get_attribute s (d_attribute d) = Some k \<and>
         get_attribute s (d_attribute d') = Some k \<and> d_entity d' = d_entity d \<and>
         \<not> a_multival (snd k) \<and> d_op d = Assert_op \<and> d_op d' = Assert_op \<longrightarrow> d_value d' = d_value d)"
    unfolding cardinality_conflicts_Nil [OF wf] distinct_length_le_1 [OF sets(3)] sets witnessed_def
    by blast
  show ?thesis
    unfolding ty ar card valid_datoms_def case_known if_bool_eq_conj datom_op_cases
      prod.collapse
    using known by blast
qed

lemma validate_datoms_iff:
  assumes refl: "\<forall>d \<in> set ds. dt_refl (d_value d)"
  shows "validate_datoms s ds = Ok b \<longleftrightarrow>
    valid_datoms s ds \<and> b = (\<exists>d \<in> set ds. is_schema_attribute (d_attribute d))"
proof (cases "rfold (aev_step s) ([], False) ds")
  case (Inl e)
  then have "\<not> (\<forall>d \<in> set ds. get_attribute s (d_attribute d) \<noteq> None)"
    using aev_fold_total [of ds s "([], False)"] by (metis sum.distinct(1))
  then have "\<not> valid_datoms s ds" unfolding valid_datoms_def case_known by blast
  with Inl show ?thesis by (simp add: validate_datoms_def build_aev_validation_map_def)
next
  case (Inr r)
  obtain aev c where r: "r = (aev, c)" by (cases r)
  note f = aev_fold_inv [OF aev_inv_empty refl Inr [unfolded r]]
  have nc: "type_mismatches s aev @ add_retract_conflicts s aev @ cardinality_conflicts s aev = [] \<longleftrightarrow>
      valid_datoms s ds"
    using no_conflicts_iff [of s ds aev] f refl by simp
  have "validate_datoms s ds =
      (case type_mismatches s aev @ add_retract_conflicts s aev @ cardinality_conflicts s aev of
         [] \<Rightarrow> Ok c | conflict # _ \<Rightarrow> Error (conflict_error conflict))"
    using Inr r by (simp add: validate_datoms_def build_aev_validation_map_def)
  then show ?thesis
    using nc f
    by (cases "type_mismatches s aev @ add_retract_conflicts s aev @ cardinality_conflicts s aev")
      (simp only: list.case sum.inject sum.distinct, blast)+
qed

section \<open>Schema changes leave installed attributes alone\<close>

definition changes_fresh :: "schema \<Rightarrow> (entid \<times> keyword) list \<times> builders \<Rightarrow> bool" where
  "changes_fresh s = (\<lambda>(idents, bs).
     (\<forall>e \<in> fst ` set idents \<union> fst ` set bs. \<not> is_schema_entity s e) \<and> hm_wf bs)"

lemma hm_modify_mem: "(j, v) \<in> set (hm_modify k d f m) \<Longrightarrow> j = k \<or> (\<exists>w. (j, w) \<in> set m)"
  using hm_modify_keys [of k d f m] by (force simp: image_iff)

lemma schema_datom_step_fresh:
  "changes_fresh s st \<Longrightarrow> schema_datom_step s st d = Ok st' \<Longrightarrow> changes_fresh s st'"
  by (cases st) (auto simp: schema_datom_step_def changes_fresh_def Let_def hm_modify_keys hm_modify_wf
      ball_Un dest!: hm_modify_mem split: if_splits data_type.splits)

lemma prepare_schema_update_Ok:
  assumes "prepare_schema_update s ds = Ok u"
  obtains idents bs where "rfold (schema_datom_step s) ([], []) ds = Ok (idents, bs)"
    and "changes_fresh s (idents, bs)" and "u_idents u = idents" and "map fst (u_attributes u) = map fst bs"
    and "list_all2 (\<lambda>(e, b) (e', attr). e' = e \<and> build_attribute b = Ok attr) bs (u_attributes u)"
proof -
  obtain idents bs attrs where fold: "rfold (schema_datom_step s) ([], []) ds = Ok (idents, bs)"
    and attrs: "rmapM (\<lambda>(eid, b). rbind (validate_install_attribute b) (\<lambda>_.
        rbind (build_attribute b) (\<lambda>attr. Ok (eid, attr)))) bs = Ok attrs"
    and u: "u = \<lparr>u_idents = idents, u_attributes = attrs\<rparr>"
    using assms by (auto simp: prepare_schema_update_def)
  have l: "list_all2 (\<lambda>(e, b) (e', attr). e' = e \<and> build_attribute b = Ok attr) bs attrs"
    using attrs unfolding rmapM_eq_Ok by (rule list.rel_mono_strong) auto
  then have "map fst attrs = map fst bs"
    by (induction bs attrs rule: list_all2_induct) auto
  moreover have "changes_fresh s ([], [])" by (simp add: changes_fresh_def)
  then have "changes_fresh s (idents, bs)"
    using rfold_invariant [where P = "changes_fresh s"] schema_datom_step_fresh fold by metis
  ultimately show thesis using that fold l u by simp
qed

lemma foldl_idents:
  fixes s :: schema
  defines "f \<equiv> (\<lambda>s (eid, ident). s\<lparr>ident_map := (ident_map s)(ident \<mapsto> eid),
     entid_map := (entid_map s)(eid \<mapsto> ident)\<rparr>)"
  shows "attribute_map (foldl f s xs) = attribute_map s"
    and "entid_map (foldl f s xs) = entid_map s ++ map_of (rev xs)"
    and "ident_map (foldl f s xs) = ident_map s ++ map_of (rev (map prod.swap xs))"
proof -
  have "attribute_map (foldl f s xs) = attribute_map s \<and>
      entid_map (foldl f s xs) = entid_map s ++ map_of (rev xs) \<and>
      ident_map (foldl f s xs) = ident_map s ++ map_of (rev (map prod.swap xs))"
    by (induction xs rule: rev_induct) (auto simp: f_def fun_eq_iff map_add_def)
  then show "attribute_map (foldl f s xs) = attribute_map s"
    and "entid_map (foldl f s xs) = entid_map s ++ map_of (rev xs)"
    and "ident_map (foldl f s xs) = ident_map s ++ map_of (rev (map prod.swap xs))" by simp_all
qed

lemma foldl_attributes:
  fixes s :: schema
  defines "f \<equiv> (\<lambda>s (eid, attr). s\<lparr>attribute_map := (attribute_map s)(eid \<mapsto> attr)\<rparr>)"
  shows "foldl f s xs = s\<lparr>attribute_map := attribute_map s ++ map_of (rev xs)\<rparr>"
  by (induction xs rule: rev_induct) (auto simp: f_def fun_eq_iff map_add_def)

lemma apply_schema_update_maps:
  "attribute_map (apply_schema_update s u) = attribute_map s ++ map_of (rev (u_attributes u))"
  "entid_map (apply_schema_update s u) = entid_map s ++ map_of (rev (u_idents u))"
  "ident_map (apply_schema_update s u) = ident_map s ++ map_of (rev (map prod.swap (u_idents u)))"
  by (simp_all add: apply_schema_update_def Let_def foldl_attributes foldl_idents)

lemma apply_keeps:
  assumes "prepare_schema_update s ds = Ok u" and "attribute_map s e = Some attr"
  shows "attribute_map (apply_schema_update s u) e = Some attr"
    and "entid_map (apply_schema_update s u) e = entid_map s e"
proof -
  obtain idents bs where "changes_fresh s (idents, bs)" and u: "u_idents u = idents"
    and k: "map fst (u_attributes u) = map fst bs"
    using prepare_schema_update_Ok [OF assms(1)] by metis
  have e: "is_schema_entity s e" using assms(2) by (simp add: is_schema_entity_def)
  have "e \<notin> fst ` set idents \<and> e \<notin> set (map fst bs)"
    using \<open>changes_fresh s (idents, bs)\<close> e unfolding changes_fresh_def prod.case set_map by blast
  then have "e \<notin> fst ` set (u_idents u)" "e \<notin> fst ` set (u_attributes u)"
    unfolding u k [symmetric] set_map by blast+
  then have "map_of (rev (u_idents u)) e = None" "map_of (rev (u_attributes u)) e = None"
    by (simp_all add: map_of_eq_None_iff)
  then show "attribute_map (apply_schema_update s u) e = Some attr"
    and "entid_map (apply_schema_update s u) e = entid_map s e"
    using assms(2) by (simp_all add: apply_schema_update_maps map_add_def)
qed

section \<open>Identifiers of types, cardinalities and uniqueness\<close>

lemma vt_roundtrip [simp]: "vt_from_entity_id (vt_entity_id t) = Ok t"
  by (cases t) (simp_all add: vt_entity_id_def vt_from_entity_id_def db_type_defs)

lemma card_roundtrip [simp]: "card_from_entity_id (card_entity_id c) = Ok c"
  by (cases c) (simp_all add: card_entity_id_def card_from_entity_id_def db_id_defs)

lemma unique_roundtrip [simp]: "unique_from_entity_id (unique_entity_id u) = Ok u"
  by (cases u) (simp_all add: unique_entity_id_def unique_from_entity_id_def db_id_defs)

section \<open>The bootstrap schema\<close>

lemma V1_distinct: "distinct (map fst V1_IDENTS)" "distinct (map snd V1_IDENTS)"
  by (simp_all add: V1_IDENTS_def kw_eq_iff db_id_defs)

lemma foldl_swap:
  "foldl (\<lambda>s (ident, eid). f s eid ident) s xs = foldl (\<lambda>s (eid, ident). f s eid ident) s (map prod.swap xs)"
  by (induction xs arbitrary: s) auto

lemma map_of_rev_distinct: "distinct (map fst xs) \<Longrightarrow> map_of (rev xs) = map_of xs"
  by (metis distinct_rev map_of_eqI rev_map set_rev map_of_inject_set list.set_map)

lemma bootstrap_idents_maps:
  "ident_map bootstrap_idents = map_of V1_IDENTS"
  "entid_map bootstrap_idents = map_of (map prod.swap V1_IDENTS)"
  "attribute_map bootstrap_idents = Map.empty"
proof -
  have swap: "bootstrap_idents = foldl (\<lambda>s (eid, ident). s\<lparr>ident_map := (ident_map s)(ident \<mapsto> eid),
      entid_map := (entid_map s)(eid \<mapsto> ident)\<rparr>) empty_schema (map prod.swap V1_IDENTS)"
    unfolding bootstrap_idents_def by (rule foldl_swap)
  have d: "distinct (map fst (map prod.swap V1_IDENTS))" using V1_distinct(2) by (simp add: comp_def)
  show "ident_map bootstrap_idents = map_of V1_IDENTS"
    unfolding swap foldl_idents by (simp add: comp_def empty_schema_def map_of_rev_distinct [OF V1_distinct(1)])
  show "entid_map bootstrap_idents = map_of (map prod.swap V1_IDENTS)"
    unfolding swap foldl_idents by (simp add: empty_schema_def map_of_rev_distinct [OF d])
  show "attribute_map bootstrap_idents = Map.empty"
    unfolding swap foldl_idents by (simp add: empty_schema_def)
qed

definition card_one_attr :: "value_type \<Rightarrow> unique option \<Rightarrow> attribute" where
  "card_one_attr vt u = \<lparr>a_value_type = vt, a_multival = False, a_unique = u\<rparr>"

definition bootstrap_attributes :: "entid \<rightharpoonup> attribute" where
  "bootstrap_attributes =
     [DB_IDENT \<mapsto> card_one_attr VT_Keyword (Some U_Identity), DB_VALUE_TYPE \<mapsto> card_one_attr VT_Ref None,
      DB_CARDINALITY \<mapsto> card_one_attr VT_Ref None, DB_UNIQUE \<mapsto> card_one_attr VT_Ref None,
      DB_TX_INSTANT \<mapsto> card_one_attr VT_Instant None, DB_TX_ID \<mapsto> card_one_attr VT_Long None,
      DB_TX_RESULT \<mapsto> card_one_attr VT_Ref None, DB_TX_ERROR \<mapsto> card_one_attr VT_String None]"

lemma bootstrap_lookup:
  "map_of V1_IDENTS (kw ''db'' ''ident'') = Some DB_IDENT"
  "map_of V1_IDENTS (kw ''db'' ''valueType'') = Some DB_VALUE_TYPE"
  "map_of V1_IDENTS (kw ''db'' ''cardinality'') = Some DB_CARDINALITY"
  "map_of V1_IDENTS (kw ''db'' ''unique'') = Some DB_UNIQUE"
  "map_of V1_IDENTS (kw ''db'' ''txInstant'') = Some DB_TX_INSTANT"
  "map_of V1_IDENTS (kw ''db'' ''txId'') = Some DB_TX_ID"
  "map_of V1_IDENTS (kw ''db'' ''txResult'') = Some DB_TX_RESULT"
  "map_of V1_IDENTS (kw ''db'' ''txError'') = Some DB_TX_ERROR"
  "map_of V1_IDENTS (kw ''db.type'' ''keyword'') = Some DB_TYPE_KEYWORD"
  "map_of V1_IDENTS (kw ''db.type'' ''ref'') = Some DB_TYPE_REF"
  "map_of V1_IDENTS (kw ''db.type'' ''instant'') = Some DB_TYPE_INSTANT"
  "map_of V1_IDENTS (kw ''db.type'' ''long'') = Some DB_TYPE_LONG"
  "map_of V1_IDENTS (kw ''db.type'' ''string'') = Some DB_TYPE_STRING"
  "map_of V1_IDENTS (kw ''db.cardinality'' ''one'') = Some DB_CARDINALITY_ONE"
  "map_of V1_IDENTS (kw ''db.unique'' ''identity'') = Some DB_UNIQUE_IDENTITY"
  by (simp_all add: V1_IDENTS_def kw_eq_iff)

lemma bootstrap_schema_eq:
  "bootstrap_schema = Ok (bootstrap_idents\<lparr>attribute_map := bootstrap_attributes\<rparr>)"
  by (simp add: bootstrap_schema_def V1_ATTRIBUTES_def bootstrap_attribute_def expect_def expect_ok_def
      bootstrap_idents_maps bootstrap_lookup vt_from_entity_id_def unique_from_entity_id_def
      db_id_defs bootstrap_attributes_def card_one_attr_def)

section \<open>Reloading the schema\<close>

lemma load_idents:
  "rfold load_ident_row s (map (\<lambda>(e, k). [DLong e, DKeyword k]) ids) =
     Ok (foldl (\<lambda>s (eid, ident). s\<lparr>ident_map := (ident_map s)(ident \<mapsto> eid),
           entid_map := (entid_map s)(eid \<mapsto> ident)\<rparr>) s ids)"
  by (induction ids arbitrary: s) (auto simp: load_ident_row_def row_long_def row_keyword_def)

lemma load_uniques:
  "rfold load_unique_row m (map (\<lambda>(e, u). [DLong e, DLong (unique_entity_id u)]) us) =
     Ok (m ++ map_of (rev us))"
  by (induction us arbitrary: m)
    (auto simp: load_unique_row_def row_long_def expect_ok_def)

definition attr_row :: "(entid \<Rightarrow> data_type) \<Rightarrow> entid \<times> attribute \<Rightarrow> data_type list" where
  "attr_row ident = (\<lambda>(e, attr). [DLong e, ident e, DLong (vt_entity_id (a_value_type attr)),
     DLong (card_entity_id (if a_multival attr then Many else One))])"

lemma load_attrs:
  assumes "distinct (map fst attrs)" and "\<forall>(e, attr) \<in> set attrs. um e = a_unique attr"
  shows "\<exists>um'. rfold load_attr_row (s, um) (map (attr_row ident) attrs) =
    Ok (s\<lparr>attribute_map := attribute_map s ++ map_of (rev attrs)\<rparr>, um')"
  using assms
proof (induction attrs arbitrary: s um)
  case (Cons x attrs)
  obtain e attr where x: "x = (e, attr)" by (cases x)
  let ?s = "s\<lparr>attribute_map := (attribute_map s)(e \<mapsto> attr)\<rparr>"
  have row: "load_attr_row (s, um) (attr_row ident x) = Ok (?s, um(e := None))"
    using Cons.prems(2)
    by (cases attr) (auto simp: x load_attr_row_def attr_row_def row_long_def expect_ok_def)
  have "\<forall>(e', attr') \<in> set attrs. (um(e := None)) e' = a_unique attr'"
    using Cons.prems x by force
  then have "\<exists>um'. rfold load_attr_row (?s, um(e := None)) (map (attr_row ident) attrs) =
      Ok (?s\<lparr>attribute_map := attribute_map ?s ++ map_of (rev attrs)\<rparr>, um')"
    using Cons.prems(1) by (intro Cons.IH) simp_all
  then show ?case using row [unfolded x] by (simp add: x del: fun_upd_apply)
qed simp

definition unique_rows :: "(entid \<times> attribute) list \<Rightarrow> (entid \<times> unique) list" where
  "unique_rows attrs =
     concat (map (\<lambda>(e, a). case a_unique a of None \<Rightarrow> [] | Some u \<Rightarrow> [(e, u)]) attrs)"

lemma unique_rows_Cons:
  "unique_rows ((e, a) # attrs) =
     (case a_unique a of None \<Rightarrow> unique_rows attrs | Some u \<Rightarrow> (e, u) # unique_rows attrs)"
  by (simp add: unique_rows_def split: option.split)

lemma unique_rows_keys: "fst ` set (unique_rows attrs) \<subseteq> fst ` set attrs"
  by (force simp: unique_rows_def split: option.splits)

lemma unique_rows_distinct: "distinct (map fst attrs) \<Longrightarrow> distinct (map fst (unique_rows attrs))"
proof (induction attrs)
  case (Cons x attrs)
  then show ?case
    using unique_rows_keys [of attrs]
    by (cases x) (auto simp: unique_rows_Cons split: option.split dest!: subsetD)
qed (simp add: unique_rows_def)

lemma unique_rows_lookup:
  "distinct (map fst attrs) \<Longrightarrow> (e, a) \<in> set attrs \<Longrightarrow> map_of (unique_rows attrs) e = a_unique a"
proof (induction attrs)
  case (Cons x attrs)
  have "map_of (unique_rows attrs) e = None" if "e \<notin> fst ` set attrs"
    using that unique_rows_keys [of attrs] by (auto simp: map_of_eq_None_iff)
  then show ?case
    using Cons by (cases x) (force simp: unique_rows_Cons split: option.split)
qed simp

section \<open>Properties\<close>

text \<open>C13: Validation of the datoms of a transaction accepts exactly the datoms that satisfy the
  contract: every attribute is installed, every value has the type of its attribute, and for an
  attribute of cardinality one an entity has at most one asserted value and no value that is both
  asserted and retracted. It reports a schema change exactly when a schema attribute occurs.
  (Values without a NaN, which never equals itself.)\<close>

theorem validate_datoms_correct:
  assumes "\<forall>d \<in> set ds. dt_refl (d_value d)"
  shows "validate_datoms s ds = Ok changes \<longleftrightarrow>
    valid_datoms s ds \<and> changes = (\<exists>d \<in> set ds. is_schema_attribute (d_attribute d))"
  using assms by (rule validate_datoms_iff)

definition sample_schema :: schema where
  "sample_schema = \<lparr>entid_map = [1 \<mapsto> kw ''p'' ''age''], ident_map = [kw ''p'' ''age'' \<mapsto> 1],
     attribute_map = [1 \<mapsto> card_one_attr VT_Long None]\<rparr>"

definition sample_datom :: "i64 \<Rightarrow> datom" where
  "sample_datom v = \<lparr>d_entity = 7, d_attribute = kw ''p'' ''age'', d_value = DLong v, d_op = Assert_op\<rparr>"

theorem validate_datoms_correct_witness:
  "\<not> (\<exists>c. validate_datoms sample_schema [sample_datom 3, sample_datom 4] = Ok c) \<and>
   validate_datoms sample_schema [sample_datom 3] = Ok False"
proof -
  have "\<forall>d \<in> set [sample_datom 3, sample_datom 4]. dt_refl (d_value d)"
    by (simp add: sample_datom_def dt_refl_def)
  moreover have "\<forall>d \<in> set [sample_datom 3]. dt_refl (d_value d)"
    by (simp add: sample_datom_def dt_refl_def)
  moreover have "\<not> valid_datoms sample_schema [sample_datom 3, sample_datom 4]"
    by (simp add: valid_datoms_def sample_schema_def sample_datom_def get_attribute_def card_one_attr_def)
  moreover have "valid_datoms sample_schema [sample_datom 3]"
    by (simp add: valid_datoms_def sample_schema_def sample_datom_def get_attribute_def card_one_attr_def
        vt_matches_def value_type_of_def)
  moreover have "\<not> is_schema_attribute (d_attribute (sample_datom 3))"
    by (simp add: sample_datom_def is_schema_attribute_def kw_components_def kw_def)
  ultimately show ?thesis
    using validate_datoms_correct [of "[sample_datom 3, sample_datom 4]" sample_schema]
      validate_datoms_correct [of "[sample_datom 3]" sample_schema False] by auto
qed

text \<open>C30: Installed attributes are immutable: after any schema change that is prepared from the
  datoms of a transaction, every attribute that was installed keeps its type, cardinality,
  uniqueness and name.\<close>

theorem installed_attributes_immutable:
  assumes "prepare_schema_update s ds = Ok u" and "attribute_map s e = Some attr"
  shows "attribute_map (apply_schema_update s u) e = Some attr \<and>
    get_ident (apply_schema_update s u) e = get_ident s e"
  using apply_keeps [OF assms] by (simp add: get_ident_def)

theorem installed_attributes_immutable_witness:
  "\<exists>u. prepare_schema_update sample_schema [sample_datom 3] = Ok u \<and>
     attribute_map (apply_schema_update sample_schema u) 1 = Some (card_one_attr VT_Long None)"
proof -
  obtain u where "prepare_schema_update sample_schema [sample_datom 3] = Ok u"
    by (simp add: prepare_schema_update_def schema_datom_step_def sample_datom_def
        is_schema_attribute_def kw_components_def kw_def)
  moreover have "attribute_map sample_schema 1 = Some (card_one_attr VT_Long None)"
    by (simp add: sample_schema_def)
  ultimately show ?thesis using installed_attributes_immutable by blast
qed

text \<open>The bootstrap schema is built without a panic; in it names and identifiers of the
  built-in entities correspond one to one, and every built-in attribute has the type, the
  cardinality and the uniqueness that the table of built-in attributes names.\<close>

theorem bootstrap_schema_correct:
  "\<exists>s. bootstrap_schema = Ok s \<and>
     (\<forall>k e. (ident_map s k = Some e) = ((k, e) \<in> set V1_IDENTS)) \<and>
     (\<forall>k e. (entid_map s e = Some k) = ((k, e) \<in> set V1_IDENTS)) \<and>
     list_all (\<lambda>(ident, vt, card, u). \<exists>eid attr. get_attribute s ident = Some (eid, attr) \<and>
       ident_map s vt = Some (vt_entity_id (a_value_type attr)) \<and>
       ident_map s card = Some (card_entity_id (if a_multival attr then Many else One)) \<and>
       map_option unique_entity_id (a_unique attr) = (case u of None \<Rightarrow> None | Some i \<Rightarrow> ident_map s i))
       V1_ATTRIBUTES"
proof -
  let ?s = "bootstrap_idents\<lparr>attribute_map := bootstrap_attributes\<rparr>"
  have d: "distinct (map fst (map prod.swap V1_IDENTS))" using V1_distinct(2) by (simp add: comp_def)
  have "(ident_map ?s k = Some e) = ((k, e) \<in> set V1_IDENTS)" for k e
    using V1_distinct(1) by (simp add: bootstrap_idents_maps)
  moreover have "(entid_map ?s e = Some k) = ((k, e) \<in> set V1_IDENTS)" for k e
    using map_of_eq_Some_iff [OF d, of e k] by (auto simp: bootstrap_idents_maps)
  moreover have "list_all (\<lambda>(ident, vt, card, u). \<exists>eid attr. get_attribute ?s ident = Some (eid, attr) \<and>
       ident_map ?s vt = Some (vt_entity_id (a_value_type attr)) \<and>
       ident_map ?s card = Some (card_entity_id (if a_multival attr then Many else One)) \<and>
       map_option unique_entity_id (a_unique attr) = (case u of None \<Rightarrow> None | Some i \<Rightarrow> ident_map ?s i))
       V1_ATTRIBUTES"
    by (simp add: V1_ATTRIBUTES_def get_attribute_def bootstrap_idents_maps bootstrap_lookup
        bootstrap_attributes_def card_one_attr_def vt_entity_id_def card_entity_id_def
        unique_entity_id_def db_id_defs)
  ultimately show ?thesis unfolding bootstrap_schema_eq by blast
qed



end
