(* ===== verification/Slate_Iter.thy ===== *)
theory Slate_Iter
  imports Index_Keys
begin

text \<open>
  Iterators over the key-value store: \<^verbatim>\<open>src/iterator/slate_key_iterator.rs\<close>,
  \<^verbatim>\<open>src/iterator/slate_iterator.rs\<close> and
  \<^verbatim>\<open>src/iterator/temporal_filter_iterator.rs\<close>.

  The store is SlateDB, a package outside the repository: its operations are a record of
  functions that every definition takes as an argument, and \<open>slate_law\<close> states what the code
  relies on, without I/O failures: a prefix scan yields the stored keys with that prefix in
  increasing order, \<open>it_next\<close> returns them one by one, and \<open>it_seek\<close> to a key after the last one
  returned skips the smaller keys. Loops over the store take fuel, and the theorems show that
  one more than the number of keys left is enough.
\<close>

section \<open>The store\<close>

record ('db, 'it) slate_ops =
  scan_prefix :: "'db \<Rightarrow> bytes \<Rightarrow> 'it result"
  it_next :: "'it \<Rightarrow> (bytes option \<times> 'it) result"
  it_seek :: "'it \<Rightarrow> bytes \<Rightarrow> 'it result"
  db_write :: "'db \<Rightarrow> bytes list \<Rightarrow> 'db result"

definition slate_law ::
  "('db, 'it) slate_ops \<Rightarrow> ('db \<Rightarrow> bytes set) \<Rightarrow> ('it \<Rightarrow> bytes list) \<Rightarrow> ('it \<Rightarrow> bytes option) \<Rightarrow> bool" where
  "slate_law ops keys rest last_key \<longleftrightarrow>
     (\<forall>db. finite (keys db)) \<and>
     (\<forall>db p. \<exists>it. scan_prefix ops db p = Ok it \<and> last_key it = None \<and>
        rest it = sorted_list_of_set {k \<in> keys db. prefix p k}) \<and>
     (\<forall>it. case rest it of
        [] \<Rightarrow> (\<exists>it'. it_next ops it = Ok (None, it') \<and> rest it' = [] \<and> last_key it' = last_key it)
      | k # ks \<Rightarrow> (\<exists>it'. it_next ops it = Ok (Some k, it') \<and> rest it' = ks \<and> last_key it' = Some k)) \<and>
     (\<forall>it k. (case last_key it of None \<Rightarrow> True | Some l \<Rightarrow> l < k) \<longrightarrow>
        (\<exists>it'. it_seek ops it k = Ok it' \<and> rest it' = dropWhile (\<lambda>x. x < k) (rest it) \<and>
           last_key it' = last_key it)) \<and>
     (\<forall>db ks. \<exists>db'. db_write ops db ks = Ok db' \<and> keys db' = keys db \<union> set ks)"

lemma slate_scan:
  assumes "slate_law ops keys rest lk"
  obtains it where "scan_prefix ops db p = Ok it" "lk it = None"
    "rest it = sorted_list_of_set {k \<in> keys db. prefix p k}"
  using assms unfolding slate_law_def by blast

lemma slate_next:
  assumes "slate_law ops keys rest lk"
  shows "case rest it of
      [] \<Rightarrow> (\<exists>it'. it_next ops it = Ok (None, it') \<and> rest it' = [] \<and> lk it' = lk it)
    | k # ks \<Rightarrow> (\<exists>it'. it_next ops it = Ok (Some k, it') \<and> rest it' = ks \<and> lk it' = Some k)"
  using assms unfolding slate_law_def by blast

lemma slate_next_Nil:
  assumes "slate_law ops keys rest lk" and "rest it = []"
  obtains it' where "it_next ops it = Ok (None, it')" "rest it' = []" "lk it' = lk it"
  using slate_next [OF assms(1), of it] assms(2) that by auto

lemma slate_next_Cons:
  assumes "slate_law ops keys rest lk" and "rest it = k # ks"
  obtains it' where "it_next ops it = Ok (Some k, it')" "rest it' = ks" "lk it' = Some k"
  using slate_next [OF assms(1), of it] assms(2) that by auto

lemma slate_seek:
  assumes "slate_law ops keys rest lk" and "\<And>l. lk it = Some l \<Longrightarrow> l < k"
  obtains it' where "it_seek ops it k = Ok it'" "rest it' = dropWhile (\<lambda>x. x < k) (rest it)"
    "lk it' = lk it"
proof -
  have "case lk it of None \<Rightarrow> True | Some l \<Rightarrow> l < k" using assms(2) by (auto split: option.split)
  then show thesis using assms(1) that unfolding slate_law_def by blast
qed

lemma slate_write:
  assumes "slate_law ops keys rest lk"
  obtains db' where "db_write ops db ks = Ok db'" "keys db' = keys db \<union> set ks"
  using assms unfolding slate_law_def by blast

text \<open>A store that is a list of keys, with iterators that hold what is left and the last key.\<close>

definition list_slate :: "(bytes list, bytes list \<times> bytes option) slate_ops" where
  "list_slate =
     \<lparr>scan_prefix = (\<lambda>db p. Ok (sorted_list_of_set {k \<in> set db. prefix p k}, None)),
      it_next = (\<lambda>(ks, l). case ks of [] \<Rightarrow> Ok (None, ([], l)) | k # ks' \<Rightarrow> Ok (Some k, (ks', Some k))),
      it_seek = (\<lambda>(ks, l) k. Ok (dropWhile (\<lambda>x. x < k) ks, l)),
      db_write = (\<lambda>db ks. Ok (ks @ db))\<rparr>"

lemma list_slate_law: "slate_law list_slate set fst snd"
  by (auto simp: slate_law_def list_slate_def split: list.splits)

section \<open>SlateKeyIterator\<close>

record 'it slate_key_iterator =
  ski_inner :: 'it
  ski_current_key :: "bytes option"

definition ski_scan_prefix :: "('db, 'it) slate_ops \<Rightarrow> 'db \<Rightarrow> bytes \<Rightarrow> 'it slate_key_iterator result" where
  "ski_scan_prefix ops db p =
     rbind (scan_prefix ops db p) (\<lambda>inner.
     rbind (it_next ops inner) (\<lambda>(current_key, inner').
     Ok \<lparr>ski_inner = inner', ski_current_key = current_key\<rparr>))"

definition ski_advance :: "('db, 'it) slate_ops \<Rightarrow> 'it slate_key_iterator \<Rightarrow> 'it \<Rightarrow> 'it slate_key_iterator result" where
  "ski_advance ops iter inner =
     rbind (it_next ops inner) (\<lambda>(current_key, inner').
     Ok (iter\<lparr>ski_inner := inner', ski_current_key := current_key\<rparr>))"

definition ski_seek ::
  "('db, 'it) slate_ops \<Rightarrow> 'it slate_key_iterator \<Rightarrow> bytes \<Rightarrow> 'it slate_key_iterator result" where
  "ski_seek ops iter key =
     (if (case ski_current_key iter of Some current \<Rightarrow> key \<le> current | None \<Rightarrow> False) then Ok iter
      else rbind (it_seek ops (ski_inner iter) key) (ski_advance ops iter))"

definition ski_next ::
  "('db, 'it) slate_ops \<Rightarrow> 'it slate_key_iterator \<Rightarrow> (bytes option \<times> 'it slate_key_iterator) result" where
  "ski_next ops iter =
     rbind (ski_advance ops iter (ski_inner iter)) (\<lambda>iter'. Ok (ski_current_key iter', iter'))"

definition ski_peek :: "'it slate_key_iterator \<Rightarrow> bytes option" where
  "ski_peek iter = ski_current_key iter"

text \<open>The keys an iterator still covers, the current one first.\<close>

definition ski_keys :: "('it \<Rightarrow> bytes list) \<Rightarrow> 'it slate_key_iterator \<Rightarrow> bytes list" where
  "ski_keys rest iter =
     (case ski_current_key iter of None \<Rightarrow> [] | Some k \<Rightarrow> k # rest (ski_inner iter))"

definition ski_ok :: "('it \<Rightarrow> bytes list) \<Rightarrow> ('it \<Rightarrow> bytes option) \<Rightarrow> 'it slate_key_iterator \<Rightarrow> bool" where
  "ski_ok rest lk iter \<longleftrightarrow> sorted_wrt (<) (ski_keys rest iter) \<and>
     (case ski_current_key iter of
        None \<Rightarrow> rest (ski_inner iter) = []
      | Some k \<Rightarrow> lk (ski_inner iter) = Some k)"

lemma ski_peek_keys: "ski_peek iter = (case ski_keys rest iter of [] \<Rightarrow> None | k # _ \<Rightarrow> Some k)"
  by (simp add: ski_peek_def ski_keys_def split: option.split)

lemma ski_advance_ok:
  assumes "slate_law ops keys rest lk" and "sorted_wrt (<) (rest inner)"
  obtains iter' where "ski_advance ops iter inner = Ok iter'" and "ski_ok rest lk iter'"
    and "ski_keys rest iter' = rest inner"
    and "rest inner = [] \<longrightarrow> lk (ski_inner iter') = lk inner"
proof (cases "rest inner")
  case Nil
  from slate_next_Nil [OF assms(1) Nil] obtain it' where
    "it_next ops inner = Ok (None, it')" "rest it' = []" "lk it' = lk inner" by blast
  then show thesis
    using that [of "iter\<lparr>ski_inner := it', ski_current_key := None\<rparr>"] Nil
    by (simp add: ski_advance_def ski_ok_def ski_keys_def)
next
  case (Cons k ks)
  from slate_next_Cons [OF assms(1) Cons] obtain it' where
    "it_next ops inner = Ok (Some k, it')" "rest it' = ks" "lk it' = Some k" by blast
  then show thesis
    using that [of "iter\<lparr>ski_inner := it', ski_current_key := Some k\<rparr>"] assms(2) Cons
    by (simp add: ski_advance_def ski_ok_def ski_keys_def)
qed

lemma sorted_dropWhile: "sorted_wrt (<) xs \<Longrightarrow> sorted_wrt (<) (dropWhile P xs)"
  by (metis append_take_drop_id dropWhile_eq_drop sorted_wrt_append)

lemma dropWhile_less_Cons:
  "sorted_wrt (<) (k # ks) \<Longrightarrow> \<not> k < x \<Longrightarrow> dropWhile (\<lambda>y. y < x) (k # ks) = k # ks"
  for k x :: "'a::linorder"
  by simp

lemma ski_scan_ok:
  assumes "slate_law ops keys rest lk"
  obtains iter where "ski_scan_prefix ops db p = Ok iter" and "ski_ok rest lk iter"
    and "ski_keys rest iter = sorted_list_of_set {k \<in> keys db. prefix p k}"
    and "ski_keys rest iter = [] \<longrightarrow> lk (ski_inner iter) = None"
proof -
  obtain it where it: "scan_prefix ops db p = Ok it" "lk it = None"
    "rest it = sorted_list_of_set {k \<in> keys db. prefix p k}"
    using slate_scan [OF assms] by blast
  have "sorted_wrt (<) (rest it)" unfolding it(3) by (rule strict_sorted_list_of_set)
  then obtain iter' where "ski_advance ops \<lparr>ski_inner = it, ski_current_key = None\<rparr> it = Ok iter'"
    and ok: "ski_ok rest lk iter'" "ski_keys rest iter' = rest it"
    and "rest it = [] \<longrightarrow> lk (ski_inner iter') = lk it"
    by (rule ski_advance_ok [OF assms])
  then show thesis
    using that [of iter'] it by (simp add: ski_scan_prefix_def ski_advance_def)
qed

text \<open>A seek that does not go back drops the keys below its target.\<close>

lemma ski_seek_ok:
  assumes law: "slate_law ops keys rest lk" and ok: "ski_ok rest lk iter"
    and fwd: "\<And>l. ski_current_key iter = None \<Longrightarrow> lk (ski_inner iter) = Some l \<Longrightarrow> l < x"
  obtains iter' where "ski_seek ops iter x = Ok iter'" and "ski_ok rest lk iter'"
    and "ski_keys rest iter' = dropWhile (\<lambda>y. y < x) (ski_keys rest iter)"
    and "ski_keys rest iter' = [] \<longrightarrow> (\<forall>l. lk (ski_inner iter') = Some l \<longrightarrow> l < x)"
proof (cases "ski_current_key iter")
  case None
  then have r: "rest (ski_inner iter) = []" "ski_keys rest iter = []"
    using ok by (simp_all add: ski_ok_def ski_keys_def)
  obtain it' where s: "it_seek ops (ski_inner iter) x = Ok it'" "rest it' = []" "lk it' = lk (ski_inner iter)"
    using slate_seek [OF law fwd [OF None]] r by (metis dropWhile.simps(1))
  have "sorted_wrt (<) (rest it')" using s by simp
  then obtain iter' where "ski_advance ops iter it' = Ok iter'" "ski_ok rest lk iter'"
    "ski_keys rest iter' = rest it'" "rest it' = [] \<longrightarrow> lk (ski_inner iter') = lk it'"
    by (rule ski_advance_ok [OF law])
  then show thesis using that [of iter'] s r fwd [OF None] None by (auto simp: ski_seek_def)
next
  case (Some c)
  have lk: "lk (ski_inner iter) = Some c" and so: "sorted_wrt (<) (c # rest (ski_inner iter))"
    using ok Some by (simp_all add: ski_ok_def ski_keys_def)
  show thesis
  proof (cases "x \<le> c")
    case True
    then show thesis
      using that [of iter] ok Some by (simp add: ski_seek_def ski_keys_def)
  next
    case False
    obtain it' where s: "it_seek ops (ski_inner iter) x = Ok it'"
      "rest it' = dropWhile (\<lambda>y. y < x) (rest (ski_inner iter))" "lk it' = lk (ski_inner iter)"
      using slate_seek [OF law, of "ski_inner iter" x] lk False by force
    have "sorted_wrt (<) (rest it')" using so unfolding s(2) by (simp add: sorted_dropWhile)
    then obtain iter' where "ski_advance ops iter it' = Ok iter'" "ski_ok rest lk iter'"
      "ski_keys rest iter' = rest it'" "rest it' = [] \<longrightarrow> lk (ski_inner iter') = lk it'"
      by (rule ski_advance_ok [OF law])
    note adv = this
    have "ski_keys rest iter = c # rest (ski_inner iter)" using Some by (simp add: ski_keys_def)
    then have "ski_keys rest iter' = dropWhile (\<lambda>y. y < x) (ski_keys rest iter)"
      using adv(3) s(2) False by simp
    moreover have "ski_seek ops iter x = Ok iter'"
      using adv(1) s(1) Some False by (simp add: ski_seek_def)
    moreover have "l < x" if "ski_keys rest iter' = []" "lk (ski_inner iter') = Some l" for l
    proof -
      have "lk (ski_inner iter') = Some c" using adv(3,4) s(3) lk that(1) by argo
      then show ?thesis using that(2) False by simp
    qed
    ultimately show thesis using that [of iter'] adv(2) by blast
  qed
qed

end
