(* ===== verification/Temporal.thy ===== *)
theory Temporal
  imports Slate_Iter
begin

text \<open>
  Reading the state of the database as of a transaction. Keys of the temporal indices end in
  the transaction, encoded in descending order, and the operation, so the versions of a fact
  (the keys with the same \<open>logical_key\<close>) are adjacent, the newest first.
  \<^verbatim>\<open>src/iterator/temporal_filter_iterator.rs\<close> walks a prefix and stops at the facts that
  hold as of a transaction; \<^verbatim>\<open>find_live_key_under_prefix\<close> of \<^verbatim>\<open>src/tx.rs\<close> finds the
  first fact that holds now.

  \<open>live_list\<close> is the meaning of both on a sorted list of keys; \<open>live_list_iff\<close> says which
  keys it selects. The trait \<^verbatim>\<open>Index\<close> of \<^verbatim>\<open>src/iterator/slate_iterator.rs\<close> is the locale
  \<open>index_iter\<close>.
\<close>

section \<open>Versions of facts\<close>

definition logical_key :: "bytes \<Rightarrow> bytes" where
  "logical_key key = take (length key - TX_EID_OP_SUFFIX) key"

definition key_ts :: "bytes \<Rightarrow> bytes" where
  "key_ts key = take (TX_EID_OP_SUFFIX - OP_LENGTH) (drop (length key - TX_EID_OP_SUFFIX) key)"

definition key_op :: "bytes \<Rightarrow> u8" where
  "key_op key = key ! (length key - 1)"

text \<open>
  Keys of a temporal index: long enough, below the largest index byte, and no fact's key
  starts with the logical key of another fact.
\<close>

definition versioned :: "bytes set \<Rightarrow> bool" where
  "versioned K \<longleftrightarrow>
     (\<forall>k \<in> K. TX_EID_OP_SUFFIX < length k \<and> hd k < 0xFF \<and>
        (\<forall>k' \<in> K. prefix (logical_key k) k' \<longrightarrow> logical_key k' = logical_key k))"

text \<open>The keys that hold, in order: per fact the first visible version, unless it retracts.\<close>

function live_list :: "(bytes \<Rightarrow> bool) \<Rightarrow> bytes list \<Rightarrow> bytes list" where
  "live_list vis [] = []"
| "live_list vis (k # ks) =
     (if \<not> vis k then live_list vis ks
      else
        (let rest = live_list vis (dropWhile (prefix (logical_key k)) ks)
         in if key_op k = RETRACT then rest else k # rest))"
  by pat_completeness auto
termination
  by (relation "measure (length \<circ> snd)") (auto simp: le_imp_less_Suc length_dropWhile_le)

lemma logical_key_prefix: "prefix (logical_key k) k"
  by (simp add: logical_key_def take_is_prefix)

lemma versioned_subset: "versioned K \<Longrightarrow> J \<subseteq> K \<Longrightarrow> versioned J"
  unfolding versioned_def by blast

lemma versionedD:
  "versioned K \<Longrightarrow> k \<in> K \<Longrightarrow> k' \<in> K \<Longrightarrow> prefix (logical_key k) k' \<Longrightarrow> logical_key k' = logical_key k"
  unfolding versioned_def by blast

lemma next_prefix_Some: "p \<noteq> [] \<Longrightarrow> hd p < 0xFF \<Longrightarrow> \<exists>n. next_prefix p = Some n"
  by (cases p) (auto simp: next_prefix_Cons split: option.split)

lemma versioned_next:
  assumes "versioned K" and "k \<in> K"
  obtains n where "next_prefix (logical_key k) = Some n"
proof -
  have "TX_EID_OP_SUFFIX < length k" "hd k < 0xFF" using assms by (auto simp: versioned_def)
  then have "logical_key k \<noteq> []" "hd (logical_key k) < 0xFF"
    by (auto simp: logical_key_def)
  then show thesis using next_prefix_Some that by blast
qed

lemma next_prefix_bounds:
  assumes "next_prefix p = Some n"
  shows "prefix p k \<longleftrightarrow> p \<le> k \<and> k < n"
  using prefix_range [of p k] assms by simp

text \<open>Seeking to the successor of a logical key skips exactly the versions of the fact.\<close>

lemma dropWhile_next_prefix:
  assumes "next_prefix (logical_key k) = Some n" and "sorted_wrt (<) (k # ks)"
  shows "dropWhile (\<lambda>x. x < n) ks = dropWhile (prefix (logical_key k)) ks"
proof (rule dropWhile_cong [OF refl])
  fix x assume "x \<in> set ks"
  then have "k < x" using assms(2) by simp
  then have "logical_key k \<le> x"
    using prefix_imp_le [OF logical_key_prefix, of k] by simp
  then show "(x < n) = prefix (logical_key k) x" by (simp add: next_prefix_bounds [OF assms(1)])
qed

text \<open>After the versions of a fact no later key belongs to it.\<close>

lemma group_contiguous:
  assumes "next_prefix (logical_key k) = Some n" and "sorted_wrt (<) (k # ks)"
    and "x \<in> set (dropWhile (prefix (logical_key k)) ks)"
  shows "\<not> prefix (logical_key k) x"
proof -
  let ?d = "dropWhile (prefix (logical_key k)) ks"
  obtain y ys where d: "?d = y # ys" using assms(3) by (cases ?d) auto
  have "sorted_wrt (<) ?d" using assms(2) by (simp add: sorted_dropWhile)
  then have le: "y \<le> x" using assms(3) d by auto
  have "\<not> prefix (logical_key k) y" using hd_dropWhile [of "prefix (logical_key k)" ks] d by simp
  moreover have "y \<in> set ?d" using d by simp
  then have "k < y" using assms(2) by (auto dest: set_dropWhileD)
  then have "logical_key k \<le> y" using prefix_imp_le [OF logical_key_prefix, of k] by simp
  ultimately have "\<not> x < n" using le by (auto simp: next_prefix_bounds [OF assms(1)])
  then show ?thesis by (simp add: next_prefix_bounds [OF assms(1)])
qed

text \<open>A key holds in a set of keys when it is the first visible version of its fact and asserts.\<close>

definition holds_in :: "(bytes \<Rightarrow> bool) \<Rightarrow> bytes set \<Rightarrow> bytes \<Rightarrow> bool" where
  "holds_in vis K k \<longleftrightarrow> k \<in> K \<and> vis k \<and> key_op k \<noteq> RETRACT \<and>
     (\<forall>k' \<in> K. logical_key k' = logical_key k \<and> vis k' \<longrightarrow> k \<le> k')"

lemma live_list_iff:
  "sorted_wrt (<) ks \<Longrightarrow> versioned (set ks) \<Longrightarrow> x \<in> set (live_list vis ks) \<longleftrightarrow> holds_in vis (set ks) x"
proof (induction vis ks rule: live_list.induct)
  case (1 vis)
  then show ?case by (simp add: holds_in_def)
next
  case (2 vis k ks)
  have so: "sorted_wrt (<) ks" "\<forall>y \<in> set ks. k < y" using 2(3) by auto
  have v: "versioned (set ks)" using 2(4) by (rule versioned_subset) auto
  show ?case
  proof (cases "vis k")
    case False
    then show ?thesis using 2(1) so v by (auto simp: holds_in_def)
  next
    case True
    let ?d = "dropWhile (prefix (logical_key k)) ks"
    have dk: "set ?d \<subseteq> set ks" by (auto dest: set_dropWhileD)
    have IH: "x \<in> set (live_list vis ?d) \<longleftrightarrow> holds_in vis (set ?d) x"
      using 2(2) True so(1) v dk by (simp add: sorted_dropWhile versioned_subset)
    obtain n where n: "next_prefix (logical_key k) = Some n"
      using versioned_next [OF 2(4), of k] by auto
    have group: "y \<in> set ?d \<longleftrightarrow> logical_key y \<noteq> logical_key k" if "y \<in> set ks" for y
    proof
      assume "y \<in> set ?d"
      from group_contiguous [OF n 2(3) this] show "logical_key y \<noteq> logical_key k"
        using logical_key_prefix [of y] by auto
    next
      assume "logical_key y \<noteq> logical_key k"
      then have "\<not> prefix (logical_key k) y" using versionedD [OF 2(4), of k y] that by auto
      then have "y \<notin> set (takeWhile (prefix (logical_key k)) ks)" by (auto dest: set_takeWhileD)
      moreover have "set ks = set (takeWhile (prefix (logical_key k)) ks) \<union> set ?d"
        by (metis set_append takeWhile_dropWhile_id)
      ultimately show "y \<in> set ?d" using that by blast
    qed
    have "holds_in vis (set (k # ks)) x \<longleftrightarrow>
        x = k \<and> key_op k \<noteq> RETRACT \<or> holds_in vis (set ?d) x"
    proof
      assume h: "holds_in vis (set (k # ks)) x"
      show "x = k \<and> key_op k \<noteq> RETRACT \<or> holds_in vis (set ?d) x"
      proof (cases "x = k")
        case False
        then have x: "x \<in> set ks" "k < x" using h so(2) by (auto simp: holds_in_def)
        then have "logical_key x \<noteq> logical_key k" using h True by (auto simp: holds_in_def)
        then show ?thesis using h x group dk by (auto simp: holds_in_def)
      qed (use h in \<open>auto simp: holds_in_def\<close>)
    next
      assume "x = k \<and> key_op k \<noteq> RETRACT \<or> holds_in vis (set ?d) x"
      then show "holds_in vis (set (k # ks)) x"
      proof
        assume "x = k \<and> key_op k \<noteq> RETRACT"
        then show ?thesis using True so(2) by (auto simp: holds_in_def less_imp_le)
      next
        assume h: "holds_in vis (set ?d) x"
        then have "x \<in> set ks" "logical_key x \<noteq> logical_key k"
          using dk group by (auto simp: holds_in_def)
        then show ?thesis using h group by (auto simp: holds_in_def)
      qed
    qed
    then show ?thesis using IH True by (simp add: Let_def)
  qed
qed

section \<open>The first fact that holds under a prefix\<close>

primrec find_live_loop ::
  "('db, 'it) slate_ops \<Rightarrow> nat \<Rightarrow> 'it slate_key_iterator \<Rightarrow> bytes \<Rightarrow>
     (bytes option \<times> 'it slate_key_iterator) result" where
  "find_live_loop ops 0 iter p = Error OutOfFuel"
| "find_live_loop ops (Suc n) iter p =
     (case ski_peek iter of
        None \<Rightarrow> Ok (None, iter)
      | Some key \<Rightarrow>
          if \<not> prefix p key then Ok (None, iter)
          else if length key < TX_EID_OP_SUFFIX
          then Error (Panic ''Key too short to contain tx_eid + op suffix'')
          else if key ! (length key - 1) \<noteq> RETRACT then Ok (Some key, iter)
          else
            (case next_prefix (take (length key - TX_EID_OP_SUFFIX) key) of
               None \<Rightarrow> Ok (None, iter)
             | Some next_group \<Rightarrow>
                 rbind (ski_seek ops iter next_group) (\<lambda>iter'. find_live_loop ops n iter' p)))"

definition find_live_key_under_prefix ::
  "('db, 'it) slate_ops \<Rightarrow> nat \<Rightarrow> 'it slate_key_iterator \<Rightarrow> bytes \<Rightarrow>
     (bytes option \<times> 'it slate_key_iterator) result" where
  "find_live_key_under_prefix ops n iter p =
     rbind (ski_seek ops iter p) (\<lambda>iter'. find_live_loop ops n iter' p)"

definition first_of :: "'a list \<Rightarrow> 'a option" where
  "first_of xs = (case xs of [] \<Rightarrow> None | x # _ \<Rightarrow> Some x)"

lemma filter_prefix_Cons_not:
  fixes p :: bytes
  assumes "sorted_wrt (<) (k # ks)" and "p \<le> k" and "\<not> prefix p k"
  shows "filter (prefix p) (k # ks) = []"
proof -
  have "\<not> prefix p x" if "x \<in> set ks" for x
  proof -
    have "k < x" using that assms(1) by simp
    then show ?thesis
      using prefix_range [of p k] prefix_range [of p x] assms(2,3) by (auto split: option.splits)
  qed
  then show ?thesis using assms(3) by (simp add: filter_empty_conv)
qed

lemma filter_dropWhile_group:
  assumes "\<forall>x \<in> set (dropWhile Q ks). \<not> Q x"
  shows "dropWhile Q (filter P ks) = filter P (dropWhile Q ks)"
proof -
  have "filter P ks = filter P (takeWhile Q ks) @ filter P (dropWhile Q ks)"
    by (metis filter_append takeWhile_dropWhile_id)
  moreover have "dropWhile Q (filter P (takeWhile Q ks) @ filter P (dropWhile Q ks)) =
      dropWhile Q (filter P (dropWhile Q ks))"
    by (rule dropWhile_append2) (auto dest: set_takeWhileD)
  moreover have "dropWhile Q (filter P (dropWhile Q ks)) = filter P (dropWhile Q ks)"
    using assms by (cases "filter P (dropWhile Q ks)") (auto simp: filter_eq_Cons_iff)
  ultimately show ?thesis by simp
qed

lemma find_live_loop_ok:
  assumes law: "slate_law ops keys rest lk"
  shows "ski_ok rest lk iter \<Longrightarrow> versioned (set (ski_keys rest iter)) \<Longrightarrow>
    \<forall>k \<in> set (ski_keys rest iter). p \<le> k \<and> (prefix p k \<longrightarrow> prefix p (logical_key k)) \<Longrightarrow>
    length (ski_keys rest iter) < n \<Longrightarrow>
    \<exists>iter'. find_live_loop ops n iter p =
        Ok (first_of (live_list (\<lambda>_. True) (filter (prefix p) (ski_keys rest iter))), iter') \<and>
      ski_ok rest lk iter' \<and> set (ski_keys rest iter') \<subseteq> set (ski_keys rest iter) \<and>
      length (ski_keys rest iter') \<le> length (ski_keys rest iter) \<and>
      (\<forall>k \<in> set (ski_keys rest iter). k \<in> set (ski_keys rest iter') \<or> prefix p k)"
proof (induction n arbitrary: iter)
  case (Suc n)
  show ?case
  proof (cases "ski_keys rest iter")
    case Nil
    then have "ski_peek iter = None" by (simp add: ski_peek_keys [of iter rest])
    then show ?thesis using Suc.prems(1) Nil by (simp add: first_of_def)
  next
    case (Cons k ks)
    have peek: "ski_peek iter = Some k" by (simp add: ski_peek_keys [of iter rest] Cons)
    have so: "sorted_wrt (<) (k # ks)" using Suc.prems(1) Cons by (simp add: ski_ok_def)
    have kK: "k \<in> set (ski_keys rest iter)" by (simp add: Cons)
    have len: "TX_EID_OP_SUFFIX < length k" using Suc.prems(2) kK unfolding versioned_def by blast
    obtain g where g: "next_prefix (logical_key k) = Some g" using versioned_next [OF Suc.prems(2) kK] .
    show ?thesis
    proof (cases "prefix p k")
      case False
      then have "filter (prefix p) (k # ks) = []"
        using filter_prefix_Cons_not [OF so] Suc.prems(3) kK by blast
      then show ?thesis using Suc.prems(1) False Cons by (simp add: peek first_of_def)
    next
      case True
      show ?thesis
      proof (cases "key_op k = RETRACT")
        case False
        then have op: "k ! (length k - 1) \<noteq> RETRACT" by (simp add: key_op_def)
        show ?thesis
          using Suc.prems(1) True Cons len False op
          by (intro exI [of _ iter]) (simp add: peek first_of_def Let_def)
      next
        case retract: True
        have fwd: "l < g" if "ski_current_key iter = None" "lk (ski_inner iter) = Some l" for l
          using peek that by (simp add: ski_peek_def)
        obtain iter1 where s: "ski_seek ops iter g = Ok iter1" "ski_ok rest lk iter1"
          and k1: "ski_keys rest iter1 = dropWhile (\<lambda>y. y < g) (ski_keys rest iter)"
          using ski_seek_ok [OF law Suc.prems(1) fwd] by blast
        have "k < g" using next_prefix_bounds [OF g, of k] logical_key_prefix by blast
        then have d: "ski_keys rest iter1 = dropWhile (prefix (logical_key k)) ks"
          using k1 Cons dropWhile_next_prefix [OF g so] by simp
        have sub: "set (ski_keys rest iter1) \<subseteq> set ks" unfolding d by (auto dest: set_dropWhileD)
        have step: "find_live_loop ops (Suc n) iter p = find_live_loop ops n iter1 p"
          using retract len True g s(1) by (simp add: peek key_op_def logical_key_def)
        have v1: "versioned (set (ski_keys rest iter1))"
          using versioned_subset [OF Suc.prems(2)] sub Cons by auto
        have "\<forall>x \<in> set (dropWhile (prefix (logical_key k)) ks). \<not> prefix (logical_key k) x"
          using group_contiguous [OF g so] by blast
        then have "live_list (\<lambda>_. True) (filter (prefix p) (k # ks)) =
            live_list (\<lambda>_. True) (filter (prefix p) (ski_keys rest iter1))"
          using retract True by (simp add: d filter_dropWhile_group Let_def)
        moreover have kept: "x \<in> set (ski_keys rest iter1) \<or> prefix p x" if "x \<in> set (k # ks)" for x
        proof -
          have "prefix p (logical_key k)" using True Suc.prems(3) kK by blast
          moreover have "set ks = set (takeWhile (prefix (logical_key k)) ks) \<union> set (ski_keys rest iter1)"
            unfolding d by (metis set_append takeWhile_dropWhile_id)
          ultimately show ?thesis
            using that True by (auto dest!: set_takeWhileD intro: prefix_order.trans)
        qed
        moreover have l1: "length (ski_keys rest iter1) \<le> length ks"
          unfolding d by (rule length_dropWhile_le)
        moreover obtain iter' where "find_live_loop ops n iter1 p =
              Ok (first_of (live_list (\<lambda>_. True) (filter (prefix p) (ski_keys rest iter1))), iter')"
          and "ski_ok rest lk iter'" and sub': "set (ski_keys rest iter') \<subseteq> set (ski_keys rest iter1)"
          and "length (ski_keys rest iter') \<le> length (ski_keys rest iter1)"
          and kept': "\<forall>x \<in> set (ski_keys rest iter1). x \<in> set (ski_keys rest iter') \<or> prefix p x"
        proof -
          have "\<forall>k \<in> set (ski_keys rest iter1). p \<le> k \<and> (prefix p k \<longrightarrow> prefix p (logical_key k))"
            using Suc.prems(3) sub unfolding Cons by auto
          moreover have "length (ski_keys rest iter1) < n" using Suc.prems(4) l1 Cons by simp
          ultimately show thesis using Suc.IH [OF s(2) v1] that by blast
        qed
        ultimately show ?thesis
          unfolding step Cons using sub by (intro exI [of _ iter']) auto
      qed
    qed
  qed
qed simp

lemma filter_dropWhile_below: "filter (prefix p) (dropWhile (\<lambda>y. y < p) ks) = filter (prefix p) ks"
  for p :: bytes
proof (induction ks)
  case (Cons k ks)
  have "k < p \<Longrightarrow> \<not> prefix p k" using prefix_imp_le leD by blast
  with Cons show ?case by simp
qed simp

lemma dropWhile_below:
  fixes ks :: "bytes list"
  assumes "sorted_wrt (<) ks"
  shows "\<forall>k \<in> set (dropWhile (\<lambda>y. y < p) ks). p \<le> k"
    and "\<forall>k \<in> set ks. k \<in> set (dropWhile (\<lambda>y. y < p) ks) \<or> k < p"
  using assms by (induction ks) (auto simp: not_less)

lemma find_live_ok:
  assumes law: "slate_law ops keys rest lk" and ok: "ski_ok rest lk iter"
    and v: "versioned (set (ski_keys rest iter))"
    and p: "\<forall>k \<in> set (ski_keys rest iter). prefix p k \<longrightarrow> prefix p (logical_key k)"
    and n: "length (ski_keys rest iter) < n"
    and fwd: "\<And>l. ski_current_key iter = None \<Longrightarrow> lk (ski_inner iter) = Some l \<Longrightarrow> l < p"
  shows "\<exists>iter'. find_live_key_under_prefix ops n iter p =
        Ok (first_of (live_list (\<lambda>_. True) (filter (prefix p) (ski_keys rest iter))), iter') \<and>
      ski_ok rest lk iter' \<and> set (ski_keys rest iter') \<subseteq> set (ski_keys rest iter) \<and>
      length (ski_keys rest iter') \<le> length (ski_keys rest iter) \<and>
      (\<forall>k \<in> set (ski_keys rest iter). k \<in> set (ski_keys rest iter') \<or> k < p \<or> prefix p k)"
proof -
  obtain it where s: "ski_seek ops iter p = Ok it" "ski_ok rest lk it"
    and k: "ski_keys rest it = dropWhile (\<lambda>y. y < p) (ski_keys rest iter)"
    using ski_seek_ok [OF law ok fwd] by blast
  have so: "sorted_wrt (<) (ski_keys rest iter)" using ok by (simp add: ski_ok_def)
  have sub: "set (ski_keys rest it) \<subseteq> set (ski_keys rest iter)" unfolding k by (auto dest: set_dropWhileD)
  have len: "length (ski_keys rest it) \<le> length (ski_keys rest iter)"
    unfolding k by (rule length_dropWhile_le)
  have "\<forall>k \<in> set (ski_keys rest it). p \<le> k \<and> (prefix p k \<longrightarrow> prefix p (logical_key k))"
    using dropWhile_below(1) [OF so, of p] p sub unfolding k by blast
  then obtain iter' where "find_live_loop ops n it p =
        Ok (first_of (live_list (\<lambda>_. True) (filter (prefix p) (ski_keys rest it))), iter')"
      and "ski_ok rest lk iter'" and "set (ski_keys rest iter') \<subseteq> set (ski_keys rest it)"
      and "length (ski_keys rest iter') \<le> length (ski_keys rest it)"
      and "\<forall>k \<in> set (ski_keys rest it). k \<in> set (ski_keys rest iter') \<or> prefix p k"
    using find_live_loop_ok [OF law s(2) versioned_subset [OF v sub], of p n] len n by auto
  moreover have "filter (prefix p) (ski_keys rest it) = filter (prefix p) (ski_keys rest iter)"
    unfolding k by (rule filter_dropWhile_below)
  ultimately show ?thesis
    using s(1) sub len dropWhile_below(2) [OF so, of p] unfolding k [symmetric]
    by (intro exI [of _ iter']) (auto simp: find_live_key_under_prefix_def)
qed

lemma live_list_subset: "set (live_list vis ks) \<subseteq> set ks"
  by (induction vis ks rule: live_list.induct) (auto simp: Let_def dest: set_dropWhileD split: if_splits)

lemma live_list_sorted: "sorted_wrt (<) ks \<Longrightarrow> sorted_wrt (<) (live_list vis ks)"
proof (induction vis ks rule: live_list.induct)
  case (2 vis k ks)
  then show ?case
    using live_list_subset [of vis "dropWhile (prefix (logical_key k)) ks"]
    by (auto simp: Let_def sorted_dropWhile dest: set_dropWhileD)
qed simp

text \<open>The first key of the list is the least key that holds.\<close>

lemma first_live:
  assumes "sorted_wrt (<) ks" and "versioned (set ks)"
  shows "case first_of (live_list vis ks) of
      None \<Rightarrow> \<forall>k. \<not> holds_in vis (set ks) k
    | Some k \<Rightarrow> holds_in vis (set ks) k \<and> (\<forall>k'. holds_in vis (set ks) k' \<longrightarrow> k \<le> k')"
proof (cases "live_list vis ks")
  case Nil
  then have "\<not> holds_in vis (set ks) k" for k using live_list_iff [OF assms, of k vis] by simp
  with Nil show ?thesis by (simp add: first_of_def)
next
  case (Cons k r)
  have "holds_in vis (set ks) k' \<longleftrightarrow> k' \<in> set (k # r)" for k'
    using live_list_iff [OF assms, of k' vis] Cons by simp
  moreover have "sorted_wrt (<) (k # r)" using live_list_sorted [OF assms(1), of vis] Cons by simp
  ultimately show ?thesis using Cons by (auto simp: first_of_def less_imp_le)
qed

section \<open>The trait of iterators\<close>

text \<open>
  What the clients of the trait \<^verbatim>\<open>Index\<close> rely on: an iterator stands at the first of the
  keys it still covers, \<open>get_value\<close> extracts it, and \<open>next\<close> moves on and returns the value it
  moved to.
\<close>

locale index_iter =
  fixes ok :: "'s \<Rightarrow> bool"
    and covers :: "'s \<Rightarrow> bytes list"
    and extr :: "'s \<Rightarrow> bytes \<Rightarrow> bytes result"
    and get_value :: "'s \<Rightarrow> bytes option result"
    and next_value :: "'s \<Rightarrow> (bytes option \<times> 's) result"
    and has_next :: "'s \<Rightarrow> bool"
  assumes get_value_law: "ok s \<Longrightarrow>
      get_value s = (case covers s of [] \<Rightarrow> Ok None | k # _ \<Rightarrow> rbind (extr s k) (\<lambda>v. Ok (Some v)))"
    and has_next_law: "ok s \<Longrightarrow> has_next s \<longleftrightarrow> covers s \<noteq> []"
    and next_law: "ok s \<Longrightarrow> \<exists>s'. ok s' \<and> covers s' = tl (covers s) \<and> extr s' = extr s \<and>
      next_value s = rbind (get_value s') (\<lambda>v. Ok (v, s'))"

text \<open>The loop \<^verbatim>\<open>while let Some(value) = iterator.get_value()?\<close> of the clients, with fuel.\<close>

primrec collect_values ::
  "('s \<Rightarrow> bytes option result) \<Rightarrow> ('s \<Rightarrow> (bytes option \<times> 's) result) \<Rightarrow> nat \<Rightarrow> 's \<Rightarrow>
     bytes list result" where
  "collect_values get nxt 0 s = Error OutOfFuel"
| "collect_values get nxt (Suc n) s =
     rbind (get s) (\<lambda>v. case v of
        None \<Rightarrow> Ok []
      | Some x \<Rightarrow> rbind (nxt s) (\<lambda>(_, s'). rbind (collect_values get nxt n s') (\<lambda>xs. Ok (x # xs))))"

context index_iter
begin

lemma collect_all:
  assumes "ok s" and "\<forall>k \<in> set (covers s). \<exists>v. extr s k = Ok v" and "length (covers s) < n"
  shows "collect_values get_value next_value n s = rmapM (extr s) (covers s)"
  using assms
proof (induction n arbitrary: s)
  case (Suc n)
  show ?case
  proof (cases "covers s")
    case Nil
    then show ?thesis using get_value_law [OF Suc.prems(1)] by simp
  next
    case (Cons k ks)
    obtain v where v: "extr s k = Ok v" using Suc.prems(2) Cons by auto
    obtain s' where s': "ok s'" "covers s' = ks" "extr s' = extr s"
      "next_value s = rbind (get_value s') (\<lambda>v. Ok (v, s'))"
      using next_law [OF Suc.prems(1)] Cons by auto
    obtain w where w: "get_value s' = Ok w"
      using get_value_law [OF s'(1)] s' Suc.prems(2) Cons by (cases ks) auto
    have "collect_values get_value next_value n s' = rmapM (extr s) ks"
      using Suc.IH [OF s'(1)] s' Suc.prems(2,3) Cons by simp
    then show ?thesis
      using get_value_law [OF Suc.prems(1)] Cons v s'(4) w by simp
  qed
qed simp

end

section \<open>SlateIterator\<close>

record 'it slate_iterator =
  si_inner :: 'it
  si_current_key :: "bytes option"
  si_prefix :: bytes
  si_extractor :: "bytes \<Rightarrow> bytes result"

definition si_new ::
  "('db, 'it) slate_ops \<Rightarrow> bytes \<Rightarrow> 'db \<Rightarrow> (bytes \<Rightarrow> bytes result) \<Rightarrow> 'it slate_iterator result" where
  "si_new ops p db extractor =
     rbind (scan_prefix ops db p) (\<lambda>it.
     rbind (it_next ops it) (\<lambda>(k, it').
     Ok \<lparr>si_inner = it', si_current_key = k, si_prefix = p, si_extractor = extractor\<rparr>))"

definition si_seek :: "('db, 'it) slate_ops \<Rightarrow> 'it slate_iterator \<Rightarrow> bytes \<Rightarrow> 'it slate_iterator result" where
  "si_seek ops s extension =
     (let full_key = si_prefix s @ extension
      in if (case si_current_key s of Some current \<Rightarrow> full_key \<le> current | None \<Rightarrow> False) then Ok s
         else rbind (it_seek ops (si_inner s) full_key) (\<lambda>it.
              rbind (it_next ops it) (\<lambda>(k, it').
              Ok (s\<lparr>si_inner := it', si_current_key := k\<rparr>))))"

definition si_get_value :: "'it slate_iterator \<Rightarrow> bytes option result" where
  "si_get_value s =
     (case si_current_key s of
        Some key \<Rightarrow> rbind (si_extractor s key) (\<lambda>v. Ok (Some v))
      | None \<Rightarrow> Ok None)"

definition si_next :: "('db, 'it) slate_ops \<Rightarrow> 'it slate_iterator \<Rightarrow> (bytes option \<times> 'it slate_iterator) result" where
  "si_next ops s =
     rbind (it_next ops (si_inner s)) (\<lambda>(k, it').
     let s' = s\<lparr>si_inner := it', si_current_key := k\<rparr>
     in case k of
          Some key \<Rightarrow> rbind (si_extractor s key) (\<lambda>v. Ok (Some v, s'))
        | None \<Rightarrow> Ok (None, s'))"

definition si_has_next :: "'it slate_iterator \<Rightarrow> bool" where
  "si_has_next s \<longleftrightarrow> si_current_key s \<noteq> None"

definition si_keys :: "('it \<Rightarrow> bytes list) \<Rightarrow> 'it slate_iterator \<Rightarrow> bytes list" where
  "si_keys rest s = (case si_current_key s of None \<Rightarrow> [] | Some k \<Rightarrow> k # rest (si_inner s))"

definition si_ok :: "('it \<Rightarrow> bytes list) \<Rightarrow> 'it slate_iterator \<Rightarrow> bool" where
  "si_ok rest s \<longleftrightarrow> (si_current_key s = None \<longrightarrow> rest (si_inner s) = [])"

lemma si_next_ok:
  assumes "slate_law ops keys rest lk" and "si_ok rest s"
  shows "\<exists>s'. si_ok rest s' \<and> si_keys rest s' = tl (si_keys rest s) \<and>
    si_extractor s' = si_extractor s \<and> si_next ops s = rbind (si_get_value s') (\<lambda>v. Ok (v, s'))"
proof (cases "rest (si_inner s)")
  case Nil
  from slate_next_Nil [OF assms(1) Nil] obtain it' where
    "it_next ops (si_inner s) = Ok (None, it')" "rest it' = []" by blast
  then show ?thesis
    using Nil assms(2)
    by (intro exI [of _ "s\<lparr>si_inner := it', si_current_key := None\<rparr>"])
      (auto simp: si_ok_def si_keys_def si_next_def si_get_value_def split: option.split)
next
  case (Cons k ks)
  from slate_next_Cons [OF assms(1) Cons] obtain it' where
    it: "it_next ops (si_inner s) = Ok (Some k, it')" "rest it' = ks" by blast
  have "si_current_key s \<noteq> None" using Cons assms(2) by (auto simp: si_ok_def)
  then show ?thesis
    using Cons it
    by (intro exI [of _ "s\<lparr>si_inner := it', si_current_key := Some k\<rparr>"])
      (cases "si_extractor s k"; auto simp: si_ok_def si_keys_def si_next_def si_get_value_def)
qed

interpretation si: index_iter "\<lambda>s. slate_law ops keys rest lk \<and> si_ok rest s" "si_keys rest"
  si_extractor si_get_value "si_next ops" si_has_next
  for ops :: "('db, 'it) slate_ops" and keys rest lk
proof
  fix s :: "'it slate_iterator"
  assume ok: "slate_law ops keys rest lk \<and> si_ok rest s"
  show "si_get_value s = (case si_keys rest s of [] \<Rightarrow> Ok None
      | k # _ \<Rightarrow> rbind (si_extractor s k) (\<lambda>v. Ok (Some v)))"
    by (simp add: si_get_value_def si_keys_def split: option.split)
  show "si_has_next s \<longleftrightarrow> si_keys rest s \<noteq> []"
    by (simp add: si_has_next_def si_keys_def split: option.split)
  show "\<exists>s'. (slate_law ops keys rest lk \<and> si_ok rest s') \<and> si_keys rest s' = tl (si_keys rest s) \<and>
      si_extractor s' = si_extractor s \<and> si_next ops s = rbind (si_get_value s') (\<lambda>v. Ok (v, s'))"
    using si_next_ok ok by blast
qed

section \<open>VecIterator\<close>

record vec_iterator =
  vi_vec :: "bytes list"
  vi_index :: nat

definition vi_new :: "bytes list \<Rightarrow> vec_iterator" where
  "vi_new vec = \<lparr>vi_vec = vec, vi_index = 0\<rparr>"

definition vi_count :: "vec_iterator \<Rightarrow> nat" where
  "vi_count s = length (vi_vec s)"

text \<open>
  Binary search gives the position of the key or where it would be inserted; on a sorted
  vector without repetitions that is the number of smaller elements.
\<close>

definition vi_seek :: "vec_iterator \<Rightarrow> bytes \<Rightarrow> vec_iterator" where
  "vi_seek s key = s\<lparr>vi_index := length (takeWhile (\<lambda>x. x < key) (vi_vec s))\<rparr>"

definition vi_next :: "vec_iterator \<Rightarrow> bytes option \<times> vec_iterator" where
  "vi_next s =
     (if vi_index s < length (vi_vec s)
      then (Some (vi_vec s ! vi_index s), s\<lparr>vi_index := vi_index s + 1\<rparr>)
      else (None, s))"

definition vi_get_value :: "vec_iterator \<Rightarrow> bytes option" where
  "vi_get_value s = (if vi_index s < length (vi_vec s) then Some (vi_vec s ! vi_index s) else None)"

definition vi_has_next :: "vec_iterator \<Rightarrow> bool" where
  "vi_has_next s \<longleftrightarrow> vi_index s < length (vi_vec s)"

section \<open>TemporalFilterIterator\<close>

record 'it tfi =
  t_inner :: 'it
  t_current_key :: "bytes option"
  t_prefix :: bytes
  t_extractor :: "bytes \<Rightarrow> bytes result"
  t_as_of :: bytes

definition seek_past_logical_key ::
  "('db, 'it) slate_ops \<Rightarrow> 'it tfi \<Rightarrow> bytes \<Rightarrow> (bool \<times> 'it tfi) result" where
  "seek_past_logical_key ops s key =
     (case next_prefix (logical_key key) of
        Some target \<Rightarrow> rbind (it_seek ops (t_inner s) target) (\<lambda>it. Ok (True, s\<lparr>t_inner := it\<rparr>))
      | None \<Rightarrow> Ok (False, s))"

primrec advance_to_next_valid :: "('db, 'it) slate_ops \<Rightarrow> nat \<Rightarrow> 'it tfi \<Rightarrow> 'it tfi result" where
  "advance_to_next_valid ops 0 s = Error OutOfFuel"
| "advance_to_next_valid ops (Suc n) s =
     rbind (it_next ops (t_inner s)) (\<lambda>(entry, it).
     let s1 = s\<lparr>t_inner := it\<rparr>
     in case entry of
          None \<Rightarrow> Ok (s1\<lparr>t_current_key := None\<rparr>)
        | Some key \<Rightarrow>
            if length key < TX_EID_OP_SUFFIX
            then Error (Panic ''Key too short to contain tx_eid + op suffix'')
            else if t_as_of s \<le> key_ts key then
              (if key_op key = RETRACT then
                 rbind (seek_past_logical_key ops s1 key) (\<lambda>(sought, s2).
                 if \<not> sought then Ok (s2\<lparr>t_current_key := None\<rparr>) else advance_to_next_valid ops n s2)
               else Ok (s1\<lparr>t_current_key := Some key\<rparr>))
            else advance_to_next_valid ops n s1)"

definition tfi_new ::
  "('db, 'it) slate_ops \<Rightarrow> nat \<Rightarrow> bytes \<Rightarrow> 'db \<Rightarrow> (bytes \<Rightarrow> bytes result) \<Rightarrow> i64 \<Rightarrow> 'it tfi result" where
  "tfi_new ops n p db extractor as_of =
     rbind (scan_prefix ops db p) (\<lambda>it.
     advance_to_next_valid ops n
       \<lparr>t_inner = it, t_current_key = None, t_prefix = p, t_extractor = extractor,
        t_as_of = encode_i64_bytes as_of\<rparr>)"

definition advance_past_current_group :: "('db, 'it) slate_ops \<Rightarrow> nat \<Rightarrow> 'it tfi \<Rightarrow> 'it tfi result" where
  "advance_past_current_group ops n s =
     (case t_current_key s of
        None \<Rightarrow> Ok s
      | Some current \<Rightarrow>
          rbind (seek_past_logical_key ops s current) (\<lambda>(sought, s1).
          if \<not> sought then Ok (s1\<lparr>t_current_key := None\<rparr>) else advance_to_next_valid ops n s1))"

definition tfi_seek :: "('db, 'it) slate_ops \<Rightarrow> nat \<Rightarrow> 'it tfi \<Rightarrow> bytes \<Rightarrow> 'it tfi result" where
  "tfi_seek ops n s extension =
     (let full_key = t_prefix s @ extension
      in if (case t_current_key s of Some current \<Rightarrow> full_key \<le> logical_key current | None \<Rightarrow> False)
         then Ok s
         else rbind (it_seek ops (t_inner s) full_key) (\<lambda>it.
              advance_to_next_valid ops n (s\<lparr>t_inner := it\<rparr>)))"

definition tfi_get_value :: "'it tfi \<Rightarrow> bytes option result" where
  "tfi_get_value s =
     (case t_current_key s of
        Some key \<Rightarrow> rbind (t_extractor s key) (\<lambda>v. Ok (Some v))
      | None \<Rightarrow> Ok None)"

definition tfi_next :: "('db, 'it) slate_ops \<Rightarrow> nat \<Rightarrow> 'it tfi \<Rightarrow> (bytes option \<times> 'it tfi) result" where
  "tfi_next ops n s =
     rbind (advance_past_current_group ops n s) (\<lambda>s'.
     case t_current_key s' of
       Some key \<Rightarrow> rbind (t_extractor s' key) (\<lambda>v. Ok (Some v, s'))
     | None \<Rightarrow> Ok (None, s'))"

definition tfi_has_next :: "'it tfi \<Rightarrow> bool" where
  "tfi_has_next s \<longleftrightarrow> t_current_key s \<noteq> None"

text \<open>The facts an iterator still covers, and its invariant.\<close>

abbreviation tfi_vis :: "'it tfi \<Rightarrow> bytes \<Rightarrow> bool" where
  "tfi_vis s \<equiv> (\<lambda>k. t_as_of s \<le> key_ts k)"

definition tfi_all :: "('it \<Rightarrow> bytes list) \<Rightarrow> 'it tfi \<Rightarrow> bytes list" where
  "tfi_all rest s = (case t_current_key s of None \<Rightarrow> [] | Some k \<Rightarrow> k # rest (t_inner s))"

definition tfi_keys :: "('it \<Rightarrow> bytes list) \<Rightarrow> 'it tfi \<Rightarrow> bytes list" where
  "tfi_keys rest s = live_list (tfi_vis s) (tfi_all rest s)"

definition tfi_ok :: "('it \<Rightarrow> bytes list) \<Rightarrow> ('it \<Rightarrow> bytes option) \<Rightarrow> nat \<Rightarrow> 'it tfi \<Rightarrow> bool" where
  "tfi_ok rest lk n s \<longleftrightarrow>
     sorted_wrt (<) (tfi_all rest s) \<and> versioned (set (tfi_all rest s)) \<and> length (tfi_all rest s) < n \<and>
     (case t_current_key s of
        None \<Rightarrow> rest (t_inner s) = []
      | Some k \<Rightarrow> lk (t_inner s) = Some k \<and> tfi_vis s k \<and> key_op k \<noteq> RETRACT)"

definition same_view :: "'it tfi \<Rightarrow> 'it tfi \<Rightarrow> bool" where
  "same_view s s' \<longleftrightarrow> t_prefix s' = t_prefix s \<and> t_extractor s' = t_extractor s \<and> t_as_of s' = t_as_of s"

lemma same_view_trans: "same_view s s1 \<Longrightarrow> same_view s1 s2 \<Longrightarrow> same_view s s2"
  by (simp add: same_view_def)

lemma same_view_update: "same_view (s\<lparr>t_inner := it\<rparr>) s' \<longleftrightarrow> same_view s s'"
  by (simp add: same_view_def)

lemma seek_past_ok:
  assumes law: "slate_law ops keys rest lk" and lk: "lk (t_inner s) = Some k"
    and so: "sorted_wrt (<) (k # rest (t_inner s))" and v: "versioned (set (k # rest (t_inner s)))"
  obtains it where "seek_past_logical_key ops s k = Ok (True, s\<lparr>t_inner := it\<rparr>)"
    and "rest it = dropWhile (prefix (logical_key k)) (rest (t_inner s))"
proof -
  obtain g where g: "next_prefix (logical_key k) = Some g" using versioned_next [OF v] by auto
  have "k < g" using next_prefix_bounds [OF g, of k] logical_key_prefix by blast
  then obtain it where "it_seek ops (t_inner s) g = Ok it"
    "rest it = dropWhile (\<lambda>x. x < g) (rest (t_inner s))"
    using slate_seek [OF law, of "t_inner s" g] lk by auto
  then show thesis
    using that [of it] dropWhile_next_prefix [OF g so] g by (simp add: seek_past_logical_key_def)
qed

lemma advance_ok:
  assumes law: "slate_law ops keys rest lk"
  shows "sorted_wrt (<) (rest (t_inner s)) \<Longrightarrow> versioned (set (rest (t_inner s))) \<Longrightarrow>
    length (rest (t_inner s)) < n \<Longrightarrow>
    \<exists>s'. advance_to_next_valid ops n s = Ok s' \<and> tfi_ok rest lk n s' \<and> same_view s s' \<and>
      tfi_keys rest s' = live_list (tfi_vis s) (rest (t_inner s)) \<and>
      set (tfi_all rest s') \<subseteq> set (rest (t_inner s)) \<and>
      length (tfi_all rest s') \<le> length (rest (t_inner s))"
proof (induction n arbitrary: s)
  case (Suc n)
  show ?case
  proof (cases "rest (t_inner s)")
    case Nil
    from slate_next_Nil [OF law Nil] obtain it where
      "it_next ops (t_inner s) = Ok (None, it)" "rest it = []" by blast
    then show ?thesis
      using Nil by (auto simp: tfi_ok_def tfi_all_def tfi_keys_def same_view_def versioned_def)
  next
    case (Cons k ks)
    from slate_next_Cons [OF law Cons] obtain it where
      it: "it_next ops (t_inner s) = Ok (Some k, it)" "rest it = ks" "lk it = Some k" by blast
    let ?s1 = "s\<lparr>t_inner := it\<rparr>"
    have so: "sorted_wrt (<) (k # ks)" and v: "versioned (set (k # ks))" and len: "length ks < n"
      using Suc.prems Cons by simp_all
    have klen: "TX_EID_OP_SUFFIX < length k" using v unfolding versioned_def by auto
    show ?thesis
    proof (cases "tfi_vis s k \<and> key_op k \<noteq> RETRACT")
      case True
      then have "advance_to_next_valid ops (Suc n) s = Ok (?s1\<lparr>t_current_key := Some k\<rparr>)"
        using it klen by simp
      then show ?thesis
        using True Cons so v len it
        by (intro exI [of _ "?s1\<lparr>t_current_key := Some k\<rparr>"])
          (simp add: tfi_ok_def tfi_all_def tfi_keys_def same_view_def Let_def
            del: advance_to_next_valid.simps)
    next
      case False
      obtain s2 where step: "advance_to_next_valid ops (Suc n) s = advance_to_next_valid ops n s2"
        and view: "same_view s s2" and so2: "sorted_wrt (<) (rest (t_inner s2))"
        and sub2: "set (rest (t_inner s2)) \<subseteq> set ks" and len2: "length (rest (t_inner s2)) \<le> length ks"
        and live2: "live_list (tfi_vis s) (k # ks) = live_list (tfi_vis s) (rest (t_inner s2))"
      proof (cases "tfi_vis s k")
        case True
        then have op: "key_op k = RETRACT" using False by simp
        obtain it2 where "seek_past_logical_key ops ?s1 k = Ok (True, ?s1\<lparr>t_inner := it2\<rparr>)"
          "rest it2 = dropWhile (prefix (logical_key k)) ks"
          using seek_past_ok [OF law, of ?s1 k] it so v by auto
        then show thesis
          using that [of "?s1\<lparr>t_inner := it2\<rparr>"] True op it klen so
          by (auto simp: same_view_def sorted_dropWhile length_dropWhile_le dest: set_dropWhileD)
      next
        case False
        then show thesis using that [of ?s1] it klen so by (simp add: same_view_def)
      qed
      have "versioned (set (rest (t_inner s2)))" using versioned_subset [OF v] sub2 by auto
      from Suc.IH [OF so2 this] len len2 obtain s' where
        "advance_to_next_valid ops n s2 = Ok s'" "tfi_ok rest lk n s'" "same_view s2 s'"
        "tfi_keys rest s' = live_list (tfi_vis s2) (rest (t_inner s2))"
        "set (tfi_all rest s') \<subseteq> set (rest (t_inner s2))"
        "length (tfi_all rest s') \<le> length (rest (t_inner s2))" by auto
      moreover have "tfi_vis s2 = tfi_vis s" using view by (simp add: same_view_def)
      ultimately show ?thesis
        using step same_view_trans [OF view] live2 sub2 len2 Cons
        by (intro exI [of _ s']) (auto simp: tfi_ok_def)
    qed
  qed
qed simp

lemma tfi_keys_Some:
  assumes "tfi_ok rest lk n s" and "t_current_key s = Some k"
  shows "tfi_keys rest s = k # live_list (tfi_vis s) (dropWhile (prefix (logical_key k)) (rest (t_inner s)))"
  using assms by (simp add: tfi_ok_def tfi_keys_def tfi_all_def Let_def)

lemma tfi_keys_None: "t_current_key s = None \<Longrightarrow> tfi_keys rest s = []"
  by (simp add: tfi_keys_def tfi_all_def)

lemma tfi_ok_mono: "tfi_ok rest lk m s \<Longrightarrow> length (tfi_all rest s) < n \<Longrightarrow> tfi_ok rest lk n s"
  by (simp add: tfi_ok_def)

lemma advance_inner:
  assumes "slate_law ops keys rest lk" and "sorted_wrt (<) (rest it)" and "versioned (set (rest it))"
    and "length (rest it) < n"
  shows "\<exists>s'. advance_to_next_valid ops n (s\<lparr>t_inner := it\<rparr>) = Ok s' \<and> tfi_ok rest lk n s' \<and>
    same_view s s' \<and> tfi_keys rest s' = live_list (tfi_vis s) (rest it) \<and> set (tfi_all rest s') \<subseteq> set (rest it)"
  using advance_ok [OF assms(1), of "s\<lparr>t_inner := it\<rparr>" n] assms(2-4) by (auto simp: same_view_update)

lemma advance_past_ok:
  assumes law: "slate_law ops keys rest lk" and ok: "tfi_ok rest lk n s"
  shows "\<exists>s'. advance_past_current_group ops n s = Ok s' \<and> tfi_ok rest lk n s' \<and> same_view s s' \<and>
    tfi_keys rest s' = tl (tfi_keys rest s) \<and> set (tfi_all rest s') \<subseteq> set (tfi_all rest s)"
proof (cases "t_current_key s")
  case None
  then show ?thesis
    using ok by (simp add: advance_past_current_group_def tfi_keys_None same_view_def)
next
  case (Some k)
  let ?r = "rest (t_inner s)"
  have so: "sorted_wrt (<) (k # ?r)" and v: "versioned (set (k # ?r))" and len: "length (k # ?r) < n"
    and lk: "lk (t_inner s) = Some k"
    using ok Some by (simp_all add: tfi_ok_def tfi_all_def)
  obtain it where it: "seek_past_logical_key ops s k = Ok (True, s\<lparr>t_inner := it\<rparr>)"
    "rest it = dropWhile (prefix (logical_key k)) ?r"
    using seek_past_ok [OF law lk so v] .
  have sub: "set (rest it) \<subseteq> set (k # ?r)" unfolding it(2) by (auto dest: set_dropWhileD)
  have len': "length (rest it) < n"
    unfolding it(2) using length_dropWhile_le [of "prefix (logical_key k)" ?r] len by simp
  have "sorted_wrt (<) (rest it)" using so unfolding it(2) by (simp add: sorted_dropWhile)
  then obtain s' where "advance_to_next_valid ops n (s\<lparr>t_inner := it\<rparr>) = Ok s'" "tfi_ok rest lk n s'"
    "same_view s s'" "tfi_keys rest s' = live_list (tfi_vis s) (rest it)" "set (tfi_all rest s') \<subseteq> set (rest it)"
    using advance_inner [OF law _ versioned_subset [OF v sub] len'] by blast
  moreover have "set (rest it) \<subseteq> set (tfi_all rest s)" using sub Some by (simp add: tfi_all_def)
  ultimately show ?thesis
    using it Some tfi_keys_Some [OF ok Some] by (simp add: advance_past_current_group_def)
qed

interpretation tfi: index_iter "\<lambda>s. slate_law ops keys rest lk \<and> tfi_ok rest lk n s" "tfi_keys rest"
  t_extractor tfi_get_value "tfi_next ops n" tfi_has_next
  for ops :: "('db, 'it) slate_ops" and keys rest lk n
proof
  fix s :: "'it tfi"
  assume ok: "slate_law ops keys rest lk \<and> tfi_ok rest lk n s"
  show "tfi_get_value s = (case tfi_keys rest s of [] \<Rightarrow> Ok None
      | k # _ \<Rightarrow> rbind (t_extractor s k) (\<lambda>v. Ok (Some v)))"
    using ok tfi_keys_Some [of rest lk n s]
    by (cases "t_current_key s") (auto simp: tfi_get_value_def tfi_keys_None)
  show "tfi_has_next s \<longleftrightarrow> tfi_keys rest s \<noteq> []"
    using ok tfi_keys_Some [of rest lk n s]
    by (cases "t_current_key s") (auto simp: tfi_has_next_def tfi_keys_None)
  obtain s' where s': "advance_past_current_group ops n s = Ok s'" "tfi_ok rest lk n s'" "same_view s s'"
    "tfi_keys rest s' = tl (tfi_keys rest s)"
    using advance_past_ok ok by blast
  have "tfi_next ops n s = rbind (tfi_get_value s') (\<lambda>v. Ok (v, s'))"
    using s'(1)
    by (cases "t_current_key s'"; cases "t_extractor s' (the (t_current_key s'))")
      (auto simp: tfi_next_def tfi_get_value_def)
  then show "\<exists>s'. (slate_law ops keys rest lk \<and> tfi_ok rest lk n s') \<and>
      tfi_keys rest s' = tl (tfi_keys rest s) \<and> t_extractor s' = t_extractor s \<and>
      tfi_next ops n s = rbind (tfi_get_value s') (\<lambda>v. Ok (v, s'))"
    using s' ok unfolding same_view_def by blast
qed

section \<open>Seeking\<close>

lemma between_prefix:
  fixes l f k :: bytes
  shows "prefix l k \<Longrightarrow> l \<le> f \<Longrightarrow> f \<le> k \<Longrightarrow> prefix l f"
  using prefix_range [of l k] prefix_range [of l f] by (auto split: option.splits)

lemma logical_le_iff:
  assumes "\<not> strict_prefix (logical_key k) f"
  shows "f \<le> k \<longleftrightarrow> f \<le> logical_key k"
proof
  assume "f \<le> k"
  show "f \<le> logical_key k"
  proof (rule ccontr)
    assume "\<not> f \<le> logical_key k"
    then have lt: "logical_key k < f" by simp
    then have "prefix (logical_key k) f"
      using between_prefix [OF logical_key_prefix less_imp_le \<open>f \<le> k\<close>] by blast
    then show False using assms lt by (auto simp: strict_prefix_def)
  qed
next
  assume "f \<le> logical_key k"
  then show "f \<le> k" using prefix_imp_le [OF logical_key_prefix, of k] by simp
qed

lemma set_dropWhile_below:
  fixes ks :: "bytes list"
  assumes "sorted_wrt (<) ks"
  shows "set (dropWhile (\<lambda>y. y < f) ks) = {x \<in> set ks. f \<le> x}"
  using assms
proof (induction ks)
  case (Cons k ks)
  then show ?case by (cases "k < f") (auto simp: not_less)
qed simp

text \<open>Facts below a target that does not cut through a fact can be dropped before or after.\<close>

lemma live_list_seek:
  assumes so: "sorted_wrt (<) ks" and v: "versioned (set ks)"
    and f: "\<forall>k \<in> set ks. \<not> strict_prefix (logical_key k) f"
  shows "live_list vis (dropWhile (\<lambda>y. y < f) ks) = filter (\<lambda>k. f \<le> logical_key k) (live_list vis ks)"
proof (rule strict_sorted_equal)
  let ?d = "dropWhile (\<lambda>y. y < f) ks"
  have d: "set ?d = {x \<in> set ks. f \<le> logical_key x}"
    using set_dropWhile_below [OF so, of f] logical_le_iff f by auto
  have "versioned (set ?d)" using versioned_subset [OF v] d by auto
  note L = live_list_iff [OF sorted_dropWhile [OF so] this] and R = live_list_iff [OF so v]
  have "x \<in> set (live_list vis ?d) \<longleftrightarrow> x \<in> set (live_list vis ks) \<and> f \<le> logical_key x" for x
    unfolding L R holds_in_def d by auto
  then show "set (live_list vis ?d) = set (filter (\<lambda>k. f \<le> logical_key k) (live_list vis ks))" by auto
  show "sorted_wrt (<) (filter (\<lambda>k. f \<le> logical_key k) (live_list vis ks))"
    by (rule sorted_wrt_filter [OF live_list_sorted [OF so]])
  show "sorted_wrt (<) (live_list vis ?d)"
    by (rule live_list_sorted [OF sorted_dropWhile [OF so]])
qed

lemma tfi_seek_ok:
  assumes law: "slate_law ops keys rest lk" and ok: "tfi_ok rest lk n s"
    and cur: "t_current_key s = Some k"
    and f: "\<forall>k \<in> set (tfi_all rest s). \<not> strict_prefix (logical_key k) (t_prefix s @ ext)"
  shows "\<exists>s'. tfi_seek ops n s ext = Ok s' \<and> tfi_ok rest lk n s' \<and> same_view s s' \<and>
    tfi_keys rest s' = filter (\<lambda>k. t_prefix s @ ext \<le> logical_key k) (tfi_keys rest s) \<and>
    set (tfi_all rest s') \<subseteq> set (tfi_all rest s)"
proof -
  let ?f = "t_prefix s @ ext" and ?r = "rest (t_inner s)"
  have all: "tfi_all rest s = k # ?r" using cur by (simp add: tfi_all_def)
  have so: "sorted_wrt (<) (k # ?r)" and v: "versioned (set (k # ?r))" and len: "length (k # ?r) < n"
    and lk: "lk (t_inner s) = Some k"
    using ok cur all by (simp_all add: tfi_ok_def)
  have iff: "?f \<le> x \<longleftrightarrow> ?f \<le> logical_key x" if "x \<in> set (k # ?r)" for x
    using logical_le_iff f that all by metis
  have seek: "live_list (tfi_vis s) (dropWhile (\<lambda>y. y < ?f) (k # ?r)) =
      filter (\<lambda>k. ?f \<le> logical_key k) (tfi_keys rest s)"
    using live_list_seek [OF so v] f all by (simp add: tfi_keys_def del: live_list.simps)
  show ?thesis
  proof (cases "?f \<le> logical_key k")
    case True
    then have "dropWhile (\<lambda>y. y < ?f) (k # ?r) = k # ?r" using iff [of k] by simp
    then have "tfi_keys rest s = filter (\<lambda>k. ?f \<le> logical_key k) (tfi_keys rest s)"
      using seek all by (simp add: tfi_keys_def del: live_list.simps dropWhile.simps)
    then show ?thesis using True cur ok by (simp add: tfi_seek_def same_view_def)
  next
    case False
    then have "k < ?f" using iff [of k] by simp
    then obtain it where it: "it_seek ops (t_inner s) ?f = Ok it" "rest it = dropWhile (\<lambda>y. y < ?f) ?r"
      using slate_seek [OF law, of "t_inner s" ?f] lk by auto
    have r: "rest it = dropWhile (\<lambda>y. y < ?f) (k # ?r)" using it \<open>k < ?f\<close> by simp
    have sub: "set (rest it) \<subseteq> set (k # ?r)" unfolding r by (auto dest: set_dropWhileD)
    have "length (rest it) < n"
      unfolding r using length_dropWhile_le [of "\<lambda>y. y < ?f" "k # ?r"] len by linarith
    moreover have "sorted_wrt (<) (rest it)" unfolding r by (rule sorted_dropWhile [OF so])
    ultimately obtain s' where "advance_to_next_valid ops n (s\<lparr>t_inner := it\<rparr>) = Ok s'"
      "tfi_ok rest lk n s'" "same_view s s'" "tfi_keys rest s' = live_list (tfi_vis s) (rest it)"
      "set (tfi_all rest s') \<subseteq> set (rest it)"
      using advance_inner [OF law _ versioned_subset [OF v sub]] by blast
    moreover have "set (rest it) \<subseteq> set (tfi_all rest s)" using sub all by simp
    ultimately show ?thesis using it(1) False cur seek r by (simp add: tfi_seek_def)
  qed
qed

end
