(* ===== verification/Temporal_Props.thy ===== *)
theory Temporal_Props
  imports Temporal
begin

text \<open>
  What reading as of a transaction means on the keys that the indexer writes, and the
  properties of the iterators.
\<close>

section \<open>Facts and their keys\<close>

text \<open>A stored version of a fact: entity, attribute, value, transaction and operation.\<close>

type_synonym version = "entid \<times> i64 \<times> data_type \<times> i64 \<times> u8"

definition version_key :: "index_type \<Rightarrow> version \<Rightarrow> bytes" where
  "version_key it = (\<lambda>(e, a, v, tx, op).
     index_key it (entity_bytes e) (encode_i64_bytes a) (encode_datatype v) (encode_i64_bytes tx) op)"

definition temporal_index :: "index_type \<Rightarrow> bool" where
  "temporal_index it \<longleftrightarrow> it \<in> {EAV_index, AVE_index, AEV_index, VAE_index}"

definition fact_key :: "index_type \<Rightarrow> entid \<Rightarrow> i64 \<Rightarrow> data_type \<Rightarrow> bytes" where
  "fact_key it e a v =
     (case it of
        EAV_index \<Rightarrow> EAV # entity_bytes e @ encode_i64_bytes a @ encode_datatype v
      | AVE_index \<Rightarrow> AVE # encode_i64_bytes a @ encode_datatype v @ entity_bytes e
      | AEV_index \<Rightarrow> AEV # encode_i64_bytes a @ entity_bytes e @ encode_datatype v
      | VAE_index \<Rightarrow> VAE # encode_datatype v @ encode_i64_bytes a @ entity_bytes e
      | _ \<Rightarrow> [])"

lemma version_key_eq:
  "temporal_index it \<Longrightarrow>
     version_key it (e, a, v, tx, op) = fact_key it e a v @ encode_i64_bytes tx @ [op]"
  by (auto simp: temporal_index_def version_key_def index_key_def fact_key_def)

lemma suffix_parts:
  assumes "length t = 8"
  shows "logical_key (l @ t @ [op]) = l" "key_ts (l @ t @ [op]) = t" "key_op (l @ t @ [op]) = op"
  using assms by (simp_all add: logical_key_def key_ts_def key_op_def key_length_defs nth_append)

lemma version_key_parts:
  assumes "temporal_index it"
  shows "logical_key (version_key it (e, a, v, tx, op)) = fact_key it e a v"
    and "key_ts (version_key it (e, a, v, tx, op)) = encode_i64_bytes tx"
    and "key_op (version_key it (e, a, v, tx, op)) = op"
  using assms by (simp_all add: version_key_eq suffix_parts)

lemma encode_i64_bytes_eq_iff: "encode_i64_bytes a @ s = encode_i64_bytes b @ t \<longleftrightarrow> a = b \<and> s = t"
  using i64.enc_append_eq [of a s b t] by (auto simp: encode_i64_def)

lemma entity_bytes_eq_iff: "entity_bytes a @ s = entity_bytes b @ t \<longleftrightarrow> a = b \<and> s = t"
  using i64.enc_append_eq [of a s b t] by (auto simp: entity_bytes_def)

lemma value_append_eq_iff:
  "storable v \<Longrightarrow> storable w \<Longrightarrow> encode_datatype v @ s = encode_datatype w @ t \<longleftrightarrow> v = w \<and> s = t"
  using vals.enc_append_eq [of v w s t] by auto

lemma encode_bytes_inject:
  "encode_i64_bytes a = encode_i64_bytes b \<longleftrightarrow> a = b" "entity_bytes e = entity_bytes f \<longleftrightarrow> e = f"
  using encode_i64_bytes_eq_iff [of a "[]" b "[]"] entity_bytes_eq_iff [of e "[]" f "[]"] by simp_all

lemma fact_key_prefix:
  assumes "temporal_index it" and "storable v" and "storable w"
    and "fact_key it e a v @ s = fact_key it f b w @ t"
  shows "e = f \<and> a = b \<and> v = w \<and> s = t"
  using assms(1,4)
  by (auto simp: temporal_index_def fact_key_def encode_bytes_inject value_append_eq_iff [OF assms(2,3)])

lemma fact_key_eq_iff:
  "temporal_index it \<Longrightarrow> storable v \<Longrightarrow> storable w \<Longrightarrow>
     fact_key it e a v = fact_key it f b w \<longleftrightarrow> e = f \<and> a = b \<and> v = w"
  using fact_key_prefix [of it v w e a "[]" f b "[]"] by auto

lemma fact_key_hd: "temporal_index it \<Longrightarrow> fact_key it e a v \<noteq> [] \<and> hd (fact_key it e a v) < 0xFF"
  by (auto simp: temporal_index_def fact_key_def index_defs)

definition storable_versions :: "version set \<Rightarrow> bool" where
  "storable_versions R \<longleftrightarrow> (\<forall>(e, a, v, tx, op) \<in> R. storable v)"

lemma version_keys_versioned:
  assumes "temporal_index it" and "storable_versions R"
  shows "versioned (version_key it ` R)"
  unfolding versioned_def
proof (intro ballI conjI impI)
  fix k assume "k \<in> version_key it ` R"
  then obtain e a v tx op where k: "k = version_key it (e, a, v, tx, op)" "(e, a, v, tx, op) \<in> R" by auto
  have ke: "k = fact_key it e a v @ encode_i64_bytes tx @ [op]" using k version_key_eq [OF assms(1)] by simp
  show "TX_EID_OP_SUFFIX < length k" "hd k < 0xFF"
    using fact_key_hd [OF assms(1), of e a v] by (simp_all add: ke key_length_defs)
  fix k' assume "k' \<in> version_key it ` R" and p: "prefix (logical_key k) k'"
  then obtain f b w tx' op' where k': "k' = version_key it (f, b, w, tx', op')" "(f, b, w, tx', op') \<in> R"
    by auto
  have st: "storable v" "storable w" using assms(2) k(2) k'(2) by (auto simp: storable_versions_def)
  obtain s where "k' = fact_key it e a v @ s"
    using p k(1) version_key_parts(1) [OF assms(1)] by (auto simp: prefix_def)
  then have "fact_key it e a v @ s = fact_key it f b w @ encode_i64_bytes tx' @ [op']"
    using k'(1) version_key_eq [OF assms(1)] by simp
  then have "e = f \<and> a = b \<and> v = w" using fact_key_prefix [OF assms(1) st] by blast
  then show "logical_key k' = logical_key k"
    using k(1) k'(1) version_key_parts(1) [OF assms(1)] by simp
qed

text \<open>The newest version of a fact that is not later than a transaction, and asserts it.\<close>

definition fact_holds :: "i64 \<Rightarrow> version set \<Rightarrow> version \<Rightarrow> bool" where
  "fact_holds as_of R = (\<lambda>(e, a, v, tx, op).
     (e, a, v, tx, op) \<in> R \<and> sint tx \<le> sint as_of \<and> op \<noteq> RETRACT \<and>
     (\<forall>(e', a', v', tx', op') \<in> R. (e', a', v') = (e, a, v) \<and> sint tx' \<le> sint as_of \<longrightarrow>
        sint tx' < sint tx \<or> tx' = tx \<and> op \<le> op'))"

lemma encode_i64_bytes_le_iff: "encode_i64_bytes a \<le> encode_i64_bytes b \<longleftrightarrow> sint b \<le> sint a"
  using encode_i64_less_iff [of b a] by (auto simp: encode_i64_def not_less [symmetric])

lemma version_key_le_iff:
  assumes "temporal_index it"
  shows "version_key it (e, a, v, tx, op) \<le> version_key it (e, a, v, tx', op') \<longleftrightarrow>
    sint tx' < sint tx \<or> tx' = tx \<and> op \<le> op'"
proof -
  have "version_key it (e, a, v, tx, op) \<le> version_key it (e, a, v, tx', op') \<longleftrightarrow>
      encode_i64_bytes tx @ [op] \<le> encode_i64_bytes tx' @ [op']"
    by (simp add: version_key_eq [OF assms] lex_le_append_same)
  also have "\<dots> \<longleftrightarrow> sint tx' < sint tx \<or> tx' = tx \<and> op \<le> op'"
  proof (cases "tx' = tx")
    case False
    then have ne: "sint tx' \<noteq> sint tx" by (metis signed_word_eqI)
    have "encode_i64_bytes tx @ [op] < encode_i64_bytes tx' @ [op'] \<longleftrightarrow> sint tx' < sint tx"
      using i64.less_enc_append [of tx tx'] i64.less_enc_append [of tx' tx] ne
      by (simp add: encode_i64_def) (metis less_asym' linorder_neq_iff)
    then show ?thesis using False encode_i64_bytes_eq_iff [of tx "[op]" tx' "[op']"] by (auto simp: le_less)
  qed (auto simp: lex_le_append_same)
  finally show ?thesis .
qed

lemma holds_in_version_keys:
  assumes it: "temporal_index it" and R: "storable_versions R" and x: "x \<in> R"
  shows "holds_in (\<lambda>k. encode_i64_bytes as_of \<le> key_ts k) (version_key it ` R) (version_key it x) \<longleftrightarrow>
    fact_holds as_of R x"
proof -
  obtain e a v tx op where xe: "x = (e, a, v, tx, op)" by (cases x)
  have st: "storable v" using R x xe by (auto simp: storable_versions_def)
  have fact: "(logical_key (version_key it y) = logical_key (version_key it x) \<and>
        encode_i64_bytes as_of \<le> key_ts (version_key it y) \<longrightarrow> version_key it x \<le> version_key it y) \<longleftrightarrow>
      (case y of (e', a', v', tx', op') \<Rightarrow> (e', a', v') = (e, a, v) \<and> sint tx' \<le> sint as_of \<longrightarrow>
        sint tx' < sint tx \<or> tx' = tx \<and> op \<le> op')" if "y \<in> R" for y
  proof -
    obtain e' a' v' tx' op' where ye: "y = (e', a', v', tx', op')" by (cases y)
    have "storable v'" using R that ye by (auto simp: storable_versions_def)
    then show ?thesis
      using version_key_le_iff [OF it, of e a v tx op tx' op']
      by (auto simp: xe ye version_key_parts [OF it] fact_key_eq_iff [OF it _ st]
          encode_i64_bytes_le_iff)
  qed
  have "holds_in (\<lambda>k. encode_i64_bytes as_of \<le> key_ts k) (version_key it ` R) (version_key it x) \<longleftrightarrow>
      sint tx \<le> sint as_of \<and> op \<noteq> RETRACT \<and>
      (\<forall>y \<in> R. logical_key (version_key it y) = logical_key (version_key it x) \<and>
        encode_i64_bytes as_of \<le> key_ts (version_key it y) \<longrightarrow> version_key it x \<le> version_key it y)"
    using x by (auto simp: holds_in_def xe version_key_parts [OF it] encode_i64_bytes_le_iff)
  also have "(\<forall>y \<in> R. logical_key (version_key it y) = logical_key (version_key it x) \<and>
        encode_i64_bytes as_of \<le> key_ts (version_key it y) \<longrightarrow> version_key it x \<le> version_key it y) \<longleftrightarrow>
      (\<forall>y \<in> R. case y of (e', a', v', tx', op') \<Rightarrow> (e', a', v') = (e, a, v) \<and> sint tx' \<le> sint as_of \<longrightarrow>
        sint tx' < sint tx \<or> tx' = tx \<and> op \<le> op')"
    by (rule ball_cong [OF refl fact])
  also have "(sint tx \<le> sint as_of \<and> op \<noteq> RETRACT \<and> \<dots>) \<longleftrightarrow> fact_holds as_of R x"
    using x by (simp add: fact_holds_def xe)
  finally show ?thesis .
qed

section \<open>Reading through the iterator\<close>

lemma live_list_set:
  assumes "finite K" and "versioned K"
  shows "live_list vis (sorted_list_of_set K) = sorted_list_of_set {k. holds_in vis K k}"
proof (rule strict_sorted_equal)
  have so: "sorted_wrt (<) (sorted_list_of_set K)" and se: "set (sorted_list_of_set K) = K"
    using assms(1) by simp_all
  have fin: "finite {k. holds_in vis K k}"
    by (rule finite_subset [OF _ assms(1)]) (auto simp: holds_in_def)
  show "sorted_wrt (<) (live_list vis (sorted_list_of_set K))" by (rule live_list_sorted [OF so])
  show "sorted_wrt (<) (sorted_list_of_set {k. holds_in vis K k})" by simp
  show "set (live_list vis (sorted_list_of_set K)) = set (sorted_list_of_set {k. holds_in vis K k})"
    using live_list_iff [OF so, of _ vis] assms(2) se fin by auto
qed

lemma tfi_new_ok:
  assumes law: "slate_law ops keys rest lk" and K: "K = {k \<in> keys db. prefix p k}"
    and v: "versioned K" and n: "card K < n"
  obtains s where "tfi_new ops n p db ext as_of = Ok s" and "tfi_ok rest lk n s"
    and "t_extractor s = ext" and "t_prefix s = p" and "t_as_of s = encode_i64_bytes as_of"
    and "tfi_keys rest s =
      sorted_list_of_set {k. holds_in (\<lambda>k. encode_i64_bytes as_of \<le> key_ts k) K k}"
proof -
  have fin: "finite K" using law K by (simp add: slate_law_def)
  obtain it where it: "scan_prefix ops db p = Ok it" "rest it = sorted_list_of_set K"
    using slate_scan [OF law] K by metis
  let ?s = "\<lparr>t_inner = it, t_current_key = None, t_prefix = p, t_extractor = ext,
    t_as_of = encode_i64_bytes as_of\<rparr>"
  have pre: "sorted_wrt (<) (rest it)" "versioned (set (rest it))" "length (rest it) < n"
    using fin v n by (simp_all add: it)
  obtain s where "advance_to_next_valid ops n ?s = Ok s" "tfi_ok rest lk n s" "same_view ?s s"
    "tfi_keys rest s = live_list (tfi_vis ?s) (rest it)"
    using advance_inner [OF law pre, of ?s] by auto
  then show thesis
    using that [of s] it live_list_set [OF fin v] by (simp add: tfi_new_def same_view_def)
qed

lemma tfi_new_covers:
  assumes "slate_law ops keys rest lk" and "versioned {k \<in> keys db. prefix p k}"
    and "card {k \<in> keys db. prefix p k} < n" and "tfi_new ops n p db ext as_of = Ok s"
  shows "set (tfi_all rest s) \<subseteq> keys db"
proof -
  let ?K = "{k \<in> keys db. prefix p k}"
  have fin: "finite ?K" using assms(1) by (simp add: slate_law_def)
  obtain it where it: "scan_prefix ops db p = Ok it" "rest it = sorted_list_of_set ?K"
    using slate_scan [OF assms(1)] by metis
  let ?s = "\<lparr>t_inner = it, t_current_key = None, t_prefix = p, t_extractor = ext,
    t_as_of = encode_i64_bytes as_of\<rparr>"
  have "advance_to_next_valid ops n ?s = Ok s" using assms(4) it by (simp add: tfi_new_def)
  moreover have "sorted_wrt (<) (rest it)" "versioned (set (rest it))" "length (rest it) < n"
    using fin assms(2,3) by (simp_all add: it)
  ultimately show ?thesis using advance_ok [OF assms(1), of ?s n] fin it(2) by auto
qed

lemma holding_keys:
  assumes "temporal_index it" and "storable_versions R"
  shows "{k. holds_in (\<lambda>k. encode_i64_bytes as_of \<le> key_ts k) (version_key it ` R) k} =
    version_key it ` {x. fact_holds as_of R x}"
proof -
  let ?h = "holds_in (\<lambda>k. encode_i64_bytes as_of \<le> key_ts k) (version_key it ` R)"
  have "?h k \<Longrightarrow> \<exists>x \<in> R. k = version_key it x" for k unfolding holds_in_def by blast
  moreover have "fact_holds as_of R x \<Longrightarrow> x \<in> R" for x by (cases x) (simp add: fact_holds_def)
  ultimately show ?thesis using holds_in_version_keys [OF assms, of _ as_of] by blast
qed

section \<open>Properties\<close>

text \<open>C4: Reading a temporal index as of a transaction yields exactly the facts that hold then:
  over the keys of an index that belong to a prefix, the temporal filter iterator stops, in key
  order, at the newest version not later than the transaction of every fact whose newest such
  version is an assertion, and at nothing else; it ends within the given fuel.\<close>

theorem temporal_read_correct:
  assumes "slate_law ops keys rest lk" and "temporal_index it" and "storable_versions R"
    and "{k \<in> keys db. prefix p k} = version_key it ` R" and "card (version_key it ` R) < n"
    and "\<forall>x \<in> R. \<exists>v. ext (version_key it x) = Ok v"
  shows "\<exists>s. tfi_new ops n p db ext as_of = Ok s \<and>
    collect_values tfi_get_value (tfi_next ops n) n s =
      rmapM ext (sorted_list_of_set (version_key it ` {x. fact_holds as_of R x}))"
proof -
  have v: "versioned (version_key it ` R)" by (rule version_keys_versioned [OF assms(2,3)])
  have fin: "finite (version_key it ` R)" using assms(1) assms(4) [symmetric] by (simp add: slate_law_def)
  obtain s where s: "tfi_new ops n p db ext as_of = Ok s" "tfi_ok rest lk n s" "t_extractor s = ext"
    and k: "tfi_keys rest s = sorted_list_of_set (version_key it ` {x. fact_holds as_of R x})"
    using tfi_new_ok [OF assms(1) assms(4) [symmetric] v assms(5)] holding_keys [OF assms(2,3)] by metis
  have holds: "fact_holds as_of R x \<Longrightarrow> x \<in> R" for x by (cases x) (simp add: fact_holds_def)
  have sub: "version_key it ` {x. fact_holds as_of R x} \<subseteq> version_key it ` R" using holds by blast
  then have fin': "finite (version_key it ` {x. fact_holds as_of R x})" using fin finite_subset by blast
  have "length (tfi_keys rest s) < n"
    unfolding k using card_mono [OF fin sub] assms(5) by simp
  moreover have "\<forall>k \<in> set (tfi_keys rest s). \<exists>v. t_extractor s k = Ok v"
    unfolding k s(3) using fin' assms(6) holds by auto
  ultimately have "collect_values tfi_get_value (tfi_next ops n) n s = rmapM ext (tfi_keys rest s)"
    using tfi.collect_all [of ops keys rest lk n s n] assms(1) s by simp
  then show ?thesis using s(1) k by auto
qed

definition sample_versions :: "version set" where
  "sample_versions = {(1, 2, DLong 3, 4, ADD), (1, 2, DLong 3, 6, RETRACT)}"

theorem temporal_read_correct_witness:
  "\<exists>s. tfi_new list_slate 3 [EAV]
      [version_key EAV_index (1, 2, DLong 3, 4, ADD), version_key EAV_index (1, 2, DLong 3, 6, RETRACT)]
      Ok 5 = Ok s \<and>
    collect_values tfi_get_value (tfi_next list_slate 3) 3 s =
      Ok [version_key EAV_index (1, 2, DLong 3, 4, ADD)]"
proof -
  let ?k = "version_key EAV_index (1, 2, DLong 3, 4, ADD)"
    and ?l = "version_key EAV_index (1, 2, DLong 3, 6, RETRACT)"
  have keys: "{k \<in> set [?k, ?l]. prefix [EAV] k} = version_key EAV_index ` sample_versions"
    by (auto simp: sample_versions_def version_key_def index_key_def)
  have st: "storable_versions sample_versions"
    by (simp add: sample_versions_def storable_versions_def)
  have "card (version_key EAV_index ` sample_versions) \<le> card sample_versions"
    by (rule card_image_le) (simp add: sample_versions_def)
  also have "\<dots> < 3" by (simp add: sample_versions_def card_insert_if)
  finally have card: "card (version_key EAV_index ` sample_versions) < 3" .
  have holds: "{x. fact_holds 5 sample_versions x} = {(1, 2, DLong 3, 4, ADD)}"
    by (auto simp: fact_holds_def sample_versions_def index_defs)
  show ?thesis
    using temporal_read_correct [OF list_slate_law _ st keys card, of Ok 5] unfolding holds
    by (simp add: temporal_index_def)
qed



text \<open>The two implementations of the iterator trait disagree on \<open>next\<close>: the iterator over a
  vector returns the element it stood at before moving, so what it returns is not the value it
  stands at afterwards, while the iterators over the store return the value they moved to.\<close>

theorem vec_iterator_next_disagrees:
  assumes "distinct (vi_vec s)" and "vi_has_next s"
  shows "fst (vi_next s) = vi_get_value s \<and> fst (vi_next s) \<noteq> vi_get_value (snd (vi_next s))"
  using assms by (auto simp: vi_next_def vi_get_value_def vi_has_next_def nth_eq_iff_index_eq)

theorem vec_iterator_next_disagrees_witness:
  "fst (vi_next (vi_new [[1], [2]])) \<noteq> vi_get_value (snd (vi_next (vi_new [[1], [2]])))"
proof -
  have "distinct (vi_vec (vi_new [[1], [2]]))" "vi_has_next (vi_new [[1], [2]])"
    by (simp_all add: vi_new_def vi_has_next_def)
  from vec_iterator_next_disagrees [OF this] show ?thesis by blast
qed

end
