(* ===== verification/Live_Scan.thy ===== *)
theory Live_Scan
  imports Temporal_Props
begin

text \<open>
  Forward scans over several prefixes. The resolution of unique values (\<^verbatim>\<open>src/tx.rs\<close>) and the
  search for replaced values (\<^verbatim>\<open>src/indexer.rs\<close>) both walk one iterator over a sorted list of
  prefixes and look for the first fact that holds under each; they stop early when the iterator
  is exhausted. \<open>live_scan\<close> is that loop over what is done with a key that is found, and
  \<open>live_scan_ok\<close> says that it looks under every prefix.
\<close>

section \<open>Facts that hold now\<close>

lemma sint_i64_MAX: "sint (tx :: i64) \<le> sint i64_MAX"
  using sint_bounds_i64 [of tx] by (simp add: i64_MAX_def)

lemma holds_in_cong:
  "(\<And>k. k \<in> K \<Longrightarrow> vis k = vis' k) \<Longrightarrow> holds_in vis K k = holds_in vis' K k"
  by (auto simp: holds_in_def)

lemma holds_now:
  assumes "temporal_index it" and "storable_versions R" and "x \<in> R"
  shows "holds_in (\<lambda>_. True) (version_key it ` R) (version_key it x) \<longleftrightarrow> fact_holds i64_MAX R x"
proof -
  have "encode_i64_bytes i64_MAX \<le> key_ts k" if "k \<in> version_key it ` R" for k
    using that sint_i64_MAX by (auto simp: version_key_parts [OF assms(1)] encode_i64_bytes_le_iff)
  then show ?thesis
    using holds_in_cong [of "version_key it ` R" "\<lambda>_. True" "\<lambda>k. encode_i64_bytes i64_MAX \<le> key_ts k"]
      holds_in_version_keys [OF assms, of i64_MAX] by simp
qed

lemma fact_holds_filter:
  assumes "P (e, a, v)" 
  shows "fact_holds T {(e, a, v, tx, op) \<in> R. P (e, a, v)} (e, a, v, tx, op) \<longleftrightarrow>
    fact_holds T R (e, a, v, tx, op)"
  using assms by (auto simp: fact_holds_def)

text \<open>The first fact that holds under a prefix that selects some of the facts.\<close>

lemma first_live_facts:
  assumes it: "temporal_index it" and R: "storable_versions R" and so: "sorted_wrt (<) K"
    and K: "set K = version_key it ` R"
    and Q: "\<And>e a v tx op. (e, a, v, tx, op) \<in> R \<Longrightarrow> prefix p (version_key it (e, a, v, tx, op)) \<longleftrightarrow> Q (e, a, v)"
  shows "case first_of (live_list (\<lambda>_. True) (filter (prefix p) K)) of
      None \<Rightarrow> \<forall>e a v tx op. Q (e, a, v) \<longrightarrow> \<not> fact_holds i64_MAX R (e, a, v, tx, op)
    | Some key \<Rightarrow> \<exists>e a v tx op. key = version_key it (e, a, v, tx, op) \<and> (e, a, v, tx, op) \<in> R \<and> Q (e, a, v) \<and>
        fact_holds i64_MAX R (e, a, v, tx, op)"
proof -
  let ?R = "{(e, a, v, tx, op) \<in> R. Q (e, a, v)}"
  let ?K = "filter (prefix p) K"
  have R': "storable_versions ?R" using R by (auto simp: storable_versions_def)
  have K': "set ?K = version_key it ` ?R" using K Q by auto
  have now: "holds_in (\<lambda>_. True) (set ?K) (version_key it x) \<longleftrightarrow> fact_holds i64_MAX ?R x" if "x \<in> ?R" for x
    unfolding K' by (rule holds_now [OF it R' that])
  note first = first_live [of ?K "\<lambda>_. True", OF sorted_wrt_filter [OF so]
      version_keys_versioned [OF it R', folded K']]
  show ?thesis
  proof (cases "first_of (live_list (\<lambda>_. True) ?K)")
    case None
    then have none: "\<not> holds_in (\<lambda>_. True) (set ?K) k" for k using first by simp
    have "\<not> fact_holds i64_MAX R (e, a, v, tx, op)" if q: "Q (e, a, v)" for e a v tx op
    proof
      assume h: "fact_holds i64_MAX R (e, a, v, tx, op)"
      then have "(e, a, v, tx, op) \<in> ?R" using q by (simp add: fact_holds_def)
      then show False using now [of "(e, a, v, tx, op)"] none h fact_holds_filter [of Q, OF q] by blast
    qed
    with None show ?thesis by simp
  next
    case (Some key)
    then have h: "holds_in (\<lambda>_. True) (set ?K) key" using first by simp
    then have "key \<in> version_key it ` ?R" unfolding K' [symmetric] by (simp add: holds_in_def)
    then obtain e a v tx op where k: "key = version_key it (e, a, v, tx, op)" "(e, a, v, tx, op) \<in> ?R"
      by auto
    then have q: "Q (e, a, v)" by simp
    have "fact_holds i64_MAX R (e, a, v, tx, op)"
      using now [OF k(2)] h k(1) fact_holds_filter [of Q, OF q] by blast
    then show ?thesis using Some k by (simp del: split_paired_Ex) blast
  qed
qed

section \<open>The scan\<close>

primrec live_scan ::
  "('db, 'it) slate_ops \<Rightarrow> nat \<Rightarrow> ('x \<Rightarrow> bytes \<Rightarrow> 's \<Rightarrow> 's result) \<Rightarrow> (bytes \<times> 'x) list \<Rightarrow>
     'it slate_key_iterator \<Rightarrow> 's \<Rightarrow> 's result" where
  "live_scan ops n h [] iter acc = Ok acc"
| "live_scan ops n h (x # ps) iter acc =
     rbind (find_live_key_under_prefix ops n iter (fst x)) (\<lambda>(r, iter').
     case r of
       Some key \<Rightarrow> rbind (h (snd x) key acc) (live_scan ops n h ps iter')
     | None \<Rightarrow> if ski_peek iter' = None then Ok acc else live_scan ops n h ps iter' acc)"

definition live_step :: "('x \<Rightarrow> bytes \<Rightarrow> 's \<Rightarrow> 's result) \<Rightarrow> bytes list \<Rightarrow> 's \<Rightarrow> bytes \<times> 'x \<Rightarrow> 's result" where
  "live_step h K acc x =
     (case first_of (live_list (\<lambda>_. True) (filter (prefix (fst x)) K)) of
        None \<Rightarrow> Ok acc
      | Some key \<Rightarrow> h (snd x) key acc)"

lemma filter_prefix_kept:
  fixes K :: "bytes list"
  assumes "sorted_wrt (<) K" and "sorted_wrt (<) K'" and "set K' \<subseteq> set K"
    and "\<forall>k \<in> set K. k \<in> set K' \<or> k < p \<or> prefix p k" and "p < q" and "\<not> prefix p q"
  shows "filter (prefix q) K' = filter (prefix q) K"
proof (rule strict_sorted_equal)
  show "sorted_wrt (<) (filter (prefix q) K)" "sorted_wrt (<) (filter (prefix q) K')"
    using assms(1,2) by (simp_all add: sorted_wrt_filter)
  have "k \<in> set K'" if "k \<in> set K" "prefix q k" for k
  proof -
    have "\<not> k < p" using prefix_imp_le [OF that(2)] assms(5) by simp
    moreover have "\<not> prefix p k"
      using that(2) assms(5,6) prefix_same_cases [of p k q] prefix_imp_le [of q p] by auto
    ultimately show ?thesis using assms(4) that(1) by blast
  qed
  then show "set (filter (prefix q) K') = set (filter (prefix q) K)" using assms(3) by auto
qed

lemma find_live_loop_peek:
  "find_live_loop ops n iter p = Ok (Some k, iter') \<Longrightarrow> ski_peek iter' = Some k"
proof (induction n arbitrary: iter)
  case (Suc n)
  then show ?case by (auto split: option.splits if_splits)
qed simp

lemma find_live_peek:
  "find_live_key_under_prefix ops n iter p = Ok (Some k, iter') \<Longrightarrow> ski_peek iter' = Some k"
  by (auto simp: find_live_key_under_prefix_def find_live_loop_peek)

lemma rfold_skip: "(\<And>x acc. x \<in> set xs \<Longrightarrow> f acc x = Ok acc) \<Longrightarrow> rfold f acc xs = Ok acc"
  by (induction xs arbitrary: acc) auto

text \<open>Prefixes of a scan: none extends another, and they select whole facts.\<close>

definition scan_prefixes :: "bytes list \<Rightarrow> bytes list \<Rightarrow> bool" where
  "scan_prefixes K ps \<longleftrightarrow> sorted_wrt (<) ps \<and> (\<forall>p \<in> set ps. \<forall>q \<in> set ps. prefix p q \<longrightarrow> p = q) \<and>
     (\<forall>p \<in> set ps. \<forall>k \<in> set K. prefix p k \<longrightarrow> prefix p (logical_key k))"

lemma live_scan_ok:
  assumes law: "slate_law ops keys rest lk" and so: "sorted_wrt (<) K"
    and ver: "versioned (set K)" and n: "length K < n"
  shows "ski_ok rest lk iter \<Longrightarrow> set (ski_keys rest iter) \<subseteq> set K \<Longrightarrow>
    length (ski_keys rest iter) \<le> length K \<Longrightarrow>
    (ski_peek iter = None \<longrightarrow> lk (ski_inner iter) = None) \<Longrightarrow> scan_prefixes K (map fst ps) \<Longrightarrow>
    \<forall>p \<in> fst ` set ps. filter (prefix p) (ski_keys rest iter) = filter (prefix p) K \<Longrightarrow>
    live_scan ops n h ps iter acc = rfold (live_step h K) acc ps"
proof (induction ps arbitrary: iter acc)
  case (Cons x ps)
  let ?p = "fst x"
  have fil: "filter (prefix ?p) (ski_keys rest iter) = filter (prefix ?p) K" using Cons.prems(6) by simp
  have ext: "\<forall>k \<in> set (ski_keys rest iter). prefix ?p k \<longrightarrow> prefix ?p (logical_key k)"
    using Cons.prems(2,5) by (auto simp: scan_prefixes_def)
  obtain iter' where f: "find_live_key_under_prefix ops n iter ?p =
        Ok (first_of (live_list (\<lambda>_. True) (filter (prefix ?p) K)), iter')"
    and it: "ski_ok rest lk iter'" "set (ski_keys rest iter') \<subseteq> set (ski_keys rest iter)"
      "length (ski_keys rest iter') \<le> length (ski_keys rest iter)"
    and kept: "\<forall>k \<in> set (ski_keys rest iter). k \<in> set (ski_keys rest iter') \<or> k < ?p \<or> prefix ?p k"
    using find_live_ok [OF law Cons.prems(1) versioned_subset [OF ver Cons.prems(2)] ext, of n]
      Cons.prems(3,4) n fil by (auto simp: ski_peek_def)
  have keep: "filter (prefix q) (ski_keys rest iter') = filter (prefix q) K" if q: "q \<in> fst ` set ps" for q
  proof -
    have "?p < q" "\<not> prefix ?p q" using Cons.prems(5) q by (fastforce simp: scan_prefixes_def)+
    then have "filter (prefix q) (ski_keys rest iter') = filter (prefix q) (ski_keys rest iter)"
      using it(1,2) Cons.prems(1) kept by (intro filter_prefix_kept [of _ _ ?p]) (simp_all add: ski_ok_def)
    then show ?thesis using Cons.prems(6) q by simp
  qed
  have ps: "scan_prefixes K (map fst ps)" using Cons.prems(5) by (simp add: scan_prefixes_def)
  note IH = Cons.IH [OF it(1) order_trans [OF it(2) Cons.prems(2)] le_trans [OF it(3) Cons.prems(3)] _ ps]
  show ?case
  proof (cases "first_of (live_list (\<lambda>_. True) (filter (prefix ?p) K))")
    case (Some key)
    have "ski_peek iter' = None \<longrightarrow> lk (ski_inner iter') = None" using find_live_peek [OF f [unfolded Some]] by simp
    note IH [OF this] 
    then have "live_scan ops n h ps iter' = (\<lambda>acc. rfold (live_step h K) acc ps)" using keep by blast
    then show ?thesis using f Some by (simp add: live_step_def [of h K acc x])
  next
    case None
    show ?thesis
    proof (cases "ski_peek iter' = None")
      case True
      then have "ski_keys rest iter' = []" by (simp add: ski_peek_keys [of iter' rest] split: list.splits)
      then have "rfold (live_step h K) acc ps = Ok acc"
        using keep by (intro rfold_skip) (simp add: live_step_def first_of_def)
      then show ?thesis using f None True by (simp add: live_step_def [of h K acc x])
    next
      case False
      then have "ski_peek iter' = None \<longrightarrow> lk (ski_inner iter') = None" by blast
      note IH [OF this]
      then have "live_scan ops n h ps iter' acc = rfold (live_step h K) acc ps" using keep by blast
      then show ?thesis using f None False by (auto simp: live_step_def [of h K acc x])
    qed
  qed
qed simp

text \<open>A scan from the start of an index that holds the versions of some facts.\<close>

lemma live_scan_index:
  assumes law: "slate_law ops keys rest lk" and it: "temporal_index it" and R: "storable_versions R"
    and db: "{k \<in> keys db. prefix [ib] k} = version_key it ` R" and n: "card (version_key it ` R) < n"
    and ps: "scan_prefixes (sorted_list_of_set (version_key it ` R)) (map fst ps)"
  shows "rbind (ski_scan_prefix ops db [ib]) (\<lambda>iter. live_scan ops n h ps iter acc) =
    rfold (live_step h (sorted_list_of_set (version_key it ` R))) acc ps"
proof -
  let ?K = "sorted_list_of_set (version_key it ` R)"
  have fin: "finite (version_key it ` R)"
    using law db [symmetric] by (simp add: slate_law_def)
  obtain iter where i: "ski_scan_prefix ops db [ib] = Ok iter" "ski_ok rest lk iter"
    and k: "ski_keys rest iter = ?K" and e: "ski_keys rest iter = [] \<longrightarrow> lk (ski_inner iter) = None"
    using ski_scan_ok [OF law, of db "[ib]"] unfolding db by (metis (no_types))
  have "live_scan ops n h ps iter acc = rfold (live_step h ?K) acc ps"
  proof (rule live_scan_ok [OF law _ _ _ i(2) _ _ _ ps])
    show "ski_peek iter = None \<longrightarrow> lk (ski_inner iter) = None"
      using e by (auto simp: ski_peek_keys [of iter rest] split: list.splits)
  qed (use fin n k version_keys_versioned [OF it R] in \<open>simp_all add: strict_sorted_list_of_set\<close>)
  then show ?thesis using i(1) by simp
qed

text \<open>A fold that records what it finds in a map.\<close>

lemma rfold_updates:
  assumes "\<And>acc x. x \<in> set ps \<Longrightarrow> f acc x = Ok (case g x of None \<Rightarrow> acc | Some y \<Rightarrow> acc(k x \<mapsto> y))"
    and "distinct (map k ps)"
  shows "\<exists>res. rfold f acc ps = Ok res \<and>
    (\<forall>x \<in> set ps. res (k x) = (case g x of None \<Rightarrow> acc (k x) | Some y \<Rightarrow> Some y)) \<and>
    (\<forall>l. l \<notin> k ` set ps \<longrightarrow> res l = acc l)"
  using assms
proof (induction ps arbitrary: acc)
  case (Cons x ps)
  let ?a = "case g x of None \<Rightarrow> acc | Some y \<Rightarrow> acc(k x \<mapsto> y)"
  obtain res where r: "rfold f ?a ps = Ok res"
    and in_ps: "\<forall>x \<in> set ps. res (k x) = (case g x of None \<Rightarrow> ?a (k x) | Some y \<Rightarrow> Some y)"
    and out: "\<forall>l. l \<notin> k ` set ps \<longrightarrow> res l = ?a l"
    using Cons.IH [of ?a] Cons.prems by auto
  have "?a (k y) = acc (k y)" if "y \<in> set ps" for y
    using Cons.prems(2) imageI [OF that, of k] by (auto split: option.split)
  moreover have "k x \<notin> k ` set ps" using Cons.prems(2) by simp
  ultimately show ?case
    using r in_ps out Cons.prems(1) by (intro exI [of _ res]) (auto split: option.splits)
qed simp

end
