(* ===== verification/Tx.thy ===== *)
theory Tx
  imports Schema Live_Scan
begin

text \<open>
  Expansion of transactions, \<^verbatim>\<open>src/tx.rs\<close>: operations become datoms, names become
  identifiers, lookup references are resolved through the index of unique values, entities to
  retract are read back, and explicit identifiers are checked against the counters.
  The record of store operations, the calendar of instants and the fuel of loops over the
  store are arguments.
\<close>

section \<open>Stages of a datom\<close>

datatype entity_expanded = EEId entid | EETempId string | EELookupRef entid data_type
datatype value_expanded = VEData data_type | VETempRef string | VELookupRef entid data_type

record datom_expanded =
  x_entity :: entity_expanded
  x_attribute :: keyword
  x_value :: value_expanded
  x_op :: datom_op

datatype id_or_tempid = ITId entid | ITTempId string
datatype value_with_tempids = VTData data_type | VTTempRef string

record datom_with_tempids =
  w_entity :: id_or_tempid
  w_attribute :: keyword
  w_value :: value_with_tempids
  w_op :: datom_op

section \<open>Names and references\<close>

definition resolve_entity_ref :: "schema \<Rightarrow> entity_ref \<Rightarrow> entity_expanded result" where
  "resolve_entity_ref s eref =
     (case eref of
        ERId eid \<Rightarrow> Ok (EEId eid)
      | ERTempId t \<Rightarrow> Ok (EETempId t)
      | ERIdent k \<Rightarrow> rbind (ok_or (ident_map s k) ''Unknown ident'') (\<lambda>eid. Ok (EEId eid))
      | ERLookupRef k dt \<Rightarrow>
          rbind (ok_or (ident_map s k) ''Unknown attribute in lookup ref'') (\<lambda>attr_eid.
          Ok (EELookupRef attr_eid dt)))"

definition expand_retract_entity_ref :: "schema \<Rightarrow> entity_ref \<Rightarrow> entity_expanded result" where
  "expand_retract_entity_ref s eref =
     (case eref of
        ERId eid \<Rightarrow> Ok (EEId eid)
      | ERLookupRef k v \<Rightarrow>
          rbind (ok_or (ident_map s k) ''Unknown attribute in lookup ref'') (\<lambda>attr_eid.
          Ok (EELookupRef attr_eid v))
      | ERIdent _ \<Rightarrow> Error (Err ''RetractEntity does not support ident entity references'')
      | ERTempId _ \<Rightarrow> Error (Err ''RetractEntity does not support tempid entity references''))"

definition resolve_db_id :: "schema \<Rightarrow> data_type \<Rightarrow> entity_expanded result" where
  "resolve_db_id s val =
     (let other = Error (Err '':db/id must be Long, String, Keyword, or [Keyword, Value] lookup ref'')
      in case val of
        DLong eid \<Rightarrow> Ok (EEId eid)
      | DString t \<Rightarrow> Ok (EETempId t)
      | DKeyword k \<Rightarrow> rbind (ok_or (ident_map s k) ''Unknown ident for :db/id'') (\<lambda>eid. Ok (EEId eid))
      | DVector v \<Rightarrow>
          if length v = 2 then
            (case v ! 0 of
               DKeyword k \<Rightarrow>
                 rbind (ok_or (ident_map s k) ''Unknown attribute in :db/id lookup ref'') (\<lambda>attr_eid.
                 Ok (EELookupRef attr_eid (v ! 1)))
             | _ \<Rightarrow> Error (Err '':db/id lookup ref must be [Keyword, Value]''))
          else other
      | _ \<Rightarrow> other)"

definition is_ref_attribute :: "schema \<Rightarrow> keyword \<Rightarrow> bool" where
  "is_ref_attribute s attr =
     (case get_attribute s attr of Some (_, a) \<Rightarrow> a_value_type a = VT_Ref | None \<Rightarrow> False)"

definition resolve_value :: "schema \<Rightarrow> data_type \<Rightarrow> keyword \<Rightarrow> value_expanded result" where
  "resolve_value s val attr =
     (if is_ref_attribute s attr then
        (let other = Error (Err ''Invalid value for ref-typed attribute'')
         in case val of
           DLong eid \<Rightarrow> Ok (VEData (DLong eid))
         | DKeyword k \<Rightarrow>
             rbind (ok_or (ident_map s k) ''Unknown ident in ref value position'') (\<lambda>eid.
             Ok (VEData (DLong eid)))
         | DString t \<Rightarrow> Ok (VETempRef t)
         | DVector v \<Rightarrow>
             if length v = 2 then
               (case v ! 0 of
                  DKeyword k \<Rightarrow>
                    rbind (ok_or (ident_map s k) ''Unknown attribute in lookup ref'') (\<lambda>attr_eid.
                    Ok (VELookupRef attr_eid (v ! 1)))
                | _ \<Rightarrow> Error (Err ''Lookup ref must be [Keyword, Value]''))
             else other
         | _ \<Rightarrow> other)
      else Ok (VEData val))"

section \<open>Operations to datoms\<close>

fun show_nat :: "nat \<Rightarrow> string" where
  "show_nat n = (if n < 10 then [char_of (48 + n)] else show_nat (n div 10) @ [char_of (48 + n mod 10)])"

declare show_nat.simps [simp del]

definition show_i64 :: "i64 \<Rightarrow> string" where
  "show_i64 x = (if sint x < 0 then ''-'' @ show_nat (nat (- sint x)) else show_nat (nat (sint x)))"

definition auto_tempid :: "nat \<Rightarrow> string" where
  "auto_tempid n = ''__auto_'' @ show_nat n"

type_synonym expansion = "datom_expanded list \<times> entity_expanded list \<times> nat"

definition expand_op :: "schema \<Rightarrow> expansion \<Rightarrow> tx_op \<Rightarrow> expansion result" where
  "expand_op s = (\<lambda>(datoms, retract_entities, auto_counter) op.
     case op of
       Put m \<Rightarrow>
         rbind (case map_of m (kw ''db'' ''id'') of
                  Some val \<Rightarrow> rbind (resolve_db_id s val) (\<lambda>e. Ok (e, auto_counter))
                | None \<Rightarrow> Ok (EETempId (auto_tempid auto_counter), auto_counter + 1)) (\<lambda>(entity, counter).
         rbind (rmapM (\<lambda>(attr, value).
                  rbind (resolve_value s value attr) (\<lambda>v.
                  Ok \<lparr>x_entity = entity, x_attribute = attr, x_value = v, x_op = Assert_op\<rparr>))
                  (filter (\<lambda>(k, _). k \<noteq> kw ''db'' ''id'') m)) (\<lambda>ds.
         Ok (datoms @ ds, retract_entities, counter)))
     | Add entity attr value \<Rightarrow>
         rbind (resolve_entity_ref s entity) (\<lambda>e.
         rbind (resolve_value s value attr) (\<lambda>v.
         Ok (datoms @ [\<lparr>x_entity = e, x_attribute = attr, x_value = v, x_op = Assert_op\<rparr>],
             retract_entities, auto_counter)))
     | Retract entity attr value \<Rightarrow>
         rbind (resolve_entity_ref s entity) (\<lambda>e.
         rbind (resolve_value s value attr) (\<lambda>v.
         Ok (datoms @ [\<lparr>x_entity = e, x_attribute = attr, x_value = v, x_op = Retract_op\<rparr>],
             retract_entities, auto_counter)))
     | RetractEntity entity \<Rightarrow>
         rbind (expand_retract_entity_ref s entity) (\<lambda>e.
         Ok (datoms, retract_entities @ [e], auto_counter))
     | Erase _ \<Rightarrow> Error (Err ''Erase not yet implemented''))"

definition expand_tx_ops_unresolved ::
  "schema \<Rightarrow> tx_op list \<Rightarrow> (datom_expanded list \<times> entity_expanded list) result" where
  "expand_tx_ops_unresolved s ops =
     rbind (rfold (expand_op s) ([], [], 0) ops) (\<lambda>(datoms, retract_entities, _).
     Ok (datoms, retract_entities))"

section \<open>Unique values\<close>

definition unique_vae_prefix :: "entid \<Rightarrow> data_type \<Rightarrow> bytes" where
  "unique_vae_prefix attr_eid value =
     concat_bytes [[VAE], encode_datatype value, encode_i64_bytes attr_eid]"

definition validate_unique_identity_lookup :: "schema \<Rightarrow> entid \<Rightarrow> data_type \<Rightarrow> unit result" where
  "validate_unique_identity_lookup s attr_eid value =
     rbind (ok_or (attribute_map s attr_eid) ''Unknown lookup ref attribute entid'') (\<lambda>attr.
     if a_unique attr \<noteq> Some U_Identity
     then Error (Err ''Lookup ref attribute must be :db.unique/identity'')
     else if \<not> vt_matches (a_value_type attr) value
     then Error (Err ''Lookup ref value does not match attribute type'')
     else Ok ())"

type_synonym unique_lookup = "entid \<times> data_type"

text \<open>A hash map from lookups: a value that is not equal to itself is never found.\<close>

definition lookup_get :: "(unique_lookup \<rightharpoonup> entid) \<Rightarrow> unique_lookup \<Rightarrow> entid option" where
  "lookup_get m l = (if dt_refl (snd l) then m l else None)"

primrec batch_lookup_loop ::
  "('db, 'it) slate_ops \<Rightarrow> nat \<Rightarrow> timestamp_opt \<Rightarrow> (bytes \<times> unique_lookup) list \<Rightarrow>
     'it slate_key_iterator \<Rightarrow> (unique_lookup \<rightharpoonup> entid) \<Rightarrow> (unique_lookup \<rightharpoonup> entid) result" where
  "batch_lookup_loop ops n ts [] iter resolved = Ok resolved"
| "batch_lookup_loop ops n ts (x # ps) iter resolved =
     rbind (find_live_key_under_prefix ops n iter (fst x)) (\<lambda>(r, iter').
     case r of
       Some key \<Rightarrow>
         rbind (vae_key_to_parts ts key) (\<lambda>(_, _, entity, _, _).
         case entity of
           DLong eid \<Rightarrow> batch_lookup_loop ops n ts ps iter' (resolved(snd x \<mapsto> eid))
         | _ \<Rightarrow> Error (Err ''Expected Long entity ID in VAE key''))
     | None \<Rightarrow>
         if ski_peek iter' = None then Ok resolved
         else batch_lookup_loop ops n ts ps iter' resolved)"

definition lookup_prefixes :: "unique_lookup list \<Rightarrow> (bytes \<times> unique_lookup) list" where
  "lookup_prefixes lookups = bt_of (map (\<lambda>(a, v). (unique_vae_prefix a v, (a, v))) lookups)"

definition batch_lookup_unique_eids ::
  "('db, 'it) slate_ops \<Rightarrow> nat \<Rightarrow> timestamp_opt \<Rightarrow> 'db \<Rightarrow> unique_lookup list \<Rightarrow>
     (unique_lookup \<rightharpoonup> entid) result" where
  "batch_lookup_unique_eids ops n ts db lookups =
     (let prefixes = lookup_prefixes lookups
      in if prefixes = [] then Ok Map.empty
         else rbind (ski_scan_prefix ops db [VAE]) (\<lambda>iter.
              batch_lookup_loop ops n ts prefixes iter Map.empty))"

section \<open>Datoms of entities to retract\<close>

text \<open>The loop over one entity; \<open>None\<close> for the iterator says that the whole scan is over.\<close>

primrec entity_datoms_loop ::
  "('db, 'it) slate_ops \<Rightarrow> timestamp_opt \<Rightarrow> schema \<Rightarrow> nat \<Rightarrow> bytes \<Rightarrow> entid \<Rightarrow>
     'it slate_key_iterator \<Rightarrow> datom_with_tempids list \<Rightarrow>
     (datom_with_tempids list \<times> 'it slate_key_iterator option) result" where
  "entity_datoms_loop ops ts s 0 p expected iter datoms = Error OutOfFuel"
| "entity_datoms_loop ops ts s (Suc n) p expected iter datoms =
     (case ski_peek iter of
        None \<Rightarrow> Ok (datoms, Some iter)
      | Some key \<Rightarrow>
          if \<not> prefix p key then Ok (datoms, Some iter)
          else if length key < TX_EID_OP_SUFFIX
          then Error (Err ''EAV key too short to contain tx_eid and op'')
          else
            rbind (if key ! (length key - 1) = ADD then
                     rbind (eav_key_to_parts ts key) (\<lambda>(entity, attribute_id, value, _, _).
                     if \<not> dt_eq entity (DLong expected)
                     then Error (Err ''Expected another entity in EAV entity-retraction scan'')
                     else rbind (ok_or (get_ident s attribute_id) ''Unknown attribute entity id'') (\<lambda>attr.
                          Ok (datoms @ [\<lparr>w_entity = ITId expected, w_attribute = attr,
                            w_value = VTData value, w_op = Retract_op\<rparr>])))
                   else if key ! (length key - 1) = RETRACT then Ok datoms
                   else Error (Err ''Unknown EAV operation byte'')) (\<lambda>datoms'.
            case next_prefix (take (length key - TX_EID_OP_SUFFIX) key) of
              None \<Rightarrow> Ok (datoms', None)
            | Some next_group \<Rightarrow>
                rbind (ski_seek ops iter next_group) (\<lambda>iter'.
                entity_datoms_loop ops ts s n p expected iter' datoms')))"

primrec active_datoms_loop ::
  "('db, 'it) slate_ops \<Rightarrow> timestamp_opt \<Rightarrow> schema \<Rightarrow> nat \<Rightarrow> (bytes \<times> entid) list \<Rightarrow>
     'it slate_key_iterator \<Rightarrow> datom_with_tempids list \<Rightarrow> datom_with_tempids list result" where
  "active_datoms_loop ops ts s n [] iter datoms = Ok datoms"
| "active_datoms_loop ops ts s n (x # ps) iter datoms =
     rbind (ski_seek ops iter (fst x)) (\<lambda>iter1.
     rbind (entity_datoms_loop ops ts s n (fst x) (snd x) iter1 datoms) (\<lambda>(datoms', cont).
     case cont of
       None \<Rightarrow> Ok datoms'
     | Some iter2 \<Rightarrow> active_datoms_loop ops ts s n ps iter2 datoms'))"

definition batch_lookup_active_entity_datoms ::
  "('db, 'it) slate_ops \<Rightarrow> nat \<Rightarrow> timestamp_opt \<Rightarrow> 'db \<Rightarrow> schema \<Rightarrow> entid list \<Rightarrow>
     datom_with_tempids list result" where
  "batch_lookup_active_entity_datoms ops n ts db s entity_ids =
     (let prefixes = bt_of (map (\<lambda>e. (concat_bytes [[EAV], encode (DLong e)], e)) entity_ids)
      in if prefixes = [] then Ok []
         else rbind (ski_scan_prefix ops db [EAV]) (\<lambda>iter.
              active_datoms_loop ops ts s n prefixes iter []))"

section \<open>Lookup references\<close>

definition datom_lookups :: "datom_expanded \<Rightarrow> unique_lookup list" where
  "datom_lookups d =
     (case x_entity d of EELookupRef a v \<Rightarrow> [(a, v)] | _ \<Rightarrow> []) @
     (case x_value d of VELookupRef a v \<Rightarrow> [(a, v)] | _ \<Rightarrow> [])"

definition entity_lookups :: "entity_expanded \<Rightarrow> unique_lookup list" where
  "entity_lookups e = (case e of EELookupRef a v \<Rightarrow> [(a, v)] | _ \<Rightarrow> [])"

definition all_lookups :: "datom_expanded list \<Rightarrow> entity_expanded list \<Rightarrow> unique_lookup list" where
  "all_lookups datoms retract_entities =
     concat (map datom_lookups datoms) @ concat (map entity_lookups retract_entities)"

definition resolved_ref :: "(unique_lookup \<rightharpoonup> entid) \<Rightarrow> entid \<Rightarrow> data_type \<Rightarrow> entid result" where
  "resolved_ref m a v = ok_or (lookup_get m (a, v)) ''No entity found for lookup ref''"

definition resolve_datom_refs ::
  "(unique_lookup \<rightharpoonup> entid) \<Rightarrow> datom_expanded \<Rightarrow> datom_with_tempids result" where
  "resolve_datom_refs m d =
     rbind (case x_entity d of
              EEId eid \<Rightarrow> Ok (ITId eid)
            | EETempId t \<Rightarrow> Ok (ITTempId t)
            | EELookupRef a v \<Rightarrow> rbind (resolved_ref m a v) (\<lambda>eid. Ok (ITId eid))) (\<lambda>entity.
     rbind (case x_value d of
              VEData v \<Rightarrow> Ok (VTData v)
            | VETempRef t \<Rightarrow> Ok (VTTempRef t)
            | VELookupRef a v \<Rightarrow> rbind (resolved_ref m a v) (\<lambda>eid. Ok (VTData (DLong eid)))) (\<lambda>value.
     Ok \<lparr>w_entity = entity, w_attribute = x_attribute d, w_value = value, w_op = x_op d\<rparr>))"

definition resolve_retract_entity :: "(unique_lookup \<rightharpoonup> entid) \<Rightarrow> entity_expanded \<Rightarrow> entid result" where
  "resolve_retract_entity m e =
     (case e of
        EEId eid \<Rightarrow> Ok eid
      | EELookupRef a v \<Rightarrow> resolved_ref m a v
      | EETempId _ \<Rightarrow> Error (Err ''RetractEntity does not support tempid entity references''))"

definition resolve_lookup_refs ::
  "('db, 'it) slate_ops \<Rightarrow> nat \<Rightarrow> timestamp_opt \<Rightarrow> 'db \<Rightarrow> schema \<Rightarrow> datom_expanded list \<Rightarrow>
     entity_expanded list \<Rightarrow> (datom_with_tempids list \<times> entid list) result" where
  "resolve_lookup_refs ops n ts db s datoms retract_entities =
     (let lookups = all_lookups datoms retract_entities
      in rbind (rmapM (\<lambda>(a, v). validate_unique_identity_lookup s a v) lookups) (\<lambda>_.
         rbind (batch_lookup_unique_eids ops n ts db lookups) (\<lambda>resolved_map.
         rbind (rmapM (resolve_datom_refs resolved_map) datoms) (\<lambda>ds.
         rbind (rmapM (resolve_retract_entity resolved_map) retract_entities) (\<lambda>es.
         Ok (ds, es))))))"

definition validate_retract_entity_partition :: "entid \<Rightarrow> unit result" where
  "validate_retract_entity_partition entity =
     (if extract_partition entity = DB_PARTITION
      then Error (Err ''Cannot retract entity from the schema partition'')
      else if extract_partition entity = TX_PARTITION
      then Error (Err ''Cannot retract entity from the transaction partition'')
      else Ok ())"

definition expand_tx_ops ::
  "('db, 'it) slate_ops \<Rightarrow> nat \<Rightarrow> timestamp_opt \<Rightarrow> 'db \<Rightarrow> schema \<Rightarrow> tx_op list \<Rightarrow>
     datom_with_tempids list result" where
  "expand_tx_ops ops n ts db s tx_ops =
     rbind (expand_tx_ops_unresolved s tx_ops) (\<lambda>(datoms, retract_entities).
     rbind (resolve_lookup_refs ops n ts db s datoms retract_entities) (\<lambda>(datoms', retract_ids).
     rbind (rmapM validate_retract_entity_partition retract_ids) (\<lambda>_.
     rbind (batch_lookup_active_entity_datoms ops n ts db s
              (remdups_adj (sort_key sint retract_ids))) (\<lambda>retractions.
     Ok (datoms' @ retractions)))))"

definition validate_allocated_datom :: "schema \<Rightarrow> partition_map \<Rightarrow> datom_with_tempids \<Rightarrow> unit result" where
  "validate_allocated_datom s pm d =
     rbind (ok_or (get_attribute s (w_attribute d)) ''Unknown attribute'') (\<lambda>(_, attr).
     rbind (case w_entity d of
              ITId eid \<Rightarrow> ensure (contains_entid pm eid) ''unallocated entity id''
            | _ \<Rightarrow> Ok ()) (\<lambda>_.
     if a_value_type attr = VT_Ref then
       (case w_value d of
          VTData (DLong eid) \<Rightarrow> ensure (contains_entid pm eid) ''unallocated entity id''
        | _ \<Rightarrow> Ok ())
     else Ok ()))"

definition validate_allocated_entity_ids ::
  "datom_with_tempids list \<Rightarrow> schema \<Rightarrow> partition_map \<Rightarrow> unit result" where
  "validate_allocated_entity_ids datoms s pm =
     rbind (rmapM (validate_allocated_datom s pm) datoms) (\<lambda>_. Ok ())"

section \<open>The persisted outcome of a transaction\<close>

datatype tx_outcome = Committed | Aborted string | Failed string

record tx_completion =
  c_tx_key :: tx_key
  c_outcome :: tx_outcome

primrec find_tx_entity_loop ::
  "('db, 'it) slate_ops \<Rightarrow> timestamp_opt \<Rightarrow> nat \<Rightarrow> 'it \<Rightarrow> entid option result" where
  "find_tx_entity_loop ops ts 0 it = Error OutOfFuel"
| "find_tx_entity_loop ops ts (Suc n) it =
     rbind (it_next ops it) (\<lambda>(kv, it').
     case kv of
       None \<Rightarrow> Ok None
     | Some key \<Rightarrow>
         rbind (ave_key_to_parts ts key) (\<lambda>(_, _, entity, _, op).
         if op = RETRACT then find_tx_entity_loop ops ts n it'
         else case entity of
                DLong eid \<Rightarrow> Ok (Some eid)
              | _ \<Rightarrow> Error (Err ''Expected Long entity ID in AVE key'')))"

primrec tx_result_loop ::
  "('db, 'it) slate_ops \<Rightarrow> timestamp_opt \<Rightarrow> nat \<Rightarrow> 'it \<Rightarrow> i64 option \<Rightarrow> string option \<Rightarrow>
     (i64 option \<times> string option) result" where
  "tx_result_loop ops ts 0 it tx_result tx_error = Error OutOfFuel"
| "tx_result_loop ops ts (Suc n) it tx_result tx_error =
     rbind (it_next ops it) (\<lambda>(kv, it').
     case kv of
       None \<Rightarrow> Ok (tx_result, tx_error)
     | Some key \<Rightarrow>
         rbind (eav_key_to_parts ts key) (\<lambda>(_, attr, value, _, op).
         if op = RETRACT then tx_result_loop ops ts n it' tx_result tx_error
         else
           (let r = (if attr = DB_TX_RESULT then (case value of DLong x \<Rightarrow> Some x | _ \<Rightarrow> tx_result)
                     else tx_result);
                e = (if attr = DB_TX_ERROR then (case value of DString x \<Rightarrow> Some x | _ \<Rightarrow> tx_error)
                     else tx_error)
            in tx_result_loop ops ts n it' r e)))"

definition lookup_tx_completion ::
  "('db, 'it) slate_ops \<Rightarrow> nat \<Rightarrow> timestamp_opt \<Rightarrow> 'db \<Rightarrow> tx_key \<Rightarrow> tx_completion option result" where
  "lookup_tx_completion ops n ts db key =
     rbind (scan_prefix ops db
       (concat_bytes [[AVE], encode_i64_bytes DB_TX_ID, encode_datatype (DLong (tx_id key))])) (\<lambda>it.
     rbind (find_tx_entity_loop ops ts n it) (\<lambda>found.
     case found of
       None \<Rightarrow> Ok None
     | Some tx_eid \<Rightarrow>
         rbind (scan_prefix ops db (concat_bytes [[EAV], encode_datatype (DLong tx_eid)])) (\<lambda>it2.
         rbind (tx_result_loop ops ts n it2 None None) (\<lambda>(tx_result, tx_error).
         case tx_result of
           None \<Rightarrow> Error (Err ''Tx entity missing :db/txResult'')
         | Some r \<Rightarrow>
             if r = DB_TX_COMMITTED then Ok (Some \<lparr>c_tx_key = key, c_outcome = Committed\<rparr>)
             else if r = DB_TX_ABORTED
             then Ok (Some \<lparr>c_tx_key = key,
                    c_outcome = Aborted (case tx_error of Some e \<Rightarrow> e
                      | None \<Rightarrow> ''Transaction '' @ show_i64 (tx_id key) @ '' aborted'')\<rparr>)
             else Error (Err ''Tx entity has unknown :db/txResult'')))))"

section \<open>Resolving unique values\<close>

lemma unique_vae_prefix_eq: "unique_vae_prefix a v = VAE # encode_datatype v @ encode_i64_bytes a"
  by (simp add: unique_vae_prefix_def concat_bytes_def)

lemma unique_vae_prefix_free:
  assumes "storable v" and "storable w" and "prefix (unique_vae_prefix a v) (unique_vae_prefix b w @ s)"
  shows "a = b \<and> v = w"
proof -
  obtain r where "encode_datatype v @ encode_i64_bytes a @ r = encode_datatype w @ encode_i64_bytes b @ s"
    using assms(3) by (auto simp: unique_vae_prefix_eq prefix_def)
  then show ?thesis
    using value_append_eq_iff [OF assms(1,2)] encode_i64_bytes_eq_iff by metis
qed

lemma prefix_version_vae:
  assumes "storable v" and "storable w"
  shows "prefix (unique_vae_prefix a v) (version_key VAE_index (e, b, w, tx, op)) \<longleftrightarrow> a = b \<and> v = w"
proof -
  have k: "version_key VAE_index (e, b, w, tx, op) =
      unique_vae_prefix b w @ entity_bytes e @ encode_i64_bytes tx @ [op]"
    by (simp add: version_key_def index_key_def unique_vae_prefix_eq)
  show ?thesis using unique_vae_prefix_free [OF assms] unfolding k by auto
qed

lemma vae_parts:
  assumes "timestamp_law ts okt" and "dt_wf okt v"
  shows "vae_key_to_parts ts (version_key VAE_index (e, a, v, tx, op)) = Ok (v, a, DLong e, tx, op)"
proof -
  have "dt_wf okt (DLong e)" by simp
  from key_to_parts_mk(4) [OF assms(1) this assms(2)] show ?thesis
    by (simp add: mk_vae_def version_key_def entity_bytes_def)
qed

text \<open>The entity a set of versions gives for a lookup: that of the first fact that holds.\<close>

definition fact_entity :: "version set \<Rightarrow> unique_lookup \<Rightarrow> entid option \<Rightarrow> bool" where
  "fact_entity R l r \<longleftrightarrow>
     (case r of
        None \<Rightarrow> \<not> (\<exists>e tx op. fact_holds i64_MAX R (e, fst l, snd l, tx, op))
      | Some e \<Rightarrow> \<exists>tx op. fact_holds i64_MAX R (e, fst l, snd l, tx, op))"

lemma bt_of_values: "set (bt_of kvs) \<subseteq> set kvs"
proof -
  have ins: "set (bt_insert k v m) \<subseteq> insert (k, v) (set m)" for k :: 'a and v :: 'b and m
    by (induction k v m rule: bt_insert.induct) auto
  have "set (fold (\<lambda>(k, v). bt_insert k v) kvs m) \<subseteq> set kvs \<union> set m" for m :: "('a \<times> 'b) list"
  proof (induction kvs arbitrary: m)
    case (Cons x kvs)
    then show ?case using ins [of "fst x" "snd x" m] by (cases x) force
  qed simp
  from this [of "[]"] show ?thesis by (simp add: bt_of_def)
qed

lemma bt_of_keys: "fst ` set (bt_of kvs) = fst ` set kvs"
proof -
  have "fst ` set (fold (\<lambda>(k, v). bt_insert k v) kvs m) = fst ` set kvs \<union> fst ` set m"
    for m :: "('a \<times> 'b) list"
  proof (induction kvs arbitrary: m)
    case (Cons x kvs)
    then show ?case by (cases x) (simp add: bt_insert_keys)
  qed simp
  from this [of "[]"] show ?thesis by (simp add: bt_of_def)
qed

lemma lookup_prefixes_set:
  assumes "\<forall>(a, v) \<in> set lookups. storable v"
  shows "set (lookup_prefixes lookups) = (\<lambda>l. (unique_vae_prefix (fst l) (snd l), l)) ` set lookups"
proof -
  let ?f = "\<lambda>l. (unique_vae_prefix (fst l) (snd l), l)"
  let ?kvs = "map ?f lookups"
  have e: "lookup_prefixes lookups = bt_of ?kvs" by (simp add: lookup_prefixes_def case_prod_unfold)
  have "?f l \<in> set (bt_of ?kvs)" if l: "l \<in> set lookups" for l
  proof -
    have "fst (?f l) \<in> fst ` set (bt_of ?kvs)" unfolding bt_of_keys using l by force
    then obtain k where k: "k \<in> set (bt_of ?kvs)" "fst (?f l) = fst k" by (rule imageE) (rule that)
    then obtain m where m: "m \<in> set lookups" "k = ?f m" using bt_of_values [of ?kvs] by auto
    have "storable (snd m)" "storable (snd l)" using assms m(1) l by auto
    then have "m = l"
      using unique_vae_prefix_free [of "snd m" "snd l" "fst m" "fst l" "[]"] k(2) m(2)
      by (simp add: prod_eq_iff)
    then show ?thesis using k(1) m(2) by simp
  qed
  then show ?thesis unfolding e using bt_of_values [of ?kvs] by auto
qed

definition lookup_key :: "timestamp_opt \<Rightarrow> unique_lookup \<Rightarrow> bytes \<Rightarrow> (unique_lookup \<rightharpoonup> entid) \<Rightarrow> (unique_lookup \<rightharpoonup> entid) result" where
  "lookup_key ts l key resolved =
     rbind (vae_key_to_parts ts key) (\<lambda>(_, _, entity, _, _).
     case entity of
       DLong eid \<Rightarrow> Ok (resolved(l \<mapsto> eid))
     | _ \<Rightarrow> Error (Err ''Expected Long entity ID in VAE key''))"

lemma batch_lookup_loop_scan: "batch_lookup_loop ops n ts ps iter = live_scan ops n (lookup_key ts) ps iter"
proof (rule ext)
  fix acc
  show "batch_lookup_loop ops n ts ps iter acc = live_scan ops n (lookup_key ts) ps iter acc"
  proof (induction ps arbitrary: iter acc)
    case (Cons x ps)
    show ?case
      by (auto simp: Cons.IH lookup_key_def rbind_def split: sum.split option.split data_type.split)
  qed simp
qed

lemma lookup_prefixes_scan:
  assumes "storable_versions R" and "\<forall>(a, v) \<in> set lookups. storable v" and "set K = version_key VAE_index ` R"
  shows "scan_prefixes K (map fst (lookup_prefixes lookups))"
proof -
  have so: "sorted_wrt (<) (map fst (lookup_prefixes lookups))" unfolding lookup_prefixes_def by (rule bt_of_wf)
  have ps: "set (map fst (lookup_prefixes lookups)) = (\<lambda>(a, v). unique_vae_prefix a v) ` set lookups"
    using lookup_prefixes_set [OF assms(2)] by (simp add: image_image case_prod_unfold)
  have free: "unique_vae_prefix a v = unique_vae_prefix b w"
    if "(a, v) \<in> set lookups" "(b, w) \<in> set lookups" "prefix (unique_vae_prefix a v) (unique_vae_prefix b w)" for a v b w
    using unique_vae_prefix_free [of v w a b "[]"] that assms(2) by auto
  have whole: "prefix (unique_vae_prefix a v) (logical_key (version_key VAE_index (e, b, w, tx, op)))"
    if "(a, v) \<in> set lookups" "(e, b, w, tx, op) \<in> R" "prefix (unique_vae_prefix a v) (version_key VAE_index (e, b, w, tx, op))"
    for a v e b w tx op
  proof -
    have "storable v" "storable w" using that(1,2) assms(1,2) by (auto simp: storable_versions_def)
    then have "a = b \<and> v = w" using prefix_version_vae [of v w a e b tx op] that(3) by blast
    then show ?thesis by (simp add: version_key_parts temporal_index_def unique_vae_prefix_eq fact_key_def)
  qed
  show ?thesis unfolding scan_prefixes_def ps assms(3) using so free whole by auto
qed

lemma batch_lookup_ok:
  assumes "slate_law ops keys rest lk" and "timestamp_law ts okt"
    and "\<forall>(e, a, v, tx, op) \<in> R. dt_wf okt v" and "\<forall>(a, v) \<in> set lookups. storable v"
    and "{k \<in> keys db. prefix [VAE] k} = version_key VAE_index ` R"
    and "card (version_key VAE_index ` R) < n"
  shows "\<exists>res. batch_lookup_unique_eids ops n ts db lookups = Ok res \<and>
    (\<forall>(a, v) \<in> set lookups.
       (res (a, v) = None \<longleftrightarrow> \<not> (\<exists>e tx op. fact_holds i64_MAX R (e, a, v, tx, op))) \<and>
       (\<forall>e. res (a, v) = Some e \<longrightarrow> (\<exists>tx op. fact_holds i64_MAX R (e, a, v, tx, op)))) \<and>
    (\<forall>l. l \<notin> set lookups \<longrightarrow> res l = None)"
proof -
  let ?K = "sorted_list_of_set (version_key VAE_index ` R)" and ?ps = "lookup_prefixes lookups"
  have vae: "temporal_index VAE_index" by (simp add: temporal_index_def)
  have fin: "finite (version_key VAE_index ` R)" using assms(1) assms(5) [symmetric] by (simp add: slate_law_def)
  have Rs: "storable_versions R" using assms(3) dt_wf_storable(1) by (auto simp: storable_versions_def)
  have K: "set ?K = version_key VAE_index ` R" using fin by simp
  note ps = lookup_prefixes_set [OF assms(4)]
  have d: "distinct (map snd ?ps)"
  proof (rule distinct_map [THEN iffD2], rule conjI)
    have "distinct (map fst ?ps)" unfolding lookup_prefixes_def
      by (rule strict_sorted_iff [THEN iffD1, THEN conjunct2]) (rule bt_of_wf)
    then show "distinct ?ps" by (simp add: distinct_map)
    show "inj_on snd (set ?ps)" unfolding ps by (auto simp: inj_on_def)
  qed
  have "\<exists>r. (\<forall>acc. live_step (lookup_key ts) ?K acc x = Ok (case r of None \<Rightarrow> acc | Some y \<Rightarrow> acc(snd x \<mapsto> y))) \<and>
      fact_entity R (snd x) r" if x: "x \<in> set ?ps" for x
  proof -
    obtain a v where av: "x = (unique_vae_prefix a v, (a, v))" "(a, v) \<in> set lookups" using x unfolding ps by auto
    then have v: "storable v" using assms(4) by auto
    have sel: "prefix (unique_vae_prefix a v) (version_key VAE_index (e, b, w, tx, op)) \<longleftrightarrow> (\<lambda>(_, b, w). a = b \<and> v = w) (e, b, w)"
      if "(e, b, w, tx, op) \<in> R" for e b w tx op
      using prefix_version_vae [OF v, of w] Rs that by (auto simp: storable_versions_def)
    note first = first_live_facts [OF vae Rs strict_sorted_list_of_set K sel]
    show ?thesis
    proof (cases "first_of (live_list (\<lambda>_. True) (filter (prefix (unique_vae_prefix a v)) ?K))")
      case None
      then show ?thesis using first by (intro exI [of _ None]) (simp add: live_step_def av(1) fact_entity_def)
    next
      case (Some key)
      then obtain e tx op where k: "key = version_key VAE_index (e, a, v, tx, op)" "(e, a, v, tx, op) \<in> R"
        "fact_holds i64_MAX R (e, a, v, tx, op)" using first by auto
      have "dt_wf okt v" using assms(3) k(2) by auto
      then show ?thesis using k(3) Some
        by (intro exI [of _ "Some e"]) (auto simp: live_step_def av(1) fact_entity_def lookup_key_def k(1) vae_parts [OF assms(2)])
    qed
  qed
  then obtain g where g: "\<And>acc x. x \<in> set ?ps \<Longrightarrow> live_step (lookup_key ts) ?K acc x = Ok (case g x of None \<Rightarrow> acc | Some y \<Rightarrow> acc(snd x \<mapsto> y))"
      "\<And>x. x \<in> set ?ps \<Longrightarrow> fact_entity R (snd x) (g x)"
    by metis
  obtain res where r: "rfold (live_step (lookup_key ts) ?K) Map.empty ?ps = Ok res"
    and in_ps: "\<forall>x \<in> set ?ps. res (snd x) = (case g x of None \<Rightarrow> None | Some y \<Rightarrow> Some y)"
    and out: "\<forall>l. l \<notin> snd ` set ?ps \<longrightarrow> res l = None"
    using rfold_updates [of ?ps "live_step (lookup_key ts) ?K" snd g Map.empty, OF g(1) d] by blast
  have "batch_lookup_unique_eids ops n ts db lookups = Ok res"
    using live_scan_index [OF assms(1) vae Rs assms(5,6) lookup_prefixes_scan [OF Rs assms(4) K], of "lookup_key ts" Map.empty] r
    by (auto simp: batch_lookup_unique_eids_def batch_lookup_loop_scan Let_def)
  moreover have "fact_entity R l (res l)" if "l \<in> set lookups" for l
  proof -
    have "(unique_vae_prefix (fst l) (snd l), l) \<in> set ?ps" unfolding ps using that by simp
    then show ?thesis using in_ps g(2) by (fastforce split: option.splits)
  qed
  then have "(res (a, v) = None \<longleftrightarrow> \<not> (\<exists>e tx op. fact_holds i64_MAX R (e, a, v, tx, op))) \<and>
       (\<forall>e. res (a, v) = Some e \<longrightarrow> (\<exists>tx op. fact_holds i64_MAX R (e, a, v, tx, op)))" if "(a, v) \<in> set lookups" for a v
    using that by (cases "res (a, v)") (fastforce simp: fact_entity_def)+
  moreover have "\<forall>l. l \<notin> set lookups \<longrightarrow> res l = None" using out unfolding ps image_image by simp
  ultimately show ?thesis by (intro exI [of _ res]) auto
qed

text \<open>C11: Resolving a batch of unique values. On a store whose value index holds the versions
  \<open>R\<close>, one forward scan over the sorted prefixes finds, for every lookup of the batch, an entity
  for which the fact holds now, and no entity exactly when no entity has the value; where a value
  has one holder at most, the answer is that entity. The scan always ends and
  never reports an error.\<close>

theorem batch_lookup_unique_eids_correct:
  assumes "slate_law ops keys rest lk" and "timestamp_law ts okt"
    and "\<forall>(e, a, v, tx, op) \<in> R. dt_wf okt v" and "\<forall>(a, v) \<in> set lookups. storable v"
    and "{k \<in> keys db. prefix [VAE] k} = version_key VAE_index ` R"
    and "card (version_key VAE_index ` R) < n"
  shows "\<exists>res. batch_lookup_unique_eids ops n ts db lookups = Ok res \<and>
    (\<forall>(a, v) \<in> set lookups.
       (res (a, v) = None \<longleftrightarrow> \<not> (\<exists>e tx op. fact_holds i64_MAX R (e, a, v, tx, op))) \<and>
       (\<forall>e. res (a, v) = Some e \<longrightarrow> (\<exists>tx op. fact_holds i64_MAX R (e, a, v, tx, op)))) \<and>
    (\<forall>l. l \<notin> set lookups \<longrightarrow> res l = None)"
  by (rule batch_lookup_ok [OF assms])

definition lookup_versions :: "version set" where
  "lookup_versions = {(1, 2, DLong 3, 4, ADD), (5, 2, DLong 8, 4, ADD), (5, 2, DLong 8, 6, RETRACT)}"

theorem batch_lookup_unique_eids_correct_witness:
  "\<exists>res. batch_lookup_unique_eids list_slate 4 any_timestamp
      [version_key VAE_index (1, 2, DLong 3, 4, ADD), version_key VAE_index (5, 2, DLong 8, 4, ADD),
       version_key VAE_index (5, 2, DLong 8, 6, RETRACT)] [(2, DLong 8), (2, DLong 3)] = Ok res \<and>
    res (2, DLong 3) = Some 1 \<and> res (2, DLong 8) = None"
proof -
  let ?db = "[version_key VAE_index (1, 2, DLong 3, 4, ADD), version_key VAE_index (5, 2, DLong 8, 4, ADD),
       version_key VAE_index (5, 2, DLong 8, 6, RETRACT)]"
  have keys: "{k \<in> set ?db. prefix [VAE] k} = version_key VAE_index ` lookup_versions"
    by (auto simp: lookup_versions_def version_key_def index_key_def)
  have "card (version_key VAE_index ` lookup_versions) \<le> card lookup_versions"
    by (rule card_image_le) (simp add: lookup_versions_def)
  also have "\<dots> < 4" by (simp add: lookup_versions_def card_insert_if)
  finally have card: "card (version_key VAE_index ` lookup_versions) < 4" .
  have wf: "\<forall>(e, a, v, tx, op) \<in> lookup_versions. dt_wf (\<lambda>_. True) v"
    by (simp add: lookup_versions_def)
  have st: "\<forall>(a, v) \<in> set [(2 :: entid, DLong 8), (2, DLong 3)]. storable v" by simp
  have no: "\<not> fact_holds i64_MAX lookup_versions (e, 2, DLong 8, tx, op)" for e tx op
    by (auto simp: fact_holds_def lookup_versions_def index_defs i64_MAX_def)
  have yes: "fact_holds i64_MAX lookup_versions (e, 2, DLong 3, tx, op) \<longleftrightarrow> e = 1 \<and> tx = 4 \<and> op = ADD" for e tx op
    by (auto simp: fact_holds_def lookup_versions_def index_defs i64_MAX_def)
  from batch_lookup_unique_eids_correct [OF list_slate_law any_timestamp_law wf st keys card]
  obtain res where r: "batch_lookup_unique_eids list_slate 4 any_timestamp ?db [(2, DLong 8), (2, DLong 3)] = Ok res"
    "res (2, DLong 8) = None" "res (2, DLong 3) \<noteq> None" "\<forall>e. res (2, DLong 3) = Some e \<longrightarrow> e = 1"
    using no yes by auto
  then show ?thesis by auto
qed

section \<open>Validation of explicit entity ids\<close>

text \<open>The explicit entity ids of a datom: its entity, and the value of a reference attribute.\<close>

definition explicit_ids :: "schema \<Rightarrow> datom_with_tempids \<Rightarrow> entid set" where
  "explicit_ids s d =
     {e. w_entity d = ITId e} \<union>
     {e. w_value d = VTData (DLong e) \<and> is_ref_attribute s (w_attribute d)}"

lemma rmapM_unit_ok: "(\<exists>us. rmapM f xs = Ok us) \<longleftrightarrow> (\<forall>x \<in> set xs. \<exists>y. f x = Ok y)"
  by (induction xs) auto

lemma validate_allocated_datom_ok:
  "validate_allocated_datom s pm d = Ok () \<longleftrightarrow>
     (\<exists>x. get_attribute s (w_attribute d) = Some x) \<and> (\<forall>e \<in> explicit_ids s d. contains_entid pm e)"
  by (cases "get_attribute s (w_attribute d)")
    (auto simp: validate_allocated_datom_def explicit_ids_def is_ref_attribute_def ensure_def
      split: id_or_tempid.splits value_with_tempids.splits data_type.splits if_splits)



end
