(* ===== verification/Union_Find.thy ===== *)
theory Union_Find
  imports Prelude
begin

text \<open>
  The disjoint-set forest of \<^verbatim>\<open>src/union_find.rs\<close>, which the upsert resolver uses to
  coalesce temporary ids: the vector of parents, \<open>uf_new\<close>, \<open>find\<close> with path compression and
  \<open>union\<close>. An index out of range is a panic. The recursion of \<open>find\<close> follows parents and would
  not end on a cyclic vector, so it runs on fuel; \<open>find_ok\<close> shows that one unit more than the
  number of elements is enough on every forest the operations build.

  The abstract specification is the equivalence relation that the united pairs generate
  (property \<open>union_find_correct\<close>).
\<close>

section \<open>The operations\<close>

record union_find =
  parent :: "nat list"

definition uf_new :: "nat \<Rightarrow> union_find" where
  "uf_new len = \<lparr>parent = [0..<len]\<rparr>"

primrec find_fuel :: "nat \<Rightarrow> nat list \<Rightarrow> nat \<Rightarrow> (nat \<times> nat list) result" where
  "find_fuel 0 p x = Error OutOfFuel"
| "find_fuel (Suc n) p x =
     (if x \<ge> length p then Error (Panic ''index out of bounds'')
      else if p ! x \<noteq> x then
        rbind (find_fuel n p (p ! x)) (\<lambda>(r, p'). Ok (r, p'[x := r]))
      else Ok (p ! x, p))"

definition uf_find :: "union_find \<Rightarrow> nat \<Rightarrow> (nat \<times> union_find) result" where
  "uf_find uf x =
     rbind (find_fuel (Suc (length (parent uf))) (parent uf) x) (\<lambda>(r, p). Ok (r, \<lparr>parent = p\<rparr>))"

definition uf_union :: "union_find \<Rightarrow> nat \<Rightarrow> nat \<Rightarrow> union_find result" where
  "uf_union uf a b =
     rbind (uf_find uf a) (\<lambda>(a_root, uf1).
     rbind (uf_find uf1 b) (\<lambda>(b_root, uf2).
     if a_root \<noteq> b_root then Ok \<lparr>parent = (parent uf2)[b_root := a_root]\<rparr> else Ok uf2))"

section \<open>Roots\<close>

inductive root :: "nat list \<Rightarrow> nat \<Rightarrow> nat \<Rightarrow> bool" for p where
  root_self: "x < length p \<Longrightarrow> p ! x = x \<Longrightarrow> root p x x"
| root_step: "x < length p \<Longrightarrow> p ! x \<noteq> x \<Longrightarrow> root p (p ! x) r \<Longrightarrow> root p x r"

inductive_cases rootE: "root p x r"

definition forest :: "nat list \<Rightarrow> bool" where
  "forest p \<longleftrightarrow> (\<forall>x < length p. \<exists>r. root p x r)"

lemma root_fun: "root p x r \<Longrightarrow> root p x s \<Longrightarrow> r = s"
  by (induction rule: root.induct) (auto elim: rootE)

lemma root_bounds: "root p x r \<Longrightarrow> x < length p \<and> r < length p \<and> p ! r = r"
  by (induction rule: root.induct) auto

lemma root_root: "root p x r \<Longrightarrow> root p r r"
  using root_bounds root_self by blast

text \<open>Compression and linking, seen on roots.\<close>

lemma root_compress:
  assumes "root p x r"
  shows "root p y s \<Longrightarrow> root (p[x := r]) y s"
proof (induction rule: root.induct)
  case (root_self y)
  have "y = x \<Longrightarrow> r = y" using root_fun [OF assms] root.root_self [OF root_self] by blast
  then show ?case using root_self by (cases "y = x") (auto intro!: root.root_self)
next
  case (root_step y s)
  show ?case
  proof (cases "y = x")
    case True
    have s: "s = r" using root_fun assms root.root_step [OF root_step(1,2,3)] True by blast
    have "r \<noteq> x" using root_bounds [OF assms] root_step(2) True by auto
    then have "root (p[x := r]) r r" using root_bounds [OF assms] by (intro root.root_self) auto
    then show ?thesis using s True root_step(1) \<open>r \<noteq> x\<close> by - (rule root.root_step, auto)
  next
    case False
    then show ?thesis using root_step by - (rule root.root_step, auto)
  qed
qed

lemma root_link:
  assumes "root p a a" and "root p b b" and "a \<noteq> b"
  shows "root p y s \<Longrightarrow> root (p[b := a]) y (if s = b then a else s)"
proof (induction rule: root.induct)
  case (root_self y)
  have a: "root (p[b := a]) a a"
    using assms(3) root_bounds [OF assms(1)] by (intro root.root_self) simp_all
  have "root (p[b := a]) b a"
    using a root_bounds [OF assms(2)] assms(3) by - (rule root.root_step, simp_all)
  moreover have "y \<noteq> b \<Longrightarrow> root (p[b := a]) y y" using root_self by (intro root.root_self) auto
  ultimately show ?case by simp
next
  case (root_step y s)
  then have "y \<noteq> b" using root_bounds [OF assms(2)] by auto
  then show ?case using root_step by - (rule root.root_step, auto)
qed

text \<open>The number of steps to the root is below the number of elements.\<close>

lemma root_steps: "root p x r \<Longrightarrow>
    \<exists>k. ((!) p ^^ k) x = r \<and> (\<forall>i < k. p ! (((!) p ^^ i) x) \<noteq> ((!) p ^^ i) x) \<and> (\<forall>i \<le> k. ((!) p ^^ i) x < length p)"
proof (induction rule: root.induct)
  case (root_self x)
  then show ?case by (intro exI [of _ 0]) simp
next
  case (root_step x r)
  then obtain k where k: "((!) p ^^ k) (p ! x) = r"
    "\<forall>i < k. p ! (((!) p ^^ i) (p ! x)) \<noteq> ((!) p ^^ i) (p ! x)" "\<forall>i \<le> k. ((!) p ^^ i) (p ! x) < length p" by blast
  have sh: "((!) p ^^ Suc i) x = ((!) p ^^ i) (p ! x)" for i by (simp add: funpow_swap1)
  have "p ! (((!) p ^^ i) x) \<noteq> ((!) p ^^ i) x" if "i < Suc k" for i
    using that k(2) root_step(2) sh by (cases i) (simp_all del: funpow.simps(2) add: sh)
  moreover have "((!) p ^^ i) x < length p" if "i \<le> Suc k" for i
    using that k(3) root_step(1) sh by (cases i) (simp_all del: funpow.simps(2) add: sh)
  ultimately show ?case using k(1) sh [of k] by (intro exI [of _ "Suc k"]) simp
qed

lemma root_depth:
  assumes "root p x r"
  obtains k where "k < length p" and "((!) p ^^ k) x = r"
    and "\<forall>i < k. p ! (((!) p ^^ i) x) \<noteq> ((!) p ^^ i) x"
proof -
  let ?f = "\<lambda>i. ((!) p ^^ i) x"
  obtain k where k: "?f k = r" "\<forall>i < k. p ! ?f i \<noteq> ?f i" "\<forall>i \<le> k. ?f i < length p"
    using root_steps [OF assms] by blast
  have r: "p ! r = r" using root_bounds [OF assms] by simp
  have no: "?f i \<noteq> ?f j" if "i < j" "j \<le> k" for i j
  proof
    assume e: "?f i = ?f j"
    have "?f (k - j + i) = ((!) p ^^ (k - j)) (?f i)" by (simp add: funpow_add)
    also have "\<dots> = ?f (k - j + j)" unfolding e by (simp add: funpow_add del: add_diff_inverse_nat)
    also have "\<dots> = r" using that k(1) by simp
    finally show False using k(2) r that by (metis add.commute diff_add diff_less_mono2 le_add_diff_inverse2 less_add_eq_less nat_add_left_cancel_less)
  qed
  have "inj_on ?f {..k}"
  proof (rule inj_onI)
    fix i j assume "i \<in> {..k}" "j \<in> {..k}" "?f i = ?f j"
    then show "i = j" using no [of i j] no [of j i] by (cases i j rule: linorder_cases) auto
  qed
  then have "card {..k} \<le> card {..<length p}"
    using k(3) by (intro card_inj_on_le [of ?f]) auto
  then show thesis using that [OF _ k(1,2)] by simp
qed

lemma find_fuel_ok:
  assumes "k < n" and "((!) p ^^ k) x = r" and "\<forall>i < k. p ! (((!) p ^^ i) x) \<noteq> ((!) p ^^ i) x"
    and "root p x r"
  shows "\<exists>p'. find_fuel n p x = Ok (r, p') \<and> length p' = length p \<and> (\<forall>y s. root p y s \<longrightarrow> root p' y s)"
  using assms
proof (induction n arbitrary: x k)
  case (Suc n)
  show ?case
  proof (cases "p ! x = x")
    case True
    then have "r = x" using root_fun Suc.prems(4) root_bounds root_self by blast
    then show ?thesis using True root_bounds [OF Suc.prems(4)] by simp
  next
    case False
    then obtain j where j: "k = Suc j" using Suc.prems(2,4) root_bounds by (cases k) auto
    have sh: "((!) p ^^ Suc i) x = ((!) p ^^ i) (p ! x)" for i by (simp add: funpow_swap1)
    have rt: "root p (p ! x) r" using Suc.prems(4) False by (auto elim: rootE)
    obtain p' where p': "find_fuel n p (p ! x) = Ok (r, p')" "length p' = length p"
      "\<forall>y s. root p y s \<longrightarrow> root p' y s"
    proof -
      have "\<forall>i < j. p ! (((!) p ^^ i) (p ! x)) \<noteq> ((!) p ^^ i) (p ! x)"
        using Suc.prems(3) j unfolding sh [symmetric] by (auto simp del: funpow.simps(2))
      then show thesis using Suc.IH [of j "p ! x"] Suc.prems(1,2) rt sh j that by auto
    qed
    have "root p' x r" using p'(3) Suc.prems(4) by blast
    then have "\<forall>y s. root p y s \<longrightarrow> root (p'[x := r]) y s" using p'(3) root_compress by blast
    then show ?thesis using p' False root_bounds [OF Suc.prems(4)] by simp
  qed
qed simp

lemma find_ok:
  assumes "forest (parent uf)" and "x < length (parent uf)"
  shows "\<exists>r uf'. uf_find uf x = Ok (r, uf') \<and> root (parent uf) x r \<and> forest (parent uf') \<and>
    length (parent uf') = length (parent uf) \<and> (\<forall>y s. root (parent uf') y s \<longleftrightarrow> root (parent uf) y s)"
proof -
  let ?p = "parent uf"
  obtain r where r: "root ?p x r" using assms by (auto simp: forest_def)
  obtain k where k: "k < length ?p" "((!) ?p ^^ k) x = r" "\<forall>i < k. ?p ! (((!) ?p ^^ i) x) \<noteq> ((!) ?p ^^ i) x"
    using root_depth [OF r] by blast
  obtain p' where p': "find_fuel (Suc (length ?p)) ?p x = Ok (r, p')" "length p' = length ?p"
    "\<forall>y s. root ?p y s \<longrightarrow> root p' y s"
    using find_fuel_ok [OF less_SucI [OF k(1)] k(2,3) r] by blast
  have "root ?p y s" if "root p' y s" for y s
    using that p'(2,3) assms(1) root_bounds [OF that] root_fun by (metis forest_def)
  then have "\<forall>y s. root p' y s \<longleftrightarrow> root ?p y s" using p'(3) by blast
  moreover have "forest p'" using assms(1) p'(2,3) unfolding forest_def by metis
  ultimately show ?thesis using p'(1,2) r by (simp add: uf_find_def)
qed

section \<open>Refinement of the generated equivalence\<close>

definition connected :: "nat list \<Rightarrow> nat \<Rightarrow> nat \<Rightarrow> bool" where
  "connected p x y \<longleftrightarrow> (\<exists>r. root p x r \<and> root p y r)"

text \<open>The equivalence that a set of pairs generates.\<close>

abbreviation equiv_closure :: "(nat \<times> nat) set \<Rightarrow> (nat \<times> nat) set" where
  "equiv_closure E \<equiv> (E \<union> E\<inverse>)\<^sup>*"

text \<open>The invariant that links a forest to the pairs united so far.\<close>

definition uf_inv :: "nat \<Rightarrow> (nat \<times> nat) set \<Rightarrow> union_find \<Rightarrow> bool" where
  "uf_inv len E uf \<longleftrightarrow> length (parent uf) = len \<and> forest (parent uf) \<and>
     (\<forall>(x, y) \<in> E. connected (parent uf) x y) \<and>
     (\<forall>x r. root (parent uf) x r \<longrightarrow> (x, r) \<in> equiv_closure E)"

lemma equiv_closure_sym: "(x, y) \<in> equiv_closure E \<Longrightarrow> (y, x) \<in> equiv_closure E"
proof -
  have "sym (equiv_closure E)" by (rule sym_rtrancl) (auto simp: sym_def)
  then show "(x, y) \<in> equiv_closure E \<Longrightarrow> (y, x) \<in> equiv_closure E" by (rule symD)
qed

lemma equiv_closure_mono: "E \<subseteq> F \<Longrightarrow> (x, y) \<in> equiv_closure E \<Longrightarrow> (x, y) \<in> equiv_closure F"
  by (rule subsetD [OF rtrancl_mono]) auto

lemma uf_new_inv: "uf_inv len {} (uf_new len)"
proof -
  have "root [0..<len] x x" if "x < len" for x using that by (intro root_self) auto
  moreover have "x = r" if "root [0..<len] x r" for x r
    using that by (induction rule: root.induct) auto
  ultimately show ?thesis by (auto simp: uf_inv_def uf_new_def forest_def)
qed

lemma uf_inv_connected:
  assumes "uf_inv len E uf" and "x < len" and "y < len"
  shows "connected (parent uf) x y \<longleftrightarrow> (x, y) \<in> equiv_closure E"
proof
  assume "connected (parent uf) x y"
  then obtain r where "root (parent uf) x r" "root (parent uf) y r" by (auto simp: connected_def)
  then have "(x, r) \<in> equiv_closure E" "(y, r) \<in> equiv_closure E" using assms(1) by (auto simp: uf_inv_def)
  then show "(x, y) \<in> equiv_closure E" using equiv_closure_sym rtrancl_trans by metis
next
  assume "(x, y) \<in> equiv_closure E"
  then show "connected (parent uf) x y"
  proof (induction rule: rtrancl_induct)
    case base
    then show ?case using assms by (auto simp: connected_def uf_inv_def forest_def)
  next
    case (step y z)
    then have "connected (parent uf) y z" using assms(1) by (auto simp: uf_inv_def connected_def)
    then show ?case using step.IH root_fun unfolding connected_def by metis
  qed
qed

lemma uf_find_inv:
  assumes "uf_inv len E uf" and "x < len"
  obtains r uf' where "uf_find uf x = Ok (r, uf')" and "root (parent uf) x r" and "uf_inv len E uf'"
    and "\<And>y s. root (parent uf') y s \<longleftrightarrow> root (parent uf) y s"
proof -
  obtain r uf' where f: "uf_find uf x = Ok (r, uf')" "root (parent uf) x r" "forest (parent uf')"
      "length (parent uf') = length (parent uf)" "\<forall>y s. root (parent uf') y s \<longleftrightarrow> root (parent uf) y s"
    using find_ok [of uf x] assms by (auto simp: uf_inv_def)
  have "connected (parent uf') = connected (parent uf)" using f(5) by (simp add: connected_def fun_eq_iff)
  then have "uf_inv len E uf'" using assms(1) f(3,4,5) by (simp add: uf_inv_def)
  then show thesis using that f by blast
qed

lemma uf_union_inv:
  assumes inv: "uf_inv len E uf" and a: "a < len" and b: "b < len"
  shows "\<exists>uf'. uf_union uf a b = Ok uf' \<and> uf_inv len (insert (a, b) E) uf'"
proof -
  obtain ra uf1 where 1: "uf_find uf a = Ok (ra, uf1)" "root (parent uf) a ra" "uf_inv len E uf1"
      "\<And>y s. root (parent uf1) y s \<longleftrightarrow> root (parent uf) y s"
    using uf_find_inv [OF inv a] by blast
  obtain rb uf2 where 2: "uf_find uf1 b = Ok (rb, uf2)" "root (parent uf1) b rb" "uf_inv len E uf2"
      "\<And>y s. root (parent uf2) y s \<longleftrightarrow> root (parent uf1) y s"
    using uf_find_inv [OF 1(3) b] by blast
  let ?p = "parent uf2" and ?E = "insert (a, b) E"
  have r: "root ?p a ra" "root ?p b rb" using 1 2 by auto
  have up: "(x, y) \<in> equiv_closure ?E" if "(x, y) \<in> equiv_closure E" for x y
    using equiv_closure_mono [of E ?E] that by blast
  have con: "connected ?p x y" if "(x, y) \<in> E" for x y using 2(3) that by (auto simp: uf_inv_def)
  show ?thesis
  proof (cases "ra = rb")
    case True
    then have "uf_inv len ?E uf2" using 2(3) r up by (auto simp: uf_inv_def connected_def)
    then show ?thesis using True 1(1) 2(1) by (simp add: uf_union_def)
  next
    case False
    let ?q = "?p[rb := ra]"
    note link = root_link [OF root_root [OF r(1)] root_root [OF r(2)] False]
    have mono: "connected ?q x y" if "connected ?p x y" for x y
      using that link unfolding connected_def by blast
    have "connected ?q a b" using link [OF r(1)] link [OF r(2)] False by (auto simp: connected_def)
    moreover have "forest ?q" using 2(3) link unfolding uf_inv_def forest_def length_list_update by blast
    moreover have "(x, s) \<in> equiv_closure ?E" if s: "root ?q x s" for x s
    proof -
      obtain t where t: "root ?p x t" using root_bounds [OF s] 2(3) by (auto simp: uf_inv_def forest_def)
      then have "(x, t) \<in> equiv_closure ?E" using 2(3) up by (auto simp: uf_inv_def)
      moreover have "s = (if t = rb then ra else t)" using root_fun [OF s link [OF t]] .
      moreover have "(rb, b) \<in> equiv_closure ?E" "(a, ra) \<in> equiv_closure ?E"
        using 2(3) r up equiv_closure_sym by (auto simp: uf_inv_def)
      moreover have "(b, a) \<in> equiv_closure ?E" by auto
      ultimately show ?thesis by (auto split: if_splits intro: rtrancl_trans)
    qed
    ultimately have "uf_inv len ?E \<lparr>parent = ?q\<rparr>"
      using 2(3) con mono by (auto simp: uf_inv_def)
    then show ?thesis using False 1(1) 2(1) by (simp add: uf_union_def)
  qed
qed

lemma uf_unions_inv:
  assumes "uf_inv len E uf" and "\<forall>(a, b) \<in> set ps. a < len \<and> b < len"
  shows "\<exists>uf'. rfold (\<lambda>uf (a, b). uf_union uf a b) uf ps = Ok uf' \<and> uf_inv len (E \<union> set ps) uf'"
  using assms
proof (induction ps arbitrary: E uf)
  case (Cons x ps)
  obtain a b where x: "x = (a, b)" by (cases x)
  obtain uf1 where u: "uf_union uf a b = Ok uf1" "uf_inv len (insert (a, b) E) uf1"
    using uf_union_inv [OF Cons.prems(1), of a b] Cons.prems(2) x by auto
  show ?case using Cons.IH [OF u(2)] Cons.prems(2) u(1) x by (simp add: insert_commute)
qed simp

text \<open>C29: The disjoint-set forest implements the equivalence relation generated by the united
  pairs. Starting from singletons, any sequence of unions inside the range succeeds, and after it
  the roots that \<open>find\<close> returns for two elements are equal exactly when the elements are equivalent;
  \<open>find\<close> always returns, and its path compression changes no answer.\<close>

theorem union_find_correct:
  assumes "\<forall>(a, b) \<in> set ps. a < len \<and> b < len" and "x < len" and "y < len"
  shows "\<exists>uf r uf' s uf''. rfold (\<lambda>uf (a, b). uf_union uf a b) (uf_new len) ps = Ok uf \<and>
    uf_find uf x = Ok (r, uf') \<and> uf_find uf' y = Ok (s, uf'') \<and>
    (r = s \<longleftrightarrow> (x, y) \<in> equiv_closure (set ps))"
proof -
  obtain uf where uf: "rfold (\<lambda>uf (a, b). uf_union uf a b) (uf_new len) ps = Ok uf" "uf_inv len (set ps) uf"
    using uf_unions_inv [OF uf_new_inv assms(1)] by auto
  obtain r uf' where r: "uf_find uf x = Ok (r, uf')" "root (parent uf) x r" "uf_inv len (set ps) uf'"
      "\<And>y s. root (parent uf') y s \<longleftrightarrow> root (parent uf) y s"
    using uf_find_inv [OF uf(2) assms(2)] by blast
  obtain s uf'' where s: "uf_find uf' y = Ok (s, uf'')" "root (parent uf') y s"
    by (rule uf_find_inv [OF r(3) assms(3)])
  have "r = s \<longleftrightarrow> connected (parent uf) x y"
    using r(2,4) s(2) root_fun unfolding connected_def by blast
  then show ?thesis using uf r s uf_inv_connected [OF uf(2) assms(2,3)] by blast
qed

theorem union_find_correct_witness:
  "\<exists>uf r uf' uf''. rfold (\<lambda>uf (a, b). uf_union uf a b) (uf_new 4) [(2, 1), (0, 1)] = Ok uf \<and>
    uf_find uf 0 = Ok (r, uf') \<and> uf_find uf' 2 = Ok (r, uf'')"
proof -
  have "(1, 2) \<in> equiv_closure (set [(2 :: nat, 1 :: nat), (0, 1)])" by (rule r_into_rtrancl) simp
  then have "(0, 2) \<in> equiv_closure (set [(2 :: nat, 1 :: nat), (0, 1)])"
    by (rule converse_rtrancl_into_rtrancl [rotated]) simp
  moreover have "\<forall>(a, b) \<in> set [(2 :: nat, 1 :: nat), (0, 1)]. a < 4 \<and> b < 4" and "(0 :: nat) < 4" and "(2 :: nat) < 4"
    by simp_all
  note union_find_correct [OF this]
  ultimately show ?thesis by blast
qed

end
