(* ===== verification/Upsert.thy ===== *)
theory Upsert
  imports Tx Union_Find
begin

text \<open>
  Upsert resolution, \<^verbatim>\<open>src/upsert_resolution.rs\<close>: a generation sorts the datoms that
  mention temporary ids into populations; each step of its evolution rewrites them with the ids
  that the store resolved; what is left is allocated, temporary ids that assert the same
  identity sharing one label.

  The populations are lists in the order of the vectors of the code. A hash map from temporary
  ids is a HOL map where it is only looked up.
\<close>

section \<open>Populations\<close>

type_synonym temp_id_map = "string \<rightharpoonup> entid"

datatype upsert_e = UpsertE string entid data_type
datatype upsert_ev = UpsertEV string entid string

record generation =
  upserts_e :: "upsert_e list"
  upserts_ev :: "upsert_ev list"
  allocations :: "datom_with_tempids list"
  upserted :: "datom list"
  resolved :: "datom list"

definition empty_generation :: generation where
  "empty_generation = \<lparr>upserts_e = [], upserts_ev = [], allocations = [], upserted = [], resolved = []\<rparr>"

record final_populations =
  f_upserted :: "datom list"
  f_resolved :: "datom list"
  f_allocated :: "datom list"

definition datom_with_entid_attr :: "schema \<Rightarrow> datom_with_tempids \<Rightarrow> (entid \<times> bool) result" where
  "datom_with_entid_attr s d =
     rbind (ok_or (get_attribute s (w_attribute d)) ''Unknown attribute'') (\<lambda>(attr_eid, attr).
     Ok (attr_eid, a_unique attr = Some U_Identity))"

datatype either_datom = Concrete datom | WithTempids datom_with_tempids

definition substitute_entity :: "temp_id_map \<Rightarrow> id_or_tempid \<Rightarrow> id_or_tempid" where
  "substitute_entity m e =
     (case e of
        ITId eid \<Rightarrow> ITId eid
      | ITTempId t \<Rightarrow> (case m t of Some eid \<Rightarrow> ITId eid | None \<Rightarrow> ITTempId t))"

definition substitute_value :: "temp_id_map \<Rightarrow> value_with_tempids \<Rightarrow> value_with_tempids" where
  "substitute_value m v =
     (case v of
        VTData dt \<Rightarrow> VTData dt
      | VTTempRef t \<Rightarrow> (case m t of Some eid \<Rightarrow> VTData (DLong eid) | None \<Rightarrow> VTTempRef t))"

definition substitute_datom :: "datom_with_tempids \<Rightarrow> temp_id_map \<Rightarrow> either_datom" where
  "substitute_datom d m =
     (let entity = substitute_entity m (w_entity d); val = substitute_value m (w_value d)
      in case (entity, val) of
           (ITId e, VTData v) \<Rightarrow>
             Concrete \<lparr>d_entity = e, d_attribute = w_attribute d, d_value = v, d_op = w_op d\<rparr>
         | _ \<Rightarrow> WithTempids \<lparr>w_entity = entity, w_attribute = w_attribute d, w_value = val, w_op = w_op d\<rparr>)"

section \<open>Building a generation\<close>

definition generation_step ::
  "schema \<Rightarrow> generation \<times> datom list \<Rightarrow> datom_with_tempids \<Rightarrow> (generation \<times> datom list) result" where
  "generation_step s = (\<lambda>(g, inert) d.
     rbind (datom_with_entid_attr s d) (\<lambda>(attr_eid, identity).
     let alloc = (g\<lparr>allocations := allocations g @ [d]\<rparr>, inert)
     in Ok (case (w_entity d, w_value d) of
              (ITTempId t, VTData v) \<Rightarrow>
                if w_op d = Assert_op \<and> identity
                then (g\<lparr>upserts_e := upserts_e g @ [UpsertE t attr_eid v]\<rparr>, inert) else alloc
            | (ITTempId t1, VTTempRef t2) \<Rightarrow>
                if w_op d = Assert_op \<and> identity
                then (g\<lparr>upserts_ev := upserts_ev g @ [UpsertEV t1 attr_eid t2]\<rparr>, inert) else alloc
            | (ITId e, VTData v) \<Rightarrow>
                (g, inert @ [\<lparr>d_entity = e, d_attribute = w_attribute d, d_value = v, d_op = w_op d\<rparr>])
            | _ \<Rightarrow> alloc)))"

definition generation_from ::
  "datom_with_tempids list \<Rightarrow> schema \<Rightarrow> (generation \<times> datom list) result" where
  "generation_from datoms s = rfold (generation_step s) (empty_generation, []) datoms"

definition can_evolve :: "generation \<Rightarrow> bool" where
  "can_evolve g \<longleftrightarrow> upserts_e g \<noteq> []"

definition temp_id_avs :: "generation \<Rightarrow> (string \<times> unique_lookup) list" where
  "temp_id_avs g = map (\<lambda>u. case u of UpsertE t a v \<Rightarrow> (t, (a, v))) (upserts_e g)"

definition unresolved_allocation :: "schema \<Rightarrow> upsert_ev \<Rightarrow> datom_with_tempids result" where
  "unresolved_allocation s u =
     (case u of UpsertEV t1 attr_eid t2 \<Rightarrow>
       rbind (ok_or (entid_map s attr_eid) ''Unknown attribute entid'') (\<lambda>attr.
       Ok \<lparr>w_entity = ITTempId t1, w_attribute = attr, w_value = VTTempRef t2, w_op = Assert_op\<rparr>))"

definition allocate_unresolved_upserts :: "generation \<Rightarrow> schema \<Rightarrow> generation result" where
  "allocate_unresolved_upserts g s =
     rbind (rmapM (unresolved_allocation s) (upserts_ev g)) (\<lambda>ds.
     Ok (g\<lparr>upserts_ev := [], allocations := allocations g @ ds\<rparr>))"

section \<open>Evolution\<close>

definition evolve_upsert_e ::
  "temp_id_map \<Rightarrow> temp_id_map \<Rightarrow> schema \<Rightarrow> generation \<Rightarrow> upsert_e \<Rightarrow> generation result" where
  "evolve_upsert_e m resolved_tempids s g u =
     (case u of UpsertE t a v \<Rightarrow>
       rbind (ok_or (entid_map s a) ''Unknown attribute entid'') (\<lambda>attr.
       let fact = (\<lambda>e. \<lparr>d_entity = e, d_attribute = attr, d_value = v, d_op = Assert_op\<rparr>)
       in Ok (case m t of
                Some eid \<Rightarrow> g\<lparr>upserted := upserted g @ [fact eid]\<rparr>
              | None \<Rightarrow>
                  (case resolved_tempids t of
                     Some eid \<Rightarrow> g\<lparr>resolved := resolved g @ [fact eid]\<rparr>
                   | None \<Rightarrow> g\<lparr>allocations := allocations g @
                       [\<lparr>w_entity = ITTempId t, w_attribute = attr, w_value = VTData v, w_op = Assert_op\<rparr>]\<rparr>))))"

definition or_else :: "'a option \<Rightarrow> 'a option \<Rightarrow> 'a option" where
  "or_else x y = (case x of None \<Rightarrow> y | Some _ \<Rightarrow> x)"

definition evolve_upsert_ev ::
  "temp_id_map \<Rightarrow> temp_id_map \<Rightarrow> schema \<Rightarrow> generation \<Rightarrow> upsert_ev \<Rightarrow> generation result" where
  "evolve_upsert_ev m resolved_tempids s g u =
     (case u of UpsertEV t1 a t2 \<Rightarrow>
       rbind (ok_or (entid_map s a) ''Unknown attribute entid'') (\<lambda>attr.
       Ok (case (or_else (m t1) (resolved_tempids t1), or_else (m t2) (resolved_tempids t2)) of
             (_, Some t2_eid) \<Rightarrow> g\<lparr>upserts_e := upserts_e g @ [UpsertE t1 a (DLong t2_eid)]\<rparr>
           | (Some t1_eid, None) \<Rightarrow> g\<lparr>allocations := allocations g @
               [\<lparr>w_entity = ITId t1_eid, w_attribute = attr, w_value = VTTempRef t2, w_op = Assert_op\<rparr>]\<rparr>
           | (None, None) \<Rightarrow> g\<lparr>upserts_ev := upserts_ev g @ [UpsertEV t1 a t2]\<rparr>)))"

definition evolve_allocation :: "temp_id_map \<Rightarrow> generation \<Rightarrow> datom_with_tempids \<Rightarrow> generation" where
  "evolve_allocation combined g d =
     (case substitute_datom d combined of
        Concrete c \<Rightarrow> g\<lparr>resolved := resolved g @ [c]\<rparr>
      | WithTempids w \<Rightarrow> g\<lparr>allocations := allocations g @ [w]\<rparr>)"

definition evolve_one_step ::
  "generation \<Rightarrow> temp_id_map \<Rightarrow> temp_id_map \<Rightarrow> schema \<Rightarrow> generation result" where
  "evolve_one_step g m resolved_tempids s =
     rbind (rfold (evolve_upsert_e m resolved_tempids s) (empty_generation\<lparr>resolved := resolved g\<rparr>)
              (upserts_e g)) (\<lambda>g1.
     rbind (rfold (evolve_upsert_ev m resolved_tempids s) g1 (upserts_ev g)) (\<lambda>g2.
     Ok (foldl (evolve_allocation (resolved_tempids ++ m)) g2 (allocations g))))"

section \<open>Labels of the temporary ids to allocate\<close>

type_synonym identity_groups = "((entid \<times> value_with_tempids) \<times> string list) list"

text \<open>
  An entry of the hash map of groups is found by a value that is equal to itself; a value with a
  NaN always opens a new group.
\<close>

definition vwt_refl :: "value_with_tempids \<Rightarrow> bool" where
  "vwt_refl v = (case v of VTData dt \<Rightarrow> dt_refl dt | VTTempRef _ \<Rightarrow> True)"

definition group_push ::
  "entid \<times> value_with_tempids \<Rightarrow> string \<Rightarrow> identity_groups \<Rightarrow> identity_groups" where
  "group_push k t gs =
     (if vwt_refl (snd k) then hm_modify k [] (\<lambda>ts. ts @ [t]) gs else gs @ [(k, [t])])"

record allocation_scan =
  tempids :: "string list"
  value_temprefs :: "string list"
  groups :: identity_groups

definition scan_allocation ::
  "schema \<Rightarrow> allocation_scan \<Rightarrow> datom_with_tempids \<Rightarrow> allocation_scan result" where
  "scan_allocation s st d =
     (if w_op d = Retract_op \<and> ((case w_entity d of ITTempId _ \<Rightarrow> True | _ \<Rightarrow> False) \<or>
          (case w_value d of VTTempRef _ \<Rightarrow> True | _ \<Rightarrow> False))
      then Error (Err ''[:db/retract ...] referenced tempid that did not upsert'')
      else if w_op d \<noteq> Assert_op then Ok st
      else
        (let st1 = (case w_entity d of ITTempId t \<Rightarrow> st\<lparr>tempids := tempids st @ [t]\<rparr> | _ \<Rightarrow> st);
             st2 = (case w_value d of VTTempRef t \<Rightarrow> st1\<lparr>value_temprefs := value_temprefs st1 @ [t]\<rparr> | _ \<Rightarrow> st1)
         in rbind (datom_with_entid_attr s d) (\<lambda>(attr_eid, identity).
            Ok (if identity
                then (case w_entity d of
                        ITTempId t \<Rightarrow> st2\<lparr>groups := group_push (attr_eid, w_value d) t (groups st2)\<rparr>
                      | _ \<Rightarrow> st2)
                else st2))))"

text \<open>The ordered set of the code: its elements in increasing order.\<close>

definition btree_set :: "string list \<Rightarrow> string list" where
  "btree_set ts = sort (remdups ts)"

definition tempid_index :: "string list \<Rightarrow> string \<Rightarrow> nat option" where
  "tempid_index ts t = (if t \<in> set ts then Some (length (takeWhile (\<lambda>x. x \<noteq> t) ts)) else None)"

definition union_group :: "string list \<Rightarrow> union_find \<Rightarrow> string list \<Rightarrow> union_find result" where
  "union_group ts uf members =
     (case members of
        [] \<Rightarrow> Ok uf
      | t0 # _ \<Rightarrow>
          (case tempid_index ts t0 of
             None \<Rightarrow> Ok uf
           | Some first \<Rightarrow>
               rfold (\<lambda>uf t. case tempid_index ts t of
                        None \<Rightarrow> Ok uf | Some i \<Rightarrow> uf_union uf first i) uf members))"

definition insert_full :: "nat list \<Rightarrow> nat \<Rightarrow> nat \<times> nat list" where
  "insert_full labels rep =
     (if rep \<in> set labels then (length (takeWhile (\<lambda>x. x \<noteq> rep) labels), labels)
      else (length labels, labels @ [rep]))"

definition label_step ::
  "union_find \<times> nat list \<times> (string \<times> nat) list \<Rightarrow> string \<times> nat \<Rightarrow>
     (union_find \<times> nat list \<times> (string \<times> nat) list) result" where
  "label_step = (\<lambda>(uf, dense_labels, out) (tempid, index).
     rbind (uf_find uf index) (\<lambda>(rep, uf').
     let (label, dense_labels') = insert_full dense_labels rep
     in Ok (uf', dense_labels', out @ [(tempid, label)])))"

definition temp_ids_in_allocations :: "generation \<Rightarrow> schema \<Rightarrow> (string \<times> nat) list result" where
  "temp_ids_in_allocations g s =
     rbind (rfold (scan_allocation s) \<lparr>tempids = [], value_temprefs = [], groups = []\<rparr> (allocations g)) (\<lambda>st.
     if \<exists>t \<in> set (value_temprefs st). t \<notin> set (tempids st)
     then Error (Err ''Tempid referenced only in value position'')
     else
       (let ts = btree_set (tempids st)
        in rbind (rfold (union_group ts) (uf_new (length ts)) (map snd (groups st))) (\<lambda>uf.
           rbind (rfold label_step (uf, [], []) (zip ts [0..<length ts])) (\<lambda>(_, _, labels).
           Ok labels))))"

definition final_step :: "temp_id_map \<Rightarrow> datom_with_tempids \<Rightarrow> datom result" where
  "final_step m d =
     (case substitute_datom d m of
        Concrete c \<Rightarrow> Ok c
      | WithTempids _ \<Rightarrow> Error (Err ''Unresolved tempid after allocation''))"

definition into_final_populations :: "generation \<Rightarrow> temp_id_map \<Rightarrow> final_populations result" where
  "into_final_populations g m =
     rbind (rmapM (final_step m) (allocations g)) (\<lambda>ds.
     Ok \<lparr>f_upserted = upserted g, f_resolved = resolved g, f_allocated = ds\<rparr>)"

section \<open>What a generation stands for\<close>

text \<open>The datom that a datom with temporary ids becomes under an assignment.\<close>

definition instance_of :: "temp_id_map \<Rightarrow> datom_with_tempids \<Rightarrow> datom option" where
  "instance_of m d = (case substitute_datom d m of Concrete c \<Rightarrow> Some c | WithTempids _ \<Rightarrow> None)"

definition e_datom :: "schema \<Rightarrow> upsert_e \<Rightarrow> datom_with_tempids" where
  "e_datom s u = (case u of UpsertE t a v \<Rightarrow>
     \<lparr>w_entity = ITTempId t, w_attribute = attribute_ident s a, w_value = VTData v, w_op = Assert_op\<rparr>)"

definition ev_datom :: "schema \<Rightarrow> upsert_ev \<Rightarrow> datom_with_tempids" where
  "ev_datom s u = (case u of UpsertEV t1 a t2 \<Rightarrow>
     \<lparr>w_entity = ITTempId t1, w_attribute = attribute_ident s a, w_value = VTTempRef t2, w_op = Assert_op\<rparr>)"

definition pending :: "schema \<Rightarrow> generation \<Rightarrow> datom_with_tempids set" where
  "pending s g = e_datom s ` set (upserts_e g) \<union> ev_datom s ` set (upserts_ev g) \<union> set (allocations g)"

text \<open>The datoms a generation produces once an assignment is chosen.\<close>

definition items :: "schema \<Rightarrow> temp_id_map \<Rightarrow> generation \<Rightarrow> datom option set" where
  "items s m g = instance_of m ` pending s g \<union> Some ` (set (upserted g) \<union> set (resolved g))"

definition tempids_of :: "datom_with_tempids \<Rightarrow> string set" where
  "tempids_of d = {t. w_entity d = ITTempId t} \<union> {t. w_value d = VTTempRef t}"

text \<open>No temporary id that is known is left in the populations to allocate.\<close>

definition unresolved_only :: "schema \<Rightarrow> temp_id_map \<Rightarrow> generation \<Rightarrow> bool" where
  "unresolved_only s m g \<longleftrightarrow>
     (\<forall>d \<in> ev_datom s ` set (upserts_ev g) \<union> set (allocations g). tempids_of d \<inter> dom m = {})"

lemmas substitution_defs = substitute_datom_def substitute_entity_def substitute_value_def Let_def

lemma instance_of_simps:
  "instance_of m \<lparr>w_entity = ITTempId t, w_attribute = a, w_value = VTData v, w_op = op\<rparr> =
     map_option (\<lambda>e. \<lparr>d_entity = e, d_attribute = a, d_value = v, d_op = op\<rparr>) (m t)"
  "instance_of m \<lparr>w_entity = ITId e, w_attribute = a, w_value = VTData v, w_op = op\<rparr> =
     Some \<lparr>d_entity = e, d_attribute = a, d_value = v, d_op = op\<rparr>"
  "instance_of m \<lparr>w_entity = ITId e, w_attribute = a, w_value = VTTempRef t, w_op = op\<rparr> =
     map_option (\<lambda>x. \<lparr>d_entity = e, d_attribute = a, d_value = DLong x, d_op = op\<rparr>) (m t)"
  "instance_of m \<lparr>w_entity = ITTempId t, w_attribute = a, w_value = VTTempRef t', w_op = op\<rparr> =
     Option.bind (m t) (\<lambda>e. map_option (\<lambda>x. \<lparr>d_entity = e, d_attribute = a, d_value = DLong x, d_op = op\<rparr>) (m t'))"
  by (simp_all add: instance_of_def substitution_defs split: option.splits)

text \<open>Substituting a smaller assignment first makes no difference.\<close>

lemma map_le_Some: "m \<subseteq>\<^sub>m m' \<Longrightarrow> m k = Some v \<Longrightarrow> m' k = Some v"
  by (metis domI map_le_def)

lemma substitute_then_instance:
  assumes "m \<subseteq>\<^sub>m m'"
  shows "instance_of m' d = (case substitute_datom d m of Concrete c \<Rightarrow> Some c | WithTempids w \<Rightarrow> instance_of m' w)"
  using map_le_Some [OF assms]
  by (auto simp: instance_of_def substitution_defs split: id_or_tempid.splits value_with_tempids.splits option.splits)

lemma substitute_leftover:
  "substitute_datom d m = WithTempids w \<Longrightarrow> tempids_of w \<inter> dom m = {} \<and> w_op w = w_op d \<and> w_attribute w = w_attribute d"
  by (auto simp: substitution_defs tempids_of_def split: id_or_tempid.splits value_with_tempids.splits option.splits)

lemma instance_of_defined: "instance_of m d \<noteq> None \<longleftrightarrow> tempids_of d \<subseteq> dom m"
  by (auto simp: instance_of_def substitution_defs tempids_of_def
      split: id_or_tempid.splits value_with_tempids.splits option.splits)

lemma instance_of_cong:
  "(\<And>t. t \<in> tempids_of d \<Longrightarrow> m t = m' t) \<Longrightarrow> instance_of m d = instance_of m' d"
  by (auto simp: instance_of_def substitution_defs tempids_of_def
      split: id_or_tempid.splits value_with_tempids.splits option.splits)

lemma tempids_of_simps [simp]:
  "tempids_of \<lparr>w_entity = ITTempId t, w_attribute = a, w_value = VTData v, w_op = op\<rparr> = {t}"
  "tempids_of \<lparr>w_entity = ITId e, w_attribute = a, w_value = VTData v, w_op = op\<rparr> = {}"
  "tempids_of \<lparr>w_entity = ITId e, w_attribute = a, w_value = VTTempRef t, w_op = op\<rparr> = {t}"
  "tempids_of \<lparr>w_entity = ITTempId t, w_attribute = a, w_value = VTTempRef t', w_op = op\<rparr> = {t, t'}"
  by (auto simp: tempids_of_def)

section \<open>A round keeps the meaning\<close>

lemma attribute_ident_Some: "entid_map s a = Some k \<Longrightarrow> attribute_ident s a = k"
  by (simp add: attribute_ident_def)

lemma or_else_le: "m \<subseteq>\<^sub>m r \<Longrightarrow> or_else (m t) (r t) = r t"
  by (auto simp: or_else_def dest: map_le_Some split: option.splits)

text \<open>What one step adds to the populations, in one place.\<close>

lemma items_add:
  "items s f (g\<lparr>upserted := upserted g @ [d]\<rparr>) = insert (Some d) (items s f g)"
  "items s f (g\<lparr>resolved := resolved g @ [d]\<rparr>) = insert (Some d) (items s f g)"
  "items s f (g\<lparr>allocations := allocations g @ [w]\<rparr>) = insert (instance_of f w) (items s f g)"
  "items s f (g\<lparr>upserts_e := upserts_e g @ [u]\<rparr>) = insert (instance_of f (e_datom s u)) (items s f g)"
  "items s f (g\<lparr>upserts_ev := upserts_ev g @ [v]\<rparr>) = insert (instance_of f (ev_datom s v)) (items s f g)"
  by (auto simp: items_def pending_def)

lemma unresolved_add:
  "unresolved_only s r (g\<lparr>upserted := x\<rparr>) = unresolved_only s r g"
  "unresolved_only s r (g\<lparr>resolved := x\<rparr>) = unresolved_only s r g"
  "unresolved_only s r (g\<lparr>upserts_e := y\<rparr>) = unresolved_only s r g"
  "unresolved_only s r (g\<lparr>allocations := allocations g @ [w]\<rparr>) \<longleftrightarrow>
     unresolved_only s r g \<and> tempids_of w \<inter> dom r = {}"
  "unresolved_only s r (g\<lparr>upserts_ev := upserts_ev g @ [v]\<rparr>) \<longleftrightarrow>
     unresolved_only s r g \<and> tempids_of (ev_datom s v) \<inter> dom r = {}"
  by (auto simp: unresolved_only_def ball_Un)

lemma evolve_upsert_e_items:
  assumes "evolve_upsert_e m r s g u = Ok g'" and "m \<subseteq>\<^sub>m r" and "r \<subseteq>\<^sub>m f"
  shows "items s f g' = insert (instance_of f (e_datom s u)) (items s f g)"
    and "unresolved_only s r g \<Longrightarrow> unresolved_only s r g'"
    and "upserts_e g' = upserts_e g \<and> upserts_ev g' = upserts_ev g"
    and "entid_map s (case u of UpsertE t a v \<Rightarrow> a) \<noteq> None"
proof -
  obtain t a v where u: "u = UpsertE t a v" by (cases u)
  obtain attr where attr: "entid_map s a = Some attr"
    using assms(1) by (auto simp: evolve_upsert_e_def u ok_or_def split: option.splits)
  have le: "m t = Some e \<Longrightarrow> f t = Some e" "r t = Some e \<Longrightarrow> f t = Some e" for e
    using assms(2,3) map_le_Some by metis+
  show "items s f g' = insert (instance_of f (e_datom s u)) (items s f g)"
    using assms(1) attr
    by (auto simp: evolve_upsert_e_def u ok_or_def items_add e_datom_def instance_of_simps le
        attribute_ident_Some split: option.splits)
  show "unresolved_only s r g \<Longrightarrow> unresolved_only s r g'"
    using assms(1) attr
    by (auto simp: evolve_upsert_e_def u ok_or_def unresolved_add split: option.splits)
  show "upserts_e g' = upserts_e g \<and> upserts_ev g' = upserts_ev g"
    using assms(1) attr by (auto simp: evolve_upsert_e_def u ok_or_def split: option.splits)
  show "entid_map s (case u of UpsertE t a v \<Rightarrow> a) \<noteq> None" using attr u by simp
qed

lemma evolve_upsert_ev_items:
  assumes "evolve_upsert_ev m r s g u = Ok g'" and "m \<subseteq>\<^sub>m r" and "r \<subseteq>\<^sub>m f"
  shows "items s f g' = insert (instance_of f (ev_datom s u)) (items s f g)"
    and "unresolved_only s r g \<Longrightarrow> unresolved_only s r g'"
    and "length (upserts_e g') + length (upserts_ev g') \<le> Suc (length (upserts_e g) + length (upserts_ev g))"
    and "upserted g' = upserted g"
proof -
  obtain t1 a t2 where u: "u = UpsertEV t1 a t2" by (cases u)
  obtain attr where attr: "entid_map s a = Some attr"
    using assms(1) by (auto simp: evolve_upsert_ev_def u ok_or_def split: option.splits)
  have le: "r t = Some e \<Longrightarrow> f t = Some e" for t e using assms(3) map_le_Some by metis
  note ev = assms(1) [unfolded evolve_upsert_ev_def u or_else_le [OF assms(2)], simplified, unfolded attr ok_or_def, simplified]
  show "items s f g' = insert (instance_of f (ev_datom s u)) (items s f g)"
    using ev attr by (cases "r t2"; cases "r t1"; cases "f t1")
      (auto simp: u items_add e_datom_def ev_datom_def instance_of_simps le attribute_ident_Some)
  show "unresolved_only s r g \<Longrightarrow> unresolved_only s r g'"
    using ev by (cases "r t2"; cases "r t1") (auto simp: unresolved_add ev_datom_def)
  show "length (upserts_e g') + length (upserts_ev g') \<le> Suc (length (upserts_e g) + length (upserts_ev g))"
    and "upserted g' = upserted g"
    using ev by (cases "r t2"; cases "r t1"; auto)+
qed

lemma evolve_allocation_items:
  assumes "r \<subseteq>\<^sub>m f"
  shows "items s f (evolve_allocation r g d) = insert (instance_of f d) (items s f g)"
    and "unresolved_only s r g \<Longrightarrow> unresolved_only s r (evolve_allocation r g d)"
    and "upserts_e (evolve_allocation r g d) = upserts_e g \<and> upserts_ev (evolve_allocation r g d) = upserts_ev g \<and>
      upserted (evolve_allocation r g d) = upserted g"
  using substitute_then_instance [OF assms, of d] substitute_leftover [of d r]
  by (auto simp: evolve_allocation_def items_add unresolved_add split: either_datom.splits)

lemma rfold_collect:
  assumes "rfold f s xs = Ok s'" and "\<And>s x s'. f s x = Ok s' \<Longrightarrow> F s' = insert (h x) (F s)"
  shows "F s' = h ` set xs \<union> F s"
  using assms(1) by (induction xs arbitrary: s) (auto simp: assms(2))

lemma rfold_keeps:
  assumes "rfold f s xs = Ok s'" and "P s" and "\<And>s x s'. x \<in> set xs \<Longrightarrow> f s x = Ok s' \<Longrightarrow> P s \<Longrightarrow> P s'"
  shows "P s'"
  using assms by (induction xs arbitrary: s) auto

lemma foldl_collect:
  assumes "\<And>s x. F (f s x) = insert (h x) (F s)"
  shows "F (foldl f s xs) = h ` set xs \<union> F s"
  by (induction xs arbitrary: s) (auto simp: assms)

lemma foldl_keeps:
  assumes "P s" and "\<And>s x. P s \<Longrightarrow> P (f s x)"
  shows "P (foldl f s xs)"
  using assms(1) by (induction xs arbitrary: s) (auto simp: assms(2))

lemma evolve_one_stepE:
  assumes "evolve_one_step g m r s = Ok g'"
  obtains g1 g2 where
    "rfold (evolve_upsert_e m r s) (empty_generation\<lparr>resolved := resolved g\<rparr>) (upserts_e g) = Ok g1"
    "rfold (evolve_upsert_ev m r s) g1 (upserts_ev g) = Ok g2"
    "g' = foldl (evolve_allocation (r ++ m)) g2 (allocations g)"
  using assms by (auto simp: evolve_one_step_def)

lemma map_add_le: "m \<subseteq>\<^sub>m r \<Longrightarrow> r ++ m = r"
  by (rule ext) (auto simp: map_add_def dest: map_le_Some split: option.splits)

text \<open>The only datoms that a round loses are those that had upserted in the round before.\<close>

lemma evolve_one_step_items:
  assumes "evolve_one_step g m r s = Ok g'" and "m \<subseteq>\<^sub>m r" and "r \<subseteq>\<^sub>m f"
  shows "items s f g = items s f g' \<union> Some ` set (upserted g)"
proof -
  obtain g1 g2 where 1: "rfold (evolve_upsert_e m r s) (empty_generation\<lparr>resolved := resolved g\<rparr>) (upserts_e g) = Ok g1"
    and 2: "rfold (evolve_upsert_ev m r s) g1 (upserts_ev g) = Ok g2"
    and 3: "g' = foldl (evolve_allocation r) g2 (allocations g)"
    using evolve_one_stepE [OF assms(1)] map_add_le [OF assms(2)] by metis
  have "items s f g1 = (\<lambda>u. instance_of f (e_datom s u)) ` set (upserts_e g) \<union>
      items s f (empty_generation\<lparr>resolved := resolved g\<rparr>)"
    by (rule rfold_collect [OF 1]) (rule evolve_upsert_e_items(1) [OF _ assms(2,3)])
  moreover have "items s f g2 = (\<lambda>u. instance_of f (ev_datom s u)) ` set (upserts_ev g) \<union> items s f g1"
    by (rule rfold_collect [OF 2]) (rule evolve_upsert_ev_items(1) [OF _ assms(2,3)])
  moreover have "items s f g' = instance_of f ` set (allocations g) \<union> items s f g2"
    unfolding 3 by (rule foldl_collect) (rule evolve_allocation_items(1) [OF assms(3)])
  ultimately show ?thesis by (auto simp: items_def pending_def empty_generation_def)
qed

lemma evolve_one_step_unresolved:
  assumes "evolve_one_step g m r s = Ok g'" and "m \<subseteq>\<^sub>m r"
  shows "unresolved_only s r g'"
proof -
  obtain g1 g2 where 1: "rfold (evolve_upsert_e m r s) (empty_generation\<lparr>resolved := resolved g\<rparr>) (upserts_e g) = Ok g1"
    and 2: "rfold (evolve_upsert_ev m r s) g1 (upserts_ev g) = Ok g2"
    and 3: "g' = foldl (evolve_allocation r) g2 (allocations g)"
    using evolve_one_stepE [OF assms(1)] map_add_le [OF assms(2)] by metis
  have "unresolved_only s r g1"
    by (rule rfold_keeps [OF 1], simp add: unresolved_only_def empty_generation_def)
      (rule evolve_upsert_e_items(2) [OF _ assms(2) map_le_refl])
  then have "unresolved_only s r g2"
    by (rule rfold_keeps [OF 2]) (rule evolve_upsert_ev_items(2) [OF _ assms(2) map_le_refl])
  then show ?thesis
    unfolding 3 by (rule foldl_keeps) (rule evolve_allocation_items(2) [OF map_le_refl])
qed

lemma evolve_upserts_ev_size:
  assumes "rfold (evolve_upsert_ev m r s) g us = Ok g'" and "m \<subseteq>\<^sub>m r"
  shows "length (upserts_e g') + length (upserts_ev g') \<le> length (upserts_e g) + length (upserts_ev g) + length us"
  using assms(1)
proof (induction us arbitrary: g)
  case (Cons u us)
  then obtain g1 where g1: "evolve_upsert_ev m r s g u = Ok g1" "rfold (evolve_upsert_ev m r s) g1 us = Ok g'" by auto
  show ?case using Cons.IH [OF g1(2)] evolve_upsert_ev_items(3) [OF g1(1) assms(2) map_le_refl] by simp
qed simp

lemma evolve_one_step_size:
  assumes "evolve_one_step g m r s = Ok g'" and "m \<subseteq>\<^sub>m r"
  shows "length (upserts_e g') + length (upserts_ev g') \<le> length (upserts_ev g)"
proof -
  obtain g1 g2 where 1: "rfold (evolve_upsert_e m r s) (empty_generation\<lparr>resolved := resolved g\<rparr>) (upserts_e g) = Ok g1"
    and 2: "rfold (evolve_upsert_ev m r s) g1 (upserts_ev g) = Ok g2"
    and 3: "g' = foldl (evolve_allocation r) g2 (allocations g)"
    using evolve_one_stepE [OF assms(1)] map_add_le [OF assms(2)] by metis
  let ?n = "\<lambda>g. length (upserts_e g) + length (upserts_ev g)"
  have "?n g1 = 0"
    by (rule rfold_keeps [OF 1], simp add: empty_generation_def)
      (use evolve_upsert_e_items(3) [OF _ assms(2) map_le_refl] in fastforce)
  moreover have "?n g2 \<le> ?n g1 + length (upserts_ev g)" by (rule evolve_upserts_ev_size [OF 2 assms(2)])
  moreover have "?n g' = ?n g2"
    unfolding 3 by (rule foldl_keeps, simp) (simp add: evolve_allocation_items(3) [OF map_le_refl])
  ultimately show ?thesis by simp
qed

section \<open>The first and the last generation\<close>

text \<open>Names and identifiers of the schema correspond: a name leads to an identifier that leads back.\<close>

definition names_wf :: "schema \<Rightarrow> bool" where
  "names_wf s \<longleftrightarrow> (\<forall>k e. ident_map s k = Some e \<longrightarrow> entid_map s e = Some k)"

definition identity_attribute :: "schema \<Rightarrow> entid \<Rightarrow> bool" where
  "identity_attribute s a \<longleftrightarrow> (\<exists>attr. attribute_map s a = Some attr \<and> a_unique attr = Some U_Identity)"

text \<open>The upserts of a generation are on identity attributes with a name.\<close>

primrec e_attr :: "upsert_e \<Rightarrow> entid" where "e_attr (UpsertE t a v) = a"
primrec ev_attr :: "upsert_ev \<Rightarrow> entid" where "ev_attr (UpsertEV t a t') = a"

definition upsert_attr :: "schema \<Rightarrow> entid \<Rightarrow> bool" where
  "upsert_attr s a \<longleftrightarrow> identity_attribute s a \<and> ident_map s (attribute_ident s a) = Some a"

definition upserts_wf :: "schema \<Rightarrow> generation \<Rightarrow> bool" where
  "upserts_wf s g \<longleftrightarrow> (\<forall>u \<in> set (upserts_e g). upsert_attr s (e_attr u)) \<and>
     (\<forall>u \<in> set (upserts_ev g). upsert_attr s (ev_attr u))"

lemma datom_with_entid_attr_Ok:
  assumes "datom_with_entid_attr s d = Ok (a, i)" and "names_wf s"
  shows "attribute_ident s a = w_attribute d" and "i \<Longrightarrow> identity_attribute s a" and "ident_map s (w_attribute d) = Some a"
  using assms by (auto simp: datom_with_entid_attr_def ok_or_def get_attribute_def names_wf_def
      attribute_ident_def identity_attribute_def split: option.splits)

lemma generation_step_items:
  assumes "generation_step s (g, inert) d = Ok (g', inert')" and "names_wf s"
  shows "items s f g' \<union> Some ` set inert' = insert (instance_of f d) (items s f g \<union> Some ` set inert)"
    and "upserts_wf s g \<Longrightarrow> upserts_wf s g'"
    and "upserted g' = upserted g" and "resolved g' = resolved g"
proof -
  obtain e a v op where d: "d = \<lparr>w_entity = e, w_attribute = a, w_value = v, w_op = op\<rparr>"
    by (cases d) auto
  obtain ae i where ai: "datom_with_entid_attr s d = Ok (ae, i)"
    using assms(1) by (auto simp: generation_step_def)
  note at = datom_with_entid_attr_Ok [OF ai assms(2)]
  note step = assms(1) [unfolded generation_step_def, simplified, unfolded ai, simplified]
  show "items s f g' \<union> Some ` set inert' = insert (instance_of f d) (items s f g \<union> Some ` set inert)"
    using step at(1) by (cases e; cases v)
      (auto simp: d items_add e_datom_def ev_datom_def instance_of_simps Let_def split: if_splits)
  show "upserts_wf s g \<Longrightarrow> upserts_wf s g'"
    using step at by (cases e; cases v) (auto simp: d upserts_wf_def upsert_attr_def Let_def split: if_splits)
  show "upserted g' = upserted g" and "resolved g' = resolved g"
    using step by (cases e; cases v; auto simp: d Let_def split: if_splits)+
qed

lemma generation_from_items:
  assumes "generation_from datoms s = Ok (g, inert)" and "names_wf s"
  shows "items s f g \<union> Some ` set inert = instance_of f ` set datoms"
    and "upserts_wf s g" and "upserted g = []" and "resolved g = []"
proof -
  let ?F = "\<lambda>(g, inert). items s f g \<union> Some ` set inert"
  have 0: "rfold (generation_step s) (empty_generation, []) datoms = Ok (g, inert)"
    using assms(1) by (simp add: generation_from_def)
  have "?F (g, inert) = instance_of f ` set datoms \<union> ?F (empty_generation, [])"
  proof (rule rfold_collect [OF 0])
    show "?F p' = insert (instance_of f d) (?F p)" if "generation_step s p d = Ok p'" for p d p'
      using generation_step_items(1) [of s "fst p" "snd p" d "fst p'" "snd p'", OF _ assms(2)] that
      by (cases p; cases p') simp
  qed
  then show "items s f g \<union> Some ` set inert = instance_of f ` set datoms"
    by (simp add: items_def pending_def empty_generation_def)
  let ?P = "\<lambda>p. upserts_wf s (fst p) \<and> upserted (fst p) = [] \<and> resolved (fst p) = []"
  have "?P (g, inert)"
  proof (rule rfold_keeps [OF 0])
    show "?P (empty_generation, [])" by (simp add: empty_generation_def upserts_wf_def)
    show "?P p'" if "generation_step s p d = Ok p'" "?P p" for p d p'
      using that generation_step_items(2-) [OF _ assms(2), of "fst p" "snd p" d "fst p'" "snd p'"]
      by (cases p; cases p') auto
  qed
  then show "upserts_wf s g" "upserted g = []" "resolved g = []" by simp_all
qed

lemma rmapM_collect: "rmapM f xs = Ok ys \<Longrightarrow> (\<And>x y. x \<in> set xs \<Longrightarrow> f x = Ok y \<Longrightarrow> y = h x) \<Longrightarrow> ys = map h xs"
  by (induction xs arbitrary: ys) auto

lemma allocate_unresolved_items:
  assumes "allocate_unresolved_upserts g s = Ok g'"
  shows "pending s g' = pending s g" and "upserted g' = upserted g" and "resolved g' = resolved g"
    and "upserts_ev g' = []" and "upserts_e g' = upserts_e g"
    and "set (allocations g') = ev_datom s ` set (upserts_ev g) \<union> set (allocations g)"
proof -
  obtain ds where ds: "rmapM (unresolved_allocation s) (upserts_ev g) = Ok ds"
    and g': "g' = g\<lparr>upserts_ev := [], allocations := allocations g @ ds\<rparr>"
    using assms by (auto simp: allocate_unresolved_upserts_def)
  have "ds = map (ev_datom s) (upserts_ev g)"
    by (rule rmapM_collect [OF ds])
      (auto simp: unresolved_allocation_def ev_datom_def ok_or_def attribute_ident_def split: upsert_ev.splits option.splits)
  then show "pending s g' = pending s g" and "upserted g' = upserted g" and "resolved g' = resolved g"
    and "upserts_ev g' = []" and "upserts_e g' = upserts_e g"
    and "set (allocations g') = ev_datom s ` set (upserts_ev g) \<union> set (allocations g)"
    by (auto simp: g' pending_def)
qed

lemma into_final_populations_Ok:
  assumes "into_final_populations g m = Ok p"
  shows "f_upserted p = upserted g" and "f_resolved p = resolved g"
    and "map Some (f_allocated p) = map (instance_of m) (allocations g)"
proof -
  obtain ds where ds: "rmapM (final_step m) (allocations g) = Ok ds"
    and p: "p = \<lparr>f_upserted = upserted g, f_resolved = resolved g, f_allocated = ds\<rparr>"
    using assms by (auto simp: into_final_populations_def)
  have "map Some ds = map (instance_of m) xs" if "rmapM (final_step m) xs = Ok ds" for xs ds
    using that by (induction xs arbitrary: ds)
      (auto simp: final_step_def instance_of_def split: either_datom.splits)
  then show "f_upserted p = upserted g" "f_resolved p = resolved g"
    "map Some (f_allocated p) = map (instance_of m) (allocations g)" using ds p by simp_all
qed

lemma into_final_populations_total:
  assumes "\<forall>d \<in> set (allocations g). tempids_of d \<subseteq> dom m"
  shows "\<exists>p. into_final_populations g m = Ok p"
proof -
  have "\<exists>c. final_step m d = Ok c" if "d \<in> set (allocations g)" for d
    using assms that instance_of_defined [of m d]
    by (auto simp: final_step_def instance_of_def split: either_datom.splits)
  then have "\<exists>ds. rmapM (final_step m) (allocations g) = Ok ds" using rmapM_unit_ok by blast
  then show ?thesis by (auto simp: into_final_populations_def)
qed

section \<open>Labels\<close>

definition position :: "'a list \<Rightarrow> 'a \<Rightarrow> nat" where
  "position xs x = length (takeWhile (\<lambda>y. y \<noteq> x) xs)"

lemma position_append: "x \<in> set xs \<Longrightarrow> position (xs @ ys) x = position xs x"
  by (induction xs) (auto simp: position_def)

lemma position_prefix: "prefix xs ys \<Longrightarrow> x \<in> set xs \<Longrightarrow> position ys x = position xs x"
  by (auto simp: prefix_def position_append)

lemma nth_position: "x \<in> set xs \<Longrightarrow> position xs x < length xs \<and> xs ! position xs x = x"
  by (induction xs) (auto simp: position_def)

lemma position_inj: "x \<in> set xs \<Longrightarrow> y \<in> set xs \<Longrightarrow> position xs x = position xs y \<longleftrightarrow> x = y"
  using nth_position by metis

lemma position_nth: "distinct xs \<Longrightarrow> i < length xs \<Longrightarrow> position xs (xs ! i) = i"
  using nth_position nth_eq_iff_index_eq nth_mem by metis

lemma position_onto:
  assumes d: "distinct xs"
  shows "position xs ` set xs = {0..<length xs}"
proof
  show "position xs ` set xs \<subseteq> {0..<length xs}" using nth_position by fastforce
  show "{0..<length xs} \<subseteq> position xs ` set xs"
  proof
    fix i assume "i \<in> {0..<length xs}"
    then show "i \<in> position xs ` set xs"
      using position_nth [OF d, of i] by (intro image_eqI [of _ _ "xs ! i"]) simp_all
  qed
qed

lemma insert_full_position:
  assumes "distinct ls" and "insert_full ls r = (l, ls')"
  shows "distinct ls' \<and> prefix ls ls' \<and> r \<in> set ls' \<and> set ls' = insert r (set ls) \<and> l = position ls' r"
proof (cases "r \<in> set ls")
  case True
  then show ?thesis using assms by (auto simp: insert_full_def position_def)
next
  case False
  have "position (ls @ [r]) r = length ls" using False by (induction ls) (auto simp: position_def)
  moreover have "ls' = ls @ [r]" "l = length ls" using False assms(2) by (simp_all add: insert_full_def)
  ultimately show ?thesis using False assms(1) by simp
qed

definition rep :: "nat list \<Rightarrow> nat \<Rightarrow> nat" where
  "rep p i = (THE r. root p i r)"

lemma rep_eq: "root p i r \<Longrightarrow> rep p i = r"
  unfolding rep_def by (blast intro: root_fun)

lemma rep_connected:
  assumes "uf_inv len E uf" and "i < len" and "j < len"
  shows "rep (parent uf) i = rep (parent uf) j \<longleftrightarrow> (i, j) \<in> equiv_closure E"
proof -
  obtain r r' where r: "root (parent uf) i r" "root (parent uf) j r'"
    using assms unfolding uf_inv_def forest_def by metis
  then show ?thesis
    using uf_inv_connected [OF assms] rep_eq [OF r(1)] rep_eq [OF r(2)] root_fun
    unfolding connected_def by metis
qed

lemma label_steps:
  assumes "uf_inv len E uf" and "\<forall>x \<in> set xs. snd x < len" and "distinct dense"
  shows "\<exists>uf' dense'. rfold label_step (uf, dense, out) xs =
      Ok (uf', dense', out @ map (\<lambda>x. (fst x, position dense' (rep (parent uf) (snd x)))) xs) \<and>
    distinct dense' \<and> prefix dense dense' \<and> set dense' = set dense \<union> (\<lambda>x. rep (parent uf) (snd x)) ` set xs"
  using assms
proof (induction xs arbitrary: uf dense out)
  case (Cons x xs)
  obtain t i where x: "x = (t, i)" by (cases x)
  obtain r uf1 where f: "uf_find uf i = Ok (r, uf1)" "root (parent uf) i r" "uf_inv len E uf1"
      "\<And>y s. root (parent uf1) y s \<longleftrightarrow> root (parent uf) y s"
    using uf_find_inv [OF Cons.prems(1), of i] Cons.prems(2) x by (metis list.set_intros(1) snd_conv)
  have rep1: "rep (parent uf1) = rep (parent uf)" using f(4) by (simp add: rep_def fun_eq_iff)
  obtain l dense1 where l: "insert_full dense r = (l, dense1)" by (cases "insert_full dense r")
  note ins = insert_full_position [OF Cons.prems(3) l]
  obtain uf' dense' where IH: "rfold label_step (uf1, dense1, out @ [(t, l)]) xs =
      Ok (uf', dense', (out @ [(t, l)]) @ map (\<lambda>x. (fst x, position dense' (rep (parent uf) (snd x)))) xs)"
    "distinct dense'" "prefix dense1 dense'" "set dense' = set dense1 \<union> (\<lambda>x. rep (parent uf) (snd x)) ` set xs"
    using Cons.IH [OF f(3), of dense1 "out @ [(t, l)]"] Cons.prems(2) ins unfolding rep1 by auto
  have "l = position dense' (rep (parent uf) i)"
    using ins position_prefix [OF IH(3)] rep_eq [OF f(2)] by simp
  then show ?case
    using IH ins f(1) l rep_eq [OF f(2)] prefix_order.trans [of dense dense1 dense']
    by (intro exI [of _ uf'] exI [of _ dense']) (auto simp: x label_step_def)
qed simp

section \<open>Groups of temporary ids\<close>

definition group_pairs :: "string list \<Rightarrow> string list \<Rightarrow> (nat \<times> nat) list" where
  "group_pairs ts members = map (\<lambda>t. (position ts (hd members), position ts t)) members"

lemma tempid_index_position: "t \<in> set ts \<Longrightarrow> tempid_index ts t = Some (position ts t)"
  by (simp add: tempid_index_def position_def)

lemma union_group_pairs:
  assumes "set members \<subseteq> set ts"
  shows "union_group ts uf members = rfold (\<lambda>uf (a, b). uf_union uf a b) uf (group_pairs ts members)"
proof (cases members)
  case (Cons t0 rest)
  have "rfold (\<lambda>uf t. case tempid_index ts t of None \<Rightarrow> Ok uf | Some i \<Rightarrow> uf_union uf (position ts t0) i) uf xs =
      rfold (\<lambda>uf (a, b). uf_union uf a b) uf (map (\<lambda>t. (position ts t0, position ts t)) xs)"
    if "set xs \<subseteq> set ts" for xs uf
    using that by (induction xs arbitrary: uf) (simp_all add: tempid_index_position)
  then show ?thesis using assms Cons by (simp add: union_group_def group_pairs_def tempid_index_position)
qed (simp add: union_group_def group_pairs_def)

lemma union_groups:
  assumes "uf_inv (length ts) E uf" and "\<forall>m \<in> set gs. set m \<subseteq> set ts"
  shows "\<exists>uf'. rfold (union_group ts) uf gs = Ok uf' \<and>
    uf_inv (length ts) (E \<union> (\<Union>m \<in> set gs. set (group_pairs ts m))) uf'"
  using assms
proof (induction gs arbitrary: uf E)
  case (Cons m gs)
  have "\<forall>(a, b) \<in> set (group_pairs ts m). a < length ts \<and> b < length ts"
  proof (cases m)
    case (Cons t0 rest)
    then show ?thesis using Cons.prems(2) nth_position [of _ ts] by (auto simp: group_pairs_def)
  qed (simp add: group_pairs_def)
  then obtain uf1 where u: "union_group ts uf m = Ok uf1" "uf_inv (length ts) (E \<union> set (group_pairs ts m)) uf1"
    using uf_unions_inv [OF Cons.prems(1), of "group_pairs ts m"] union_group_pairs [of m ts uf] Cons.prems(2) by auto
  show ?case using Cons.IH [OF u(2)] Cons.prems(2) u(1) by (simp add: Un_assoc)
qed simp

text \<open>The identity that an allocation asserts, and the temporary ids that assert the same one.\<close>

definition identity_key :: "schema \<Rightarrow> datom_with_tempids \<Rightarrow> (entid \<times> value_with_tempids) option" where
  "identity_key s d =
     (case get_attribute s (w_attribute d) of
        Some (a, attr) \<Rightarrow> if w_op d = Assert_op \<and> a_unique attr = Some U_Identity then Some (a, w_value d) else None
      | None \<Rightarrow> None)"

definition same_identity :: "schema \<Rightarrow> datom_with_tempids set \<Rightarrow> (string \<times> string) set" where
  "same_identity s ds = {(t, t'). \<exists>d \<in> ds. \<exists>d' \<in> ds. \<exists>k. identity_key s d = Some k \<and> identity_key s d' = Some k \<and>
     vwt_refl (snd k) \<and> w_entity d = ITTempId t \<and> w_entity d' = ITTempId t'}"

definition groups_inv :: "schema \<Rightarrow> datom_with_tempids set \<Rightarrow> identity_groups \<Rightarrow> bool" where
  "groups_inv s ds gs \<longleftrightarrow>
     (\<forall>(k, m) \<in> set gs. m \<noteq> [] \<and> (\<not> vwt_refl (snd k) \<longrightarrow> length m = 1) \<and>
        (\<forall>t \<in> set m. \<exists>d \<in> ds. identity_key s d = Some k \<and> w_entity d = ITTempId t)) \<and>
     (\<forall>d \<in> ds. \<forall>k t. identity_key s d = Some k \<and> w_entity d = ITTempId t \<longrightarrow> (\<exists>m. (k, m) \<in> set gs \<and> t \<in> set m)) \<and>
     distinct (map fst (filter (\<lambda>x. vwt_refl (snd (fst x))) gs))"

lemma hm_modify_cases:
  "(k \<notin> fst ` set gs \<and> hm_modify k d f gs = gs @ [(k, f d)]) \<or>
   (\<exists>as m bs. gs = as @ (k, m) # bs \<and> k \<notin> fst ` set as \<and> hm_modify k d f gs = as @ (k, f m) # bs)"
proof (induction gs)
  case (Cons x gs)
  show ?case
  proof (cases "fst x = k")
    case True
    then show ?thesis by (intro disjI2 exI [of _ "[]"] exI [of _ "snd x"] exI [of _ gs]) (cases x, simp)
  next
    case False
    from Cons.IH show ?thesis
    proof (elim disjE exE conjE)
      fix as m bs assume "gs = as @ (k, m) # bs" "k \<notin> fst ` set as" "hm_modify k d f gs = as @ (k, f m) # bs"
      then show ?thesis using False by (intro disjI2 exI [of _ "x # as"] exI [of _ m] exI [of _ bs]) simp
    qed (use False in simp)
  qed
qed simp

lemma groups_inv_push:
  assumes "groups_inv s ds gs" and "identity_key s d = Some k" and "w_entity d = ITTempId t"
  shows "groups_inv s (insert d ds) (group_push k t gs)"
proof (cases "vwt_refl (snd k)")
  case False
  then show ?thesis using assms by (auto simp: groups_inv_def group_push_def) blast
next
  case True
  consider (new) "k \<notin> fst ` set gs" "group_push k t gs = gs @ [(k, [t])]"
    | (old) as m bs where "gs = as @ (k, m) # bs" "k \<notin> fst ` set as" "group_push k t gs = as @ (k, m @ [t]) # bs"
    using hm_modify_cases [of k gs "[]" "\<lambda>ts. ts @ [t]"] True by (auto simp: group_push_def)
  then show ?thesis
  proof cases
    case new
    then have "k \<notin> fst ` set (filter (\<lambda>x. vwt_refl (snd (fst x))) gs)" by auto
    then show ?thesis using assms True unfolding new(2) groups_inv_def by (auto simp del: set_filter) blast
  next
    case old
    let ?gs = "as @ (k, m @ [t]) # bs"
    have "distinct (map fst (filter (\<lambda>x. vwt_refl (snd (fst x))) ?gs))"
      using assms(1) by (simp add: groups_inv_def old(1) True)
    moreover have "m' \<noteq> [] \<and> (\<not> vwt_refl (snd k') \<longrightarrow> length m' = 1) \<and>
        (\<forall>t \<in> set m'. \<exists>d \<in> insert d ds. identity_key s d = Some k' \<and> w_entity d = ITTempId t)"
      if mem: "(k', m') \<in> set ?gs" for k' m'
    proof (cases "(k', m') = (k, m @ [t])")
      case eq: True
      have "\<forall>t \<in> set m. \<exists>d \<in> ds. identity_key s d = Some k \<and> w_entity d = ITTempId t"
        using assms(1) by (auto simp: groups_inv_def old(1))
      then show ?thesis using eq assms(2,3) True by auto
    next
      case False
      then have "(k', m') \<in> set gs" using mem old(1) by auto
      then show ?thesis using assms(1) unfolding groups_inv_def by blast
    qed
    moreover have "\<exists>m'. (k', m') \<in> set ?gs \<and> t' \<in> set m'"
      if d': "d' \<in> insert d ds" "identity_key s d' = Some k'" "w_entity d' = ITTempId t'" for d' k' t'
    proof (cases "d' = d")
      case True
      then show ?thesis using d' assms(2,3) by (intro exI [of _ "m @ [t]"]) simp
    next
      case False
      then obtain m' where "(k', m') \<in> set gs" "t' \<in> set m'" using d' assms(1) unfolding groups_inv_def by blast
      then show ?thesis
        by (cases "(k', m') = (k, m)") (auto simp: old(1))
    qed
    ultimately show ?thesis unfolding old(3) groups_inv_def by blast
  qed
qed

lemma groups_inv_skip:
  assumes "groups_inv s ds gs" and "\<And>k t. identity_key s d = Some k \<Longrightarrow> w_entity d \<noteq> ITTempId t"
  shows "groups_inv s (insert d ds) gs"
  using assms unfolding groups_inv_def by fast

definition scan_inv :: "schema \<Rightarrow> datom_with_tempids set \<Rightarrow> allocation_scan \<Rightarrow> bool" where
  "scan_inv s ds st \<longleftrightarrow>
     set (tempids st) = {t. \<exists>d \<in> ds. w_op d = Assert_op \<and> w_entity d = ITTempId t} \<and>
     set (value_temprefs st) = {t. \<exists>d \<in> ds. w_op d = Assert_op \<and> w_value d = VTTempRef t} \<and>
     (\<forall>d \<in> ds. w_op d = Retract_op \<longrightarrow> tempids_of d = {}) \<and> groups_inv s ds (groups st)"

lemma scan_allocation_inv:
  assumes inv: "scan_inv s ds st" and ok: "scan_allocation s st d = Ok st'"
  shows "scan_inv s (insert d ds) st'"
proof (cases "w_op d")
  case Retract_op
  then have no: "tempids_of d = {}" "st' = st"
    using ok by (auto simp: scan_allocation_def tempids_of_def split: id_or_tempid.splits value_with_tempids.splits if_splits)
  have "groups_inv s (insert d ds) (groups st)"
    using inv Retract_op by (intro groups_inv_skip) (auto simp: scan_inv_def identity_key_def split: option.splits)
  then show ?thesis using inv no Retract_op by (auto simp: scan_inv_def)
next
  case Assert_op
  obtain a i where ai: "datom_with_entid_attr s d = Ok (a, i)"
    using ok Assert_op by (auto simp: scan_allocation_def Let_def)
  have key: "identity_key s d = (if i then Some (a, w_value d) else None)"
    using ai Assert_op by (auto simp: datom_with_entid_attr_def ok_or_def identity_key_def split: option.splits)
  note st = ok [unfolded scan_allocation_def ai, simplified Assert_op Let_def, simplified]
  have tv: "set (tempids st') = set (tempids st) \<union> {t. w_entity d = ITTempId t}"
    "set (value_temprefs st') = set (value_temprefs st) \<union> {t. w_value d = VTTempRef t}"
    using st by (auto split: id_or_tempid.splits value_with_tempids.splits if_splits)
  have gi: "groups_inv s ds (groups st)" using inv by (simp add: scan_inv_def)
  have "groups_inv s (insert d ds) (groups st')"
  proof (cases "i \<and> (\<exists>t. w_entity d = ITTempId t)")
    case True
    then obtain t where t: "w_entity d = ITTempId t" by blast
    have "groups st' = group_push (a, w_value d) t (groups st)"
      using st True t by (auto split: value_with_tempids.splits)
    then show ?thesis using groups_inv_push [OF gi _ t] key True by simp
  next
    case False
    then have "groups st' = groups st"
      using st by (auto split: id_or_tempid.splits value_with_tempids.splits if_splits)
    then show ?thesis using groups_inv_skip [OF gi, of d] key False by (auto split: if_splits)
  qed
  then show ?thesis using inv tv Assert_op by (auto simp: scan_inv_def)
qed

lemma groups_same_identity:
  assumes inv: "groups_inv s ds gs" and m: "(k, m) \<in> set gs" and "x \<in> set m" and "y \<in> set m"
  shows "(x, y) \<in> (same_identity s ds)\<^sup>*"
proof (cases "vwt_refl (snd k)")
  case True
  have mem: "\<exists>d \<in> ds. identity_key s d = Some k \<and> w_entity d = ITTempId t" if "t \<in> set m" for t
    using inv m that unfolding groups_inv_def by blast
  obtain d d' where "d \<in> ds" "identity_key s d = Some k" "w_entity d = ITTempId x"
    "d' \<in> ds" "identity_key s d' = Some k" "w_entity d' = ITTempId y"
    using mem [OF assms(3)] mem [OF assms(4)] by blast
  then have "(x, y) \<in> same_identity s ds" using True unfolding same_identity_def by blast
  then show ?thesis by blast
next
  case False
  then have "length m = 1" using inv m unfolding groups_inv_def by blast
  then show ?thesis using assms(3,4) by (auto simp: length_Suc_conv)
qed

lemma same_identity_group:
  assumes inv: "groups_inv s ds gs" and "(x, y) \<in> same_identity s ds"
  shows "\<exists>(k, m) \<in> set gs. x \<in> set m \<and> y \<in> set m"
proof -
  obtain d d' k where k: "d \<in> ds" "d' \<in> ds" "identity_key s d = Some k" "identity_key s d' = Some k"
      "vwt_refl (snd k)" "w_entity d = ITTempId x" "w_entity d' = ITTempId y"
    using assms(2) by (auto simp: same_identity_def)
  have mem: "\<exists>m. (k, m) \<in> set gs \<and> t \<in> set m" if "d \<in> ds" "identity_key s d = Some k" "w_entity d = ITTempId t" for d t
    using inv that unfolding groups_inv_def by blast
  obtain m m' where m: "(k, m) \<in> set gs" "x \<in> set m" "(k, m') \<in> set gs" "y \<in> set m'"
    using mem [OF k(1,3,6)] mem [OF k(2,4,7)] by blast
  let ?f = "filter (\<lambda>x. vwt_refl (snd (fst x))) gs"
  have "hm_wf ?f" "(k, m) \<in> set ?f" "(k, m') \<in> set ?f" using inv m k(5) by (auto simp: groups_inv_def)
  then have "m = m'" using eq_key_imp_eq_value by fast
  then show ?thesis using m by blast
qed

text \<open>The forest over positions is the equivalence of the temporary ids.\<close>

lemma groups_closure:
  assumes inv: "groups_inv s ds gs" and ts: "\<forall>m \<in> set (map snd gs). set m \<subseteq> set ts" and "distinct ts"
    and x: "x \<in> set ts" and y: "y \<in> set ts"
  shows "(position ts x, position ts y) \<in> equiv_closure (\<Union>m \<in> set (map snd gs). set (group_pairs ts m)) \<longleftrightarrow>
    (x, y) \<in> (same_identity s ds)\<^sup>*" (is "_ \<in> equiv_closure ?P \<longleftrightarrow> _")
proof
  have one: "\<exists>z \<in> set ts. j = position ts z \<and> (w, z) \<in> (same_identity s ds)\<^sup>*"
    if pj: "(position ts w, j) \<in> ?P \<union> ?P\<inverse>" and w: "w \<in> set ts" for w j
  proof -
    obtain k m a b where m: "(k, m) \<in> set gs" "a \<in> set m" "b \<in> set m"
      "position ts w = position ts a" "j = position ts b"
    proof -
      obtain x where x: "x \<in> set gs" "(position ts w, j) \<in> set (group_pairs ts (snd x)) \<union> (set (group_pairs ts (snd x)))\<inverse>"
        using pj by auto
      then have hd: "hd (snd x) \<in> set (snd x)" by (cases "snd x") (auto simp: group_pairs_def)
      obtain b where b: "b \<in> set (snd x)"
        "(position ts w, j) = (position ts (hd (snd x)), position ts b) \<or> (position ts w, j) = (position ts b, position ts (hd (snd x)))"
        using x(2) by (auto simp: group_pairs_def)
      have "(fst x, snd x) \<in> set gs" using x(1) by simp
      then show thesis using b hd that by blast
    qed
    then have "set m \<subseteq> set ts" using ts by force
    then have "w = a" "b \<in> set ts" using m w position_inj [of w ts a] by auto
    then show ?thesis using groups_same_identity [OF inv m(1) m(2,3)] m(5) by blast
  qed
  assume "(position ts x, position ts y) \<in> equiv_closure ?P"
  then have "\<exists>z \<in> set ts. position ts y = position ts z \<and> (x, z) \<in> (same_identity s ds)\<^sup>*"
  proof (induction rule: rtrancl_induct)
    case (step j j')
    then obtain z where z: "z \<in> set ts" "j = position ts z" "(x, z) \<in> (same_identity s ds)\<^sup>*" by blast
    obtain z' where "z' \<in> set ts" "j' = position ts z'" "(z, z') \<in> (same_identity s ds)\<^sup>*"
      using one [of z j'] step.hyps(2) z by blast
    then show ?case using rtrancl_trans [OF z(3)] by blast
  qed (use x in blast)
  then show "(x, y) \<in> (same_identity s ds)\<^sup>*" using position_inj [of y ts] y by auto
next
  assume "(x, y) \<in> (same_identity s ds)\<^sup>*"
  then show "(position ts x, position ts y) \<in> equiv_closure ?P"
  proof (induction rule: rtrancl_induct)
    case (step y z)
    obtain k m where m: "(k, m) \<in> set gs" "y \<in> set m" "z \<in> set m"
      using same_identity_group [OF inv step.hyps(2)] by blast
    let ?h = "position ts (hd m)"
    have "(?h, position ts y) \<in> ?P" "(?h, position ts z) \<in> ?P" using m by (force simp: group_pairs_def)+
    then have "(position ts y, ?h) \<in> equiv_closure ?P" "(?h, position ts z) \<in> equiv_closure ?P" by auto
    then show ?case using step.IH by (meson rtrancl_trans)
  qed simp
qed

lemma btree_set_props: "set (btree_set ts) = set ts" "distinct (btree_set ts)"
  by (simp_all add: btree_set_def)

lemma scan_allocations_inv:
  "rfold (scan_allocation s) \<lparr>tempids = [], value_temprefs = [], groups = []\<rparr> ds = Ok st \<Longrightarrow> scan_inv s (set ds) st"
proof (induction ds arbitrary: st rule: rev_induct)
  case Nil
  then show ?case by (auto simp: scan_inv_def groups_inv_def)
next
  case (snoc d ds)
  then show ?case using scan_allocation_inv by (auto simp: rfold_append)
qed

lemma scan_members:
  assumes "scan_inv s ds st"
  shows "\<forall>m \<in> set (map snd (groups st)). set m \<subseteq> set (btree_set (tempids st))"
proof -
  have "w_op d = Assert_op" if "identity_key s d = Some k" for d k
    using that by (auto simp: identity_key_def split: option.splits if_splits)
  then show ?thesis
    using assms unfolding btree_set_props(1) scan_inv_def groups_inv_def by fastforce
qed

lemma label_positions:
  assumes "uf_inv (length ts) E uf"
  shows "\<exists>uf' dense. rfold label_step (uf, [], []) (zip ts [0..<length ts]) =
      Ok (uf', dense, map (\<lambda>x. (fst x, position dense (rep (parent uf) (snd x)))) (zip ts [0..<length ts])) \<and>
    distinct dense \<and> set dense = (\<lambda>x. rep (parent uf) (snd x)) ` set (zip ts [0..<length ts])"
proof -
  have "\<forall>x \<in> set (zip ts [0..<length ts]). snd x < length ts" by (auto simp: set_zip)
  from label_steps [OF assms this, of "[]" "[]"] show ?thesis by auto
qed

lemma temp_ids_in_allocations_total:
  assumes "rfold (scan_allocation s) \<lparr>tempids = [], value_temprefs = [], groups = []\<rparr> (allocations g) = Ok st"
    and "\<forall>t \<in> set (value_temprefs st). t \<in> set (tempids st)"
  shows "\<exists>labels. temp_ids_in_allocations g s = Ok labels"
proof -
  let ?ts = "btree_set (tempids st)"
  obtain uf where uf: "rfold (union_group ?ts) (uf_new (length ?ts)) (map snd (groups st)) = Ok uf"
      "uf_inv (length ?ts) (\<Union>m \<in> set (map snd (groups st)). set (group_pairs ?ts m)) uf"
    using union_groups [OF uf_new_inv scan_members [OF scan_allocations_inv [OF assms(1)]]] by auto
  then show ?thesis
    using label_positions [OF uf(2)] assms by (auto simp: temp_ids_in_allocations_def Let_def)
qed

lemma temp_ids_in_allocations_labels:
  assumes "temp_ids_in_allocations g s = Ok labels"
  shows "fst ` set labels = {t. \<exists>d \<in> set (allocations g). w_op d = Assert_op \<and> w_entity d = ITTempId t}"
    and "distinct (map fst labels)"
    and "\<forall>d \<in> set (allocations g). tempids_of d \<subseteq> fst ` set labels"
    and "\<exists>k. snd ` set labels = {0..<k}"
    and "(t, l) \<in> set labels \<Longrightarrow> (t', l') \<in> set labels \<Longrightarrow>
      l = l' \<longleftrightarrow> (t, t') \<in> (same_identity s (set (allocations g)))\<^sup>*"
proof -
  obtain st where st: "rfold (scan_allocation s) \<lparr>tempids = [], value_temprefs = [], groups = []\<rparr> (allocations g) = Ok st"
    and sub: "\<forall>t \<in> set (value_temprefs st). t \<in> set (tempids st)"
    using assms by (auto simp: temp_ids_in_allocations_def split: if_splits)
  note inv = scan_allocations_inv [OF st]
  define ts where "ts = btree_set (tempids st)"
  have ts: "set ts = set (tempids st)" "distinct ts" by (simp_all add: ts_def btree_set_props)
  have gi: "groups_inv s (set (allocations g)) (groups st)" using inv by (simp add: scan_inv_def)
  have mem: "\<forall>m \<in> set (map snd (groups st)). set m \<subseteq> set ts"
    unfolding ts_def by (rule scan_members [OF inv])
  let ?P = "\<Union>m \<in> set (map snd (groups st)). set (group_pairs ts m)"
  obtain uf where uf: "rfold (union_group ts) (uf_new (length ts)) (map snd (groups st)) = Ok uf"
      "uf_inv (length ts) ?P uf"
    using union_groups [OF uf_new_inv mem] by auto
  define r where "r = rep (parent uf)"
  obtain uf' dense where dense: "rfold label_step (uf, [], []) (zip ts [0..<length ts]) =
      Ok (uf', dense, map (\<lambda>x. (fst x, position dense (r (snd x)))) (zip ts [0..<length ts]))"
      "distinct dense" "set dense = (\<lambda>x. r (snd x)) ` set (zip ts [0..<length ts])"
    using label_positions [OF uf(2)] by (auto simp: r_def)
  have labels: "labels = map (\<lambda>x. (fst x, position dense (r (snd x)))) (zip ts [0..<length ts])"
    using assms sub st uf(1) dense(1) by (simp add: temp_ids_in_allocations_def ts_def Let_def)
  have keys: "map fst labels = ts" unfolding labels by (simp add: comp_def)
  then have keys': "fst ` set labels = set ts" by (metis set_map)
  show "fst ` set labels = {t. \<exists>d \<in> set (allocations g). w_op d = Assert_op \<and> w_entity d = ITTempId t}"
    unfolding keys' ts(1) using inv by (simp add: scan_inv_def)
  show "distinct (map fst labels)" unfolding keys by (rule ts(2))
  show "\<forall>d \<in> set (allocations g). tempids_of d \<subseteq> fst ` set labels"
  proof
    fix d assume d: "d \<in> set (allocations g)"
    show "tempids_of d \<subseteq> fst ` set labels"
      unfolding keys' ts(1) using inv sub d by (cases "w_op d") (auto simp: scan_inv_def tempids_of_def)
  qed
  show "\<exists>k. snd ` set labels = {0..<k}"
    using position_onto [OF dense(2)] by (auto simp: labels dense(3) image_image)
  show "l = l' \<longleftrightarrow> (t, t') \<in> (same_identity s (set (allocations g)))\<^sup>*"
    if "(t, l) \<in> set labels" "(t', l') \<in> set labels"
  proof -
    have zip: "(u, i) \<in> set (zip ts [0..<length ts]) \<longleftrightarrow> u \<in> set ts \<and> i = position ts u" for u i
    proof
      assume "(u, i) \<in> set (zip ts [0..<length ts])"
      then obtain j where "j < length ts" "u = ts ! j" "i = j" by (auto simp: set_zip)
      then show "u \<in> set ts \<and> i = position ts u" using position_nth [OF ts(2), of j] by simp
    next
      assume "u \<in> set ts \<and> i = position ts u"
      then have "i < length ts" "ts ! i = u" using nth_position [of u ts] by simp_all
      then show "(u, i) \<in> set (zip ts [0..<length ts])" by (auto simp: set_zip)
    qed
    have l: "l = position dense (r (position ts t))" "t \<in> set ts" "l' = position dense (r (position ts t'))" "t' \<in> set ts"
      using that by (auto simp: labels zip)
    have "r (position ts u) \<in> set dense" if "u \<in> set ts" for u unfolding dense(3) using zip that by force
    then have "l = l' \<longleftrightarrow> r (position ts t) = r (position ts t')" using l position_inj [of _ dense] by metis
    also have "\<dots> \<longleftrightarrow> (position ts t, position ts t') \<in> equiv_closure ?P"
      unfolding r_def
      by (rule rep_connected [OF uf(2)]) (simp_all add: nth_position [OF l(2)] nth_position [OF l(4)])
    also have "\<dots> \<longleftrightarrow> (t, t') \<in> (same_identity s (set (allocations g)))\<^sup>*"
      by (rule groups_closure [OF gi mem ts(2) l(2,4)])
    finally show ?thesis .
  qed
qed

text \<open>C20: Labelling the temporary ids that are left. Exactly the ids that occur as the entity of
  an assertion get a label, each one label; the labels are the numbers from zero without a gap;
  and two ids share a label exactly when a chain of assertions of equal identity values links
  them, so one entity is allocated for each identity.\<close>

theorem temp_ids_in_allocations_correct:
  assumes "temp_ids_in_allocations g s = Ok labels"
  shows "fst ` set labels = {t. \<exists>d \<in> set (allocations g). w_op d = Assert_op \<and> w_entity d = ITTempId t} \<and>
    distinct (map fst labels) \<and> (\<exists>k. snd ` set labels = {0..<k}) \<and>
    (\<forall>(t, l) \<in> set labels. \<forall>(t', l') \<in> set labels.
       l = l' \<longleftrightarrow> (t, t') \<in> (same_identity s (set (allocations g)))\<^sup>*)"
  using temp_ids_in_allocations_labels [OF assms] by blast

definition identity_schema :: schema where
  "identity_schema = \<lparr>entid_map = [1 \<mapsto> kw ''p'' ''mail'', 2 \<mapsto> kw ''p'' ''boss'', 3 \<mapsto> kw ''p'' ''nick''],
     ident_map = [kw ''p'' ''mail'' \<mapsto> 1, kw ''p'' ''boss'' \<mapsto> 2, kw ''p'' ''nick'' \<mapsto> 3],
     attribute_map = [1 \<mapsto> card_one_attr VT_Long (Some U_Identity), 2 \<mapsto> card_one_attr VT_Ref (Some U_Identity),
       3 \<mapsto> card_one_attr VT_Long (Some U_Identity)]\<rparr>"

definition mail_of :: "string \<Rightarrow> i64 \<Rightarrow> datom_with_tempids" where
  "mail_of t v = \<lparr>w_entity = ITTempId t, w_attribute = kw ''p'' ''mail'', w_value = VTData (DLong v), w_op = Assert_op\<rparr>"

theorem temp_ids_in_allocations_correct_witness:
  "\<exists>labels. temp_ids_in_allocations (empty_generation\<lparr>allocations := [mail_of ''b'' 7, mail_of ''a'' 7, mail_of ''c'' 8]\<rparr>)
      identity_schema = Ok labels \<and> fst ` set labels = {''a'', ''b'', ''c''}"
proof -
  let ?g = "empty_generation\<lparr>allocations := [mail_of ''b'' 7, mail_of ''a'' 7, mail_of ''c'' 8]\<rparr>"
  have "temp_ids_in_allocations ?g identity_schema = Ok [(''a'', 0), (''b'', 0), (''c'', 1)]"
    by code_simp
  moreover have "{t. \<exists>d \<in> set (allocations ?g). w_op d = Assert_op \<and> w_entity d = ITTempId t} = {''a'', ''b'', ''c''}"
    by (auto simp: mail_of_def)
  ultimately show ?thesis using temp_ids_in_allocations_correct [of ?g identity_schema] by auto
qed

end
