(* ===== verification/Tempids.thy ===== *)
theory Tempids
  imports Upsert
begin

text \<open>
  Resolution of temporary ids, \<^verbatim>\<open>src/tempids.rs\<close>: rounds of identity upserts against
  the store, then allocation of what is left, one fresh identifier per label.
\<close>

definition candidate_step ::
  "(unique_lookup \<rightharpoonup> entid) \<Rightarrow> (string \<times> entid list) list \<Rightarrow> string \<times> unique_lookup \<Rightarrow>
     (string \<times> entid list) list" where
  "candidate_step found cs = (\<lambda>(tempid, lookup).
     case lookup_get found lookup of
       None \<Rightarrow> cs
     | Some eid \<Rightarrow> hm_modify tempid [] (List.insert eid) cs)"

definition resolve_temp_id_avs ::
  "('db, 'it) slate_ops \<Rightarrow> nat \<Rightarrow> timestamp_opt \<Rightarrow> (string \<times> unique_lookup) list \<Rightarrow> 'db \<Rightarrow>
     (string \<times> entid) list result" where
  "resolve_temp_id_avs ops n ts tempid_avs db =
     rbind (batch_lookup_unique_eids ops n ts db (map snd tempid_avs)) (\<lambda>found.
     let candidates = foldl (candidate_step found) [] tempid_avs
     in if \<exists>c \<in> set candidates. length (snd c) \<noteq> 1 then Error (Err ''Conflicting upserts'')
        else Ok (map (\<lambda>(t, eids). (t, hd eids)) candidates))"

text \<open>The ids of the round are recorded; an id that was recorded with another entity is a conflict.\<close>

definition record_step :: "temp_id_map \<times> bool \<Rightarrow> string \<times> entid \<Rightarrow> temp_id_map \<times> bool" where
  "record_step = (\<lambda>(m, conflict) (tempid, eid).
     (m(tempid \<mapsto> eid), conflict \<or> (case m tempid of None \<Rightarrow> False | Some previous \<Rightarrow> previous \<noteq> eid)))"

definition record_resolutions :: "temp_id_map \<Rightarrow> (string \<times> entid) list \<Rightarrow> temp_id_map result" where
  "record_resolutions resolved_tempids m =
     (let (resolved', conflict) = foldl record_step (resolved_tempids, False) m
      in if conflict then Error (Err ''Conflicting upserts'') else Ok resolved')"

definition infer_step :: "(string \<rightharpoonup> u32) \<Rightarrow> datom_with_tempids \<Rightarrow> (string \<rightharpoonup> u32)" where
  "infer_step out d =
     (case w_entity d of
        ITTempId t \<Rightarrow>
          if w_op d = Assert_op \<and> w_attribute d = kw ''db'' ''ident'' then out(t \<mapsto> DB_PARTITION)
          else out(t \<mapsto> or_insert out t USER_PARTITION)
      | _ \<Rightarrow> out)"

definition infer_tempid_partitions :: "datom_with_tempids list \<Rightarrow> (string \<rightharpoonup> u32)" where
  "infer_tempid_partitions datoms = foldl infer_step Map.empty datoms"

definition allocation_partitions :: "(string \<rightharpoonup> u32) \<Rightarrow> (string \<times> nat) list \<Rightarrow> u32 list result" where
  "allocation_partitions inferred tempid_labels =
     (let label_count = fold max (map (Suc \<circ> snd) tempid_labels) 0
      in rfold (\<lambda>parts (tempid, label).
           case inferred tempid of
             None \<Rightarrow> Ok parts
           | Some p \<Rightarrow>
               if label < length parts then Ok (parts[label := dominant_partition (parts ! label) p])
               else Error (Panic ''index out of bounds''))
         (replicate label_count DEFAULT_PARTITION) tempid_labels)"

primrec evolve_loop ::
  "('db, 'it) slate_ops \<Rightarrow> nat \<Rightarrow> timestamp_opt \<Rightarrow> schema \<Rightarrow> 'db \<Rightarrow> nat \<Rightarrow> generation \<Rightarrow> temp_id_map \<Rightarrow>
     (generation \<times> temp_id_map) result" where
  "evolve_loop ops n ts s db 0 g resolved_tempids = Error OutOfFuel"
| "evolve_loop ops n ts s db (Suc k) g resolved_tempids =
     (if can_evolve g then
        rbind (resolve_temp_id_avs ops n ts (temp_id_avs g) db) (\<lambda>m.
        rbind (record_resolutions resolved_tempids m) (\<lambda>resolved'.
        rbind (evolve_one_step g (map_of m) resolved' s) (\<lambda>g'.
        evolve_loop ops n ts s db k g' resolved')))
      else Ok (g, resolved_tempids))"

primrec allocate_labels :: "partition_map \<Rightarrow> u32 list \<Rightarrow> (entid list \<times> partition_map) result" where
  "allocate_labels pm [] = Ok ([], pm)"
| "allocate_labels pm (p # ps) =
     rbind (allocate_entid pm p) (\<lambda>(eid, pm').
     rbind (allocate_labels pm' ps) (\<lambda>(eids, pm''). Ok (eid # eids, pm'')))"

definition assign_labels :: "entid list \<Rightarrow> (string \<times> nat) list \<Rightarrow> temp_id_map result" where
  "assign_labels label_entids tempid_labels =
     rfold (\<lambda>m (tempid, label).
       if label < length label_entids then Ok (m(tempid \<mapsto> label_entids ! label))
       else Error (Panic ''index out of bounds'')) Map.empty tempid_labels"

text \<open>
  Every round after which the loop goes on has taken a complex upsert out of the population, so
  two rounds more than there are complex upserts are enough.
\<close>

definition resolve_tempids ::
  "('db, 'it) slate_ops \<Rightarrow> nat \<Rightarrow> timestamp_opt \<Rightarrow> datom_with_tempids list \<Rightarrow> schema \<Rightarrow> 'db \<Rightarrow> partition_map \<Rightarrow>
     (datom list \<times> partition_map) result" where
  "resolve_tempids ops n ts datoms s db pm =
     (let inferred = infer_tempid_partitions datoms
      in rbind (generation_from datoms s) (\<lambda>(g0, inert_terms).
         rbind (evolve_loop ops n ts s db (Suc (Suc (length (upserts_ev g0)))) g0 Map.empty) (\<lambda>(g1, _).
         rbind (allocate_unresolved_upserts g1 s) (\<lambda>g.
         rbind (temp_ids_in_allocations g s) (\<lambda>tempid_labels.
         rbind (allocation_partitions inferred tempid_labels) (\<lambda>parts.
         rbind (allocate_labels pm parts) (\<lambda>(label_entids, pm').
         rbind (assign_labels label_entids tempid_labels) (\<lambda>allocated_tempids.
         rbind (into_final_populations g allocated_tempids) (\<lambda>pops.
         Ok (f_upserted pops @ f_resolved pops @ f_allocated pops @ inert_terms, pm'))))))))))"

section \<open>One round\<close>

definition candidates_inv ::
  "(unique_lookup \<rightharpoonup> entid) \<Rightarrow> (string \<times> unique_lookup) set \<Rightarrow> (string \<times> entid list) list \<Rightarrow> bool" where
  "candidates_inv found avs cs \<longleftrightarrow> hm_wf cs \<and>
     (\<forall>(t, es) \<in> set cs. \<forall>e \<in> set es. \<exists>l. (t, l) \<in> avs \<and> lookup_get found l = Some e)"

lemma candidate_step_inv:
  assumes "candidates_inv found avs cs"
  shows "candidates_inv found (insert x avs) (candidate_step found cs x)"
proof -
  obtain t l where x: "x = (t, l)" by (cases x)
  show ?thesis
  proof (cases "lookup_get found l")
    case None
    then have "candidate_step found cs x = cs" by (simp add: candidate_step_def x)
    then show ?thesis using assms unfolding candidates_inv_def by (simp only:) blast
  next
    case (Some e)
    have old: "\<exists>l. (t', l) \<in> avs \<and> lookup_get found l = Some e'" if "(t', es) \<in> set cs" "e' \<in> set es" for t' es e'
      using assms that unfolding candidates_inv_def by blast
    have "\<exists>l. (t', l) \<in> insert x avs \<and> lookup_get found l = Some e'"
      if mem: "(t', es) \<in> set (hm_modify t [] (List.insert e) cs)" "e' \<in> set es" for t' es e'
    proof -
      consider "(t', es) \<in> set cs" | es0 where "t' = t" "es = List.insert e es0" "es0 = [] \<or> (t, es0) \<in> set cs"
        using hm_modify_cases [of t cs "[]" "List.insert e"] mem(1) by auto (metis insert_Nil)
      then show ?thesis
      proof cases
        case 1
        then show ?thesis using old mem(2) by blast
      next
        case 2
        then have "e' = e \<or> (t, es0) \<in> set cs \<and> e' \<in> set es0" using mem(2) by auto
        then show ?thesis using old 2(1) Some x by blast
      qed
    qed
    then show ?thesis
      using assms Some hm_modify_wf [of cs] by (auto simp: candidate_step_def candidates_inv_def x)
  qed
qed

lemma candidates_foldl:
  "candidates_inv found avs cs \<Longrightarrow> candidates_inv found (avs \<union> set xs) (foldl (candidate_step found) cs xs)"
proof (induction xs arbitrary: avs cs)
  case (Cons x xs)
  show ?case using Cons.IH [OF candidate_step_inv [OF Cons.prems, of x]] by simp
qed simp

lemma resolve_temp_id_avs_found:
  assumes "resolve_temp_id_avs ops n ts avs db = Ok m"
  obtains found where "batch_lookup_unique_eids ops n ts db (map snd avs) = Ok found" and "hm_wf m"
    and "\<And>t e. (t, e) \<in> set m \<Longrightarrow> \<exists>l. (t, l) \<in> set avs \<and> lookup_get found l = Some e"
proof -
  obtain found where f: "batch_lookup_unique_eids ops n ts db (map snd avs) = Ok found"
    using assms by (auto simp: resolve_temp_id_avs_def)
  let ?cs = "foldl (candidate_step found) [] avs"
  have one: "\<forall>c \<in> set ?cs. length (snd c) = 1" and m: "m = map (\<lambda>(t, eids). (t, hd eids)) ?cs"
    using assms f by (auto simp: resolve_temp_id_avs_def Let_def split: if_splits)
  have inv: "candidates_inv found (set avs) ?cs"
    using candidates_foldl [of found "{}" "[]" avs] by (simp add: candidates_inv_def)
  have "hm_wf m" using inv by (simp add: m candidates_inv_def comp_def case_prod_unfold)
  moreover have "\<exists>l. (t, l) \<in> set avs \<and> lookup_get found l = Some e" if te: "(t, e) \<in> set m" for t e
  proof -
    obtain es where es: "(t, es) \<in> set ?cs" "e = hd es" using te by (auto simp: m)
    then have "e \<in> set es" using one by (cases es) auto
    then show ?thesis using inv es(1) unfolding candidates_inv_def by blast
  qed
  ultimately show thesis using that f by blast
qed

lemma record_steps:
  assumes "foldl record_step (r, c) m = (r', False)" and "hm_wf m"
  shows "\<not> c \<and> r' = r ++ map_of m \<and> (\<forall>t e. r t = Some e \<longrightarrow> map_of m t \<in> {None, Some e})"
  using assms
proof (induction m arbitrary: r c)
  case (Cons x m)
  obtain t e where x: "x = (t, e)" by (cases x)
  let ?c = "c \<or> (case r t of None \<Rightarrow> False | Some p \<Rightarrow> p \<noteq> e)"
  have IH: "\<not> ?c \<and> r' = (r(t \<mapsto> e)) ++ map_of m \<and> (\<forall>t' e'. (r(t \<mapsto> e)) t' = Some e' \<longrightarrow> map_of m t' \<in> {None, Some e'})"
  proof (rule Cons.IH)
    have "record_step (r, c) x = (r(t \<mapsto> e), ?c)" by (simp add: x record_step_def)
    then show "foldl record_step (r(t \<mapsto> e), ?c) m = (r', False)" using Cons.prems(1) by (simp only: foldl_Cons)
    show "hm_wf m" using Cons.prems(2) by simp
  qed
  have tm: "map_of m t = None" using Cons.prems(2) by (simp add: x map_of_eq_None_iff)
  then have "r' = r ++ map_of (x # m)" using IH by (auto simp: x fun_eq_iff map_add_def split: option.splits)
  moreover have "map_of (x # m) t' \<in> {None, Some e'}" if "r t' = Some e'" for t' e'
    using IH that tm by (cases "t' = t") (auto simp: x split: option.splits)
  ultimately show ?case using IH by blast
qed simp

lemma record_resolutions_Ok:
  assumes "record_resolutions r m = Ok r'" and "hm_wf m"
  shows "r \<subseteq>\<^sub>m r'" and "map_of m \<subseteq>\<^sub>m r'" and "r' t = Some e \<Longrightarrow> r t = Some e \<or> (t, e) \<in> set m"
proof -
  obtain c where "foldl record_step (r, False) m = (r', c)" "\<not> c"
    using assms(1) by (auto simp: record_resolutions_def Let_def split: prod.splits if_splits)
  then have s: "r' = r ++ map_of m" "\<forall>t e. r t = Some e \<longrightarrow> map_of m t \<in> {None, Some e}"
    using record_steps [of r False m r'] assms(2) by auto
  show "r \<subseteq>\<^sub>m r'" using s by (fastforce simp: map_le_def map_add_def split: option.splits)
  show "map_of m \<subseteq>\<^sub>m r'" using s by simp
  show "r' t = Some e \<Longrightarrow> r t = Some e \<or> (t, e) \<in> set m" using s by (auto dest: map_of_SomeD)
qed

section \<open>The rounds\<close>

text \<open>What a round can lose: assertions of identity attributes for entities found in the store.\<close>

definition known_identity :: "schema \<Rightarrow> temp_id_map \<Rightarrow> datom \<Rightarrow> bool" where
  "known_identity s r x \<longleftrightarrow> d_op x = Assert_op \<and> (\<exists>a. upsert_attr s a \<and> d_attribute x = attribute_ident s a) \<and>
     d_entity x \<in> ran r"

lemma known_identity_mono: "r \<subseteq>\<^sub>m r' \<Longrightarrow> known_identity s r x \<Longrightarrow> known_identity s r' x"
  using map_le_Some [of r r'] unfolding known_identity_def ran_def by blast

lemma evolve_upsert_e_upserted:
  assumes "evolve_upsert_e m r s g u = Ok g'" and "m \<subseteq>\<^sub>m r" and "upsert_attr s (e_attr u)"
    and "\<forall>x \<in> set (upserted g). known_identity s r x"
  shows "\<forall>x \<in> set (upserted g'). known_identity s r x"
proof -
  obtain t a v where u: "u = UpsertE t a v" by (cases u)
  obtain attr where attr: "entid_map s a = Some attr"
    using assms(1) by (auto simp: evolve_upsert_e_def u ok_or_def split: option.splits)
  have k: "known_identity s r \<lparr>d_entity = e, d_attribute = attr, d_value = v, d_op = Assert_op\<rparr>" if "m t = Some e" for e
    using map_le_Some [OF assms(2) that] attribute_ident_Some [OF attr] assms(3) u
    by (auto simp: known_identity_def intro: ranI)
  show ?thesis
    using assms(1,4) attr k by (auto simp: evolve_upsert_e_def u ok_or_def split: option.splits)
qed

lemma evolve_upsert_ev_wf:
  "evolve_upsert_ev m r s g u = Ok g' \<Longrightarrow> upserts_wf s g \<Longrightarrow> upsert_attr s (ev_attr u) \<Longrightarrow> upserts_wf s g'"
  by (cases u) (auto simp: evolve_upsert_ev_def ok_or_def upserts_wf_def split: option.splits)

lemma evolve_one_step_wf:
  assumes "evolve_one_step g m r s = Ok g'" and "m \<subseteq>\<^sub>m r" and "upserts_wf s g"
  shows "upserts_wf s g'" and "\<forall>x \<in> set (upserted g'). known_identity s r x"
proof -
  obtain g1 g2 where 1: "rfold (evolve_upsert_e m r s) (empty_generation\<lparr>resolved := resolved g\<rparr>) (upserts_e g) = Ok g1"
    and 2: "rfold (evolve_upsert_ev m r s) g1 (upserts_ev g) = Ok g2"
    and 3: "g' = foldl (evolve_allocation r) g2 (allocations g)"
    using evolve_one_stepE [OF assms(1)] map_add_le [OF assms(2)] by metis
  have "upserts_wf s g1"
  proof (rule rfold_keeps [OF 1])
    show "upserts_wf s (empty_generation\<lparr>resolved := resolved g\<rparr>)" by (simp add: upserts_wf_def empty_generation_def)
    show "upserts_wf s h'" if "evolve_upsert_e m r s h u = Ok h'" "upserts_wf s h" for h u h'
      using evolve_upsert_e_items(3) [OF that(1) assms(2) map_le_refl] that(2) by (simp add: upserts_wf_def)
  qed
  then have "upserts_wf s g2"
  proof (rule rfold_keeps [OF 2])
    show "upserts_wf s h'" if "u \<in> set (upserts_ev g)" "evolve_upsert_ev m r s h u = Ok h'" "upserts_wf s h" for h u h'
      using evolve_upsert_ev_wf [OF that(2,3)] assms(3) that(1) by (simp add: upserts_wf_def)
  qed
  then show "upserts_wf s g'"
    unfolding 3 by (rule foldl_keeps) (simp add: evolve_allocation_items(3) [OF map_le_refl] upserts_wf_def)
  have "\<forall>x \<in> set (upserted g1). known_identity s r x"
  proof (rule rfold_keeps [OF 1])
    show "\<forall>x \<in> set (upserted (empty_generation\<lparr>resolved := resolved g\<rparr>)). known_identity s r x"
      by (simp add: empty_generation_def)
    show "\<forall>x \<in> set (upserted h'). known_identity s r x"
      if "u \<in> set (upserts_e g)" "evolve_upsert_e m r s h u = Ok h'" "\<forall>x \<in> set (upserted h). known_identity s r x" for h u h'
      using evolve_upsert_e_upserted [OF that(2) assms(2) _ that(3)] assms(3) that(1) by (simp add: upserts_wf_def)
  qed
  then have "\<forall>x \<in> set (upserted g2). known_identity s r x"
    by (rule rfold_keeps [OF 2]) (simp add: evolve_upsert_ev_items(4) [OF _ assms(2) map_le_refl])
  then show "\<forall>x \<in> set (upserted g'). known_identity s r x"
    unfolding 3 by (rule foldl_keeps) (simp add: evolve_allocation_items(3) [OF map_le_refl])
qed

text \<open>The values to look up can be stored: those of the transaction can, the others are identifiers.\<close>

primrec e_val :: "upsert_e \<Rightarrow> data_type" where "e_val (UpsertE t a v) = v"

definition e_storable :: "generation \<Rightarrow> bool" where
  "e_storable g \<longleftrightarrow> (\<forall>u \<in> set (upserts_e g). storable (e_val u))"

lemma e_storable_avs: "e_storable g \<Longrightarrow> \<forall>(t, l) \<in> set (temp_id_avs g). storable (snd l)"
  by (force simp: e_storable_def temp_id_avs_def split: upsert_e.splits)

lemma evolve_one_step_storable:
  assumes "evolve_one_step g m r s = Ok g'" and "m \<subseteq>\<^sub>m r"
  shows "e_storable g'"
proof -
  obtain g1 g2 where 1: "rfold (evolve_upsert_e m r s) (empty_generation\<lparr>resolved := resolved g\<rparr>) (upserts_e g) = Ok g1"
    and 2: "rfold (evolve_upsert_ev m r s) g1 (upserts_ev g) = Ok g2"
    and 3: "g' = foldl (evolve_allocation r) g2 (allocations g)"
    using evolve_one_stepE [OF assms(1)] map_add_le [OF assms(2)] by metis
  have "upserts_e g1 = []"
    by (rule rfold_keeps [OF 1], simp add: empty_generation_def)
      (use evolve_upsert_e_items(3) [OF _ assms(2) map_le_refl] in metis)
  then have "e_storable g1" by (simp add: e_storable_def)
  then have "e_storable g2"
  proof (rule rfold_keeps [OF 2])
    show "e_storable h'" if "evolve_upsert_ev m r s h u = Ok h'" "e_storable h" for h u h'
      using that by (cases u) (auto simp: evolve_upsert_ev_def ok_or_def e_storable_def split: option.splits)
  qed
  then show ?thesis
    unfolding 3 by (rule foldl_keeps) (simp add: evolve_allocation_items(3) [OF map_le_refl] e_storable_def)
qed

text \<open>An id found in the store is justified by an assertion of the transaction that holds there.\<close>

definition justified ::
  "schema \<Rightarrow> generation \<Rightarrow> (unique_lookup \<Rightarrow> entid \<Rightarrow> bool) \<Rightarrow> temp_id_map \<Rightarrow> bool" where
  "justified s g holds r \<longleftrightarrow> (\<forall>t e. r t = Some e \<longrightarrow> (\<exists>a v. upsert_attr s a \<and> holds (a, v) e \<and>
     (\<forall>f. r \<subseteq>\<^sub>m f \<longrightarrow>
        Some \<lparr>d_entity = e, d_attribute = attribute_ident s a, d_value = v, d_op = Assert_op\<rparr> \<in> items s f g)))"

lemma evolve_loop_ok:
  assumes resolve: "\<And>avs m t e. resolve_temp_id_avs ops n ts avs db = Ok m \<Longrightarrow>
      \<forall>(t, l) \<in> set avs. storable (snd l) \<Longrightarrow> (t, e) \<in> set m \<Longrightarrow> \<exists>l. (t, l) \<in> set avs \<and> holds l e"
    and wf_m: "\<And>avs m. resolve_temp_id_avs ops n ts avs db = Ok m \<Longrightarrow> hm_wf m"
  shows "evolve_loop ops n ts s db k g r = Ok (g', r') \<Longrightarrow> upserts_wf s g \<Longrightarrow> unresolved_only s r g \<Longrightarrow>
    (\<And>f. r \<subseteq>\<^sub>m f \<Longrightarrow> items s f g0 = items s f g \<union> Some ` L) \<Longrightarrow>
    \<forall>x \<in> L \<union> set (upserted g). known_identity s r x \<Longrightarrow> justified s g0 holds r \<Longrightarrow> e_storable g \<Longrightarrow>
    \<exists>L'. r \<subseteq>\<^sub>m r' \<and> upserts_e g' = [] \<and> unresolved_only s r' g' \<and>
      (\<forall>f. r' \<subseteq>\<^sub>m f \<longrightarrow> items s f g0 = items s f g' \<union> Some ` L') \<and>
      (\<forall>x \<in> L'. known_identity s r' x) \<and> justified s g0 holds r' \<and>
      (upserts_ev g = [] \<and> (upserts_e g = [] \<or> upserted g = []) \<and> L = {} \<longrightarrow> L' = {})"
proof (induction k arbitrary: g r L)
  case (Suc k)
  show ?case
  proof (cases "can_evolve g")
    case False
    then have "g' = g" "r' = r" "upserts_e g = []" using Suc.prems(1) by (simp_all add: can_evolve_def)
    then show ?thesis using Suc.prems by (intro exI [of _ L]) auto
  next
    case True
    obtain m r1 g1 where m: "resolve_temp_id_avs ops n ts (temp_id_avs g) db = Ok m"
      and r1: "record_resolutions r m = Ok r1" and g1: "evolve_one_step g (map_of m) r1 s = Ok g1"
      and rest: "evolve_loop ops n ts s db k g1 r1 = Ok (g', r')"
      using Suc.prems(1) True by auto
    note rec = record_resolutions_Ok [OF r1 wf_m [OF m]]
    note wf1 = evolve_one_step_wf [OF g1 rec(2) Suc.prems(2)]
    let ?L = "L \<union> set (upserted g)"
    have i1: "items s f g0 = items s f g1 \<union> Some ` ?L" if "r1 \<subseteq>\<^sub>m f" for f
      using evolve_one_step_items [OF g1 rec(2) that] Suc.prems(4) [OF map_le_trans [OF rec(1) that]] by auto
    have k1: "\<forall>x \<in> ?L \<union> set (upserted g1). known_identity s r1 x"
      using wf1(2) Suc.prems(5) known_identity_mono [OF rec(1)] by auto
    have j1: "justified s g0 holds r1"
      unfolding justified_def
    proof (intro allI impI)
      fix t e assume te: "r1 t = Some e"
      show "\<exists>a v. upsert_attr s a \<and> holds (a, v) e \<and> (\<forall>f. r1 \<subseteq>\<^sub>m f \<longrightarrow>
          Some \<lparr>d_entity = e, d_attribute = attribute_ident s a, d_value = v, d_op = Assert_op\<rparr> \<in> items s f g0)"
      proof (cases "r t = Some e")
        case True
        then show ?thesis using Suc.prems(6) map_le_trans [OF rec(1)] unfolding justified_def by blast
      next
        case False
        then have "(t, e) \<in> set m" using rec(3) [OF te] by blast
        then obtain a v where av: "(t, (a, v)) \<in> set (temp_id_avs g)" "holds (a, v) e"
          using resolve [OF m e_storable_avs [OF Suc.prems(7)]] by (metis surj_pair)
        then have u: "UpsertE t a v \<in> set (upserts_e g)" by (auto simp: temp_id_avs_def split: upsert_e.splits)
        have "Some \<lparr>d_entity = e, d_attribute = attribute_ident s a, d_value = v, d_op = Assert_op\<rparr> \<in> items s f g0"
          if f: "r1 \<subseteq>\<^sub>m f" for f
        proof -
          have "f t = Some e" using map_le_Some [OF f te] .
          then have "instance_of f (e_datom s (UpsertE t a v)) =
              Some \<lparr>d_entity = e, d_attribute = attribute_ident s a, d_value = v, d_op = Assert_op\<rparr>"
            by (simp add: e_datom_def instance_of_simps)
          then show ?thesis
            using u Suc.prems(4) [OF map_le_trans [OF rec(1) f]] unfolding items_def pending_def by (metis UnI1 imageI)
        qed
        then show ?thesis using av(2) Suc.prems(2) u unfolding upserts_wf_def by fastforce
      qed
    qed
    obtain L' where L': "r1 \<subseteq>\<^sub>m r'" "upserts_e g' = []" "unresolved_only s r' g'"
      "\<forall>f. r' \<subseteq>\<^sub>m f \<longrightarrow> items s f g0 = items s f g' \<union> Some ` L'" "\<forall>x \<in> L'. known_identity s r' x"
      "justified s g0 holds r'" "upserts_ev g1 = [] \<and> (upserts_e g1 = [] \<or> upserted g1 = []) \<and> ?L = {} \<longrightarrow> L' = {}"
      using Suc.IH [OF rest wf1(1) evolve_one_step_unresolved [OF g1 rec(2)] i1 k1 j1
          evolve_one_step_storable [OF g1 rec(2)]] by blast
    have "L' = {}" if "upserts_ev g = [] \<and> (upserts_e g = [] \<or> upserted g = []) \<and> L = {}"
      using that evolve_one_step_size [OF g1 rec(2)] L'(7) True by (simp add: can_evolve_def)
    then show ?thesis using L' map_le_trans [OF rec(1) L'(1)] by blast
  qed
qed simp

section \<open>Allocation\<close>

lemma allocate_labels_ok:
  assumes "pm_wf pm" and "allocate_labels pm ps = Ok (eids, pm')"
  shows "length eids = length ps \<and> distinct eids \<and> map extract_partition eids = ps \<and>
    (\<forall>e \<in> set eids. \<not> contains_entid pm e \<and> contains_entid pm' e) \<and>
    (\<forall>e. contains_entid pm e \<longrightarrow> contains_entid pm' e) \<and> pm_wf pm'"
  using assms
proof (induction ps arbitrary: pm eids)
  case (Cons p ps)
  obtain e pm1 es where a: "allocate_entid pm p = Ok (e, pm1)" and r: "allocate_labels pm1 ps = Ok (es, pm')"
    and eids: "eids = e # es"
    using Cons.prems(2) by auto
  note f = allocate_entid_ok [OF Cons.prems(1) a]
  have "pm_wf pm1" using f by blast
  from Cons.IH [OF this r] f show ?case unfolding eids by auto
qed simp

lemma assign_labels_Ok:
  assumes "assign_labels eids labels = Ok m" and "distinct (map fst labels)"
  shows "dom m = fst ` set labels" and "(t, l) \<in> set labels \<Longrightarrow> l < length eids \<and> m t = Some (eids ! l)"
proof -
  let ?f = "\<lambda>m (tempid, label). if label < length eids then Ok (m(tempid \<mapsto> eids ! label))
       else Error (Panic ''index out of bounds'')"
  have "dom m = dom m0 \<union> fst ` set labels \<and> (\<forall>(t, l) \<in> set labels. l < length eids \<and> m t = Some (eids ! l)) \<and>
      (\<forall>t. t \<notin> fst ` set labels \<longrightarrow> m t = m0 t)"
    if "rfold ?f m0 labels = Ok m" for m0
    using that assms(2)
  proof (induction labels arbitrary: m0)
    case (Cons x labels)
    obtain t l where x: "x = (t, l)" by (cases x)
    have l: "l < length eids" using Cons.prems(1) by (auto simp: x split: if_splits)
    have "rfold ?f (m0(t \<mapsto> eids ! l)) labels = Ok m" using Cons.prems(1) l by (simp add: x)
    moreover have "distinct (map fst labels)" and t: "t \<notin> fst ` set labels" using Cons.prems(2) by (simp_all add: x)
    ultimately have IH: "dom m = dom (m0(t \<mapsto> eids ! l)) \<union> fst ` set labels"
      "\<forall>(t, l) \<in> set labels. l < length eids \<and> m t = Some (eids ! l)"
      "\<forall>t'. t' \<notin> fst ` set labels \<longrightarrow> m t' = (m0(t \<mapsto> eids ! l)) t'"
      using Cons.IH by blast+
    have "m t = Some (eids ! l)" using IH(3) t by simp
    then show ?case using IH l by (auto simp: x)
  qed auto
  from this [of Map.empty] assms(1)
  show "dom m = fst ` set labels" and "(t, l) \<in> set labels \<Longrightarrow> l < length eids \<and> m t = Some (eids ! l)"
    unfolding assign_labels_def by auto
qed

text \<open>A group of ids goes to the partition of schema entities when one of them names a schema entity.\<close>

lemma fold_max_labels: "fold max (map h xs) n = Max (insert n (h ` set xs))" for h :: "'a \<Rightarrow> nat"
proof (induction xs arbitrary: n)
  case (Cons x xs)
  have "fold max (map h (x # xs)) n = Max (insert (max (h x) n) (h ` set xs))"
    using Cons [of "max (h x) n"] by simp
  also have "\<dots> = Max (insert n (h ` set (x # xs)))"
    by (cases "set xs = {}") (simp_all add: max.assoc max.commute max.left_commute)
  finally show ?case .
qed simp

definition group_partition :: "(string \<rightharpoonup> u32) \<Rightarrow> (string \<times> nat) list \<Rightarrow> nat \<Rightarrow> u32" where
  "group_partition inferred labels l =
     (if \<exists>(t, l') \<in> set labels. l' = l \<and> inferred t = Some DB_PARTITION then DB_PARTITION else DEFAULT_PARTITION)"

lemma allocation_partitions_fold:
  assumes "\<forall>(t, l) \<in> set labels. l < length parts"
    and "\<forall>l < length parts. parts ! l = group_partition inferred done l"
  shows "\<exists>parts'. rfold (\<lambda>parts (tempid, label).
           case inferred tempid of
             None \<Rightarrow> Ok parts
           | Some p \<Rightarrow>
               if label < length parts then Ok (parts[label := dominant_partition (parts ! label) p])
               else Error (Panic ''index out of bounds'')) parts labels = Ok parts' \<and>
    length parts' = length parts \<and> (\<forall>l < length parts. parts' ! l = group_partition inferred (done @ labels) l)"
  using assms
proof (induction labels arbitrary: parts "done")
  case (Cons x labels)
  obtain t l where x: "x = (t, l)" by (cases x)
  define parts1 where "parts1 = (case inferred t of None \<Rightarrow> parts | Some p \<Rightarrow> parts[l := dominant_partition (parts ! l) p])"
  have len: "length parts1 = length parts" by (simp add: parts1_def split: option.splits)
  have l: "l < length parts" using Cons.prems(1) x by simp
  have "parts1 ! j = group_partition inferred (done @ [x]) j" if "j < length parts1" for j
    using Cons.prems(2) l that
    by (auto simp: parts1_def x group_partition_def dominant_partition_def nth_list_update partition_defs split: option.splits)
  then obtain parts' where "rfold (\<lambda>parts (tempid, label).
           case inferred tempid of
             None \<Rightarrow> Ok parts
           | Some p \<Rightarrow>
               if label < length parts then Ok (parts[label := dominant_partition (parts ! label) p])
               else Error (Panic ''index out of bounds'')) parts1 labels = Ok parts'"
    "length parts' = length parts1" "\<forall>l < length parts1. parts' ! l = group_partition inferred ((done @ [x]) @ labels) l"
    using Cons.IH [of parts1 "done @ [x]"] Cons.prems(1) len by auto
  then show ?case using l len by (intro exI [of _ parts']) (auto simp: x parts1_def split: option.splits)
qed simp

lemma allocation_partitions_ok:
  assumes "snd ` set labels = {0..<k}"
  shows "allocation_partitions inferred labels = Ok (map (group_partition inferred labels) [0..<k])"
proof -
  let ?n = "fold max (map (Suc \<circ> snd) labels) 0"
  have "(Suc \<circ> snd) ` set labels = Suc ` {0..<k}" using assms by (metis image_comp)
  then have n: "?n = k"
    unfolding fold_max_labels by (cases k) (auto intro!: Max_eqI simp: image_iff)
  have "\<forall>(t, l) \<in> set labels. l < k" using assms by (metis (no_types, lifting) atLeastLessThan_iff case_prodI2 image_eqI snd_conv)
  then obtain parts' where "allocation_partitions inferred labels = Ok parts'" "length parts' = k"
    "\<forall>l < k. parts' ! l = group_partition inferred labels l"
    using allocation_partitions_fold [of labels "replicate k DEFAULT_PARTITION" inferred "[]"]
    by (auto simp: allocation_partitions_def n group_partition_def Let_def)
  moreover have "parts' = map (group_partition inferred labels) [0..<k]"
    using calculation(2,3) by (intro nth_equalityI) simp_all
  ultimately show ?thesis by simp
qed

section \<open>Resolution as a whole\<close>

text \<open>The store of a transaction: its value index holds the versions \<open>R\<close>, and the fuel covers it.\<close>

definition value_store ::
  "('db, 'it) slate_ops \<Rightarrow> ('db \<Rightarrow> bytes set) \<Rightarrow> ('it \<Rightarrow> bytes list) \<Rightarrow> ('it \<Rightarrow> bytes option) \<Rightarrow>
     timestamp_opt \<Rightarrow> (int \<Rightarrow> bool) \<Rightarrow> nat \<Rightarrow> 'db \<Rightarrow> version set \<Rightarrow> bool" where
  "value_store ops keys rest lk ts okt n db R \<longleftrightarrow>
     slate_law ops keys rest lk \<and> timestamp_law ts okt \<and> (\<forall>(e, a, v, tx, op) \<in> R. dt_wf okt v) \<and>
     {k \<in> keys db. prefix [VAE] k} = version_key VAE_index ` R \<and> card (version_key VAE_index ` R) < n"

lemma value_store_lookup:
  assumes "value_store ops keys rest lk ts okt n db R" and "\<forall>(a, v) \<in> set lookups. storable v"
  shows "\<exists>found. batch_lookup_unique_eids ops n ts db lookups = Ok found \<and>
    (\<forall>l e. lookup_get found l = Some e \<longrightarrow> (\<exists>tx op. fact_holds i64_MAX R (e, fst l, snd l, tx, op)))"
proof -
  have laws: "slate_law ops keys rest lk" "timestamp_law ts okt" "\<forall>(e, a, v, tx, op) \<in> R. dt_wf okt v"
    "{k \<in> keys db. prefix [VAE] k} = version_key VAE_index ` R" "card (version_key VAE_index ` R) < n"
    using assms(1) by (auto simp: value_store_def)
  obtain res where res: "batch_lookup_unique_eids ops n ts db lookups = Ok res"
    "\<forall>(a, v) \<in> set lookups. \<forall>e. res (a, v) = Some e \<longrightarrow> (\<exists>tx op. fact_holds i64_MAX R (e, a, v, tx, op))"
    "\<forall>l. l \<notin> set lookups \<longrightarrow> res l = None"
    using batch_lookup_ok [OF laws(1-3) assms(2) laws(4,5)] by (elim exE conjE) (rule that, assumption, blast, blast)
  have "\<exists>tx op. fact_holds i64_MAX R (e, fst l, snd l, tx, op)" if "lookup_get res l = Some e" for l e
  proof -
    have "res l = Some e" using that by (auto simp: lookup_get_def split: if_splits)
    moreover then have "l \<in> set lookups" using res(3) by fastforce
    ultimately show ?thesis using res(2) by (cases l) auto
  qed
  then show ?thesis using res(1) by blast
qed

text \<open>Assembling the result from the last generation.\<close>

lemma final_items:
  assumes g: "allocate_unresolved_upserts g1 s = Ok g" and e: "upserts_e g1 = []" and u: "unresolved_only s r g1"
    and labels: "temp_ids_in_allocations g s = Ok labels" and m: "dom m = fst ` set labels"
    and p: "into_final_populations g m = Ok pops"
  shows "r \<subseteq>\<^sub>m r ++ m" and "dom m \<inter> dom r = {}"
    and "items s (r ++ m) g1 = Some ` (set (f_upserted pops) \<union> set (f_resolved pops) \<union> set (f_allocated pops))"
proof -
  note ag = allocate_unresolved_items [OF g]
  have al: "set (allocations g) = ev_datom s ` set (upserts_ev g1) \<union> set (allocations g1)" by (rule ag(6))
  note lab = temp_ids_in_allocations_labels [OF labels]
  show disj: "dom m \<inter> dom r = {}"
  proof -
    have "t \<notin> dom r" if t: "t \<in> dom m" for t
    proof -
      obtain d where "d \<in> set (allocations g)" "w_entity d = ITTempId t" using t lab(1) m by auto
      then have "d \<in> ev_datom s ` set (upserts_ev g1) \<union> set (allocations g1)" "t \<in> tempids_of d"
        using al by (auto simp: tempids_of_def)
      then show ?thesis using u unfolding unresolved_only_def by blast
    qed
    then show ?thesis by blast
  qed
  then show "r \<subseteq>\<^sub>m r ++ m" by (metis Int_commute map_add_comm map_le_map_add)
  have inst: "instance_of (r ++ m) d = instance_of m d" if "d \<in> set (allocations g)" for d
  proof (rule instance_of_cong)
    fix t assume "t \<in> tempids_of d"
    then have "t \<in> dom m" using lab(3) that m by blast
    then show "(r ++ m) t = m t" by (auto simp: map_add_def)
  qed
  have fin: "f_upserted pops = upserted g" "f_resolved pops = resolved g"
    "map Some (f_allocated pops) = map (instance_of m) (allocations g)"
    using into_final_populations_Ok [OF p] by simp_all
  have "Some ` set (f_allocated pops) = instance_of m ` set (allocations g)"
    using arg_cong [OF fin(3), of set] by simp
  also have "\<dots> = instance_of (r ++ m) ` pending s g1"
    using inst ag(1) [symmetric] ag(4,5) e by (simp add: pending_def)
  finally show "items s (r ++ m) g1 = Some ` (set (f_upserted pops) \<union> set (f_resolved pops) \<union> set (f_allocated pops))"
    using fin(1,2) ag(2,3) by (auto simp: items_def image_Un)
qed

definition complex_upsert :: "schema \<Rightarrow> datom_with_tempids \<Rightarrow> bool" where
  "complex_upsert s d \<longleftrightarrow> identity_key s d \<noteq> None \<and> (\<exists>t. w_entity d = ITTempId t) \<and> (\<exists>t. w_value d = VTTempRef t)"

lemma generation_step_populations:
  assumes "generation_step s p d = Ok p'"
  shows "upserts_ev (fst p') = upserts_ev (fst p) \<or> complex_upsert s d"
    and "upserts_e (fst p') = upserts_e (fst p) \<or>
      (\<exists>t a v. w_value d = VTData v \<and> upserts_e (fst p') = upserts_e (fst p) @ [UpsertE t a v])"
proof -
  obtain g inert where p: "p = (g, inert)" by (cases p)
  obtain ae i where ai: "datom_with_entid_attr s d = Ok (ae, i)"
    using assms by (auto simp: generation_step_def p)
  have key: "w_op d = Assert_op \<Longrightarrow> i \<Longrightarrow> identity_key s d \<noteq> None"
    using ai by (auto simp: datom_with_entid_attr_def ok_or_def identity_key_def split: option.splits)
  note step = assms [unfolded generation_step_def p, simplified, unfolded ai, simplified, unfolded Let_def]
  show "upserts_ev (fst p') = upserts_ev (fst p) \<or> complex_upsert s d"
    using step key by (cases "w_entity d"; cases "w_value d") (auto simp: p complex_upsert_def split: if_splits)
  show "upserts_e (fst p') = upserts_e (fst p) \<or>
      (\<exists>t a v. w_value d = VTData v \<and> upserts_e (fst p') = upserts_e (fst p) @ [UpsertE t a v])"
    using step by (cases "w_entity d"; cases "w_value d") (auto simp: p split: if_splits)
qed

lemma generation_from_simple:
  assumes "generation_from datoms s = Ok (g, inert)" and "\<forall>d \<in> set datoms. \<not> complex_upsert s d"
  shows "upserts_ev g = []"
proof -
  have "upserts_ev (fst (g, inert)) = []"
  proof (rule rfold_keeps [OF assms(1) [unfolded generation_from_def]])
    show "upserts_ev (fst (empty_generation, [])) = []" by (simp add: empty_generation_def)
    show "upserts_ev (fst p') = []" if "d \<in> set datoms" "generation_step s p d = Ok p'" "upserts_ev (fst p) = []" for p d p'
      using generation_step_populations(1) [OF that(2)] that(1,3) assms(2) by auto
  qed
  then show ?thesis by simp
qed

lemma generation_from_storable:
  assumes "generation_from datoms s = Ok (g, inert)" and "\<forall>d \<in> set datoms. \<forall>v. w_value d = VTData v \<longrightarrow> storable v"
  shows "e_storable g"
proof -
  have "e_storable (fst (g, inert))"
  proof (rule rfold_keeps [OF assms(1) [unfolded generation_from_def]])
    show "e_storable (fst (empty_generation, []))" by (simp add: empty_generation_def e_storable_def)
    show "e_storable (fst p')" if "d \<in> set datoms" "generation_step s p d = Ok p'" "e_storable (fst p)" for p d p'
      using generation_step_populations(2) [OF that(2)] that(1,3) assms(2) by (auto simp: e_storable_def)
  qed
  then show ?thesis by simp
qed

lemma resolve_temp_id_avs_holds:
  assumes st: "value_store ops keys rest lk ts okt n db R" and avs: "\<forall>(t, l) \<in> set avs. storable (snd l)"
    and m: "resolve_temp_id_avs ops n ts avs db = Ok m" and te: "(t, e) \<in> set m"
  shows "\<exists>l. (t, l) \<in> set avs \<and> (\<exists>tx op. fact_holds i64_MAX R (e, fst l, snd l, tx, op))"
proof -
  have "\<forall>(a, v) \<in> set (map snd avs). storable v" using avs by auto
  then obtain found where f: "batch_lookup_unique_eids ops n ts db (map snd avs) = Ok found"
    "\<forall>l e. lookup_get found l = Some e \<longrightarrow> (\<exists>tx op. fact_holds i64_MAX R (e, fst l, snd l, tx, op))"
    using value_store_lookup [OF st] by blast
  obtain found' where f': "batch_lookup_unique_eids ops n ts db (map snd avs) = Ok found'"
    "\<And>t e. (t, e) \<in> set m \<Longrightarrow> \<exists>l. (t, l) \<in> set avs \<and> lookup_get found' l = Some e"
    by (rule resolve_temp_id_avs_found [OF m]) (rule that)
  obtain l where l: "(t, l) \<in> set avs" "lookup_get found' l = Some e" using f'(2) [OF te] by blast
  have "found' = found" using f(1) f'(1) by simp
  then show ?thesis using l f(2) by blast
qed

text \<open>The assignment behind the result of a resolution.\<close>

lemma resolve_tempids_ok:
  assumes "value_store ops keys rest lk ts okt n db R" and "names_wf s" and "pm_wf pm"
    and "\<forall>d \<in> set datoms. \<forall>v. w_value d = VTData v \<longrightarrow> storable v"
    and "resolve_tempids ops n ts datoms s db pm = Ok (out, pm')"
  shows "\<exists>ids found. found \<subseteq>\<^sub>m ids \<and>
    (\<forall>x \<in> set out. \<exists>d \<in> set datoms. instance_of ids d = Some x) \<and>
    (\<forall>d \<in> set datoms. \<exists>x. instance_of ids d = Some x \<and> (x \<in> set out \<or> known_identity s found x)) \<and>
    ((\<forall>d \<in> set datoms. \<not> complex_upsert s d) \<longrightarrow> (\<forall>d \<in> set datoms. \<exists>x \<in> set out. instance_of ids d = Some x)) \<and>
    (\<forall>t e. found t = Some e \<longrightarrow> (\<exists>d \<in> set datoms. \<exists>x a tx op. instance_of ids d = Some x \<and> d_entity x = e \<and>
       ident_map s (d_attribute x) = Some a \<and> identity_attribute s a \<and>
       fact_holds i64_MAX R (e, a, d_value x, tx, op))) \<and>
    (\<forall>t e. ids t = Some e \<and> found t = None \<longrightarrow> \<not> contains_entid pm e \<and> contains_entid pm' e)"
proof -
  obtain g0 inert g1 found g labels parts eids m pops where
    g0: "generation_from datoms s = Ok (g0, inert)"
    and loop: "evolve_loop ops n ts s db (Suc (Suc (length (upserts_ev g0)))) g0 Map.empty = Ok (g1, found)"
    and g: "allocate_unresolved_upserts g1 s = Ok g" and labels: "temp_ids_in_allocations g s = Ok labels"
    and eids: "allocate_labels pm parts = Ok (eids, pm')" and m: "assign_labels eids labels = Ok m"
    and pops: "into_final_populations g m = Ok pops"
    and out: "out = f_upserted pops @ f_resolved pops @ f_allocated pops @ inert"
    using assms(5) by (auto simp: resolve_tempids_def Let_def)
  let ?h = "\<lambda>l e. \<exists>tx op. fact_holds i64_MAX R (e, fst l, snd l, tx, op)"
  note from0 = generation_from_items [OF g0 assms(2)]
  have wf_m: "hm_wf m" if "resolve_temp_id_avs ops n ts avs db = Ok m" for avs m
    by (rule resolve_temp_id_avs_found [OF that])
  have res: "\<exists>l. (t, l) \<in> set avs \<and> ?h l e"
    if "resolve_temp_id_avs ops n ts avs db = Ok m" "\<forall>(t, l) \<in> set avs. storable (snd l)" "(t, e) \<in> set m" for avs m t e
    by (rule resolve_temp_id_avs_holds [OF assms(1) that(2,1,3)])
  have un: "unresolved_only s Map.empty g0" by (simp add: unresolved_only_def)
  have i0: "items s f g0 = items s f g0 \<union> Some ` {}" if "Map.empty \<subseteq>\<^sub>m f" for f by simp
  have k0: "\<forall>x \<in> {} \<union> set (upserted g0). known_identity s Map.empty x" using from0(3) by simp
  have j0: "justified s g0 ?h Map.empty" by (simp add: justified_def)
  have ex: "\<exists>L'. Map.empty \<subseteq>\<^sub>m found \<and> upserts_e g1 = [] \<and> unresolved_only s found g1 \<and>
      (\<forall>f. found \<subseteq>\<^sub>m f \<longrightarrow> items s f g0 = items s f g1 \<union> Some ` L') \<and>
      (\<forall>x \<in> L'. known_identity s found x) \<and> justified s g0 ?h found \<and>
      (upserts_ev g0 = [] \<and> (upserts_e g0 = [] \<or> upserted g0 = []) \<and> ({} :: datom set) = {} \<longrightarrow> L' = {})"
    by (rule evolve_loop_ok [where holds = ?h and L = "{}"])
      (rule res, assumption+, rule wf_m, assumption, rule loop, rule from0(2), rule un, rule i0, assumption,
        rule k0, rule j0, rule generation_from_storable [OF g0 assms(4)])
  obtain L where L: "upserts_e g1 = []" "unresolved_only s found g1"
      "\<forall>f. found \<subseteq>\<^sub>m f \<longrightarrow> items s f g0 = items s f g1 \<union> Some ` L" "\<forall>x \<in> L. known_identity s found x"
      "justified s g0 ?h found" "upserts_ev g0 = [] \<longrightarrow> L = {}"
    using ex from0(3) by (elim exE conjE) (rule that, assumption+, blast)
  note lab = temp_ids_in_allocations_labels [OF labels]
  note asg = assign_labels_Ok [OF m lab(2)]
  note fin = final_items [OF g L(1,2) labels asg(1) pops]
  let ?ids = "found ++ m"
  have all: "instance_of ?ids ` set datoms = Some ` set out \<union> Some ` L"
    using from0(1) [of ?ids] L(3) fin(1,3) unfolding out by (auto simp: image_Un)
  have fresh: "\<not> contains_entid pm e \<and> contains_entid pm' e" if "?ids t = Some e" "found t = None" for t e
  proof -
    have "m t = Some e" using that by (auto simp: map_add_def split: option.splits)
    then obtain l where "(t, l) \<in> set labels" using asg(1) by force
    then have "e \<in> set eids" using asg(2) \<open>m t = Some e\<close> by auto
    then show ?thesis using allocate_labels_ok [OF assms(3) eids] by blast
  qed
  have just: "\<exists>d \<in> set datoms. \<exists>x a tx op. instance_of ?ids d = Some x \<and> d_entity x = e \<and>
       ident_map s (d_attribute x) = Some a \<and> identity_attribute s a \<and> fact_holds i64_MAX R (e, a, d_value x, tx, op)"
    if found_t: "found t = Some e" for t e
  proof -
    obtain a v where av: "upsert_attr s a" "?h (a, v) e"
      "Some \<lparr>d_entity = e, d_attribute = attribute_ident s a, d_value = v, d_op = Assert_op\<rparr> \<in> items s ?ids g0"
      using L(5) fin(1) found_t unfolding justified_def by blast
    then have "Some \<lparr>d_entity = e, d_attribute = attribute_ident s a, d_value = v, d_op = Assert_op\<rparr> \<in>
        instance_of ?ids ` set datoms"
      using from0(1) [of ?ids] by blast
    then obtain d where "d \<in> set datoms"
      "instance_of ?ids d = Some \<lparr>d_entity = e, d_attribute = attribute_ident s a, d_value = v, d_op = Assert_op\<rparr>"
      unfolding image_iff by metis
    then show ?thesis using av(1,2) by (fastforce simp: upsert_attr_def)
  qed
  have some: "\<exists>x. instance_of ?ids d = Some x \<and> (x \<in> set out \<or> x \<in> L)" if "d \<in> set datoms" for d
    using imageI [OF that, of "instance_of ?ids"] unfolding all by auto
  have sound: "\<forall>x \<in> set out. \<exists>d \<in> set datoms. instance_of ?ids d = Some x"
  proof
    fix x assume "x \<in> set out"
    then have "Some x \<in> instance_of ?ids ` set datoms" unfolding all by blast
    then show "\<exists>d \<in> set datoms. instance_of ?ids d = Some x" unfolding image_iff by metis
  qed
  have forth: "\<forall>d \<in> set datoms. \<exists>x. instance_of ?ids d = Some x \<and> (x \<in> set out \<or> known_identity s found x)"
    using some L(4) by blast
  have simple: "\<exists>x \<in> set out. instance_of ?ids d = Some x" if "\<forall>d \<in> set datoms. \<not> complex_upsert s d" "d \<in> set datoms" for d
    using some [OF that(2)] generation_from_simple [OF g0 that(1)] L(6) by auto
  show ?thesis
    by (rule exI [of _ ?ids], rule exI [of _ found], intro conjI fin(1) sound forth allI impI ballI)
      (erule (1) simple, erule just, (erule conjE, drule (1) fresh, blast)+)
qed


section \<open>A store with one entity\<close>

text \<open>Entity 5 has the mail 7; the schema is that of the labelling example.\<close>

definition mail_versions :: "version set" where
  "mail_versions = {(5, 1, DLong 7, 4, ADD)}"

definition mail_db :: "bytes list" where
  "mail_db = [version_key VAE_index (5, 1, DLong 7, 4, ADD)]"

lemma mail_store: "value_store list_slate set fst snd any_timestamp (\<lambda>_. True) 3 mail_db mail_versions"
  unfolding value_store_def
proof (intro conjI list_slate_law any_timestamp_law)
  show "{k \<in> set mail_db. prefix [VAE] k} = version_key VAE_index ` mail_versions"
    by (auto simp: mail_db_def mail_versions_def version_key_def index_key_def)
qed (simp_all add: mail_versions_def)

lemma mail_lookup:
  assumes "\<forall>(a, v) \<in> set ls. storable v"
  shows "\<exists>found. batch_lookup_unique_eids list_slate 3 any_timestamp mail_db ls = Ok found \<and>
    (\<forall>l \<in> set ls. found l = (if l = (1, DLong 7) then Some 5 else None))"
proof -
  have h: "fact_holds i64_MAX mail_versions (e, a, v, tx, op) \<longleftrightarrow> (e, a, v, tx, op) = (5, 1, DLong 7, 4, ADD)" for e a v tx op
    by (auto simp: fact_holds_def mail_versions_def index_defs i64_MAX_def)
  have st: "slate_law list_slate set fst snd" "timestamp_law any_timestamp (\<lambda>_. True)"
    "\<forall>(e, a, v, tx, op) \<in> mail_versions. dt_wf (\<lambda>_. True) v"
    "{k \<in> set mail_db. prefix [VAE] k} = version_key VAE_index ` mail_versions"
    "card (version_key VAE_index ` mail_versions) < 3"
    using mail_store unfolding value_store_def by blast+
  obtain found where f: "batch_lookup_unique_eids list_slate 3 any_timestamp mail_db ls = Ok found"
    "\<forall>(a, v) \<in> set ls. (found (a, v) = None \<longleftrightarrow> \<not> (\<exists>e tx op. fact_holds i64_MAX mail_versions (e, a, v, tx, op))) \<and>
       (\<forall>e. found (a, v) = Some e \<longrightarrow> (\<exists>tx op. fact_holds i64_MAX mail_versions (e, a, v, tx, op)))"
    using batch_lookup_ok [OF st(1-3) assms st(4,5)] by blast
  have "found l = (if l = (1, DLong 7) then Some 5 else None)" if "l \<in> set ls" for l
    using f(2) that unfolding h by (cases l; cases "found l") auto
  then show ?thesis using f(1) by blast
qed

definition nick_of :: "string \<Rightarrow> i64 \<Rightarrow> datom_with_tempids" where
  "nick_of t v = \<lparr>w_entity = ITTempId t, w_attribute = kw ''p'' ''nick'', w_value = VTData (DLong v), w_op = Assert_op\<rparr>"

definition boss_of :: "string \<Rightarrow> string \<Rightarrow> datom_with_tempids" where
  "boss_of t t' = \<lparr>w_entity = ITTempId t, w_attribute = kw ''p'' ''boss'', w_value = VTTempRef t', w_op = Assert_op\<rparr>"

lemma sample_attributes:
  "get_attribute identity_schema (kw ''p'' ''mail'') = Some (1, card_one_attr VT_Long (Some U_Identity))"
  "get_attribute identity_schema (kw ''p'' ''boss'') = Some (2, card_one_attr VT_Ref (Some U_Identity))"
  "get_attribute identity_schema (kw ''p'' ''nick'') = Some (3, card_one_attr VT_Long (Some U_Identity))"
  "entid_map identity_schema 1 = Some (kw ''p'' ''mail'')"
  "entid_map identity_schema 2 = Some (kw ''p'' ''boss'')"
  "entid_map identity_schema 3 = Some (kw ''p'' ''nick'')"
  by (simp_all add: get_attribute_def identity_schema_def kw_def)

lemma sample_first_round:
  "generation_from [mail_of ''a'' 7, nick_of ''a'' 9, boss_of ''b'' ''a''] identity_schema =
     Ok (empty_generation\<lparr>upserts_e := [UpsertE ''a'' 1 (DLong 7), UpsertE ''a'' 3 (DLong 9)],
           upserts_ev := [UpsertEV ''b'' 2 ''a'']\<rparr>, [])"
  by (simp add: generation_from_def generation_step_def mail_of_def nick_of_def boss_of_def empty_generation_def
      datom_with_entid_attr_def sample_attributes ok_or_def card_one_attr_def)

lemma sample_avs:
  "\<exists>found. batch_lookup_unique_eids list_slate 3 any_timestamp mail_db [(1, DLong 7), (3, DLong 9)] = Ok found \<and>
     found (1, DLong 7) = Some 5 \<and> found (3, DLong 9) = None"
  "\<exists>found. batch_lookup_unique_eids list_slate 3 any_timestamp mail_db [(2, DLong 5)] = Ok found \<and> found (2, DLong 5) = None"
  using mail_lookup [of "[(1, DLong 7), (3, DLong 9)]"] mail_lookup [of "[(2, DLong 5)]"] by auto

lemma sample_rounds:
  "evolve_loop list_slate 3 any_timestamp identity_schema mail_db (Suc (Suc (Suc 0)))
     (empty_generation\<lparr>upserts_e := [UpsertE ''a'' 1 (DLong 7), UpsertE ''a'' 3 (DLong 9)],
        upserts_ev := [UpsertEV ''b'' 2 ''a'']\<rparr>) Map.empty =
   Ok (empty_generation\<lparr>allocations := [\<lparr>w_entity = ITTempId ''b'', w_attribute = kw ''p'' ''boss'',
         w_value = VTData (DLong 5), w_op = Assert_op\<rparr>]\<rparr>, [''a'' \<mapsto> 5])"
proof -
  have 1: "resolve_temp_id_avs list_slate 3 any_timestamp [(''a'', 1, DLong 7), (''a'', 3, DLong 9)] mail_db = Ok [(''a'', 5)]"
    using sample_avs(1) by (elim exE conjE) (simp add: resolve_temp_id_avs_def candidate_step_def lookup_get_def dt_refl_def Let_def)
  have 2: "resolve_temp_id_avs list_slate 3 any_timestamp [(''b'', 2, DLong 5)] mail_db = Ok []"
    using sample_avs(2) by (elim exE conjE) (simp add: resolve_temp_id_avs_def candidate_step_def lookup_get_def dt_refl_def Let_def)
  show ?thesis
    by (simp add: can_evolve_def temp_id_avs_def empty_generation_def 1 2 record_resolutions_def record_step_def
        evolve_one_step_def evolve_upsert_e_def evolve_upsert_ev_def sample_attributes ok_or_def or_else_def Let_def)
qed

definition sample_datoms :: "datom_with_tempids list" where
  "sample_datoms = [mail_of ''a'' 7, nick_of ''a'' 9, boss_of ''b'' ''a'']"

lemma sample_resolution:
  "resolve_tempids list_slate 3 any_timestamp sample_datoms identity_schema mail_db Map.empty =
     Ok ([\<lparr>d_entity = 8796093022208, d_attribute = kw ''p'' ''boss'', d_value = DLong 5, d_op = Assert_op\<rparr>],
         [USER_PARTITION \<mapsto> 1])"
proof -
  let ?g = "empty_generation\<lparr>allocations := [\<lparr>w_entity = ITTempId ''b'', w_attribute = kw ''p'' ''boss'',
         w_value = VTData (DLong 5), w_op = Assert_op\<rparr>]\<rparr>"
  have l: "temp_ids_in_allocations ?g identity_schema = Ok [(''b'', 0)]" by code_simp
  have a: "allocate_unresolved_upserts ?g identity_schema = Ok ?g"
    by (simp add: allocate_unresolved_upserts_def empty_generation_def)
  have p: "allocation_partitions (infer_tempid_partitions sample_datoms) [(''b'', 0)] = Ok [USER_PARTITION]"
    by (simp add: allocation_partitions_def infer_tempid_partitions_def infer_step_def sample_datoms_def mail_of_def
        nick_of_def boss_of_def kw_def or_insert_def dominant_partition_def partition_defs)
  have e: "allocate_labels Map.empty [USER_PARTITION] = Ok ([8796093022208], [USER_PARTITION \<mapsto> 1])"
    by (simp add: allocate_entid_def allocate_counter_def or_insert_def make_entity_id_def partition_defs Let_def push_bit_eq_mult)
  have r: "evolve_loop list_slate 3 any_timestamp identity_schema mail_db (Suc (Suc (Suc 0)))
     (empty_generation\<lparr>upserts_e := [UpsertE ''a'' 1 (DLong 7), UpsertE ''a'' 3 (DLong 9)],
        upserts_ev := [UpsertEV ''b'' 2 ''a'']\<rparr>) Map.empty = Ok (?g, [''a'' \<mapsto> 5])"
    by (rule sample_rounds)
  show ?thesis
    using r l a p e
    by (simp add: resolve_tempids_def sample_first_round [folded sample_datoms_def] assign_labels_def
        into_final_populations_def final_step_def substitution_defs empty_generation_def del: evolve_loop.simps)
qed


text \<open>C36: An assertion can be lost. Entity 5 of the store has the mail 7. A transaction gives the
  entity with the mail 7 the new nick 9 and makes it the boss of a new entity; all three
  attributes are identities. Resolution succeeds, but the assertion of the nick is not among the
  datoms it returns, although the store has no such fact: the round that resolves the boss drops
  what had upserted in the round before.\<close>

theorem resolve_tempids_loses_assertion:
  "\<exists>out pm'. resolve_tempids list_slate 3 any_timestamp [mail_of ''a'' 7, nick_of ''a'' 9, boss_of ''b'' ''a'']
       identity_schema mail_db Map.empty = Ok (out, pm') \<and>
     \<not> (\<exists>x \<in> set out. d_attribute x = kw ''p'' ''nick'') \<and>
     \<not> (\<exists>e v tx op. fact_holds i64_MAX mail_versions (e, 3, v, tx, op))"
proof -
  have "\<not> fact_holds i64_MAX mail_versions (e, 3, v, tx, op)" for e v tx op
    by (simp add: fact_holds_def mail_versions_def)
  then show ?thesis using sample_resolution by (simp add: sample_datoms_def kw_def)
qed

section \<open>Errors of the resolution\<close>

lemma rfold_Error: "rfold f s xs = Error e \<Longrightarrow> (\<And>s x. f s x = Error e \<Longrightarrow> Q) \<Longrightarrow> Q"
  by (induction xs arbitrary: s) (auto simp: rbind_eq_Error)

lemma rmapM_Error: "rmapM f xs = Error e \<Longrightarrow> (\<And>x. f x = Error e \<Longrightarrow> Q) \<Longrightarrow> Q"
  by (induction xs) (auto simp: rbind_eq_Error)

text \<open>The errors a transaction can meet on the way to the allocation of its identifiers.\<close>

definition resolution_error :: "error \<Rightarrow> bool" where
  "resolution_error e \<longleftrightarrow> e \<in> {Err ''Unknown attribute'', Err ''Unknown attribute entid'', Err ''Conflicting upserts'',
     Err ''[:db/retract ...] referenced tempid that did not upsert'', Err ''Tempid referenced only in value position''}"

lemma datom_with_entid_attr_error: "datom_with_entid_attr s d = Error e \<Longrightarrow> resolution_error e"
  by (auto simp: datom_with_entid_attr_def ok_or_def resolution_error_def split: option.splits)

lemma generation_from_error:
  assumes "generation_from datoms s = Error e"
  shows "resolution_error e"
proof -
  obtain p d where "generation_step s p d = Error e"
    by (rule rfold_Error [OF assms [unfolded generation_from_def]]) (rule that)
  then show ?thesis
    by (cases p) (auto simp: generation_step_def rbind_eq_Error Let_def dest: datom_with_entid_attr_error)
qed

lemma evolve_one_step_error:
  assumes "evolve_one_step g m r s = Error e"
  shows "resolution_error e"
proof -
  have e: "evolve_upsert_e m r s h u = Error e \<Longrightarrow> resolution_error e" for h u
    by (auto simp: evolve_upsert_e_def rbind_eq_Error ok_or_def resolution_error_def split: upsert_e.splits option.splits)
  have ev: "evolve_upsert_ev m r s h u = Error e \<Longrightarrow> resolution_error e" for h u
    by (auto simp: evolve_upsert_ev_def rbind_eq_Error ok_or_def resolution_error_def split: upsert_ev.splits option.splits)
  from assms show ?thesis
    unfolding evolve_one_step_def rbind_eq_Error
    by (elim disjE exE conjE) (erule rfold_Error, erule e, erule rfold_Error, erule ev, simp)
qed

lemma resolve_temp_id_avs_error:
  assumes "value_store ops keys rest lk ts okt n db R" and "\<forall>(t, l) \<in> set avs. storable (snd l)"
    and "resolve_temp_id_avs ops n ts avs db = Error e"
  shows "resolution_error e"
proof -
  have "\<forall>(a, v) \<in> set (map snd avs). storable v" using assms(2) by auto
  then obtain found where "batch_lookup_unique_eids ops n ts db (map snd avs) = Ok found"
    using value_store_lookup [OF assms(1)] by blast
  then show ?thesis
    using assms(3) by (auto simp: resolve_temp_id_avs_def rbind_eq_Error Let_def resolution_error_def split: if_splits)
qed

text \<open>Two rounds more than there are complex upserts are enough.\<close>

lemma evolve_loop_error:
  assumes "value_store ops keys rest lk ts okt n db R"
  shows "e_storable g \<Longrightarrow> upserts_ev g = [] \<and> upserts_e g = [] \<and> 0 < k \<or> length (upserts_ev g) + 2 \<le> k \<Longrightarrow>
    evolve_loop ops n ts s db k g r = Error e \<Longrightarrow> resolution_error e"
proof (induction k arbitrary: g r)
  case (Suc k)
  have ev: "can_evolve g" using Suc.prems(3) by (auto split: if_splits)
  consider "resolve_temp_id_avs ops n ts (temp_id_avs g) db = Error e"
    | m where "resolve_temp_id_avs ops n ts (temp_id_avs g) db = Ok m" "record_resolutions r m = Error e"
    | m r1 where "resolve_temp_id_avs ops n ts (temp_id_avs g) db = Ok m" "record_resolutions r m = Ok r1"
        "evolve_one_step g (map_of m) r1 s = Error e"
    | m r1 g1 where "resolve_temp_id_avs ops n ts (temp_id_avs g) db = Ok m" "record_resolutions r m = Ok r1"
        "evolve_one_step g (map_of m) r1 s = Ok g1" "evolve_loop ops n ts s db k g1 r1 = Error e"
    using Suc.prems(3) ev by (auto simp: rbind_eq_Error)
  then show ?case
  proof cases
    case 1
    then show ?thesis using resolve_temp_id_avs_error [OF assms e_storable_avs [OF Suc.prems(1)]] by blast
  next
    case 2
    then show ?thesis by (auto simp: record_resolutions_def resolution_error_def Let_def split: prod.splits if_splits)
  next
    case 3
    then show ?thesis using evolve_one_step_error by blast
  next
    case 4
    have "hm_wf m" by (rule resolve_temp_id_avs_found [OF 4(1)])
    note rec = record_resolutions_Ok [OF 4(2) this]
    have size: "length (upserts_e g1) + length (upserts_ev g1) \<le> length (upserts_ev g)"
      by (rule evolve_one_step_size [OF 4(3) rec(2)])
    have k: "length (upserts_ev g) + 2 \<le> Suc k" using Suc.prems(2) ev by (auto simp: can_evolve_def)
    show ?thesis
    proof (cases "upserts_e g1 = []")
      case True
      have "evolve_loop ops n ts s db k g1 r1 = Ok (g1, r1)" using True k by (cases k) (auto simp: can_evolve_def)
      then show ?thesis using 4(4) by simp
    next
      case False
      then have "length (upserts_ev g1) + 2 \<le> k" using size k by (cases "upserts_e g1") auto
      then show ?thesis using Suc.IH [OF evolve_one_step_storable [OF 4(3) rec(2)] _ 4(4)] by blast
    qed
  qed
qed simp

lemma temp_ids_in_allocations_error:
  assumes "temp_ids_in_allocations g s = Error e"
  shows "resolution_error e"
proof (cases "rfold (scan_allocation s) \<lparr>tempids = [], value_temprefs = [], groups = []\<rparr> (allocations g)")
  case (Inl e')
  then have "e' = e" using assms by (simp add: temp_ids_in_allocations_def)
  obtain st d where "scan_allocation s st d = Error e'" by (rule rfold_Error [OF Inl]) (rule that)
  then show ?thesis
    using \<open>e' = e\<close> by (auto simp: scan_allocation_def rbind_eq_Error Let_def resolution_error_def
        dest: datom_with_entid_attr_error split: if_splits)
next
  case (Inr st)
  then have "\<exists>t \<in> set (value_temprefs st). t \<notin> set (tempids st)"
    using temp_ids_in_allocations_total [OF Inr] assms by fastforce
  then show ?thesis using Inr assms by (simp add: temp_ids_in_allocations_def resolution_error_def)
qed

lemma assign_labels_total:
  assumes "\<forall>(t, l) \<in> set labels. l < length eids"
  shows "\<exists>m. assign_labels eids labels = Ok m"
proof -
  have "\<exists>m. rfold (\<lambda>m (tempid, label). if label < length eids then Ok (m(tempid \<mapsto> eids ! label))
       else Error (Panic ''index out of bounds'')) m0 labels = Ok m" for m0
    using assms by (induction labels arbitrary: m0) auto
  then show ?thesis by (simp add: assign_labels_def)
qed

lemma allocate_labels_error:
  "allocate_labels pm ps = Error e \<Longrightarrow>
     e \<in> {Panic ''partition must fit in 20 bits'', Panic ''counter must fit in 42 bits''}"
  by (induction ps arbitrary: pm)
    (auto simp: rbind_eq_Error allocate_entid_def allocate_counter_def make_entity_id_def Let_def split: if_splits)

lemma allocate_labels_length: "allocate_labels pm ps = Ok (eids, pm') \<Longrightarrow> length eids = length ps"
  by (induction ps arbitrary: pm eids) auto

text \<open>Once the labels are known, only the counters of the partitions can stop the resolution.\<close>

lemma allocation_never_fails:
  assumes labels: "temp_ids_in_allocations g s = Ok labels"
  shows "\<exists>parts. allocation_partitions inferred labels = Ok parts \<and>
    (\<forall>eids pm'. allocate_labels pm parts = Ok (eids, pm') \<longrightarrow>
       (\<exists>m pops. assign_labels eids labels = Ok m \<and> into_final_populations g m = Ok pops))"
proof -
  note lab = temp_ids_in_allocations_labels [OF labels]
  obtain k where k: "snd ` set labels = {0..<k}" using lab(4) by blast
  note parts = allocation_partitions_ok [OF k, of inferred]
  have "\<exists>m pops. assign_labels eids labels = Ok m \<and> into_final_populations g m = Ok pops"
    if a: "allocate_labels pm (map (group_partition inferred labels) [0..<k]) = Ok (eids, pm')" for eids pm'
  proof -
    have "length eids = k" using allocate_labels_length [OF a] by simp
    then have "\<forall>(t, l) \<in> set labels. l < length eids" using k by force
    then obtain m where m: "assign_labels eids labels = Ok m" using assign_labels_total by blast
    then have "dom m = fst ` set labels" using assign_labels_Ok(1) [OF m lab(2)] by simp
    then obtain pops where "into_final_populations g m = Ok pops"
      using into_final_populations_total [of g m] lab(3) by auto
    then show ?thesis using m by blast
  qed
  then show ?thesis using parts by blast
qed

text \<open>C19: Resolution always ends, and it fails only for reasons the transaction gives: an unknown
  attribute, upserts that disagree, a retraction of an id that did not upsert, an id that occurs
  only as a value, or counters that are exhausted. In particular the rounds are enough for every
  chain of upserts, no index is out of range, and no id is left unresolved after the allocation.\<close>

theorem resolve_tempids_ends:
  assumes "value_store ops keys rest lk ts okt n db R"
    and "\<forall>d \<in> set datoms. \<forall>v. w_value d = VTData v \<longrightarrow> storable v"
  shows "case resolve_tempids ops n ts datoms s db pm of
      Inl e \<Rightarrow> resolution_error e \<or>
        e \<in> {Panic ''partition must fit in 20 bits'', Panic ''counter must fit in 42 bits''}
    | Inr _ \<Rightarrow> True"
proof (cases "resolve_tempids ops n ts datoms s db pm")
  case (Inl e)
  let ?pre = "\<lambda>g0. evolve_loop ops n ts s db (Suc (Suc (length (upserts_ev g0)))) g0 Map.empty"
  consider "generation_from datoms s = Error e"
    | g0 inert where "generation_from datoms s = Ok (g0, inert)" "?pre g0 = Error e"
    | g1 where "allocate_unresolved_upserts g1 s = Error e"
    | g where "temp_ids_in_allocations g s = Error e"
    | g labels inert where "temp_ids_in_allocations g s = Ok labels"
        "rbind (allocation_partitions (infer_tempid_partitions datoms) labels) (\<lambda>parts.
         rbind (allocate_labels pm parts) (\<lambda>(label_entids, pm').
         rbind (assign_labels label_entids labels) (\<lambda>allocated_tempids.
         rbind (into_final_populations g allocated_tempids) (\<lambda>pops.
         Ok (f_upserted pops @ f_resolved pops @ f_allocated pops @ inert, pm'))))) = Error e"
    using Inl by (auto simp: resolve_tempids_def Let_def rbind_eq_Error)
  then have "resolution_error e \<or> e \<in> {Panic ''partition must fit in 20 bits'', Panic ''counter must fit in 42 bits''}"
  proof cases
    case 2
    have "length (upserts_ev g0) + 2 \<le> Suc (Suc (length (upserts_ev g0)))" by simp
    then show ?thesis
      using evolve_loop_error [OF assms(1) generation_from_storable [OF 2(1) assms(2)] _ 2(2)] by blast
  next
    case 3
    then show ?thesis
      by (auto simp: allocate_unresolved_upserts_def unresolved_allocation_def rbind_eq_Error ok_or_def resolution_error_def
          elim!: rmapM_Error split: upsert_ev.splits option.splits)
  next
    case 5
    obtain parts where "allocation_partitions (infer_tempid_partitions datoms) labels = Ok parts"
      "\<forall>eids pm'. allocate_labels pm parts = Ok (eids, pm') \<longrightarrow>
         (\<exists>m pops. assign_labels eids labels = Ok m \<and> into_final_populations g m = Ok pops)"
      using allocation_never_fails [OF 5(1)] by blast
    then have "allocate_labels pm parts = Error e" using 5(2) by (cases "allocate_labels pm parts") auto
    then show ?thesis using allocate_labels_error by blast
  qed (auto dest: generation_from_error temp_ids_in_allocations_error)
  then show ?thesis by (simp add: Inl)
qed simp

theorem resolve_tempids_ends_witness:
  "case resolve_tempids list_slate 3 any_timestamp sample_datoms identity_schema mail_db Map.empty of
      Inl e \<Rightarrow> resolution_error e \<or>
        e \<in> {Panic ''partition must fit in 20 bits'', Panic ''counter must fit in 42 bits''}
    | Inr _ \<Rightarrow> True"
proof -
  have "\<forall>d \<in> set sample_datoms. \<forall>v. w_value d = VTData v \<longrightarrow> storable v"
    by (simp add: sample_datoms_def mail_of_def nick_of_def boss_of_def)
  from resolve_tempids_ends [OF mail_store this] show ?thesis .
qed

end
