(* ===== verification/Indexer.thy ===== *)
theory Indexer
  imports Tempids
begin

text \<open>
  The indexer, \<^verbatim>\<open>src/indexer.rs\<close>: it takes the transactions of the log one by one, turns them
  into datoms, checks them, and writes their keys in one batch; a transaction that is refused
  leaves only its transaction entity. The state of \<^verbatim>\<open>src/metadata.rs\<close> (schema, counters,
  generation) is part of its record.

  The store is the record of operations of \<open>Slate_Iter\<close>. The completions sent to the broadcast
  channel are a list, oldest first. A hash set of datoms is iterated in an order the code does
  not fix: it is the argument \<open>order\<close>. Errors of the pipeline abort the transaction; a panic ends
  the task.
\<close>

section \<open>State\<close>

record metadata =
  m_generation :: u64
  m_partition_map :: partition_map
  m_schema :: schema

definition metadata_new :: "schema \<Rightarrow> partition_map \<Rightarrow> metadata" where
  "metadata_new s pm = \<lparr>m_generation = 0, m_partition_map = pm, m_schema = s\<rparr>"

definition advance_generation :: "metadata \<Rightarrow> metadata" where
  "advance_generation m = m\<lparr>m_generation := m_generation m + 1\<rparr>"

record 'db indexer =
  ix_db :: 'db
  ix_metadata :: metadata
  ix_latest :: tx_key
  ix_sent :: "tx_completion list"

definition indexer_new :: "'db \<Rightarrow> metadata \<Rightarrow> tx_key \<Rightarrow> 'db indexer" where
  "indexer_new db m latest = \<lparr>ix_db = db, ix_metadata = m, ix_latest = latest, ix_sent = []\<rparr>"

abbreviation ix_schema :: "'db indexer \<Rightarrow> schema" where "ix_schema ix \<equiv> m_schema (ix_metadata ix)"
abbreviation ix_pm :: "'db indexer \<Rightarrow> partition_map" where "ix_pm ix \<equiv> m_partition_map (ix_metadata ix)"

definition send_completion :: "'db indexer \<Rightarrow> tx_key \<Rightarrow> tx_outcome \<Rightarrow> 'db indexer" where
  "send_completion ix key outcome = ix\<lparr>ix_sent := ix_sent ix @ [\<lparr>c_tx_key = key, c_outcome = outcome\<rparr>]\<rparr>"

section \<open>Index entries\<close>

definition op_byte :: "datom_op \<Rightarrow> u8" where
  "op_byte op = (case op of Assert_op \<Rightarrow> ADD | Retract_op \<Rightarrow> RETRACT)"

definition datom_entries :: "schema \<Rightarrow> i64 \<Rightarrow> datom \<Rightarrow> bytes list result" where
  "datom_entries s tx_eid d =
     rbind (ok_or (get_attribute s (d_attribute d)) ''Unknown attribute'') (\<lambda>(attribute_id, attr).
     let key = (\<lambda>it. index_key it (encode_datatype (DLong (d_entity d))) (encode_i64_bytes attribute_id)
                  (encode_datatype (d_value d)) (encode_i64_bytes tx_eid) (op_byte (d_op d)))
     in Ok ([key EAV_index, key AVE_index, key AEV_index] @
            (if a_unique attr \<noteq> None then [key VAE_index] else []) @
            (if d_op d = Assert_op then [key AE_index, key AV_index] else [])))"

definition write_index_entries :: "bytes list \<Rightarrow> datom list \<Rightarrow> schema \<Rightarrow> i64 \<Rightarrow> bytes list result" where
  "write_index_entries batch datoms s tx_eid =
     rfold (\<lambda>b d. rbind (datom_entries s tx_eid d) (\<lambda>ks. Ok (b @ ks))) batch datoms"

primrec latest_tx_loop ::
  "('db, 'it) slate_ops \<Rightarrow> timestamp_opt \<Rightarrow> nat \<Rightarrow> 'it \<Rightarrow> i64 option \<Rightarrow> datetime option \<Rightarrow>
     (i64 option \<times> datetime option) result" where
  "latest_tx_loop ops ts 0 it first_eid st = Error OutOfFuel"
| "latest_tx_loop ops ts (Suc n) it first_eid st =
     rbind (it_next ops it) (\<lambda>(kv, it').
     case kv of
       None \<Rightarrow> Ok (first_eid, st)
     | Some key \<Rightarrow>
         rbind (eav_key_to_parts ts key) (\<lambda>(entity_dt, attr, value, _, _).
         case entity_dt of
           DLong eid \<Rightarrow>
             if first_eid \<noteq> None \<and> first_eid \<noteq> Some eid then Ok (first_eid, st)
             else
               (let st' = (if attr = DB_TX_INSTANT then (case value of DInstant t \<Rightarrow> Some t | _ \<Rightarrow> st) else st)
                in latest_tx_loop ops ts n it' (Some eid) st')
         | _ \<Rightarrow> Error (Err ''Expected Long entity ID in EAV key'')))"

definition latest_tx_key_from_sdb :: "('db, 'it) slate_ops \<Rightarrow> nat \<Rightarrow> timestamp_opt \<Rightarrow> 'db \<Rightarrow> tx_key result" where
  "latest_tx_key_from_sdb ops n ts db =
     rbind (partition_entity_prefix TX_PARTITION) (\<lambda>p.
     rbind (scan_prefix ops db (concat_bytes [[EAV], p])) (\<lambda>it.
     rbind (latest_tx_loop ops ts n it None None) (\<lambda>(first_eid, st).
     case first_eid of
       None \<Rightarrow> Error (Err ''TX_PARTITION is empty; database not initialized'')
     | Some tx_eid \<Rightarrow>
         (case st of
            Some t \<Rightarrow> Ok (TxKey (extract_counter tx_eid) t)
          | None \<Rightarrow> Error (Err ''Tx entity missing required :db/txInstant'')))))"

definition build_tx_entity_datoms :: "i64 \<Rightarrow> tx_key \<Rightarrow> bool \<Rightarrow> string option \<Rightarrow> datom list" where
  "build_tx_entity_datoms tx_eid key committed err =
     (let result_eid = (if committed then DB_TX_COMMITTED else DB_TX_ABORTED);
          mk = (\<lambda>a v. \<lparr>d_entity = tx_eid, d_attribute = a, d_value = v, d_op = Assert_op\<rparr>)
      in [mk (kw ''db'' ''txInstant'') (DInstant (system_time key)),
          mk (kw ''db'' ''txId'') (DLong (tx_id key)),
          mk (kw ''db'' ''txResult'') (DLong result_eid)] @
         (case err of None \<Rightarrow> [] | Some e \<Rightarrow> [mk (kw ''db'' ''txError'') (DString e)]))"

section \<open>Replaced values\<close>

definition finalize_prefix :: "entid \<Rightarrow> entid \<Rightarrow> bytes" where
  "finalize_prefix entity attribute_id =
     concat_bytes [[EAV], encode (DLong entity), encode_i64_bytes attribute_id]"

definition finalize_prefix_step ::
  "schema \<Rightarrow> partition_map \<Rightarrow> (bytes \<times> entid \<times> entid) list \<Rightarrow> datom \<Rightarrow> (bytes \<times> entid \<times> entid) list result" where
  "finalize_prefix_step s pm acc d =
     (if d_op d \<noteq> Assert_op then Ok acc
      else rbind (ok_or (get_attribute s (d_attribute d)) ''Unknown attribute'') (\<lambda>(attribute_id, attr).
        if a_multival attr \<or> \<not> contains_entid pm (d_entity d) then Ok acc
        else Ok (bt_insert (finalize_prefix (d_entity d) attribute_id) (d_entity d, attribute_id) acc)))"

primrec old_values_loop ::
  "('db, 'it) slate_ops \<Rightarrow> nat \<Rightarrow> timestamp_opt \<Rightarrow> (bytes \<times> entid \<times> entid) list \<Rightarrow> 'it slate_key_iterator \<Rightarrow>
     (entid \<times> entid \<rightharpoonup> data_type) \<Rightarrow> (entid \<times> entid \<rightharpoonup> data_type) result" where
  "old_values_loop ops n ts [] iter old_values = Ok old_values"
| "old_values_loop ops n ts (x # ps) iter old_values =
     rbind (find_live_key_under_prefix ops n iter (fst x)) (\<lambda>(r, iter').
     case r of
       Some key \<Rightarrow>
         rbind (usub (length key) TX_EID_OP_SUFFIX) (\<lambda>stop.
         rbind (get_slice key (length (fst x)) stop) (\<lambda>value_bytes.
         rbind (decode_datatype ts value_bytes) (\<lambda>(value, _).
         old_values_loop ops n ts ps iter' (old_values(snd x \<mapsto> value)))))
     | None \<Rightarrow>
         if ski_peek iter' = None then Ok old_values
         else old_values_loop ops n ts ps iter' old_values)"

text \<open>A hash set of datoms: a datom with a value that is not equal to itself is never found.\<close>

definition datom_set_insert :: "datom \<Rightarrow> datom list \<Rightarrow> datom list" where
  "datom_set_insert d ds = (if d \<in> set ds \<and> dt_refl (d_value d) then ds else ds @ [d])"

definition finalize_step ::
  "schema \<Rightarrow> (entid \<times> entid \<rightharpoonup> data_type) \<Rightarrow> datom list \<Rightarrow> datom \<Rightarrow> datom list result" where
  "finalize_step s old_values ds d =
     (if d_op d \<noteq> Assert_op then Ok (datom_set_insert d ds)
      else rbind (ok_or (get_attribute s (d_attribute d)) ''Unknown attribute'') (\<lambda>(attribute_id, attr).
        if a_multival attr then Ok (datom_set_insert d ds)
        else case old_values (d_entity d, attribute_id) of
               None \<Rightarrow> Ok (datom_set_insert d ds)
             | Some old_value \<Rightarrow>
                 if dt_eq old_value (d_value d) then Ok ds
                 else Ok (datom_set_insert d
                   (datom_set_insert (d\<lparr>d_value := old_value, d_op := Retract_op\<rparr>) ds))))"

definition finalize_datoms_for_commit ::
  "('db, 'it) slate_ops \<Rightarrow> nat \<Rightarrow> timestamp_opt \<Rightarrow> (datom list \<Rightarrow> datom list) \<Rightarrow> 'db \<Rightarrow> schema \<Rightarrow> partition_map \<Rightarrow>
     datom list \<Rightarrow> datom list result" where
  "finalize_datoms_for_commit ops n ts order db s pm datoms =
     rbind (rfold (finalize_prefix_step s pm) [] datoms) (\<lambda>eav_prefixes.
     rbind (if eav_prefixes = [] then Ok Map.empty
            else rbind (ski_scan_prefix ops db [EAV]) (\<lambda>iter.
                 old_values_loop ops n ts eav_prefixes iter Map.empty)) (\<lambda>old_values.
     rbind (rfold (finalize_step s old_values) [] datoms) (\<lambda>resolved_datoms.
     Ok (order resolved_datoms))))"

section \<open>Unique values\<close>

definition unique_retraction :: "schema \<Rightarrow> datom \<Rightarrow> (entid \<times> entid \<times> data_type) list" where
  "unique_retraction s d =
     (if d_op d \<noteq> Retract_op then []
      else case get_attribute s (d_attribute d) of
             None \<Rightarrow> []
           | Some (attr_eid, attr) \<Rightarrow>
               if a_unique attr \<noteq> None then [(d_entity d, attr_eid, d_value d)] else [])"

definition unique_assert_step ::
  "schema \<Rightarrow> (unique_lookup \<rightharpoonup> entid) \<times> (datom \<times> entid) list \<Rightarrow> datom \<Rightarrow>
     ((unique_lookup \<rightharpoonup> entid) \<times> (datom \<times> entid) list) result" where
  "unique_assert_step s = (\<lambda>(asserted, to_check) d.
     if d_op d \<noteq> Assert_op then Ok (asserted, to_check)
     else rbind (ok_or (get_attribute s (d_attribute d)) ''Unknown attribute'') (\<lambda>(attr_eid, attr).
       if a_unique attr = None then Ok (asserted, to_check)
       else case lookup_get asserted (attr_eid, d_value d) of
              Some existing \<Rightarrow>
                if existing \<noteq> d_entity d then Error (Err ''Unique constraint violation for attribute'')
                else Ok (asserted((attr_eid, d_value d) \<mapsto> d_entity d), to_check @ [(d, attr_eid)])
            | None \<Rightarrow> Ok (asserted((attr_eid, d_value d) \<mapsto> d_entity d), to_check @ [(d, attr_eid)])))"

definition check_owner ::
  "(unique_lookup \<rightharpoonup> entid) \<Rightarrow> (entid \<times> entid \<times> data_type) list \<Rightarrow> datom \<times> entid \<Rightarrow> unit result" where
  "check_owner owners retractions = (\<lambda>(d, attr_eid).
     case lookup_get owners (attr_eid, d_value d) of
       None \<Rightarrow> Ok ()
     | Some owner \<Rightarrow>
         if owner \<noteq> d_entity d \<and>
            \<not> ((owner, attr_eid, d_value d) \<in> set retractions \<and> dt_refl (d_value d))
         then Error (Err ''Unique constraint violation for attribute: another entity already owns it'')
         else Ok ())"

definition validate_unique_constraints ::
  "('db, 'it) slate_ops \<Rightarrow> nat \<Rightarrow> timestamp_opt \<Rightarrow> 'db \<Rightarrow> schema \<Rightarrow> datom list \<Rightarrow> unit result" where
  "validate_unique_constraints ops n ts db s datoms =
     (let retractions = concat (map (unique_retraction s) datoms)
      in rbind (rfold (unique_assert_step s) (Map.empty, []) datoms) (\<lambda>(_, to_check).
         rbind (batch_lookup_unique_eids ops n ts db (map (\<lambda>(d, a). (a, d_value d)) to_check)) (\<lambda>owners.
         rbind (rmapM (check_owner owners retractions) to_check) (\<lambda>_. Ok ()))))"

section \<open>Transactions\<close>

text \<open>The pipeline changes the state only at its end.\<close>

definition transact_tx_inner ::
  "('db, 'it) slate_ops \<Rightarrow> nat \<Rightarrow> timestamp_opt \<Rightarrow> (datom list \<Rightarrow> datom list) \<Rightarrow> 'db indexer \<Rightarrow> tx_key \<Rightarrow>
     tx_op list \<Rightarrow> 'db indexer result" where
  "transact_tx_inner ops n ts order ix key tx_ops =
     (let s = ix_schema ix; pm = ix_pm ix; db = ix_db ix
      in rbind (tx_eid_from_tx_id (tx_id key)) (\<lambda>tx_eid.
         rbind (set_tx_counter pm (tx_id key)) (\<lambda>pending_pm.
         rbind (expand_tx_ops ops n ts db s tx_ops) (\<lambda>with_tempids.
         rbind (validate_allocated_entity_ids with_tempids s pm) (\<lambda>_.
         rbind (resolve_tempids ops n ts with_tempids s db pending_pm) (\<lambda>(user_datoms, pending_pm').
         let datoms = user_datoms @ build_tx_entity_datoms tx_eid key True None
         in rbind (validate_datoms s datoms) (\<lambda>schema_changes_detected.
            rbind (finalize_datoms_for_commit ops n ts order db s pm datoms) (\<lambda>final.
            rbind (validate_unique_constraints ops n ts db s final) (\<lambda>_.
            rbind (if schema_changes_detected
                   then rbind (prepare_schema_update s final) (\<lambda>u. Ok (Some u)) else Ok None) (\<lambda>update.
            rbind (write_index_entries [] final s tx_eid) (\<lambda>batch.
            rbind (db_write ops db batch) (\<lambda>db'.
            let m = (ix_metadata ix)\<lparr>m_partition_map := pending_pm'\<rparr>;
                m' = (case update of
                        Some u \<Rightarrow>
                          if schema_update_is_empty u then m
                          else advance_generation (m\<lparr>m_schema := apply_schema_update s u\<rparr>)
                      | None \<Rightarrow> m)
            in Ok (send_completion (ix\<lparr>ix_db := db', ix_metadata := m', ix_latest := key\<rparr>) key Committed)))))))))))))"

definition write_aborted_tx ::
  "('db, 'it) slate_ops \<Rightarrow> 'db indexer \<Rightarrow> tx_key \<Rightarrow> string \<Rightarrow> 'db indexer result" where
  "write_aborted_tx ops ix key err =
     rbind (tx_eid_from_tx_id (tx_id key)) (\<lambda>tx_eid.
     rbind (set_tx_counter (ix_pm ix) (tx_id key)) (\<lambda>pending_pm.
     rbind (write_index_entries [] (build_tx_entity_datoms tx_eid key False (Some err)) (ix_schema ix) tx_eid) (\<lambda>batch.
     rbind (db_write ops (ix_db ix) batch) (\<lambda>db'.
     Ok (ix\<lparr>ix_db := db', ix_metadata := (ix_metadata ix)\<lparr>m_partition_map := pending_pm\<rparr>, ix_latest := key\<rparr>)))))"

text \<open>The result of a call and the state it leaves.\<close>

definition transact_tx ::
  "('db, 'it) slate_ops \<Rightarrow> nat \<Rightarrow> timestamp_opt \<Rightarrow> (datom list \<Rightarrow> datom list) \<Rightarrow> 'db indexer \<Rightarrow> tx_key \<Rightarrow>
     tx_op list \<Rightarrow> tx_key result \<times> 'db indexer" where
  "transact_tx ops n ts order ix key tx_ops =
     (case transact_tx_inner ops n ts order ix key tx_ops of
        Inr ix' \<Rightarrow> (Ok key, ix')
      | Inl (Err e) \<Rightarrow>
          (case write_aborted_tx ops ix key e of
             Inr ix' \<Rightarrow> (Ok key, send_completion ix' key (Aborted e))
           | Inl (Err abort_err) \<Rightarrow>
               (let err = ''Failed to write aborted tx entity for '' @ show_i64 (tx_id key) @ '': '' @ abort_err @
                  ''; original transaction error: '' @ e
                in (Error (Err err), send_completion ix key (Failed err)))
           | Inl panic \<Rightarrow> (Error panic, ix))
      | Inl panic \<Rightarrow> (Error panic, ix))"

text \<open>The subscriber; decoding a record is bincode's, a package outside the repository.\<close>

definition accept ::
  "('db, 'it) slate_ops \<Rightarrow> nat \<Rightarrow> timestamp_opt \<Rightarrow> (datom list \<Rightarrow> datom list) \<Rightarrow> (bytes \<Rightarrow> tx_op list option) \<Rightarrow>
     'db indexer \<Rightarrow> tx_key \<Rightarrow> bytes \<Rightarrow> 'db indexer result" where
  "accept ops n ts order deserialize ix key record =
     (case deserialize record of
        None \<Rightarrow> Ok (send_completion ix key (Failed ''Failed to deserialize TxOps''))
      | Some tx_ops \<Rightarrow>
          (case transact_tx ops n ts order ix key tx_ops of
             (Inl (Panic e), _) \<Rightarrow> Error (Panic e)
           | (Inl OutOfFuel, _) \<Rightarrow> Error OutOfFuel
           | (_, ix') \<Rightarrow> Ok ix'))"

end
