(* ===== verification/Entity_Scan.thy ===== *)
theory Entity_Scan
  imports Tx
begin

text \<open>
  Reading back the facts of entities that a transaction retracts:
  \<^verbatim>\<open>batch_lookup_active_entity_datoms\<close> of \<^verbatim>\<open>src/tx.rs\<close> walks one iterator over the sorted
  entity prefixes and emits a retraction for the newest version of every fact that asserts.
\<close>

definition entity_prefix :: "entid \<Rightarrow> bytes" where
  "entity_prefix e = concat_bytes [[EAV], encode (DLong e)]"

lemma entity_prefix_eq: "entity_prefix e = EAV # entity_bytes e"
  by (simp add: entity_prefix_def concat_bytes_def entity_bytes_def encode_def)

lemma prefix_entity_prefix: "prefix (entity_prefix e) (entity_prefix f @ r) \<longleftrightarrow> e = f"
proof
  assume "prefix (entity_prefix e) (entity_prefix f @ r)"
  then obtain s where "entity_prefix f @ r = entity_prefix e @ s" by (auto simp: prefix_def)
  then have "entity_bytes f = entity_bytes e" by (simp add: entity_prefix_eq append_eq_append_conv)
  then show "e = f" by (simp add: encode_bytes_inject)
qed simp

lemma version_key_eav:
  "version_key EAV_index (f, b, w, tx, op) = entity_prefix f @ encode_i64_bytes b @ encode_datatype w @ encode_i64_bytes tx @ [op]"
  by (simp add: version_key_def index_key_def entity_prefix_eq)

lemma prefix_version_entity: "prefix (entity_prefix e) (version_key EAV_index (f, b, w, tx, op)) \<longleftrightarrow> e = f"
  unfolding version_key_eav by (rule prefix_entity_prefix)

lemma eav_parts:
  assumes "timestamp_law ts okt" and "dt_wf okt v"
  shows "eav_key_to_parts ts (version_key EAV_index (e, a, v, tx, op)) = Ok (DLong e, a, v, tx, op)"
proof -
  have "dt_wf okt (DLong e)" by simp
  from key_to_parts_mk(1) [OF assms(1) this assms(2)] show ?thesis
    by (simp add: mk_eav_def version_key_def entity_bytes_def)
qed

text \<open>Keys under a prefix come before a later prefix.\<close>

lemma prefix_below:
  fixes p :: bytes
  assumes "prefix p k" and "p < q" and "\<not> prefix p q"
  shows "k < q"
proof (rule ccontr)
  assume "\<not> k < q"
  then have "p \<le> q" "q \<le> k" using assms(2) by simp_all
  then show False
    using prefix_range [of p k] prefix_range [of p q] assms(1,3) by (auto split: option.splits)
qed

text \<open>The retraction emitted for a key.\<close>

definition retraction_of :: "schema \<Rightarrow> entid \<Rightarrow> entid \<Rightarrow> data_type \<Rightarrow> datom_with_tempids" where
  "retraction_of s e a v =
     \<lparr>w_entity = ITId e, w_attribute = the (get_ident s a), w_value = VTData v, w_op = Retract_op\<rparr>"

definition key_retraction :: "timestamp_opt \<Rightarrow> schema \<Rightarrow> bytes \<Rightarrow> datom_with_tempids" where
  "key_retraction ts s key =
     (case eav_key_to_parts ts key of
        Inr (DLong e, a, v, _, _) \<Rightarrow> retraction_of s e a v
      | _ \<Rightarrow> retraction_of s 0 0 (DLong 0))"

definition eav_keys_ok :: "(int \<Rightarrow> bool) \<Rightarrow> schema \<Rightarrow> version set \<Rightarrow> bool" where
  "eav_keys_ok okt s R \<longleftrightarrow>
     (\<forall>(e, a, v, tx, op) \<in> R. dt_wf okt v \<and> get_ident s a \<noteq> None \<and> (op = ADD \<or> op = RETRACT))"

lemma eav_keys_ok_storable: "eav_keys_ok okt s R \<Longrightarrow> storable_versions R"
  using dt_wf_storable(1) by (fastforce simp: eav_keys_ok_def storable_versions_def)

lemma entity_datoms_loop_ok:
  assumes law: "slate_law ops keys rest lk" and ts: "timestamp_law ts okt" and R: "eav_keys_ok okt s R"
  shows "ski_ok rest lk iter \<Longrightarrow> set (ski_keys rest iter) \<subseteq> version_key EAV_index ` R \<Longrightarrow>
    \<forall>k \<in> set (ski_keys rest iter). entity_prefix e \<le> k \<Longrightarrow> length (ski_keys rest iter) < n \<Longrightarrow>
    (ski_peek iter = None \<longrightarrow> (\<forall>l. lk (ski_inner iter) = Some l \<longrightarrow> l < q)) \<Longrightarrow>
    entity_prefix e < q \<Longrightarrow> \<not> prefix (entity_prefix e) q \<Longrightarrow>
    \<exists>iter'. entity_datoms_loop ops ts s n (entity_prefix e) e iter ds =
        Ok (ds @ map (key_retraction ts s) (live_list (\<lambda>_. True) (filter (prefix (entity_prefix e)) (ski_keys rest iter))), Some iter') \<and>
      ski_ok rest lk iter' \<and> set (ski_keys rest iter') \<subseteq> set (ski_keys rest iter) \<and>
      length (ski_keys rest iter') \<le> length (ski_keys rest iter) \<and>
      (ski_peek iter' = None \<longrightarrow> (\<forall>l. lk (ski_inner iter') = Some l \<longrightarrow> l < q)) \<and>
      (\<forall>k \<in> set (ski_keys rest iter). k \<in> set (ski_keys rest iter') \<or> prefix (entity_prefix e) k)"
proof (induction n arbitrary: iter ds)
  case (Suc n)
  let ?p = "entity_prefix e"
  have Rs: "storable_versions R" by (rule eav_keys_ok_storable [OF R])
  have eav: "temporal_index EAV_index" by (simp add: temporal_index_def)
  have ver: "versioned (set (ski_keys rest iter))"
    using version_keys_versioned [OF eav Rs] versioned_subset Suc.prems(2) by blast
  show ?case
  proof (cases "ski_keys rest iter")
    case Nil
    then have "ski_peek iter = None" by (simp add: ski_peek_keys [of iter rest])
    then show ?thesis using Suc.prems Nil by simp
  next
    case (Cons k ks)
    have peek: "ski_peek iter = Some k" by (simp add: ski_peek_keys [of iter rest] Cons)
    have so: "sorted_wrt (<) (k # ks)" using Suc.prems(1) Cons by (simp add: ski_ok_def)
    have kK: "k \<in> set (ski_keys rest iter)" by (simp add: Cons)
    show ?thesis
    proof (cases "prefix ?p k")
      case False
      then have "filter (prefix ?p) (k # ks) = []"
        using filter_prefix_Cons_not [OF so] Suc.prems(3) kK by blast
      then show ?thesis using Suc.prems False Cons by (simp add: peek)
    next
      case True
      obtain a v tx op where k: "k = version_key EAV_index (e, a, v, tx, op)" and kR: "(e, a, v, tx, op) \<in> R"
        using subsetD [OF Suc.prems(2) kK] True by (auto simp: prefix_version_entity)
      have wf: "dt_wf okt v" "get_ident s a \<noteq> None" "op = ADD \<or> op = RETRACT" using R kR by (auto simp: eav_keys_ok_def)
      have op: "k ! (length k - Suc 0) = op" "key_op k = op"
        using version_key_parts(3) [OF eav, of e a v tx op] k by (simp_all add: key_op_def)
      have len: "TX_EID_OP_SUFFIX < length k" using ver kK unfolding versioned_def by blast
      obtain g where g: "next_prefix (logical_key k) = Some g" using versioned_next [OF ver kK] .
      have pl: "prefix ?p (logical_key k)"
        unfolding k version_key_parts(1) [OF eav] by (simp add: fact_key_def entity_prefix_eq)
      have fwd: "l < g" if "ski_current_key iter = None" "lk (ski_inner iter) = Some l" for l
        using peek that by (simp add: ski_peek_def)
      obtain iter1 where s: "ski_seek ops iter g = Ok iter1" "ski_ok rest lk iter1"
        and k1: "ski_keys rest iter1 = dropWhile (\<lambda>y. y < g) (ski_keys rest iter)"
        and e1: "ski_keys rest iter1 = [] \<longrightarrow> (\<forall>l. lk (ski_inner iter1) = Some l \<longrightarrow> l < g)"
        using ski_seek_ok [OF law Suc.prems(1) fwd] by blast
      have "k < g" using next_prefix_bounds [OF g, of k] logical_key_prefix by blast
      then have d: "ski_keys rest iter1 = dropWhile (prefix (logical_key k)) ks"
        using k1 Cons dropWhile_next_prefix [OF g so] by simp
      have sub: "set (ski_keys rest iter1) \<subseteq> set ks" unfolding d by (auto dest: set_dropWhileD)
      have l1: "length (ski_keys rest iter1) \<le> length ks" unfolding d by (rule length_dropWhile_le)
      have lq: "l < q" if "l < g" for l
      proof (cases "prefix (logical_key k) l")
        case True
        show ?thesis by (rule prefix_below [OF prefix_order.trans [OF pl True] Suc.prems(6,7)])
      next
        case False
        then have "l < logical_key k" using next_prefix_bounds [OF g, of l] that by auto
        then show ?thesis using prefix_below [OF pl Suc.prems(6,7)] by simp
      qed
      have end1: "ski_peek iter1 = None \<longrightarrow> (\<forall>l. lk (ski_inner iter1) = Some l \<longrightarrow> l < q)"
        using e1 lq by (auto simp: ski_peek_keys [of iter1 rest] split: list.splits)
      let ?ds = "if op = ADD then ds @ [retraction_of s e a v] else ds"
      have dt: "dt_eq (DLong e) (DLong e)" by simp
      have step: "entity_datoms_loop ops ts s (Suc n) ?p e iter ds = entity_datoms_loop ops ts s n ?p e iter1 ?ds"
        using True len wf op g s(1) dt
        by (auto simp: peek k [symmetric] eav_parts [OF ts wf(1), of e a tx op, folded k] logical_key_def ok_or_def
            retraction_of_def index_defs)
      have live: "live_list (\<lambda>_. True) (filter (prefix ?p) (k # ks)) =
          (if op = RETRACT then [] else [k]) @ live_list (\<lambda>_. True) (filter (prefix ?p) (ski_keys rest iter1))"
      proof -
        have "\<forall>x \<in> set (dropWhile (prefix (logical_key k)) ks). \<not> prefix (logical_key k) x"
          using group_contiguous [OF g so] by blast
        then show ?thesis using True by (simp add: d filter_dropWhile_group Let_def op(2))
      qed
      have ret: "?ds @ map (key_retraction ts s) (live_list (\<lambda>_. True) (filter (prefix ?p) (ski_keys rest iter1))) =
          ds @ map (key_retraction ts s) (live_list (\<lambda>_. True) (filter (prefix ?p) (k # ks)))"
        unfolding live using wf(3) eav_parts [OF ts wf(1), of e a tx op, folded k]
        by (auto simp: key_retraction_def index_defs)
      have kept: "x \<in> set (ski_keys rest iter1) \<or> prefix ?p x" if "x \<in> set (k # ks)" for x
      proof -
        have "set ks = set (takeWhile (prefix (logical_key k)) ks) \<union> set (ski_keys rest iter1)"
          unfolding d by (metis set_append takeWhile_dropWhile_id)
        then show ?thesis
          using that True pl by (auto dest!: set_takeWhileD intro: prefix_order.trans)
      qed
      have ge1: "\<forall>k \<in> set (ski_keys rest iter1). ?p \<le> k" using Suc.prems(3) sub unfolding Cons by auto
      have n1: "length (ski_keys rest iter1) < n" using Suc.prems(4) l1 Cons by simp
      have R1: "set (ski_keys rest iter1) \<subseteq> version_key EAV_index ` R" using sub Suc.prems(2) Cons by auto
      obtain iter' where "entity_datoms_loop ops ts s n ?p e iter1 ?ds =
            Ok (?ds @ map (key_retraction ts s) (live_list (\<lambda>_. True) (filter (prefix ?p) (ski_keys rest iter1))), Some iter')"
          and "ski_ok rest lk iter'" and "set (ski_keys rest iter') \<subseteq> set (ski_keys rest iter1)"
          and "length (ski_keys rest iter') \<le> length (ski_keys rest iter1)"
          and "ski_peek iter' = None \<longrightarrow> (\<forall>l. lk (ski_inner iter') = Some l \<longrightarrow> l < q)"
          and "\<forall>x \<in> set (ski_keys rest iter1). x \<in> set (ski_keys rest iter') \<or> prefix ?p x"
        using Suc.IH [OF s(2) R1 ge1 n1 end1 Suc.prems(6,7), of ?ds] by (elim exE conjE) (rule that)
      then show ?thesis
        using step ret kept sub l1 unfolding Cons by (intro exI [of _ iter']) (fastforce simp del: filter.simps)
    qed
  qed
qed simp

text \<open>All the prefixes: each is walked from where the one before ended.\<close>

lemma entity_prefix_top: "entity_prefix e < [0xFF]" "\<not> prefix (entity_prefix e) [0xFF]"
  by (simp_all add: entity_prefix_eq EAV_def)

lemma active_datoms_loop_ok:
  assumes law: "slate_law ops keys rest lk" and ts: "timestamp_law ts okt" and R: "eav_keys_ok okt s R"
    and K: "set K \<subseteq> version_key EAV_index ` R" and so: "sorted_wrt (<) K" and n: "length K < n"
  shows "ski_ok rest lk iter \<Longrightarrow> set (ski_keys rest iter) \<subseteq> set K \<Longrightarrow> length (ski_keys rest iter) \<le> length K \<Longrightarrow>
    sorted_wrt (<) (map entity_prefix es) \<Longrightarrow>
    \<forall>e \<in> set es. filter (prefix (entity_prefix e)) (ski_keys rest iter) = filter (prefix (entity_prefix e)) K \<and>
      (ski_peek iter = None \<longrightarrow> (\<forall>l. lk (ski_inner iter) = Some l \<longrightarrow> l < entity_prefix e)) \<Longrightarrow>
    active_datoms_loop ops ts s n (map (\<lambda>e. (entity_prefix e, e)) es) iter ds =
      Ok (ds @ concat (map (\<lambda>e. map (key_retraction ts s) (live_list (\<lambda>_. True) (filter (prefix (entity_prefix e)) K))) es))"
proof (induction es arbitrary: iter ds)
  case (Cons e es)
  let ?p = "entity_prefix e"
  have fwd: "l < ?p" if "ski_current_key iter = None" "lk (ski_inner iter) = Some l" for l
    using Cons.prems(5) that by (simp add: ski_peek_def)
  obtain iter1 where s: "ski_seek ops iter ?p = Ok iter1" "ski_ok rest lk iter1"
    and k1: "ski_keys rest iter1 = dropWhile (\<lambda>y. y < ?p) (ski_keys rest iter)"
    and e1: "ski_keys rest iter1 = [] \<longrightarrow> (\<forall>l. lk (ski_inner iter1) = Some l \<longrightarrow> l < ?p)"
    using ski_seek_ok [OF law Cons.prems(1) fwd] by blast
  have soi: "sorted_wrt (<) (ski_keys rest iter)" using Cons.prems(1) by (simp add: ski_ok_def)
  have sub1: "set (ski_keys rest iter1) \<subseteq> set (ski_keys rest iter)" unfolding k1 by (auto dest: set_dropWhileD)
  have len1: "length (ski_keys rest iter1) \<le> length (ski_keys rest iter)" unfolding k1 by (rule length_dropWhile_le)
  have fil1: "filter (prefix ?p) (ski_keys rest iter1) = filter (prefix ?p) K"
    using Cons.prems(5) filter_dropWhile_below [of ?p "ski_keys rest iter"] by (simp add: k1)
  define q where "q = (case es of [] \<Rightarrow> [0xFF] | f # _ \<Rightarrow> entity_prefix f)"
  have later: "q \<le> entity_prefix f" if "f \<in> set es" for f
    using Cons.prems(4) that by (cases es) (auto simp: q_def less_imp_le)
  have pq: "?p < q" "\<not> prefix ?p q"
    using Cons.prems(4) prefix_entity_prefix [of e _ "[]"] entity_prefix_top
    by (auto simp: q_def split: list.splits)
  have end1: "ski_peek iter1 = None \<longrightarrow> (\<forall>l. lk (ski_inner iter1) = Some l \<longrightarrow> l < q)"
    using e1 pq(1) by (auto simp: ski_peek_keys [of iter1 rest] split: list.splits)
  have ge: "\<forall>k \<in> set (ski_keys rest iter1). ?p \<le> k" using dropWhile_below(1) [OF soi, of ?p] by (simp add: k1)
  have R1: "set (ski_keys rest iter1) \<subseteq> version_key EAV_index ` R" using sub1 Cons.prems(2) K by blast
  have n1: "length (ski_keys rest iter1) < n" using len1 Cons.prems(3) n by simp
  obtain iter2 where loop: "entity_datoms_loop ops ts s n ?p e iter1 ds =
        Ok (ds @ map (key_retraction ts s) (live_list (\<lambda>_. True) (filter (prefix ?p) K)), Some iter2)"
      and it: "ski_ok rest lk iter2" "set (ski_keys rest iter2) \<subseteq> set (ski_keys rest iter1)"
      "length (ski_keys rest iter2) \<le> length (ski_keys rest iter1)"
      and end2: "ski_peek iter2 = None \<longrightarrow> (\<forall>l. lk (ski_inner iter2) = Some l \<longrightarrow> l < q)"
      and kept: "\<forall>x \<in> set (ski_keys rest iter1). x \<in> set (ski_keys rest iter2) \<or> prefix ?p x"
    using entity_datoms_loop_ok [OF law ts R s(2) R1 ge n1 end1 pq, of ds] unfolding fil1 by (elim exE conjE) (rule that)
  have keep: "\<forall>k \<in> set (ski_keys rest iter). k \<in> set (ski_keys rest iter2) \<or> k < ?p \<or> prefix ?p k"
    using kept dropWhile_below(2) [OF soi, of ?p] unfolding k1 by blast
  have fil2: "filter (prefix (entity_prefix f)) (ski_keys rest iter2) = filter (prefix (entity_prefix f)) K" if f: "f \<in> set es" for f
  proof -
    have "?p < entity_prefix f" using Cons.prems(4) f by simp
    moreover have "\<not> prefix ?p (entity_prefix f)" using prefix_entity_prefix [of e f "[]"] calculation by auto
    ultimately have "filter (prefix (entity_prefix f)) (ski_keys rest iter2) = filter (prefix (entity_prefix f)) (ski_keys rest iter)"
      using it(1,2) soi sub1 keep by (intro filter_prefix_kept [of _ _ ?p]) (auto simp: ski_ok_def)
    then show ?thesis using Cons.prems(5) f by simp
  qed
  have "ski_peek iter2 = None \<longrightarrow> (\<forall>l. lk (ski_inner iter2) = Some l \<longrightarrow> l < entity_prefix f)" if f: "f \<in> set es" for f
    using end2 later [OF f] by (auto intro: less_le_trans)
  then have "active_datoms_loop ops ts s n (map (\<lambda>e. (entity_prefix e, e)) es) iter2
        (ds @ map (key_retraction ts s) (live_list (\<lambda>_. True) (filter (prefix ?p) K))) =
      Ok ((ds @ map (key_retraction ts s) (live_list (\<lambda>_. True) (filter (prefix ?p) K))) @
        concat (map (\<lambda>e. map (key_retraction ts s) (live_list (\<lambda>_. True) (filter (prefix (entity_prefix e)) K))) es))"
    using it(2,3) sub1 len1 Cons.prems(2,3,4) fil2 by (intro Cons.IH [OF it(1)]) auto
  then show ?case using s(1) loop by simp
qed simp

text \<open>The facts that hold now.\<close>

definition live :: "version set \<Rightarrow> entid \<Rightarrow> entid \<Rightarrow> data_type \<Rightarrow> bool" where
  "live R e a v \<longleftrightarrow> (\<exists>tx op. fact_holds i64_MAX R (e, a, v, tx, op))"

lemma bt_of_entities:
  "\<exists>es. bt_of (map (\<lambda>e. (entity_prefix e, e)) ids) = map (\<lambda>e. (entity_prefix e, e)) es \<and> set es = set ids \<and>
     sorted_wrt (<) (map entity_prefix es)"
proof -
  let ?kvs = "map (\<lambda>e. (entity_prefix e, e)) ids" and ?f = "\<lambda>e. (entity_prefix e, e)"
  let ?es = "map snd (bt_of ?kvs)"
  have sub: "x = ?f (snd x) \<and> snd x \<in> set ids" if "x \<in> set (bt_of ?kvs)" for x
    using bt_of_values [of ?kvs] that by auto
  have 1: "bt_of ?kvs = map ?f ?es" using sub by (simp add: map_idI [symmetric])
  have inc: "e \<in> set ?es" if e: "e \<in> set ids" for e
  proof -
    have "entity_prefix e \<in> fst ` set (bt_of ?kvs)" unfolding bt_of_keys using e by force
    then obtain x where x: "entity_prefix e = fst x" "x \<in> set (bt_of ?kvs)" by (rule imageE)
    have "fst x = entity_prefix (snd x)" using sub [OF x(2)] by (metis fst_conv)
    then have "snd x = e" using x(1) by (simp add: entity_prefix_eq encode_bytes_inject)
    then show ?thesis using imageI [OF x(2), of snd] by simp
  qed
  have "set ?es \<subseteq> set ids" using sub by auto
  then have "set ?es = set ids" using inc by blast
  moreover have "sorted_wrt (<) (map entity_prefix ?es)"
  proof -
    have "map entity_prefix ?es = map fst (bt_of ?kvs)" using 1 by (metis (no_types, lifting) comp_apply fst_conv map_eq_conv map_map)
    then show ?thesis using bt_of_wf [of ?kvs] by (simp only:)
  qed
  ultimately show ?thesis using 1 by blast
qed

lemma entity_live_keys:
  assumes R: "storable_versions R" and so: "sorted_wrt (<) K" and K: "set K = version_key EAV_index ` R"
  shows "k \<in> set (live_list (\<lambda>_. True) (filter (prefix (entity_prefix e)) K)) \<longleftrightarrow>
    (\<exists>a v tx op. k = version_key EAV_index (e, a, v, tx, op) \<and> fact_holds i64_MAX R (e, a, v, tx, op))"
proof -
  let ?R = "{(f, a, v, tx, op) \<in> R. (\<lambda>(f, a, v). f = e) (f, a, v)}" and ?K = "filter (prefix (entity_prefix e)) K"
  have eav: "temporal_index EAV_index" by (simp add: temporal_index_def)
  have R': "storable_versions ?R" using R by (auto simp: storable_versions_def)
  have K': "set ?K = version_key EAV_index ` ?R" using K by (auto simp: prefix_version_entity)
  have "k \<in> set (live_list (\<lambda>_. True) ?K) \<longleftrightarrow> holds_in (\<lambda>_. True) (version_key EAV_index ` ?R) k"
    using live_list_iff [OF sorted_wrt_filter [OF so] version_keys_versioned [OF eav R', folded K']] by (simp only: K')
  also have "\<dots> \<longleftrightarrow> (\<exists>x \<in> ?R. k = version_key EAV_index x \<and> fact_holds i64_MAX ?R x)"
    using holds_now [OF eav R'] unfolding holds_in_def by blast
  also have "\<dots> \<longleftrightarrow> (\<exists>a v tx op. k = version_key EAV_index (e, a, v, tx, op) \<and> fact_holds i64_MAX R (e, a, v, tx, op))"
    using fact_holds_filter [of "\<lambda>(f, a, v). f = e" e] by (auto simp: fact_holds_def)
  finally show ?thesis .
qed

lemma active_entity_datoms_ok:
  assumes law: "slate_law ops keys rest lk" and ts: "timestamp_law ts okt" and R: "eav_keys_ok okt s R"
    and db: "{k \<in> keys db. prefix [EAV] k} = version_key EAV_index ` R" and n: "card (version_key EAV_index ` R) < n"
  shows "\<exists>ds. batch_lookup_active_entity_datoms ops n ts db s ids = Ok ds \<and>
    set ds = {retraction_of s e a v | e a v. e \<in> set ids \<and> live R e a v}"
proof (cases "ids = []")
  case True
  then show ?thesis by (simp add: batch_lookup_active_entity_datoms_def bt_of_def)
next
  case False
  let ?K = "sorted_list_of_set (version_key EAV_index ` R)"
  have Rs: "storable_versions R" by (rule eav_keys_ok_storable [OF R])
  have fin: "finite (version_key EAV_index ` R)" using law db [symmetric] by (simp add: slate_law_def)
  obtain es where es: "bt_of (map (\<lambda>e. (entity_prefix e, e)) ids) = map (\<lambda>e. (entity_prefix e, e)) es" "set es = set ids"
      "sorted_wrt (<) (map entity_prefix es)" using bt_of_entities by blast
  obtain iter where i: "ski_scan_prefix ops db [EAV] = Ok iter" "ski_ok rest lk iter"
    and k: "ski_keys rest iter = ?K" and e: "ski_keys rest iter = [] \<longrightarrow> lk (ski_inner iter) = None"
    using ski_scan_ok [OF law, of db "[EAV]"] unfolding db by (metis (no_types))
  have e': "ski_peek iter = None \<longrightarrow> lk (ski_inner iter) = None"
    using e by (auto simp: ski_peek_keys [of iter rest] split: list.splits)
  let ?ds = "concat (map (\<lambda>e. map (key_retraction ts s) (live_list (\<lambda>_. True) (filter (prefix (entity_prefix e)) ?K))) es)"
  have "active_datoms_loop ops ts s n (map (\<lambda>e. (entity_prefix e, e)) es) iter [] = Ok ([] @ ?ds)"
    using fin n k e' es(3) by (intro active_datoms_loop_ok [OF law ts R _ _ _ i(2)]) (simp_all add: strict_sorted_list_of_set)
  moreover have "es \<noteq> []" using False es(2) by auto
  ultimately have "batch_lookup_active_entity_datoms ops n ts db s ids = Ok ?ds"
    using es(1) i(1) by (simp add: batch_lookup_active_entity_datoms_def entity_prefix_def [symmetric])
  moreover have "key_retraction ts s (version_key EAV_index (e, a, v, tx, op)) = retraction_of s e a v"
    if "fact_holds i64_MAX R (e, a, v, tx, op)" for e a v tx op
  proof -
    have "dt_wf okt v" using R that by (auto simp: eav_keys_ok_def fact_holds_def)
    then show ?thesis by (simp add: key_retraction_def eav_parts [OF ts])
  qed
  note ret = this
  note keys = entity_live_keys [OF Rs strict_sorted_list_of_set set_sorted_list_of_set [OF fin]]
  have "set ?ds = {retraction_of s e a v | e a v. e \<in> set ids \<and> live R e a v}"
  proof (rule set_eqI)
    fix x
    have "x \<in> set ?ds \<longleftrightarrow> (\<exists>e \<in> set ids. \<exists>k a v tx op. k = version_key EAV_index (e, a, v, tx, op) \<and>
        fact_holds i64_MAX R (e, a, v, tx, op) \<and> x = key_retraction ts s k)"
      unfolding set_concat set_map image_image es(2) [symmetric] Union_iff image_iff bex_simps
      by (auto simp: keys image_iff Bex_def) blast+
    also have "\<dots> \<longleftrightarrow> x \<in> {retraction_of s e a v | e a v. e \<in> set ids \<and> live R e a v}"
      using ret unfolding live_def by (auto simp del: split_paired_Ex) metis+
    finally show "x \<in> set ?ds \<longleftrightarrow> x \<in> {retraction_of s e a v | e a v. e \<in> set ids \<and> live R e a v}" .
  qed
  ultimately show ?thesis by blast
qed


text \<open>C17: Retracting an entity retracts all it has: the single scan over the sorted entity ids finds, for
  every requested entity, exactly the facts that hold now, each as a retraction, and nothing of any other
  entity. The scan returns for every store.\<close>

theorem retract_entity_exact:
  assumes "slate_law ops keys rest lk" and "timestamp_law ts okt" and "eav_keys_ok okt s R"
    and "{k \<in> keys db. prefix [EAV] k} = version_key EAV_index ` R" and "card (version_key EAV_index ` R) < n"
  shows "\<exists>ds. batch_lookup_active_entity_datoms ops n ts db s ids = Ok ds \<and>
    set ds = {retraction_of s e a v | e a v. e \<in> set ids \<and> live R e a v}"
  by (rule active_entity_datoms_ok [OF assms])

abbreviation two_facts :: "version list" where
  "two_facts \<equiv> [(7, 1, DBoolean True, 5, ADD), (8, 1, DBoolean True, 5, ADD)]"

abbreviation one_name :: schema where
  "one_name \<equiv> empty_schema\<lparr>entid_map := [1 \<mapsto> kw ''a'' ''b'']\<rparr>"

theorem retract_entity_exact_witness:
  "\<exists>ds. batch_lookup_active_entity_datoms list_slate 3 any_timestamp (map (version_key EAV_index) two_facts) one_name [7] = Ok ds \<and>
    set ds = {retraction_of one_name e a v | e a v. e \<in> set [7] \<and> live (set two_facts) e a v}"
proof -
  have "prefix [EAV] (version_key EAV_index x)" for x by (cases x) (simp add: version_key_eav entity_prefix_eq)
  then have db: "{k \<in> set (map (version_key EAV_index) two_facts). prefix [EAV] k} = version_key EAV_index ` set two_facts"
    unfolding set_map by blast
  have "eav_keys_ok (\<lambda>_. True) one_name (set two_facts)" by (simp add: eav_keys_ok_def get_ident_def)
  moreover have "card (version_key EAV_index ` set two_facts) < 3"
    using card_length [of "map (version_key EAV_index) two_facts"] by simp
  ultimately show ?thesis
    by (intro retract_entity_exact [OF list_slate_law any_timestamp_law _ db])
qed

end
