(* ===== verification/Indexer_Inv.thy ===== *)
theory Indexer_Inv
  imports Indexer Entity_Scan
begin

text \<open>
  What the indexer keeps true of the database. The contents of the store are a set of versions
  of facts; \<open>index_state\<close> says that the six indices are projections of it, \<open>live\<close> which facts hold
  now. \<open>db_inv\<close> collects the invariant: cardinality-one attributes have one value, unique values
  one owner, the schema's names are the \<^verbatim>\<open>:db/ident\<close> facts, and everything stored has been
  allocated.
\<close>

section \<open>The indices\<close>

definition index_byte :: "index_type \<Rightarrow> u8" where
  "index_byte it =
     (case it of EAV_index \<Rightarrow> EAV | AVE_index \<Rightarrow> AVE | AEV_index \<Rightarrow> AEV | VAE_index \<Rightarrow> VAE | AE_index \<Rightarrow> AE | AV_index \<Rightarrow> AV)"

definition unique_attr :: "schema \<Rightarrow> entid \<Rightarrow> bool" where
  "unique_attr s a \<longleftrightarrow> (\<exists>attr. attribute_map s a = Some attr \<and> a_unique attr \<noteq> None)"

definition single_attr :: "schema \<Rightarrow> entid \<Rightarrow> bool" where
  "single_attr s a \<longleftrightarrow> (\<exists>attr. attribute_map s a = Some attr \<and> \<not> a_multival attr)"

text \<open>The versions an index records: the value index only those of unique attributes, the
  atemporal ones only assertions.\<close>

definition indexed :: "schema \<Rightarrow> index_type \<Rightarrow> version set \<Rightarrow> version set" where
  "indexed s it R =
     (case it of
        VAE_index \<Rightarrow> {(e, a, v, tx, op) \<in> R. unique_attr s a}
      | AE_index \<Rightarrow> {(e, a, v, tx, op) \<in> R. op = ADD}
      | AV_index \<Rightarrow> {(e, a, v, tx, op) \<in> R. op = ADD}
      | _ \<Rightarrow> R)"

definition index_state :: "('db \<Rightarrow> bytes set) \<Rightarrow> 'db \<Rightarrow> schema \<Rightarrow> version set \<Rightarrow> bool" where
  "index_state keys db s R \<longleftrightarrow>
     (\<forall>it. {k \<in> keys db. prefix [index_byte it] k} = version_key it ` indexed s it R)"

definition datom_version :: "schema \<Rightarrow> i64 \<Rightarrow> datom \<Rightarrow> version" where
  "datom_version s tx d =
     (d_entity d, fst (the (get_attribute s (d_attribute d))), d_value d, tx, op_byte (d_op d))"

lemma index_byte_inj: "index_byte it = index_byte it' \<longleftrightarrow> it = it'"
  by (cases it; cases it') (simp_all add: index_byte_def index_defs)

lemma version_key_byte: "\<exists>ks. version_key it x = index_byte it # ks"
  by (cases x; cases it) (simp_all add: version_key_def index_key_def index_byte_def)

lemma version_key_prefix: "prefix [index_byte it] (version_key it' x) \<longleftrightarrow> it = it'"
  using version_key_byte [of it' x] by (auto simp: index_byte_inj)

lemma indexed_Un: "indexed s it (R \<union> Q) = indexed s it R \<union> indexed s it Q"
  by (cases it) (auto simp: indexed_def)

lemma indexed_insert: "indexed s it (insert x R) = indexed s it {x} \<union> indexed s it R"
  using indexed_Un [of s it "{x}" R] by simp

lemma indexed_empty [simp]: "indexed s it {} = {}"
  by (cases it) (simp_all add: indexed_def)

lemma indexed_single:
  "indexed s VAE_index {(e, a, v, tx, op)} = (if unique_attr s a then {(e, a, v, tx, op)} else {})"
  "indexed s AE_index {(e, a, v, tx, op)} = (if op = ADD then {(e, a, v, tx, op)} else {})"
  "indexed s AV_index {(e, a, v, tx, op)} = (if op = ADD then {(e, a, v, tx, op)} else {})"
  "indexed s EAV_index R = R" "indexed s AVE_index R = R" "indexed s AEV_index R = R"
  unfolding indexed_def by (simp_all, auto)

lemma get_attribute_Some:
  "get_attribute s k = Some (a, attr) \<longleftrightarrow> ident_map s k = Some a \<and> attribute_map s a = Some attr"
  by (auto simp: get_attribute_def split: option.splits)

lemma datom_entries_Ok:
  assumes "datom_entries s tx d = Ok ks"
  shows "get_attribute s (d_attribute d) \<noteq> None"
    and "set ks = (\<Union>it. version_key it ` indexed s it {datom_version s tx d})"
proof -
  obtain a attr where g: "get_attribute s (d_attribute d) = Some (a, attr)"
    using assms by (auto simp: datom_entries_def ok_or_def split: option.splits)
  then show "get_attribute s (d_attribute d) \<noteq> None" by simp
  have u: "unique_attr s a \<longleftrightarrow> a_unique attr \<noteq> None"
    using g by (auto simp: unique_attr_def get_attribute_Some)
  have op: "op_byte (d_op d) = ADD \<longleftrightarrow> d_op d = Assert_op"
    by (cases "d_op d") (simp_all add: op_byte_def index_defs)
  have all: "(\<Union>it. f it) = f EAV_index \<union> f AVE_index \<union> f AEV_index \<union> f VAE_index \<union> f AE_index \<union> f AV_index"
    for f :: "index_type \<Rightarrow> bytes set"
  proof -
    have "it \<in> {EAV_index, AVE_index, AEV_index, VAE_index, AE_index, AV_index}" for it by (cases it) auto
    then have "UNIV = {EAV_index, AVE_index, AEV_index, VAE_index, AE_index, AV_index}" by blast
    then show ?thesis by (metis (no_types) UN_insert UN_empty Un_assoc Un_empty_right)
  qed
  show "set ks = (\<Union>it. version_key it ` indexed s it {datom_version s tx d})"
    using assms u op unfolding all
    by (auto simp: datom_entries_def g ok_or_def Let_def datom_version_def indexed_single version_key_def
        entity_bytes_def simp del: encode_datatype.simps)
qed

lemma datom_entries_total:
  "get_attribute s (d_attribute d) \<noteq> None \<Longrightarrow> \<exists>ks. datom_entries s tx d = Ok ks"
  by (auto simp: datom_entries_def ok_or_def Let_def)

lemma write_index_entries_Ok:
  assumes "write_index_entries batch ds s tx = Ok batch'"
  shows "\<forall>d \<in> set ds. get_attribute s (d_attribute d) \<noteq> None"
    and "set batch' = set batch \<union> (\<Union>it. version_key it ` indexed s it (datom_version s tx ` set ds))"
proof -
  have "(\<forall>d \<in> set ds. get_attribute s (d_attribute d) \<noteq> None) \<and>
      set batch' = set batch \<union> (\<Union>it. version_key it ` indexed s it (datom_version s tx ` set ds))"
    using assms unfolding write_index_entries_def
  proof (induction ds arbitrary: batch)
    case (Cons d ds)
    obtain ks where ks: "datom_entries s tx d = Ok ks"
      and r: "rfold (\<lambda>b d. rbind (datom_entries s tx d) (\<lambda>ks. Ok (b @ ks))) (batch @ ks) ds = Ok batch'"
      using Cons.prems by auto
    have "indexed s it (datom_version s tx ` set (d # ds)) =
        indexed s it {datom_version s tx d} \<union> indexed s it (datom_version s tx ` set ds)" for it
      by (simp only: list.set image_insert indexed_insert [of s it _ "datom_version s tx ` set ds"])
    then show ?case using Cons.IH [OF r] datom_entries_Ok [OF ks] by auto
  qed simp
  then show "\<forall>d \<in> set ds. get_attribute s (d_attribute d) \<noteq> None"
    and "set batch' = set batch \<union> (\<Union>it. version_key it ` indexed s it (datom_version s tx ` set ds))" by blast+
qed

lemma write_index_entries_total:
  "\<forall>d \<in> set ds. get_attribute s (d_attribute d) \<noteq> None \<Longrightarrow> \<exists>batch'. write_index_entries batch ds s tx = Ok batch'"
  unfolding write_index_entries_def
proof (induction ds arbitrary: batch)
  case (Cons d ds)
  obtain ks where "datom_entries s tx d = Ok ks" using datom_entries_total Cons.prems by fastforce
  then show ?case using Cons.IH [of "batch @ ks"] Cons.prems by simp
qed simp

lemma index_state_write:
  assumes "index_state keys db s R" and "write_index_entries [] ds s tx = Ok batch"
    and "keys db' = keys db \<union> set batch"
  shows "index_state keys db' s (R \<union> datom_version s tx ` set ds)"
proof -
  let ?D = "datom_version s tx ` set ds"
  have "{k \<in> set batch. prefix [index_byte it] k} = version_key it ` indexed s it ?D" for it
    using write_index_entries_Ok(2) [OF assms(2)] by (auto simp: version_key_prefix)
  then have "{k \<in> keys db'. prefix [index_byte it] k} = version_key it ` indexed s it R \<union> version_key it ` indexed s it ?D" for it
    using assms(1,3) unfolding index_state_def by blast
  then show ?thesis by (simp add: index_state_def indexed_Un image_Un)
qed

section \<open>Facts that hold\<close>

definition ops_wf :: "version set \<Rightarrow> bool" where
  "ops_wf R \<longleftrightarrow> (\<forall>(e, a, v, tx, op) \<in> R. op = ADD \<or> op = RETRACT)"

lemma live_iff:
  assumes "ops_wf R"
  shows "live R e a v \<longleftrightarrow>
    (\<exists>tx. (e, a, v, tx, ADD) \<in> R \<and> (\<forall>tx' op'. (e, a, v, tx', op') \<in> R \<longrightarrow> sint tx' \<le> sint tx))"
proof
  assume "live R e a v"
  then obtain tx op where h: "fact_holds i64_MAX R (e, a, v, tx, op)" by (auto simp: live_def)
  then have "(e, a, v, tx, op) \<in> R" "op \<noteq> RETRACT" by (simp_all add: fact_holds_def)
  moreover from this have "op = ADD" using assms by (auto simp: ops_wf_def)
  moreover have "sint tx' \<le> sint tx" if "(e, a, v, tx', op') \<in> R" for tx' op'
    using h that sint_i64_MAX [of tx'] by (fastforce simp: fact_holds_def)
  ultimately show "\<exists>tx. (e, a, v, tx, ADD) \<in> R \<and> (\<forall>tx' op'. (e, a, v, tx', op') \<in> R \<longrightarrow> sint tx' \<le> sint tx)" by blast
next
  assume "\<exists>tx. (e, a, v, tx, ADD) \<in> R \<and> (\<forall>tx' op'. (e, a, v, tx', op') \<in> R \<longrightarrow> sint tx' \<le> sint tx)"
  then obtain tx where tx: "(e, a, v, tx, ADD) \<in> R" "\<And>tx' op'. (e, a, v, tx', op') \<in> R \<Longrightarrow> sint tx' \<le> sint tx" by blast
  have "sint tx' < sint tx \<or> tx' = tx \<and> ADD \<le> op'" if "(e, a, v, tx', op') \<in> R" for tx' op'
  proof -
    have "ADD \<le> op'" by (simp add: index_defs)
    then show ?thesis using tx(2) [OF that] by (auto simp: le_less signed_word_eqI)
  qed
  then have "fact_holds i64_MAX R (e, a, v, tx, ADD)"
    using tx(1) sint_i64_MAX [of tx] by (auto simp: fact_holds_def index_defs)
  then show "live R e a v" by (auto simp: live_def)
qed

lemma live_mem: "live R e a v \<Longrightarrow> \<exists>tx op. (e, a, v, tx, op) \<in> R"
  by (auto simp: live_def fact_holds_def)

text \<open>What a batch of datoms of a later transaction makes of the facts.\<close>

definition asserted :: "schema \<Rightarrow> datom list \<Rightarrow> entid \<Rightarrow> entid \<Rightarrow> data_type \<Rightarrow> bool" where
  "asserted s ds e a v \<longleftrightarrow> (\<exists>d \<in> set ds. \<exists>attr. get_attribute s (d_attribute d) = Some (a, attr) \<and>
     d_entity d = e \<and> d_value d = v \<and> d_op d = Assert_op)"

definition retracted :: "schema \<Rightarrow> datom list \<Rightarrow> entid \<Rightarrow> entid \<Rightarrow> data_type \<Rightarrow> bool" where
  "retracted s ds e a v \<longleftrightarrow> (\<exists>d \<in> set ds. \<exists>attr. get_attribute s (d_attribute d) = Some (a, attr) \<and>
     d_entity d = e \<and> d_value d = v \<and> d_op d = Retract_op)"

lemma datom_versions_mem:
  assumes "\<forall>d \<in> set ds. get_attribute s (d_attribute d) \<noteq> None"
  shows "(e, a, v, t, op) \<in> datom_version s tx ` set ds \<longleftrightarrow>
    t = tx \<and> (op = ADD \<and> asserted s ds e a v \<or> op = RETRACT \<and> retracted s ds e a v)"
proof
  assume "(e, a, v, t, op) \<in> datom_version s tx ` set ds"
  then obtain d where d: "d \<in> set ds" "(e, a, v, t, op) = datom_version s tx d" by auto
  then obtain b attr where "get_attribute s (d_attribute d) = Some (b, attr)" using assms by force
  then show "t = tx \<and> (op = ADD \<and> asserted s ds e a v \<or> op = RETRACT \<and> retracted s ds e a v)"
    using d by (cases "d_op d") (auto simp: datom_version_def asserted_def retracted_def op_byte_def)
next
  assume "t = tx \<and> (op = ADD \<and> asserted s ds e a v \<or> op = RETRACT \<and> retracted s ds e a v)"
  then show "(e, a, v, t, op) \<in> datom_version s tx ` set ds"
    unfolding asserted_def retracted_def image_iff by (force simp: datom_version_def op_byte_def)
qed

lemma live_commit:
  assumes R: "ops_wf R" and old: "\<forall>(e, a, v, tx', op) \<in> R. sint tx' < sint tx"
    and known: "\<forall>d \<in> set ds. get_attribute s (d_attribute d) \<noteq> None"
  shows "ops_wf (R \<union> datom_version s tx ` set ds)"
    and "live (R \<union> datom_version s tx ` set ds) e a v \<longleftrightarrow>
      asserted s ds e a v \<or> live R e a v \<and> \<not> retracted s ds e a v"
proof -
  note mem = datom_versions_mem [OF known, where tx = tx]
  show wf: "ops_wf (R \<union> datom_version s tx ` set ds)"
  proof -
    have "op = ADD \<or> op = RETRACT" if "(e, a, v, t, op) \<in> R \<union> datom_version s tx ` set ds" for e a v t op
      using R that unfolding Un_iff mem by (auto simp: ops_wf_def)
    then show ?thesis unfolding ops_wf_def by blast
  qed
  show "live (R \<union> datom_version s tx ` set ds) e a v \<longleftrightarrow>
      asserted s ds e a v \<or> live R e a v \<and> \<not> retracted s ds e a v"
  proof
    assume "live (R \<union> datom_version s tx ` set ds) e a v"
    then obtain t where t: "(e, a, v, t, ADD) \<in> R \<or> t = tx \<and> asserted s ds e a v"
      and max: "\<And>t' op'. (e, a, v, t', op') \<in> R \<or> t' = tx \<and> (op' = ADD \<and> asserted s ds e a v \<or> op' = RETRACT \<and> retracted s ds e a v)
        \<Longrightarrow> sint t' \<le> sint t"
      unfolding live_iff [OF wf] Un_iff mem by (auto simp: index_defs)
    show "asserted s ds e a v \<or> live R e a v \<and> \<not> retracted s ds e a v"
    proof (cases "asserted s ds e a v")
      case False
      then have tR: "(e, a, v, t, ADD) \<in> R" using t by blast
      have "\<not> retracted s ds e a v" using max [of tx RETRACT] bspec [OF old tR] by auto
      then show ?thesis using tR max unfolding live_iff [OF R] by blast
    qed blast
  next
    assume a: "asserted s ds e a v \<or> live R e a v \<and> \<not> retracted s ds e a v"
    have le: "sint t' \<le> sint tx" if "(e, a, v, t', op') \<in> R" for t' op' using bspec [OF old that] by simp
    show "live (R \<union> datom_version s tx ` set ds) e a v"
    proof (cases "asserted s ds e a v")
      case True
      then show ?thesis unfolding live_iff [OF wf] Un_iff mem using le by blast
    next
      case False
      then obtain t where "(e, a, v, t, ADD) \<in> R" "\<And>t' op'. (e, a, v, t', op') \<in> R \<Longrightarrow> sint t' \<le> sint t"
        using a unfolding live_iff [OF R] by blast
      then show ?thesis unfolding live_iff [OF wf] Un_iff mem using False a by blast
    qed
  qed
qed

section \<open>Replaced values\<close>

text \<open>A cardinality-one attribute has one value per entity, a unique value one owner.\<close>

definition one_value :: "schema \<Rightarrow> version set \<Rightarrow> bool" where
  "one_value s R \<longleftrightarrow> (\<forall>e a v w. single_attr s a \<and> live R e a v \<and> live R e a w \<longrightarrow> v = w)"

definition one_owner :: "schema \<Rightarrow> version set \<Rightarrow> bool" where
  "one_owner s R \<longleftrightarrow> (\<forall>e f a v. unique_attr s a \<and> live R e a v \<and> live R f a v \<longrightarrow> e = f)"

text \<open>What a datom becomes: an assertion of the value that is stored is dropped, and another
  value of a cardinality-one attribute comes with the retraction of the stored one.\<close>

definition replaced :: "schema \<Rightarrow> version set \<Rightarrow> datom \<Rightarrow> datom set" where
  "replaced s R d =
     (case get_attribute s (d_attribute d) of
        None \<Rightarrow> {d}
      | Some (a, attr) \<Rightarrow>
          if d_op d = Retract_op \<or> a_multival attr then {d}
          else if \<exists>w. live R (d_entity d) a w \<and> dt_eq w (d_value d) then {}
          else insert d {d\<lparr>d_value := w, d_op := Retract_op\<rparr> | w. live R (d_entity d) a w})"

lemma finalize_prefix_eq: "finalize_prefix e a = EAV # entity_bytes e @ encode_i64_bytes a"
  by (simp add: finalize_prefix_def concat_bytes_def entity_bytes_def encode_def)

lemma finalize_prefix_inj: "finalize_prefix e a = finalize_prefix f b \<longleftrightarrow> e = f \<and> a = b"
  by (auto simp: finalize_prefix_eq entity_bytes_eq_iff encode_bytes_inject)

lemma length_finalize_prefix: "length (finalize_prefix e a) = 18"
  by (simp add: finalize_prefix_eq)

lemma prefix_finalize_prefix: "prefix (finalize_prefix e a) (finalize_prefix f b @ r) \<longleftrightarrow> e = f \<and> a = b"
proof
  assume "prefix (finalize_prefix e a) (finalize_prefix f b @ r)"
  then obtain s where "finalize_prefix f b @ r = finalize_prefix e a @ s" by (auto simp: prefix_def)
  then have "finalize_prefix f b = finalize_prefix e a" by (simp add: append_eq_append_conv length_finalize_prefix)
  then show "e = f \<and> a = b" using finalize_prefix_inj [of f b e a] by simp
qed simp

lemma prefix_version_eav:
  "prefix (finalize_prefix e a) (version_key EAV_index (f, b, w, tx, op)) \<longleftrightarrow> e = f \<and> a = b"
proof -
  have k: "version_key EAV_index (f, b, w, tx, op) = finalize_prefix f b @ encode_datatype w @ encode_i64_bytes tx @ [op]"
    by (simp add: version_key_def index_key_def finalize_prefix_eq)
  show ?thesis unfolding k by (rule prefix_finalize_prefix)
qed

definition old_value_key :: "timestamp_opt \<Rightarrow> entid \<times> entid \<Rightarrow> bytes \<Rightarrow> (entid \<times> entid \<rightharpoonup> data_type) \<Rightarrow>
    (entid \<times> entid \<rightharpoonup> data_type) result" where
  "old_value_key ts l key acc =
     rbind (usub (length key) TX_EID_OP_SUFFIX) (\<lambda>stop.
     rbind (get_slice key (length (finalize_prefix (fst l) (snd l))) stop) (\<lambda>value_bytes.
     rbind (decode_datatype ts value_bytes) (\<lambda>(value, _). Ok (acc(l \<mapsto> value)))))"

lemma old_values_loop_scan:
  "\<forall>x \<in> set ps. fst x = finalize_prefix (fst (snd x)) (snd (snd x)) \<Longrightarrow>
    old_values_loop ops n ts ps iter acc = live_scan ops n (old_value_key ts) ps iter acc"
proof (induction ps arbitrary: iter acc)
  case (Cons x ps)
  then show ?case
    by (auto simp: old_value_key_def rbind_def split: sum.split option.split)
qed simp

lemma old_value_key_version:
  assumes "timestamp_law ts okt" and "dt_wf okt v"
  shows "old_value_key ts (e, a) (version_key EAV_index (e, a, v, tx, op)) acc = Ok (acc((e, a) \<mapsto> v))"
proof -
  have k: "version_key EAV_index (e, a, v, tx, op) = finalize_prefix e a @ encode_datatype v @ encode_i64_bytes tx @ [op]"
    by (simp add: version_key_def index_key_def finalize_prefix_eq)
  show ?thesis
    using decode_encode_datatype [OF assms, of "[]"] unfolding k
    by (simp add: old_value_key_def usub_def get_slice_def key_length_defs)
qed

lemma bt_insert_mem: "x \<in> set (bt_insert k v m) \<Longrightarrow> x = (k, v) \<or> x \<in> set m"
  by (induction k v m rule: bt_insert.induct) (auto split: if_splits)

text \<open>The prefixes to look under: one for each asserted cardinality-one attribute of a known entity.\<close>

definition replaceable :: "schema \<Rightarrow> partition_map \<Rightarrow> datom list \<Rightarrow> (entid \<times> entid) set" where
  "replaceable s pm ds = {(d_entity d, a) | d a attr. d \<in> set ds \<and> d_op d = Assert_op \<and>
     get_attribute s (d_attribute d) = Some (a, attr) \<and> \<not> a_multival attr \<and> contains_entid pm (d_entity d)}"

lemma finalize_prefixes:
  assumes "\<forall>d \<in> set ds. get_attribute s (d_attribute d) \<noteq> None"
  shows "\<exists>ps. rfold (finalize_prefix_step s pm) [] ds = Ok ps \<and> bt_wf ps \<and>
    set ps = (\<lambda>(e, a). (finalize_prefix e a, (e, a))) ` replaceable s pm ds"
  using assms
proof (induction ds rule: rev_induct)
  case (snoc d ds)
  let ?f = "\<lambda>(e, a). (finalize_prefix e a, (e, a))"
  obtain ps where ps: "rfold (finalize_prefix_step s pm) [] ds = Ok ps" "bt_wf ps" "set ps = ?f ` replaceable s pm ds"
    using snoc by auto
  obtain a attr where g: "get_attribute s (d_attribute d) = Some (a, attr)" using snoc.prems by force
  let ?skip = "d_op d \<noteq> Assert_op \<or> a_multival attr \<or> \<not> contains_entid pm (d_entity d)"
  have rep: "replaceable s pm (ds @ [d]) = (if ?skip then replaceable s pm ds else insert (d_entity d, a) (replaceable s pm ds))"
    using g by (auto simp: replaceable_def)
  show ?case
  proof (cases ?skip)
    case True
    then have "finalize_prefix_step s pm ps d = Ok ps" using g by (auto simp: finalize_prefix_step_def ok_or_def)
    then show ?thesis using ps True unfolding rep by (simp add: rfold_append)
  next
    case False
    let ?ps = "bt_insert (finalize_prefix (d_entity d) a) (d_entity d, a) ps"
    have step: "finalize_prefix_step s pm ps d = Ok ?ps" using g False by (simp add: finalize_prefix_step_def ok_or_def)
    have "set ?ps = insert (?f (d_entity d, a)) (set ps)"
    proof
      show "set ?ps \<subseteq> insert (?f (d_entity d, a)) (set ps)" by (auto dest: bt_insert_mem)
      have keys: "fst ` set ?ps = insert (finalize_prefix (d_entity d) a) (fst ` set ps)" by (rule bt_insert_keys)
      have val: "\<exists>f b. x = (finalize_prefix f b, (f, b))" if "x \<in> insert (?f (d_entity d, a)) (set ps)" for x
        using that ps(3) by auto
      show "insert (?f (d_entity d, a)) (set ps) \<subseteq> set ?ps"
      proof
        fix x assume x: "x \<in> insert (?f (d_entity d, a)) (set ps)"
        then have "fst x \<in> fst ` set ?ps" unfolding keys by auto
        then obtain y where y: "fst x = fst y" "y \<in> set ?ps" by (rule imageE)
        have "y \<in> insert (?f (d_entity d, a)) (set ps)" using bt_insert_mem [OF y(2)] by auto
        then have "x = y" using val [of x] val [of y] x y(1) by (auto simp: finalize_prefix_inj)
        then show "x \<in> set ?ps" using y by simp
      qed
    qed
    then show ?thesis
      using ps step False bt_insert_wf [OF ps(2)] unfolding rep by (auto simp: rfold_append)
  qed
qed (simp add: replaceable_def)

lemma old_values_ok:
  assumes law: "slate_law ops keys rest lk" and ts: "timestamp_law ts okt"
    and R: "\<forall>(e, a, v, tx, op) \<in> R. dt_wf okt v"
    and db: "{k \<in> keys db. prefix [EAV] k} = version_key EAV_index ` R" and n: "card (version_key EAV_index ` R) < n"
    and ps: "bt_wf ps" "set ps = (\<lambda>(e, a). (finalize_prefix e a, (e, a))) ` L"
  shows "\<exists>res. rbind (ski_scan_prefix ops db [EAV]) (\<lambda>iter. old_values_loop ops n ts ps iter Map.empty) = Ok res \<and>
    (\<forall>(e, a) \<in> L. case res (e, a) of None \<Rightarrow> \<forall>v. \<not> live R e a v | Some v \<Rightarrow> live R e a v) \<and>
    (\<forall>l. l \<notin> L \<longrightarrow> res l = None)"
proof -
  let ?K = "sorted_list_of_set (version_key EAV_index ` R)"
  have eav: "temporal_index EAV_index" by (simp add: temporal_index_def)
  have fin: "finite (version_key EAV_index ` R)" using law db [symmetric] by (simp add: slate_law_def)
  have Rs: "storable_versions R" using R dt_wf_storable(1) by (auto simp: storable_versions_def)
  have K: "set ?K = version_key EAV_index ` R" using fin by simp
  have whole: "prefix p (logical_key k)" if p: "p \<in> fst ` set ps" and k: "k \<in> set ?K" and pk: "prefix p k" for p k
  proof -
    from p obtain e a where p': "p = finalize_prefix e a" by (auto simp: ps(2) image_image)
    obtain f b w tx op where k': "k = version_key EAV_index (f, b, w, tx, op)" using k unfolding K by auto
    have "e = f \<and> a = b" using pk unfolding p' k' by (simp add: prefix_version_eav)
    then show ?thesis by (simp add: p' k' version_key_parts [OF eav] fact_key_def finalize_prefix_eq)
  qed
  have scan: "scan_prefixes ?K (map fst ps)"
    unfolding scan_prefixes_def using ps(1) whole prefix_finalize_prefix [where r = "[]"]
    by (auto simp: ps(2))
  have d: "distinct (map snd ps)"
  proof (rule distinct_map [THEN iffD2], rule conjI)
    have "distinct (map fst ps)" by (rule strict_sorted_iff [THEN iffD1, THEN conjunct2]) (rule ps(1))
    then show "distinct ps" by (simp add: distinct_map)
    show "inj_on snd (set ps)" unfolding ps(2) by (auto simp: inj_on_def)
  qed
  have found: "\<exists>r. (\<forall>acc. live_step (old_value_key ts) ?K acc x = Ok (case r of None \<Rightarrow> acc | Some y \<Rightarrow> acc(snd x \<mapsto> y))) \<and>
      (case r of None \<Rightarrow> \<forall>v. \<not> live R (fst (snd x)) (snd (snd x)) v | Some v \<Rightarrow> live R (fst (snd x)) (snd (snd x)) v)"
    if x: "x \<in> set ps" for x
  proof -
    obtain e a where ea: "x = (finalize_prefix e a, (e, a))" using x unfolding ps(2) by auto
    have sel: "prefix (finalize_prefix e a) (version_key EAV_index (f, b, w, tx, op)) \<longleftrightarrow> (\<lambda>(f, b, _). e = f \<and> a = b) (f, b, w)"
      for f b w tx op by (simp add: prefix_version_eav)
    note first = first_live_facts [OF eav Rs strict_sorted_list_of_set K sel]
    show ?thesis
    proof (cases "first_of (live_list (\<lambda>_. True) (filter (prefix (finalize_prefix e a)) ?K))")
      case None
      then show ?thesis using first by (intro exI [of _ None]) (simp add: live_step_def ea live_def)
    next
      case (Some key)
      then obtain v tx op where k: "key = version_key EAV_index (e, a, v, tx, op)" "(e, a, v, tx, op) \<in> R"
        "fact_holds i64_MAX R (e, a, v, tx, op)" using first by auto
      have "dt_wf okt v" using R k(2) by auto
      then show ?thesis using k(3) Some
        by (intro exI [of _ "Some v"]) (auto simp: live_step_def ea live_def k(1) old_value_key_version [OF ts])
    qed
  qed
  have "\<exists>g. \<forall>x \<in> set ps. (\<forall>acc. live_step (old_value_key ts) ?K acc x = Ok (case g x of None \<Rightarrow> acc | Some y \<Rightarrow> acc(snd x \<mapsto> y))) \<and>
      (case g x of None \<Rightarrow> \<forall>v. \<not> live R (fst (snd x)) (snd (snd x)) v | Some v \<Rightarrow> live R (fst (snd x)) (snd (snd x)) v)"
    by (rule bchoice) (rule ballI, rule found)
  then obtain g where gx: "\<forall>x \<in> set ps. (\<forall>acc. live_step (old_value_key ts) ?K acc x = Ok (case g x of None \<Rightarrow> acc | Some y \<Rightarrow> acc(snd x \<mapsto> y))) \<and>
      (case g x of None \<Rightarrow> \<forall>v. \<not> live R (fst (snd x)) (snd (snd x)) v | Some v \<Rightarrow> live R (fst (snd x)) (snd (snd x)) v)"
    by (rule exE)
  note g = bspec [OF gx, THEN conjunct1, THEN spec] bspec [OF gx, THEN conjunct2]
  obtain res where r: "rfold (live_step (old_value_key ts) ?K) Map.empty ps = Ok res"
    and in_ps: "\<forall>x \<in> set ps. res (snd x) = (case g x of None \<Rightarrow> None | Some y \<Rightarrow> Some y)"
    and out: "\<forall>l. l \<notin> snd ` set ps \<longrightarrow> res l = None"
    using rfold_updates [of ps "live_step (old_value_key ts) ?K" snd g Map.empty, OF g(1) d] by blast
  have "\<forall>x \<in> set ps. fst x = finalize_prefix (fst (snd x)) (snd (snd x))" by (auto simp: ps(2))
  then have "rbind (ski_scan_prefix ops db [EAV]) (\<lambda>iter. old_values_loop ops n ts ps iter Map.empty) = Ok res"
    using live_scan_index [OF law eav Rs db n scan, of "old_value_key ts" Map.empty] r
    by (simp add: old_values_loop_scan)
  moreover have "case res (e, a) of None \<Rightarrow> \<forall>v. \<not> live R e a v | Some v \<Rightarrow> live R e a v" if "(e, a) \<in> L" for e a
  proof -
    have x: "(finalize_prefix e a, (e, a)) \<in> set ps" unfolding ps(2) using that by force
    then have "res (e, a) = (case g (finalize_prefix e a, (e, a)) of None \<Rightarrow> None | Some y \<Rightarrow> Some y)" using in_ps by fastforce
    then show ?thesis using g(2) [OF x] by (auto split: option.splits)
  qed
  moreover have "snd ` set ps = L" unfolding ps(2) by force
  ultimately show ?thesis using out by (intro exI [of _ res]) auto
qed

lemma rfold_union:
  assumes "rfold f s xs = Ok s'" and "\<And>s x s'. x \<in> set xs \<Longrightarrow> f s x = Ok s' \<Longrightarrow> F s' = h x \<union> F s"
  shows "F s' = (\<Union>x \<in> set xs. h x) \<union> F s"
  using assms by (induction xs arbitrary: s) fastforce+

lemma rfold_total:
  assumes "\<And>s x. x \<in> set xs \<Longrightarrow> \<exists>s'. f s x = Ok s'"
  shows "\<exists>s'. rfold f s xs = Ok s'"
  using assms by (induction xs arbitrary: s) (auto, metis)

lemma datom_set_insert_set [simp]: "set (datom_set_insert d ds) = insert d (set ds)"
  by (auto simp: datom_set_insert_def)

lemma finalize_ok:
  assumes law: "slate_law ops keys rest lk" and ts: "timestamp_law ts okt"
    and R: "\<forall>(e, a, v, tx, op) \<in> R. dt_wf okt v \<and> contains_entid pm e"
    and db: "{k \<in> keys db. prefix [EAV] k} = version_key EAV_index ` R" and n: "card (version_key EAV_index ` R) < n"
    and order: "\<And>xs. set (order xs) = set xs"
    and one: "one_value s R" and known: "\<forall>d \<in> set ds. get_attribute s (d_attribute d) \<noteq> None"
  shows "\<exists>final. finalize_datoms_for_commit ops n ts order db s pm ds = Ok final \<and>
    set final = (\<Union>d \<in> set ds. replaced s R d)"
proof -
  obtain ps where ps: "rfold (finalize_prefix_step s pm) [] ds = Ok ps" "bt_wf ps"
    "set ps = (\<lambda>(e, a). (finalize_prefix e a, (e, a))) ` replaceable s pm ds"
    using finalize_prefixes [OF known] by blast
  have R': "\<forall>(e, a, v, tx, op) \<in> R. dt_wf okt v" using R by blast
  obtain res where res: "(if ps = [] then Ok Map.empty
            else rbind (ski_scan_prefix ops db [EAV]) (\<lambda>iter. old_values_loop ops n ts ps iter Map.empty)) = Ok res"
    "\<forall>(e, a) \<in> replaceable s pm ds. case res (e, a) of None \<Rightarrow> \<forall>v. \<not> live R e a v | Some v \<Rightarrow> live R e a v"
    "\<forall>l. l \<notin> replaceable s pm ds \<longrightarrow> res l = None"
  proof (cases "ps = []")
    case True
    then have "replaceable s pm ds = {}" using ps(3) by simp
    then show thesis using that [of Map.empty] True by simp
  next
    case False
    then show thesis using that old_values_ok [OF law ts R' db n ps(2,3)] by fastforce
  qed
  have old: "res (d_entity d, a) = Some w \<longleftrightarrow> live R (d_entity d) a w"
    if d: "d \<in> set ds" "d_op d = Assert_op" "get_attribute s (d_attribute d) = Some (a, attr)" "\<not> a_multival attr" for d a attr w
  proof -
    have single: "single_attr s a" using d(3,4) by (auto simp: single_attr_def get_attribute_Some)
    show ?thesis
    proof (cases "contains_entid pm (d_entity d)")
      case True
      then have "(d_entity d, a) \<in> replaceable s pm ds" using d by (auto simp: replaceable_def)
      then have "case res (d_entity d, a) of None \<Rightarrow> \<forall>v. \<not> live R (d_entity d) a v | Some v \<Rightarrow> live R (d_entity d) a v"
        using res(2) by fast
      then show ?thesis using one single unfolding one_value_def by (cases "res (d_entity d, a)") auto
    next
      case False
      then have "\<not> live R (d_entity d) a w" using live_mem R by fastforce
      moreover have "(d_entity d, a) \<notin> replaceable s pm ds" using False by (auto simp: replaceable_def)
      ultimately show ?thesis using res(3) by simp
    qed
  qed
  have step: "set out' = replaced s R d \<union> set out"
    if d: "d \<in> set ds" and f: "finalize_step s res out d = Ok out'" for out d out'
  proof -
    obtain a attr where g: "get_attribute s (d_attribute d) = Some (a, attr)" using known d by force
    note old' = old [OF d _ g]
    show ?thesis
    proof (cases "d_op d = Retract_op \<or> a_multival attr")
      case True
      then show ?thesis using f g by (cases "d_op d") (auto simp: finalize_step_def replaced_def ok_or_def)
    next
      case False
      then have op: "d_op d = Assert_op" "\<not> a_multival attr" by (cases "d_op d"; simp)+
      have rep: "replaced s R d = (if \<exists>w. res (d_entity d, a) = Some w \<and> dt_eq w (d_value d) then {}
          else insert d {d\<lparr>d_value := w, d_op := Retract_op\<rparr> | w. res (d_entity d, a) = Some w})"
        using g op old' [OF op] by (simp add: replaced_def)
      show ?thesis
        unfolding rep using f g op by (auto simp: finalize_step_def ok_or_def split: option.splits if_splits)
    qed
  qed
  have "\<exists>out'. finalize_step s res out d = Ok out'" if d: "d \<in> set ds" for out d
  proof -
    obtain a attr where g: "get_attribute s (d_attribute d) = Some (a, attr)" using known d by force
    show ?thesis by (cases "res (d_entity d, a)") (simp_all add: finalize_step_def ok_or_def g)
  qed
  then obtain out where out: "rfold (finalize_step s res) [] ds = Ok out"
    using rfold_total [of ds "finalize_step s res" "[]"] by blast
  have "set out = (\<Union>d \<in> set ds. replaced s R d)" using rfold_union [OF out, of set "replaced s R"] step by simp
  then show ?thesis using ps(1) res(1) out order by (simp add: finalize_datoms_for_commit_def)
qed

section \<open>Unique values\<close>

text \<open>What the check of unique values demands: within the transaction a value has one owner, and
  an owner in the store gives the value up.\<close>

definition owners_agree :: "schema \<Rightarrow> datom list \<Rightarrow> bool" where
  "owners_agree s ds \<longleftrightarrow> (\<forall>e f a v. unique_attr s a \<and> asserted s ds e a v \<and> asserted s ds f a v \<longrightarrow> e = f)"

definition owners_give_up :: "schema \<Rightarrow> version set \<Rightarrow> datom list \<Rightarrow> bool" where
  "owners_give_up s R ds \<longleftrightarrow> (\<forall>e f a v. unique_attr s a \<and> asserted s ds e a v \<and> live R f a v \<and> f \<noteq> e \<longrightarrow>
     retracted s ds f a v)"

lemma asserted_snoc:
  "asserted s (ds @ [d]) e a v \<longleftrightarrow> asserted s ds e a v \<or>
     (\<exists>attr. get_attribute s (d_attribute d) = Some (a, attr)) \<and> d_entity d = e \<and> d_value d = v \<and> d_op d = Assert_op"
  by (auto simp: asserted_def)

lemma unique_attr_get:
  "get_attribute s k = Some (a, attr) \<Longrightarrow> unique_attr s a \<longleftrightarrow> a_unique attr \<noteq> None"
  by (auto simp: get_attribute_Some unique_attr_def)

definition to_check_of :: "schema \<Rightarrow> datom list \<Rightarrow> (datom \<times> entid) set" where
  "to_check_of s ds = {(d, a). d \<in> set ds \<and> d_op d = Assert_op \<and> unique_attr s a \<and>
     (\<exists>attr. get_attribute s (d_attribute d) = Some (a, attr))}"

lemma unique_assert_fold:
  assumes "\<forall>d \<in> set ds. get_attribute s (d_attribute d) \<noteq> None \<and> dt_refl (d_value d)"
  shows "case rfold (unique_assert_step s) (Map.empty, []) ds of
      Inl e \<Rightarrow> e = Err ''Unique constraint violation for attribute'' \<and> \<not> owners_agree s ds
    | Inr (m, tc) \<Rightarrow> owners_agree s ds \<and> set tc = to_check_of s ds \<and>
        (\<forall>a v e. m (a, v) = Some e \<longleftrightarrow> unique_attr s a \<and> asserted s ds e a v)"
  using assms
proof (induction ds rule: rev_induct)
  case Nil
  show ?case by (simp add: owners_agree_def asserted_def to_check_of_def)
next
  case (snoc d ds)
  obtain b attr where g: "get_attribute s (d_attribute d) = Some (b, attr)" using snoc.prems by force
  have refl: "dt_refl (d_value d)" using snoc.prems by simp
  show ?case
  proof (cases "rfold (unique_assert_step s) (Map.empty, []) ds")
    case (Inl e)
    then have "e = Err ''Unique constraint violation for attribute''" "\<not> owners_agree s ds" using snoc by simp_all
    moreover from this(2) have "\<not> owners_agree s (ds @ [d])" unfolding owners_agree_def asserted_snoc by blast
    ultimately show ?thesis using Inl by (simp add: rfold_append)
  next
    case (Inr p)
    obtain m tc where p: "p = (m, tc)" by (cases p)
    have IH: "owners_agree s ds" "set tc = to_check_of s ds"
      "\<And>a v e. m (a, v) = Some e \<longleftrightarrow> unique_attr s a \<and> asserted s ds e a v" using snoc Inr p by simp_all
    show ?thesis
    proof (cases "d_op d = Assert_op \<and> a_unique attr \<noteq> None")
      case False
      then have step: "unique_assert_step s (m, tc) d = Ok (m, tc)"
        using g by (auto simp: unique_assert_step_def ok_or_def)
      have same: "unique_attr s a \<Longrightarrow> asserted s (ds @ [d]) e a v \<longleftrightarrow> asserted s ds e a v" for e a v
        using False g unique_attr_get [OF g] by (auto simp: asserted_snoc)
      have "to_check_of s (ds @ [d]) = to_check_of s ds"
        using False g unique_attr_get [OF g] by (auto simp: to_check_of_def)
      moreover have "owners_agree s (ds @ [d])" using IH(1) same unfolding owners_agree_def by blast
      ultimately show ?thesis using step IH same Inr p by (auto simp: rfold_append)
    next
      case True
      then have u: "unique_attr s b" using unique_attr_get [OF g] by simp
      have look: "lookup_get m (b, d_value d) = m (b, d_value d)" using refl by (simp add: lookup_get_def)
      have new: "asserted s (ds @ [d]) e a v \<longleftrightarrow> asserted s ds e a v \<or> e = d_entity d \<and> a = b \<and> v = d_value d" for e a v
        using True g by (auto simp: asserted_snoc)
      show ?thesis
      proof (cases "\<exists>f. asserted s ds f b (d_value d) \<and> f \<noteq> d_entity d")
        case bad: True
        then obtain f where f: "m (b, d_value d) = Some f" "f \<noteq> d_entity d" using IH(3) u by blast
        then have "unique_assert_step s (m, tc) d = Error (Err ''Unique constraint violation for attribute'')"
          using True g look by (auto simp: unique_assert_step_def ok_or_def)
        moreover have "\<not> owners_agree s (ds @ [d])" using bad u unfolding owners_agree_def new by blast
        ultimately show ?thesis using Inr p by (simp add: rfold_append)
      next
        case good: False
        have step: "unique_assert_step s (m, tc) d = Ok (m((b, d_value d) \<mapsto> d_entity d), tc @ [(d, b)])"
          using True g look good IH(3) u by (auto simp: unique_assert_step_def ok_or_def split: option.splits)
        have "owners_agree s (ds @ [d])" using IH(1) good unfolding owners_agree_def new by blast
        moreover have "set (tc @ [(d, b)]) = to_check_of s (ds @ [d])" using IH(2) True g u by (auto simp: to_check_of_def)
        moreover have "(m((b, d_value d) \<mapsto> d_entity d)) (a, v) = Some e \<longleftrightarrow> unique_attr s a \<and> asserted s (ds @ [d]) e a v" for a v e
          using IH(3) u good unfolding new by auto
        ultimately show ?thesis using step Inr p by (simp add: rfold_append)
      qed
    qed
  qed
qed

lemma live_indexed: "unique_attr s a \<Longrightarrow> live (indexed s VAE_index R) e a v \<longleftrightarrow> live R e a v"
  using fact_holds_filter [of "\<lambda>(e, a, v). unique_attr s a" e a v i64_MAX R] by (simp add: live_def indexed_def)

lemma retractions_mem:
  "(f, a, v) \<in> set (concat (map (unique_retraction s) ds)) \<longleftrightarrow> unique_attr s a \<and> retracted s ds f a v"
proof -
  have "(f, a, v) \<in> set (unique_retraction s d) \<longleftrightarrow> unique_attr s a \<and>
      (\<exists>attr. get_attribute s (d_attribute d) = Some (a, attr) \<and> d_entity d = f \<and> d_value d = v \<and> d_op d = Retract_op)" for d
    by (cases "get_attribute s (d_attribute d)") (auto simp: unique_retraction_def unique_attr_get)
  then show ?thesis by (auto simp: retracted_def)
qed

lemma validate_unique_ok:
  assumes law: "slate_law ops keys rest lk" and ts: "timestamp_law ts okt"
    and R: "\<forall>(e, a, v, tx, op) \<in> R. dt_wf okt v"
    and db: "{k \<in> keys db. prefix [VAE] k} = version_key VAE_index ` indexed s VAE_index R"
    and n: "card (version_key VAE_index ` indexed s VAE_index R) < n"
    and one: "one_owner s R"
    and ds: "\<forall>d \<in> set ds. get_attribute s (d_attribute d) \<noteq> None \<and> dt_refl (d_value d) \<and> storable (d_value d)"
  shows "if owners_agree s ds \<and> owners_give_up s R ds then validate_unique_constraints ops n ts db s ds = Ok ()
    else \<exists>msg. validate_unique_constraints ops n ts db s ds = Error (Err msg)"
proof -
  have ds': "\<forall>d \<in> set ds. get_attribute s (d_attribute d) \<noteq> None \<and> dt_refl (d_value d)" using ds by blast
  note fold = unique_assert_fold [OF ds']
  show ?thesis
  proof (cases "rfold (unique_assert_step s) (Map.empty, []) ds")
    case (Inl e)
    then show ?thesis using fold by (simp add: validate_unique_constraints_def)
  next
    case (Inr p)
    obtain m tc where p: "p = (m, tc)" by (cases p)
    have ag: "owners_agree s ds" and tc: "set tc = to_check_of s ds" using fold Inr p by simp_all
    let ?ls = "map (\<lambda>(d, a). (a, d_value d)) tc"
    have st: "\<forall>(a, v) \<in> set ?ls. storable v" using ds tc by (auto simp: to_check_of_def)
    have R': "\<forall>(e, a, v, tx, op) \<in> indexed s VAE_index R. dt_wf okt v" using R by (auto simp: indexed_def)
    obtain res where res: "batch_lookup_unique_eids ops n ts db ?ls = Ok res"
      "\<And>a v. (a, v) \<in> set ?ls \<Longrightarrow> (res (a, v) = None \<longleftrightarrow> \<not> (\<exists>e. live (indexed s VAE_index R) e a v)) \<and>
         (\<forall>e. res (a, v) = Some e \<longrightarrow> live (indexed s VAE_index R) e a v)"
      using batch_lookup_ok [OF law ts R' st db n] unfolding live_def by fast
    have owner: "lookup_get res (a, d_value d) = Some f \<longleftrightarrow> live R f a (d_value d)" if da: "(d, a) \<in> to_check_of s ds" for d a f
    proof -
      have u: "unique_attr s a" and refl: "dt_refl (d_value d)" using da ds by (auto simp: to_check_of_def)
      have "(a, d_value d) \<in> set ?ls" using da tc by force
      then have "(res (a, d_value d) = None \<longleftrightarrow> \<not> (\<exists>e. live R e a (d_value d))) \<and>
         (\<forall>e. res (a, d_value d) = Some e \<longrightarrow> live R e a (d_value d))" using res(2) live_indexed [OF u] by blast
      then show ?thesis using one u refl unfolding one_owner_def by (cases "res (a, d_value d)") (auto simp: lookup_get_def)
    qed
    let ?rs = "concat (map (unique_retraction s) ds)"
    have chk: "check_owner res ?rs (d, a) = Ok () \<longleftrightarrow>
        (\<forall>f. live R f a (d_value d) \<and> f \<noteq> d_entity d \<longrightarrow> retracted s ds f a (d_value d))" if da: "(d, a) \<in> to_check_of s ds" for d a
    proof -
      have u: "unique_attr s a" and refl: "dt_refl (d_value d)" using da ds by (auto simp: to_check_of_def)
      show ?thesis
      proof (cases "lookup_get res (a, d_value d)")
        case None
        then show ?thesis using owner [OF da] by (simp add: check_owner_def)
      next
        case (Some f)
        then have "live R f' a (d_value d) \<longleftrightarrow> f' = f" for f' using owner [OF da, of f'] by auto
        then show ?thesis using Some refl u retractions_mem [of f a "d_value d" s ds] by (simp add: check_owner_def)
      qed
    qed
    have give: "owners_give_up s R ds \<longleftrightarrow> (\<forall>x \<in> set tc. check_owner res ?rs x = Ok ())"
      unfolding tc owners_give_up_def using chk by (fastforce simp: to_check_of_def asserted_def)
    have err: "\<exists>msg. check_owner res ?rs x = Error (Err msg)" if "check_owner res ?rs x \<noteq> Ok ()" for x
      using that by (auto simp: check_owner_def split: prod.splits option.splits if_splits)
    show ?thesis
    proof (cases "owners_give_up s R ds")
      case True
      then have "\<exists>us. rmapM (check_owner res ?rs) tc = Ok us" unfolding rmapM_unit_ok using give by blast
      then show ?thesis using True ag Inr p res(1) by (auto simp: validate_unique_constraints_def Let_def)
    next
      case False
      then have "\<not> (\<exists>us. rmapM (check_owner res ?rs) tc = Ok us)" unfolding rmapM_unit_ok using give by simp
      then obtain e where e: "rmapM (check_owner res ?rs) tc = Error e" by (cases "rmapM (check_owner res ?rs) tc") auto
      then obtain x where "check_owner res ?rs x = Error e" by (rule rmapM_Error) (rule that)
      then have "\<exists>msg. e = Err msg" using err [of x] by auto
      then show ?thesis using False e ag Inr p res(1) by (auto simp: validate_unique_constraints_def Let_def)
    qed
  qed
qed


abbreviation email_schema :: schema where
  "email_schema \<equiv> \<lparr>entid_map = [1 \<mapsto> kw ''u'' ''mail''], ident_map = [kw ''u'' ''mail'' \<mapsto> 1],
     attribute_map = [1 \<mapsto> card_one_attr VT_Long (Some U_Value)]\<rparr>"

abbreviation mail_datom :: "entid \<Rightarrow> datom" where
  "mail_datom e \<equiv> \<lparr>d_entity = e, d_attribute = kw ''u'' ''mail'', d_value = DLong 9, d_op = Assert_op\<rparr>"


end
