(* ===== verification/Commit.thy ===== *)
theory Commit
  imports Indexer_Inv
begin

text \<open>
  The invariant of the database under transactions: what the datoms of a transaction look like
  when they reach the commit, and that committing or aborting keeps the invariant.
\<close>

section \<open>Values on their way through the pipeline\<close>

text \<open>Values that a key can hold and that equal themselves.\<close>

definition good :: "(int \<Rightarrow> bool) \<Rightarrow> data_type \<Rightarrow> bool" where
  "good okt v \<longleftrightarrow> dt_wf okt v \<and> dt_refl v"

lemma good_long [simp]: "good okt (DLong x)"
  by (simp add: good_def dt_refl_def)

lemma good_storable: "good okt v \<Longrightarrow> storable v"
  unfolding good_def using dt_wf_storable(1) by blast

lemma rmapM_mem: "rmapM f xs = Ok ys \<Longrightarrow> y \<in> set ys \<Longrightarrow> \<exists>x \<in> set xs. f x = Ok y"
  by (induction xs arbitrary: ys) auto

primrec op_values :: "tx_op \<Rightarrow> data_type set" where
  "op_values (Put m) = snd ` set m"
| "op_values (Add e a v) = {v}"
| "op_values (Retract e a v) = {v}"
| "op_values (RetractEntity e) = {}"
| "op_values (Erase e) = {}"

lemma resolve_value_good:
  "resolve_value s val attr = Ok (VEData v) \<Longrightarrow> good okt val \<Longrightarrow> good okt v"
  by (auto simp: resolve_value_def Let_def split: if_splits data_type.splits)

definition expanded_good :: "(int \<Rightarrow> bool) \<Rightarrow> datom_expanded list \<Rightarrow> bool" where
  "expanded_good okt ds \<longleftrightarrow> (\<forall>d \<in> set ds. \<forall>v. x_value d = VEData v \<longrightarrow> good okt v)"

lemma expand_op_good:
  assumes "expand_op s st op = Ok st'" and "\<forall>v \<in> op_values op. good okt v" and "expanded_good okt (fst st)"
  shows "expanded_good okt (fst st')"
proof -
  obtain ds res c where st: "st = (ds, res, c)" by (cases st)
  show ?thesis
  proof (cases op)
    case (Put m)
    obtain entity c' xs where "rmapM (\<lambda>(attr, value). rbind (resolve_value s value attr) (\<lambda>v.
          Ok \<lparr>x_entity = entity, x_attribute = attr, x_value = v, x_op = Assert_op\<rparr>))
        (filter (\<lambda>(k, _). k \<noteq> kw ''db'' ''id'') m) = Ok xs" and st': "st' = (ds @ xs, res, c')"
      using assms(1) by (auto simp: expand_op_def st Put)
    note xs = this
    have "good okt v" if d: "d \<in> set xs" and v: "x_value d = VEData v" for d v
    proof -
      obtain attr val where "(attr, val) \<in> set m" "resolve_value s val attr = Ok (VEData v)"
        using rmapM_mem [OF xs(1) d] v by auto
      then show ?thesis using resolve_value_good assms(2) Put by force
    qed
    then have "expanded_good okt xs" by (simp add: expanded_good_def)
    then show ?thesis using assms(3) st st' by (auto simp: expanded_good_def)
  qed (use assms resolve_value_good in \<open>auto simp: expand_op_def st expanded_good_def\<close>)
qed

lemma resolve_datom_refs_good:
  "resolve_datom_refs m d = Ok d' \<Longrightarrow> w_value d' = VTData v \<Longrightarrow> x_value d = VEData v \<or> (\<exists>e. v = DLong e)"
  by (auto simp: resolve_datom_refs_def split: value_expanded.splits)


text \<open>The store as the transaction reads it.\<close>

definition fact_store ::
  "('db, 'it) slate_ops \<Rightarrow> ('db \<Rightarrow> bytes set) \<Rightarrow> ('it \<Rightarrow> bytes list) \<Rightarrow> ('it \<Rightarrow> bytes option) \<Rightarrow>
     timestamp_opt \<Rightarrow> (int \<Rightarrow> bool) \<Rightarrow> nat \<Rightarrow> version set \<Rightarrow> bool" where
  "fact_store ops keys rest lk ts okt n R \<longleftrightarrow>
     slate_law ops keys rest lk \<and> timestamp_law ts okt \<and> finite R \<and> card R < n"

lemma expand_values:
  assumes st: "fact_store ops keys rest lk ts okt n R" and R: "eav_keys_ok okt s R" "\<forall>(e, a, v, tx, op) \<in> R. dt_refl v"
    and db: "{k \<in> keys db. prefix [EAV] k} = version_key EAV_index ` R"
    and vals: "\<forall>op \<in> set tx_ops. \<forall>v \<in> op_values op. good okt v"
    and ex: "expand_tx_ops ops n ts db s tx_ops = Ok wt" and d: "d \<in> set wt" and v: "w_value d = VTData v"
  shows "good okt v"
proof -
  have law: "slate_law ops keys rest lk" "timestamp_law ts okt" and n: "card (version_key EAV_index ` R) < n"
    using st card_image_le [of R "version_key EAV_index"] by (auto simp: fact_store_def)
  obtain xs res c m ds es rs where 1: "rfold (expand_op s) ([], [], 0) tx_ops = Ok (xs, res, c)"
    and 2: "rmapM (resolve_datom_refs m) xs = Ok ds"
    and 3: "batch_lookup_active_entity_datoms ops n ts db s es = Ok rs" and wt: "wt = ds @ rs"
    using ex by (auto simp: expand_tx_ops_def expand_tx_ops_unresolved_def resolve_lookup_refs_def Let_def)
  have "expanded_good okt (fst (xs, res, c))"
    by (rule rfold_keeps [OF 1]) (use vals expand_op_good in \<open>auto simp: expanded_good_def\<close>)
  then have xs: "expanded_good okt xs" by simp
  show ?thesis
  proof (cases "d \<in> set ds")
    case True
    then obtain x where "x \<in> set xs" "resolve_datom_refs m x = Ok d" using rmapM_mem [OF 2] by blast
    then show ?thesis using resolve_datom_refs_good [of m x d v] v xs by (auto simp: expanded_good_def)
  next
    case False
    then have "d \<in> set rs" using d wt by simp
    then obtain e a w where "d = retraction_of s e a w" "live R e a w"
      using active_entity_datoms_ok [OF law R(1) db n, of es] 3 by auto
    then have "v = w" "\<exists>tx op. (e, a, w, tx, op) \<in> R" using v live_mem by (auto simp: retraction_of_def)
    then show ?thesis using R by (auto simp: good_def eav_keys_ok_def)
  qed
qed

section \<open>The invariant\<close>

definition named_attr :: "schema \<Rightarrow> entid \<Rightarrow> bool" where
  "named_attr s a \<longleftrightarrow> (\<exists>k attr. get_attribute s k = Some (a, attr))"

text \<open>Everything stored has been allocated, by a transaction that has been counted.\<close>

definition versions_ok :: "(int \<Rightarrow> bool) \<Rightarrow> schema \<Rightarrow> partition_map \<Rightarrow> version set \<Rightarrow> bool" where
  "versions_ok okt s pm R \<longleftrightarrow>
     (\<forall>(e, a, v, tx, op) \<in> R. good okt v \<and> named_attr s a \<and> contains_entid pm e \<and> (op = ADD \<or> op = RETRACT) \<and>
        (\<exists>c. make_entity_id TX_PARTITION c = Ok tx \<and> contains_entid pm tx))"

text \<open>The names of the schema are the facts of \<^verbatim>\<open>:db/ident\<close>.\<close>

definition names_mirror :: "schema \<Rightarrow> version set \<Rightarrow> bool" where
  "names_mirror s R \<longleftrightarrow>
     (\<forall>k e. (ident_map s k = Some e) = live R e DB_IDENT (DKeyword k) \<and>
            (entid_map s e = Some k) = live R e DB_IDENT (DKeyword k))"

definition core_attributes :: "(keyword \<times> entid \<times> attribute) list" where
  "core_attributes =
     [(kw ''db'' ''ident'', DB_IDENT, card_one_attr VT_Keyword (Some U_Identity)),
      (kw ''db'' ''txInstant'', DB_TX_INSTANT, card_one_attr VT_Instant None),
      (kw ''db'' ''txId'', DB_TX_ID, card_one_attr VT_Long None),
      (kw ''db'' ''txResult'', DB_TX_RESULT, card_one_attr VT_Ref None),
      (kw ''db'' ''txError'', DB_TX_ERROR, card_one_attr VT_String None)]"

definition schema_core :: "schema \<Rightarrow> bool" where
  "schema_core s \<longleftrightarrow> (\<forall>(k, a, attr) \<in> set core_attributes. get_attribute s k = Some (a, attr))"

definition facts_inv :: "(int \<Rightarrow> bool) \<Rightarrow> schema \<Rightarrow> partition_map \<Rightarrow> version set \<Rightarrow> bool" where
  "facts_inv okt s pm R \<longleftrightarrow> finite R \<and> versions_ok okt s pm R \<and> one_value s R \<and> one_owner s R \<and>
     names_mirror s R \<and> schema_core s \<and> pm_wf pm"

definition db_inv :: "('db \<Rightarrow> bytes set) \<Rightarrow> (int \<Rightarrow> bool) \<Rightarrow> version set \<Rightarrow> 'db indexer \<Rightarrow> bool" where
  "db_inv keys okt R ix \<longleftrightarrow>
     index_state keys (ix_db ix) (ix_schema ix) R \<and> facts_inv okt (ix_schema ix) (ix_pm ix) R"

lemma versions_okD:
  assumes "versions_ok okt s pm R" and "(e, a, v, tx, op) \<in> R"
  shows "good okt v" and "named_attr s a" and "contains_entid pm e" and "op = ADD \<or> op = RETRACT"
    and "\<exists>c. make_entity_id TX_PARTITION c = Ok tx \<and> contains_entid pm tx"
  using assms by (auto simp: versions_ok_def)

lemma versions_ok_ops: "versions_ok okt s pm R \<Longrightarrow> ops_wf R"
  by (auto simp: versions_ok_def ops_wf_def)

lemma schema_core_ident:
  assumes "schema_core s"
  shows "ident_map s (kw ''db'' ''ident'') = Some DB_IDENT"
    and "attribute_map s DB_IDENT = Some (card_one_attr VT_Keyword (Some U_Identity))"
    and "single_attr s DB_IDENT" and "unique_attr s DB_IDENT"
  using assms by (auto simp: schema_core_def core_attributes_def get_attribute_Some single_attr_def unique_attr_def card_one_attr_def)

lemma names_mirror_wf:
  assumes "names_mirror s R"
  shows "names_wf s"
  using assms by (auto simp: names_wf_def names_mirror_def)

lemma facts_inv_keys:
  assumes "facts_inv okt s pm R"
  shows "eav_keys_ok okt s R"
proof -
  have "get_ident s a \<noteq> None" if "named_attr s a" for a
    using that assms names_mirror_wf by (auto simp: named_attr_def facts_inv_def names_wf_def get_ident_def get_attribute_Some)
  then show ?thesis using assms by (auto simp: facts_inv_def versions_ok_def eav_keys_ok_def good_def)
qed

text \<open>A name in use is well formed, so its components determine it.\<close>

lemma kw_components_kw: "kw_wf k \<Longrightarrow> kw_components k = (ns, n) \<Longrightarrow> ns \<noteq> [] \<Longrightarrow> k = kw ns n"
  using kw_rebuild [of k]
  by (auto simp: kw_components_def kw_namespace_def kw_name_def kw_namespaced_def kw_def split: if_splits)

lemma ident_attribute_iff:
  assumes inv: "facts_inv okt s pm R" and g: "get_attribute s k = Some (a, attr)"
  shows "a = DB_IDENT \<longleftrightarrow> k = kw ''db'' ''ident''"
    and "kw_components k = (''db'', ''ident'') \<longleftrightarrow> k = kw ''db'' ''ident''"
proof -
  have c: "schema_core s" and m: "names_mirror s R" and o: "one_value s R" and v: "versions_ok okt s pm R"
    using inv by (simp_all add: facts_inv_def)
  have k: "live R a DB_IDENT (DKeyword k)" using m g by (simp add: names_mirror_def get_attribute_Some)
  have "live R DB_IDENT DB_IDENT (DKeyword (kw ''db'' ''ident''))"
    using m schema_core_ident(1) [OF c] by (simp add: names_mirror_def)
  then have "a = DB_IDENT \<Longrightarrow> k = kw ''db'' ''ident''"
    using k o schema_core_ident(3) [OF c] unfolding one_value_def by blast
  then show "a = DB_IDENT \<longleftrightarrow> k = kw ''db'' ''ident''" using g schema_core_ident(1) [OF c] by (auto simp: get_attribute_Some)
  obtain tx op where "(a, DB_IDENT, DKeyword k, tx, op) \<in> R" using live_mem [OF k] by blast
  from versions_okD(1) [OF v this] have "kw_wf k" by (simp add: good_def kw_str_wf_def)
  then show "kw_components k = (''db'', ''ident'') \<longleftrightarrow> k = kw ''db'' ''ident''"
    using kw_components_kw [of k "''db''" "''ident''"] by (auto simp: kw_components_def kw_def)
qed

lemma is_schema_attribute_ident: "is_schema_attribute (kw ''db'' ''ident'')"
  by (simp add: is_schema_attribute_def kw_components_def kw_def)

section \<open>Committing datoms\<close>

lemma replaced_mem:
  assumes "x \<in> replaced s R d"
  shows "d_entity x = d_entity d" and "d_attribute x = d_attribute d"
    and "x = d \<or> d_op x = Retract_op \<and> d_op d = Assert_op \<and>
      (\<exists>a attr. get_attribute s (d_attribute d) = Some (a, attr) \<and> live R (d_entity d) a (d_value x))"
  using assms by (cases "d_op d"; auto simp: replaced_def split: option.splits if_splits)+

text \<open>The datoms of a commit: those of the transaction after the replacement of values.\<close>

definition commits :: "(int \<Rightarrow> bool) \<Rightarrow> schema \<Rightarrow> partition_map \<Rightarrow> version set \<Rightarrow> datom list \<Rightarrow> datom list \<Rightarrow> bool" where
  "commits okt s pm R ds final \<longleftrightarrow> set final = (\<Union>d \<in> set ds. replaced s R d) \<and> valid_datoms s ds \<and>
     (\<forall>d \<in> set ds. good okt (d_value d) \<and> contains_entid pm (d_entity d))"

lemma commits_mem:
  assumes "commits okt s pm R ds final" and "versions_ok okt s pm0 R" and "x \<in> set final"
  shows "get_attribute s (d_attribute x) \<noteq> None" and "good okt (d_value x)" and "contains_entid pm (d_entity x)"
    and "d_op x = Assert_op \<Longrightarrow> x \<in> set ds" and "\<exists>d \<in> set ds. d_attribute d = d_attribute x"
proof -
  obtain d where d: "d \<in> set ds" "x \<in> replaced s R d" using assms(1,3) by (auto simp: commits_def)
  note r = replaced_mem [OF d(2)]
  have c: "valid_datoms s ds" "good okt (d_value d)" "contains_entid pm (d_entity d)"
    using assms(1) d(1) by (auto simp: commits_def)
  show "get_attribute s (d_attribute x) \<noteq> None"
    using c(1) d(1) r(2) by (auto simp: valid_datoms_def split: option.splits)
  show "good okt (d_value x)" using r(3)
  proof
    assume "d_op x = Retract_op \<and> d_op d = Assert_op \<and>
      (\<exists>a attr. get_attribute s (d_attribute d) = Some (a, attr) \<and> live R (d_entity d) a (d_value x))"
    then show ?thesis using live_mem versions_okD(1) [OF assms(2)] by blast
  qed (use c(2) in simp)
  show "contains_entid pm (d_entity x)" using r(1) c(3) by simp
  show "d_op x = Assert_op \<Longrightarrow> x \<in> set ds" using r(3) d(1) by auto
  show "\<exists>d \<in> set ds. d_attribute d = d_attribute x" using d(1) r(2) by auto
qed

lemma commits_one_value:
  assumes c: "commits okt s pm R ds final" and v: "versions_ok okt s pm0 R" and one: "one_value s R"
    and old: "\<forall>(e, a, v, tx', op) \<in> R. sint tx' < sint tx"
  shows "one_value s (R \<union> datom_version s tx ` set final)"
proof -
  have known: "\<forall>d \<in> set final. get_attribute s (d_attribute d) \<noteq> None" using commits_mem(1) [OF c v] by blast
  note live = live_commit(2) [OF versions_ok_ops [OF v] old known]
  have gone: "retracted s final e a w" if as: "asserted s final e a v" and w: "live R e a w" "w \<noteq> v" and si: "single_attr s a" for e a v w
  proof -
    obtain d attr where d: "d \<in> set final" "get_attribute s (d_attribute d) = Some (a, attr)" "d_entity d = e" "d_value d = v" "d_op d = Assert_op"
      using as by (auto simp: asserted_def)
    then have ds: "d \<in> set ds" using commits_mem(4) [OF c v] by blast
    have mv: "\<not> a_multival attr" using si d(2) by (auto simp: single_attr_def get_attribute_Some)
    obtain d0 where d0: "d0 \<in> set ds" "d \<in> replaced s R d0" using c d(1) by (auto simp: commits_def)
    then have "d \<in> replaced s R d" using replaced_mem(3) [OF d0(2)] d(5) by auto
    then have "\<not> dt_eq w v" using d mv w(1) by (auto simp: replaced_def split: if_splits)
    then have "d\<lparr>d_value := w, d_op := Retract_op\<rparr> \<in> replaced s R d"
      using \<open>d \<in> replaced s R d\<close> d mv w(1) by (auto simp: replaced_def split: if_splits)
    then have "d\<lparr>d_value := w, d_op := Retract_op\<rparr> \<in> set final" using c ds by (auto simp: commits_def)
    then show ?thesis unfolding retracted_def using d by (intro bexI [of _ "d\<lparr>d_value := w, d_op := Retract_op\<rparr>"]) auto
  qed
  have both: "v = w" if as: "asserted s final e a v" "asserted s final e a w" and si: "single_attr s a" for e a v w
  proof -
    obtain d attr d' attr' where d: "d \<in> set final" "get_attribute s (d_attribute d) = Some (a, attr)" "d_entity d = e" "d_value d = v" "d_op d = Assert_op"
      and d': "d' \<in> set final" "get_attribute s (d_attribute d') = Some (a, attr')" "d_entity d' = e" "d_value d' = w" "d_op d' = Assert_op"
      using as by (auto simp: asserted_def)
    have mv: "attr' = attr" "\<not> a_multival attr" using d(2) d'(2) si by (auto simp: get_attribute_Some single_attr_def)
    have in_ds: "d \<in> set ds" "d' \<in> set ds" using commits_mem(4) [OF c v] d d' by blast+
    have "valid_datoms s ds" using c by (simp add: commits_def)
    from bspec [OF this [unfolded valid_datoms_def] in_ds(1)]
    have "\<forall>d' \<in> set ds. get_attribute s (d_attribute d') = Some (a, attr) \<and> d_entity d' = e \<and> d_op d' = Assert_op \<longrightarrow> d_value d' = v"
      using d mv by auto
    then show ?thesis using d' in_ds(2) mv(1) by blast
  qed
  show ?thesis unfolding one_value_def live using gone both one unfolding one_value_def by metis
qed

lemma commits_one_owner:
  assumes c: "commits okt s pm R ds final" and v: "versions_ok okt s pm0 R" and one: "one_owner s R"
    and old: "\<forall>(e, a, v, tx', op) \<in> R. sint tx' < sint tx"
    and u: "owners_agree s final" "owners_give_up s R final"
  shows "one_owner s (R \<union> datom_version s tx ` set final)"
proof -
  have known: "\<forall>d \<in> set final. get_attribute s (d_attribute d) \<noteq> None" using commits_mem(1) [OF c v] by blast
  note live = live_commit(2) [OF versions_ok_ops [OF v] old known]
  show ?thesis
    unfolding one_owner_def live using u one unfolding one_owner_def owners_agree_def owners_give_up_def by metis
qed

section \<open>The names of the schema\<close>

definition ident_of :: "datom \<Rightarrow> (entid \<times> keyword) set" where
  "ident_of d = {(d_entity d, k) | k. kw_components (d_attribute d) = (''db'', ''ident'') \<and> d_value d = DKeyword k}"

lemma schema_datom_step_ident:
  assumes "schema_datom_step s st d = Ok st'"
  shows "set (fst st') = ident_of d \<union> set (fst st)"
    and "is_schema_attribute (d_attribute d) \<Longrightarrow> d_op d = Assert_op \<and> \<not> is_schema_entity s (d_entity d)"
    and "kw_components (d_attribute d) = (''db'', ''ident'') \<Longrightarrow> \<exists>k. d_value d = DKeyword k"
  using assms
  by (auto simp: schema_datom_step_def ident_of_def is_schema_attribute_def Let_def
      split: prod.splits if_splits data_type.splits)

lemma rfold_all:
  assumes "rfold f s xs = Ok s'" and "\<And>s x s'. f s x = Ok s' \<Longrightarrow> P x"
  shows "\<forall>x \<in> set xs. P x"
  using assms(1) by (induction xs arbitrary: s) (auto dest: assms(2))

lemma prepare_schema_idents:
  assumes "prepare_schema_update s ds = Ok u"
  shows "set (u_idents u) = (\<Union>d \<in> set ds. ident_of d)"
    and "\<forall>d \<in> set ds. is_schema_attribute (d_attribute d) \<longrightarrow> d_op d = Assert_op"
    and "\<forall>d \<in> set ds. kw_components (d_attribute d) = (''db'', ''ident'') \<longrightarrow> (\<exists>k. d_value d = DKeyword k)"
proof -
  obtain idents bs where r: "rfold (schema_datom_step s) ([], []) ds = Ok (idents, bs)" and u: "u_idents u = idents"
    by (rule prepare_schema_update_Ok [OF assms]) (rule that)
  show "set (u_idents u) = (\<Union>d \<in> set ds. ident_of d)"
    using rfold_union [OF r, of "set \<circ> fst" ident_of] schema_datom_step_ident(1) by (auto simp: u)
  show "\<forall>d \<in> set ds. is_schema_attribute (d_attribute d) \<longrightarrow> d_op d = Assert_op"
    by (rule rfold_all [OF r]) (use schema_datom_step_ident(2) in blast)
  show "\<forall>d \<in> set ds. kw_components (d_attribute d) = (''db'', ''ident'') \<longrightarrow> (\<exists>k. d_value d = DKeyword k)"
    by (rule rfold_all [OF r]) (use schema_datom_step_ident(3) in blast)
qed

lemma apply_empty_update: "schema_update_is_empty u \<Longrightarrow> apply_schema_update s u = s"
  by (simp add: schema_update_is_empty_def apply_schema_update_def)

text \<open>The update that goes with a commit: none unless schema attributes occur.\<close>

definition updates :: "schema \<Rightarrow> datom list \<Rightarrow> schema \<Rightarrow> bool" where
  "updates s final s' \<longleftrightarrow>
     s' = s \<and> (\<forall>d \<in> set final. \<not> is_schema_attribute (d_attribute d)) \<or>
     (\<exists>u. prepare_schema_update s final = Ok u \<and> s' = apply_schema_update s u)"

lemma map_add_Some_iff_owner:
  assumes "\<And>y. (x, y) \<in> set xs \<Longrightarrow> new y" and "\<And>y. new y \<Longrightarrow> m x = Some y \<or> (x, y) \<in> set xs"
    and "\<And>y. m x = Some y \<Longrightarrow> new y" and "\<And>y z. new y \<Longrightarrow> new z \<Longrightarrow> y = z"
  shows "(m ++ map_of (rev xs)) x = Some y \<longleftrightarrow> new y"
proof
  assume "(m ++ map_of (rev xs)) x = Some y"
  then show "new y" using assms(1,3) by (auto dest!: map_of_SomeD)
next
  assume y: "new y"
  show "(m ++ map_of (rev xs)) x = Some y"
  proof (cases "map_of (rev xs) x")
    case None
    then have "(x, y) \<notin> set xs" by (force simp: map_of_eq_None_iff)
    then show ?thesis using None assms(2) [OF y] by (simp add: map_add_def)
  next
    case (Some z)
    then have "new z" using assms(1) by (auto dest!: map_of_SomeD)
    then show ?thesis using Some assms(4) [OF y] by (simp add: map_add_def)
  qed
qed

lemma commits_names:
  assumes inv: "facts_inv okt s pm0 R" and c: "commits okt s pm R ds final"
    and old: "\<forall>(e, a, v, tx', op) \<in> R. sint tx' < sint tx"
    and u: "owners_agree s final" "owners_give_up s R final" and up: "updates s final s'"
  shows "names_mirror s' (R \<union> datom_version s tx ` set final)"
    and "get_attribute s k = Some (a, attr) \<Longrightarrow> get_attribute s' k = Some (a, attr)"
    and "attribute_map s b = Some attr' \<Longrightarrow> attribute_map s' b = Some attr'"
proof -
  let ?R = "R \<union> datom_version s tx ` set final"
  have v: "versions_ok okt s pm0 R" and m: "names_mirror s R" and core: "schema_core s" and ov: "one_value s R" and oo: "one_owner s R"
    using inv by (simp_all add: facts_inv_def)
  have known: "\<forall>d \<in> set final. get_attribute s (d_attribute d) \<noteq> None" using commits_mem(1) [OF c v] by blast
  note live = live_commit(2) [OF versions_ok_ops [OF v] old known]
  note ident = schema_core_ident [OF core]
  have oneR: "one_value s ?R" "one_owner s ?R"
    by (rule commits_one_value [OF c v ov old], rule commits_one_owner [OF c v oo old u])
  have attr_ident: "kw_components (d_attribute d) = (''db'', ''ident'') \<and> is_schema_attribute (d_attribute d)"
    if "get_attribute s (d_attribute d) = Some (DB_IDENT, attr)" for d attr
    using ident_attribute_iff [OF inv that] is_schema_attribute_ident by metis
  show keep: "attribute_map s b = Some attr' \<Longrightarrow> attribute_map s' b = Some attr'" for b attr'
    using up apply_keeps(1) by (auto simp: updates_def)
  show mirror: "names_mirror s' ?R"
    using up unfolding updates_def
  proof (elim disjE exE conjE)
    assume s': "s' = s" and none: "\<forall>d \<in> set final. \<not> is_schema_attribute (d_attribute d)"
    have "\<not> asserted s final e DB_IDENT x" "\<not> retracted s final e DB_IDENT x" for e x
      using none attr_ident unfolding asserted_def retracted_def by blast+
    then show "names_mirror s' ?R" using m unfolding s' names_mirror_def live by simp
  next
    fix upd assume p: "prepare_schema_update s final = Ok upd" and s': "s' = apply_schema_update s upd"
    note pi = prepare_schema_idents [OF p]
    have no_ret: "\<not> retracted s final e DB_IDENT x" for e x
      using pi(2) attr_ident unfolding retracted_def by fastforce
    have as: "asserted s final e DB_IDENT (DKeyword k) \<longleftrightarrow> (e, k) \<in> set (u_idents upd)" for e k
    proof
      assume "asserted s final e DB_IDENT (DKeyword k)"
      then obtain d attr where d: "d \<in> set final" "get_attribute s (d_attribute d) = Some (DB_IDENT, attr)" "d_entity d = e" "d_value d = DKeyword k"
        by (auto simp: asserted_def)
      then have "(e, k) \<in> ident_of d" using attr_ident [OF d(2)] by (simp add: ident_of_def)
      then show "(e, k) \<in> set (u_idents upd)" using d(1) pi(1) by blast
    next
      assume "(e, k) \<in> set (u_idents upd)"
      then obtain d where d: "d \<in> set final" "kw_components (d_attribute d) = (''db'', ''ident'')" "d_value d = DKeyword k" "d_entity d = e"
        using pi(1) by (auto simp: ident_of_def)
      obtain a attr where g: "get_attribute s (d_attribute d) = Some (a, attr)" using known d(1) by fastforce
      have "a = DB_IDENT" using ident_attribute_iff [OF inv g] d(2) by blast
      moreover have "d_op d = Assert_op" using pi(2) d(1,2) by (auto simp: is_schema_attribute_def)
      ultimately show "asserted s final e DB_IDENT (DKeyword k)" using d g by (auto simp: asserted_def)
    qed
    have new: "live_ident \<longleftrightarrow> (e, k) \<in> set (u_idents upd) \<or> ident_map s k = Some e"
      "live_ident \<longleftrightarrow> (e, k) \<in> set (u_idents upd) \<or> entid_map s e = Some k"
      if "live_ident = live ?R e DB_IDENT (DKeyword k)" for live_ident e k
      using that m no_ret as unfolding names_mirror_def live by auto
    have "ident_map s' k = Some e \<longleftrightarrow> live ?R e DB_IDENT (DKeyword k)" for k e
      unfolding s' apply_schema_update_maps
    proof (rule map_add_Some_iff_owner)
      show "y = z" if "live ?R y DB_IDENT (DKeyword k)" "live ?R z DB_IDENT (DKeyword k)" for y z
        using oneR(2) ident(4) that unfolding one_owner_def by blast
    qed (use new(1) in \<open>auto\<close>)
    moreover have "entid_map s' e = Some k \<longleftrightarrow> live ?R e DB_IDENT (DKeyword k)" for k e
      unfolding s' apply_schema_update_maps
    proof (rule map_add_Some_iff_owner)
      show "y = z" if "live ?R e DB_IDENT (DKeyword y)" "live ?R e DB_IDENT (DKeyword z)" for y z
        using oneR(1) ident(3) that unfolding one_value_def by blast
    qed (use new(2) in \<open>auto\<close>)
    ultimately show "names_mirror s' ?R" by (simp add: names_mirror_def)
  qed
  have "live ?R e DB_IDENT (DKeyword k)" if i: "ident_map s k = Some e" for k e
  proof -
    have "live R e DB_IDENT (DKeyword k)" using m i by (simp add: names_mirror_def)
    moreover have "\<not> retracted s final e DB_IDENT x" for x
      using up attr_ident prepare_schema_idents(2) [of s final] unfolding updates_def retracted_def by fastforce
    ultimately show ?thesis unfolding live by blast
  qed
  then show "get_attribute s k = Some (a, attr) \<Longrightarrow> get_attribute s' k = Some (a, attr)"
    using mirror keep by (auto simp: get_attribute_Some names_mirror_def)
qed

section \<open>The invariant after a commit\<close>

lemma tx_order:
  assumes pm: "pm_wf pm" and t: "set_tx_counter pm t = Ok pm'" and tx: "make_entity_id TX_PARTITION t = Ok tx"
    and tx': "make_entity_id TX_PARTITION c = Ok tx'" and "contains_entid pm tx'"
  shows "sint tx' < sint tx"
proof -
  obtain next_id where n: "pm TX_PARTITION = Some next_id" "uint c < uint next_id"
    using assms(5) contains_entid_iff [OF pm] extract_make [OF tx'] by auto
  have t': "uint t < 2 ^ 42" using tx by (simp add: make_entity_id_Ok)
  have "sint next_id \<le> sint t" using t n(1) by (auto simp: set_tx_counter_def or_insert_def word_sless_alt Let_def split: if_splits)
  moreover have "uint next_id \<le> 2 ^ 42" using pm n(1) by (auto simp: pm_wf_def)
  ultimately have "uint next_id \<le> uint t" using t' by (simp add: sint_small)
  then have lt: "uint tx' < uint tx" using uint_make_entity_id(1) [OF tx] uint_make_entity_id(1) [OF tx'] n(2) by simp
  show ?thesis using lt uint_make_entity_id(2) [OF tx] uint_make_entity_id(2) [OF tx'] by (simp add: sint_cases)
qed

lemma instance_of_parts:
  assumes "instance_of ids d = Some x"
  shows "d_attribute x = w_attribute d" and "d_op x = w_op d"
    and "w_entity d = ITId (d_entity x) \<or> (\<exists>t. w_entity d = ITTempId t \<and> ids t = Some (d_entity x))"
    and "w_value d = VTData (d_value x) \<or> (\<exists>e. d_value x = DLong e)"
  using assms
  by (auto simp: instance_of_def substitute_datom_def substitute_entity_def substitute_value_def Let_def
      split: either_datom.splits id_or_tempid.splits value_with_tempids.splits option.splits)

lemma indexed_cong:
  "(\<And>e a v tx op. (e, a, v, tx, op) \<in> R \<Longrightarrow> unique_attr s' a = unique_attr s a) \<Longrightarrow> indexed s' it R = indexed s it R"
  by (cases it) (auto simp: indexed_def)

lemma facts_inv_old:
  assumes "facts_inv okt s pm R" and "set_tx_counter pm t = Ok pm'" and "make_entity_id TX_PARTITION t = Ok tx"
  shows "\<forall>(e, a, v, tx', op) \<in> R. sint tx' < sint tx"
proof -
  have "pm_wf pm" "versions_ok okt s pm R" using assms(1) by (simp_all add: facts_inv_def)
  then show ?thesis using tx_order [OF _ assms(2,3)] versions_okD(5) by blast
qed

lemma commits_inv:
  assumes inv: "facts_inv okt s pm R" and t: "set_tx_counter pm t = Ok pm1" and tx: "make_entity_id TX_PARTITION t = Ok tx"
    and pm2: "pm_wf pm2" "\<And>e. contains_entid pm e \<Longrightarrow> contains_entid pm2 e" "contains_entid pm2 tx"
    and c: "commits okt s pm2 R ds final"
    and u: "owners_agree s final" "owners_give_up s R final" and up: "updates s final s'"
  shows "facts_inv okt s' pm2 (R \<union> datom_version s tx ` set final)"
    and "indexed s' it (R \<union> datom_version s tx ` set final) = indexed s it (R \<union> datom_version s tx ` set final)"
proof -
  let ?R = "R \<union> datom_version s tx ` set final"
  have v: "versions_ok okt s pm R" and core: "schema_core s" and fin: "finite R" and ov: "one_value s R" and oo: "one_owner s R"
    using inv by (simp_all add: facts_inv_def)
  note old = facts_inv_old [OF inv t tx]
  note names = commits_names [OF inv c old u up]
  have known: "\<forall>d \<in> set final. get_attribute s (d_attribute d) \<noteq> None" using commits_mem(1) [OF c v] by blast
  have named: "named_attr s a \<and> named_attr s' a" if x: "(e, a, w, tx', op) \<in> ?R" for e a w tx' op
  proof -
    have "named_attr s a"
    proof (cases "(e, a, w, tx', op) \<in> R")
      case False
      then obtain d where d: "d \<in> set final" "(e, a, w, tx', op) = datom_version s tx d" using x by auto
      obtain b attr where "get_attribute s (d_attribute d) = Some (b, attr)" using known d(1) by fastforce
      then show ?thesis using d(2) by (auto simp: datom_version_def named_attr_def)
    qed (rule versions_okD(2) [OF v])
    then show ?thesis using names(2) by (fastforce simp: named_attr_def)
  qed
  have same: "attribute_map s' a = attribute_map s a" if "named_attr s a" for a
    using that names(3) by (auto simp: named_attr_def get_attribute_Some)
  then have attrs: "unique_attr s' a \<longleftrightarrow> unique_attr s a" "single_attr s' a \<longleftrightarrow> single_attr s a" if "named_attr s a" for a
    using that by (simp_all add: unique_attr_def single_attr_def)
  show "indexed s' it ?R = indexed s it ?R"
    by (rule indexed_cong, drule named) (simp add: attrs(1))
  have "one_value s ?R" "one_owner s ?R"
    by (rule commits_one_value [OF c v ov old], rule commits_one_owner [OF c v oo old u])
  then have one: "one_value s' ?R" "one_owner s' ?R"
    using attrs named live_mem unfolding one_value_def one_owner_def by metis+
  have "good okt w \<and> contains_entid pm2 e \<and> (op = ADD \<or> op = RETRACT) \<and> (\<exists>c. make_entity_id TX_PARTITION c = Ok tx' \<and> contains_entid pm2 tx')"
    if x: "(e, a, w, tx', op) \<in> ?R" for e a w tx' op
  proof (cases "(e, a, w, tx', op) \<in> R")
    case True
    then show ?thesis using versions_okD [OF v True] pm2(2) by blast
  next
    case False
    then obtain d where d: "d \<in> set final" "(e, a, w, tx', op) = datom_version s tx d" using x by auto
    then have "e = d_entity d" "w = d_value d" "tx' = tx" "op = op_byte (d_op d)" by (simp_all add: datom_version_def)
    then show ?thesis
      using commits_mem(2,3) [OF c v d(1)] pm2(3) tx by (cases "d_op d") (auto simp: op_byte_def)
  qed
  then have "versions_ok okt s' pm2 ?R" using named unfolding versions_ok_def by blast
  moreover have "schema_core s'" using core names(2) unfolding schema_core_def by blast
  ultimately show "facts_inv okt s' pm2 ?R" using one names(1) fin pm2(1) by (simp add: facts_inv_def)
qed

section \<open>Transactions\<close>

lemma facts_inv_value_store:
  assumes st: "fact_store ops keys rest lk ts okt n R" and inv: "facts_inv okt s pm R" and ix: "index_state keys db s R"
  shows "value_store ops keys rest lk ts okt n db (indexed s VAE_index R)"
    and "{k \<in> keys db. prefix [EAV] k} = version_key EAV_index ` R" and "card (version_key EAV_index ` R) < n"
    and "{k \<in> keys db. prefix [VAE] k} = version_key VAE_index ` indexed s VAE_index R"
    and "card (version_key VAE_index ` indexed s VAE_index R) < n"
proof -
  have ib: "index_byte EAV_index = EAV" "index_byte VAE_index = VAE" by (simp_all add: index_byte_def)
  have fin: "finite R" and n: "card R < n" and law: "slate_law ops keys rest lk" "timestamp_law ts okt"
    using st by (simp_all add: fact_store_def)
  have sub: "indexed s VAE_index R \<subseteq> R" by (auto simp: indexed_def)
  have wf: "\<forall>(e, a, v, tx, op) \<in> R. dt_wf okt v"
    using inv by (auto simp: facts_inv_def versions_ok_def good_def)
  show e: "{k \<in> keys db. prefix [EAV] k} = version_key EAV_index ` R"
    using spec [OF ix [unfolded index_state_def], of EAV_index] by (simp only: ib indexed_single)
  show v: "{k \<in> keys db. prefix [VAE] k} = version_key VAE_index ` indexed s VAE_index R"
    using spec [OF ix [unfolded index_state_def], of VAE_index] by (simp only: ib)
  show "card (version_key EAV_index ` R) < n" using card_image_le [OF fin, of "version_key EAV_index"] n by simp
  show c: "card (version_key VAE_index ` indexed s VAE_index R) < n"
    using card_image_le [OF finite_subset [OF sub fin], of "version_key VAE_index"] card_mono [OF fin sub] n by simp
  show "value_store ops keys rest lk ts okt n db (indexed s VAE_index R)"
    unfolding value_store_def by (intro conjI law v c ballI) (use wf sub in blast)
qed

lemma resolve_tempids_counters:
  assumes "pm_wf pm" and "resolve_tempids ops n ts datoms s db pm = Ok (out, pm')"
  shows "pm_wf pm'" and "contains_entid pm e \<Longrightarrow> contains_entid pm' e"
proof -
  obtain parts eids where "allocate_labels pm parts = Ok (eids, pm')"
    using assms(2) by (auto simp: resolve_tempids_def Let_def)
  from allocate_labels_ok [OF assms(1) this] show "pm_wf pm'" "contains_entid pm e \<Longrightarrow> contains_entid pm' e" by blast+
qed

text \<open>The datoms that leave the resolution of temporary ids.\<close>

lemma resolved_datoms:
  assumes st: "fact_store ops keys rest lk ts okt n R" and inv: "facts_inv okt s pm R" and ix: "index_state keys db s R"
    and wt: "\<forall>d \<in> set wt. \<forall>v. w_value d = VTData v \<longrightarrow> good okt v"
    and alloc: "validate_allocated_entity_ids wt s pm = Ok ()"
    and pm1: "pm_wf pm1"
    and res: "resolve_tempids ops n ts wt s db pm1 = Ok (out, pm2)" and x: "x \<in> set out"
  shows "good okt (d_value x)" and "contains_entid pm (d_entity x) \<or> \<not> contains_entid pm1 (d_entity x) \<and> contains_entid pm2 (d_entity x)"
proof -
  have vs: "value_store ops keys rest lk ts okt n db (indexed s VAE_index R)" by (rule facts_inv_value_store [OF st inv ix])
  have nw: "names_wf s" using inv names_mirror_wf by (auto simp: facts_inv_def)
  have stor: "\<forall>d \<in> set wt. \<forall>v. w_value d = VTData v \<longrightarrow> storable v" using wt good_storable by blast
  obtain ids found where
    inst: "\<forall>x \<in> set out. \<exists>d \<in> set wt. instance_of ids d = Some x"
    and just: "\<forall>t e. found t = Some e \<longrightarrow> (\<exists>d \<in> set wt. \<exists>x a tx op. instance_of ids d = Some x \<and> d_entity x = e \<and>
       ident_map s (d_attribute x) = Some a \<and> identity_attribute s a \<and>
       fact_holds i64_MAX (indexed s VAE_index R) (e, a, d_value x, tx, op))"
    and fresh: "\<forall>t e. ids t = Some e \<and> found t = None \<longrightarrow> \<not> contains_entid pm1 e \<and> contains_entid pm2 e"
    and sub: "found \<subseteq>\<^sub>m ids"
    using resolve_tempids_ok [OF vs nw pm1 stor res] by (elim exE conjE) (rule that)
  obtain d where d: "d \<in> set wt" "instance_of ids d = Some x" using inst x by blast
  note parts = instance_of_parts [OF d(2)]
  show "good okt (d_value x)" using parts(4) wt d(1) by auto
  show "contains_entid pm (d_entity x) \<or> \<not> contains_entid pm1 (d_entity x) \<and> contains_entid pm2 (d_entity x)" using parts(3)
  proof (elim disjE exE conjE)
    assume "w_entity d = ITId (d_entity x)"
    then have "d_entity x \<in> explicit_ids s d" by (simp add: explicit_ids_def)
    moreover have "validate_allocated_datom s pm d = Ok ()"
      using alloc d(1) rmapM_unit_ok [of "validate_allocated_datom s pm" wt] by (auto simp: validate_allocated_entity_ids_def)
    ultimately show ?thesis by (auto simp: validate_allocated_datom_ok)
  next
    fix t assume t: "ids t = Some (d_entity x)"
    show ?thesis
    proof (cases "found t")
      case None
      then show ?thesis using fresh t by blast
    next
      case (Some e)
      then have "e = d_entity x" using map_le_Some [OF sub Some] t by simp
      then obtain a v tx op where "fact_holds i64_MAX (indexed s VAE_index R) (d_entity x, a, v, tx, op)"
        using just Some by blast
      then have "(d_entity x, a, v, tx, op) \<in> R" by (simp add: fact_holds_def indexed_def)
      then show ?thesis using inv versions_okD(3) by (fastforce simp: facts_inv_def)
    qed
  qed
qed

definition tx_key_ok :: "(int \<Rightarrow> bool) \<Rightarrow> tx_key \<Rightarrow> bool" where
  "tx_key_ok okt key \<longleftrightarrow> dt_wf okt (DInstant (system_time key))"

lemma tx_entity_datoms_good:
  assumes "tx_key_ok okt key" and "d \<in> set (build_tx_entity_datoms tx key committed err)"
    and "\<And>e. err = Some e \<Longrightarrow> str_wf e"
  shows "good okt (d_value d)" and "d_entity d = tx" and "d_op d = Assert_op"
proof -
  have "dt_refl (DInstant t)" "dt_refl (DString e)" "dt_refl (DLong x)" for t e x by (simp_all add: dt_refl_def)
  then show "good okt (d_value d)" "d_entity d = tx" "d_op d = Assert_op"
    using assms by (auto simp: build_tx_entity_datoms_def Let_def good_def tx_key_ok_def split: option.splits)
qed

text \<open>The datoms that the operations of a transaction stand for, references and temporary ids resolved.\<close>

definition requested ::
  "('db, 'it) slate_ops \<Rightarrow> nat \<Rightarrow> timestamp_opt \<Rightarrow> 'db indexer \<Rightarrow> tx_key \<Rightarrow> tx_op list \<Rightarrow> datom list \<Rightarrow> bool" where
  "requested ops n ts ix key tx_ops user \<longleftrightarrow>
     (\<exists>pm1 wt pm2. set_tx_counter (ix_pm ix) (tx_id key) = Ok pm1 \<and>
        expand_tx_ops ops n ts (ix_db ix) (ix_schema ix) tx_ops = Ok wt \<and>
        resolve_tempids ops n ts wt (ix_schema ix) (ix_db ix) pm1 = Ok (user, pm2))"

lemma transact_inner_inv:
  assumes st: "fact_store ops keys rest lk ts okt n R" and order: "\<And>xs. set (order xs) = set xs"
    and inv: "db_inv keys okt R ix" and vals: "\<forall>op \<in> set tx_ops. \<forall>v \<in> op_values op. good okt v"
    and key: "tx_key_ok okt key" and run: "transact_tx_inner ops n ts order ix key tx_ops = Ok ix'"
  shows "\<exists>tx user final. make_entity_id TX_PARTITION (tx_id key) = Ok tx \<and> requested ops n ts ix key tx_ops user \<and>
    (\<forall>d \<in> set user. d_entity d \<noteq> tx) \<and>
    commits okt (ix_schema ix) (ix_pm ix') R (user @ build_tx_entity_datoms tx key True None) final \<and>
    db_inv keys okt (R \<union> datom_version (ix_schema ix) tx ` set final) ix' \<and>
    ix_latest ix' = key \<and> ix_sent ix' = ix_sent ix @ [\<lparr>c_tx_key = key, c_outcome = Committed\<rparr>]"
proof -
  let ?s = "ix_schema ix" and ?pm = "ix_pm ix"
  have law: "slate_law ops keys rest lk" "timestamp_law ts okt" using st by (simp_all add: fact_store_def)
  have facts: "facts_inv okt ?s ?pm R" and idx: "index_state keys (ix_db ix) ?s R" using inv by (simp_all add: db_inv_def)
  obtain tx pm1 wt user pm2 changes final upd batch db' where
    tx: "make_entity_id TX_PARTITION (tx_id key) = Ok tx"
    and pm1: "set_tx_counter ?pm (tx_id key) = Ok pm1"
    and wt: "expand_tx_ops ops n ts (ix_db ix) ?s tx_ops = Ok wt"
    and alloc: "validate_allocated_entity_ids wt ?s ?pm = Ok ()"
    and user: "resolve_tempids ops n ts wt ?s (ix_db ix) pm1 = Ok (user, pm2)"
    and val: "validate_datoms ?s (user @ build_tx_entity_datoms tx key True None) = Ok changes"
    and fin: "finalize_datoms_for_commit ops n ts order (ix_db ix) ?s ?pm (user @ build_tx_entity_datoms tx key True None) = Ok final"
    and uniq: "validate_unique_constraints ops n ts (ix_db ix) ?s final = Ok ()"
    and upd: "(if changes then rbind (prepare_schema_update ?s final) (\<lambda>u. Ok (Some u)) else Ok None) = Ok upd"
    and batch: "write_index_entries [] final ?s tx = Ok batch" and db': "db_write ops (ix_db ix) batch = Ok db'"
    and ix': "ix' = send_completion (ix\<lparr>ix_db := db', ix_metadata := (case upd of
            Some u \<Rightarrow> if schema_update_is_empty u then (ix_metadata ix)\<lparr>m_partition_map := pm2\<rparr>
              else advance_generation ((ix_metadata ix)\<lparr>m_partition_map := pm2, m_schema := apply_schema_update ?s u\<rparr>)
          | None \<Rightarrow> (ix_metadata ix)\<lparr>m_partition_map := pm2\<rparr>), ix_latest := key\<rparr>) key Committed"
    using run by (auto simp: transact_tx_inner_def tx_eid_from_tx_id_def Let_def)
  let ?ds = "user @ build_tx_entity_datoms tx key True None"
  have pw: "pm_wf ?pm" and v: "versions_ok okt ?s ?pm R" and ov: "one_value ?s R" and oo: "one_owner ?s R"
    using facts by (simp_all add: facts_inv_def)
  have t: "0 \<le> sint (tx_id key)" "sint (tx_id key) < 2 ^ 42"
  proof -
    have "uint (tx_id key) < 2 ^ 42" using tx by (simp add: make_entity_id_Ok)
    then show "0 \<le> sint (tx_id key)" "sint (tx_id key) < 2 ^ 42" by (simp_all add: sint_small)
  qed
  have c1: "contains_entid pm1 tx" "pm_wf pm1" "\<And>e. contains_entid ?pm e \<Longrightarrow> contains_entid pm1 e"
    using set_tx_counter_ok [OF pw t, of tx] pm1 tx by (auto simp: tx_eid_from_tx_id_def)
  note c2 = resolve_tempids_counters [OF c1(2) user]
  note vs = facts_inv_value_store [OF st facts idx]
  have refl: "\<forall>(e, a, v, tx, op) \<in> R. dt_refl v" using v by (auto simp: versions_ok_def good_def)
  have wtg: "\<forall>d \<in> set wt. \<forall>v. w_value d = VTData v \<longrightarrow> good okt v"
    using expand_values [OF st facts_inv_keys [OF facts] refl vs(2) vals wt] by blast
  have not_tx: "\<not> contains_entid ?pm tx"
    using set_tx_counter_ok [OF pw t, of tx] pm1 tx by (auto simp: tx_eid_from_tx_id_def)
  have user_ok: "good okt (d_value d) \<and> contains_entid pm2 (d_entity d) \<and> d_entity d \<noteq> tx" if "d \<in> set user" for d
    using resolved_datoms [OF st facts idx wtg alloc c1(2) user that] c1(1,3) c2(2) not_tx by blast
  have ds_ok: "good okt (d_value d) \<and> contains_entid pm2 (d_entity d)" if "d \<in> set ?ds" for d
    using that user_ok tx_entity_datoms_good [OF key, of d tx True None] c2(2) [OF c1(1)] by auto
  have valid: "valid_datoms ?s ?ds" and ch: "changes = (\<exists>d \<in> set ?ds. is_schema_attribute (d_attribute d))"
    using val validate_datoms_iff [of ?ds ?s changes] ds_ok by (auto simp: good_def)
  have known: "\<forall>d \<in> set ?ds. get_attribute ?s (d_attribute d) \<noteq> None"
    using valid by (auto simp: valid_datoms_def split: option.splits)
  have Rc: "\<forall>(e, a, v, tx, op) \<in> R. dt_wf okt v \<and> contains_entid ?pm e" using v by (auto simp: versions_ok_def good_def)
  have final: "set final = (\<Union>d \<in> set ?ds. replaced ?s R d)"
    using finalize_ok [OF law Rc vs(2,3) order ov known] fin by auto
  then have c: "commits okt ?s pm2 R ?ds final" using valid ds_ok by (simp add: commits_def)
  have "\<forall>d \<in> set final. get_attribute ?s (d_attribute d) \<noteq> None \<and> dt_refl (d_value d) \<and> storable (d_value d)"
    using commits_mem(1,2) [OF c v] good_storable by (auto simp: good_def)
  moreover have "\<forall>(e, a, v, tx, op) \<in> R. dt_wf okt v" using Rc by blast
  ultimately have own: "owners_agree ?s final" "owners_give_up ?s R final"
    using validate_unique_ok [OF law _ vs(4,5) oo, of final] uniq by (auto split: if_splits)
  have sch: "ix_schema ix' = (case upd of None \<Rightarrow> ?s | Some u \<Rightarrow> apply_schema_update ?s u)"
    and pm': "ix_pm ix' = pm2" and dbx: "ix_db ix' = db'"
    by (auto simp: ix' send_completion_def advance_generation_def apply_empty_update split: option.split)
  have up: "updates ?s final (ix_schema ix')"
  proof (cases changes)
    case True
    then show ?thesis using upd sch by (auto simp: updates_def)
  next
    case False
    then have "\<forall>d \<in> set final. \<not> is_schema_attribute (d_attribute d)"
      using ch commits_mem(5) [OF c v] by metis
    then show ?thesis using upd sch False by (auto simp: updates_def)
  qed
  have cpm: "contains_entid pm2 e" if "contains_entid ?pm e" for e using that c1(3) c2(2) by blast
  note after = commits_inv [OF facts pm1 tx c2(1) cpm c2(2) [OF c1(1)] c own up]
  obtain db2 where "db_write ops (ix_db ix) batch = Ok db2" "keys db2 = keys (ix_db ix) \<union> set batch"
    by (rule slate_write [OF law(1)])
  then have "index_state keys db' ?s (R \<union> datom_version ?s tx ` set final)"
    using index_state_write [OF idx batch] db' by simp
  then have "index_state keys db' (ix_schema ix') (R \<union> datom_version ?s tx ` set final)"
    unfolding index_state_def using after(2) by simp
  then have "db_inv keys okt (R \<union> datom_version ?s tx ` set final) ix'"
    using after(1) by (simp add: db_inv_def dbx pm')
  moreover have "requested ops n ts ix key tx_ops user" using pm1 wt user unfolding requested_def by blast
  ultimately show ?thesis
    using tx c pm' user_ok by (intro exI [of _ tx] exI [of _ user] exI [of _ final]) (simp add: ix' send_completion_def)
qed

section \<open>Aborted transactions\<close>

text \<open>The datoms of a transaction entity are a commit of their own: they assert attributes of the
  core schema, which are not unique, of an entity that has no facts yet.\<close>

lemma tx_entity_attribute:
  assumes "schema_core s" and "d \<in> set (build_tx_entity_datoms tx key committed err)"
  shows "\<exists>a vt. get_attribute s (d_attribute d) = Some (a, card_one_attr vt None) \<and> vt_matches vt (d_value d) \<and>
    \<not> is_schema_attribute (d_attribute d)"
proof -
  have g: "get_attribute s (kw ''db'' ''txInstant'') = Some (DB_TX_INSTANT, card_one_attr VT_Instant None)"
    "get_attribute s (kw ''db'' ''txId'') = Some (DB_TX_ID, card_one_attr VT_Long None)"
    "get_attribute s (kw ''db'' ''txResult'') = Some (DB_TX_RESULT, card_one_attr VT_Ref None)"
    "get_attribute s (kw ''db'' ''txError'') = Some (DB_TX_ERROR, card_one_attr VT_String None)"
    using assms(1) by (simp_all add: schema_core_def core_attributes_def)
  have n: "\<not> is_schema_attribute (kw ''db'' ''txInstant'')" "\<not> is_schema_attribute (kw ''db'' ''txId'')"
    "\<not> is_schema_attribute (kw ''db'' ''txResult'')" "\<not> is_schema_attribute (kw ''db'' ''txError'')"
    by (simp_all add: is_schema_attribute_def kw_components_def kw_def)
  show ?thesis
    using assms(2) unfolding build_tx_entity_datoms_def Let_def
    by (cases err) (elim insertE emptyE UnE | auto simp: g n vt_matches_def value_type_of_def)+
qed

lemma tx_entity_functional:
  assumes "d \<in> set (build_tx_entity_datoms tx key committed err)" and "d' \<in> set (build_tx_entity_datoms tx key committed err)"
    and "d_attribute d = d_attribute d'"
  shows "d = d'"
  using assms by (auto simp: build_tx_entity_datoms_def Let_def kw_eq_iff split: option.splits)

lemma get_attribute_name:
  assumes "names_wf s" and "get_attribute s k = Some (a, attr)" and "get_attribute s k' = Some (a, attr')"
  shows "k = k'"
  using assms by (auto simp: names_wf_def get_attribute_Some) (metis option.inject)

lemma tx_entity_commits:
  assumes facts: "facts_inv okt s pm0 R" and key: "tx_key_ok okt key" and err: "\<And>e. err = Some e \<Longrightarrow> str_wf e"
    and fresh: "\<not> contains_entid pm0 tx" and pm: "contains_entid pm tx"
  shows "commits okt s pm R (build_tx_entity_datoms tx key committed err) (build_tx_entity_datoms tx key committed err)"
    and "owners_agree s (build_tx_entity_datoms tx key committed err)"
    and "owners_give_up s R (build_tx_entity_datoms tx key committed err)"
    and "updates s (build_tx_entity_datoms tx key committed err) s"
proof -
  let ?ds = "build_tx_entity_datoms tx key committed err"
  have core: "schema_core s" and nw: "names_wf s" and v: "versions_ok okt s pm0 R"
    using facts names_mirror_wf by (auto simp: facts_inv_def)
  note good = tx_entity_datoms_good [OF key _ err]
  have none: "\<not> live R tx a w" for a w using fresh versions_okD(3) [OF v] live_mem by blast
  have rep: "replaced s R d = {d}" if "d \<in> set ?ds" for d
    using tx_entity_attribute [OF core that] good(2) [OF that] none by (auto simp: replaced_def split: if_splits)
  have not_unique: "\<not> unique_attr s a" if as: "asserted s ?ds e a w" for e a w
  proof -
    obtain d attr where "d \<in> set ?ds" "get_attribute s (d_attribute d) = Some (a, attr)" using as by (auto simp: asserted_def)
    then show ?thesis using tx_entity_attribute [OF core] by (fastforce simp: unique_attr_get card_one_attr_def)
  qed
  have "valid_datoms s ?ds"
    unfolding valid_datoms_def
  proof
    fix d assume d: "d \<in> set ?ds"
    obtain a vt where g: "get_attribute s (d_attribute d) = Some (a, card_one_attr vt None)" "vt_matches vt (d_value d)"
      using tx_entity_attribute [OF core d] by blast
    have "d' = d" if "d' \<in> set ?ds" "get_attribute s (d_attribute d') = Some (a, card_one_attr vt None)" for d'
      using tx_entity_functional [OF that(1) d] get_attribute_name [OF nw that(2) g(1)] by blast
    moreover have "d_op d = Assert_op" using good(3) [OF d] .
    ultimately show "case get_attribute s (d_attribute d) of
        None \<Rightarrow> False
      | Some (aid, attr) \<Rightarrow> vt_matches (a_value_type attr) (d_value d) \<and>
          (\<forall>d' \<in> set ?ds. get_attribute s (d_attribute d') = Some (aid, attr) \<and>
             d_entity d' = d_entity d \<and> \<not> a_multival attr \<and> d_op d = Assert_op \<longrightarrow>
             (if d_op d' = Assert_op then d_value d' = d_value d else d_value d' \<noteq> d_value d))"
      using g by (auto simp: card_one_attr_def)
  qed
  then show "commits okt s pm R ?ds ?ds" using rep good(1,2) pm by (simp add: commits_def)
  show "owners_agree s ?ds" "owners_give_up s R ?ds"
    using not_unique by (auto simp: owners_agree_def owners_give_up_def)
  show "updates s ?ds s" unfolding updates_def using tx_entity_attribute [OF core] by blast
qed

lemma aborted_inv:
  assumes law: "slate_law ops keys rest lk" and inv: "db_inv keys okt R ix" and key: "tx_key_ok okt key" and err: "str_wf e"
    and run: "write_aborted_tx ops ix key e = Ok ix'"
  shows "\<exists>tx. make_entity_id TX_PARTITION (tx_id key) = Ok tx \<and> \<not> contains_entid (ix_pm ix) tx \<and>
    db_inv keys okt (R \<union> datom_version (ix_schema ix) tx ` set (build_tx_entity_datoms tx key False (Some e))) ix' \<and>
    ix_metadata ix' = (ix_metadata ix)\<lparr>m_partition_map := (ix_pm ix)(TX_PARTITION \<mapsto> tx_id key + 1)\<rparr> \<and>
    ix_latest ix' = key \<and> ix_sent ix' = ix_sent ix"
proof -
  let ?s = "ix_schema ix" and ?pm = "ix_pm ix"
  have facts: "facts_inv okt ?s ?pm R" and idx: "index_state keys (ix_db ix) ?s R" using inv by (simp_all add: db_inv_def)
  obtain tx pm1 batch db' where tx: "make_entity_id TX_PARTITION (tx_id key) = Ok tx"
    and pm1: "set_tx_counter ?pm (tx_id key) = Ok pm1"
    and batch: "write_index_entries [] (build_tx_entity_datoms tx key False (Some e)) ?s tx = Ok batch"
    and db': "db_write ops (ix_db ix) batch = Ok db'"
    and ix': "ix' = ix\<lparr>ix_db := db', ix_metadata := (ix_metadata ix)\<lparr>m_partition_map := pm1\<rparr>, ix_latest := key\<rparr>"
    using run by (auto simp: write_aborted_tx_def tx_eid_from_tx_id_def)
  let ?ds = "build_tx_entity_datoms tx key False (Some e)"
  have pw: "pm_wf ?pm" using facts by (simp add: facts_inv_def)
  have "uint (tx_id key) < 2 ^ 42" using tx by (simp add: make_entity_id_Ok)
  then have t: "0 \<le> sint (tx_id key)" "sint (tx_id key) < 2 ^ 42" by (simp_all add: sint_small)
  have c1: "\<not> contains_entid ?pm tx" "contains_entid pm1 tx" "pm_wf pm1" "\<And>e. contains_entid ?pm e \<Longrightarrow> contains_entid pm1 e"
    using set_tx_counter_ok [OF pw t, of tx] pm1 tx by (auto simp: tx_eid_from_tx_id_def)
  have err': "\<And>e'. Some e = Some e' \<Longrightarrow> str_wf e'" using err by simp
  note c = tx_entity_commits [where err = "Some e", OF facts key err' c1(1,2), where committed = False]
  note after = commits_inv [OF facts pm1 tx c1(3,4,2) c]
  obtain db2 where "db_write ops (ix_db ix) batch = Ok db2" "keys db2 = keys (ix_db ix) \<union> set batch"
    by (rule slate_write [OF law])
  then have "index_state keys db' ?s (R \<union> datom_version ?s tx ` set ?ds)"
    using index_state_write [OF idx batch] db' by simp
  moreover have "pm1 = ?pm(TX_PARTITION \<mapsto> tx_id key + 1)"
    using pm1 by (auto simp: set_tx_counter_def Let_def split: if_splits)
  ultimately show ?thesis using tx c1(1) after(1) by (simp add: db_inv_def ix')
qed

lemma aborted_total:
  assumes law: "slate_law ops keys rest lk" and inv: "db_inv keys okt R ix"
    and t: "0 \<le> sint (tx_id key)" "sint (tx_id key) < 2 ^ 42" "sint (or_insert (ix_pm ix) TX_PARTITION 0) \<le> sint (tx_id key)"
  shows "\<exists>ix'. write_aborted_tx ops ix key e = Ok ix'"
proof -
  let ?s = "ix_schema ix"
  have core: "schema_core ?s" using inv by (simp add: db_inv_def facts_inv_def)
  have "uint (tx_id key) < 2 ^ 42" using t(1,2) by (simp add: sint_nonneg_uint)
  then obtain tx where tx: "make_entity_id TX_PARTITION (tx_id key) = Ok tx"
    using make_entity_id_total [of TX_PARTITION] by (auto simp: TX_PARTITION_def)
  obtain batch where "write_index_entries [] (build_tx_entity_datoms tx key False (Some e)) ?s tx = Ok batch"
    using write_index_entries_total tx_entity_attribute [OF core] by (metis option.distinct(1))
  then show ?thesis
    using tx t(3) by (auto simp: write_aborted_tx_def tx_eid_from_tx_id_def set_tx_counter_def Let_def word_sless_alt
        intro: slate_write [OF law])
qed

end
