(* ===== verification/Bootstrap.thy ===== *)
theory Bootstrap
  imports Commit
begin

text \<open>
  Starting a database, \<^verbatim>\<open>src/bootstrap.rs\<close>: a fresh store gets the built-in schema as its first
  transaction, an existing one is read back, and the counters of the partitions are found by
  scanning the indices. The lookup of one key and the rows of the schema queries are arguments.
\<close>

definition META_INDEX :: u8 where "META_INDEX = 129"

definition DB_PARTITION_COUNTER_FLOOR :: i64 where "DB_PARTITION_COUNTER_FLOOR = 1000"

definition BOOTSTRAP_TX_EID :: i64 where "BOOTSTRAP_TX_EID = push_bit COUNTER_BITS (ucast TX_PARTITION)"

definition BOOTSTRAP_TX_KEY :: tx_key where "BOOTSTRAP_TX_KEY = TxKey 0 \<lparr>dt_micros = 0, dt_subnanos = 0\<rparr>"

definition version_key_bytes :: bytes where
  "version_key_bytes = concat_bytes [[META_INDEX], map (\<lambda>c. of_char c) ''version'']"

definition scan_partition ::
  "('db, 'it) slate_ops \<Rightarrow> timestamp_opt \<Rightarrow> 'db \<Rightarrow> partition_map \<Rightarrow> u32 \<Rightarrow> partition_map result" where
  "scan_partition ops ts db pm part =
     (let pm0 = pm(part \<mapsto> 0)
      in rbind (partition_entity_prefix part) (\<lambda>p.
         rbind (scan_prefix ops db (concat_bytes [[EAV], p])) (\<lambda>it.
         rbind (it_next ops it) (\<lambda>(kv, _).
         case kv of
           None \<Rightarrow> Ok pm0
         | Some key \<Rightarrow>
             rbind (get_slice key CODEC_LENGTH (CODEC_LENGTH + ENTITY_LENGTH)) (\<lambda>cursor.
             rbind (decode_datatype ts cursor) (\<lambda>(dt, _).
             case dt of
               DLong eid \<Rightarrow> Ok (pm0(part \<mapsto> extract_counter eid + 1))
             | _ \<Rightarrow> Error (Err ''Expected Long entity ID in EAV key'')))))))"

definition scan_partition_counters ::
  "('db, 'it) slate_ops \<Rightarrow> timestamp_opt \<Rightarrow> 'db \<Rightarrow> partition_map result" where
  "scan_partition_counters ops ts db =
     rbind (rfold (scan_partition ops ts db) Map.empty [DB_PARTITION, TX_PARTITION, USER_PARTITION]) (\<lambda>pm.
     Ok (case pm DB_PARTITION of
           Some db_counter \<Rightarrow>
             if db_counter <s DB_PARTITION_COUNTER_FLOOR
             then pm(DB_PARTITION \<mapsto> DB_PARTITION_COUNTER_FLOOR) else pm
         | None \<Rightarrow> pm))"

definition unwrap :: "'a result \<Rightarrow> 'a result" where
  "unwrap x = expect_ok x ''called `Result::unwrap()` on an `Err` value''"

text \<open>The datoms of the first transaction.\<close>

definition bootstrap_datoms ::
  "('db, 'it) slate_ops \<Rightarrow> nat \<Rightarrow> timestamp_opt \<Rightarrow> 'db \<Rightarrow> schema \<Rightarrow> datom list result" where
  "bootstrap_datoms ops n ts db s =
     rbind bootstrap_schema_tx (\<lambda>tx_ops.
     rbind (unwrap (expand_tx_ops ops n ts db s tx_ops)) (\<lambda>with_tempids.
     rbind (unwrap (resolve_tempids ops n ts with_tempids s db Map.empty)) (\<lambda>(datoms, _).
     Ok (datoms @ build_tx_entity_datoms BOOTSTRAP_TX_EID BOOTSTRAP_TX_KEY True None))))"

definition init_db ::
  "('db, 'it) slate_ops \<Rightarrow> nat \<Rightarrow> timestamp_opt \<Rightarrow> ('db \<Rightarrow> bytes \<Rightarrow> bool result) \<Rightarrow>
     ('db \<Rightarrow> data_type list list \<times> data_type list list \<times> data_type list list) \<Rightarrow> 'db \<Rightarrow> (metadata \<times> 'db) result" where
  "init_db ops n ts db_has schema_rows db =
     rbind (db_has db version_key_bytes) (\<lambda>existing.
     if existing then
       (let (ident_rows, attr_rows, unique_rows) = schema_rows db
        in rbind (load_schema_from_rows ident_rows attr_rows unique_rows) (\<lambda>s.
           rbind (scan_partition_counters ops ts db) (\<lambda>pm.
           Ok (metadata_new s pm, db))))
     else
       rbind bootstrap_schema (\<lambda>s.
       rbind (bootstrap_datoms ops n ts db s) (\<lambda>datoms.
       rbind (unwrap (validate_datoms s datoms)) (\<lambda>schema_changes_detected.
       if \<not> schema_changes_detected then Error (Panic ''assertion failed: schema_changes_detected'')
       else
         rbind (unwrap (prepare_schema_update empty_schema datoms)) (\<lambda>update.
         let schema_from_tx = apply_schema_update empty_schema update
         in if ident_map schema_from_tx \<noteq> ident_map s then Error (Panic ''bootstrap ident_map mismatch'')
            else if attribute_map schema_from_tx \<noteq> attribute_map s then Error (Panic ''bootstrap attribute_map mismatch'')
            else
              rbind (unwrap (write_index_entries [] datoms s BOOTSTRAP_TX_EID)) (\<lambda>batch.
              rbind (unwrap (db_write ops db (batch @ [version_key_bytes]))) (\<lambda>db'.
              rbind (scan_partition_counters ops ts db') (\<lambda>pm.
              Ok (metadata_new s pm, db')))))))))"

section \<open>Counters\<close>

text \<open>Entity identifiers as they are made, with counters that the prefix of a partition covers.\<close>

definition canonical :: "entid \<Rightarrow> bool" where
  "canonical e \<longleftrightarrow> (\<exists>part c. part \<in> {DB_PARTITION, TX_PARTITION, USER_PARTITION} \<and> uint c < 2 ^ 40 \<and> make_entity_id part c = Ok e)"

lemma canonical_parts:
  assumes "canonical e"
  shows "extract_partition e \<in> {DB_PARTITION, TX_PARTITION, USER_PARTITION}"
    and "make_entity_id (extract_partition e) (extract_counter e) = Ok e" and "uint (extract_counter e) < 2 ^ 40"
  using assms extract_make by (auto simp: canonical_def)

lemma partition_scan_prefix:
  assumes p: "partition_entity_prefix part = Ok p" and e: "canonical e"
  shows "prefix (EAV # p) (version_key EAV_index (e, a, v, tx, op)) \<longleftrightarrow> extract_partition e = part"
proof -
  note c = canonical_parts [OF e]
  have len: "length p \<le> length (entity_bytes e)"
    using p by (auto simp: partition_entity_prefix_def Let_def)
  have "prefix (EAV # p) (version_key EAV_index (e, a, v, tx, op)) \<longleftrightarrow> prefix p (entity_bytes e)"
    unfolding version_key_eav entity_prefix_eq using len by (auto simp: prefix_append)
  also have "\<dots> \<longleftrightarrow> extract_partition e = part"
    using partition_prefix_ok [OF p c(2)] c(3) by (simp add: entity_bytes_def sint_small)
  finally show ?thesis .
qed

lemma version_key_entity_le:
  assumes "version_key EAV_index (e, a, v, tx, op) \<le> version_key EAV_index (f, b, w, tx', op')"
  shows "sint f \<le> sint e"
proof (rule ccontr)
  assume "\<not> sint f \<le> sint e"
  then have lt: "sint e < sint f" by simp
  have "encode_i64_bytes f @ s < encode_i64_bytes e @ t" for s t
    using i64.less_enc_append [of e f, OF TrueI TrueI lt] by (simp add: encode_i64_def)
  then have "version_key EAV_index (f, b, w, tx', op') < version_key EAV_index (e, a, v, tx, op)"
    by (simp add: version_key_def index_key_def entity_bytes_def encode_i64_def)
  then show False using assms by simp
qed

lemma scan_partition_ok:
  assumes law: "slate_law ops keys rest lk"
    and db: "{k \<in> keys db. prefix [EAV] k} = version_key EAV_index ` R"
    and can: "\<forall>(e, a, v, tx, op) \<in> R. canonical e" and part: "part \<in> {DB_PARTITION, TX_PARTITION, USER_PARTITION}"
  shows "\<exists>m. scan_partition ops ts db pm part = Ok (pm(part \<mapsto> m)) \<and> uint m \<le> 2 ^ 40 \<and>
    (\<forall>(e, a, v, tx, op) \<in> R. extract_partition e = part \<longrightarrow> uint (extract_counter e) < uint m) \<and>
    (m = 0 \<or> (\<exists>(e, a, v, tx, op) \<in> R. extract_partition e = part \<and> m = extract_counter e + 1))"
proof -
  obtain p where p: "partition_entity_prefix part = Ok p"
    using part by (auto simp: partition_entity_prefix_def make_entity_id_def partition_defs Let_def)
  let ?K = "{k \<in> keys db. prefix (EAV # p) k}" and ?R = "{(e, a, v, tx, op) \<in> R. extract_partition e = part}"
  have "prefix (EAV # p) k \<Longrightarrow> prefix [EAV] k" for k by (cases k) auto
  then have "?K = {k \<in> version_key EAV_index ` R. prefix (EAV # p) k}" unfolding db [symmetric] by blast
  also have "\<dots> = version_key EAV_index ` ?R" using can partition_scan_prefix [OF p] by auto
  finally have K: "?K = version_key EAV_index ` ?R" .
  have fin: "finite ?K" using law by (simp add: slate_law_def)
  obtain it where it: "scan_prefix ops db (EAV # p) = Ok it" "rest it = sorted_list_of_set ?K"
    using slate_scan [OF law] by metis
  show ?thesis
  proof (cases "rest it")
    case Nil
    then have "version_key EAV_index ` ?R = {}" using it(2) fin unfolding K by simp
    then have "\<forall>(e, a, v, tx, op) \<in> R. extract_partition e \<noteq> part" by blast
    moreover obtain it' where "it_next ops it = Ok (None, it')" by (rule slate_next_Nil [OF law Nil])
    ultimately show ?thesis
      using p it(1) by (intro exI [of _ 0]) (auto simp: scan_partition_def concat_bytes_def)
  next
    case (Cons k ks)
    then have set: "set (k # ks) = ?K" and so: "sorted (k # ks)"
      using it(2) set_sorted_list_of_set [OF fin] sorted_list_of_set(2) [of ?K] by simp_all
    have "k \<in> version_key EAV_index ` ?R" using set unfolding K by auto
    then obtain e a v tx op where k: "k = version_key EAV_index (e, a, v, tx, op)" "(e, a, v, tx, op) \<in> R" "extract_partition e = part"
      by auto
    have ce: "canonical e" using can k(2) by blast
    note ec = canonical_parts [OF ce]
    let ?m = "extract_counter e + 1"
    have m: "uint ?m = uint (extract_counter e) + 1" using ec(3) by (simp add: uint_Suc_small)
    have max: "uint (extract_counter f) < uint ?m" if f: "(f, b, w, tx', op') \<in> R" "extract_partition f = part" for f b w tx' op'
    proof -
      have cf: "canonical f" using can f(1) by blast
      note fc = canonical_parts [OF cf]
      have "version_key EAV_index (f, b, w, tx', op') \<in> ?K" unfolding K using f by force
      then have "k \<le> version_key EAV_index (f, b, w, tx', op')" using so set by auto
      then have "sint f \<le> sint e" unfolding k(1) by (rule version_key_entity_le)
      then have "uint f \<le> uint e"
        using uint_make_entity_id(2) [OF ec(2)] uint_make_entity_id(2) [OF fc(2)] by (simp add: sint_cases)
      then show ?thesis
        using uint_make_entity_id(1) [OF ec(2)] uint_make_entity_id(1) [OF fc(2)] k(3) f(2) m by simp
    qed
    obtain it' where n: "it_next ops it = Ok (Some k, it')" by (rule slate_next_Cons [OF law Cons])
    have sl: "get_slice k CODEC_LENGTH (CODEC_LENGTH + ENTITY_LENGTH) = Ok (entity_bytes e)"
      unfolding k(1) version_key_eav entity_prefix_eq by (simp add: get_slice_def key_length_defs)
    have "scan_partition ops ts db pm part = Ok (pm(part \<mapsto> ?m))"
      using p it(1) n sl by (simp add: scan_partition_def concat_bytes_def codec_simps)
    then show ?thesis using max m ec(3) k by (intro exI [of _ ?m]) auto
  qed
qed

text \<open>The counters found by the scan: above everything stored, and no further than needed.\<close>

lemma scan_partition_counters_ok:
  assumes law: "slate_law ops keys rest lk"
    and db: "{k \<in> keys db. prefix [EAV] k} = version_key EAV_index ` R"
    and can: "\<forall>(e, a, v, tx, op) \<in> R. canonical e"
  shows "\<exists>pm. scan_partition_counters ops ts db = Ok pm \<and> pm_wf pm \<and>
    (\<forall>(e, a, v, tx, op) \<in> R. contains_entid pm e) \<and> (\<forall>e. canonical e \<and> extract_partition e = DB_PARTITION \<and>
       sint (extract_counter e) < 1000 \<longrightarrow> contains_entid pm e) \<and>
    (\<forall>part m. pm part = Some m \<longrightarrow> m = 0 \<or> (part = DB_PARTITION \<and> m = DB_PARTITION_COUNTER_FLOOR) \<or>
       (\<exists>(e, a, v, tx, op) \<in> R. extract_partition e = part \<and> m = extract_counter e + 1))"
proof -
  note scan = scan_partition_ok [OF law db can]
  obtain d where d: "scan_partition ops ts db Map.empty DB_PARTITION = Ok [DB_PARTITION \<mapsto> d]" "uint d \<le> 2 ^ 40"
    "\<forall>(e, a, v, tx, op) \<in> R. extract_partition e = DB_PARTITION \<longrightarrow> uint (extract_counter e) < uint d"
    "d = 0 \<or> (\<exists>(e, a, v, tx, op) \<in> R. extract_partition e = DB_PARTITION \<and> d = extract_counter e + 1)"
    using scan [of DB_PARTITION] by blast
  obtain t where t: "scan_partition ops ts db [DB_PARTITION \<mapsto> d] TX_PARTITION = Ok [DB_PARTITION \<mapsto> d, TX_PARTITION \<mapsto> t]" "uint t \<le> 2 ^ 40"
    "\<forall>(e, a, v, tx, op) \<in> R. extract_partition e = TX_PARTITION \<longrightarrow> uint (extract_counter e) < uint t"
    "t = 0 \<or> (\<exists>(e, a, v, tx, op) \<in> R. extract_partition e = TX_PARTITION \<and> t = extract_counter e + 1)"
    using scan [of TX_PARTITION] by blast
  obtain u where u: "scan_partition ops ts db [DB_PARTITION \<mapsto> d, TX_PARTITION \<mapsto> t] USER_PARTITION =
      Ok [DB_PARTITION \<mapsto> d, TX_PARTITION \<mapsto> t, USER_PARTITION \<mapsto> u]" "uint u \<le> 2 ^ 40"
    "\<forall>(e, a, v, tx, op) \<in> R. extract_partition e = USER_PARTITION \<longrightarrow> uint (extract_counter e) < uint u"
    "u = 0 \<or> (\<exists>(e, a, v, tx, op) \<in> R. extract_partition e = USER_PARTITION \<and> u = extract_counter e + 1)"
    using scan [of USER_PARTITION] by blast
  define d' where "d' = (if d <s DB_PARTITION_COUNTER_FLOOR then DB_PARTITION_COUNTER_FLOOR else d)"
  let ?pm = "[DB_PARTITION \<mapsto> d', TX_PARTITION \<mapsto> t, USER_PARTITION \<mapsto> u]"
  have ne: "DB_PARTITION \<noteq> TX_PARTITION" "DB_PARTITION \<noteq> USER_PARTITION" "TX_PARTITION \<noteq> USER_PARTITION"
    by (simp_all add: partition_defs)
  have sd: "sint d = uint d" using d(2) by (simp add: sint_small)
  have d': "uint d \<le> uint d'" "1000 \<le> uint d'" "uint d' \<le> 2 ^ 42"
    using d(2) sd by (auto simp: d'_def word_sless_alt DB_PARTITION_COUNTER_FLOOR_def)
  have run: "scan_partition_counters ops ts db = Ok ?pm"
    using d(1) t(1) u(1) ne by (auto simp: scan_partition_counters_def d'_def fun_upd_twist)
  have wf: "pm_wf ?pm" using d' t(2) u(2) by (auto simp: pm_wf_def)
  have "contains_entid ?pm e" if x: "(e, a, v, tx, op) \<in> R" for e a v tx op
  proof -
    have "canonical e" using can x by blast
    from canonical_parts(1) [OF this] consider "extract_partition e = DB_PARTITION" | "extract_partition e = TX_PARTITION" | "extract_partition e = USER_PARTITION" by blast
    then show ?thesis
    proof cases
      case 1
      then have "uint (extract_counter e) < uint d" using d(3) x by blast
      then show ?thesis unfolding contains_entid_iff [OF wf] using 1 ne d'(1) by simp
    next
      case 2
      then have "uint (extract_counter e) < uint t" using t(3) x by blast
      then show ?thesis unfolding contains_entid_iff [OF wf] using 2 ne by simp
    next
      case 3
      then have "uint (extract_counter e) < uint u" using u(3) x by blast
      then show ?thesis unfolding contains_entid_iff [OF wf] using 3 ne by simp
    qed
  qed
  moreover have "contains_entid ?pm e" if "canonical e" "extract_partition e = DB_PARTITION" "sint (extract_counter e) < 1000" for e
    unfolding contains_entid_iff [OF wf] using that ne d'(2) canonical_parts(3) [OF that(1)] by (simp add: sint_small)
  moreover have "m = 0 \<or> (part = DB_PARTITION \<and> m = DB_PARTITION_COUNTER_FLOOR) \<or>
       (\<exists>(e, a, v, tx, op) \<in> R. extract_partition e = part \<and> m = extract_counter e + 1)" if "?pm part = Some m" for part m
    using that d(4) t(4) u(4) by (auto simp: d'_def split: if_splits)
  ultimately show ?thesis using run wf by (intro exI [of _ ?pm]) blast
qed

end
