(* ===== verification/Boot_Tx.thy ===== *)
theory Boot_Tx
  imports Bootstrap
begin

text \<open>
  What the first transaction of a fresh database writes: the facts of the built-in schema, which
  together with its own entity make a database that satisfies the invariant of the indexer.
\<close>

section \<open>The first transaction\<close>

text \<open>The facts of the built-in schema: for each attribute its cardinality, name, uniqueness and
  type, in the order of the keywords of its map, then the names of the other built-in entities.\<close>

definition built_in :: "keyword \<Rightarrow> entid" where
  "built_in k = (case map_of V1_IDENTS k of Some e \<Rightarrow> e | None \<Rightarrow> 0)"

definition boot_attribute_facts ::
  "keyword \<times> keyword \<times> keyword \<times> keyword option \<Rightarrow> (entid \<times> keyword \<times> data_type) list" where
  "boot_attribute_facts = (\<lambda>(ident, vt, cd, u).
     [(built_in ident, kw ''db'' ''cardinality'', DLong (built_in cd)),
      (built_in ident, kw ''db'' ''ident'', DKeyword ident)] @
     (case u of None \<Rightarrow> [] | Some x \<Rightarrow> [(built_in ident, kw ''db'' ''unique'', DLong (built_in x))]) @
     [(built_in ident, kw ''db'' ''valueType'', DLong (built_in vt))])"

definition boot_facts :: "(entid \<times> keyword \<times> data_type) list" where
  "boot_facts =
     concat (map boot_attribute_facts V1_ATTRIBUTES) @
     map (\<lambda>(ident, eid). (eid, kw ''db'' ''ident'', DKeyword ident))
       (filter (\<lambda>(ident, _). ident \<notin> set (map fst V1_ATTRIBUTES)) V1_IDENTS)"

definition fact_datom :: "entid \<times> keyword \<times> data_type \<Rightarrow> datom" where
  "fact_datom = (\<lambda>(e, a, v). \<lparr>d_entity = e, d_attribute = a, d_value = v, d_op = Assert_op\<rparr>)"

definition boot_schema :: schema where
  "boot_schema = bootstrap_idents\<lparr>attribute_map := bootstrap_attributes\<rparr>"

definition boot_datoms :: "datom list" where
  "boot_datoms = map fact_datom boot_facts @ build_tx_entity_datoms BOOTSTRAP_TX_EID BOOTSTRAP_TX_KEY True None"

abbreviation expanded_fact :: "entid \<times> keyword \<times> data_type \<Rightarrow> datom_expanded" where
  "expanded_fact \<equiv> (\<lambda>(e, a, v). \<lparr>x_entity = EEId e, x_attribute = a, x_value = VEData v, x_op = Assert_op\<rparr>)"

abbreviation concrete_fact :: "entid \<times> keyword \<times> data_type \<Rightarrow> datom_with_tempids" where
  "concrete_fact \<equiv> (\<lambda>(e, a, v). \<lparr>w_entity = ITId e, w_attribute = a, w_value = VTData v, w_op = Assert_op\<rparr>)"

lemma boot_maps:
  "ident_map boot_schema = map_of V1_IDENTS" "entid_map boot_schema = map_of (map prod.swap V1_IDENTS)"
  "attribute_map boot_schema = bootstrap_attributes"
  by (simp_all add: boot_schema_def bootstrap_idents_maps)

lemma boot_attributes:
  "get_attribute boot_schema (kw ''db'' ''ident'') = Some (DB_IDENT, card_one_attr VT_Keyword (Some U_Identity))"
  "get_attribute boot_schema (kw ''db'' ''valueType'') = Some (DB_VALUE_TYPE, card_one_attr VT_Ref None)"
  "get_attribute boot_schema (kw ''db'' ''cardinality'') = Some (DB_CARDINALITY, card_one_attr VT_Ref None)"
  "get_attribute boot_schema (kw ''db'' ''unique'') = Some (DB_UNIQUE, card_one_attr VT_Ref None)"
  "get_attribute boot_schema (kw ''db'' ''txInstant'') = Some (DB_TX_INSTANT, card_one_attr VT_Instant None)"
  "get_attribute boot_schema (kw ''db'' ''txId'') = Some (DB_TX_ID, card_one_attr VT_Long None)"
  "get_attribute boot_schema (kw ''db'' ''txResult'') = Some (DB_TX_RESULT, card_one_attr VT_Ref None)"
  "get_attribute boot_schema (kw ''db'' ''txError'') = Some (DB_TX_ERROR, card_one_attr VT_String None)"
  by (simp_all add: get_attribute_def boot_maps bootstrap_lookup bootstrap_attributes_def db_id_defs)

lemma boot_refs:
  "is_ref_attribute boot_schema (kw ''db'' ''valueType'')" "is_ref_attribute boot_schema (kw ''db'' ''cardinality'')"
  "is_ref_attribute boot_schema (kw ''db'' ''unique'')" "\<not> is_ref_attribute boot_schema (kw ''db'' ''ident'')"
  by (simp_all add: is_ref_attribute_def boot_attributes card_one_attr_def)

lemma boot_put:
  "tx_op_put [(kw ''db'' ''id'', i), (kw ''db'' ''ident'', n), (kw ''db'' ''valueType'', t), (kw ''db'' ''cardinality'', c)] =
     Put [(kw ''db'' ''cardinality'', c), (kw ''db'' ''id'', i), (kw ''db'' ''ident'', n), (kw ''db'' ''valueType'', t)]"
  "tx_op_put [(kw ''db'' ''id'', i), (kw ''db'' ''ident'', n), (kw ''db'' ''valueType'', t), (kw ''db'' ''cardinality'', c),
       (kw ''db'' ''unique'', u)] =
     Put [(kw ''db'' ''cardinality'', c), (kw ''db'' ''id'', i), (kw ''db'' ''ident'', n), (kw ''db'' ''unique'', u),
       (kw ''db'' ''valueType'', t)]"
  by (simp_all add: tx_op_put_def kw_less_def kw_components_def kw_def)

lemma expand_boot_attribute:
  assumes "x = (ident, vt, cd, u)" and "map_of V1_IDENTS ident = Some e" and "map_of V1_IDENTS vt = Some t"
    and "map_of V1_IDENTS cd = Some c" and "\<And>y. u = Some y \<Longrightarrow> map_of V1_IDENTS y \<noteq> None"
  shows "\<exists>op. bootstrap_attribute_op x = Ok op \<and>
    (\<forall>ds rs i. expand_op boot_schema (ds, rs, i) op = Ok (ds @ map expanded_fact (boot_attribute_facts x), rs, i))"
proof (cases u)
  case None
  show ?thesis
    using assms(2,3,4) None
    by (auto simp: assms(1) bootstrap_attribute_op_def expect_def boot_put expand_op_def kw_eq_iff resolve_db_id_def
        resolve_value_def boot_refs boot_maps ok_or_def boot_attribute_facts_def built_in_def)
next
  case (Some y)
  then obtain q where "map_of V1_IDENTS y = Some q" using assms(5) by blast
  then show ?thesis
    using assms(2,3,4) Some
    by (auto simp: assms(1) bootstrap_attribute_op_def expect_def boot_put expand_op_def kw_eq_iff resolve_db_id_def
        resolve_value_def boot_refs boot_maps ok_or_def boot_attribute_facts_def built_in_def)
qed

lemma expand_boot_attributes:
  assumes "\<And>ident vt cd u. (ident, vt, cd, u) \<in> set xs \<Longrightarrow> map_of V1_IDENTS ident \<noteq> None \<and> map_of V1_IDENTS vt \<noteq> None \<and>
      map_of V1_IDENTS cd \<noteq> None \<and> (\<forall>y. u = Some y \<longrightarrow> map_of V1_IDENTS y \<noteq> None)"
  shows "\<exists>ops. rmapM bootstrap_attribute_op xs = Ok ops \<and>
    (\<forall>ds rs i. rfold (expand_op boot_schema) (ds, rs, i) ops =
       Ok (ds @ map expanded_fact (concat (map boot_attribute_facts xs)), rs, i))"
  using assms
proof (induction xs)
  case (Cons x xs)
  obtain ident vt cd u where x: "x = (ident, vt, cd, u)" by (cases x)
  have "map_of V1_IDENTS ident \<noteq> None \<and> map_of V1_IDENTS vt \<noteq> None \<and> map_of V1_IDENTS cd \<noteq> None \<and>
      (\<forall>y. u = Some y \<longrightarrow> map_of V1_IDENTS y \<noteq> None)" using Cons.prems [of ident vt cd u] x by simp
  then obtain op where op: "bootstrap_attribute_op x = Ok op"
    "\<And>ds rs i. expand_op boot_schema (ds, rs, i) op = Ok (ds @ map expanded_fact (boot_attribute_facts x), rs, i)"
    using expand_boot_attribute [OF x] by blast
  obtain ops where ops: "rmapM bootstrap_attribute_op xs = Ok ops"
    "\<And>ds rs i. rfold (expand_op boot_schema) (ds, rs, i) ops =
       Ok (ds @ map expanded_fact (concat (map boot_attribute_facts xs)), rs, i)"
    using Cons.IH Cons.prems by force
  show ?case using op ops by simp
qed simp

lemma expand_boot_names:
  "rfold (expand_op boot_schema) (ds, rs, i) (map (\<lambda>(ident, eid). Add (ERId eid) (kw ''db'' ''ident'') (DKeyword ident)) xs) =
     Ok (ds @ map expanded_fact (map (\<lambda>(ident, eid). (eid, kw ''db'' ''ident'', DKeyword ident)) xs), rs, i)"
proof (induction xs arbitrary: ds)
  case (Cons x xs)
  have "expand_op boot_schema (ds, rs, i) (Add (ERId e) (kw ''db'' ''ident'') (DKeyword k)) =
      Ok (ds @ [expanded_fact (e, kw ''db'' ''ident'', DKeyword k)], rs, i)" for ds e k
    by (simp add: expand_op_def resolve_entity_ref_def resolve_value_def boot_refs)
  with Cons show ?case by (cases x) simp
qed simp

lemma boot_schema_tx:
  "\<exists>ops. bootstrap_schema_tx = Ok ops \<and> expand_tx_ops_unresolved boot_schema ops = Ok (map expanded_fact boot_facts, [])"
proof -
  have "map_of V1_IDENTS ident \<noteq> None \<and> map_of V1_IDENTS vt \<noteq> None \<and>
      map_of V1_IDENTS cd \<noteq> None \<and> (\<forall>y. u = Some y \<longrightarrow> map_of V1_IDENTS y \<noteq> None)"
    if "(ident, vt, cd, u) \<in> set V1_ATTRIBUTES" for ident vt cd u
    using that by (auto simp: V1_ATTRIBUTES_def bootstrap_lookup)
  then obtain ops where ops: "rmapM bootstrap_attribute_op V1_ATTRIBUTES = Ok ops"
    "\<And>ds rs i. rfold (expand_op boot_schema) (ds, rs, i) ops =
       Ok (ds @ map expanded_fact (concat (map boot_attribute_facts V1_ATTRIBUTES)), rs, i)"
    using expand_boot_attributes [of V1_ATTRIBUTES] by blast
  show ?thesis
    using ops by (simp add: bootstrap_schema_tx_def expand_tx_ops_unresolved_def rfold_append expand_boot_names boot_facts_def)
qed

lemma boot_facts_attribute:
  "(e, a, v) \<in> set boot_facts \<Longrightarrow> a \<in> {kw ''db'' ''ident'', kw ''db'' ''valueType'', kw ''db'' ''cardinality'', kw ''db'' ''unique''}"
  by (auto simp: boot_facts_def boot_attribute_facts_def split: option.splits)

lemma boot_known: "\<forall>(e, a, v) \<in> set boot_facts. get_attribute boot_schema a \<noteq> None"
  using boot_facts_attribute boot_attributes by fastforce

text \<open>Datoms without references and temporary ids pass through unchanged.\<close>

lemma resolve_concrete_refs:
  "rmapM (resolve_datom_refs m) (map expanded_fact fs) =
     Ok (map concrete_fact fs)"
  by (induction fs) (auto simp: resolve_datom_refs_def)

lemma no_lookups:
  "all_lookups (map expanded_fact fs) [] = []"
  by (auto simp: all_lookups_def datom_lookups_def)

lemma expand_concrete:
  assumes "expand_tx_ops_unresolved s tx_ops =
     Ok (map expanded_fact fs, [])"
  shows "expand_tx_ops ops n ts db s tx_ops =
     Ok (map concrete_fact fs)"
  by (simp add: expand_tx_ops_def assms resolve_lookup_refs_def no_lookups resolve_concrete_refs Let_def
      batch_lookup_unique_eids_def lookup_prefixes_def bt_of_def batch_lookup_active_entity_datoms_def)

lemma generation_concrete:
  assumes "\<forall>(e, a, v) \<in> set fs. get_attribute s a \<noteq> None"
  shows "rfold (generation_step s) (g, inert)
      (map concrete_fact fs) =
    Ok (g, inert @ map fact_datom fs)"
  using assms
proof (induction fs arbitrary: inert)
  case (Cons f fs)
  then show ?case
    by (cases f) (auto simp: generation_step_def datom_with_entid_attr_def ok_or_def fact_datom_def Let_def)
qed simp

lemma resolve_concrete:
  assumes "\<forall>(e, a, v) \<in> set fs. get_attribute s a \<noteq> None"
  shows "resolve_tempids ops n ts
      (map concrete_fact fs) s db pm =
    Ok (map fact_datom fs, pm)"
proof -
  have l: "temp_ids_in_allocations empty_generation s = Ok []"
    by (simp add: temp_ids_in_allocations_def empty_generation_def btree_set_def uf_new_def Let_def)
  have e: "\<not> can_evolve empty_generation" by (simp add: can_evolve_def empty_generation_def)
  have a: "allocate_unresolved_upserts empty_generation s = Ok empty_generation"
    by (simp add: allocate_unresolved_upserts_def empty_generation_def)
  show ?thesis
    using l e a
    by (simp add: resolve_tempids_def generation_from_def generation_concrete [OF assms] allocation_partitions_def
        assign_labels_def into_final_populations_def Let_def) (simp add: empty_generation_def)
qed

lemma bootstrap_datoms_eq: "bootstrap_datoms ops n ts db boot_schema = Ok boot_datoms"
proof -
  obtain tx_ops where t: "bootstrap_schema_tx = Ok tx_ops"
    and x: "expand_tx_ops_unresolved boot_schema tx_ops = Ok (map expanded_fact boot_facts, [])" using boot_schema_tx by blast
  show ?thesis
    by (simp add: bootstrap_datoms_def t unwrap_def expect_ok_def expand_concrete [OF x] resolve_concrete [OF boot_known] boot_datoms_def)
qed

section \<open>The schema read back from the first transaction\<close>

definition boot_names :: "(keyword \<times> entid) list" where
  "boot_names = map (\<lambda>x. (fst x, built_in (fst x))) V1_ATTRIBUTES @
     filter (\<lambda>(ident, _). ident \<notin> set (map fst V1_ATTRIBUTES)) V1_IDENTS"

lemma map_of_filter_key: "k \<notin> A \<Longrightarrow> map_of (filter (\<lambda>(i, _). i \<notin> A) xs) k = map_of xs k"
  by (induction xs) auto

lemma V1_ATTRIBUTES_distinct: "distinct (map fst V1_ATTRIBUTES)"
  by (simp add: V1_ATTRIBUTES_def kw_eq_iff)

lemma V1_ATTRIBUTES_named: "i \<in> set (map fst V1_ATTRIBUTES) \<Longrightarrow> map_of V1_IDENTS i = Some (built_in i)"
  by (auto simp: V1_ATTRIBUTES_def built_in_def bootstrap_lookup)

lemma boot_names_distinct: "distinct (map fst boot_names)"
proof -
  let ?P = "\<lambda>x::keyword \<times> entid. fst x \<notin> set (map fst V1_ATTRIBUTES)"
  have "distinct (map fst (filter ?P V1_IDENTS))" using V1_distinct(1) by (rule distinct_map_filter)
  then show ?thesis
    using V1_ATTRIBUTES_distinct unfolding boot_names_def by (force simp: comp_def case_prod_unfold)
qed

lemma boot_names_eq: "map_of boot_names = map_of V1_IDENTS"
proof
  fix k
  let ?ids = "map fst V1_ATTRIBUTES"
  have at: "map_of (map (\<lambda>x. (fst x, built_in (fst x))) V1_ATTRIBUTES) = (Some \<circ> built_in) |` set ?ids"
    using map_of_map_restrict [of built_in ?ids] by (simp add: comp_def)
  show "map_of boot_names k = map_of V1_IDENTS k"
  proof (cases "k \<in> set ?ids")
    case True
    then show ?thesis
      using V1_ATTRIBUTES_named [OF True]
      by (auto simp: boot_names_def map_of_append at map_add_def restrict_map_def map_of_eq_None_iff split: option.split)
  next
    case False
    then show ?thesis
      using map_of_filter_key [OF False, of V1_IDENTS]
      by (simp add: boot_names_def map_of_append at map_add_def restrict_map_def split: option.split)
  qed
qed

definition boot_builder :: "value_type \<Rightarrow> unique option \<Rightarrow> attribute_builder" where
  "boot_builder vt u = \<lparr>b_value_type = Some vt, b_multival = Some False, b_unique = map_option Some u\<rparr>"

lemma kw_db_components: "kw_components (kw ''db'' n) = (''db'', n)"
  by (simp add: kw_components_def kw_def)

lemma hm_modify_fresh: "k \<notin> fst ` set m \<Longrightarrow> hm_modify k d f m = m @ [(k, f d)]"
  by (induction m) auto

lemma hm_modify_last: "k \<notin> fst ` set m \<Longrightarrow> hm_modify k d f (m @ [(k, v)]) = m @ [(k, f v)]"
  by (induction m) auto

lemma schema_step_boot_attribute:
  assumes "built_in ident \<notin> fst ` set bs" and "\<not> isl (vt_from_entity_id (built_in vt))"
    and "built_in cd = DB_CARDINALITY_ONE" and "case u of None \<Rightarrow> True | Some i \<Rightarrow> \<not> isl (unique_from_entity_id (built_in i))"
  shows "rfold (schema_datom_step empty_schema) (ids, bs) (map fact_datom (boot_attribute_facts (ident, vt, cd, u))) =
    Ok (ids @ [(built_in ident, ident)], bs @ [(built_in ident, boot_builder (projr (vt_from_entity_id (built_in vt)))
      (map_option (\<lambda>i. projr (unique_from_entity_id (built_in i))) u))])"
  using assms
  by (cases u; cases "vt_from_entity_id (built_in vt)"; cases "unique_from_entity_id (built_in (the u))")
    (auto simp: boot_attribute_facts_def fact_datom_def schema_datom_step_def Let_def is_schema_attribute_def
      kw_db_components is_schema_entity_def empty_schema_def long_ref_def hm_modify_fresh hm_modify_last
      card_from_entity_id_def boot_builder_def empty_builder_def db_id_defs)

lemma schema_step_boot_names:
  "rfold (schema_datom_step empty_schema) (ids, bs) (map fact_datom (map (\<lambda>(ident, eid). (eid, kw ''db'' ''ident'', DKeyword ident)) xs)) =
    Ok (ids @ map prod.swap xs, bs)"
proof (induction xs arbitrary: ids)
  case (Cons x xs)
  have "schema_datom_step empty_schema (ids, bs) (fact_datom (e, kw ''db'' ''ident'', DKeyword k)) = Ok (ids @ [(e, k)], bs)" for ids e k
    by (simp add: fact_datom_def schema_datom_step_def Let_def is_schema_attribute_def kw_db_components is_schema_entity_def
        empty_schema_def)
  with Cons show ?case by (cases x) simp
qed simp

lemma schema_step_other:
  assumes "\<forall>d \<in> set ds. \<not> is_schema_attribute (d_attribute d)"
  shows "rfold (schema_datom_step s) st ds = Ok st"
  using assms by (induction ds) (auto simp: schema_datom_step_def Let_def split: prod.splits)

definition boot_builders :: builders where
  "boot_builders =
     [(DB_IDENT, boot_builder VT_Keyword (Some U_Identity)), (DB_VALUE_TYPE, boot_builder VT_Ref None),
      (DB_CARDINALITY, boot_builder VT_Ref None), (DB_UNIQUE, boot_builder VT_Ref None),
      (DB_TX_INSTANT, boot_builder VT_Instant None), (DB_TX_ID, boot_builder VT_Long None),
      (DB_TX_RESULT, boot_builder VT_Ref None), (DB_TX_ERROR, boot_builder VT_String None)]"

lemma built_ins:
  "built_in (kw ''db'' ''ident'') = DB_IDENT" "built_in (kw ''db'' ''valueType'') = DB_VALUE_TYPE"
  "built_in (kw ''db'' ''cardinality'') = DB_CARDINALITY" "built_in (kw ''db'' ''unique'') = DB_UNIQUE"
  "built_in (kw ''db'' ''txInstant'') = DB_TX_INSTANT" "built_in (kw ''db'' ''txId'') = DB_TX_ID"
  "built_in (kw ''db'' ''txResult'') = DB_TX_RESULT" "built_in (kw ''db'' ''txError'') = DB_TX_ERROR"
  "built_in (kw ''db.type'' ''keyword'') = DB_TYPE_KEYWORD" "built_in (kw ''db.type'' ''ref'') = DB_TYPE_REF"
  "built_in (kw ''db.type'' ''instant'') = DB_TYPE_INSTANT" "built_in (kw ''db.type'' ''long'') = DB_TYPE_LONG"
  "built_in (kw ''db.type'' ''string'') = DB_TYPE_STRING" "built_in (kw ''db.cardinality'' ''one'') = DB_CARDINALITY_ONE"
  "built_in (kw ''db.unique'' ''identity'') = DB_UNIQUE_IDENTITY"
  by (simp_all add: built_in_def bootstrap_lookup)

lemma db_type_ids:
  "vt_from_entity_id DB_TYPE_KEYWORD = Ok VT_Keyword" "vt_from_entity_id DB_TYPE_REF = Ok VT_Ref"
  "vt_from_entity_id DB_TYPE_INSTANT = Ok VT_Instant" "vt_from_entity_id DB_TYPE_LONG = Ok VT_Long"
  "vt_from_entity_id DB_TYPE_STRING = Ok VT_String" "unique_from_entity_id DB_UNIQUE_IDENTITY = Ok U_Identity"
  by (simp_all add: vt_from_entity_id_def unique_from_entity_id_def db_id_defs)

lemma schema_step_boot_attributes:
  "rfold (schema_datom_step empty_schema) ([], []) (map fact_datom (concat (map boot_attribute_facts V1_ATTRIBUTES))) =
     Ok (map (\<lambda>x. (built_in (fst x), fst x)) V1_ATTRIBUTES, boot_builders)"
proof -
  have ne: "DB_VALUE_TYPE \<noteq> DB_IDENT \<and> DB_CARDINALITY \<notin> {DB_IDENT, DB_VALUE_TYPE} \<and> DB_UNIQUE \<notin> {DB_IDENT, DB_VALUE_TYPE, DB_CARDINALITY} \<and>
      DB_TX_INSTANT \<notin> {DB_IDENT, DB_VALUE_TYPE, DB_CARDINALITY, DB_UNIQUE} \<and>
      DB_TX_ID \<notin> {DB_IDENT, DB_VALUE_TYPE, DB_CARDINALITY, DB_UNIQUE, DB_TX_INSTANT} \<and>
      DB_TX_RESULT \<notin> {DB_IDENT, DB_VALUE_TYPE, DB_CARDINALITY, DB_UNIQUE, DB_TX_INSTANT, DB_TX_ID} \<and>
      DB_TX_ERROR \<notin> {DB_IDENT, DB_VALUE_TYPE, DB_CARDINALITY, DB_UNIQUE, DB_TX_INSTANT, DB_TX_ID, DB_TX_RESULT}"
    by (simp add: db_id_defs)
  show ?thesis
    using ne
    by (simp add: V1_ATTRIBUTES_def rfold_append schema_step_boot_attribute built_ins db_type_ids boot_builders_def)
qed

lemma boot_update:
  "\<exists>u. prepare_schema_update empty_schema boot_datoms = Ok u \<and> ident_map (apply_schema_update empty_schema u) = ident_map boot_schema \<and>
    attribute_map (apply_schema_update empty_schema u) = attribute_map boot_schema"
proof -
  let ?tx = "build_tx_entity_datoms BOOTSTRAP_TX_EID BOOTSTRAP_TX_KEY True None"
  have "\<forall>d \<in> set ?tx. \<not> is_schema_attribute (d_attribute d)"
    by (auto simp: build_tx_entity_datoms_def Let_def is_schema_attribute_def kw_db_components)
  moreover have "map prod.swap boot_names = map (\<lambda>x. (built_in (fst x), fst x)) V1_ATTRIBUTES @
      map prod.swap (filter (\<lambda>(ident, _). ident \<notin> set (map fst V1_ATTRIBUTES)) V1_IDENTS)"
    by (simp add: boot_names_def comp_def)
  ultimately have run: "rfold (schema_datom_step empty_schema) ([], []) boot_datoms = Ok (map prod.swap boot_names, boot_builders)"
    by (simp add: boot_datoms_def boot_facts_def rfold_append schema_step_boot_attributes schema_step_boot_names
        schema_step_other del: map_map)
  let ?u = "\<lparr>u_idents = map prod.swap boot_names,
    u_attributes = map (\<lambda>(e, b). (e, card_one_attr (the (b_value_type b)) (Option.bind (b_unique b) (\<lambda>x. x)))) boot_builders\<rparr>"
  have u: "prepare_schema_update empty_schema boot_datoms = Ok ?u"
    by (simp add: prepare_schema_update_def run boot_builders_def boot_builder_def validate_install_attribute_def build_attribute_def
        card_one_attr_def)
  have "ident_map (apply_schema_update empty_schema ?u) = map_of (rev boot_names)"
    by (simp add: apply_schema_update_maps comp_def empty_schema_def rev_map)
  then have "ident_map (apply_schema_update empty_schema ?u) = ident_map boot_schema"
    by (simp add: map_of_rev_distinct [OF boot_names_distinct] boot_names_eq boot_maps)
  moreover have "attribute_map (apply_schema_update empty_schema ?u) = attribute_map boot_schema"
    by (simp add: apply_schema_update_maps empty_schema_def boot_maps bootstrap_attributes_def boot_builders_def boot_builder_def
        db_id_defs)
  ultimately show ?thesis using u by blast
qed

section \<open>The invariant after the first transaction\<close>

lemma boot_facts_ident:
  "(e, kw ''db'' ''ident'', v) \<in> set boot_facts \<longleftrightarrow> (\<exists>k. v = DKeyword k \<and> map_of V1_IDENTS k = Some e)"
proof -
  have "(e, kw ''db'' ''ident'', v) \<in> set boot_facts \<longleftrightarrow> (\<exists>k. v = DKeyword k \<and> (k, e) \<in> set boot_names)"
    by (force simp: boot_facts_def boot_names_def boot_attribute_facts_def kw_eq_iff split: option.splits)
  then show ?thesis
    using map_of_eq_Some_iff [OF boot_names_distinct] by (simp add: boot_names_eq)
qed

lemma V1_ATTRIBUTES_boot:
  "\<forall>(ident, vt, cd, u) \<in> set V1_ATTRIBUTES.
    (case bootstrap_attributes (built_in ident) of None \<Rightarrow> False | Some attr \<Rightarrow> built_in vt = vt_entity_id (a_value_type attr)) \<and>
    built_in cd = DB_CARDINALITY_ONE \<and> (u = None \<or> built_in (the u) = DB_UNIQUE_IDENTITY)"
  by (simp add: V1_ATTRIBUTES_def built_ins bootstrap_attributes_def card_one_attr_def vt_entity_id_def db_id_defs)

lemma boot_facts_schema:
  assumes "(e, a, v) \<in> set boot_facts" and "a \<noteq> kw ''db'' ''ident''"
  shows "\<exists>attr. bootstrap_attributes e = Some attr \<and> (\<exists>k. map_of V1_IDENTS k = Some e) \<and>
    (a = kw ''db'' ''valueType'' \<and> v = DLong (vt_entity_id (a_value_type attr)) \<or>
     a = kw ''db'' ''cardinality'' \<and> v = DLong DB_CARDINALITY_ONE \<or>
     a = kw ''db'' ''unique'' \<and> v = DLong DB_UNIQUE_IDENTITY)"
proof -
  have "(e, a, v) \<in> set (concat (map boot_attribute_facts V1_ATTRIBUTES))"
    using assms by (auto simp: boot_facts_def)
  then obtain x where x: "x \<in> set V1_ATTRIBUTES" "(e, a, v) \<in> set (boot_attribute_facts x)" by auto
  have "map_of V1_IDENTS (fst x) = Some (built_in (fst x))" using V1_ATTRIBUTES_named x(1) by simp
  moreover have "e = built_in (fst x)" using x(2) by (cases x) (auto simp: boot_attribute_facts_def split: option.splits)
  ultimately have k: "\<exists>k. map_of V1_IDENTS k = Some e" by blast
  obtain ident vt cd u where i: "x = (ident, vt, cd, u)" by (cases x)
  have "(case bootstrap_attributes (built_in ident) of None \<Rightarrow> False | Some attr \<Rightarrow> built_in vt = vt_entity_id (a_value_type attr)) \<and>
      built_in cd = DB_CARDINALITY_ONE \<and> (u = None \<or> built_in (the u) = DB_UNIQUE_IDENTITY)"
    using V1_ATTRIBUTES_boot x(1) unfolding i by blast
  then show ?thesis
    using x(2) assms(2) k unfolding i
    by (auto simp: boot_attribute_facts_def split: option.splits)
qed

lemma of_char_ascii: "\<not> digit7 c \<Longrightarrow> of_char c \<le> (0x7F :: u8)"
  by (cases c) (auto simp: of_char_def horner_sum_simps of_bool_def word_le_nat_alt)

lemma ascii_str_wf: "list_all (\<lambda>c. \<not> digit7 c) s \<Longrightarrow> str_wf s"
  by (induction s) (auto simp: str_wf_def as_bytes_def of_char_ascii)

lemma ascii_keyword_good:
  "list_all (\<lambda>c. \<not> digit7 c) ns \<Longrightarrow> list_all (\<lambda>c. \<not> digit7 c) n \<Longrightarrow> ns \<noteq> [] \<Longrightarrow> n \<noteq> [] \<Longrightarrow> good okt (DKeyword (kw ns n))"
  by (auto simp: good_def dt_refl_def kw_str_wf_def kw_wf_def kw_components_def ascii_str_wf kw_def nth_append)

lemma V1_IDENTS_good: "\<forall>(k, e) \<in> set V1_IDENTS. good okt (DKeyword k)"
  by (simp add: V1_IDENTS_def ascii_keyword_good)

lemma V1_IDENTS_small: "\<forall>(k, e) \<in> set V1_IDENTS. uint e < 1000"
  by (simp add: V1_IDENTS_def db_id_defs)

lemma small_canonical: "uint e < 1000 \<Longrightarrow> canonical e"
  unfolding canonical_def
  by (intro exI [of _ DB_PARTITION] exI [of _ e])
    (simp add: make_entity_id_def DB_PARTITION_def sint_small COUNTER_MASK_def)

lemma V1_inj: "map_of V1_IDENTS k = Some e \<Longrightarrow> map_of V1_IDENTS k' = Some e \<Longrightarrow> k = k'"
  using V1_distinct(2) by (metis map_of_SomeD eq_key_imp_eq_value map_of_eq_Some_iff distinct_map inj_onD snd_conv prod.inject)

lemma boot_eid: "make_entity_id TX_PARTITION 0 = Ok BOOTSTRAP_TX_EID"
  by (simp add: make_entity_id_def TX_PARTITION_def BOOTSTRAP_TX_EID_def COUNTER_MASK_def)

lemma boot_facts_good:
  assumes "(e, a, v) \<in> set boot_facts"
  shows "uint e < 1000" and "good okt v" and "\<exists>aid attr. get_attribute boot_schema a = Some (aid, attr) \<and> vt_matches (a_value_type attr) v"
proof -
  have "\<exists>k. map_of V1_IDENTS k = Some e"
    using assms boot_facts_ident boot_facts_schema by (cases "a = kw ''db'' ''ident''") blast+
  then show "uint e < 1000" using V1_IDENTS_small by (auto dest: map_of_SomeD)
  show "good okt v"
    using assms boot_facts_ident [of e v] boot_facts_schema [OF assms] V1_IDENTS_good [of okt]
    by (cases "a = kw ''db'' ''ident''") (auto dest!: map_of_SomeD)
  show "\<exists>aid attr. get_attribute boot_schema a = Some (aid, attr) \<and> vt_matches (a_value_type attr) v"
    using assms boot_facts_ident [of e v] boot_facts_schema [OF assms]
    by (cases "a = kw ''db'' ''ident''") (auto simp: boot_attributes card_one_attr_def vt_matches_def value_type_of_def)
qed

lemma boot_facts_functional:
  assumes "(e, a, v) \<in> set boot_facts" and "(e, a, w) \<in> set boot_facts"
  shows "v = w"
proof (cases "a = kw ''db'' ''ident''")
  case True
  then show ?thesis using assms boot_facts_ident V1_inj by metis
next
  case False
  then show ?thesis using boot_facts_schema [OF assms(1) False] boot_facts_schema [OF assms(2) False] by (auto simp: kw_eq_iff)
qed

lemma boot_datom_cases:
  assumes "d \<in> set boot_datoms"
  obtains e a v where "(e, a, v) \<in> set boot_facts" "d = fact_datom (e, a, v)"
  | "d \<in> set (build_tx_entity_datoms BOOTSTRAP_TX_EID BOOTSTRAP_TX_KEY True None)"
  using assms by (auto simp: boot_datoms_def)

lemma boot_core: "schema_core boot_schema"
  by (simp add: schema_core_def core_attributes_def boot_attributes)

lemma boot_name: "get_attribute boot_schema k = Some (a, attr) \<Longrightarrow> get_attribute boot_schema k' = Some (a, attr') \<Longrightarrow> k = k'"
  using V1_inj by (auto simp: get_attribute_Some boot_maps)

lemma boot_tx_entity: "\<not> uint BOOTSTRAP_TX_EID < 1000"
  by (simp add: BOOTSTRAP_TX_EID_def TX_PARTITION_def COUNTER_BITS_def)

lemma boot_datoms_ok:
  assumes "d \<in> set boot_datoms" and "okt 0"
  shows "canonical (d_entity d)" and "good okt (d_value d)" and "d_op d = Assert_op"
    and "\<exists>aid attr. get_attribute boot_schema (d_attribute d) = Some (aid, attr) \<and> vt_matches (a_value_type attr) (d_value d)"
proof -
  have key: "tx_key_ok okt BOOTSTRAP_TX_KEY" using assms(2) by (simp add: tx_key_ok_def BOOTSTRAP_TX_KEY_def instant_wf_def)
  have tx: "canonical BOOTSTRAP_TX_EID"
    using boot_eid unfolding canonical_def by (intro exI [of _ TX_PARTITION] exI [of _ 0]) simp
  have "canonical (d_entity d) \<and> good okt (d_value d) \<and> d_op d = Assert_op \<and>
    (\<exists>aid attr. get_attribute boot_schema (d_attribute d) = Some (aid, attr) \<and> vt_matches (a_value_type attr) (d_value d))"
    using assms(1)
  proof (cases rule: boot_datom_cases)
    case (1 e a v)
    then show ?thesis using small_canonical boot_facts_good [OF 1(1)] by (simp add: fact_datom_def)
  next
    case 2
    note t = tx_entity_datoms_good [OF key 2]
    obtain a vt where "get_attribute boot_schema (d_attribute d) = Some (a, card_one_attr vt None)" "vt_matches vt (d_value d)"
      using tx_entity_attribute [OF boot_core 2] by blast
    then show ?thesis using t tx by (simp add: card_one_attr_def)
  qed
  then show "canonical (d_entity d)" "good okt (d_value d)" "d_op d = Assert_op"
    "\<exists>aid attr. get_attribute boot_schema (d_attribute d) = Some (aid, attr) \<and> vt_matches (a_value_type attr) (d_value d)"
    by blast+
qed

lemma boot_datoms_functional:
  assumes "d \<in> set boot_datoms" and "d' \<in> set boot_datoms" and "d_entity d' = d_entity d" and "d_attribute d' = d_attribute d"
  shows "d = d'"
proof -
  have ent: "d_entity x = BOOTSTRAP_TX_EID" if "x \<in> set (build_tx_entity_datoms BOOTSTRAP_TX_EID BOOTSTRAP_TX_KEY True None)" for x
    using that by (auto simp: build_tx_entity_datoms_def Let_def)
  have fact: "uint (d_entity x) < 1000" if "(e, a, v) \<in> set boot_facts" "x = fact_datom (e, a, v)" for x e a v
    using boot_facts_good(1) [OF that(1)] that(2) by (simp add: fact_datom_def)
  show ?thesis
    using assms(1)
  proof (cases rule: boot_datom_cases)
    case (1 e a v)
    then obtain f b w where 2: "(f, b, w) \<in> set boot_facts" "d' = fact_datom (f, b, w)"
      using assms(2,3) fact [OF 1] ent boot_tx_entity by (metis boot_datom_cases)
    then show ?thesis using 1 assms(3,4) boot_facts_functional by (auto simp: fact_datom_def)
  next
    case 2
    then have "d' \<in> set (build_tx_entity_datoms BOOTSTRAP_TX_EID BOOTSTRAP_TX_KEY True None)"
      using assms(2,3) fact ent boot_tx_entity by (metis boot_datom_cases)
    then show ?thesis using 2 assms(4) tx_entity_functional by metis
  qed
qed

lemma boot_valid: "valid_datoms boot_schema boot_datoms"
  unfolding valid_datoms_def
proof
  fix d
  assume d: "d \<in> set boot_datoms"
  obtain aid attr where g: "get_attribute boot_schema (d_attribute d) = Some (aid, attr)" "vt_matches (a_value_type attr) (d_value d)"
    using boot_datoms_ok(4) [OF d, of "\<lambda>_. True"] by blast
  have "(if d_op d' = Assert_op then d_value d' = d_value d else d_value d' \<noteq> d_value d)"
    if "d' \<in> set boot_datoms" "get_attribute boot_schema (d_attribute d') = Some (aid, attr)" "d_entity d' = d_entity d" for d'
    using boot_datoms_functional [OF d that(1)] boot_name [OF that(2) g(1)] that boot_datoms_ok(3) [OF that(1), of "\<lambda>_. True"] by simp
  then show "case get_attribute boot_schema (d_attribute d) of None \<Rightarrow> False
      | Some (aid, attr) \<Rightarrow> vt_matches (a_value_type attr) (d_value d) \<and>
          (\<forall>d' \<in> set boot_datoms. get_attribute boot_schema (d_attribute d') = Some (aid, attr) \<and>
             d_entity d' = d_entity d \<and> \<not> a_multival attr \<and> d_op d = Assert_op \<longrightarrow>
             (if d_op d' = Assert_op then d_value d' = d_value d else d_value d' \<noteq> d_value d))"
    using g by simp
qed

definition boot_versions :: "version set" where
  "boot_versions = datom_version boot_schema BOOTSTRAP_TX_EID ` set boot_datoms"

lemma boot_attribute_known: "\<forall>d \<in> set boot_datoms. get_attribute boot_schema (d_attribute d) \<noteq> None"
  using boot_datoms_ok(4) [of _ "\<lambda>_. True"] by fastforce

lemma boot_live: "live boot_versions e a v \<longleftrightarrow> asserted boot_schema boot_datoms e a v"
proof -
  have "\<not> live {} e a v" using live_mem by blast
  then show ?thesis
    using live_commit(2) [of "{}" BOOTSTRAP_TX_EID boot_datoms boot_schema e a v] boot_attribute_known
    by (simp add: boot_versions_def ops_wf_def)
qed

lemma boot_asserted_ident:
  "asserted boot_schema boot_datoms e DB_IDENT v \<longleftrightarrow> (\<exists>k. v = DKeyword k \<and> map_of V1_IDENTS k = Some e)"
proof -
  have a: "get_attribute boot_schema k = Some (DB_IDENT, attr) \<longleftrightarrow>
      k = kw ''db'' ''ident'' \<and> attr = card_one_attr VT_Keyword (Some U_Identity)" for k attr
    using boot_name [of k DB_IDENT attr "kw ''db'' ''ident''"] boot_attributes(1) by auto
  have "d \<in> set boot_datoms \<and> d_attribute d = kw ''db'' ''ident'' \<longleftrightarrow>
      (\<exists>e v. d = fact_datom (e, kw ''db'' ''ident'', v) \<and> (e, kw ''db'' ''ident'', v) \<in> set boot_facts)" for d
    by (auto simp: boot_datoms_def fact_datom_def build_tx_entity_datoms_def Let_def kw_eq_iff image_iff)
  then show ?thesis
    unfolding asserted_def a boot_facts_ident [symmetric]
    by (auto simp: fact_datom_def) (metis datom.select_convs)+
qed

lemma boot_names_mirror: "names_mirror boot_schema boot_versions"
proof -
  have "map_of (map prod.swap V1_IDENTS) e = Some k \<longleftrightarrow> map_of V1_IDENTS k = Some e" for k e
    using V1_distinct by (simp add: map_of_eq_Some_iff comp_def)
  then show ?thesis by (simp add: names_mirror_def boot_maps boot_live boot_asserted_ident)
qed

lemma boot_unique: "unique_attr boot_schema a \<longleftrightarrow> a = DB_IDENT"
  by (auto simp: unique_attr_def boot_maps bootstrap_attributes_def card_one_attr_def db_id_defs split: if_splits)

lemma boot_facts_inv:
  assumes okt: "okt 0" and pm: "pm_wf pm" "\<forall>d \<in> set boot_datoms. contains_entid pm (d_entity d)"
  shows "facts_inv okt boot_schema pm boot_versions"
proof -
  have "\<not> live {} e a v" for e a v using live_mem by blast
  then have "replaced boot_schema {} d = {d}" if "d \<in> set boot_datoms" for d
    using that boot_datoms_ok(3) [OF that, of okt] okt by (auto simp: replaced_def split: option.splits)
  then have c: "commits okt boot_schema pm {} boot_datoms boot_datoms"
    using boot_valid boot_datoms_ok(2) okt pm(2) by (auto simp: commits_def)
  have e: "versions_ok okt boot_schema pm {}" by (simp add: versions_ok_def)
  have one: "one_value boot_schema boot_versions"
    using commits_one_value [OF c e, of BOOTSTRAP_TX_EID] live_mem by (force simp: boot_versions_def one_value_def)
  have owner: "one_owner boot_schema boot_versions"
    by (auto simp: one_owner_def boot_unique boot_live boot_asserted_ident)
  let ?tx = "hd (build_tx_entity_datoms BOOTSTRAP_TX_EID BOOTSTRAP_TX_KEY True None)"
  have "?tx \<in> set boot_datoms" "d_entity ?tx = BOOTSTRAP_TX_EID"
    by (simp_all add: boot_datoms_def build_tx_entity_datoms_def Let_def)
  then have "contains_entid pm BOOTSTRAP_TX_EID" using pm(2) by force
  then have tx: "\<exists>c. make_entity_id TX_PARTITION c = Ok BOOTSTRAP_TX_EID \<and> contains_entid pm BOOTSTRAP_TX_EID"
    using boot_eid by blast
  have "named_attr boot_schema (fst (the (get_attribute boot_schema (d_attribute d))))" if "d \<in> set boot_datoms" for d
    using boot_datoms_ok(4) [OF that, of okt] okt unfolding named_attr_def by force
  then have "versions_ok okt boot_schema pm boot_versions"
    using boot_datoms_ok okt pm(2) tx by (auto simp: versions_ok_def boot_versions_def datom_version_def op_byte_def)
  then show ?thesis
    using one owner boot_names_mirror boot_core pm(1) by (simp add: facts_inv_def boot_versions_def)
qed

lemma index_state_other:
  assumes "index_state (\<lambda>S. S) K s R" and "keys db = insert k K" and "\<And>it. \<not> prefix [index_byte it] k"
  shows "index_state keys db s R"
proof -
  have "{x \<in> keys db. prefix [index_byte it] x} = {x \<in> K. prefix [index_byte it] x}" for it
    using assms(2,3) by auto
  then show ?thesis using assms(1) by (simp add: index_state_def)
qed

lemma index_state_eav: "index_state keys db s R \<Longrightarrow> {k \<in> keys db. prefix [EAV] k} = version_key EAV_index ` R"
  using spec [of "\<lambda>it. {k \<in> keys db. prefix [index_byte it] k} = version_key it ` indexed s it R" EAV_index]
  by (simp add: index_state_def indexed_single index_byte_def)

lemma version_key_no_index: "\<not> prefix [index_byte it] version_key_bytes"
  by (cases it) (simp_all add: index_byte_def version_key_bytes_def META_INDEX_def concat_bytes_def index_defs)

lemma boot_tx_counter:
  assumes "(e, a, v, tx, op) \<in> boot_versions" and "extract_partition e = TX_PARTITION"
  shows "extract_counter e = 0"
proof -
  obtain d where d: "d \<in> set boot_datoms" "d_entity d = e" using assms(1) by (auto simp: boot_versions_def datom_version_def)
  from d(1) show ?thesis
  proof (cases rule: boot_datom_cases)
    case (1 f b w)
    then have "uint e < 1000" using boot_facts_good(1) d(2) by (force simp: fact_datom_def)
    then have "make_entity_id DB_PARTITION e = Ok e" by (simp add: make_entity_id_def DB_PARTITION_def sint_small COUNTER_MASK_def)
    then show ?thesis using extract_make assms(2) by (auto simp: partition_defs)
  next
    case 2
    then have "e = BOOTSTRAP_TX_EID" using d(2) by (auto simp: build_tx_entity_datoms_def Let_def)
    then show ?thesis using extract_make boot_eid by simp
  qed
qed

lemma unwrap_Ok [simp]: "unwrap (Ok x) = Ok x"
  by (simp add: unwrap_def expect_ok_def)

lemma init_db_fresh_ok:
  assumes law: "slate_law ops keys rest lk" and okt: "okt 0" and empty: "keys db = {}" and new: "db_has db version_key_bytes = Ok False"
  shows "\<exists>m db'. init_db ops n ts db_has rows db = Ok (m, db') \<and> m_schema m = boot_schema \<and> version_key_bytes \<in> keys db' \<and>
    db_inv keys okt boot_versions (indexer_new db' m BOOTSTRAP_TX_KEY) \<and> sint (or_insert (m_partition_map m) TX_PARTITION 0) \<le> 1"
proof -
  have v: "validate_datoms boot_schema boot_datoms = Ok True"
  proof -
    have "\<exists>d \<in> set boot_datoms. is_schema_attribute (d_attribute d)"
      using boot_facts_ident [of DB_IDENT "DKeyword (kw ''db'' ''ident'')"] bootstrap_lookup(1)
      by (force simp: boot_datoms_def fact_datom_def is_schema_attribute_def kw_db_components)
    moreover have "\<forall>d \<in> set boot_datoms. dt_refl (d_value d)" using boot_datoms_ok(2) [of _ "\<lambda>_. True"] by (auto simp: good_def)
    ultimately show ?thesis by (simp add: validate_datoms_iff boot_valid)
  qed
  obtain u where u: "prepare_schema_update empty_schema boot_datoms = Ok u"
    "ident_map (apply_schema_update empty_schema u) = ident_map boot_schema"
    "attribute_map (apply_schema_update empty_schema u) = attribute_map boot_schema" using boot_update by blast
  obtain batch where b: "write_index_entries [] boot_datoms boot_schema BOOTSTRAP_TX_EID = Ok batch"
    using write_index_entries_total boot_attribute_known by blast
  obtain db' where db': "db_write ops db (batch @ [version_key_bytes]) = Ok db'" "keys db' = insert version_key_bytes (set batch)"
    using slate_write [OF law, of db "batch @ [version_key_bytes]"] empty by auto
  have "index_state (\<lambda>S. S) {} boot_schema {}" by (simp add: index_state_def)
  from index_state_write [OF this b] have "index_state (\<lambda>S. S) (set batch) boot_schema boot_versions" by (simp add: boot_versions_def)
  then have ix: "index_state keys db' boot_schema boot_versions" using index_state_other db'(2) version_key_no_index by metis
  then have eav: "{k \<in> keys db'. prefix [EAV] k} = version_key EAV_index ` boot_versions"
    by (rule index_state_eav)
  have can: "\<forall>(e, a, v, tx, op) \<in> boot_versions. canonical e"
    using boot_datoms_ok(1) [of _ "\<lambda>_. True"] by (auto simp: boot_versions_def datom_version_def)
  obtain pm where pm: "scan_partition_counters ops ts db' = Ok pm" "pm_wf pm" "\<forall>(e, a, v, tx, op) \<in> boot_versions. contains_entid pm e"
    and least: "\<forall>part m. pm part = Some m \<longrightarrow> m = 0 \<or> (part = DB_PARTITION \<and> m = DB_PARTITION_COUNTER_FLOOR) \<or>
       (\<exists>(e, a, v, tx, op) \<in> boot_versions. extract_partition e = part \<and> m = extract_counter e + 1)"
    using scan_partition_counters_ok [OF law eav can, of ts] by (elim exE conjE) (rule that)
  have "\<forall>d \<in> set boot_datoms. contains_entid pm (d_entity d)"
    using pm(3) by (auto simp: boot_versions_def datom_version_def)
  then have "facts_inv okt boot_schema pm boot_versions" using boot_facts_inv okt pm(2) by blast
  then have "db_inv keys okt boot_versions (indexer_new db' (metadata_new boot_schema pm) BOOTSTRAP_TX_KEY)"
    using ix by (simp add: db_inv_def indexer_new_def metadata_new_def)
  moreover have bs: "bootstrap_schema = Ok boot_schema" by (simp add: bootstrap_schema_eq boot_schema_def)
  have "init_db ops n ts db_has rows db = Ok (metadata_new boot_schema pm, db')"
    by (simp add: init_db_def new bs bootstrap_datoms_eq v u b db'(1) pm(1))
  moreover have "m = 0 \<or> m = 1" if "pm TX_PARTITION = Some m" for m
    using least that boot_tx_counter by (fastforce simp: partition_defs)
  then have "sint (or_insert pm TX_PARTITION 0) \<le> 1" by (auto simp: or_insert_def split: option.split)
  ultimately show ?thesis
    using db'(2) by (intro exI [of _ "metadata_new boot_schema pm"] exI [of _ db']) (simp add: metadata_new_def)
qed

end
