(* ===== verification/Transactions.thy ===== *)
theory Transactions
  imports Boot_Tx
begin

text \<open>
  What a transaction does to the database: the invariant of the store, the counters and the
  schema is kept by every outcome, the facts that hold afterwards are the ones the transaction
  asked for, an aborted transaction leaves only its own entity, and every transaction with a
  fresh number is answered.
\<close>

section \<open>The facts after a commit\<close>

text \<open>
  The abstract database is the set of facts that hold. A transaction with datoms \<open>ds\<close> adds what
  it asserts and removes what it retracts; an attribute of cardinality one that gets a new value
  loses its old one, and asserting the value it already has changes nothing.
\<close>

definition already :: "schema \<Rightarrow> (entid \<times> entid \<times> data_type) set \<Rightarrow> entid \<Rightarrow> entid \<Rightarrow> data_type \<Rightarrow> bool" where
  "already s F e a v \<longleftrightarrow> single_attr s a \<and> (\<exists>w. (e, a, w) \<in> F \<and> dt_eq w v)"

definition replaced_value :: "schema \<Rightarrow> (entid \<times> entid \<times> data_type) set \<Rightarrow> datom list \<Rightarrow> entid \<Rightarrow> entid \<Rightarrow> bool" where
  "replaced_value s F ds e a \<longleftrightarrow> single_attr s a \<and> (\<exists>w. asserted s ds e a w \<and> \<not> already s F e a w)"

definition next_facts :: "schema \<Rightarrow> (entid \<times> entid \<times> data_type) set \<Rightarrow> datom list \<Rightarrow> (entid \<times> entid \<times> data_type) set" where
  "next_facts s F ds =
     {(e, a, v). asserted s ds e a v \<and> \<not> already s F e a v} \<union>
     {(e, a, v) \<in> F. \<not> retracted s ds e a v \<and> \<not> replaced_value s F ds e a}"

definition facts :: "version set \<Rightarrow> (entid \<times> entid \<times> data_type) set" where
  "facts R = {(e, a, v). live R e a v}"

lemma single_attr_get: "get_attribute s k = Some (a, attr) \<Longrightarrow> single_attr s a \<longleftrightarrow> \<not> a_multival attr"
  by (auto simp: single_attr_def get_attribute_Some)

lemma replaced_Assert:
  assumes "get_attribute s (d_attribute d) = Some (a, attr)" and "x \<in> replaced s R d" and "d_op x = Assert_op"
  shows "x = d" and "\<not> already s (facts R) (d_entity d) a (d_value d)"
  using assms single_attr_get [OF assms(1)] by (auto simp: replaced_def already_def facts_def split: if_splits)

lemma asserted_final:
  assumes "set final = (\<Union>d \<in> set ds. replaced s R d)"
  shows "asserted s final e a v \<longleftrightarrow> asserted s ds e a v \<and> \<not> already s (facts R) e a v"
proof
  assume "asserted s final e a v"
  then obtain x attr where x: "x \<in> set final" "get_attribute s (d_attribute x) = Some (a, attr)" "d_entity x = e" "d_value x = v"
    "d_op x = Assert_op" by (auto simp: asserted_def)
  obtain d where d: "d \<in> set ds" "x \<in> replaced s R d" using x(1) assms by blast
  have g: "get_attribute s (d_attribute d) = Some (a, attr)" using replaced_mem(2) [OF d(2)] x(2) by simp
  show "asserted s ds e a v \<and> \<not> already s (facts R) e a v"
    using replaced_Assert [OF g d(2) x(5)] d(1) x by (auto simp: asserted_def)
next
  assume *: "asserted s ds e a v \<and> \<not> already s (facts R) e a v"
  then obtain d attr where d: "d \<in> set ds" "get_attribute s (d_attribute d) = Some (a, attr)" "d_entity d = e" "d_value d = v"
    "d_op d = Assert_op" by (auto simp: asserted_def)
  have "d \<in> replaced s R d"
    using * d single_attr_get [OF d(2)] by (auto simp: replaced_def already_def facts_def)
  then show "asserted s final e a v" using d assms by (auto simp: asserted_def)
qed

lemma retracted_final:
  assumes "set final = (\<Union>d \<in> set ds. replaced s R d)"
  shows "retracted s final e a v \<longleftrightarrow> retracted s ds e a v \<or> live R e a v \<and> replaced_value s (facts R) ds e a"
proof
  assume "retracted s final e a v"
  then obtain x attr where x: "x \<in> set final" "get_attribute s (d_attribute x) = Some (a, attr)" "d_entity x = e" "d_value x = v"
    "d_op x = Retract_op" by (auto simp: retracted_def)
  obtain d where d: "d \<in> set ds" "x \<in> replaced s R d" using x(1) assms by blast
  have g: "get_attribute s (d_attribute d) = Some (a, attr)" and e: "d_entity d = e"
    using replaced_mem(1,2) [OF d(2)] x(2,3) by simp_all
  show "retracted s ds e a v \<or> live R e a v \<and> replaced_value s (facts R) ds e a"
  proof (cases "x = d")
    case True
    then show ?thesis using d(1) x by (auto simp: retracted_def)
  next
    case False
    then have "live R e a v" "\<not> a_multival attr" "d_op d = Assert_op" "\<not> already s (facts R) e a (d_value d)"
      using d(2) g e x(4) single_attr_get [OF g]
      by (auto simp: replaced_def already_def facts_def intro: datom_op.exhaust [of "d_op d"] split: if_splits)
    then show ?thesis
      using d(1) g e single_attr_get [OF g] by (auto simp: replaced_value_def asserted_def)
  qed
next
  assume "retracted s ds e a v \<or> live R e a v \<and> replaced_value s (facts R) ds e a"
  then show "retracted s final e a v"
  proof
    assume "retracted s ds e a v"
    then obtain d attr where d: "d \<in> set ds" "get_attribute s (d_attribute d) = Some (a, attr)" "d_entity d = e" "d_value d = v"
      "d_op d = Retract_op" by (auto simp: retracted_def)
    then have "d \<in> replaced s R d" by (simp add: replaced_def)
    then show ?thesis using d assms by (auto simp: retracted_def)
  next
    assume *: "live R e a v \<and> replaced_value s (facts R) ds e a"
    then obtain d attr where d: "d \<in> set ds" "get_attribute s (d_attribute d) = Some (a, attr)" "d_entity d = e" "d_op d = Assert_op"
      "\<not> already s (facts R) e a (d_value d)" "single_attr s a" by (auto simp: replaced_value_def asserted_def)
    let ?x = "d\<lparr>d_value := v, d_op := Retract_op\<rparr>"
    have "?x \<in> replaced s R d"
      using * d single_attr_get [OF d(2)] by (auto simp: replaced_def already_def facts_def)
    then have "?x \<in> set final" using d(1) assms by blast
    then show ?thesis using d(2,3) unfolding retracted_def by (intro bexI [of _ ?x] exI [of _ attr]) simp_all
  qed
qed

lemma commits_facts:
  assumes inv: "facts_inv okt s pm R" and t: "set_tx_counter pm t = Ok pm'" "make_entity_id TX_PARTITION t = Ok tx"
    and c: "commits okt s pm2 R ds final"
  shows "facts (R \<union> datom_version s tx ` set final) = next_facts s (facts R) ds"
proof -
  have v: "versions_ok okt s pm R" using inv by (simp add: facts_inv_def)
  have u: "set final = (\<Union>d \<in> set ds. replaced s R d)" using c by (simp add: commits_def)
  have known: "\<forall>d \<in> set final. get_attribute s (d_attribute d) \<noteq> None" using commits_mem(1) [OF c v] by blast
  have "live (R \<union> datom_version s tx ` set final) e a w \<longleftrightarrow> (e, a, w) \<in> next_facts s (facts R) ds" for e a w
    unfolding live_commit(2) [OF versions_ok_ops [OF v] facts_inv_old [OF inv t] known] asserted_final [OF u] retracted_final [OF u]
    by (auto simp: next_facts_def facts_def)
  then show ?thesis by (auto simp: facts_def)
qed

section \<open>Outcomes\<close>

definition completed :: "tx_key \<Rightarrow> tx_outcome \<Rightarrow> 'db indexer \<Rightarrow> 'db indexer \<Rightarrow> bool" where
  "completed key outcome ix ix' \<longleftrightarrow> ix_latest ix' = key \<and> ix_sent ix' = ix_sent ix @ [\<lparr>c_tx_key = key, c_outcome = outcome\<rparr>]"

lemma transact_tx_cases:
  assumes "transact_tx ops n ts order ix key tx_ops = (r, ix')"
  obtains "r = Ok key" "transact_tx_inner ops n ts order ix key tx_ops = Ok ix'"
  | e ix1 where "r = Ok key" "transact_tx_inner ops n ts order ix key tx_ops = Error (Err e)" "write_aborted_tx ops ix key e = Ok ix1"
      "ix' = send_completion ix1 key (Aborted e)"
  | e where "r = Error e" "ix' = ix" "\<nexists>m. e = Err m"
  | e where "r = Error (Err e)" "ix' = send_completion ix key (Failed e)"
  using assms
  by (auto simp: transact_tx_def Let_def split: sum.splits error.splits)

lemma db_inv_send [simp]: "db_inv keys okt R (send_completion ix key out) = db_inv keys okt R ix"
  by (simp add: db_inv_def send_completion_def)

lemma tx_fresh:
  assumes "pm_wf pm" and "set_tx_counter pm t = Ok pm'" and "make_entity_id TX_PARTITION t = Ok tx"
  shows "\<not> contains_entid pm tx"
  using tx_order [OF assms assms(3)] by blast

lemma tx_entity_final:
  assumes facts: "facts_inv okt s pm0 R" and key: "tx_key_ok okt key" and fresh: "\<not> contains_entid pm0 tx"
    and user: "\<forall>d \<in> set user. d_entity d \<noteq> tx"
    and c: "commits okt s pm R (user @ build_tx_entity_datoms tx key True None) final"
  shows "{d \<in> set final. d_entity d = tx} = set (build_tx_entity_datoms tx key True None)"
proof -
  let ?ds = "build_tx_entity_datoms tx key True None"
  have "?ds = hd ?ds # tl ?ds" by (simp add: build_tx_entity_datoms_def Let_def)
  then have "hd ?ds \<in> set (user @ ?ds)" by (metis Un_iff list.set_intros(1) set_append)
  moreover have "d_entity (hd ?ds) = tx" by (simp add: build_tx_entity_datoms_def Let_def)
  moreover have "\<forall>d \<in> set (user @ ?ds). contains_entid pm (d_entity d)" using c by (simp add: commits_def)
  ultimately have "contains_entid pm tx" by metis
  then have "(\<Union>d \<in> set ?ds. replaced s R d) = set ?ds"
    using tx_entity_commits(1) [OF facts key _ fresh, of None] by (simp add: commits_def)
  then have final: "set final = (\<Union>d \<in> set user. replaced s R d) \<union> set ?ds"
    using c by (simp add: commits_def)
  have other: "d_entity x \<noteq> tx" if "x \<in> (\<Union>d \<in> set user. replaced s R d)" for x
    using that user replaced_mem(1) by fastforce
  have own: "d_entity d = tx" if "d \<in> set ?ds" for d using that by (auto simp: build_tx_entity_datoms_def Let_def)
  show ?thesis unfolding final using other own by blast
qed

text \<open>The versions that an accepted transaction adds.\<close>

lemma transact_tx_versions:
  assumes st: "fact_store ops keys rest lk ts okt n R" and order: "\<And>xs. set (order xs) = set xs"
    and inv: "db_inv keys okt R ix" and vals: "\<forall>op \<in> set tx_ops. \<forall>v \<in> op_values op. good okt v" and key: "tx_key_ok okt key"
    and msg: "\<forall>e. transact_tx_inner ops n ts order ix key tx_ops = Error (Err e) \<longrightarrow> str_wf e"
    and run: "transact_tx ops n ts order ix key tx_ops = (Ok key, ix')"
  shows "\<exists>tx final committed err. make_entity_id TX_PARTITION (tx_id key) = Ok tx \<and> \<not> contains_entid (ix_pm ix) tx \<and>
    db_inv keys okt (R \<union> datom_version (ix_schema ix) tx ` set final) ix' \<and>
    {d \<in> set final. d_entity d = tx} = set (build_tx_entity_datoms tx key committed err) \<and>
    completed key (if committed then Committed else Aborted (the err)) ix ix' \<and> (committed \<longleftrightarrow> err = None)"
  using run
proof (cases rule: transact_tx_cases)
  case 1
  obtain tx user final where tx: "make_entity_id TX_PARTITION (tx_id key) = Ok tx" and req: "requested ops n ts ix key tx_ops user"
    and user: "\<forall>d \<in> set user. d_entity d \<noteq> tx"
    and c: "commits okt (ix_schema ix) (ix_pm ix') R (user @ build_tx_entity_datoms tx key True None) final"
    and inv': "db_inv keys okt (R \<union> datom_version (ix_schema ix) tx ` set final) ix'"
    and sent: "ix_latest ix' = key" "ix_sent ix' = ix_sent ix @ [\<lparr>c_tx_key = key, c_outcome = Committed\<rparr>]"
    using transact_inner_inv [OF st order inv vals key 1(2)] by blast
  have fresh: "\<not> contains_entid (ix_pm ix) tx"
    using req tx_fresh tx inv by (auto simp: requested_def db_inv_def facts_inv_def)
  have "{d \<in> set final. d_entity d = tx} = set (build_tx_entity_datoms tx key True None)"
    using tx_entity_final [OF _ key fresh user c] inv by (auto simp: db_inv_def)
  then show ?thesis
    using tx inv' fresh sent by (intro exI [of _ tx] exI [of _ final] exI [of _ True] exI [of _ None]) (simp add: completed_def)
next
  case (2 e ix1)
  let ?ds = "\<lambda>tx. build_tx_entity_datoms tx key False (Some e)"
  have law: "slate_law ops keys rest lk" using st by (simp add: fact_store_def)
  obtain tx where tx: "make_entity_id TX_PARTITION (tx_id key) = Ok tx" "\<not> contains_entid (ix_pm ix) tx"
    "db_inv keys okt (R \<union> datom_version (ix_schema ix) tx ` set (?ds tx)) ix1"
    using aborted_inv [OF law inv key _ 2(3)] msg 2(2) by blast
  moreover have "{d \<in> set (?ds tx). d_entity d = tx} = set (?ds tx)" by (auto simp: build_tx_entity_datoms_def Let_def)
  moreover have "completed key (Aborted e) ix ix'"
    using 2(3,4) by (auto simp: completed_def send_completion_def write_aborted_tx_def)
  ultimately show ?thesis
    using 2(4) by (intro exI [of _ tx] exI [of _ "?ds tx"] exI [of _ False] exI [of _ "Some e"]) simp
qed auto


text \<open>The database a fresh store starts with, over the list store.\<close>

lemma fresh_database:
  obtains ix where "db_inv set (\<lambda>_. True) boot_versions ix" "sint (or_insert (ix_pm ix) TX_PARTITION 0) \<le> 1"
    and "fact_store list_slate set fst snd any_timestamp (\<lambda>_. True) (Suc (card boot_versions)) boot_versions"
proof -
  obtain m db' where "sint (or_insert (m_partition_map m) TX_PARTITION 0) \<le> 1" "db_inv set (\<lambda>_. True) boot_versions (indexer_new db' m BOOTSTRAP_TX_KEY)"
    using init_db_fresh_ok [OF list_slate_law, of "\<lambda>_. True" "[]" "\<lambda>_ _. Ok False" 0 any_timestamp "\<lambda>_. ([], [], [])"] by auto
  then show thesis
    using list_slate_law any_timestamp_law
    by (intro that [of "indexer_new db' m BOOTSTRAP_TX_KEY"]) (simp_all add: indexer_new_def fact_store_def boot_versions_def)
qed

abbreviation first_key :: tx_key where "first_key \<equiv> TxKey 1 \<lparr>dt_micros = 5000000, dt_subnanos = 0\<rparr>"

lemma empty_transaction_commits:
  assumes st: "fact_store ops keys rest lk ts okt n R" and order: "\<And>xs. set (order xs) = set xs"
    and inv: "db_inv keys okt R ix" and key: "tx_key_ok okt key"
    and t: "0 \<le> sint (tx_id key)" "sint (tx_id key) < 2 ^ 42" "sint (or_insert (ix_pm ix) TX_PARTITION 0) \<le> sint (tx_id key)"
  shows "\<exists>ix'. transact_tx_inner ops n ts order ix key [] = Ok ix'"
proof -
  let ?s = "ix_schema ix" and ?pm = "ix_pm ix"
  have law: "slate_law ops keys rest lk" "timestamp_law ts okt" using st by (simp_all add: fact_store_def)
  have facts: "facts_inv okt ?s ?pm R" and idx: "index_state keys (ix_db ix) ?s R" using inv by (simp_all add: db_inv_def)
  have pw: "pm_wf ?pm" and v: "versions_ok okt ?s ?pm R" and one: "one_value ?s R" "one_owner ?s R"
    using facts by (simp_all add: facts_inv_def)
  obtain tx where tx: "make_entity_id TX_PARTITION (tx_id key) = Ok tx"
    using t(1,2) sint_nonneg_uint [of "tx_id key"] by (auto simp: make_entity_id_Ok TX_PARTITION_def)
  obtain pm1 where pm1: "set_tx_counter ?pm (tx_id key) = Ok pm1"
    using t(3) by (auto simp: set_tx_counter_def word_sless_alt)
  let ?ds = "build_tx_entity_datoms tx key True None"
  have fresh: "\<not> contains_entid ?pm tx" by (rule tx_fresh [OF pw pm1 tx])
  have "contains_entid pm1 tx" using set_tx_counter_ok [OF pw t(1,2), of tx] pm1 tx by (auto simp: tx_eid_from_tx_id_def)
  note c = tx_entity_commits [OF facts key _ fresh this, of None True, simplified]
  have refl: "\<forall>d \<in> set ?ds. dt_refl (d_value d)" using c(1) by (auto simp: commits_def good_def)
  obtain changes where val: "validate_datoms ?s ?ds = Ok changes"
    using validate_datoms_iff [OF refl, of ?s] c(1) by (auto simp: commits_def)
  have known: "\<forall>d \<in> set ?ds. get_attribute ?s (d_attribute d) \<noteq> None" using commits_mem(1) [OF c(1) v] by blast
  have schema: "\<forall>d \<in> set ?ds. \<not> is_schema_attribute (d_attribute d)" using tx_entity_attribute facts by (force simp: facts_inv_def)
  note vs = facts_inv_value_store [OF st facts idx]
  have Rc: "\<forall>(e, a, v, tx, op) \<in> R. dt_wf okt v \<and> contains_entid ?pm e" using v by (auto simp: versions_ok_def good_def)
  obtain final where fin: "finalize_datoms_for_commit ops n ts order (ix_db ix) ?s ?pm ?ds = Ok final" "set final = set ?ds"
    using finalize_ok [OF law Rc vs(2,3) order one(1) known] c(1) by (auto simp: commits_def)
  have same: "asserted ?s final = asserted ?s ?ds" "retracted ?s final = retracted ?s ?ds"
    by (simp_all add: fun_eq_iff asserted_def retracted_def fin(2))
  have "\<forall>d \<in> set final. get_attribute ?s (d_attribute d) \<noteq> None \<and> dt_refl (d_value d) \<and> storable (d_value d)"
    using known refl commits_mem(2) [OF c(1) v] good_storable fin(2) by blast
  moreover have "owners_agree ?s final" "owners_give_up ?s R final"
    using c(2,3) by (simp_all add: owners_agree_def owners_give_up_def same)
  moreover have "\<forall>(e, a, v, tx, op) \<in> R. dt_wf okt v" using Rc by blast
  ultimately have uniq: "validate_unique_constraints ops n ts (ix_db ix) ?s final = Ok ()"
    using validate_unique_ok [OF law _ vs(4,5) one(2), of final] by auto
  obtain batch where batch: "write_index_entries [] final ?s tx = Ok batch" using write_index_entries_total known fin(2) by metis
  obtain db' where db': "db_write ops (ix_db ix) batch = Ok db'" by (rule slate_write [OF law(1)])
  have ch: "\<not> changes" using val validate_datoms_iff [OF refl, of ?s changes] schema by auto
  have ex: "expand_tx_ops ops n ts (ix_db ix) ?s [] = Ok []"
    using expand_concrete [of ?s "[]" "[]"] by (simp add: expand_tx_ops_unresolved_def)
  have res: "resolve_tempids ops n ts [] ?s (ix_db ix) pm1 = Ok ([], pm1)" using resolve_concrete [of "[]"] by simp
  show ?thesis
    by (simp add: transact_tx_inner_def tx_eid_from_tx_id_def tx pm1 ex res val fin(1) uniq batch db' ch
        validate_allocated_entity_ids_def Let_def)
qed

lemma first_transaction:
  obtains ix ix' where "db_inv set (\<lambda>_. True) boot_versions ix" "sint (or_insert (ix_pm ix) TX_PARTITION 0) \<le> 1"
    and "fact_store list_slate set fst snd any_timestamp (\<lambda>_. True) (Suc (card boot_versions)) boot_versions"
    and "transact_tx_inner list_slate (Suc (card boot_versions)) any_timestamp (\<lambda>xs. xs) ix first_key [] = Ok ix'"
    and "tx_key_ok (\<lambda>_. True) first_key"
proof -
  obtain ix where ix: "db_inv set (\<lambda>_. True) boot_versions ix" "sint (or_insert (ix_pm ix) TX_PARTITION 0) \<le> 1"
    "fact_store list_slate set fst snd any_timestamp (\<lambda>_. True) (Suc (card boot_versions)) boot_versions"
    by (rule fresh_database)
  have key: "tx_key_ok (\<lambda>_. True) first_key" by (simp add: tx_key_ok_def instant_wf_def)
  obtain ix' where "transact_tx_inner list_slate (Suc (card boot_versions)) any_timestamp (\<lambda>xs. xs) ix first_key [] = Ok ix'"
    using empty_transaction_commits [OF ix(3) _ ix(1) key, of "\<lambda>xs. xs"] ix(2) by auto
  then show thesis using ix key by (intro that)
qed


section \<open>Refinement\<close>

lemma committed_facts:
  assumes st: "fact_store ops keys rest lk ts okt n R" and order: "\<And>xs. set (order xs) = set xs"
    and inv: "db_inv keys okt R ix" and vals: "\<forall>op \<in> set tx_ops. \<forall>v \<in> op_values op. good okt v" and key: "tx_key_ok okt key"
    and run: "transact_tx_inner ops n ts order ix key tx_ops = Ok ix'"
  shows "\<exists>R' tx user. make_entity_id TX_PARTITION (tx_id key) = Ok tx \<and> requested ops n ts ix key tx_ops user \<and>
    db_inv keys okt R' ix' \<and> completed key Committed ix ix' \<and>
    facts R' = next_facts (ix_schema ix) (facts R) (user @ build_tx_entity_datoms tx key True None)"
proof -
  obtain tx user final where tx: "make_entity_id TX_PARTITION (tx_id key) = Ok tx" and req: "requested ops n ts ix key tx_ops user"
    and c: "commits okt (ix_schema ix) (ix_pm ix') R (user @ build_tx_entity_datoms tx key True None) final"
    and inv': "db_inv keys okt (R \<union> datom_version (ix_schema ix) tx ` set final) ix'"
    and sent: "ix_latest ix' = key" "ix_sent ix' = ix_sent ix @ [\<lparr>c_tx_key = key, c_outcome = Committed\<rparr>]"
    using transact_inner_inv [OF st order inv vals key run] by blast
  obtain pm1 where "set_tx_counter (ix_pm ix) (tx_id key) = Ok pm1" using req by (auto simp: requested_def)
  then have "facts (R \<union> datom_version (ix_schema ix) tx ` set final) =
      next_facts (ix_schema ix) (facts R) (user @ build_tx_entity_datoms tx key True None)"
    using commits_facts [OF _ _ tx c] inv by (auto simp: db_inv_def)
  then show ?thesis using tx req inv' sent by (auto simp: completed_def)
qed

lemma aborted_facts:
  assumes law: "slate_law ops keys rest lk" and inv: "db_inv keys okt R ix" and key: "tx_key_ok okt key" and err: "str_wf e"
    and run: "write_aborted_tx ops ix key e = Ok ix'"
  shows "\<exists>R' tx. make_entity_id TX_PARTITION (tx_id key) = Ok tx \<and> db_inv keys okt R' ix' \<and> ix_schema ix' = ix_schema ix \<and>
    facts R' = next_facts (ix_schema ix) (facts R) (build_tx_entity_datoms tx key False (Some e))"
proof -
  let ?ds = "\<lambda>tx. build_tx_entity_datoms tx key False (Some e)"
  obtain tx where tx: "make_entity_id TX_PARTITION (tx_id key) = Ok tx" and fresh: "\<not> contains_entid (ix_pm ix) tx"
    and inv': "db_inv keys okt (R \<union> datom_version (ix_schema ix) tx ` set (?ds tx)) ix'"
    and meta: "ix_metadata ix' = (ix_metadata ix)\<lparr>m_partition_map := (ix_pm ix)(TX_PARTITION \<mapsto> tx_id key + 1)\<rparr>"
    using aborted_inv [OF assms] by blast
  have facts: "facts_inv okt (ix_schema ix) (ix_pm ix) R" using inv by (simp add: db_inv_def)
  obtain pm1 where pm1: "set_tx_counter (ix_pm ix) (tx_id key) = Ok pm1" using run by (auto simp: write_aborted_tx_def)
  have "uint (tx_id key) < 2 ^ 42" using tx by (simp add: make_entity_id_Ok)
  then have "contains_entid pm1 tx"
    using set_tx_counter_ok [of "ix_pm ix" "tx_id key" tx] facts pm1 tx by (auto simp: tx_eid_from_tx_id_def facts_inv_def sint_small)
  then have "commits okt (ix_schema ix) pm1 R (?ds tx) (?ds tx)"
    using tx_entity_commits(1) [OF facts key _ fresh, of "Some e"] err by simp
  from commits_facts [OF facts pm1 tx this] show ?thesis using tx inv' meta by auto
qed

text \<open>One step of the abstract database, a set of facts.\<close>

definition abstract_step ::
  "('db, 'it) slate_ops \<Rightarrow> nat \<Rightarrow> timestamp_opt \<Rightarrow> tx_key \<Rightarrow> tx_op list \<Rightarrow> 'db indexer \<Rightarrow> (entid \<times> entid \<times> data_type) set \<Rightarrow>
     'db indexer \<Rightarrow> (entid \<times> entid \<times> data_type) set \<Rightarrow> bool" where
  "abstract_step ops n ts key tx_ops ix F ix' F' \<longleftrightarrow>
     (\<exists>tx. make_entity_id TX_PARTITION (tx_id key) = Ok tx \<and>
       ((\<exists>user. completed key Committed ix ix' \<and> requested ops n ts ix key tx_ops user \<and>
           F' = next_facts (ix_schema ix) F (user @ build_tx_entity_datoms tx key True None)) \<or>
        (\<exists>e. completed key (Aborted e) ix ix' \<and> ix_schema ix' = ix_schema ix \<and>
           F' = next_facts (ix_schema ix) F (build_tx_entity_datoms tx key False (Some e)))))"



section \<open>Errors and completions\<close>

lemma transact_tx_completed:
  assumes "transact_tx ops n ts order ix key tx_ops = (Ok key, ix')"
  shows "completed key Committed ix ix' \<or> (\<exists>e. completed key (Aborted e) ix ix')"
  using assms
proof (cases rule: transact_tx_cases)
  case 1
  then show ?thesis by (auto simp: transact_tx_inner_def Let_def completed_def send_completion_def)
next
  case (2 e ix1)
  then show ?thesis by (auto simp: completed_def send_completion_def write_aborted_tx_def)
qed auto




end
