(* ===== verification/Recovery.thy ===== *)
theory Recovery
  imports Transactions
begin

text \<open>
  What a restart finds: the counters of the partitions and the key of the latest transaction are
  read back from the indices, and a fresh store is given the built-in schema.
\<close>

section \<open>The latest transaction\<close>

definition instant_step :: "datetime option \<Rightarrow> version \<Rightarrow> datetime option" where
  "instant_step st = (\<lambda>(e, a, v, tx, op). if a = DB_TX_INSTANT then (case v of DInstant t \<Rightarrow> Some t | _ \<Rightarrow> st) else st)"

lemma instant_step_apply:
  "instant_step st (e, a, v, tx, op) = (if a = DB_TX_INSTANT then (case v of DInstant t \<Rightarrow> Some t | _ \<Rightarrow> st) else st)"
  by (simp add: instant_step_def)

lemma latest_tx_loop_ok:
  assumes law: "slate_law ops keys rest lk" and ts: "timestamp_law ts okt"
    and "rest it = map (version_key EAV_index) vs" and "\<forall>(e, a, v, tx, op) \<in> set vs. dt_wf okt v" and "length vs < n"
    and "first = Some tx \<or> first = None \<and> vs \<noteq> [] \<and> fst (hd vs) = tx"
  shows "latest_tx_loop ops ts n it first st = Ok (Some tx, foldl instant_step st (takeWhile (\<lambda>x. fst x = tx) vs))"
  using assms(3-)
proof (induction vs arbitrary: n it first st)
  case Nil
  obtain m where m: "n = Suc m" using Nil.prems(3) by (cases n) auto
  obtain it' where "it_next ops it = Ok (None, it')" using slate_next_Nil [OF law, of it] Nil.prems(1) by auto
  then show ?case using Nil.prems(4) m by simp
next
  case (Cons x vs)
  obtain m where m: "n = Suc m" "length vs < m" using Cons.prems(3) by (cases n) auto
  obtain e a v t op where x: "x = (e, a, v, t, op)" by (cases x)
  obtain it' where it': "it_next ops it = Ok (Some (version_key EAV_index x), it')" "rest it' = map (version_key EAV_index) vs"
    using slate_next_Cons [OF law, of it] Cons.prems(1) by auto
  have parts: "eav_key_to_parts ts (version_key EAV_index x) = Ok (DLong e, a, v, t, op)"
    using eav_parts [OF ts] Cons.prems(2) x by auto
  show ?case
  proof (cases "e = tx")
    case True
    have "latest_tx_loop ops ts m it' (Some tx) st' = Ok (Some tx, foldl instant_step st' (takeWhile (\<lambda>x. fst x = tx) vs))" for st'
      by (rule Cons.IH [OF it'(2)]) (use Cons.prems m in auto)
    then show ?thesis using Cons.prems(4) it'(1) parts m(1) True by (auto simp: x instant_step_apply Let_def)
  next
    case False
    then show ?thesis using Cons.prems(4) it'(1) parts m(1) by (auto simp: x)
  qed
qed

lemma foldl_instant:
  assumes "\<forall>(e, a, v, tx, op) \<in> set vs. a = DB_TX_INSTANT \<longrightarrow> v = DInstant t"
  shows "foldl instant_step st vs = (if \<exists>(e, a, v, tx, op) \<in> set vs. a = DB_TX_INSTANT then Some t else st)"
  using assms by (induction vs arbitrary: st) (auto simp: instant_step_apply)

text \<open>The greatest entity of the transaction partition comes first in the index.\<close>

lemma takeWhile_top:
  assumes "sorted (map (version_key EAV_index) vs)" and "\<forall>x \<in> set vs. sint (fst x) \<le> sint tx" and "x \<in> set vs" and "fst x = tx"
  shows "x \<in> set (takeWhile (\<lambda>x. fst x = tx) vs)"
  using assms
proof (induction vs)
  case (Cons y vs)
  show ?case
  proof (cases "x = y")
    case False
    then have "version_key EAV_index y \<le> version_key EAV_index x" using Cons.prems(1,3) by auto
    then have "sint tx \<le> sint (fst y)" using version_key_entity_le Cons.prems(4) by (cases x; cases y) auto
    then have "sint (fst y) = sint tx" using Cons.prems(2) by force
    then have "fst y = tx" by (rule signed_word_eqI)
    then show ?thesis using Cons False by auto
  qed (use Cons.prems in auto)
qed simp

lemma list_images: "set l \<subseteq> f ` A \<Longrightarrow> \<exists>vs. map f vs = l \<and> set vs \<subseteq> A"
proof (induction l)
  case (Cons x l)
  then obtain vs a where "map f vs = l" "set vs \<subseteq> A" "a \<in> A" "x = f a" by auto
  then show ?case by (intro exI [of _ "a # vs"]) simp
qed simp

text \<open>A scan meets the keys of the versions that the prefix selects, in order.\<close>

lemma scan_versions:
  assumes law: "slate_law ops keys rest lk" and db: "{k \<in> keys db. prefix [b] k} = version_key it ` R" and fin: "finite R"
    and inj: "inj_on (version_key it) R"
  obtains iter vs where "scan_prefix ops db (b # p) = Ok iter" "rest iter = map (version_key it) vs" "sorted (map (version_key it) vs)"
    "set vs = {x \<in> R. prefix (b # p) (version_key it x)}" "length vs \<le> card R"
proof -
  let ?vk = "version_key it" and ?K = "{k \<in> keys db. prefix (b # p) k}" and ?R = "{x \<in> R. prefix (b # p) (version_key it x)}"
  have "prefix (b # p) k \<Longrightarrow> prefix [b] k" for k by (cases k) auto
  then have "?K = {k \<in> ?vk ` R. prefix (b # p) k}" unfolding db [symmetric] by blast
  also have "\<dots> = ?vk ` ?R" by auto
  finally have K: "?K = ?vk ` ?R" .
  have finR: "finite ?R" using fin by simp
  obtain iter where iter: "scan_prefix ops db (b # p) = Ok iter" "rest iter = sorted_list_of_set ?K"
    using slate_scan [OF law] by metis
  have mem: "set (sorted_list_of_set ?K) = ?vk ` ?R" unfolding K using finR by simp
  then obtain vs where vs: "map ?vk vs = sorted_list_of_set ?K" "set vs \<subseteq> ?R"
    using list_images [of "sorted_list_of_set ?K" ?vk ?R] by blast
  have "length vs = card ?K" using arg_cong [OF vs(1), of length] by simp
  also have "\<dots> \<le> card ?R" unfolding K by (rule card_image_le [OF finR])
  also have "\<dots> \<le> card R" by (rule card_mono [OF fin]) auto
  finally have len: "length vs \<le> card R" .
  have "?vk ` set vs = ?vk ` ?R" using mem unfolding vs(1) [symmetric] set_map .
  then have sv: "set vs = ?R" using inj_on_image_eq_iff [OF inj, of "set vs" ?R] vs(2) by blast
  show thesis by (rule that [OF iter(1) _ _ sv len]) (simp_all add: iter(2) vs(1))
qed

lemma ave_parts:
  assumes "timestamp_law ts okt" and "dt_wf okt v"
  shows "ave_key_to_parts ts (version_key AVE_index (e, a, v, tx, op)) = Ok (a, v, DLong e, tx, op)"
proof -
  have "dt_wf okt (DLong e)" by simp
  from key_to_parts_mk(2) [OF assms(1) this assms(2)] show ?thesis
    by (simp add: mk_ave_def version_key_def entity_bytes_def)
qed

lemma version_keys_inj:
  assumes "\<forall>(e, a, v, tx, op) \<in> R. dt_wf okt v"
  shows "inj_on (version_key EAV_index) R" and "inj_on (version_key AVE_index) R"
proof -
  have "x = y" if xy: "x \<in> R" "y \<in> R" and eq: "version_key EAV_index x = version_key EAV_index y \<or> version_key AVE_index x = version_key AVE_index y" for x y
  proof -
    obtain e a v t p where x: "x = (e, a, v, t, p)" by (cases x)
    obtain e' a' v' t' p' where y: "y = (e', a', v', t', p')" by (cases y)
    have wf: "dt_wf okt v" "dt_wf okt v'" using assms xy unfolding x y by blast+
    note law = any_timestamp_law [of okt]
    from eq show ?thesis
    proof
      assume "version_key EAV_index x = version_key EAV_index y"
      then have "eav_key_to_parts any_timestamp (version_key EAV_index x) = eav_key_to_parts any_timestamp (version_key EAV_index y)" by simp
      then show ?thesis unfolding x y eav_parts [OF law wf(1)] eav_parts [OF law wf(2)] by simp
    next
      assume "version_key AVE_index x = version_key AVE_index y"
      then have "ave_key_to_parts any_timestamp (version_key AVE_index x) = ave_key_to_parts any_timestamp (version_key AVE_index y)" by simp
      then show ?thesis unfolding x y ave_parts [OF law wf(1)] ave_parts [OF law wf(2)] by simp
    qed
  qed
  then show "inj_on (version_key EAV_index) R" "inj_on (version_key AVE_index) R" unfolding inj_on_def by blast+
qed

lemma latest_tx_key_ok:
  assumes law: "slate_law ops keys rest lk" and ts: "timestamp_law ts okt"
    and db: "{k \<in> keys db. prefix [EAV] k} = version_key EAV_index ` R" and fin: "finite R" "card R < n"
    and R: "\<forall>(e, a, v, tx, op) \<in> R. dt_wf okt v \<and> canonical e"
    and tx: "make_entity_id TX_PARTITION t = Ok tx" and top: "\<forall>(e, a, v, u, op) \<in> R. extract_partition e = TX_PARTITION \<longrightarrow> sint e \<le> sint tx"
    and at: "(tx, DB_TX_INSTANT, DInstant i, u, op) \<in> R"
    and only: "\<forall>(e, a, v, u, op) \<in> R. e = tx \<and> a = DB_TX_INSTANT \<longrightarrow> v = DInstant i"
  shows "latest_tx_key_from_sdb ops n ts db = Ok (TxKey t i)"
proof -
  let ?vk = "version_key EAV_index"
  obtain p where p: "partition_entity_prefix TX_PARTITION = Ok p"
    by (auto simp: partition_entity_prefix_def make_entity_id_def partition_defs Let_def)
  have sel: "prefix (EAV # p) (?vk (e, a, v, u, op)) \<longleftrightarrow> extract_partition e = TX_PARTITION" if "(e, a, v, u, op) \<in> R" for e a v u op
    using partition_scan_prefix [OF p] R that by blast
  have inj: "inj_on ?vk R" using version_keys_inj(1) [of R okt] R by blast
  obtain it vs where it: "scan_prefix ops db (EAV # p) = Ok it" "rest it = map ?vk vs" and so: "sorted (map ?vk vs)"
    and sub: "set vs = {x \<in> R. prefix (EAV # p) (?vk x)}" and len: "length vs \<le> card R"
    by (rule scan_versions [OF law db fin(1) inj, of p])
  have ex: "extract_partition tx = TX_PARTITION" "extract_counter tx = t" using extract_make tx by auto
  have y': "(tx, DB_TX_INSTANT, DInstant i, u, op) \<in> set vs" using at sel [OF at] ex(1) unfolding sub by simp
  have wf: "\<forall>(e, a, v, tx, op) \<in> set vs. dt_wf okt v" using sub R by blast
  have le: "\<forall>x \<in> set vs. sint (fst x) \<le> sint tx" using sub top sel by fastforce
  let ?tw = "takeWhile (\<lambda>x. fst x = tx) vs"
  have tw: "(tx, DB_TX_INSTANT, DInstant i, u, op) \<in> set ?tw" using takeWhile_top [OF so le y'] by simp
  then have hd: "vs \<noteq> [] \<and> fst (hd vs) = tx" by (cases vs) (auto split: if_splits)
  have "\<forall>(e, a, v, tx, op) \<in> set ?tw. a = DB_TX_INSTANT \<longrightarrow> v = DInstant i"
    using only sub by (auto dest!: set_takeWhileD)
  then have "foldl instant_step None ?tw = Some i" using tw by (subst foldl_instant) auto
  moreover have "latest_tx_loop ops ts n it None None = Ok (Some tx, foldl instant_step None ?tw)"
    by (rule latest_tx_loop_ok [OF law ts it(2) wf]) (use len fin(2) hd in auto)
  ultimately show ?thesis
    using p it(1) ex(2) by (simp add: latest_tx_key_from_sdb_def concat_bytes_def)
qed

text \<open>Temporary ids are allocated in the partitions of the schema and of the user, so the counter of
  the transactions is the number of the latest one plus one.\<close>

lemma allocation_partitions_mem:
  assumes "allocation_partitions inferred labels = Ok parts"
  shows "set parts \<subseteq> {DB_PARTITION, USER_PARTITION}"
proof -
  let ?f = "\<lambda>parts (tempid, label). case inferred tempid of None \<Rightarrow> Ok parts
    | Some p \<Rightarrow> if label < length parts then Ok (parts[label := dominant_partition (parts ! label) p])
       else Error (Panic ''index out of bounds'')"
  have step: "set ps' \<subseteq> {DB_PARTITION, USER_PARTITION}" if "set ps \<subseteq> {DB_PARTITION, USER_PARTITION}" "?f ps x = Ok ps'" for ps ps' x
  proof -
    obtain t l where x: "x = (t, l)" by (cases x)
    have "dominant_partition (ps ! l) p \<in> {DB_PARTITION, USER_PARTITION}" if "l < length ps" for p
      using \<open>set ps \<subseteq> _\<close> nth_mem [OF that] by (auto simp: dominant_partition_def)
    then show ?thesis using that set_update_subset_insert [of ps l] unfolding x by (fastforce split: option.splits if_splits)
  qed
  have "rfold ?f (replicate (fold max (map (Suc \<circ> snd) labels) 0) USER_PARTITION) labels = Ok parts"
    using assms by (simp add: allocation_partitions_def Let_def DEFAULT_PARTITION_def)
  then show ?thesis
    by (rule rfold_invariant [where P = "\<lambda>ps. set ps \<subseteq> {DB_PARTITION, USER_PARTITION}"]) (use step in auto)
qed

lemma allocate_labels_other:
  "allocate_labels pm parts = Ok (eids, pm') \<Longrightarrow> p \<notin> set parts \<Longrightarrow> pm' p = pm p"
  by (induction parts arbitrary: pm eids) (auto simp: allocate_entid_def allocate_counter_def Let_def)

lemma resolve_tempids_tx_counter:
  assumes "resolve_tempids ops n ts datoms s db pm = Ok (out, pm')"
  shows "pm' TX_PARTITION = pm TX_PARTITION"
proof -
  obtain labels parts eids where p: "allocation_partitions (infer_tempid_partitions datoms) labels = Ok parts"
    and l: "allocate_labels pm parts = Ok (eids, pm')"
    using assms by (auto simp: resolve_tempids_def Let_def)
  have "TX_PARTITION \<notin> set parts" using allocation_partitions_mem [OF p] by (auto simp: partition_defs)
  then show ?thesis by (rule allocate_labels_other [OF l])
qed

lemma transact_tx_counter:
  assumes "transact_tx ops n ts order ix key tx_ops = (Ok key, ix')"
  shows "ix_pm ix' TX_PARTITION = Some (tx_id key + 1)"
  using assms
proof (cases rule: transact_tx_cases)
  case 1
  then show ?thesis
    by (auto simp: transact_tx_inner_def Let_def send_completion_def advance_generation_def set_tx_counter_def
        dest!: resolve_tempids_tx_counter split: if_splits option.splits)
next
  case (2 e ix1)
  then show ?thesis by (auto simp: write_aborted_tx_def send_completion_def set_tx_counter_def Let_def split: if_splits)
qed auto

lemma below_tx_counter:
  assumes pm: "pm_wf pm" "pm TX_PARTITION = Some (t + 1)" and tx: "make_entity_id TX_PARTITION t = Ok tx"
    and e: "canonical e" "extract_partition e = TX_PARTITION" "contains_entid pm e"
  shows "sint e \<le> sint tx"
proof -
  note c = canonical_parts [OF e(1)]
  have t: "uint t < 2 ^ 42" using tx by (simp add: make_entity_id_Ok)
  have "uint (extract_counter e) < uint (t + 1)" using e(2,3) pm by (simp add: contains_entid_iff)
  then have "uint (extract_counter e) \<le> uint t" using uint_Suc_small [OF t] by simp
  moreover have "make_entity_id TX_PARTITION (extract_counter e) = Ok e" using c(2) e(2) by simp
  ultimately show ?thesis
    using uint_make_entity_id [OF tx] uint_make_entity_id [of TX_PARTITION "extract_counter e" e] by (simp add: sint_cases)
qed

lemma tx_entity_instant:
  assumes core: "schema_core s" and own: "{d \<in> set final. d_entity d = tx} = set (build_tx_entity_datoms tx key committed err)"
  shows "(tx, DB_TX_INSTANT, w, u, op) \<in> datom_version s tx ` set final \<longleftrightarrow> w = DInstant (system_time key) \<and> u = tx \<and> op = ADD"
proof -
  have "(tx, DB_TX_INSTANT, w, u, op) \<in> datom_version s tx ` set final \<longleftrightarrow>
      (\<exists>d \<in> {d \<in> set final. d_entity d = tx}. datom_version s tx d = (tx, DB_TX_INSTANT, w, u, op))"
    by (auto simp: datom_version_def)
  also have "\<dots> \<longleftrightarrow> w = DInstant (system_time key) \<and> u = tx \<and> op = ADD"
    unfolding own using core
    by (cases err) (auto simp: build_tx_entity_datoms_def Let_def datom_version_def schema_core_def core_attributes_def op_byte_def
        DB_TX_INSTANT_def DB_TX_ID_def DB_TX_RESULT_def DB_TX_ERROR_def)
  finally show ?thesis .
qed

lemma versions_unique:
  assumes "index_state keys db s R" and "index_state keys db s R'"
    and "versions_ok okt s pm R" and "versions_ok okt s pm R'"
  shows "R = R'"
proof -
  have "\<forall>(e, a, v, tx, op) \<in> R \<union> R'. dt_wf okt v" using assms(3,4) by (auto simp: versions_ok_def good_def)
  then have inj: "inj_on (version_key EAV_index) (R \<union> R')" by (rule version_keys_inj)
  have "version_key EAV_index ` R = version_key EAV_index ` R'"
    using index_state_eav [OF assms(1)] index_state_eav [OF assms(2)] by simp
  then show ?thesis using inj_on_image_eq_iff [OF inj Un_upper1 Un_upper2] by simp
qed

text \<open>The indices determine the stored versions.\<close>

lemma db_inv_unique: "db_inv keys okt R ix \<Longrightarrow> db_inv keys okt R' ix \<Longrightarrow> R = R'"
  by (rule versions_unique [where okt = okt and s = "ix_schema ix" and pm = "ix_pm ix" and db = "ix_db ix" and keys = keys])
    (simp_all add: db_inv_def facts_inv_def)


lemma empty_requested: "requested ops n ts ix key [] user \<Longrightarrow> user = []"
  using expand_concrete [of "ix_schema ix" "[]" "[]" ops n ts "ix_db ix"] resolve_concrete [of "[]" "ix_schema ix" ops n ts "ix_db ix"]
  by (auto simp: requested_def expand_tx_ops_unresolved_def)

lemma first_transaction_canonical:
  assumes "db_inv set (\<lambda>_. True) boot_versions ix"
    and "fact_store list_slate set fst snd any_timestamp (\<lambda>_. True) (Suc (card boot_versions)) boot_versions"
    and "transact_tx_inner list_slate (Suc (card boot_versions)) any_timestamp (\<lambda>xs. xs) ix first_key [] = Ok ix'"
    and "tx_key_ok (\<lambda>_. True) first_key"
  obtains R' where "db_inv set (\<lambda>_. True) R' ix'" "\<forall>(e, a, v, tx, op) \<in> R'. canonical e"
    "\<forall>(e, a, v, tx, op) \<in> R' - boot_versions. make_entity_id TX_PARTITION 1 = Ok e"
proof -
  obtain tx user final where tx: "make_entity_id TX_PARTITION 1 = Ok tx"
    and req: "requested list_slate (Suc (card boot_versions)) any_timestamp ix first_key [] user"
    and c: "commits (\<lambda>_. True) (ix_schema ix) (ix_pm ix') boot_versions (user @ build_tx_entity_datoms tx first_key True None) final"
    and inv: "db_inv set (\<lambda>_. True) (boot_versions \<union> datom_version (ix_schema ix) tx ` set final) ix'"
    using transact_inner_inv [OF assms(2) _ assms(1) _ assms(4) assms(3)] by auto
  have "canonical tx" using tx unfolding canonical_def by (intro exI [of _ TX_PARTITION] exI [of _ 1]) simp
  moreover have own: "d_entity d = tx" if d: "d \<in> set final" for d
  proof -
    have "set final = (\<Union>d' \<in> set (build_tx_entity_datoms tx first_key True None). replaced (ix_schema ix) boot_versions d')"
      using c empty_requested [OF req] by (simp add: commits_def)
    then obtain d' where d': "d' \<in> set (build_tx_entity_datoms tx first_key True None)" "d \<in> replaced (ix_schema ix) boot_versions d'"
      using d by blast
    have "d_entity d' = tx" using d'(1) by (auto simp: build_tx_entity_datoms_def Let_def)
    then show ?thesis using replaced_mem(1) [OF d'(2)] by simp
  qed
  moreover have "\<forall>(e, a, v, tx, op) \<in> boot_versions. canonical e"
    using boot_datoms_ok(1) [of _ "\<lambda>_. True"] by (auto simp: boot_versions_def datom_version_def)
  ultimately have "\<forall>(e, a, v, tx, op) \<in> boot_versions \<union> datom_version (ix_schema ix) tx ` set final. canonical e"
    by (auto simp: datom_version_def)
  moreover have "\<forall>(e, a, v, t, op) \<in> datom_version (ix_schema ix) tx ` set final. make_entity_id TX_PARTITION 1 = Ok e"
    using own tx by (auto simp: datom_version_def)
  ultimately show thesis by (intro that [OF inv]) auto
qed


section \<open>Counters and schema at start-up\<close>



text \<open>C15: Starting on an empty store succeeds (none of the assertions and unwraps of the start-up code can
  fail) and gives a database in which the invariant holds: the built-in schema is installed, its facts
  are written by the first transaction, and the version marker is stored.\<close>

theorem init_db_fresh:
  assumes "slate_law ops keys rest lk" and "okt 0" and "keys db = {}" and "db_has db version_key_bytes = Ok False"
  shows "\<exists>m db'. init_db ops n ts db_has rows db = Ok (m, db') \<and> bootstrap_schema = Ok (m_schema m) \<and> version_key_bytes \<in> keys db' \<and>
    db_inv keys okt boot_versions (indexer_new db' m BOOTSTRAP_TX_KEY)"
proof -
  have "bootstrap_schema = Ok boot_schema" by (simp add: bootstrap_schema_eq boot_schema_def)
  then show ?thesis using init_db_fresh_ok [OF assms(1), of okt db db_has n ts rows] assms(2-) by auto
qed

theorem init_db_fresh_witness:
  "\<exists>m db'. init_db list_slate 0 any_timestamp (\<lambda>db k. Ok (k \<in> set db)) (\<lambda>_. ([], [], [])) [] = Ok (m, db') \<and>
     version_key_bytes \<in> set db' \<and> db_inv set (\<lambda>_. True) boot_versions (indexer_new db' m BOOTSTRAP_TX_KEY)"
  using init_db_fresh [OF list_slate_law, of "\<lambda>_. True" "[]" "\<lambda>db k. Ok (k \<in> set db)" 0 any_timestamp "\<lambda>_. ([], [], [])"] by auto

end
