(* ===== verification/Tx_Waiter.thy ===== *)
theory Tx_Waiter
  imports Recovery
begin

text \<open>
  Waiting for a transaction, \<^verbatim>\<open>TxWaiter\<close> of \<^verbatim>\<open>src/indexer.rs\<close>. A waiter subscribes to the completions
  before the record is appended; what it receives is a list of events. When it has missed the
  completion it asks the store, so a completion event carries the store at that moment. A list that
  ends before the loop does stands for a waiter that still waits.
\<close>

section \<open>Model\<close>

datatype 'db recv_event =
    Recv_completion tx_completion 'db
  | Recv_lagged
  | Recv_closed

definition completion_from_storage ::
  "('db, 'it) slate_ops \<Rightarrow> nat \<Rightarrow> timestamp_opt \<Rightarrow> 'db \<Rightarrow> tx_key \<Rightarrow> tx_completion result" where
  "completion_from_storage ops n ts db key =
     rbind (lookup_tx_completion ops n ts db key) (\<lambda>c.
     case c of
       Some completion \<Rightarrow> Ok completion
     | None \<Rightarrow> Error (Err (''Transaction '' @ show_i64 (tx_id key) @ '' failed or could not be recovered!'')))"

primrec await_tx_loop ::
  "('db, 'it) slate_ops \<Rightarrow> nat \<Rightarrow> timestamp_opt \<Rightarrow> tx_key \<Rightarrow> 'db recv_event list \<Rightarrow> tx_completion result option" where
  "await_tx_loop ops n ts key [] = None"
| "await_tx_loop ops n ts key (ev # evs) =
     (case ev of
        Recv_completion c db \<Rightarrow>
          if c_tx_key c < key then await_tx_loop ops n ts key evs
          else if c_tx_key c = key then Some (Ok c)
          else Some (completion_from_storage ops n ts db key)
      | Recv_lagged \<Rightarrow> await_tx_loop ops n ts key evs
      | Recv_closed \<Rightarrow> Some (Error (Err (''Indexer shutdown while waiting for tx '' @ show_i64 (tx_id key)))))"

text \<open>The waiter is its baseline and its events; \<open>db\<close> is the store when the wait begins.\<close>

definition await_tx ::
  "('db, 'it) slate_ops \<Rightarrow> nat \<Rightarrow> timestamp_opt \<Rightarrow> tx_key \<Rightarrow> 'db \<Rightarrow> tx_key \<Rightarrow> 'db recv_event list \<Rightarrow> tx_completion result option" where
  "await_tx ops n ts baseline db key evs =
     (if key \<le> baseline then Some (completion_from_storage ops n ts db key)
      else await_tx_loop ops n ts key evs)"

primrec await_indexed_loop :: "tx_key \<Rightarrow> 'db recv_event list \<Rightarrow> unit result option" where
  "await_indexed_loop key [] = None"
| "await_indexed_loop key (ev # evs) =
     (case ev of
        Recv_completion c _ \<Rightarrow> if tx_id key \<le>s tx_id (c_tx_key c) then Some (Ok ()) else await_indexed_loop key evs
      | Recv_lagged \<Rightarrow> await_indexed_loop key evs
      | Recv_closed \<Rightarrow> Some (Error (Err (''Indexer shutdown while waiting for tx '' @ show_i64 (tx_id key)))))"

definition await_indexed :: "tx_key \<Rightarrow> tx_key \<Rightarrow> 'db recv_event list \<Rightarrow> unit result option" where
  "await_indexed baseline key evs = (if tx_id key \<le>s tx_id baseline then Some (Ok ()) else await_indexed_loop key evs)"

section \<open>The outcome in the store\<close>

lemma prefix_version_ave:
  assumes "storable w" and "storable v"
  shows "prefix (AVE # encode_i64_bytes a @ encode_datatype v) (version_key AVE_index (e, b, w, tx, op)) \<longleftrightarrow> b = a \<and> w = v"
proof -
  have "(\<exists>zs. encode_i64_bytes b @ encode_datatype w @ s = encode_i64_bytes a @ encode_datatype v @ zs) \<longleftrightarrow> b = a \<and> w = v" for s
    unfolding encode_i64_bytes_eq_iff value_append_eq_iff [OF assms] by auto
  then show ?thesis by (simp add: version_key_def index_key_def prefix_def)
qed

lemma find_tx_entity_loop_ok:
  assumes law: "slate_law ops keys rest lk" and ts: "timestamp_law ts okt"
    and "rest it = map (version_key AVE_index) vs" and "\<forall>(e, a, v, tx, op) \<in> set vs. dt_wf okt v" and "length vs < n"
    and "\<forall>(e, a, v, tx, op) \<in> set vs. op \<noteq> RETRACT \<longrightarrow> e = eid" and "\<exists>(e, a, v, tx, op) \<in> set vs. op \<noteq> RETRACT"
  shows "find_tx_entity_loop ops ts n it = Ok (Some eid)"
  using assms(3-)
proof (induction vs arbitrary: n it)
  case (Cons x vs)
  obtain m where m: "n = Suc m" "length vs < m" using Cons.prems(3) by (cases n) auto
  obtain e a v t op where x: "x = (e, a, v, t, op)" by (cases x)
  obtain it' where it': "it_next ops it = Ok (Some (version_key AVE_index x), it')" "rest it' = map (version_key AVE_index) vs"
    using slate_next_Cons [OF law, of it] Cons.prems(1) by auto
  have parts: "ave_key_to_parts ts (version_key AVE_index x) = Ok (a, v, DLong e, t, op)"
    using ave_parts [OF ts] Cons.prems(2) x by auto
  show ?case
  proof (cases "op = RETRACT")
    case True
    then have "find_tx_entity_loop ops ts m it' = Ok (Some eid)"
      using Cons.prems m x by (intro Cons.IH [OF it'(2)]) auto
    then show ?thesis using it'(1) parts m(1) True by simp
  next
    case False
    then show ?thesis using it'(1) parts m(1) Cons.prems(4) x by auto
  qed
qed simp

definition result_step :: "i64 option \<times> string option \<Rightarrow> version \<Rightarrow> i64 option \<times> string option" where
  "result_step st x = (case x of (e, a, v, tx, op) \<Rightarrow>
     if op = RETRACT then st
     else ((if a = DB_TX_RESULT then (case v of DLong r \<Rightarrow> Some r | _ \<Rightarrow> fst st) else fst st),
           (if a = DB_TX_ERROR then (case v of DString m \<Rightarrow> Some m | _ \<Rightarrow> snd st) else snd st)))"

lemma result_step_apply:
  "result_step (r, m) (e, a, v, tx, op) =
     (if op = RETRACT then (r, m)
      else ((if a = DB_TX_RESULT then (case v of DLong x \<Rightarrow> Some x | _ \<Rightarrow> r) else r),
            (if a = DB_TX_ERROR then (case v of DString x \<Rightarrow> Some x | _ \<Rightarrow> m) else m)))"
  by (cases v) (simp_all add: result_step_def)

lemma tx_result_loop_ok:
  assumes law: "slate_law ops keys rest lk" and ts: "timestamp_law ts okt"
    and "rest it = map (version_key EAV_index) vs" and "\<forall>(e, a, v, tx, op) \<in> set vs. dt_wf okt v" and "length vs < n"
  shows "tx_result_loop ops ts n it r m = Ok (foldl result_step (r, m) vs)"
  using assms(3-)
proof (induction vs arbitrary: n it r m)
  case Nil
  obtain k where k: "n = Suc k" using Nil.prems(3) by (cases n) auto
  obtain it' where "it_next ops it = Ok (None, it')" using slate_next_Nil [OF law, of it] Nil.prems(1) by auto
  then show ?case using k by simp
next
  case (Cons x vs)
  obtain k where k: "n = Suc k" "length vs < k" using Cons.prems(3) by (cases n) auto
  obtain e a v t op where x: "x = (e, a, v, t, op)" by (cases x)
  obtain it' where it': "it_next ops it = Ok (Some (version_key EAV_index x), it')" "rest it' = map (version_key EAV_index) vs"
    using slate_next_Cons [OF law, of it] Cons.prems(1) by auto
  have parts: "eav_key_to_parts ts (version_key EAV_index x) = Ok (DLong e, a, v, t, op)"
    using eav_parts [OF ts] Cons.prems(2) x by auto
  have "tx_result_loop ops ts k it' r' m' = Ok (foldl result_step (r', m') vs)" for r' m'
    by (rule Cons.IH [OF it'(2)]) (use Cons.prems k in auto)
  then show ?case using it'(1) parts k(1) by (simp add: x result_step_apply Let_def)
qed

lemma foldl_result:
  assumes "\<forall>(e, a, v, tx, op) \<in> set vs. op \<noteq> RETRACT \<and> (a = DB_TX_RESULT \<longrightarrow> v = DLong x)"
    and "\<forall>(e, a, v, tx, op) \<in> set vs. a = DB_TX_ERROR \<longrightarrow> v = DString y"
  shows "foldl result_step (r, m) vs =
    (if \<exists>(e, a, v, tx, op) \<in> set vs. a = DB_TX_RESULT then Some x else r, if \<exists>(e, a, v, tx, op) \<in> set vs. a = DB_TX_ERROR then Some y else m)"
  using assms by (induction vs arbitrary: r m) (auto simp: result_step_apply)

definition outcome_of :: "tx_key \<Rightarrow> bool \<Rightarrow> string option \<Rightarrow> tx_outcome" where
  "outcome_of key committed err =
     (if committed then Committed
      else Aborted (case err of Some e \<Rightarrow> e | None \<Rightarrow> ''Transaction '' @ show_i64 (tx_id key) @ '' aborted''))"

lemma tx_versions:
  assumes "schema_core s"
  shows "datom_version s tx ` set (build_tx_entity_datoms tx key committed err) =
    {(tx, DB_TX_INSTANT, DInstant (system_time key), tx, ADD), (tx, DB_TX_ID, DLong (tx_id key), tx, ADD),
     (tx, DB_TX_RESULT, DLong (if committed then DB_TX_COMMITTED else DB_TX_ABORTED), tx, ADD)} \<union>
    (case err of None \<Rightarrow> {} | Some e \<Rightarrow> {(tx, DB_TX_ERROR, DString e, tx, ADD)})"
  using assms
  by (cases err) (auto simp: build_tx_entity_datoms_def Let_def datom_version_def schema_core_def core_attributes_def op_byte_def)

lemma lookup_tx_completion_ok:
  assumes law: "slate_law ops keys rest lk" and ts: "timestamp_law ts okt" and ix: "index_state keys db s' R" and fin: "finite R" "card R < n"
    and R: "\<forall>(e, a, v, tx, op) \<in> R. dt_wf okt v" and core: "schema_core s"
    and own: "{x \<in> R. fst x = tx} = datom_version s tx ` set (build_tx_entity_datoms tx key committed err)"
    and only: "\<forall>(e, a, v, u, op) \<in> R. a = DB_TX_ID \<and> v = DLong (tx_id key) \<and> op \<noteq> RETRACT \<longrightarrow> e = tx"
  shows "lookup_tx_completion ops n ts db key = Ok (Some \<lparr>c_tx_key = key, c_outcome = outcome_of key committed err\<rparr>)"
proof -
  let ?p = "encode_i64_bytes DB_TX_ID @ encode_datatype (DLong (tx_id key))"
  note own' = own [unfolded tx_versions [OF core]]
  have ave: "{k \<in> keys db. prefix [AVE] k} = version_key AVE_index ` R"
    using spec [of "\<lambda>it. {k \<in> keys db. prefix [index_byte it] k} = version_key it ` indexed s' it R" AVE_index] ix
    by (simp add: index_state_def indexed_single index_byte_def)
  obtain it vs where it: "scan_prefix ops db (AVE # ?p) = Ok it" "rest it = map (version_key AVE_index) vs"
    and vs: "set vs = {x \<in> R. prefix (AVE # ?p) (version_key AVE_index x)}" and len: "length vs \<le> card R"
    by (rule scan_versions [OF law ave fin(1) version_keys_inj(2) [OF R], of ?p])
  have sel: "(e, a, v, u, op) \<in> set vs \<longleftrightarrow> (e, a, v, u, op) \<in> R \<and> a = DB_TX_ID \<and> v = DLong (tx_id key)" for e a v u op
    using R prefix_version_ave [of v "DLong (tx_id key)" DB_TX_ID e a u op] dt_wf_storable(1) [of okt v] unfolding vs by auto
  have at: "(tx, DB_TX_ID, DLong (tx_id key), tx, ADD) \<in> R" using own' by blast
  have "find_tx_entity_loop ops ts n it = Ok (Some tx)"
  proof (rule find_tx_entity_loop_ok [OF law ts it(2)])
    show "\<exists>(e, a, v, u, op) \<in> set vs. op \<noteq> RETRACT"
      using sel [of tx DB_TX_ID "DLong (tx_id key)" tx ADD] at by (force simp: ADD_def RETRACT_def)
  qed (use sel only R len fin(2) in auto)
  moreover obtain it2 ws where it2: "scan_prefix ops db (EAV # entity_bytes tx) = Ok it2" "rest it2 = map (version_key EAV_index) ws"
    and ws: "set ws = {x \<in> R. prefix (EAV # entity_bytes tx) (version_key EAV_index x)}" and len2: "length ws \<le> card R"
    by (rule scan_versions [OF law index_state_eav [OF ix] fin(1) version_keys_inj(1) [OF R], of "entity_bytes tx"])
  have ws': "set ws = {x \<in> R. fst x = tx}"
    unfolding ws using prefix_version_entity [of tx] by (auto simp: entity_prefix_eq)
  have "tx_result_loop ops ts n it2 None None = Ok (foldl result_step (None, None) ws)"
    by (rule tx_result_loop_ok [OF law ts it2(2)]) (use ws R len2 fin(2) in auto)
  moreover have "foldl result_step (None, None) ws = (Some (if committed then DB_TX_COMMITTED else DB_TX_ABORTED), err)"
    by (subst foldl_result [where x = "if committed then DB_TX_COMMITTED else DB_TX_ABORTED" and y = "the err"])
      (auto simp: ws' own' DB_TX_INSTANT_def DB_TX_ID_def DB_TX_RESULT_def DB_TX_ERROR_def ADD_def RETRACT_def split: option.splits)
  ultimately show ?thesis
    using it(1) it2(1) by (simp add: lookup_tx_completion_def concat_bytes_def entity_bytes_def outcome_of_def
        DB_TX_COMMITTED_def DB_TX_ABORTED_def)
qed


lemma boot_tx_id: "(e, DB_TX_ID, v, u, op) \<in> boot_versions \<Longrightarrow> v = DLong 0"
proof -
  assume "(e, DB_TX_ID, v, u, op) \<in> boot_versions"
  then obtain d where d: "d \<in> set boot_datoms" "fst (the (get_attribute boot_schema (d_attribute d))) = DB_TX_ID" "d_value d = v"
    by (auto simp: boot_versions_def datom_version_def)
  from d(1) show ?thesis
  proof (cases rule: boot_datom_cases)
    case (1 f b w)
    then have "b \<in> {kw ''db'' ''ident'', kw ''db'' ''valueType'', kw ''db'' ''cardinality'', kw ''db'' ''unique''}"
      using boot_facts_attribute by blast
    then show ?thesis using d(2) 1(2) by (auto simp: fact_datom_def boot_attributes db_id_defs)
  next
    case 2
    then show ?thesis using d(2,3) by (auto simp: build_tx_entity_datoms_def Let_def boot_attributes db_id_defs BOOTSTRAP_TX_KEY_def)
  qed
qed


section \<open>Waiting\<close>



end
