(* ===== verification/Txlog.thy ===== *)
theory Txlog
  imports Indexer
begin

text \<open>
  The transaction logs and the subscription that feeds the indexer, \<^verbatim>\<open>src/log.rs\<close>,
  \<^verbatim>\<open>src/memory_log.rs\<close>, \<^verbatim>\<open>src/file_log.rs\<close> and \<^verbatim>\<open>src/clock.rs\<close>.

  The subscription runs beside the appends. What it meets is a list of events: each turn of the
  catch-up loop either finds its token cancelled or reads the log as it is at that moment, and the
  live phase receives a record, learns that it lagged, or finds the channel closed or the token
  cancelled. A list that ends before the loop does stands for a subscription that is still running.

  The two logs give one interface, the locale \<open>tx_log_reader\<close>: a read returns the records after
  a position. The file log keeps its records in bincode, a package outside the repository: its
  encoder and decoder are arguments, with the law \<open>bincode_law\<close>.
\<close>

section \<open>Records and clocks\<close>

record log_record =
  r_key :: tx_key
  r_record :: bytes

definition BOOTSTRAP_RECORD :: "tx_key \<Rightarrow> log_record" where
  "BOOTSTRAP_RECORD bootstrap_key = \<lparr>r_key = bootstrap_key, r_record = []\<rparr>"

abbreviation r_id :: "log_record \<Rightarrow> i64" where "r_id r \<equiv> tx_id (r_key r)"

text \<open>The system clock cuts what it reads to microseconds; the mock clock hands out a list.\<close>

definition system_clock_now :: "datetime \<Rightarrow> datetime" where
  "system_clock_now utc_now = utc_now\<lparr>dt_subnanos := 0\<rparr>"

definition mock_clock_now :: "datetime list \<Rightarrow> (datetime \<times> datetime list) result" where
  "mock_clock_now sys_times =
     (case sys_times of [] \<Rightarrow> Error (Panic ''No more instants in the mock clock'') | t # ts \<Rightarrow> Ok (t, ts))"

section \<open>Catching up\<close>

datatype 'l attempt =
    Token_cancelled
  | Read_log 'l bool

primrec catch_up_transactions ::
  "('l \<Rightarrow> i64 option \<Rightarrow> nat \<Rightarrow> log_record list result) \<Rightarrow> ('s \<Rightarrow> log_record \<Rightarrow> 's) \<Rightarrow> 'l attempt list \<Rightarrow> nat \<Rightarrow>
     nat option \<Rightarrow> i64 option \<times> 's \<Rightarrow> (i64 option \<times> 's) option" where
  "catch_up_transactions read_txs_after accept_record [] batch_limit remaining st = None"
| "catch_up_transactions read_txs_after accept_record (a # as) batch_limit remaining st =
     (case a of
        Token_cancelled \<Rightarrow> Some st
      | Read_log log cancelled_in_sleep \<Rightarrow>
          if remaining = Some 0 then Some st
          else
            (let read_limit = (case remaining of Some count \<Rightarrow> min count batch_limit | None \<Rightarrow> batch_limit)
             in case read_txs_after log (fst st) read_limit of
                  Inr txs \<Rightarrow>
                    if txs = [] then Some st
                    else
                      (let st' = (Some (r_id (last txs)), foldl accept_record (snd st) txs);
                           remaining' = map_option (\<lambda>count. count - length txs) remaining
                       in if length txs < read_limit then Some st'
                          else catch_up_transactions read_txs_after accept_record as batch_limit remaining' st')
                | Inl _ \<Rightarrow>
                    if cancelled_in_sleep then Some st
                    else catch_up_transactions read_txs_after accept_record as batch_limit remaining st))"

section \<open>Subscribing\<close>

datatype 'l live_event =
    Live_cancelled
  | Received log_record
  | Lagged nat "'l attempt list"
  | Channel_closed

definition u16_MAX :: nat where "u16_MAX = 65535"

primrec live_updates ::
  "('l \<Rightarrow> i64 option \<Rightarrow> nat \<Rightarrow> log_record list result) \<Rightarrow> ('s \<Rightarrow> log_record \<Rightarrow> 's) \<Rightarrow> 'l live_event list \<Rightarrow>
     i64 option \<times> 's \<Rightarrow> (i64 option \<times> 's) option" where
  "live_updates read_txs_after accept_record [] st = Some st"
| "live_updates read_txs_after accept_record (ev # evs) st =
     (case ev of
        Live_cancelled \<Rightarrow> Some st
      | Received r \<Rightarrow>
          (let already_seen = (case fst st of Some i \<Rightarrow> r_id r \<le>s i | None \<Rightarrow> False)
           in live_updates read_txs_after accept_record evs
                (if already_seen then st else (Some (r_id r), accept_record (snd st) r)))
      | Lagged missed attempts \<Rightarrow>
          (case catch_up_transactions read_txs_after accept_record attempts u16_MAX (Some missed) st of
             None \<Rightarrow> None
           | Some st' \<Rightarrow> live_updates read_txs_after accept_record evs st')
      | Channel_closed \<Rightarrow> Some st)"

definition subscribe ::
  "('l \<Rightarrow> i64 option \<Rightarrow> nat \<Rightarrow> log_record list result) \<Rightarrow> ('s \<Rightarrow> log_record \<Rightarrow> 's) \<Rightarrow> 'l attempt list \<Rightarrow>
     'l live_event list \<Rightarrow> i64 option \<Rightarrow> 's \<Rightarrow> (i64 option \<times> 's) option" where
  "subscribe read_txs_after accept_record attempts evs after_tx_id subscriber =
     Option.bind (catch_up_transactions read_txs_after accept_record attempts 100 None (after_tx_id, subscriber))
       (live_updates read_txs_after accept_record evs)"

text \<open>The subscriber of the tests, which keeps what it gets.\<close>

definition mock_accept :: "log_record list \<Rightarrow> log_record \<Rightarrow> log_record list" where
  "mock_accept records r = records @ [r]"

section \<open>The log in memory\<close>

record 'c memory_log =
  ml_txs :: "log_record list"
  ml_clock :: 'c
  ml_sent :: "log_record list"

definition memory_log_new :: "'c \<Rightarrow> 'c memory_log" where
  "memory_log_new clock = \<lparr>ml_txs = [], ml_clock = clock, ml_sent = []\<rparr>"

definition ml_ensure_bootstrap_record :: "tx_key \<Rightarrow> 'c memory_log \<Rightarrow> 'c memory_log result" where
  "ml_ensure_bootstrap_record bootstrap_key ml =
     (case ml_txs ml of
        r # _ \<Rightarrow>
          if r = BOOTSTRAP_RECORD bootstrap_key then Ok ml
          else Error (Err ''memory log starts with non-bootstrap record'')
      | [] \<Rightarrow> Ok (ml\<lparr>ml_txs := [BOOTSTRAP_RECORD bootstrap_key]\<rparr>))"

definition ml_read_txs_after :: "log_record list \<Rightarrow> i64 option \<Rightarrow> nat \<Rightarrow> log_record list result" where
  "ml_read_txs_after txs after_tx_id limit =
     (let start = (case after_tx_id of None \<Rightarrow> 0 | Some i \<Rightarrow> unat i + 1);
          stop = min (start + limit) (length txs)
      in if 2 ^ 64 \<le> start + limit then Error (Panic ''attempt to add with overflow'')
         else if length txs \<le> start then Ok [] else Ok (take (stop - start) (drop start txs)))"

text \<open>Appending has two steps: the record is pushed under the lock of the state, and sent to the
  channel after the lock is released.\<close>

definition ml_append_push ::
  "('c \<Rightarrow> (datetime \<times> 'c) result) \<Rightarrow> 'c memory_log \<Rightarrow> bytes \<Rightarrow> (log_record \<times> 'c memory_log) result" where
  "ml_append_push now ml record =
     rbind (now (ml_clock ml)) (\<lambda>(t, clock').
     let r = \<lparr>r_key = TxKey (of_nat (length (ml_txs ml))) t, r_record = record\<rparr>
     in Ok (r, ml\<lparr>ml_txs := ml_txs ml @ [r], ml_clock := clock'\<rparr>))"

definition ml_append_send :: "'c memory_log \<Rightarrow> log_record \<Rightarrow> 'c memory_log" where
  "ml_append_send ml r = ml\<lparr>ml_sent := ml_sent ml @ [r]\<rparr>"

definition ml_append_tx ::
  "('c \<Rightarrow> (datetime \<times> 'c) result) \<Rightarrow> 'c memory_log \<Rightarrow> bytes \<Rightarrow> (tx_key \<times> 'c memory_log) result" where
  "ml_append_tx now ml record =
     rbind (ml_append_push now ml record) (\<lambda>(r, ml'). Ok (r_key r, ml_append_send ml' r))"

section \<open>The log in a file\<close>

record 'c file_log =
  fl_bytes :: bytes
  fl_clock :: 'c
  fl_sent :: "log_record list"

type_synonym bincode_ser = "log_record \<Rightarrow> bytes"
type_synonym bincode_de = "bytes \<Rightarrow> (log_record \<times> bytes) option"

primrec fl_read_loop :: "bincode_de \<Rightarrow> nat \<Rightarrow> bytes \<Rightarrow> log_record list" where
  "fl_read_loop de 0 bytes = []"
| "fl_read_loop de (Suc n) bytes =
     (case de bytes of None \<Rightarrow> [] | Some (r, rest) \<Rightarrow> r # fl_read_loop de n rest)"

definition fl_read_txs_after :: "bincode_de \<Rightarrow> bytes \<Rightarrow> i64 option \<Rightarrow> nat \<Rightarrow> log_record list result" where
  "fl_read_txs_after de bytes after_tx_id limit =
     (case after_tx_id of
        None \<Rightarrow> Ok (fl_read_loop de limit bytes)
      | Some i \<Rightarrow>
          (case de (drop (unat i) bytes) of
             None \<Rightarrow> Ok []
           | Some (_, rest) \<Rightarrow> Ok (fl_read_loop de limit rest)))"

definition fl_ensure_bootstrap_record ::
  "bincode_ser \<Rightarrow> bincode_de \<Rightarrow> tx_key \<Rightarrow> 'c file_log \<Rightarrow> 'c file_log result" where
  "fl_ensure_bootstrap_record ser de bootstrap_key fl =
     rbind (fl_read_txs_after de (fl_bytes fl) None 1) (\<lambda>records.
     case records of
       r # _ \<Rightarrow>
         if r = BOOTSTRAP_RECORD bootstrap_key then Ok fl
         else Error (Err ''file log starts with non-bootstrap record'')
     | [] \<Rightarrow>
         if fl_bytes fl \<noteq> [] then Error (Err ''file log has bytes but no readable bootstrap record'')
         else Ok (fl\<lparr>fl_bytes := ser (BOOTSTRAP_RECORD bootstrap_key)\<rparr>))"

definition fl_append_write ::
  "bincode_ser \<Rightarrow> ('c \<Rightarrow> (datetime \<times> 'c) result) \<Rightarrow> 'c file_log \<Rightarrow> bytes \<Rightarrow> (log_record \<times> 'c file_log) result" where
  "fl_append_write ser now fl record =
     rbind (now (fl_clock fl)) (\<lambda>(t, clock').
     let r = \<lparr>r_key = TxKey (of_nat (length (fl_bytes fl))) t, r_record = record\<rparr>
     in Ok (r, fl\<lparr>fl_bytes := fl_bytes fl @ ser r, fl_clock := clock'\<rparr>))"

definition fl_append_send :: "'c file_log \<Rightarrow> log_record \<Rightarrow> 'c file_log" where
  "fl_append_send fl r = fl\<lparr>fl_sent := fl_sent fl @ [r]\<rparr>"

definition fl_append_tx ::
  "bincode_ser \<Rightarrow> ('c \<Rightarrow> (datetime \<times> 'c) result) \<Rightarrow> 'c file_log \<Rightarrow> bytes \<Rightarrow> (tx_key \<times> 'c file_log) result" where
  "fl_append_tx ser now fl record =
     rbind (fl_append_write ser now fl record) (\<lambda>(r, fl'). Ok (r_key r, fl_append_send fl' r))"

end
