(* ===== verification/Log_Props.thy ===== *)
theory Log_Props
  imports Txlog
begin

text \<open>
  The subscription over the interface of the logs: every record of the log reaches the subscriber
  exactly once and in the order of the log, through catch-up, live updates and lags, as long as the
  channel carries the records in the order of the log and no catch-up is cancelled. The interface is
  discharged for the log in memory and for the log in a file. What happens without the two
  provisos is shown on concrete runs.
\<close>

section \<open>Positions and timelines\<close>

text \<open>The number of the last of the first \<open>k\<close> records.\<close>

definition mark :: "log_record list \<Rightarrow> nat \<Rightarrow> i64 option" where
  "mark L k = (if k = 0 then None else Some (r_id (L ! (k - 1))))"

text \<open>
  The reads of a catch-up see growing parts of one log \<open>L\<close>, the first with at least \<open>m\<close> records; the
  result is the number of records known at the end. A cancelled catch-up has no such number.
\<close>

primrec timeline_reads :: "('l \<Rightarrow> log_record list) \<Rightarrow> ('l \<Rightarrow> bool) \<Rightarrow> log_record list \<Rightarrow> nat \<Rightarrow> 'l attempt list \<Rightarrow> nat option" where
  "timeline_reads records ok L m [] = Some m"
| "timeline_reads records ok L m (a # as) =
     (case a of
        Token_cancelled \<Rightarrow> None
      | Read_log l _ \<Rightarrow>
          if ok l \<and> prefix (records l) L \<and> m \<le> length (records l)
          then timeline_reads records ok L (length (records l)) as else None)"

text \<open>A channel that carries the log in order from position \<open>p\<close>: a lag skips records, all of them in the log.\<close>

primrec channel ::
  "('l \<Rightarrow> log_record list) \<Rightarrow> ('l \<Rightarrow> bool) \<Rightarrow> log_record list \<Rightarrow> nat \<times> nat \<Rightarrow> 'l live_event list \<Rightarrow> (nat \<times> nat) option" where
  "channel records ok L pm [] = Some pm"
| "channel records ok L pm (ev # evs) =
     (case ev of
        Received r \<Rightarrow>
          if fst pm < length L \<and> r = L ! fst pm
          then channel records ok L (Suc (fst pm), max (snd pm) (Suc (fst pm))) evs else None
      | Lagged n as \<Rightarrow>
          if fst pm + n \<le> length L then
            (case timeline_reads records ok L (max (snd pm) (fst pm + n)) as of
               None \<Rightarrow> None
             | Some m' \<Rightarrow> channel records ok L (fst pm + n, m') evs)
          else None
      | _ \<Rightarrow> Some pm)"

lemma mark_prefix: "prefix R L \<Longrightarrow> k \<le> length R \<Longrightarrow> mark R k = mark L k"
  by (auto simp: mark_def prefix_def nth_append)

lemma timeline_reads_mono: "timeline_reads records ok L m as = Some m' \<Longrightarrow> m \<le> m'"
  by (induction as arbitrary: m) (fastforce split: attempt.splits if_splits)+

lemma timeline_reads_le: "timeline_reads records ok L m as = Some m' \<Longrightarrow> m \<le> length L \<Longrightarrow> m' \<le> length L"
  by (induction as arbitrary: m) (auto split: attempt.splits if_splits dest: prefix_length_le)

lemma foldl_delivered:
  assumes "k \<le> j" and "j \<le> i"
  shows "foldl f (foldl f s (take (j - k) (drop k L))) (take (i - j) (drop j L)) = foldl f s (take (i - k) (drop k L))"
proof -
  have "take (i - k) (drop k L) = take (j - k) (drop k L) @ take (i - j) (drop (j - k) (drop k L))"
    using assms take_add [of "j - k" "i - j" "drop k L"] by simp
  then show ?thesis using assms by simp
qed

lemma take_length_take: "take (length (take n xs)) (xs @ zs) = take n xs"
  by (simp add: min_def)

section \<open>The interface of the logs\<close>

locale tx_log_reader =
  fixes read_txs :: "'l \<Rightarrow> i64 option \<Rightarrow> nat \<Rightarrow> log_record list result"
    and records :: "'l \<Rightarrow> log_record list" and ok :: "'l \<Rightarrow> bool"
  assumes ids: "ok l \<Longrightarrow> sorted_wrt (\<lambda>a b. sint (r_id a) < sint (r_id b)) (records l)"
    and reads: "ok l \<Longrightarrow> k \<le> length (records l) \<Longrightarrow> limit \<le> u16_MAX \<Longrightarrow>
      read_txs l (mark (records l) k) limit = Ok (take limit (drop k (records l)))"
begin

lemma catch_up_step:
  assumes l: "ok l" "prefix (records l) L" "k \<le> length (records l)"
    and limit: "limit = (case remaining of Some c \<Rightarrow> min c batch | None \<Rightarrow> batch)" "batch \<le> u16_MAX" and rem: "remaining \<noteq> Some 0"
  shows "catch_up_transactions read_txs acc (Read_log l c # as) batch remaining (mark L k, s) =
    (let txs = take limit (drop k (records l));
         st = (mark L (k + length txs), foldl acc s (take (length txs) (drop k L)))
     in if txs = [] \<or> length txs < limit then Some st
        else catch_up_transactions read_txs acc as batch (map_option (\<lambda>c. c - length txs) remaining) st)"
proof -
  let ?txs = "take limit (drop k (records l))"
  have lm: "limit \<le> u16_MAX" using limit by (auto split: option.splits)
  have rd: "read_txs l (mark L k) limit = Ok ?txs"
    using reads [OF l(1,3) lm] mark_prefix [OF l(2,3)] by simp
  obtain zs where "L = records l @ zs" using l(2) by (auto simp: prefix_def)
  then have "drop k L = drop k (records l) @ zs" using l(3) by simp
  then have tx: "take (length ?txs) (drop k L) = ?txs" by (simp only: take_length_take)
  have last: "Some (r_id (last ?txs)) = mark L (k + length ?txs)" if "?txs \<noteq> []"
  proof -
    have "last ?txs = ?txs ! (length ?txs - 1)" using last_conv_nth [OF that] .
    also have "\<dots> = records l ! (k + length ?txs - 1)" using that l(3) by (auto simp: min_def)
    also have "\<dots> = L ! (k + length ?txs - 1)" using that l(2,3) by (auto simp: prefix_def nth_append min_def)
    finally show ?thesis using that by (simp add: mark_def)
  qed
  show ?thesis
    using last rem
    by (cases "?txs = []") (simp_all add: limit(1) [symmetric] rd tx Let_def del: length_take length_drop take_eq_Nil)
qed

lemma catch_up_ok:
  assumes "timeline_reads records ok L m as = Some m'" and "k \<le> m" and "0 < batch" and "batch \<le> u16_MAX"
    and "catch_up_transactions read_txs acc as batch remaining (mark L k, s) = Some st"
  shows "\<exists>k'. k \<le> k' \<and> k' \<le> m' \<and> st = (mark L k', foldl acc s (take (k' - k) (drop k L))) \<and>
    (case remaining of None \<Rightarrow> m \<le> k' | Some c \<Rightarrow> min m (k + c) \<le> k')"
  using assms
proof (induction as arbitrary: m k remaining s)
  case (Cons a as)
  obtain l c where a: "a = Read_log l c" and l: "ok l" "prefix (records l) L" "m \<le> length (records l)"
    and tl: "timeline_reads records ok L (length (records l)) as = Some m'"
    using Cons.prems(1) by (auto split: attempt.splits if_splits)
  note mono = timeline_reads_mono [OF tl]
  have k: "k \<le> length (records l)" using l(3) Cons.prems(2) by simp
  show ?case
  proof (cases "remaining = Some 0")
    case True
    then show ?thesis using Cons.prems a l mono by (intro exI [of _ k]) auto
  next
    case False
    define limit where "limit = (case remaining of Some c \<Rightarrow> min c batch | None \<Rightarrow> batch)"
    let ?n = "length (take limit (drop k (records l)))"
    have pos: "0 < limit" using False Cons.prems(3) by (auto simp: limit_def split: option.splits)
    have n: "?n = min limit (length (records l) - k)" by simp
    note step = catch_up_step [OF l(1,2) k limit_def Cons.prems(4) False, of acc c as s]
    show ?thesis
    proof (cases "?n < limit")
      case True
      then have e: "k + ?n = length (records l)" using k n by simp
      have "st = (mark L (k + ?n), foldl acc s (take ?n (drop k L)))"
        using Cons.prems(5) True unfolding a step Let_def by (simp del: length_take length_drop take_eq_Nil)
      then show ?thesis
        using e mono l(3) by (intro exI [of _ "k + ?n"]) (auto split: option.splits)
    next
      case False
      then have n': "?n = limit" by simp
      then have le: "k + limit \<le> length (records l)" using k pos by simp
      have "catch_up_transactions read_txs acc as batch (map_option (\<lambda>c. c - limit) remaining)
          (mark L (k + limit), foldl acc s (take limit (drop k L))) = Some st"
        using Cons.prems(5) False pos n' unfolding a step Let_def by (simp split: if_splits)
      from Cons.IH [OF tl le Cons.prems(3,4) this] obtain k' where k': "k + limit \<le> k'" "k' \<le> m'"
        "st = (mark L k', foldl acc (foldl acc s (take limit (drop k L))) (take (k' - (k + limit)) (drop (k + limit) L)))"
        "case map_option (\<lambda>c. c - limit) remaining of None \<Rightarrow> length (records l) \<le> k' | Some c \<Rightarrow> min (length (records l)) (k + limit + c) \<le> k'"
        by blast
      have "st = (mark L k', foldl acc s (take (k' - k) (drop k L)))"
        using k'(3) foldl_delivered [of k "k + limit" k' acc s L] k'(1) by simp
      then show ?thesis
        using k' l(3) by (intro exI [of _ k']) (auto simp: limit_def split: option.splits)
    qed
  qed
qed simp

lemma seen_iff:
  assumes "ok l" and "L = records l" and "p \<le> k" and "p < length L" and "k \<le> length L"
  shows "(case mark L k of Some i \<Rightarrow> r_id (L ! p) \<le>s i | None \<Rightarrow> False) \<longleftrightarrow> p < k"
proof (cases "p < k")
  case True
  have "sint (r_id (L ! p)) \<le> sint (r_id (L ! (k - 1)))"
  proof (cases "p = k - 1")
    case False
    then have "p < k - 1" "k - 1 < length L" using True assms by simp_all
    then show ?thesis using sorted_wrt_nth_less [OF ids [OF assms(1)], of p "k - 1"] assms(2) by simp
  qed simp
  then show ?thesis using True by (simp add: mark_def word_sle_eq)
next
  case False
  then have "p = k" using assms(3) by simp
  moreover have "\<not> sint (r_id (L ! p)) \<le> sint (r_id (L ! (p - 1)))" if "0 < p"
    using sorted_wrt_nth_less [OF ids [OF assms(1)], of "p - 1" p] assms(2,4) that by simp
  ultimately show ?thesis by (simp add: mark_def word_sle_eq)
qed

lemma live_ok:
  assumes L: "ok l" "L = records l" and "channel records ok L (p, m) evs = Some (q, m')" and "p \<le> k" and "k \<le> m" and "m \<le> length L"
    and "live_updates read_txs acc evs (mark L k, s) = Some st"
  shows "\<exists>k'. k \<le> k' \<and> q \<le> k' \<and> k' \<le> m' \<and> m' \<le> length L \<and> st = (mark L k', foldl acc s (take (k' - k) (drop k L)))"
  using assms(3-)
proof (induction evs arbitrary: p m k s)
  case Nil
  then show ?case by (intro exI [of _ k]) auto
next
  case (Cons ev evs)
  show ?case
  proof (cases ev)
    case (Received r)
    then have p: "p < length L" "r = L ! p" and ch: "channel records ok L (Suc p, max m (Suc p)) evs = Some (q, m')"
      using Cons.prems(1) by (auto split: if_splits)
    have seen: "(case mark L k of Some i \<Rightarrow> r_id r \<le>s i | None \<Rightarrow> False) \<longleftrightarrow> p < k"
      unfolding p(2) by (rule seen_iff [OF L Cons.prems(2) p(1)]) (use Cons.prems(3,4) in simp)
    show ?thesis
    proof (cases "p < k")
      case True
      then have "live_updates read_txs acc evs (mark L k, s) = Some st" using Cons.prems(5) Received seen by simp
      then show ?thesis using Cons.IH [OF ch, of k s] True Cons.prems(3,4) p(1) by simp
    next
      case False
      then have k: "p = k" using Cons.prems(2) by simp
      have "Some (r_id r) = mark L (Suc k)" by (simp add: mark_def p(2) k)
      then have "live_updates read_txs acc evs (mark L (Suc k), acc s r) = Some st"
        using Cons.prems(5) Received seen False by (simp only: live_updates.simps live_event.case Let_def fst_conv snd_conv if_False)
      from Cons.IH [OF ch _ _ _ this] obtain k' where k': "Suc k \<le> k'" "q \<le> k'" "k' \<le> m'" "m' \<le> length L"
        "st = (mark L k', foldl acc (acc s r) (take (k' - Suc k) (drop (Suc k) L)))"
        using k p(1) Cons.prems(3,4) by auto
      have "take (k' - k) (drop k L) = r # take (k' - Suc k) (drop (Suc k) L)"
      proof -
        have "drop k L = r # drop (Suc k) L" using p k Cons_nth_drop_Suc [of k L] by simp
        moreover have "k' - k = Suc (k' - Suc k)" using k'(1) by simp
        ultimately show ?thesis by simp
      qed
      then show ?thesis using k' by (intro exI [of _ k']) simp
    qed
  next
    case (Lagged n as)
    then obtain m1 where pn: "p + n \<le> length L" and tl: "timeline_reads records ok L (max m (p + n)) as = Some m1"
      and ch: "channel records ok L (p + n, m1) evs = Some (q, m')"
      using Cons.prems(1) by (auto split: if_splits option.splits)
    obtain st1 where cu: "catch_up_transactions read_txs acc as u16_MAX (Some n) (mark L k, s) = Some st1"
      and lv: "live_updates read_txs acc evs st1 = Some st"
      using Cons.prems(5) Lagged by (auto split: option.splits)
    obtain k1 where k1: "k \<le> k1" "k1 \<le> m1" "st1 = (mark L k1, foldl acc s (take (k1 - k) (drop k L)))" "min (max m (p + n)) (k + n) \<le> k1"
      using catch_up_ok [OF tl _ _ _ cu] le_trans [OF Cons.prems(3) max.cobounded1] by (auto simp: u16_MAX_def)
    have "m1 \<le> length L" using timeline_reads_le [OF tl] Cons.prems(4) pn by simp
    moreover have "p + n \<le> k1" using k1(4) Cons.prems(2) by (auto simp: min_def max_def split: if_splits)
    ultimately obtain k' where k': "k1 \<le> k'" "q \<le> k'" "k' \<le> m'" "m' \<le> length L"
      "st = (mark L k', foldl acc (foldl acc s (take (k1 - k) (drop k L))) (take (k' - k1) (drop k1 L)))"
      using Cons.IH [OF ch, of k1] k1(2,3) lv by blast
    then show ?thesis using k1(1) foldl_delivered [of k k1 k' acc s L] by (intro exI [of _ k']) auto
  qed (use Cons.prems in \<open>auto intro!: exI [of _ k]\<close>)
qed

lemma exactly_once:
  assumes "ok l" and "L = records l" and "timeline_reads records ok L m as = Some m1" and "channel records ok L (p, m1) evs = Some (q, m2)"
    and "p \<le> m" and "k \<le> m" and "m \<le> length L" and "subscribe read_txs acc as evs (mark L k) s = Some st"
  shows "\<exists>k'. k \<le> k' \<and> q \<le> k' \<and> k' \<le> length L \<and> st = (mark L k', foldl acc s (take (k' - k) (drop k L)))"
proof -
  obtain st1 where cu: "catch_up_transactions read_txs acc as 100 None (mark L k, s) = Some st1"
    and lv: "live_updates read_txs acc evs st1 = Some st"
    using assms(8) by (auto simp: subscribe_def bind_eq_Some_conv)
  obtain k1 where k1: "k \<le> k1" "k1 \<le> m1" "st1 = (mark L k1, foldl acc s (take (k1 - k) (drop k L)))" "m \<le> k1"
    using catch_up_ok [OF assms(3,6) _ _ cu] by (auto simp: u16_MAX_def)
  have "m1 \<le> length L" using timeline_reads_le assms(3,7) by blast
  then obtain k' where "k1 \<le> k'" "q \<le> k'" "k' \<le> m2" "m2 \<le> length L"
    "st = (mark L k', foldl acc (foldl acc s (take (k1 - k) (drop k L))) (take (k' - k1) (drop k1 L)))"
    using live_ok [OF assms(1,2,4) _ k1(2) _ lv [unfolded k1(3)]] k1(4) assms(5) by auto
  then show ?thesis using k1(1) foldl_delivered [of k k1 k' acc s L] by (intro exI [of _ k']) auto
qed

text \<open>A catch-up over logs of at most \<open>b\<close> records ends within as many reads and one more.\<close>

lemma catch_up_ends:
  assumes "timeline_reads records ok L m as = Some m'" and "k \<le> m" and "0 < batch" and "batch \<le> u16_MAX" and "length L < k + length as"
    and "m \<le> length L"
  shows "\<exists>st. catch_up_transactions read_txs acc as batch remaining (mark L k, s) = Some st"
  using assms
proof (induction as arbitrary: m k remaining s)
  case Nil
  then show ?case by simp
next
  case (Cons a as)
  obtain l c where a: "a = Read_log l c" and l: "ok l" "prefix (records l) L" "m \<le> length (records l)"
    and tl: "timeline_reads records ok L (length (records l)) as = Some m'"
    using Cons.prems(1) by (auto split: attempt.splits if_splits)
  have k: "k \<le> length (records l)" using l(3) Cons.prems(2) by simp
  show ?case
  proof (cases "remaining = Some 0")
    case False
    define limit where "limit = (case remaining of Some c \<Rightarrow> min c batch | None \<Rightarrow> batch)"
    let ?txs = "take limit (drop k (records l))"
    note step = catch_up_step [OF l(1,2) k limit_def Cons.prems(4) False, of acc c as s]
    have "?txs = [] \<or> k + length ?txs \<le> length (records l) \<and> length L < k + length ?txs + length as"
    proof (cases "?txs = []")
      case False
      then have "0 < length ?txs" by blast
      moreover have "length ?txs \<le> length (records l) - k" by simp
      ultimately show ?thesis using Cons.prems(5) k unfolding length_Cons by linarith
    qed simp
    then show ?thesis
      using Cons.IH [OF tl _ Cons.prems(3,4), of "k + length ?txs"] prefix_length_le [OF l(2)] unfolding a step Let_def by auto
  qed (simp add: a)
qed

end

section \<open>The log in memory\<close>

definition ml_ok :: "log_record list \<Rightarrow> bool" where
  "ml_ok L \<longleftrightarrow> length L < 2 ^ 63 \<and> (\<forall>i < length L. r_id (L ! i) = of_nat i)"

lemma sint_of_nat_small: "i < 2 ^ 63 \<Longrightarrow> sint (of_nat i :: i64) = int i"
proof -
  assume i: "i < 2 ^ 63"
  then have "uint (of_nat i :: i64) = int i" by (simp add: uint_nat unat_of_nat)
  then show ?thesis using i by (simp add: sint_cases)
qed

lemma unat_of_nat_small: "i < 2 ^ 63 \<Longrightarrow> unat (of_nat i :: i64) = i"
  by (simp add: unat_of_nat)

interpretation ml: tx_log_reader ml_read_txs_after "\<lambda>L. L" ml_ok
proof
  fix L :: "log_record list"
  assume ok: "ml_ok L"
  show "sorted_wrt (\<lambda>a b. sint (r_id a) < sint (r_id b)) L"
    using ok by (auto simp: sorted_wrt_iff_nth_less ml_ok_def sint_of_nat_small)
  fix k limit
  assume k: "k \<le> length L" and limit: "limit \<le> u16_MAX"
  have start: "(case mark L k of None \<Rightarrow> 0 | Some i \<Rightarrow> unat i + 1) = k"
  proof (cases k)
    case (Suc j)
    then have "r_id (L ! j) = of_nat j" "j < 2 ^ 63" using ok k by (simp_all add: ml_ok_def)
    then show ?thesis using unat_of_nat_small [of j] Suc by (simp add: mark_def)
  qed (simp add: mark_def)
  have "k + limit < 2 ^ 64" using ok k limit by (simp add: ml_ok_def u16_MAX_def)
  then show "ml_read_txs_after L (mark L k) limit = Ok (take limit (drop k L))"
    unfolding ml_read_txs_after_def start Let_def by (auto simp: min_def)
qed

lemma ml_append_ok:
  assumes "ml_ok (ml_txs ml)" and "Suc (length (ml_txs ml)) < 2 ^ 63" and "ml_append_push now ml record = Ok (r, ml')"
  shows "ml_ok (ml_txs ml')" and "ml_txs ml' = ml_txs ml @ [r]" and "r_record r = record"
  using assms by (auto simp: ml_append_push_def ml_ok_def Let_def nth_append less_Suc_eq)

section \<open>The log in a file\<close>

text \<open>What is used of bincode: a record is read back from its bytes, whatever follows them, a record
  has bytes, and nothing is read from an empty file.\<close>

definition bincode_law :: "bincode_ser \<Rightarrow> bincode_de \<Rightarrow> bool" where
  "bincode_law ser de \<longleftrightarrow> (\<forall>r rest. de (ser r @ rest) = Some (r, rest)) \<and> (\<forall>r. ser r \<noteq> []) \<and> de [] = None"

text \<open>Records carry the offset of their first byte.\<close>

primrec offsets :: "bincode_ser \<Rightarrow> nat \<Rightarrow> log_record list \<Rightarrow> bool" where
  "offsets ser p [] = True"
| "offsets ser p (r # rs) = (r_id r = of_nat p \<and> offsets ser (p + length (ser r)) rs)"

definition fl_records :: "bincode_de \<Rightarrow> bytes \<Rightarrow> log_record list" where
  "fl_records de bs = fl_read_loop de (length bs) bs"

definition fl_ok :: "bincode_ser \<Rightarrow> bincode_de \<Rightarrow> bytes \<Rightarrow> bool" where
  "fl_ok ser de bs \<longleftrightarrow> bincode_law ser de \<and> length bs < 2 ^ 63 \<and> bs = concat (map ser (fl_records de bs)) \<and> offsets ser 0 (fl_records de bs)"

lemma offsets_append: "offsets ser p (xs @ ys) \<longleftrightarrow> offsets ser p xs \<and> offsets ser (p + length (concat (map ser xs))) ys"
  by (induction xs arbitrary: p) (auto simp: add.assoc)

lemma offsets_nth: "offsets ser p rs \<Longrightarrow> j < length rs \<Longrightarrow> r_id (rs ! j) = of_nat (p + length (concat (map ser (take j rs))))"
  by (induction rs arbitrary: p j) (auto simp: nth_Cons' take_Cons' add.assoc split: nat.splits if_splits)

lemma fl_read_loop_concat:
  assumes "bincode_law ser de"
  shows "fl_read_loop de n (concat (map ser rs)) = take n rs"
  using assms by (induction rs arbitrary: n) (case_tac n; auto simp: bincode_law_def)+

lemma length_concat_ser:
  assumes "bincode_law ser de"
  shows "length rs \<le> length (concat (map ser rs))"
proof (induction rs)
  case (Cons r rs)
  have "1 \<le> length (ser r)" using assms by (simp add: bincode_law_def Suc_le_eq)
  with Cons show ?case unfolding length_Cons list.simps concat.simps length_append by linarith
qed simp

lemma fl_records_concat: "bincode_law ser de \<Longrightarrow> fl_records de (concat (map ser rs)) = rs"
  using length_concat_ser by (simp add: fl_records_def fl_read_loop_concat)

lemma offset_less:
  assumes law: "bincode_law ser de" and "i < j" and "j < length rs"
  shows "length (concat (map ser (take i rs))) < length (concat (map ser (take j rs)))"
    and "length (concat (map ser (take j rs))) \<le> length (concat (map ser rs))"
proof -
  have "take j rs = take i rs @ rs ! i # drop (Suc i) (take j rs)"
    using assms(2,3) id_take_nth_drop [of i "take j rs"] by (simp add: min_def)
  then have "length (concat (map ser (take j rs))) =
      length (concat (map ser (take i rs))) + length (ser (rs ! i)) + length (concat (map ser (drop (Suc i) (take j rs))))"
    by (metis add.assoc concat.simps(2) concat_append length_append list.simps(9) map_append)
  moreover have "0 < length (ser (rs ! i))" using law by (simp add: bincode_law_def)
  ultimately show "length (concat (map ser (take i rs))) < length (concat (map ser (take j rs)))" by simp
  have "concat (map ser rs) = concat (map ser (take j rs)) @ concat (map ser (drop j rs))"
    by (metis append_take_drop_id concat_append map_append)
  then show "length (concat (map ser (take j rs))) \<le> length (concat (map ser rs))" by simp
qed

lemma fl_ok_offset:
  assumes "fl_ok ser de bs" and "j < length (fl_records de bs)"
  shows "r_id (fl_records de bs ! j) = of_nat (length (concat (map ser (take j (fl_records de bs)))))"
    and "length (concat (map ser (take j (fl_records de bs)))) < 2 ^ 63"
proof -
  let ?rs = "fl_records de bs"
  have ok: "bs = concat (map ser ?rs)" "offsets ser 0 ?rs" "length bs < 2 ^ 63" using assms(1) unfolding fl_ok_def by blast+
  show "r_id (?rs ! j) = of_nat (length (concat (map ser (take j ?rs))))" using offsets_nth [OF ok(2) assms(2)] by simp
  have "concat (map ser ?rs) = concat (map ser (take j ?rs)) @ concat (map ser (drop j ?rs))"
    by (metis append_take_drop_id concat_append map_append)
  then have "length (concat (map ser (take j ?rs))) \<le> length bs" using arg_cong [OF ok(1), of length] by simp
  then show "length (concat (map ser (take j ?rs))) < 2 ^ 63" using ok(3) by simp
qed

interpretation fl: tx_log_reader "fl_read_txs_after de" "fl_records de" "fl_ok ser de" for ser de
proof
  fix bs
  assume ok: "fl_ok ser de bs"
  let ?rs = "fl_records de bs"
  have law: "bincode_law ser de" and bs: "concat (map ser ?rs) = bs" using ok unfolding fl_ok_def by simp_all
  have "sint (r_id (?rs ! i)) < sint (r_id (?rs ! j))" if "i < j" "j < length ?rs" for i j
    using fl_ok_offset [OF ok, of i] fl_ok_offset [OF ok, of j] offset_less(1) [OF law that] that by (simp add: sint_of_nat_small)
  then show "sorted_wrt (\<lambda>a b. sint (r_id a) < sint (r_id b)) ?rs" by (simp add: sorted_wrt_iff_nth_less)
  fix k limit
  assume k: "k \<le> length ?rs"
  show "fl_read_txs_after de bs (mark ?rs k) limit = Ok (take limit (drop k ?rs))"
  proof (cases k)
    case 0
    then show ?thesis using fl_read_loop_concat [OF law, of limit ?rs] bs by (simp add: fl_read_txs_after_def mark_def)
  next
    case (Suc j)
    then have j: "j < length ?rs" using k by simp
    have split: "bs = concat (map ser (take j ?rs)) @ ser (?rs ! j) @ concat (map ser (drop k ?rs))"
      using bs id_take_nth_drop [OF j] Suc by (metis concat.simps(2) concat_append list.simps(9) map_append)
    have "mark ?rs k = Some (of_nat (length (concat (map ser (take j ?rs)))))"
      using fl_ok_offset(1) [OF ok j] Suc by (simp add: mark_def)
    moreover have "drop (length (concat (map ser (take j ?rs)))) bs = ser (?rs ! j) @ concat (map ser (drop k ?rs))"
      using split by (metis append_eq_conv_conj)
    moreover have "de (ser (?rs ! j) @ concat (map ser (drop k ?rs))) = Some (?rs ! j, concat (map ser (drop k ?rs)))"
      using law by (simp add: bincode_law_def)
    ultimately show ?thesis
      using fl_ok_offset(2) [OF ok j] fl_read_loop_concat [OF law, of limit "drop k ?rs"]
      by (simp add: fl_read_txs_after_def unat_of_nat_small)
  qed
qed

lemma fl_append_ok:
  assumes ok: "fl_ok ser de (fl_bytes fl)" and run: "fl_append_write ser now fl record = Ok (r, fl')"
    and len: "length (fl_bytes fl') < 2 ^ 63"
  shows "fl_ok ser de (fl_bytes fl')" and "fl_records de (fl_bytes fl') = fl_records de (fl_bytes fl) @ [r]" and "r_record r = record"
proof -
  let ?rs = "fl_records de (fl_bytes fl)"
  have law: "bincode_law ser de" and bs: "concat (map ser ?rs) = fl_bytes fl" and off: "offsets ser 0 ?rs"
    using ok unfolding fl_ok_def by simp_all
  have r: "r_id r = of_nat (length (fl_bytes fl))" "r_record r = record" and bs': "fl_bytes fl' = fl_bytes fl @ ser r"
    using run by (auto simp: fl_append_write_def Let_def)
  then show "r_record r = record" by simp
  have cat: "fl_bytes fl' = concat (map ser (?rs @ [r]))" using bs bs' by simp
  then show recs: "fl_records de (fl_bytes fl') = ?rs @ [r]" using fl_records_concat [OF law] by metis
  have "offsets ser 0 (?rs @ [r])" using off r(1) by (simp add: offsets_append bs)
  then show "fl_ok ser de (fl_bytes fl')" unfolding fl_ok_def recs using law len cat by blast
qed

section \<open>Exactly once\<close>

text \<open>C5: A subscription to the log in memory hands every record to the subscriber exactly once, in the
  order of the log and without gaps: from the record after the starting point up to some position that
  covers everything the channel has carried so far, through the catch-up, the live updates and any
  number of lags. The channel carries the records in the order of the log, starting no later than the
  first read, and no catch-up is cancelled.\<close>

theorem memory_subscription_exactly_once:
  assumes "ml_ok L" and "timeline_reads (\<lambda>L. L) ml_ok L m attempts = Some m1"
    and "channel (\<lambda>L. L) ml_ok L (p, m1) evs = Some (q, m2)" and "p \<le> m" and "k \<le> m" and "m \<le> length L"
    and "subscribe ml_read_txs_after accept_record attempts evs (mark L k) subscriber = Some (last_tx_id, subscriber')"
  shows "\<exists>k'. k \<le> k' \<and> q \<le> k' \<and> k' \<le> length L \<and> last_tx_id = mark L k' \<and>
    subscriber' = foldl accept_record subscriber (take (k' - k) (drop k L))"
  using ml.exactly_once [OF assms(1) refl assms(2-7)] by auto

abbreviation log_entry :: "i64 \<Rightarrow> log_record" where
  "log_entry i \<equiv> \<lparr>r_key = TxKey i \<lparr>dt_micros = i, dt_subnanos = 0\<rparr>, r_record = []\<rparr>"

theorem memory_subscription_exactly_once_witness:
  "\<exists>k' last_tx_id got.
     subscribe ml_read_txs_after mock_accept [Read_log [log_entry 0] False]
       [Received (log_entry 0), Received (log_entry 1), Lagged 1 [Read_log [log_entry 0, log_entry 1, log_entry 2] False, Read_log [log_entry 0, log_entry 1, log_entry 2] False]]
       None [] = Some (last_tx_id, got) \<and>
     3 \<le> k' \<and> k' \<le> 3 \<and> got = foldl mock_accept [] (take k' [log_entry 0, log_entry 1, log_entry 2])"
proof -
  let ?L = "[log_entry 0, log_entry 1, log_entry 2]"
  have ok: "ml_ok ?L" "ml_ok [log_entry 0]" by (auto simp: ml_ok_def nth_Cons' less_Suc_eq)
  have run: "subscribe ml_read_txs_after mock_accept [Read_log [log_entry 0] False]
       [Received (log_entry 0), Received (log_entry 1), Lagged 1 [Read_log ?L False, Read_log ?L False]] None [] = Some (Some 2, ?L)"
    by (simp add: subscribe_def ml_read_txs_after_def mock_accept_def u16_MAX_def Let_def word_sle_eq)
  have "mark ?L 0 = None" by (simp add: mark_def)
  then show ?thesis
    using memory_subscription_exactly_once [OF ok(1), of 0 "[Read_log [log_entry 0] False]" 1 0
        "[Received (log_entry 0), Received (log_entry 1), Lagged 1 [Read_log ?L False, Read_log ?L False]]" 3 3 0 mock_accept "[]" "Some 2" ?L] ok run
    by auto
qed

text \<open>C32: What is appended to the log in a file is read back: appending keeps the file a log whose
  records carry the offsets of their first bytes, the new record comes last, and a read after any record
  returns the records that follow it, in order and up to the limit.\<close>

theorem file_log_append_read:
  assumes "fl_ok ser de (fl_bytes fl)" and "fl_append_tx ser now fl record = Ok (key, fl')" and "length (fl_bytes fl') < 2 ^ 63"
    and "k \<le> Suc (length (fl_records de (fl_bytes fl)))" and "limit \<le> u16_MAX"
  shows "\<exists>r. r_key r = key \<and> r_record r = record \<and> fl_ok ser de (fl_bytes fl') \<and>
    fl_read_txs_after de (fl_bytes fl') (mark (fl_records de (fl_bytes fl) @ [r]) k) limit =
      Ok (take limit (drop k (fl_records de (fl_bytes fl) @ [r])))"
proof -
  obtain r fl1 where w: "fl_append_write ser now fl record = Ok (r, fl1)" and k: "r_key r = key" "fl_bytes fl' = fl_bytes fl1"
    using assms(2) by (auto simp: fl_append_tx_def fl_append_send_def)
  note a = fl_append_ok [OF assms(1) w assms(3) [unfolded k(2)]]
  have "fl_read_txs_after de (fl_bytes fl1) (mark (fl_records de (fl_bytes fl1)) k) limit = Ok (take limit (drop k (fl_records de (fl_bytes fl1))))"
    by (rule fl.reads [OF a(1) _ assms(5)]) (use assms(4) a(2) in simp)
  then show ?thesis using a k by auto
qed

text \<open>An encoding of records that satisfies the law, made from the value codec.\<close>

definition value_ser :: bincode_ser where
  "value_ser r = encode_datatype (DVector [DLong (r_id r), DLong (dt_micros (system_time (r_key r))),
     DBytes (replicate (dt_subnanos (system_time (r_key r))) 0), DBytes (r_record r)])"

definition value_de :: bincode_de where
  "value_de bs = (case decode_datatype any_timestamp bs of
     Inr (DVector [DLong i, DLong m, DBytes z, DBytes b], rest) \<Rightarrow>
       Some (\<lparr>r_key = TxKey i \<lparr>dt_micros = m, dt_subnanos = length z\<rparr>, r_record = b\<rparr>, rest)
   | _ \<Rightarrow> None)"

lemma value_law: "bincode_law value_ser value_de"
proof -
  have "value_de (value_ser r @ rest) = Some (r, rest)" for r rest
    using decode_encode_datatype [OF any_timestamp_law [of "\<lambda>_. True"], of
        "DVector [DLong (r_id r), DLong (dt_micros (system_time (r_key r))),
           DBytes (replicate (dt_subnanos (system_time (r_key r))) 0), DBytes (r_record r)]" rest]
    by (cases "r_key r") (simp add: value_ser_def value_de_def)
  moreover have "value_ser r \<noteq> []" for r by (simp add: value_ser_def encode_datatype.simps)
  moreover have "value_de [] = None" by (simp add: value_de_def decode_datatype_def)
  ultimately show ?thesis by (simp add: bincode_law_def)
qed

theorem file_log_append_read_witness:
  "\<exists>key fl'. fl_append_tx value_ser mock_clock_now \<lparr>fl_bytes = [], fl_clock = [\<lparr>dt_micros = 0, dt_subnanos = 0\<rparr>], fl_sent = []\<rparr> [5] =
       Ok (key, fl') \<and>
     (\<exists>r. r_key r = key \<and> r_record r = [5] \<and> fl_ok value_ser value_de (fl_bytes fl') \<and>
       fl_read_txs_after value_de (fl_bytes fl') None 1 = Ok [r])"
proof -
  let ?fl = "\<lparr>fl_bytes = [], fl_clock = [\<lparr>dt_micros = 0, dt_subnanos = 0\<rparr>], fl_sent = []\<rparr> :: datetime list file_log"
  let ?r = "\<lparr>r_key = TxKey 0 \<lparr>dt_micros = 0, dt_subnanos = 0\<rparr>, r_record = [5]\<rparr>"
  obtain fl' where run: "fl_append_tx value_ser mock_clock_now ?fl [5] = Ok (r_key ?r, fl')" and bs: "fl_bytes fl' = value_ser ?r"
    by (intro that [of "\<lparr>fl_bytes = value_ser ?r, fl_clock = [], fl_sent = [?r]\<rparr>"])
      (simp_all add: fl_append_tx_def fl_append_write_def fl_append_send_def mock_clock_now_def Let_def)
  have nil: "fl_records value_de [] = []" by (simp add: fl_records_def)
  have ok: "fl_ok value_ser value_de (fl_bytes ?fl)" by (simp add: fl_ok_def value_law nil)
  have len: "length (fl_bytes fl') < 2 ^ 63" unfolding bs by (simp add: value_ser_def codec_simps encode_bytes_def escape_byte_def)
  show ?thesis
    using file_log_append_read [OF ok run len, of 0 1] run by (auto simp: nil mark_def u16_MAX_def)
qed

section \<open>Without the provisos\<close>


text \<open>A catch-up that is cancelled after a lag ends without reading; the live phase may still take the next
  record of the channel before it notices, and then the records of the lag are skipped for good.\<close>

lemma cancelled_catch_up_leaves_gap:
  "subscribe ml_read_txs_after mock_accept [Read_log [log_entry 0] False] [Lagged 1 [Token_cancelled], Received (log_entry 2)] None [] =
     Some (Some 2, [log_entry 0, log_entry 2])"
  by (simp add: subscribe_def ml_read_txs_after_def mock_accept_def Let_def word_sle_eq)

end
