(* ===== verification/Binding_Bag.thy ===== *)
theory Binding_Bag
  imports Data_Types
begin

text \<open>
  Bags of bindings, \<^verbatim>\<open>src/query/binding_bag.rs\<close>: the intermediate results of a query are rows of
  encoded values under a list of variables, with a map from variables to columns. A row out of
  range is an error, a column out of range of a row is a panic; \<open>bag_wf\<close> is what \<open>bb_new\<close> checks,
  every operation keeps it, and no operation panics on bags that satisfy it.

  The joins build a hash index over one of the two sides. Their reference definitions are nested
  loops over the rows.
\<close>

section \<open>Bags\<close>

type_synonym binding_row = "bytes list"

record binding_bag =
  bb_variables :: "variable list"
  bb_rows :: "binding_row list"
  column_indexes :: "variable \<rightharpoonup> nat"

definition ensure_all :: "('a \<Rightarrow> bool) \<Rightarrow> string \<Rightarrow> 'a list \<Rightarrow> unit result" where
  "ensure_all P msg xs = rfold (\<lambda>_ x. ensure (P x) msg) () xs"

definition index_column :: "(variable \<rightharpoonup> nat) \<Rightarrow> nat \<times> variable \<Rightarrow> (variable \<rightharpoonup> nat) result" where
  "index_column cols = (\<lambda>(index, v).
     rbind (ensure (cols v = None) ''BindingBag variables must be unique'') (\<lambda>_. Ok (cols(v \<mapsto> index))))"

definition bb_new :: "variable list \<Rightarrow> binding_row list \<Rightarrow> binding_bag result" where
  "bb_new vs rs =
     rbind (rfold index_column Map.empty (enumerate 0 vs)) (\<lambda>cols.
     rbind (ensure_all (\<lambda>row. length row = length vs) ''BindingBag row has the wrong arity'' rs) (\<lambda>_.
     Ok \<lparr>bb_variables = vs, bb_rows = rs, column_indexes = cols\<rparr>))"

definition with_rows :: "binding_bag \<Rightarrow> binding_row list \<Rightarrow> binding_bag" where
  "with_rows b rs = \<lparr>bb_variables = bb_variables b, bb_rows = rs, column_indexes = column_indexes b\<rparr>"

definition bb_unit :: binding_bag where
  "bb_unit = \<lparr>bb_variables = [], bb_rows = [[]], column_indexes = Map.empty\<rparr>"

definition bb_empty :: "variable list \<Rightarrow> binding_bag result" where
  "bb_empty vs = bb_new vs []"

definition column_index :: "binding_bag \<Rightarrow> variable \<Rightarrow> nat result" where
  "column_index b v = ok_or (column_indexes b v) ''Unknown BindingBag variable''"

definition projection_step ::
  "binding_bag \<Rightarrow> variable set \<times> nat list \<Rightarrow> variable \<Rightarrow> (variable set \<times> nat list) result" where
  "projection_step b = (\<lambda>(seen, indexes) v.
     rbind (ensure (v \<notin> seen) ''Projection variables must be unique'') (\<lambda>_.
     rbind (column_index b v) (\<lambda>i. Ok (insert v seen, indexes @ [i]))))"

definition projection_indexes :: "binding_bag \<Rightarrow> variable list \<Rightarrow> nat list result" where
  "projection_indexes b vs = rbind (rfold (projection_step b) ({}, []) vs) (\<lambda>(_, indexes). Ok indexes)"

definition select_rows :: "binding_bag \<Rightarrow> nat list \<Rightarrow> binding_bag result" where
  "select_rows b row_indexes =
     rbind (rmapM (\<lambda>i. if i < length (bb_rows b) then Ok (bb_rows b ! i)
                       else Error (Err ''Unknown BindingBag row index'')) row_indexes) (\<lambda>rs.
     Ok (with_rows b rs))"

definition extend_row :: "nat \<Rightarrow> binding_row list \<Rightarrow> binding_row \<times> binding_row list \<Rightarrow> binding_row list result" where
  "extend_row arity out = (\<lambda>(input, input_extensions).
     rfold (\<lambda>out extension.
       rbind (ensure (length extension = arity) ''BindingBag extension has the wrong arity'') (\<lambda>_.
       Ok (out @ [input @ extension]))) out input_extensions)"

definition unseen :: "string \<Rightarrow> variable set \<Rightarrow> variable \<Rightarrow> variable set result" where
  "unseen msg seen v = rbind (ensure (v \<notin> seen) msg) (\<lambda>_. Ok (insert v seen))"

definition extend_rows :: "binding_bag \<Rightarrow> variable list \<Rightarrow> binding_row list list \<Rightarrow> binding_bag result" where
  "extend_rows b added extensions =
     rbind (ensure (length extensions = length (bb_rows b)) ''BindingBag extensions have the wrong number of input rows'') (\<lambda>_.
     rbind (rfold (unseen ''Extended BindingBag variables must be unique'') (set (bb_variables b)) added) (\<lambda>_.
     rbind (rfold (extend_row (length added)) [] (zip (bb_rows b) extensions)) (\<lambda>rs.
     bb_new (bb_variables b @ added) rs)))"

definition row_key :: "binding_row \<Rightarrow> nat list \<Rightarrow> binding_row result" where
  "row_key row indexes =
     rmapM (\<lambda>i. if i < length row then Ok (row ! i) else Error (Panic ''index out of bounds'')) indexes"

definition project :: "binding_bag \<Rightarrow> variable list \<Rightarrow> binding_bag result" where
  "project b vs =
     (if vs = bb_variables b then Ok b
      else rbind (projection_indexes b vs) (\<lambda>indexes.
           rbind (rmapM (\<lambda>row. row_key row indexes) (bb_rows b)) (\<lambda>rs.
           bb_new vs rs)))"

definition reorder :: "binding_bag \<Rightarrow> variable list \<Rightarrow> binding_bag result" where
  "reorder b vs =
     rbind (ensure (length vs = length (bb_variables b)) ''Reordered layout must contain exactly the current variables'') (\<lambda>_.
     project b vs)"

primrec distinct_loop :: "binding_row set \<Rightarrow> binding_row list \<Rightarrow> binding_row list" where
  "distinct_loop seen [] = []"
| "distinct_loop seen (row # rs) =
     (if row \<in> seen then distinct_loop seen rs else row # distinct_loop (insert row seen) rs)"

definition bb_distinct :: "binding_bag \<Rightarrow> binding_bag" where
  "bb_distinct b = with_rows b (distinct_loop {} (bb_rows b))"

definition index_by :: "binding_bag \<Rightarrow> variable list \<Rightarrow> (binding_row \<times> nat list) list result" where
  "index_by b vs =
     rbind (projection_indexes b vs) (\<lambda>indexes.
     rfold (\<lambda>index (i, row).
       rbind (row_key row indexes) (\<lambda>key. Ok (hm_modify key [] (\<lambda>is. is @ [i]) index)))
       [] (enumerate 0 (bb_rows b)))"

definition shared_variables :: "binding_bag \<Rightarrow> binding_bag \<Rightarrow> variable list" where
  "shared_variables b c = filter (\<lambda>v. column_indexes c v \<noteq> None) (bb_variables b)"

definition joined_row :: "binding_row \<Rightarrow> binding_row \<Rightarrow> nat list \<Rightarrow> binding_row result" where
  "joined_row left_row right_row right_only =
     rbind (row_key right_row right_only) (\<lambda>extra. Ok (left_row @ extra))"

definition right_only_indexes :: "binding_bag \<Rightarrow> binding_bag \<Rightarrow> nat list" where
  "right_only_indexes b c =
     map fst (filter (\<lambda>(_, v). column_indexes b v = None) (enumerate 0 (bb_variables c)))"

text \<open>The right rows that match each left row, found through an index of the left side.\<close>

definition matches_step ::
  "(binding_row \<times> nat list) list \<Rightarrow> nat list \<Rightarrow> nat list list \<Rightarrow> nat \<times> binding_row \<Rightarrow> nat list list result" where
  "matches_step left_index right_shared by_left = (\<lambda>(j, right_row).
     rbind (row_key right_row right_shared) (\<lambda>key.
     Ok (case map_of left_index key of
           None \<Rightarrow> by_left
         | Some is \<Rightarrow> foldl (\<lambda>m i. m[i := m ! i @ [j]]) by_left is)))"

definition natural_join :: "binding_bag \<Rightarrow> binding_bag \<Rightarrow> binding_bag result" where
  "natural_join b c =
     (let shared = shared_variables b c;
          right_only = right_only_indexes b c;
          vs = bb_variables b @ map (\<lambda>i. bb_variables c ! i) right_only
      in rbind
           (if length (bb_rows b) < length (bb_rows c)
            then rbind (index_by b shared) (\<lambda>left_index.
                 rbind (projection_indexes c shared) (\<lambda>right_shared.
                 rbind (rfold (matches_step left_index right_shared) (replicate (length (bb_rows b)) [])
                          (enumerate 0 (bb_rows c))) (\<lambda>by_left.
                 rbind (rmapM (\<lambda>(i, js). rmapM (\<lambda>j. joined_row (bb_rows b ! i) (bb_rows c ! j) right_only) js)
                          (enumerate 0 by_left)) (\<lambda>rss.
                 Ok (concat rss)))))
            else rbind (projection_indexes b shared) (\<lambda>left_shared.
                 rbind (index_by c shared) (\<lambda>right_index.
                 rbind (rmapM (\<lambda>left_row.
                          rbind (row_key left_row left_shared) (\<lambda>key.
                          case map_of right_index key of
                            None \<Rightarrow> Ok []
                          | Some js \<Rightarrow> rmapM (\<lambda>j. joined_row left_row (bb_rows c ! j) right_only) js))
                        (bb_rows b)) (\<lambda>rss.
                 Ok (concat rss)))))
           (\<lambda>rs. bb_new vs rs))"

definition rfilter :: "('a \<Rightarrow> bool result) \<Rightarrow> 'a list \<Rightarrow> 'a list result" where
  "rfilter P xs = rbind (rmapM (\<lambda>x. rbind (P x) (\<lambda>keep. Ok (if keep then [x] else []))) xs) (\<lambda>xss. Ok (concat xss))"

definition semijoin :: "binding_bag \<Rightarrow> binding_bag \<Rightarrow> binding_bag result" where
  "semijoin b c =
     (let shared = shared_variables b c
      in rbind (projection_indexes b shared) (\<lambda>left_shared.
         rbind (index_by c shared) (\<lambda>right_index.
         rbind (rfilter (\<lambda>row. rbind (row_key row left_shared) (\<lambda>key. Ok (map_of right_index key \<noteq> None))) (bb_rows b)) (\<lambda>rs.
         Ok (with_rows b rs)))))"

definition antijoin :: "binding_bag \<Rightarrow> binding_bag \<Rightarrow> binding_bag result" where
  "antijoin b c =
     (let shared = shared_variables b c
      in rbind (projection_indexes b shared) (\<lambda>left_shared.
         rbind (index_by c shared) (\<lambda>right_index.
         rbind (rfilter (\<lambda>row. rbind (row_key row left_shared) (\<lambda>key. Ok (map_of right_index key = None))) (bb_rows b)) (\<lambda>rs.
         Ok (with_rows b rs)))))"

definition bb_union :: "binding_bag \<Rightarrow> binding_bag \<Rightarrow> binding_bag result" where
  "bb_union b c =
     rbind (ensure (bb_variables b = bb_variables c) ''Union requires identical BindingBag layouts'') (\<lambda>_.
     Ok (with_rows b (bb_rows b @ bb_rows c)))"

definition distinct_union :: "binding_bag \<Rightarrow> binding_bag \<Rightarrow> binding_bag result" where
  "distinct_union b c = rbind (bb_union b c) (\<lambda>u. Ok (bb_distinct u))"

section \<open>Well-formed bags and their meaning\<close>

text \<open>A row under a layout is a finite map from variables to values.\<close>

definition row_map :: "variable list \<Rightarrow> binding_row \<Rightarrow> variable \<rightharpoonup> bytes" where
  "row_map vs row = map_of (zip vs row)"

definition mk_bag :: "variable list \<Rightarrow> binding_row list \<Rightarrow> binding_bag" where
  "mk_bag vs rs = \<lparr>bb_variables = vs, bb_rows = rs, column_indexes = map_of (zip vs [0..<length vs])\<rparr>"

definition layout_ok :: "variable list \<Rightarrow> binding_row list \<Rightarrow> bool" where
  "layout_ok vs rs \<longleftrightarrow> distinct vs \<and> (\<forall>row \<in> set rs. length row = length vs)"

definition bag_wf :: "binding_bag \<Rightarrow> bool" where
  "bag_wf b \<longleftrightarrow> layout_ok (bb_variables b) (bb_rows b) \<and> b = mk_bag (bb_variables b) (bb_rows b)"

definition bag_maps :: "binding_bag \<Rightarrow> (variable \<rightharpoonup> bytes) set" where
  "bag_maps b = row_map (bb_variables b) ` set (bb_rows b)"

definition proj :: "variable list \<Rightarrow> variable list \<Rightarrow> binding_row \<Rightarrow> binding_row" where
  "proj us vs row = map (\<lambda>v. the (row_map us row v)) vs"

lemma mk_bag_simps [simp]:
  "bb_variables (mk_bag vs rs) = vs" "bb_rows (mk_bag vs rs) = rs"
  "column_indexes (mk_bag vs rs) = map_of (zip vs [0..<length vs])"
  "mk_bag vs rs = mk_bag us ss \<longleftrightarrow> vs = us \<and> rs = ss"
  by (auto simp: mk_bag_def)

lemma bag_wf_mk [simp]: "bag_wf (mk_bag vs rs) \<longleftrightarrow> layout_ok vs rs"
  by (simp add: bag_wf_def)

lemma bag_wfE:
  assumes "bag_wf b"
  obtains vs rs where "b = mk_bag vs rs" "distinct vs" "\<forall>row \<in> set rs. length row = length vs"
  using assms unfolding bag_wf_def layout_ok_def by blast

lemma with_rows_mk [simp]: "with_rows (mk_bag vs rs) ss = mk_bag vs ss"
  by (simp add: with_rows_def mk_bag_def)

lemma bb_unit_mk: "bb_unit = mk_bag [] [[]]"
  by (simp add: bb_unit_def mk_bag_def)

lemma bb_unit_wf [simp]: "bag_wf bb_unit"
  by (simp add: bb_unit_mk layout_ok_def)

lemma dom_row_map: "length row = length vs \<Longrightarrow> dom (row_map vs row) = set vs"
  by (simp add: row_map_def dom_map_of_zip)

lemma row_map_nth: "distinct vs \<Longrightarrow> length row = length vs \<Longrightarrow> i < length vs \<Longrightarrow> row_map vs row (vs ! i) = Some (row ! i)"
  by (simp add: row_map_def map_of_zip_nth)

lemma row_map_inj:
  assumes "distinct vs" "length r = length vs" "length s = length vs" "row_map vs r = row_map vs s"
  shows "r = s"
proof (rule nth_equalityI)
  fix i assume "i < length r"
  then show "r ! i = s ! i"
    using assms row_map_nth [of vs r i] row_map_nth [of vs s i] by simp
qed (use assms in simp)

lemma proj_self: "distinct vs \<Longrightarrow> length row = length vs \<Longrightarrow> proj vs vs row = row"
  by (intro nth_equalityI) (simp_all add: proj_def row_map_nth)

lemma length_proj [simp]: "length (proj us vs row) = length vs"
  by (simp add: proj_def)

lemma row_map_proj:
  assumes "set vs \<subseteq> set us" "length row = length us"
  shows "row_map vs (proj us vs row) = row_map us row |` set vs"
proof
  fix v
  have "v \<in> set vs \<Longrightarrow> row_map us row v = Some (the (row_map us row v))"
    using assms dom_row_map [of row us] by (metis domD option.sel subsetD)
  then show "row_map vs (proj us vs row) v = (row_map us row |` set vs) v"
    by (auto simp: row_map_def [of vs] proj_def map_of_zip_map restrict_map_def)
qed

lemma ensure_all_Ok [simp]: "ensure_all P msg xs = Inr u \<longleftrightarrow> (\<forall>x \<in> set xs. P x)"
proof -
  have "rfold (\<lambda>_ x. ensure (P x) msg) () xs = Inr () \<longleftrightarrow> (\<forall>x \<in> set xs. P x)"
    by (induction xs) auto
  then show ?thesis by (simp add: ensure_all_def)
qed

lemma index_column_Ok: "index_column cols (i, v) = Inr c \<longleftrightarrow> cols v = None \<and> c = cols(v \<mapsto> i)"
  by (auto simp: index_column_def)

lemma index_columns:
  "rfold index_column cols (enumerate n vs) = Inr cols' \<longleftrightarrow>
     distinct vs \<and> dom cols \<inter> set vs = {} \<and> cols' = cols ++ map_of (zip vs [n..<n + length vs])"
proof (induction vs arbitrary: cols n)
  case (Cons v vs)
  have upt: "[n..<n + length (v # vs)] = n # [Suc n..<Suc n + length vs]"
    by (simp add: upt_conv_Cons del: upt_Suc)
  have step: "cols(v \<mapsto> n) ++ map_of (zip vs l) = cols ++ map_of (zip (v # vs) (n # l))"
    if "v \<notin> set vs" for l
  proof -
    have "map_of (zip vs l) v = None"
      using that by (meson map_of_SomeD not_Some_eq set_zip_leftD)
    then show ?thesis by (simp add: map_add_def fun_eq_iff split: option.split)
  qed
  show ?case
    unfolding enumerate_simps rfold.simps rbind_eq_Ok index_column_Ok upt
    by (auto simp: Cons.IH step simp del: upt_Suc zip_Cons_Cons map_of.simps map_of_Cons_code)
qed auto

lemma bb_new_Ok: "bb_new vs rs = Inr b \<longleftrightarrow> layout_ok vs rs \<and> b = mk_bag vs rs"
  by (auto simp: bb_new_def index_columns layout_ok_def mk_bag_def)

lemma bb_new_ok [simp]: "layout_ok vs rs \<Longrightarrow> bb_new vs rs = Ok (mk_bag vs rs)"
  by (simp add: bb_new_Ok)

lemma projection_step_Ok:
  "projection_step b (seen, is) v = Inr s \<longleftrightarrow>
     v \<notin> seen \<and> v \<in> dom (column_indexes b) \<and> s = (insert v seen, is @ [the (column_indexes b v)])"
  by (auto simp: projection_step_def column_index_def)

lemma projection_fold:
  "rfold (projection_step b) (seen, is) vs = Inr s \<longleftrightarrow>
     distinct vs \<and> seen \<inter> set vs = {} \<and> set vs \<subseteq> dom (column_indexes b) \<and>
     s = (seen \<union> set vs, is @ map (\<lambda>v. the (column_indexes b v)) vs)"
proof (induction vs arbitrary: seen "is")
  case (Cons v vs)
  show ?case unfolding rfold.simps rbind_eq_Ok projection_step_Ok by (auto simp: Cons.IH)
qed auto

lemma projection_indexes_Ok:
  "projection_indexes b vs = Inr is \<longleftrightarrow>
     distinct vs \<and> set vs \<subseteq> dom (column_indexes b) \<and> is = map (\<lambda>v. the (column_indexes b v)) vs"
  by (auto simp: projection_indexes_def projection_fold)

lemma row_key_proj:
  assumes "distinct us" "length row = length us" "set vs \<subseteq> set us"
  shows "row_key row (map (\<lambda>v. the (map_of (zip us [0..<length us]) v)) vs) = Ok (proj us vs row)"
proof -
  have "\<exists>i < length us. map_of (zip us [0..<length us]) v = Some i \<and> row_map us row v = Some (row ! i)"
    if "v \<in> set vs" for v
    using assms that row_map_nth [OF assms(1,2)]
    by (metis (no_types, lifting) add_0 distinct_Ex1 length_upt map_of_zip_nth minus_nat.diff_0 nth_upt subsetD)
  note pos = this
  have "rmapM (\<lambda>v. let i = the (map_of (zip us [0..<length us]) v)
          in if i < length row then Ok (row ! i) else Error (Panic ''index out of bounds'')) vs =
        Ok (proj us vs row)"
    unfolding proj_def by (rule rmapM_total) (use pos assms(2) in fastforce)
  moreover have "rmapM f (map g vs) = rmapM (\<lambda>v. f (g v)) vs" for f :: "nat \<Rightarrow> bytes result" and g
    by (induction vs) simp_all
  ultimately show ?thesis by (simp add: row_key_def Let_def)
qed

lemma project_ok:
  assumes "layout_ok us rs" "distinct vs" "set vs \<subseteq> set us"
  shows "project (mk_bag us rs) vs = Ok (mk_bag vs (map (proj us vs) rs))"
proof (cases "vs = us")
  case True
  then have "map (proj us vs) rs = rs"
    using assms(1) by (intro map_idI) (simp add: layout_ok_def proj_self)
  then show ?thesis using True by (simp add: project_def)
next
  case False
  have "dom (map_of (zip us [0..<length us])) = set us" by (simp add: dom_map_of_zip)
  moreover have "rmapM (\<lambda>row. row_key row (map (\<lambda>v. the (map_of (zip us [0..<length us]) v)) vs)) rs =
      Ok (map (proj us vs) rs)"
    using assms by (intro rmapM_total) (simp add: row_key_proj layout_ok_def)
  moreover have "layout_ok vs (map (proj us vs) rs)" using assms(2) by (simp add: layout_ok_def)
  ultimately show ?thesis
    using False assms projection_indexes_Ok [of "mk_bag us rs" vs] by (simp add: project_def)
qed

lemma reorder_ok:
  assumes "layout_ok us rs" "distinct vs" "set vs = set us"
  shows "reorder (mk_bag us rs) vs = Ok (mk_bag vs (map (proj us vs) rs))"
  using assms project_ok [of us rs vs] distinct_card [of us] distinct_card [of vs]
  by (simp add: reorder_def layout_ok_def)

lemma select_rows_ok:
  "\<forall>i \<in> set is. i < length rs \<Longrightarrow> select_rows (mk_bag vs rs) is = Ok (mk_bag vs (map ((!) rs) is))"
  using rmapM_total [of "is" "\<lambda>i. if i < length rs then Ok (rs ! i) else Error (Err ''Unknown BindingBag row index'')" "(!) rs"]
  unfolding select_rows_def mk_bag_simps by simp

lemma bb_empty_ok [simp]: "distinct vs \<Longrightarrow> bb_empty vs = Ok (mk_bag vs [])"
  by (simp add: bb_empty_def layout_ok_def)

lemma unseen_fold: "rfold (unseen msg) seen vs = Inr s \<longleftrightarrow> distinct vs \<and> seen \<inter> set vs = {} \<and> s = seen \<union> set vs"
proof (induction vs arbitrary: seen)
  case (Cons v vs)
  have "unseen msg seen v = Inr t \<longleftrightarrow> v \<notin> seen \<and> t = insert v seen" for t
    by (auto simp: unseen_def)
  then show ?case by (auto simp: Cons.IH)
qed auto

lemma extend_row_ok:
  "\<forall>x \<in> set exts. length x = arity \<Longrightarrow> extend_row arity out (row, exts) = Ok (out @ map ((@) row) exts)"
  unfolding extend_row_def prod.case by (induction exts arbitrary: out) auto

lemma extend_rows_ok:
  assumes "layout_ok vs rs" "distinct added" "set vs \<inter> set added = {}" "length exts = length rs"
    and "\<forall>xs \<in> set exts. \<forall>x \<in> set xs. length x = length added"
  shows "extend_rows (mk_bag vs rs) added exts =
     Ok (mk_bag (vs @ added) (concat (map (\<lambda>(row, xs). map ((@) row) xs) (zip rs exts))))"
proof -
  have "rfold (extend_row (length added)) out (zip rs exts) =
      Ok (out @ concat (map (\<lambda>(row, xs). map ((@) row) xs) (zip rs exts)))" for out
    using assms(4,5)
  proof (induction rs exts arbitrary: out rule: list_induct2')
    case (4 r rs x exts)
    then show ?case by (simp add: extend_row_ok)
  qed simp_all
  moreover have "layout_ok (vs @ added) (concat (map (\<lambda>(row, xs). map ((@) row) xs) (zip rs exts)))"
    using assms unfolding layout_ok_def by (auto simp: set_zip) (metis nth_mem)
  ultimately show ?thesis
    using assms(2-4) unseen_fold [of _ "set vs" added] by (simp add: extend_rows_def)
qed

lemma distinct_loop_set: "set (distinct_loop seen rs) = set rs - seen"
  by (induction rs arbitrary: seen) auto

lemma distinct_loop_distinct: "distinct (distinct_loop seen rs)"
  by (induction rs arbitrary: seen) (auto simp: distinct_loop_set)

section \<open>Hash indices\<close>

text \<open>The rows that have a key, in order.\<close>

definition rows_with :: "(binding_row \<Rightarrow> binding_row) \<Rightarrow> binding_row list \<Rightarrow> binding_row \<Rightarrow> nat list" where
  "rows_with f rs key = filter (\<lambda>i. f (rs ! i) = key) [0..<length rs]"

lemma rows_with_snoc: "rows_with f (rs @ [r]) key = rows_with f rs key @ (if f r = key then [length rs] else [])"
  unfolding rows_with_def by (auto simp: nth_append intro: filter_cong)

lemma rows_with_nth: "map ((!) rs) (rows_with f rs key) = filter (\<lambda>r. f r = key) rs"
  using filter_map [of "\<lambda>r. f r = key" "(!) rs" "[0..<length rs]"]
  by (simp add: rows_with_def map_nth o_def)

lemma rows_with_Nil: "rows_with f rs key = [] \<longleftrightarrow> (\<forall>r \<in> set rs. f r \<noteq> key)"
proof -
  have "rows_with f rs key = [] \<longleftrightarrow> filter (\<lambda>r. f r = key) rs = []"
    unfolding rows_with_nth [symmetric] by simp
  then show ?thesis by (simp add: filter_empty_conv)
qed

definition index_spec :: "(binding_row \<Rightarrow> binding_row) \<Rightarrow> binding_row list \<Rightarrow> binding_row \<Rightarrow> nat list option" where
  "index_spec f rs key = (if rows_with f rs key = [] then None else Some (rows_with f rs key))"

lemma enumerate_snoc: "enumerate n (xs @ [x]) = enumerate n xs @ [(n + length xs, x)]"
  by (simp add: enumerate_append_eq)

lemma index_by_ok:
  assumes "layout_ok us rs" "distinct vs" "set vs \<subseteq> set us"
  obtains index where "index_by (mk_bag us rs) vs = Ok index" "map_of index = index_spec (proj us vs) rs"
proof -
  let ?is = "map (\<lambda>v. the (map_of (zip us [0..<length us]) v)) vs"
  let ?step = "\<lambda>index (i, row). rbind (row_key row ?is) (\<lambda>key. Ok (hm_modify key [] (\<lambda>is. is @ [i]) index))"
  have "\<exists>index. rfold ?step [] (enumerate 0 ss) = Ok index \<and> map_of index = index_spec (proj us vs) ss"
    if "set ss \<subseteq> set rs" for ss
    using that
  proof (induction ss rule: rev_induct)
    case (snoc s ss)
    then obtain index where ix: "rfold ?step [] (enumerate 0 ss) = Ok index"
      "map_of index = index_spec (proj us vs) ss" by auto
    have "row_key s ?is = Ok (proj us vs s)"
      using snoc.prems assms by (intro row_key_proj) (auto simp: layout_ok_def)
    then have "rfold ?step [] (enumerate 0 (ss @ [s])) =
        Ok (hm_modify (proj us vs s) [] (\<lambda>is. is @ [length ss]) index)"
      by (simp add: enumerate_snoc rfold_append ix(1))
    moreover have "map_of (hm_modify (proj us vs s) [] (\<lambda>is. is @ [length ss]) index) =
        index_spec (proj us vs) (ss @ [s])"
      by (auto simp: hm_modify_lookup ix(2) fun_eq_iff index_spec_def rows_with_snoc or_insert_def)
    ultimately show ?case by blast
  qed (auto simp: index_spec_def rows_with_def)
  from this [of rs] obtain index where "rfold ?step [] (enumerate 0 rs) = Ok index"
    "map_of index = index_spec (proj us vs) rs" by auto
  then show thesis
    using that [of index] assms projection_indexes_Ok [of "mk_bag us rs" vs]
    by (simp add: index_by_def dom_map_of_zip)
qed

section \<open>Joins\<close>

text \<open>Two rows agree when their shared variables have the same values; the joined row takes the
  columns of the left row and the columns that only the right row has.\<close>

definition agree :: "(variable \<rightharpoonup> bytes) \<Rightarrow> (variable \<rightharpoonup> bytes) \<Rightarrow> bool" where
  "agree m n \<longleftrightarrow> (\<forall>v \<in> dom m \<inter> dom n. m v = n v)"

definition right_only :: "variable list \<Rightarrow> variable list \<Rightarrow> variable list" where
  "right_only us ws = filter (\<lambda>v. v \<notin> set us) ws"

definition nested_join :: "variable list \<Rightarrow> binding_row list \<Rightarrow> variable list \<Rightarrow> binding_row list \<Rightarrow> binding_row list" where
  "nested_join us ls ws rs =
     concat (map (\<lambda>l. map (\<lambda>r. l @ proj ws (right_only us ws) r)
       (filter (\<lambda>r. agree (row_map us l) (row_map ws r)) rs)) ls)"

lemma zip_pos: "map_of (zip vs [0..<length vs]) v \<noteq> None \<longleftrightarrow> v \<in> set vs"
  by (metis dom_map_of_zip domIff length_upt minus_nat.diff_0)

lemma shared_variables_mk:
  "shared_variables (mk_bag us ls) (mk_bag ws rs) = filter (\<lambda>v. v \<in> set ws) us"
  by (simp add: shared_variables_def zip_pos)

lemma proj_agree:
  assumes "length l = length us" "length r = length ws" "set vs = set us \<inter> set ws"
  shows "proj us vs l = proj ws vs r \<longleftrightarrow> agree (row_map us l) (row_map ws r)"
proof -
  have "\<forall>v \<in> set vs. row_map us l v \<noteq> None \<and> row_map ws r v \<noteq> None"
    using assms dom_row_map [of l us] dom_row_map [of r ws] by blast
  then have "the (row_map us l v) = the (row_map ws r v) \<longleftrightarrow> row_map us l v = row_map ws r v"
    if "v \<in> set vs" for v using that by (metis option.expand)
  then show ?thesis
    using assms dom_row_map [of l us] dom_row_map [of r ws] unfolding proj_def agree_def by auto
qed

lemma right_only_indexes_mk:
  assumes "distinct ws"
  shows "right_only_indexes (mk_bag us ls) (mk_bag ws rs) =
     map (\<lambda>v. the (map_of (zip ws [0..<length ws]) v)) (right_only us ws)"
proof -
  let ?n = "[0..<length ws]"
  have "enumerate 0 ws = map (\<lambda>i. (i, ws ! i)) ?n"
    by (rule nth_equalityI) (simp_all add: nth_enumerate_eq)
  then have "right_only_indexes (mk_bag us ls) (mk_bag ws rs) = filter (\<lambda>i. ws ! i \<notin> set us) ?n"
    unfolding right_only_indexes_def mk_bag_simps
    using zip_pos [of us] by (simp add: filter_map o_def)
  moreover have "right_only us ws = map ((!) ws) (filter (\<lambda>i. ws ! i \<notin> set us) ?n)"
    using filter_map [of "\<lambda>v. v \<notin> set us" "(!) ws" ?n] by (simp add: right_only_def map_nth o_def)
  moreover have "map (\<lambda>i. the (map_of (zip ws ?n) (ws ! i))) (filter (\<lambda>i. ws ! i \<notin> set us) ?n) =
      filter (\<lambda>i. ws ! i \<notin> set us) ?n"
    by (rule map_idI) (use assms in \<open>simp add: map_of_zip_nth\<close>)
  ultimately show ?thesis by (simp add: o_def)
qed

lemma joined_row_ok:
  assumes "distinct ws" "length r = length ws"
  shows "joined_row l r (right_only_indexes (mk_bag us ls) (mk_bag ws rs)) = Ok (l @ proj ws (right_only us ws) r)"
  using row_key_proj [OF assms, of "right_only us ws"] assms
  by (auto simp: joined_row_def right_only_indexes_mk right_only_def)

lemma joined_layout:
  assumes "distinct ws"
  shows "map (\<lambda>i. ws ! i) (right_only_indexes (mk_bag us ls) (mk_bag ws rs)) = right_only us ws"
proof -
  have "ws ! the (map_of (zip ws [0..<length ws]) v) = v" if "v \<in> set ws" for v
    using that assms by (metis (no_types, lifting) add_0 in_set_conv_nth length_upt map_of_zip_nth minus_nat.diff_0 nth_upt option.sel)
  then have "map (\<lambda>v. ws ! the (map_of (zip ws [0..<length ws]) v)) (right_only us ws) = right_only us ws"
    by (intro map_idI) (simp add: right_only_def)
  then show ?thesis by (simp add: right_only_indexes_mk [OF assms] o_def)
qed

lemma matches_update:
  "distinct is \<Longrightarrow> i < length m \<Longrightarrow>
     foldl (\<lambda>m i. m[i := m ! i @ [j]]) m is ! i = m ! i @ (if i \<in> set is then [j] else [])"
proof (induction "is" arbitrary: m)
  case (Cons a "is")
  then show ?case by (cases "a = i") auto
qed simp

lemma matches_length: "length (foldl (\<lambda>m i. m[i := m ! i @ [j]]) m is) = length m"
  by (induction "is" arbitrary: m) simp_all

lemma rows_with_set: "i \<in> set (rows_with f rs key) \<longleftrightarrow> i < length rs \<and> f (rs ! i) = key"
  by (auto simp: rows_with_def)

lemma matches_fold:
  assumes "map_of index = index_spec f ls"
    and "\<And>r. r \<in> set rs \<Longrightarrow> row_key r is = Ok (g r)"
  shows "\<exists>by_left. rfold (matches_step index is) (replicate (length ls) []) (enumerate 0 rs) = Ok by_left \<and>
     length by_left = length ls \<and> (\<forall>i < length ls. by_left ! i = rows_with g rs (f (ls ! i)))"
  using assms(2)
proof (induction rs rule: rev_induct)
  case (snoc r rs)
  then obtain m where m: "rfold (matches_step index is) (replicate (length ls) []) (enumerate 0 rs) = Ok m"
    "length m = length ls" "\<forall>i < length ls. m ! i = rows_with g rs (f (ls ! i))" by fastforce
  let ?m = "case map_of index (g r) of None \<Rightarrow> m | Some is \<Rightarrow> foldl (\<lambda>m i. m[i := m ! i @ [length rs]]) m is"
  have "rfold (matches_step index is) (replicate (length ls) []) (enumerate 0 (rs @ [r])) = Ok ?m"
    using snoc.prems by (simp add: enumerate_snoc rfold_append m(1) matches_step_def)
  moreover have "length ?m = length ls" by (simp add: m(2) matches_length split: option.split)
  moreover have "?m ! i = rows_with g (rs @ [r]) (f (ls ! i))" if "i < length ls" for i
  proof -
    have "distinct (rows_with f ls (g r))" by (simp add: rows_with_def)
    then show ?thesis
      using that m(2,3) matches_update [of "rows_with f ls (g r)" i m "length rs"]
      by (auto simp: assms(1) index_spec_def rows_with_snoc rows_with_set rows_with_Nil)
  qed
  ultimately show ?case by blast
qed (simp add: rows_with_def)

lemma nested_join_layout:
  assumes "layout_ok us ls" "layout_ok ws rs"
  shows "layout_ok (us @ right_only us ws) (nested_join us ls ws rs)"
  using assms by (auto simp: layout_ok_def nested_join_def right_only_def)

lemma natural_join_ok:
  assumes L: "layout_ok us ls" and R: "layout_ok ws rs"
  shows "natural_join (mk_bag us ls) (mk_bag ws rs) = Ok (mk_bag (us @ right_only us ws) (nested_join us ls ws rs))"
proof -
  let ?b = "mk_bag us ls" and ?c = "mk_bag ws rs"
  let ?sh = "filter (\<lambda>v. v \<in> set ws) us" and ?ro = "right_only_indexes ?b ?c"
  let ?pl = "proj us ?sh" and ?pr = "proj ws ?sh"
  let ?join = "\<lambda>l. map (\<lambda>r. l @ proj ws (right_only us ws) r) (filter (\<lambda>r. agree (row_map us l) (row_map ws r)) rs)"
  have D: "distinct ?sh" "set ?sh \<subseteq> set us" "set ?sh \<subseteq> set ws" "set ?sh = set us \<inter> set ws" "distinct us" "distinct ws"
    using L R by (auto simp: layout_ok_def)
  have len: "length l = length us" if "l \<in> set ls" for l using that L by (simp add: layout_ok_def)
  have lenr: "length r = length ws" if "r \<in> set rs" for r using that R by (simp add: layout_ok_def)
  have pi: "projection_indexes ?b ?sh = Ok (map (\<lambda>v. the (map_of (zip us [0..<length us]) v)) ?sh)"
    "projection_indexes ?c ?sh = Ok (map (\<lambda>v. the (map_of (zip ws [0..<length ws]) v)) ?sh)"
    using D by (auto simp: projection_indexes_Ok dom_map_of_zip)
  have found: "map ((!) rs) (rows_with ?pr rs (?pl l)) = filter (\<lambda>r. agree (row_map us l) (row_map ws r)) rs"
    if "l \<in> set ls" for l
    unfolding rows_with_nth
    by (rule filter_cong) (use that proj_agree [OF len lenr D(4)] in \<open>simp_all add: eq_commute\<close>)
  have rows: "rmapM (\<lambda>j. joined_row l (rs ! j) ?ro) (rows_with ?pr rs (?pl l)) = Ok (?join l)" if "l \<in> set ls" for l
  proof -
    have "rmapM (\<lambda>j. joined_row l (rs ! j) ?ro) (rows_with ?pr rs (?pl l)) =
        Ok (map (\<lambda>j. l @ proj ws (right_only us ws) (rs ! j)) (rows_with ?pr rs (?pl l)))"
      by (rule rmapM_total) (use D(6) lenr in \<open>auto simp: rows_with_set joined_row_ok\<close>)
    moreover have "map (\<lambda>j. h (rs ! j)) (rows_with ?pr rs (?pl l)) = map h (map ((!) rs) (rows_with ?pr rs (?pl l)))"
      for h :: "binding_row \<Rightarrow> binding_row" by simp
    ultimately show ?thesis unfolding found [OF that] by simp
  qed
  have "natural_join ?b ?c = rbind (Ok (concat (map ?join ls))) (bb_new (us @ right_only us ws))"
  proof (cases "length ls < length rs")
    case True
    obtain index where ix: "index_by ?b ?sh = Ok index" "map_of index = index_spec ?pl ls"
      by (rule index_by_ok [OF L D(1,2)])
    obtain m where m: "rfold (matches_step index (map (\<lambda>v. the (map_of (zip ws [0..<length ws]) v)) ?sh))
        (replicate (length ls) []) (enumerate 0 rs) = Ok m" "length m = length ls"
        "\<forall>i < length ls. m ! i = rows_with ?pr rs (?pl (ls ! i))"
      using matches_fold [OF ix(2), of rs _ ?pr] row_key_proj [OF D(6) lenr D(3)] by blast
    have "rmapM (\<lambda>(i, js). rmapM (\<lambda>j. joined_row (ls ! i) (rs ! j) ?ro) js) (enumerate 0 m) =
        Ok (map (\<lambda>(i, js). ?join (ls ! i)) (enumerate 0 m))"
      by (rule rmapM_total) (use m rows in \<open>auto simp: in_set_enumerate_eq\<close>)
    moreover have "map (\<lambda>(i, js). ?join (ls ! i)) (enumerate 0 m) = map ?join ls"
      by (rule nth_equalityI) (simp_all add: m(2) nth_enumerate_eq)
    ultimately show ?thesis
      using True ix(1) m(1) pi(2) by (simp add: natural_join_def shared_variables_mk joined_layout [OF D(6)] Let_def)
  next
    case False
    obtain index where ix: "index_by ?c ?sh = Ok index" "map_of index = index_spec ?pr rs"
      by (rule index_by_ok [OF R D(1,3)])
    have "rmapM (\<lambda>l. rbind (row_key l (map (\<lambda>v. the (map_of (zip us [0..<length us]) v)) ?sh)) (\<lambda>key.
        case map_of index key of None \<Rightarrow> Ok [] | Some js \<Rightarrow> rmapM (\<lambda>j. joined_row l (rs ! j) ?ro) js)) ls = Ok (map ?join ls)"
    proof (rule rmapM_total)
      fix l assume l: "l \<in> set ls"
      show "rbind (row_key l (map (\<lambda>v. the (map_of (zip us [0..<length us]) v)) ?sh)) (\<lambda>key.
        case map_of index key of None \<Rightarrow> Ok [] | Some js \<Rightarrow> rmapM (\<lambda>j. joined_row l (rs ! j) ?ro) js) = Ok (?join l)"
        using rows [OF l] found [OF l] row_key_proj [OF D(5) len [OF l] D(2)]
        by (auto simp: ix(2) index_spec_def)
    qed
    then show ?thesis
      using False ix(1) pi(1)
      unfolding natural_join_def shared_variables_mk Let_def mk_bag_simps joined_layout [OF D(6)] by simp
  qed
  then show ?thesis using nested_join_layout [OF assms] by (simp add: nested_join_def)
qed

lemma rfilter_ok: "(\<And>x. x \<in> set xs \<Longrightarrow> P x = Ok (Q x)) \<Longrightarrow> rfilter P xs = Ok (filter Q xs)"
proof -
  assume "\<And>x. x \<in> set xs \<Longrightarrow> P x = Ok (Q x)"
  then have "rmapM (\<lambda>x. rbind (P x) (\<lambda>keep. Ok (if keep then [x] else []))) xs =
      Ok (map (\<lambda>x. if Q x then [x] else []) xs)"
    by (intro rmapM_total) simp
  moreover have "concat (map (\<lambda>x. if Q x then [x] else []) xs) = filter Q xs"
    by (induction xs) auto
  ultimately show ?thesis by (simp add: rfilter_def)
qed

definition has_match :: "variable list \<Rightarrow> binding_row \<Rightarrow> variable list \<Rightarrow> binding_row list \<Rightarrow> bool" where
  "has_match us l ws rs \<longleftrightarrow> (\<exists>r \<in> set rs. agree (row_map us l) (row_map ws r))"

text \<open>What the semijoin and the antijoin share: the key of a left row is in the index of the right
  side exactly when some right row agrees with it.\<close>

lemma match_index:
  assumes L: "layout_ok us ls" and R: "layout_ok ws rs"
  obtains "is" index where "projection_indexes (mk_bag us ls) (filter (\<lambda>v. v \<in> set ws) us) = Ok is"
    "index_by (mk_bag ws rs) (filter (\<lambda>v. v \<in> set ws) us) = Ok index"
    "\<forall>l \<in> set ls. \<exists>key. row_key l is = Ok key \<and> (map_of index key = None \<longleftrightarrow> \<not> has_match us l ws rs)"
proof -
  let ?sh = "filter (\<lambda>v. v \<in> set ws) us"
  let ?is = "map (\<lambda>v. the (map_of (zip us [0..<length us]) v)) ?sh"
  have D: "distinct ?sh" "set ?sh \<subseteq> set us" "set ?sh \<subseteq> set ws" "set ?sh = set us \<inter> set ws" "distinct us"
    using L by (auto simp: layout_ok_def)
  obtain index where ix: "index_by (mk_bag ws rs) ?sh = Ok index" "map_of index = index_spec (proj ws ?sh) rs"
    by (rule index_by_ok [OF R D(1,3)])
  have "projection_indexes (mk_bag us ls) ?sh = Ok ?is"
    using D by (auto simp: projection_indexes_Ok dom_map_of_zip)
  moreover have "\<exists>key. row_key l ?is = Ok key \<and> (map_of index key = None \<longleftrightarrow> \<not> has_match us l ws rs)"
    if "l \<in> set ls" for l
  proof -
    have len: "length l = length us" "\<And>r. r \<in> set rs \<Longrightarrow> length r = length ws"
      using that L R by (auto simp: layout_ok_def)
    have "row_key l ?is = Ok (proj us ?sh l)" by (rule row_key_proj [OF D(5) len(1) D(2)])
    moreover have "map_of index (proj us ?sh l) = None \<longleftrightarrow> \<not> has_match us l ws rs"
    proof -
      have "proj ws ?sh r = proj us ?sh l \<longleftrightarrow> agree (row_map us l) (row_map ws r)" if "r \<in> set rs" for r
        using proj_agree [OF len(1) len(2) [OF that] D(4)] by auto
      then show ?thesis by (simp add: ix(2) index_spec_def has_match_def rows_with_Nil)
    qed
    ultimately show ?thesis by (intro exI [of _ "proj us ?sh l"] conjI)
  qed
  ultimately show thesis using that [of ?is index] ix(1) by simp
qed

lemma semijoin_ok:
  assumes "layout_ok us ls" "layout_ok ws rs"
  shows "semijoin (mk_bag us ls) (mk_bag ws rs) = Ok (mk_bag us (filter (\<lambda>l. has_match us l ws rs) ls))"
proof -
  obtain "is" index where ix: "projection_indexes (mk_bag us ls) (filter (\<lambda>v. v \<in> set ws) us) = Ok is"
    "index_by (mk_bag ws rs) (filter (\<lambda>v. v \<in> set ws) us) = Ok index"
    and m: "\<forall>l \<in> set ls. \<exists>key. row_key l is = Ok key \<and> (map_of index key = None \<longleftrightarrow> \<not> has_match us l ws rs)"
    by (rule match_index [OF assms])
  have "rfilter (\<lambda>row. rbind (row_key row is) (\<lambda>key. Ok (map_of index key \<noteq> None))) ls =
      Ok (filter (\<lambda>l. has_match us l ws rs) ls)"
    by (rule rfilter_ok) (use m in fastforce)
  then show ?thesis
    unfolding semijoin_def shared_variables_mk Let_def using ix by simp
qed

lemma antijoin_ok:
  assumes "layout_ok us ls" "layout_ok ws rs"
  shows "antijoin (mk_bag us ls) (mk_bag ws rs) = Ok (mk_bag us (filter (\<lambda>l. \<not> has_match us l ws rs) ls))"
proof -
  obtain "is" index where ix: "projection_indexes (mk_bag us ls) (filter (\<lambda>v. v \<in> set ws) us) = Ok is"
    "index_by (mk_bag ws rs) (filter (\<lambda>v. v \<in> set ws) us) = Ok index"
    and m: "\<forall>l \<in> set ls. \<exists>key. row_key l is = Ok key \<and> (map_of index key = None \<longleftrightarrow> \<not> has_match us l ws rs)"
    by (rule match_index [OF assms])
  have "rfilter (\<lambda>row. rbind (row_key row is) (\<lambda>key. Ok (map_of index key = None))) ls =
      Ok (filter (\<lambda>l. \<not> has_match us l ws rs) ls)"
    by (rule rfilter_ok) (use m in fastforce)
  then show ?thesis
    unfolding antijoin_def shared_variables_mk Let_def using ix by simp
qed

lemma bb_union_ok: "bb_union (mk_bag vs rs) (mk_bag vs ss) = Ok (mk_bag vs (rs @ ss))"
  by (simp add: bb_union_def)

lemma distinct_union_ok: "distinct_union (mk_bag vs rs) (mk_bag vs ss) = Ok (mk_bag vs (distinct_loop {} (rs @ ss)))"
  by (simp add: distinct_union_def bb_union_ok bb_distinct_def)

section \<open>Property\<close>

text \<open>C38: The natural join gives the same rows in the same order as comparing every left row with every
  right row, whichever of the two bags is the smaller one and gets the hash index: a left row is
  joined, in the order of the right rows, with each right row that agrees on the shared variables.\<close>

theorem natural_join_correct:
  assumes "layout_ok us ls" and "layout_ok ws rs"
  shows "natural_join (mk_bag us ls) (mk_bag ws rs) = Ok (mk_bag (us @ right_only us ws) (nested_join us ls ws rs))"
  by (rule natural_join_ok [OF assms])

theorem natural_join_correct_witness:
  "natural_join (mk_bag [''x'', ''y''] [[[1], [2]]]) (mk_bag [''y'', ''z''] [[[2], [3]], [[4], [5]], [[2], [6]]]) =
     Ok (mk_bag [''x'', ''y'', ''z''] [[[1], [2], [3]], [[1], [2], [6]]])"
proof -
  have "layout_ok [''x'', ''y''] [[[1], [2]]]" "layout_ok [''y'', ''z''] [[[2], [3]], [[4], [5]], [[2], [6]]]"
    by (simp_all add: layout_ok_def)
  from natural_join_correct [OF this] show ?thesis
    by (simp add: nested_join_def right_only_def agree_def row_map_def proj_def)
qed

end
