(* ===== verification/Join_Engine.thy ===== *)
theory Join_Engine
  imports Binding_Bag "HOL-Library.Multiset"
begin

text \<open>
  The generic join, \<^verbatim>\<open>src/query/exec_pattern.rs\<close>, \<^verbatim>\<open>src/query/stage.rs\<close> and
  \<^verbatim>\<open>src/query/engine.rs\<close>. A plan is a sequence of stages; a stage adds variables to the bindings:
  the proposers are asked how many extensions they would give for each row, the cheapest one
  proposes them, and the other participants filter what was proposed.

  The trait \<^verbatim>\<open>ExecPattern\<close> is a record of functions; what the engine relies on is the locale
  \<open>exec_pattern_law\<close>: a pattern denotes a set of assignments to its variables, a join loses no row
  that can still be extended to one of them, and keeps only those once all its variables are bound.
\<close>

section \<open>Patterns and proposals\<close>

type_synonym pattern_id = nat
type_synonym usize = "64 word"

definition usize_MAX :: usize where "usize_MAX = - 1"

record proposal =
  p_proposer :: "pattern_id option"
  p_count :: usize

definition proposal_consider :: "proposal \<Rightarrow> pattern_id \<Rightarrow> usize \<Rightarrow> proposal" where
  "proposal_consider p i n =
     (if p_proposer p = None \<or> n < p_count p then \<lparr>p_proposer = Some i, p_count = n\<rparr> else p)"

definition proposal_default :: proposal where
  "proposal_default = \<lparr>p_proposer = None, p_count = usize_MAX\<rparr>"

record exec_pattern =
  ep_id :: pattern_id
  ep_variables :: "variable list"
  ep_count :: "binding_bag \<Rightarrow> variable list \<Rightarrow> proposal list \<Rightarrow> proposal list result"
  ep_join :: "binding_bag \<Rightarrow> variable list \<Rightarrow> variable list \<Rightarrow> binding_bag result"

text \<open>The method that a pattern inherits when it cannot propose beside others.\<close>

definition default_count :: "binding_bag \<Rightarrow> variable list \<Rightarrow> proposal list \<Rightarrow> proposal list result" where
  "default_count input added proposals = Error (Err ''Pattern cannot propose'')"

section \<open>Stages\<close>

record stage =
  st_added :: "variable list"
  st_participants :: "exec_pattern list"
  st_proposer_positions :: "nat list"
  st_target_variables :: "variable list"

definition ensure_unique :: "string \<Rightarrow> variable list \<Rightarrow> unit result" where
  "ensure_unique msg vs = rbind (rfold (unseen msg) {} vs) (\<lambda>_. Ok ())"

definition ensure_proposer_positions :: "variable list \<Rightarrow> nat \<Rightarrow> nat list \<Rightarrow> unit result" where
  "ensure_proposer_positions added participant_count positions =
     rbind (ensure_all (\<lambda>(p, q). p < q) ''Stage proposer positions must be unique and ordered''
              (zip positions (tl positions))) (\<lambda>_.
     rbind (ensure_all (\<lambda>p. p < participant_count) ''Stage proposer position is out of bounds'' positions) (\<lambda>_.
     ensure ((added = []) = (positions = [])) ''A stage must have proposers if and only if it adds variables''))"

definition participant_step :: "pattern_id set \<Rightarrow> exec_pattern \<Rightarrow> pattern_id set result" where
  "participant_step ids p =
     rbind (ensure (ep_id p \<notin> ids) ''Stage participant ids must be distinct'') (\<lambda>_. Ok (insert (ep_id p) ids))"

definition stage_new ::
  "variable list \<Rightarrow> exec_pattern list \<Rightarrow> nat list \<Rightarrow> variable list \<Rightarrow> stage result" where
  "stage_new added participants positions target =
     rbind (ensure_unique ''Added variables must be unique'' added) (\<lambda>_.
     rbind (ensure_unique ''Target variables must be unique'' target) (\<lambda>_.
     rbind (ensure (participants \<noteq> []) ''Stage participants must not be empty'') (\<lambda>_.
     rbind (ensure_proposer_positions added (length participants) positions) (\<lambda>_.
     rbind (ensure_all (\<lambda>v. v \<in> set target) ''Added variable is missing from the target layout'' added) (\<lambda>_.
     rbind (rfold participant_step {} participants) (\<lambda>_.
     Ok \<lparr>st_added = added, st_participants = participants, st_proposer_positions = positions,
         st_target_variables = target\<rparr>))))))"

definition proposers :: "stage \<Rightarrow> exec_pattern list result" where
  "proposers st =
     rmapM (\<lambda>i. if i < length (st_participants st) then Ok (st_participants st ! i)
                else Error (Panic ''index out of bounds'')) (st_proposer_positions st)"

definition validate_input :: "stage \<Rightarrow> binding_bag \<Rightarrow> unit result" where
  "validate_input st input =
     rbind (ensure_all (\<lambda>v. v \<notin> set (bb_variables input)) ''Stage cannot add already-bound variable'' (st_added st)) (\<lambda>_.
     ensure (set (bb_variables input @ st_added st) = set (st_target_variables st))
       ''Stage target layout must equal the input variables plus added variables'')"

section \<open>The engine\<close>

definition validate_step :: "binding_bag \<Rightarrow> exec_pattern \<Rightarrow> binding_bag result" where
  "validate_step input validator =
     rbind (ep_join validator input [] (bb_variables input)) (\<lambda>validated.
     rbind (ensure (bb_variables validated = bb_variables input) ''Pattern changed the layout during validation'') (\<lambda>_.
     Ok validated))"

definition validate_all :: "binding_bag \<Rightarrow> exec_pattern list \<Rightarrow> binding_bag result" where
  "validate_all input validators = rfold validate_step input validators"

definition verify_proposed_layout :: "binding_bag \<Rightarrow> stage \<Rightarrow> unit result" where
  "verify_proposed_layout proposed st =
     ensure (bb_variables proposed = st_target_variables st) ''Pattern proposed an unexpected layout''"

definition propose_and_validate :: "stage \<Rightarrow> exec_pattern \<Rightarrow> binding_bag \<Rightarrow> binding_bag result" where
  "propose_and_validate st p input =
     rbind (ep_join p input (st_added st) (st_target_variables st)) (\<lambda>proposed.
     rbind (verify_proposed_layout proposed st) (\<lambda>_.
     validate_all proposed (filter (\<lambda>q. ep_id q \<noteq> ep_id p) (st_participants st))))"

definition shard_step :: "(pattern_id \<times> nat list) list \<Rightarrow> nat \<times> proposal \<Rightarrow> (pattern_id \<times> nat list) list" where
  "shard_step shards = (\<lambda>(i, p).
     case p_proposer p of None \<Rightarrow> shards | Some q \<Rightarrow> hm_modify q [] (\<lambda>is. is @ [i]) shards)"

text \<open>The shards come out of a hash map in any order and are sorted by their first row.\<close>

definition ordered_shards :: "proposal list \<Rightarrow> (pattern_id \<times> nat list) list" where
  "ordered_shards proposals =
     sort_key (\<lambda>(_, is). is ! 0) (foldl shard_step [] (enumerate 0 proposals))"

definition shard_join ::
  "stage \<Rightarrow> exec_pattern list \<Rightarrow> binding_bag \<Rightarrow> binding_bag \<Rightarrow> pattern_id \<times> nat list \<Rightarrow> binding_bag result" where
  "shard_join st props input result = (\<lambda>(proposer_id, row_indexes).
     rbind (ok_or (find (\<lambda>p. ep_id p = proposer_id) props) ''Unknown proposer id'') (\<lambda>p.
     rbind (select_rows input row_indexes) (\<lambda>shard.
     rbind (propose_and_validate st p shard) (\<lambda>validated.
     bb_union result validated))))"

definition execute_proposing_stage :: "stage \<Rightarrow> binding_bag \<Rightarrow> binding_bag result" where
  "execute_proposing_stage st input =
     rbind (proposers st) (\<lambda>props.
     if length props = 1 then propose_and_validate st (hd props) input
     else
       rbind (rfold (\<lambda>proposals p. ep_count p input (st_added st) proposals)
                (replicate (length (bb_rows input)) proposal_default) props) (\<lambda>proposals.
       rbind (bb_empty (st_target_variables st)) (\<lambda>result.
       rfold (shard_join st props input) result (ordered_shards proposals))))"

definition execute_stage :: "stage \<Rightarrow> binding_bag \<Rightarrow> binding_bag result" where
  "execute_stage st input =
     rbind (validate_input st input) (\<lambda>_.
     rbind (if st_added st = []
            then rbind (validate_all input (st_participants st)) (\<lambda>b. reorder b (st_target_variables st))
            else execute_proposing_stage st input) (\<lambda>result.
     rbind (ensure (bb_variables result = st_target_variables st) ''Stage produced an unexpected layout'') (\<lambda>_.
     Ok result)))"

definition execute :: "stage list \<Rightarrow> binding_bag \<Rightarrow> binding_bag result" where
  "execute stages input = rfold (\<lambda>input st. execute_stage st input) input stages"

section \<open>The contract of a pattern\<close>

text \<open>The values of a bag satisfy \<open>G\<close>: they are encodings that can be decoded.\<close>

definition bag_ok :: "(bytes \<Rightarrow> bool) \<Rightarrow> binding_bag \<Rightarrow> bool" where
  "bag_ok G b \<longleftrightarrow> bag_wf b \<and> (\<forall>k \<in> bag_maps b. \<forall>x \<in> ran k. G x)"

lemma bag_ok_wf: "bag_ok G b \<Longrightarrow> bag_wf b"
  by (simp add: bag_ok_def)

lemma bag_ok_subset: "bag_ok G b \<Longrightarrow> bag_wf c \<Longrightarrow> bag_maps c \<subseteq> bag_maps b \<Longrightarrow> bag_ok G c"
  by (auto simp: bag_ok_def)

text \<open>The result of joining a bag with what a pattern denotes: the rows of the result extend rows of
  the input; a row that can still be extended to a satisfying assignment is kept; when the pattern
  is fully bound, only such rows are.\<close>

definition joined ::
  "(bytes \<Rightarrow> bool) \<Rightarrow> ((variable \<rightharpoonup> bytes) \<Rightarrow> bool) \<Rightarrow> variable set \<Rightarrow> binding_bag \<Rightarrow> variable list \<Rightarrow> binding_bag \<Rightarrow> bool" where
  "joined G sat vars b target c \<longleftrightarrow>
     bag_ok G c \<and> bb_variables c = target \<and> (distinct (bb_rows b) \<longrightarrow> distinct (bb_rows c)) \<and>
     (\<forall>k \<in> bag_maps c. k |` set (bb_variables b) \<in> bag_maps b) \<and>
     (\<forall>k n. dom k = set target \<longrightarrow> k |` set (bb_variables b) \<in> bag_maps b \<longrightarrow> sat n \<longrightarrow> k \<subseteq>\<^sub>m n \<longrightarrow> k \<in> bag_maps c) \<and>
     (vars \<subseteq> set target \<longrightarrow> (\<forall>k \<in> bag_maps c. sat k))"

text \<open>\<open>can bound added\<close> says in which situations the pattern may be called: with the variables that are
  bound and the ones it is asked to add, none for a validation.\<close>

locale exec_pattern_law =
  fixes G :: "bytes \<Rightarrow> bool"
    and P :: exec_pattern
    and sat :: "(variable \<rightharpoonup> bytes) \<Rightarrow> bool"
    and can :: "variable set \<Rightarrow> variable list \<Rightarrow> bool"
  assumes sat_local: "sat k \<longleftrightarrow> sat (k |` set (ep_variables P))"
    and join_ok: "bag_ok G b \<Longrightarrow> can (set (bb_variables b)) added \<Longrightarrow> distinct added \<Longrightarrow> distinct target \<Longrightarrow>
      set (bb_variables b) \<inter> set added = {} \<Longrightarrow> set target = set (bb_variables b) \<union> set added \<Longrightarrow>
      (added = [] \<Longrightarrow> target = bb_variables b) \<Longrightarrow>
      \<exists>c. ep_join P b added target = Ok c \<and> joined G sat (set (ep_variables P)) b target c"
begin

lemma validate_step_ok:
  assumes "bag_ok G b" and "can (set (bb_variables b)) []"
  shows "\<exists>c. validate_step b P = Ok c \<and> joined G sat (set (ep_variables P)) b (bb_variables b) c"
proof -
  have "distinct (bb_variables b)" using assms(1) by (simp add: bag_ok_def bag_wf_def layout_ok_def)
  then show ?thesis
    using join_ok [OF assms, of "bb_variables b"] by (auto simp: validate_step_def joined_def)
qed

end

text \<open>A pattern that can be one of several proposers counts its extensions of every row.\<close>

locale counting_pattern_law = exec_pattern_law +
  assumes count_ok: "bag_ok G b \<Longrightarrow> can (set (bb_variables b)) added \<Longrightarrow> added \<noteq> [] \<Longrightarrow>
      length ps = length (bb_rows b) \<Longrightarrow>
      \<exists>f. ep_count P b added ps = Ok (map2 (\<lambda>p n. proposal_consider p (ep_id P) n) ps f) \<and> length f = length ps"

section \<open>Correctness of a stage\<close>

lemma bag_maps_inj:
  assumes "bag_wf b" "r \<in> set (bb_rows b)" "length s = length (bb_variables b)"
    "row_map (bb_variables b) s = row_map (bb_variables b) r"
  shows "s = r"
  using assms by (auto simp: bag_wf_def layout_ok_def intro: row_map_inj)

lemma bag_maps_dom: "bag_wf b \<Longrightarrow> k \<in> bag_maps b \<Longrightarrow> dom k = set (bb_variables b)"
  unfolding bag_maps_def bag_wf_def layout_ok_def using dom_row_map by blast

lemma restrict_dom: "dom k \<subseteq> A \<Longrightarrow> k |` A = k"
  by (rule ext, rename_tac x, case_tac "k x") (auto simp: restrict_map_def)

text \<open>Joining with several patterns one after the other.\<close>

definition joined_all ::
  "(bytes \<Rightarrow> bool) \<Rightarrow> (pattern_id \<Rightarrow> (variable \<rightharpoonup> bytes) \<Rightarrow> bool) \<Rightarrow> exec_pattern set \<Rightarrow> binding_bag \<Rightarrow> variable list \<Rightarrow> binding_bag \<Rightarrow> bool" where
  "joined_all G S ps b target c \<longleftrightarrow>
     bag_ok G c \<and> bb_variables c = target \<and> (distinct (bb_rows b) \<longrightarrow> distinct (bb_rows c)) \<and>
     (\<forall>k \<in> bag_maps c. k |` set (bb_variables b) \<in> bag_maps b) \<and>
     (\<forall>k. dom k = set target \<longrightarrow> k |` set (bb_variables b) \<in> bag_maps b \<longrightarrow>
        (\<forall>p \<in> ps. \<exists>n. S (ep_id p) n \<and> k \<subseteq>\<^sub>m n) \<longrightarrow> k \<in> bag_maps c) \<and>
     (\<forall>p \<in> ps. set (ep_variables p) \<subseteq> set target \<longrightarrow> (\<forall>k \<in> bag_maps c. S (ep_id p) k))"

lemma joined_allD:
  assumes "joined_all G S ps b target c"
  shows "bag_ok G c" "bb_variables c = target" "distinct (bb_rows b) \<Longrightarrow> distinct (bb_rows c)"
    "k \<in> bag_maps c \<Longrightarrow> k |` set (bb_variables b) \<in> bag_maps b"
    "dom k = set target \<Longrightarrow> k |` set (bb_variables b) \<in> bag_maps b \<Longrightarrow>
       (\<And>p. p \<in> ps \<Longrightarrow> \<exists>n. S (ep_id p) n \<and> k \<subseteq>\<^sub>m n) \<Longrightarrow> k \<in> bag_maps c"
    "p \<in> ps \<Longrightarrow> set (ep_variables p) \<subseteq> set target \<Longrightarrow> k \<in> bag_maps c \<Longrightarrow> S (ep_id p) k"
  using assms unfolding joined_all_def by simp_all

lemma joined_all_one: "joined G (S (ep_id p)) (set (ep_variables p)) b target c \<Longrightarrow> joined_all G S {p} b target c"
  unfolding joined_def joined_all_def by blast

lemma joined_all_refl:
  assumes "bag_ok G b" shows "joined_all G S {} b (bb_variables b) b"
proof -
  have "k |` set (bb_variables b) = k" if "dom k = set (bb_variables b)" for k :: "variable \<rightharpoonup> bytes"
    using that by (simp add: restrict_dom)
  then show ?thesis unfolding joined_all_def using assms bag_maps_dom [OF bag_ok_wf [OF assms]] by auto
qed

text \<open>A later validation keeps what an earlier join established.\<close>

lemma joined_all_trans:
  assumes "joined_all G S ps b target c" and "joined_all G S qs c target d"
  shows "joined_all G S (ps \<union> qs) b target d"
proof -
  note c = joined_allD [OF assms(1)] and d = joined_allD [OF assms(2)]
  have dom: "k |` set target = k" if "dom k = set target" for k :: "variable \<rightharpoonup> bytes" using that by (simp add: restrict_dom)
  have sub: "bag_maps d \<subseteq> bag_maps c"
  proof
    fix k assume k: "k \<in> bag_maps d"
    then have "k |` set target \<in> bag_maps c" using d(4) c(2) by simp
    then show "k \<in> bag_maps c" using dom bag_maps_dom [OF bag_ok_wf [OF d(1)] k] d(2) by simp
  qed
  show ?thesis unfolding joined_all_def
  proof (intro conjI allI impI ballI)
    fix k assume k: "dom k = set target" "k |` set (bb_variables b) \<in> bag_maps b"
      "\<forall>p \<in> ps \<union> qs. \<exists>n. S (ep_id p) n \<and> k \<subseteq>\<^sub>m n"
    have "k \<in> bag_maps c" using c(5) [OF k(1,2)] k(3) by blast
    then have "k |` set (bb_variables c) \<in> bag_maps c" using k(1) c(2) dom by simp
    then show "k \<in> bag_maps d" using d(5) [OF k(1)] k(3) by blast
  next
    fix p k assume "p \<in> ps \<union> qs" "set (ep_variables p) \<subseteq> set target" "k \<in> bag_maps d"
    then show "S (ep_id p) k" using c(6) d(6) sub by blast
  next
    fix k assume "k \<in> bag_maps d"
    then show "k |` set (bb_variables b) \<in> bag_maps b" using c(4) sub by blast
  qed (use c(3) d(1-3) in simp_all)
qed

text \<open>What \<open>stage_new\<close> establishes.\<close>

lemma stage_new_Ok:
  assumes "stage_new added ps positions target = Ok st"
  shows "distinct added" "distinct target" "ps \<noteq> []" "\<forall>i \<in> set positions. i < length ps"
    "added = [] \<longleftrightarrow> positions = []" "distinct (map ep_id ps)"
proof -
  have ids: "rfold participant_step ids qs = Inr s \<Longrightarrow> distinct (map ep_id qs) \<and> ids \<inter> ep_id ` set qs = {}" for ids qs s
    by (induction qs arbitrary: ids) (auto simp: participant_step_def)
  show "distinct added" "distinct target" "ps \<noteq> []" "\<forall>i \<in> set positions. i < length ps"
    "added = [] \<longleftrightarrow> positions = []" "distinct (map ep_id ps)"
    using assms ids by (auto simp: stage_new_def ensure_unique_def ensure_proposer_positions_def unseen_fold)
qed

lemma validate_all_ok:
  assumes "\<forall>p \<in> set ps. exec_pattern_law G p (S (ep_id p)) (C (ep_id p)) \<and> C (ep_id p) (set (bb_variables b)) []"
    and "bag_ok G b"
  shows "\<exists>c. validate_all b ps = Ok c \<and> joined_all G S (set ps) b (bb_variables b) c"
  using assms
proof (induction ps arbitrary: b)
  case Nil
  then show ?case using joined_all_refl by (simp add: validate_all_def)
next
  case (Cons p ps)
  have "exec_pattern_law G p (S (ep_id p)) (C (ep_id p))" "C (ep_id p) (set (bb_variables b)) []"
    using Cons.prems(1) by simp_all
  then obtain c where c: "validate_step b p = Ok c" "joined G (S (ep_id p)) (set (ep_variables p)) b (bb_variables b) c"
    using exec_pattern_law.validate_step_ok [OF _ Cons.prems(2)] by blast
  note j = joined_all_one [where S = S, OF c(2)]
  have cv: "bb_variables c = bb_variables b" by (rule joined_allD(2) [OF j])
  obtain d where d: "validate_all c ps = Ok d" "joined_all G S (set ps) c (bb_variables b) d"
    using Cons.IH [of c] Cons.prems(1) joined_allD(1) [OF j] cv by auto
  have "joined_all G S (set (p # ps)) b (bb_variables b) d"
    using joined_all_trans [OF j d(2)] by simp
  then show ?case using c(1) d(1) by (simp add: validate_all_def)
qed

lemma propose_and_validate_ok:
  assumes st: "stage_new (st_added st) (st_participants st) (st_proposer_positions st) (st_target_variables st) = Ok st"
    and laws: "\<forall>p \<in> set (st_participants st). exec_pattern_law G p (S (ep_id p)) (C (ep_id p))"
    and p: "p \<in> set (st_participants st)" "C (ep_id p) (set (bb_variables b)) (st_added st)"
    and others: "\<forall>q \<in> set (st_participants st). q \<noteq> p \<longrightarrow> C (ep_id q) (set (st_target_variables st)) []"
    and b: "bag_ok G b" "st_added st \<noteq> []" "set (bb_variables b) \<inter> set (st_added st) = {}"
      "set (st_target_variables st) = set (bb_variables b) \<union> set (st_added st)"
  shows "\<exists>c. propose_and_validate st p b = Ok c \<and> joined_all G S (set (st_participants st)) b (st_target_variables st) c"
proof -
  let ?qs = "filter (\<lambda>q. ep_id q \<noteq> ep_id p) (st_participants st)"
  note new = stage_new_Ok [OF st]
  have inj: "q = p" if "q \<in> set (st_participants st)" "ep_id q = ep_id p" for q
    using new(6) p(1) that by (auto simp: distinct_map inj_on_def)
  have "exec_pattern_law G p (S (ep_id p)) (C (ep_id p))" using laws p(1) by blast
  from exec_pattern_law.join_ok [OF this b(1) p(2) new(1,2) b(3,4)] b(2) obtain c where
    c: "ep_join p b (st_added st) (st_target_variables st) = Ok c"
      "joined G (S (ep_id p)) (set (ep_variables p)) b (st_target_variables st) c" by blast
  note j = joined_all_one [where S = S, OF c(2)]
  note cw = joined_allD(1) [OF j] and cv = joined_allD(2) [OF j]
  have "\<forall>q \<in> set ?qs. exec_pattern_law G q (S (ep_id q)) (C (ep_id q)) \<and> C (ep_id q) (set (bb_variables c)) []"
    using laws others cv by auto
  from validate_all_ok [OF this cw] obtain d where
    d: "validate_all c ?qs = Ok d" "joined_all G S (set ?qs) c (st_target_variables st) d" unfolding cv by blast
  have "set (st_participants st) = {p} \<union> set ?qs" using inj p(1) by auto
  then have "joined_all G S (set (st_participants st)) b (st_target_variables st) d"
    using joined_all_trans [OF j d(2)] by simp
  then show ?thesis using c(1) d(1) cv by (simp add: propose_and_validate_def verify_proposed_layout_def)
qed

section \<open>Sharding by the cheapest proposer\<close>

lemma joined_all_append:
  assumes "layout_ok vs (rs @ ss)"
    and "joined_all G S ps (mk_bag vs rs) target c" and "joined_all G S ps (mk_bag vs ss) target d"
  shows "joined_all G S ps (mk_bag vs (rs @ ss)) target (mk_bag target (bb_rows c @ bb_rows d))"
proof -
  note C = joined_allD [OF assms(2)] and D = joined_allD [OF assms(3)]
  have maps: "bag_maps (mk_bag target (bb_rows c @ bb_rows d)) = bag_maps c \<union> bag_maps d"
    "bag_maps (mk_bag vs (rs @ ss)) = bag_maps (mk_bag vs rs) \<union> bag_maps (mk_bag vs ss)"
    using C(2) D(2) by (auto simp: bag_maps_def)
  have wf: "bag_ok G (mk_bag target (bb_rows c @ bb_rows d))"
    using C(1,2) D(1,2) unfolding bag_ok_def maps by (auto simp: bag_wf_def layout_ok_def)
  have dis: "distinct (bb_rows c @ bb_rows d)" if "distinct (rs @ ss)"
  proof -
    have False if "x \<in> set (bb_rows c)" "x \<in> set (bb_rows d)" for x
    proof -
      have "row_map target x |` set vs \<in> row_map vs ` set rs" "row_map target x |` set vs \<in> row_map vs ` set ss"
        using C(2,4) D(2,4) that by (auto simp: bag_maps_def)
      then obtain r s where "r \<in> set rs" "s \<in> set ss" "row_map vs r = row_map vs s" by auto
      then have "r = s" using assms(1) by (intro row_map_inj [of vs]) (auto simp: layout_ok_def)
      then show False using \<open>r \<in> set rs\<close> \<open>s \<in> set ss\<close> \<open>distinct (rs @ ss)\<close> by auto
    qed
    then show ?thesis using C(3) D(3) that by auto
  qed
  show ?thesis unfolding joined_all_def maps
  proof (intro conjI allI impI ballI)
    fix k assume k: "dom k = set target" "k |` set (bb_variables (mk_bag vs (rs @ ss))) \<in> bag_maps (mk_bag vs rs) \<union> bag_maps (mk_bag vs ss)"
      "\<forall>p \<in> ps. \<exists>n. S (ep_id p) n \<and> k \<subseteq>\<^sub>m n"
    then show "k \<in> bag_maps c \<union> bag_maps d" using C(5) [of k] D(5) [of k] by auto
  next
    fix k assume "k \<in> bag_maps c \<union> bag_maps d"
    then show "k |` set (bb_variables (mk_bag vs (rs @ ss))) \<in> bag_maps (mk_bag vs rs) \<union> bag_maps (mk_bag vs ss)"
      using C(4) [of k] D(4) [of k] by auto
  next
    fix p k assume "p \<in> ps" "set (ep_variables p) \<subseteq> set target" "k \<in> bag_maps c \<union> bag_maps d"
    then show "S (ep_id p) k" using C(6) D(6) by blast
  qed (use wf dis in simp_all)
qed

lemma joined_all_perm:
  assumes "mset rs = mset ss" and "joined_all G S ps (mk_bag vs rs) target c"
  shows "joined_all G S ps (mk_bag vs ss) target c"
proof -
  have "bag_maps (mk_bag vs ss) = bag_maps (mk_bag vs rs)"
    using mset_eq_setD [OF assms(1)] by (simp add: bag_maps_def)
  then show ?thesis using assms(2) mset_eq_imp_distinct_iff [OF assms(1)] unfolding joined_all_def by simp
qed

lemma joined_all_Nil:
  assumes "distinct target" shows "joined_all G S ps (mk_bag vs []) target (mk_bag target [])"
  using assms by (simp add: joined_all_def bag_ok_def bag_maps_def layout_ok_def)

lemma shard_joins_ok:
  assumes layout: "layout_ok vs rs" and target: "distinct target"
    and sh: "\<forall>(q, is) \<in> set shards. (\<forall>i \<in> set is. i < length rs) \<and>
      (\<exists>p. find (\<lambda>p. ep_id p = q) props = Some p \<and>
        (\<exists>c. propose_and_validate st p (mk_bag vs (map ((!) rs) is)) = Ok c \<and>
             joined_all G S ps (mk_bag vs (map ((!) rs) is)) target c))"
  shows "\<exists>c. rfold (shard_join st props (mk_bag vs rs)) (mk_bag target []) shards = Ok c \<and>
    joined_all G S ps (mk_bag vs (map ((!) rs) (concat (map snd shards)))) target c"
  using sh
proof (induction shards rule: rev_induct)
  case Nil
  then show ?case using joined_all_Nil [OF target] by simp
next
  case (snoc x shards)
  obtain q "is" where x: "x = (q, is)" by (cases x)
  obtain c where c: "rfold (shard_join st props (mk_bag vs rs)) (mk_bag target []) shards = Ok c"
    "joined_all G S ps (mk_bag vs (map ((!) rs) (concat (map snd shards)))) target c"
    using snoc by auto
  obtain p d where d: "find (\<lambda>p. ep_id p = q) props = Some p" "\<forall>i \<in> set is. i < length rs"
    "propose_and_validate st p (mk_bag vs (map ((!) rs) is)) = Ok d"
    "joined_all G S ps (mk_bag vs (map ((!) rs) is)) target d"
    using snoc.prems x by auto
  have "c = mk_bag target (bb_rows c)" "d = mk_bag target (bb_rows d)"
    using joined_allD(1,2) [OF c(2)] joined_allD(1,2) [OF d(4)] by (metis bag_ok_wf bag_wf_def)+
  then have "shard_join st props (mk_bag vs rs) c x = Ok (mk_bag target (bb_rows c @ bb_rows d))"
    using d(1-3) x bb_union_ok [of target "bb_rows c" "bb_rows d"]
    by (simp add: shard_join_def select_rows_ok)
  moreover have "layout_ok vs (map ((!) rs) (concat (map snd shards)) @ map ((!) rs) is)"
    using layout snoc.prems x unfolding layout_ok_def by fastforce
  ultimately show ?case
    using joined_all_append [OF _ c(2) d(4)] c(1) x by (simp add: rfold_append)
qed

lemma shard_step_mset:
  "mset (concat (map snd (hm_modify q [] (\<lambda>is. is @ [i]) m))) = add_mset i (mset (concat (map snd m)))"
  by (induction m) auto

lemma shards_cover:
  assumes "\<forall>p \<in> set ps. p_proposer p \<noteq> None"
  shows "mset (concat (map snd (ordered_shards ps))) = mset [0..<length ps]"
    and "fst ` set (ordered_shards ps) \<subseteq> (\<lambda>p. the (p_proposer p)) ` set ps"
proof -
  have "mset (concat (map snd (foldl shard_step [] (enumerate 0 qs)))) = mset [0..<length qs] \<and>
      fst ` set (foldl shard_step [] (enumerate 0 qs)) \<subseteq> (\<lambda>p. the (p_proposer p)) ` set qs"
    if "set qs \<subseteq> set ps" for qs
    using that
  proof (induction qs rule: rev_induct)
    case (snoc q qs)
    then obtain i where "p_proposer q = Some i" using assms by auto
    then show ?case
      using snoc by (auto simp: enumerate_snoc shard_step_def shard_step_mset hm_modify_keys image_iff)
  qed simp
  note this [OF subset_refl]
  moreover have "mset (concat (map snd (sort_key f xs))) = mset (concat (map snd xs))"
    for f :: "pattern_id \<times> nat list \<Rightarrow> nat" and xs
    by (simp add: mset_concat flip: sum_mset_sum_list)
  ultimately show "mset (concat (map snd (ordered_shards ps))) = mset [0..<length ps]"
    and "fst ` set (ordered_shards ps) \<subseteq> (\<lambda>p. the (p_proposer p)) ` set ps"
    by (simp_all add: ordered_shards_def)
qed

text \<open>After every proposer has counted, every row has a proposer among them.\<close>

lemma counts_ok:
  assumes "\<forall>p \<in> set props. counting_pattern_law G p (S (ep_id p)) (C (ep_id p)) \<and> C (ep_id p) (set (bb_variables b)) added"
    and "bag_ok G b" "added \<noteq> []" "length ps = length (bb_rows b)"
    and "\<forall>p \<in> set ps. p_proposer p = None \<or> the (p_proposer p) \<in> ids" "ep_id ` set props \<subseteq> ids"
  shows "\<exists>ps'. rfold (\<lambda>ps p. ep_count p b added ps) ps props = Ok ps' \<and> length ps' = length (bb_rows b) \<and>
    (\<forall>p \<in> set ps'. p_proposer p = None \<or> the (p_proposer p) \<in> ids) \<and>
    (props \<noteq> [] \<or> (\<forall>p \<in> set ps. p_proposer p \<noteq> None) \<longrightarrow> (\<forall>p \<in> set ps'. p_proposer p \<noteq> None))"
  using assms(1,4-)
proof (induction props arbitrary: ps)
  case (Cons q props)
  have "counting_pattern_law G q (S (ep_id q)) (C (ep_id q))" "C (ep_id q) (set (bb_variables b)) added"
    using Cons.prems(1) by simp_all
  then obtain f where f: "ep_count q b added ps = Ok (map2 (\<lambda>p n. proposal_consider p (ep_id q) n) ps f)" "length f = length ps"
    using counting_pattern_law.count_ok assms(2,3) Cons.prems(2) by blast
  let ?ps = "map2 (\<lambda>p n. proposal_consider p (ep_id q) n) ps f"
  have mem: "p_proposer x \<noteq> None \<and> the (p_proposer x) \<in> ids" if x: "x \<in> set ?ps" for x
  proof -
    obtain p n where "p \<in> set ps" "x = proposal_consider p (ep_id q) n" using x by (auto dest: set_zip_leftD)
    then show ?thesis using Cons.prems(3,4) by (auto simp: proposal_consider_def)
  qed
  have len: "length ?ps = length (bb_rows b)" using f(2) Cons.prems(2) by simp
  from Cons.IH [OF _ len] Cons.prems(1,4) mem f(1) show ?case by simp
qed auto

lemma counts_start:
  assumes "\<forall>p \<in> set props. counting_pattern_law G p (S (ep_id p)) (C (ep_id p)) \<and> C (ep_id p) (set (bb_variables b)) added"
    and "bag_ok G b" "added \<noteq> []" "props \<noteq> []"
  obtains ps where
    "rfold (\<lambda>ps p. ep_count p b added ps) (replicate (length (bb_rows b)) proposal_default) props = Ok ps"
    "length ps = length (bb_rows b)" "\<forall>p \<in> set ps. p_proposer p \<noteq> None"
    "\<forall>p \<in> set ps. the (p_proposer p) \<in> ep_id ` set props"
proof -
  have none: "\<forall>p \<in> set (replicate (length (bb_rows b)) proposal_default). p_proposer p = None \<or> the (p_proposer p) \<in> ep_id ` set props"
    by (simp add: proposal_default_def)
  show thesis
    using counts_ok [OF assms(1-3) length_replicate none subset_refl] that assms(4) by blast
qed

section \<open>Correctness of a plan\<close>

text \<open>The situations in which the participants of a stage are called. A sole proposer only proposes;
  every other participant may have to validate.\<close>

definition stage_ready ::
  "(pattern_id \<Rightarrow> variable set \<Rightarrow> variable list \<Rightarrow> bool) \<Rightarrow> variable set \<Rightarrow> stage \<Rightarrow> bool" where
  "stage_ready C bound st \<longleftrightarrow>
     stage_new (st_added st) (st_participants st) (st_proposer_positions st) (st_target_variables st) = Ok st \<and>
     bound \<inter> set (st_added st) = {} \<and> bound \<union> set (st_added st) = set (st_target_variables st) \<and>
     (if st_added st = [] then \<forall>p \<in> set (st_participants st). C (ep_id p) bound []
      else (\<forall>i \<in> set (st_proposer_positions st). C (ep_id (st_participants st ! i)) bound (st_added st)) \<and>
           (\<forall>p \<in> set (st_participants st). (\<forall>i. st_proposer_positions st = [i] \<longrightarrow> p \<noteq> st_participants st ! i) \<longrightarrow>
              C (ep_id p) (set (st_target_variables st)) []))"

definition stage_lawful ::
  "(bytes \<Rightarrow> bool) \<Rightarrow> (pattern_id \<Rightarrow> (variable \<rightharpoonup> bytes) \<Rightarrow> bool) \<Rightarrow> (pattern_id \<Rightarrow> variable set \<Rightarrow> variable list \<Rightarrow> bool) \<Rightarrow> stage \<Rightarrow> bool" where
  "stage_lawful G S C st \<longleftrightarrow>
     (\<forall>p \<in> set (st_participants st). exec_pattern_law G p (S (ep_id p)) (C (ep_id p))) \<and>
     (1 < length (st_proposer_positions st) \<longrightarrow>
       (\<forall>i \<in> set (st_proposer_positions st). counting_pattern_law G (st_participants st ! i)
          (S (ep_id (st_participants st ! i))) (C (ep_id (st_participants st ! i)))))"

lemma proposers_ok:
  assumes "stage_ready C bound st"
  shows "proposers st = Ok (map ((!) (st_participants st)) (st_proposer_positions st))"
  using stage_new_Ok(4) assms unfolding proposers_def stage_ready_def
  by (intro rmapM_total) auto

lemma execute_proposing_stage_ok:
  assumes ready: "stage_ready C (set (bb_variables b)) st" and laws: "stage_lawful G S C st"
    and b: "bag_ok G b" "st_added st \<noteq> []"
  shows "\<exists>c. execute_proposing_stage st b = Ok c \<and> joined_all G S (set (st_participants st)) b (st_target_variables st) c"
proof -
  let ?ps = "st_participants st" and ?pos = "st_proposer_positions st" and ?T = "st_target_variables st"
  let ?props = "map ((!) ?ps) ?pos"
  have st: "stage_new (st_added st) ?ps ?pos ?T = Ok st" using ready by (simp add: stage_ready_def)
  note new = stage_new_Ok [OF st]
  have vars: "set (bb_variables b) \<inter> set (st_added st) = {}" "set ?T = set (bb_variables b) \<union> set (st_added st)"
    using ready by (auto simp: stage_ready_def)
  have propC: "\<forall>p \<in> set ?props. p \<in> set ?ps \<and> C (ep_id p) (set (bb_variables b)) (st_added st)"
    using ready b(2) new(4) by (auto simp: stage_ready_def)
  have all: "\<forall>p \<in> set ?ps. exec_pattern_law G p (S (ep_id p)) (C (ep_id p))" using laws by (simp add: stage_lawful_def)
  have ne: "?pos \<noteq> []" using new(5) b(2) by simp
  show ?thesis
  proof (cases "length ?pos = 1")
    case True
    then obtain i where i: "?pos = [i]" by (metis One_nat_def length_0_conv length_Suc_conv)
    let ?p = "?ps ! i"
    have "\<forall>q \<in> set ?ps. q \<noteq> ?p \<longrightarrow> C (ep_id q) (set ?T) []"
      using ready b(2) i by (simp add: stage_ready_def)
    then have "\<exists>c. propose_and_validate st ?p b = Ok c \<and> joined_all G S (set ?ps) b ?T c"
      using propC i by (intro propose_and_validate_ok [OF st all _ _ _ b vars]) auto
    then show ?thesis using i by (simp add: execute_proposing_stage_def proposers_ok [OF ready])
  next
    case False
    then have two: "1 < length ?pos" using ne by (cases ?pos) auto
    have others: "\<forall>q \<in> set ?ps. C (ep_id q) (set ?T) []"
      using ready b(2) two by (auto simp: stage_ready_def)
    have count: "\<forall>p \<in> set ?props. counting_pattern_law G p (S (ep_id p)) (C (ep_id p)) \<and>
        C (ep_id p) (set (bb_variables b)) (st_added st)"
      using laws two propC by (simp add: stage_lawful_def)
    obtain vs rs where b': "b = mk_bag vs rs" and layout: "layout_ok vs rs"
      using bag_ok_wf [OF b(1)] by (metis bag_wf_def)
    obtain ps where ps: "rfold (\<lambda>ps p. ep_count p b (st_added st) ps) (replicate (length (bb_rows b)) proposal_default) ?props = Ok ps"
      "length ps = length (bb_rows b)" "\<forall>p \<in> set ps. p_proposer p \<noteq> None"
      "\<forall>p \<in> set ps. the (p_proposer p) \<in> ep_id ` set ?props"
      by (rule counts_start [OF count b]) (use ne in simp)
    have cover: "mset (concat (map snd (ordered_shards ps))) = mset [0..<length rs]"
      using shards_cover(1) [OF ps(3)] ps(2) b' by simp
    have ids: "fst ` set (ordered_shards ps) \<subseteq> ep_id ` set ?props"
      by (rule subset_trans [OF shards_cover(2) [OF ps(3)]]) (use ps(4) in auto)
    have shard: "(\<forall>i \<in> set is. i < length rs) \<and> (\<exists>p. find (\<lambda>p. ep_id p = q) ?props = Some p \<and>
        (\<exists>c. propose_and_validate st p (mk_bag vs (map ((!) rs) is)) = Ok c \<and>
          joined_all G S (set ?ps) (mk_bag vs (map ((!) rs) is)) ?T c))"
      if "(q, is) \<in> set (ordered_shards ps)" for q "is"
    proof -
      have "set is \<subseteq> set (concat (map snd (ordered_shards ps)))" using that by force
      then have range: "\<forall>i \<in> set is. i < length rs" using mset_eq_setD [OF cover] by auto
      have "q \<in> ep_id ` set ?props" using that ids by force
      then obtain p where p: "find (\<lambda>p. ep_id p = q) ?props = Some p"
        using find_None_iff [of "\<lambda>p. ep_id p = q" ?props] by fastforce
      then have "p \<in> set ?props" by (metis find_Some_iff nth_mem)
      moreover have "bag_ok G (mk_bag vs (map ((!) rs) is))"
      proof (rule bag_ok_subset [OF b(1)])
        show "bag_wf (mk_bag vs (map ((!) rs) is))" using layout range by (simp add: layout_ok_def)
        show "bag_maps (mk_bag vs (map ((!) rs) is)) \<subseteq> bag_maps b" using range b' by (auto simp: bag_maps_def)
      qed
      ultimately have "\<exists>c. propose_and_validate st p (mk_bag vs (map ((!) rs) is)) = Ok c \<and>
          joined_all G S (set ?ps) (mk_bag vs (map ((!) rs) is)) ?T c"
        using propC others vars b' by (intro propose_and_validate_ok [OF st all _ _ _ _ b(2)]) auto
      then show ?thesis using range p by blast
    qed
    obtain c where c: "rfold (shard_join st ?props (mk_bag vs rs)) (mk_bag ?T []) (ordered_shards ps) = Ok c"
      "joined_all G S (set ?ps) (mk_bag vs (map ((!) rs) (concat (map snd (ordered_shards ps))))) ?T c"
      using shard_joins_ok [OF layout new(2), of "ordered_shards ps" ?props st G S "set ?ps"] shard by blast
    have "mset (map ((!) rs) (concat (map snd (ordered_shards ps)))) = mset (map ((!) rs) [0..<length rs])"
      using cover by (metis mset_map)
    then have "mset (map ((!) rs) (concat (map snd (ordered_shards ps)))) = mset rs" by (simp add: map_nth)
    from joined_all_perm [OF this c(2)] show ?thesis
      using False c(1) ps(1) new(2) b' by (simp add: execute_proposing_stage_def proposers_ok [OF ready])
  qed
qed

lemma reorder_same_maps:
  assumes "bag_wf b" "distinct target" "set target = set (bb_variables b)"
  shows "\<exists>c. reorder b target = Ok c \<and> bag_wf c \<and> bb_variables c = target \<and> bag_maps c = bag_maps b \<and>
    (distinct (bb_rows b) \<longrightarrow> distinct (bb_rows c))"
proof -
  obtain vs rs where b: "b = mk_bag vs rs" and layout: "layout_ok vs rs" using assms(1) by (metis bag_wf_def)
  let ?c = "mk_bag target (map (proj vs target) rs)"
  have len: "length r = length vs" if "r \<in> set rs" for r using layout that by (simp add: layout_ok_def)
  have eq: "row_map target (proj vs target r) = row_map vs r" if "r \<in> set rs" for r
    using row_map_proj [of target vs r] len [OF that] assms(3) b dom_row_map [of r vs] by (simp add: restrict_dom)
  have "reorder b target = Ok ?c" using reorder_ok [OF layout assms(2)] assms(3) b by simp
  moreover have "bag_wf ?c" using assms(2) by (simp add: layout_ok_def)
  moreover have "bag_maps ?c = bag_maps b" using eq by (auto simp: bag_maps_def b image_image cong: image_cong_simp)
  moreover have "inj_on (proj vs target) (set rs)"
  proof (rule inj_onI)
    fix r s assume rs: "r \<in> set rs" "s \<in> set rs" "proj vs target r = proj vs target s"
    then have "row_map vs r = row_map vs s" using eq by metis
    then show "r = s" using layout len rs by (intro row_map_inj [of vs]) (auto simp: layout_ok_def)
  qed
  ultimately show ?thesis using b by (auto simp: distinct_map)
qed

lemma execute_stage_ok:
  assumes ready: "stage_ready C (set (bb_variables b)) st" and laws: "stage_lawful G S C st" and b: "bag_ok G b"
  shows "\<exists>c. execute_stage st b = Ok c \<and> joined_all G S (set (st_participants st)) b (st_target_variables st) c"
proof -
  let ?T = "st_target_variables st"
  have vars: "set (bb_variables b) \<inter> set (st_added st) = {}" "set ?T = set (bb_variables b) \<union> set (st_added st)"
    using ready by (auto simp: stage_ready_def)
  have dT: "distinct ?T" using stage_new_Ok(2) ready by (auto simp: stage_ready_def)
  have valid: "validate_input st b = Ok ()" using vars by (auto simp: validate_input_def)
  have "\<exists>c. (if st_added st = [] then rbind (validate_all b (st_participants st)) (\<lambda>b. reorder b ?T)
      else execute_proposing_stage st b) = Ok c \<and> joined_all G S (set (st_participants st)) b ?T c"
  proof (cases "st_added st = []")
    case True
    have "\<forall>p \<in> set (st_participants st). exec_pattern_law G p (S (ep_id p)) (C (ep_id p)) \<and> C (ep_id p) (set (bb_variables b)) []"
      using ready laws True by (auto simp: stage_ready_def stage_lawful_def)
    from validate_all_ok [OF this b] obtain c where
      c: "validate_all b (st_participants st) = Ok c" "joined_all G S (set (st_participants st)) b (bb_variables b) c" by blast
    have same: "set ?T = set (bb_variables c)" using vars True joined_allD(2) [OF c(2)] by simp
    obtain d where d: "reorder c ?T = Ok d" "bag_wf d" "bb_variables d = ?T" "bag_maps d = bag_maps c"
      "distinct (bb_rows c) \<longrightarrow> distinct (bb_rows d)"
      using reorder_same_maps [OF bag_ok_wf [OF joined_allD(1) [OF c(2)]] dT same] by blast
    have "joined_all G S (set (st_participants st)) b ?T d"
      using c(2) d(2-5) same joined_allD(2) [OF c(2)] unfolding joined_all_def bag_ok_def by simp
    then show ?thesis using True c(1) d(1) by auto
  next
    case False
    then show ?thesis using execute_proposing_stage_ok [OF ready laws b] by simp
  qed
  then show ?thesis using valid joined_allD(2) by (fastforce simp: execute_stage_def)
qed

text \<open>The variables bound before and after the stages of a plan, and the patterns that take part in a
  stage after which they are fully bound.\<close>

primrec plan_ready :: "(pattern_id \<Rightarrow> variable set \<Rightarrow> variable list \<Rightarrow> bool) \<Rightarrow> variable set \<Rightarrow> stage list \<Rightarrow> bool" where
  "plan_ready C bound [] \<longleftrightarrow> True"
| "plan_ready C bound (st # sts) \<longleftrightarrow> stage_ready C bound st \<and> plan_ready C (set (st_target_variables st)) sts"

primrec final_variables :: "variable list \<Rightarrow> stage list \<Rightarrow> variable list" where
  "final_variables vs [] = vs"
| "final_variables vs (st # sts) = final_variables (st_target_variables st) sts"

definition completed_in :: "stage list \<Rightarrow> exec_pattern set" where
  "completed_in sts =
     {p. \<exists>st \<in> set sts. p \<in> set (st_participants st) \<and> set (ep_variables p) \<subseteq> set (st_target_variables st)}"

definition participants_in :: "stage list \<Rightarrow> exec_pattern set" where
  "participants_in sts = (\<Union>st \<in> set sts. set (st_participants st))"

lemma plan_grows: "plan_ready C (set vs) sts \<Longrightarrow> set vs \<subseteq> set (final_variables vs sts)"
proof (induction sts arbitrary: vs)
  case (Cons st sts)
  then have "set vs \<subseteq> set (st_target_variables st)" by (auto simp: stage_ready_def)
  then show ?case using Cons.IH [of "st_target_variables st"] Cons.prems by auto
qed simp

lemma map_le_restrict: "k |` A \<subseteq>\<^sub>m k"
  by (auto simp: map_le_def restrict_map_def split: if_splits)

lemma execute_joined:
  assumes "plan_ready C (set (bb_variables b)) sts" and "\<forall>st \<in> set sts. stage_lawful G S C st" and "bag_ok G b"
  shows "\<exists>c. execute sts b = Ok c \<and> bag_ok G c \<and> bb_variables c = final_variables (bb_variables b) sts \<and>
    (distinct (bb_rows b) \<longrightarrow> distinct (bb_rows c)) \<and>
    (\<forall>k \<in> bag_maps c. k |` set (bb_variables b) \<in> bag_maps b \<and> (\<forall>p \<in> completed_in sts. S (ep_id p) k)) \<and>
    (\<forall>k. dom k = set (final_variables (bb_variables b) sts) \<longrightarrow> k |` set (bb_variables b) \<in> bag_maps b \<longrightarrow>
      (\<forall>p \<in> participants_in sts. S (ep_id p) k) \<longrightarrow> k \<in> bag_maps c)"
  using assms
proof (induction sts arbitrary: b)
  case Nil
  then have "k |` set (bb_variables b) = k" if "dom k = set (bb_variables b)" for k :: "variable \<rightharpoonup> bytes"
    using that by (simp add: restrict_dom)
  then show ?case
    using Nil bag_maps_dom [OF bag_ok_wf [OF Nil.prems(3)]] by (auto simp: execute_def completed_in_def participants_in_def)
next
  case (Cons st sts)
  let ?T = "st_target_variables st" and ?F = "final_variables (st_target_variables st) sts"
  have ready: "stage_ready C (set (bb_variables b)) st" and rest: "plan_ready C (set ?T) sts"
    using Cons.prems(1) by simp_all
  have laws: "stage_lawful G S C st" using Cons.prems(2) by simp
  obtain c where c: "execute_stage st b = Ok c" "joined_all G S (set (st_participants st)) b ?T c"
    using execute_stage_ok [OF ready laws Cons.prems(3)] by blast
  note C = joined_allD [OF c(2)]
  obtain d where d: "execute sts c = Ok d" "bag_ok G d" "bb_variables d = ?F"
    "distinct (bb_rows c) \<longrightarrow> distinct (bb_rows d)"
    and sound: "\<And>k. k \<in> bag_maps d \<Longrightarrow> k |` set ?T \<in> bag_maps c \<and> (\<forall>p \<in> completed_in sts. S (ep_id p) k)"
    and complete: "\<And>k. dom k = set ?F \<Longrightarrow> k |` set ?T \<in> bag_maps c \<Longrightarrow>
      (\<forall>p \<in> participants_in sts. S (ep_id p) k) \<Longrightarrow> k \<in> bag_maps d"
    using Cons.IH [of c] rest Cons.prems(2) C(1) unfolding C(2) by auto
  have sub: "set (bb_variables b) \<subseteq> set ?T" using ready by (auto simp: stage_ready_def)
  then have rr: "k |` set ?T |` set (bb_variables b) = k |` set (bb_variables b)" for k :: "variable \<rightharpoonup> bytes"
    by (simp add: Int_absorb1)
  have local: "S (ep_id p) k" if "p \<in> set (st_participants st)" "set (ep_variables p) \<subseteq> set ?T" "S (ep_id p) (k |` set ?T)" for p k
  proof -
    have "exec_pattern_law G p (S (ep_id p)) (C (ep_id p))" using laws that(1) by (simp add: stage_lawful_def)
    from exec_pattern_law.sat_local [OF this, of k] exec_pattern_law.sat_local [OF this, of "k |` set ?T"]
    show ?thesis using that(2,3) by (simp add: Int_absorb1)
  qed
  have "S (ep_id p) k" if "k \<in> bag_maps d" "p \<in> completed_in (st # sts)" for p k
    using that sound [OF that(1)] C(6) local by (auto simp: completed_in_def)
  moreover have "k |` set (bb_variables b) \<in> bag_maps b" if "k \<in> bag_maps d" for k
    using sound [OF that] C(4) [of "k |` set ?T"] rr by simp
  moreover have "k \<in> bag_maps d" if k: "dom k = set ?F" "k |` set (bb_variables b) \<in> bag_maps b"
    "\<forall>p \<in> participants_in (st # sts). S (ep_id p) k" for k
  proof (rule complete [OF k(1)])
    have "set ?T \<subseteq> dom k" using plan_grows [OF rest] k(1) by simp
    show "k |` set ?T \<in> bag_maps c"
    proof (rule C(5))
      show "dom (k |` set ?T) = set ?T" using \<open>set ?T \<subseteq> dom k\<close> by auto
      show "k |` set ?T |` set (bb_variables b) \<in> bag_maps b" unfolding rr by (rule k(2))
      fix p assume "p \<in> set (st_participants st)"
      then have "S (ep_id p) k" using k(3) by (simp add: participants_in_def)
      then show "\<exists>n. S (ep_id p) n \<and> k |` set ?T \<subseteq>\<^sub>m n" using map_le_restrict by blast
    qed
  qed (use k(3) in \<open>simp add: participants_in_def\<close>)
  ultimately show ?case using c(1) d C(3) by (auto simp: execute_def)
qed

text \<open>A plan that completes every pattern computes exactly the assignments that satisfy all of them,
  each once, whichever proposers the counts select.\<close>

lemma execute_ok:
  assumes "plan_ready C {} sts" and "\<forall>st \<in> set sts. stage_lawful G S C st" and "completed_in sts = participants_in sts"
  shows "\<exists>c. execute sts bb_unit = Ok c \<and> bag_ok G c \<and> bb_variables c = final_variables [] sts \<and> distinct (bb_rows c) \<and>
    bag_maps c = {k. dom k = set (final_variables [] sts) \<and> (\<forall>p \<in> participants_in sts. S (ep_id p) k)}"
proof -
  have unit: "bb_variables bb_unit = []" "bb_rows bb_unit = [[]]" "bag_maps bb_unit = {Map.empty}"
    by (simp_all add: bb_unit_def bag_maps_def row_map_def)
  obtain c where c: "execute sts bb_unit = Ok c" "bag_ok G c" "bb_variables c = final_variables [] sts" "distinct (bb_rows c)"
    and sound: "\<forall>k \<in> bag_maps c. k |` {} \<in> {Map.empty} \<and> (\<forall>p \<in> completed_in sts. S (ep_id p) k)"
    and complete: "\<forall>k. dom k = set (final_variables [] sts) \<longrightarrow> k |` {} \<in> {Map.empty} \<longrightarrow>
      (\<forall>p \<in> participants_in sts. S (ep_id p) k) \<longrightarrow> k \<in> bag_maps c"
    using execute_joined [of C bb_unit sts G S] assms(1,2) unfolding unit by (auto simp: bag_ok_def unit)
  have "bag_maps c = {k. dom k = set (final_variables [] sts) \<and> (\<forall>p \<in> participants_in sts. S (ep_id p) k)}"
  proof (intro set_eqI iffI)
    fix k assume "k \<in> bag_maps c"
    then show "k \<in> {k. dom k = set (final_variables [] sts) \<and> (\<forall>p \<in> participants_in sts. S (ep_id p) k)}"
      using sound bag_maps_dom [OF bag_ok_wf [OF c(2)]] c(3) assms(3) by simp
  qed (use complete in simp)
  then show ?thesis using c by blast
qed

section \<open>Building joins\<close>

text \<open>Patterns implement their joins by selecting rows and by extending rows.\<close>

lemma joined_select:
  assumes "bag_ok G (mk_bag vs rs)"
    and "\<And>r k n. r \<in> set rs \<Longrightarrow> k = row_map vs r \<Longrightarrow> sat n \<Longrightarrow> k \<subseteq>\<^sub>m n \<Longrightarrow> Q r"
    and "\<And>r. vars \<subseteq> set vs \<Longrightarrow> r \<in> set rs \<Longrightarrow> Q r \<Longrightarrow> sat (row_map vs r)"
  shows "joined G sat vars (mk_bag vs rs) vs (mk_bag vs (filter Q rs))"
proof -
  have layout: "layout_ok vs rs" using bag_ok_wf [OF assms(1)] by simp
  have ok: "bag_ok G (mk_bag vs (filter Q rs))"
    by (rule bag_ok_subset [OF assms(1)]) (use layout in \<open>auto simp: layout_ok_def bag_maps_def\<close>)
  have dom: "row_map vs r |` set vs = row_map vs r" if "r \<in> set rs" for r
    using layout that by (intro restrict_dom) (simp add: layout_ok_def dom_row_map)
  have "k \<in> row_map vs ` set (filter Q rs)"
    if k: "dom k = set vs" "k |` set vs \<in> row_map vs ` set rs" "sat n" "k \<subseteq>\<^sub>m n" for k n
  proof -
    have "k |` set vs = k" using k(1) by (simp add: restrict_dom)
    then obtain r where "r \<in> set rs" "k = row_map vs r" using k(2) by auto
    then show ?thesis using assms(2) k(3,4) by auto
  qed
  then show ?thesis
    using ok assms(3) dom by (auto simp: joined_def bag_maps_def)
qed

lemma joined_extend:
  assumes b: "bag_ok G (mk_bag vs rs)" and added: "distinct added" "set vs \<inter> set added = {}"
    and target: "distinct target" "set target = set vs \<union> set added"
    and exts: "\<And>r. r \<in> set rs \<Longrightarrow> distinct (exts r) \<and> (\<forall>x \<in> set (exts r). length x = length added)"
    and good: "\<And>r x y. r \<in> set rs \<Longrightarrow> x \<in> set (exts r) \<Longrightarrow> y \<in> set x \<Longrightarrow> G y"
    and complete: "\<And>r k n. r \<in> set rs \<Longrightarrow> dom k = set target \<Longrightarrow> k |` set vs = row_map vs r \<Longrightarrow> sat n \<Longrightarrow> k \<subseteq>\<^sub>m n \<Longrightarrow>
      map (\<lambda>v. the (k v)) added \<in> set (exts r)"
    and sound: "\<And>r x. vars \<subseteq> set target \<Longrightarrow> r \<in> set rs \<Longrightarrow> x \<in> set (exts r) \<Longrightarrow> sat (row_map (vs @ added) (r @ x))"
  shows "\<exists>c. rbind (extend_rows (mk_bag vs rs) added (map exts rs)) (\<lambda>b. reorder b target) = Ok c \<and>
    joined G sat vars (mk_bag vs rs) target c"
proof -
  have layout: "layout_ok vs rs" using bag_ok_wf [OF b] by simp
  let ?rows = "concat (map (\<lambda>r. map ((@) r) (exts r)) rs)"
  let ?b = "mk_bag (vs @ added) ?rows"
  have len: "length r = length vs" if "r \<in> set rs" for r using layout that by (simp add: layout_ok_def)
  have "map (\<lambda>(row, xs). map ((@) row) xs) (zip rs (map exts rs)) = map (\<lambda>r. map ((@) r) (exts r)) rs"
    by (rule nth_equalityI) simp_all
  then have ext: "extend_rows (mk_bag vs rs) added (map exts rs) = Ok ?b"
    using extend_rows_ok [OF layout added, of "map exts rs"] exts by auto
  have wf: "bag_wf ?b" using layout added exts by (auto simp: layout_ok_def)
  have st: "set target = set (bb_variables ?b)" using target(2) by simp
  obtain c where c: "reorder ?b target = Ok c" "bag_wf c" "bb_variables c = target" "bag_maps c = bag_maps ?b"
    "distinct (bb_rows ?b) \<longrightarrow> distinct (bb_rows c)"
    using reorder_same_maps [OF wf target(1) st] by blast
  have maps: "bag_maps c = {row_map (vs @ added) (r @ x) | r x. r \<in> set rs \<and> x \<in> set (exts r)}"
    unfolding c(4) by (auto simp: bag_maps_def)
  have split: "row_map (vs @ added) (r @ x) = row_map vs r ++ row_map added x" if "r \<in> set rs" for r x
  proof -
    have "dom (map_of (zip vs r)) \<inter> dom (map_of (zip added x)) = {}"
      using added(2) by (auto dest!: map_of_SomeD set_zip_leftD)
    then show ?thesis using len [OF that] by (simp add: row_map_def map_add_comm)
  qed
  have left: "row_map (vs @ added) (r @ x) |` set vs = row_map vs r" if "r \<in> set rs" for r x
  proof -
    have "row_map added x v = None" if "v \<in> set vs" for v
      unfolding row_map_def using that added(2) by (auto dest!: map_of_SomeD set_zip_leftD simp: map_of_eq_None_iff)
    moreover have "row_map vs r v = None" if "v \<notin> set vs" for v
      unfolding row_map_def using that by (auto dest!: map_of_SomeD set_zip_leftD simp: map_of_eq_None_iff)
    ultimately show ?thesis by (auto simp: split [OF that] restrict_map_def fun_eq_iff map_add_def)
  qed
  have dis: "distinct ?rows" if "distinct rs"
    using that len exts
  proof (induction rs)
    case (Cons r rs)
    have "set (map ((@) r) (exts r)) \<inter> set (concat (map (\<lambda>r. map ((@) r) (exts r)) rs)) = {}"
      using Cons.prems by auto
    moreover have "distinct (concat (map (\<lambda>r. map ((@) r) (exts r)) rs))"
      using Cons.prems by (intro Cons.IH) auto
    ultimately show ?case using Cons.prems(3) [of r] by (simp add: distinct_map inj_on_def)
  qed simp
  have full: "k \<in> bag_maps c"
    if k: "dom k = set target" "k |` set vs \<in> row_map vs ` set rs" "sat n" "k \<subseteq>\<^sub>m n" for k n
  proof -
    obtain r where r: "r \<in> set rs" "k |` set vs = row_map vs r" using k(2) by auto
    let ?x = "map (\<lambda>v. the (k v)) added"
    have "k v = Some (the (k v))" if "v \<in> set added" for v
      using k(1) target(2) that by (metis Un_iff domIff option.exhaust_sel)
    then have "row_map added ?x = k |` set added"
      by (auto simp: row_map_def map_of_zip_map restrict_map_def)
    moreover have "k = k |` set vs ++ k |` set added"
      using k(1) target(2) by (auto simp: restrict_map_def map_add_def fun_eq_iff split: option.split)
    ultimately have "k = row_map (vs @ added) (r @ ?x)" using split [OF r(1)] r(2) by simp
    then show ?thesis using complete [OF r(1) k(1) r(2) k(3,4)] r(1) unfolding maps by blast
  qed
  have "G y" if k: "k \<in> bag_maps c" "y \<in> ran k" for k y
  proof -
    obtain r x where r: "r \<in> set rs" "x \<in> set (exts r)" "k = row_map vs r ++ row_map added x"
      using k(1) split unfolding maps by auto
    have "y \<in> ran (row_map vs r) \<or> y \<in> ran (row_map added x)"
      using k(2) r(3) by (auto simp: ran_def map_add_def split: option.splits)
    moreover have "y \<in> set x" if "y \<in> ran (row_map added x)"
      using that by (auto simp: ran_def row_map_def dest!: map_of_SomeD set_zip_rightD)
    ultimately show ?thesis using b good [OF r(1,2)] r(1) by (auto simp: bag_ok_def bag_maps_def)
  qed
  then have "bag_ok G c" using c(2) by (auto simp: bag_ok_def)
  then have "joined G sat vars (mk_bag vs rs) target c"
    unfolding joined_def using c(3,5) dis left sound full by (auto simp: maps bag_maps_def [of "mk_bag vs rs"])
  then show ?thesis using ext c(1) by simp
qed

lemma select_filter:
  "select_rows (mk_bag vs rs) (map fst (filter (\<lambda>x. Q (snd x)) (enumerate 0 rs))) = Ok (mk_bag vs (filter Q rs))"
proof -
  have "map ((!) rs) (map fst (filter (\<lambda>x. Q (snd x)) (enumerate 0 rs))) = map snd (filter (\<lambda>x. Q (snd x)) (enumerate 0 rs))"
    by (auto simp: in_set_enumerate_eq)
  also have "\<dots> = filter Q (map snd (enumerate 0 rs))" unfolding filter_map o_def ..
  also have "\<dots> = filter Q rs" unfolding map_snd_enumerate ..
  finally have "map ((!) rs) (map fst (filter (\<lambda>x. Q (snd x)) (enumerate 0 rs))) = filter Q rs" .
  moreover have "\<forall>i \<in> set (map fst (filter (\<lambda>x. Q (snd x)) (enumerate 0 rs))). i < length rs"
    by (auto simp: in_set_enumerate_eq)
  ultimately show ?thesis using select_rows_ok by metis
qed

lemma select_matches:
  assumes "\<And>i r. (i, r) \<in> set (enumerate 0 rs) \<Longrightarrow> P (i, r) = Ok (Q r)"
  shows "rbind (rfilter P (enumerate 0 rs)) (\<lambda>matches. select_rows (mk_bag vs rs) (map fst matches)) =
    Ok (mk_bag vs (filter Q rs))"
proof -
  have "rfilter P (enumerate 0 rs) = Ok (filter (\<lambda>x. Q (snd x)) (enumerate 0 rs))"
    using assms by (intro rfilter_ok) (auto simp: split_beta)
  then show ?thesis by (simp add: select_filter)
qed

lemma fold_matches:
  assumes "\<And>m B i r. (i, r) \<in> set xs \<Longrightarrow> \<exists>B'. f (m, B) (i, r) = Ok (if Q r then m @ [i] else m, B')"
  shows "\<exists>B'. rfold f (m, B) xs = Ok (m @ map fst (filter (\<lambda>x. Q (snd x)) xs), B')"
  using assms
proof (induction xs arbitrary: m B)
  case (Cons x xs)
  obtain i r where x: "x = (i, r)" by (cases x)
  obtain B' where B: "f (m, B) (i, r) = Ok (if Q r then m @ [i] else m, B')" using Cons.prems x by fastforce
  obtain B'' where "rfold f (if Q r then m @ [i] else m, B') xs =
      Ok ((if Q r then m @ [i] else m) @ map fst (filter (\<lambda>x. Q (snd x)) xs), B'')"
    using Cons.IH Cons.prems by (metis list.set_intros(2))
  then show ?case using B x by auto
qed simp

lemma row_map_values: "set vs \<subseteq> dom k \<Longrightarrow> row_map vs (map (\<lambda>v. the (k v)) vs) = k |` set vs"
  by (auto simp: row_map_def map_of_zip_map restrict_map_def fun_eq_iff subset_iff domIff)

lemma proj_append:
  assumes "length r = length vs" "length x = length added" "distinct added" "set vs \<inter> set added = {}" "set us \<subseteq> set vs"
  shows "proj (vs @ added) (us @ added) (r @ x) = proj vs us r @ x"
proof -
  have s: "row_map (vs @ added) (r @ x) = row_map added x ++ row_map vs r"
    using assms(1) by (simp add: row_map_def)
  have d: "dom (row_map vs r) = set vs" by (rule dom_row_map [OF assms(1)])
  have "row_map (vs @ added) (r @ x) v = row_map vs r v" if "v \<in> set vs" for v
    unfolding s by (rule map_add_dom_app_simps(1)) (use that d in simp)
  moreover have "row_map (vs @ added) (r @ x) v = row_map added x v" if "v \<in> set added" for v
    unfolding s by (rule map_add_dom_app_simps(3)) (use that d assms(4) in auto)
  moreover have "map (\<lambda>v. the (row_map added x v)) added = x"
    using proj_self [OF assms(3,2)] by (simp add: proj_def)
  ultimately show ?thesis using assms(5) by (auto simp: proj_def subset_iff cong: map_cong)
qed

end
