(* ===== verification/Relation_Pattern.thy ===== *)
theory Relation_Pattern
  imports Join_Engine
begin

text \<open>
  Relations as patterns: the trie of \<^verbatim>\<open>src/algo/trie.rs\<close> and
  \<^verbatim>\<open>src/query/patterns/relation.rs\<close>. A relation matches its rows through a trie over its columns;
  it can propose the columns that follow the bound ones and validate a bound prefix.

  The children of a trie node are a hash map; they are an association list here, in the order of
  insertion, and the results speak of sets of extensions.
\<close>

section \<open>Tries\<close>

datatype 'a trie_node = TrieNode (children: "('a \<times> 'a trie_node) list")

definition trie_new :: "'a trie_node" where "trie_new = TrieNode []"

fun trie_insert :: "'a list \<Rightarrow> 'a trie_node \<Rightarrow> 'a trie_node" where
  "trie_insert [] n = n"
| "trie_insert (x # xs) n = TrieNode (hm_modify x (TrieNode []) (trie_insert xs) (children n))"

fun trie_get :: "'a trie_node \<Rightarrow> 'a list \<Rightarrow> 'a trie_node option" where
  "trie_get n [] = Some n"
| "trie_get n (x # xs) = (case map_of (children n) x of None \<Rightarrow> None | Some c \<Rightarrow> trie_get c xs)"

definition contains_prefix :: "'a trie_node \<Rightarrow> 'a list \<Rightarrow> bool" where
  "contains_prefix n xs \<longleftrightarrow> trie_get n xs \<noteq> None"

section \<open>The pattern\<close>

record relation_pattern =
  rp_id :: pattern_id
  rp_variables :: "variable list"
  rp_has_rows :: bool
  rp_trie :: "bytes trie_node"

definition relation_new :: "pattern_id \<Rightarrow> binding_bag \<Rightarrow> relation_pattern" where
  "relation_new i relation =
     \<lparr>rp_id = i, rp_variables = bb_variables relation, rp_has_rows = (bb_rows relation \<noteq> []),
      rp_trie = foldl (\<lambda>t row. trie_insert row t) trie_new (bb_rows relation)\<rparr>"

fun prefix_loop :: "(variable \<rightharpoonup> nat) \<Rightarrow> nat list \<Rightarrow> bool \<Rightarrow> variable list \<Rightarrow> nat list option" where
  "prefix_loop cols indexes saw_unbound [] = Some indexes"
| "prefix_loop cols indexes saw_unbound (v # vs) =
     (case cols v of
        Some index \<Rightarrow> if saw_unbound then None else prefix_loop cols (indexes @ [index]) saw_unbound vs
      | None \<Rightarrow> prefix_loop cols indexes True vs)"

definition prefix_indexes :: "relation_pattern \<Rightarrow> binding_bag \<Rightarrow> variable list \<Rightarrow> nat list option" where
  "prefix_indexes rp input added =
     (case prefix_loop (column_indexes input) [] False (rp_variables rp) of
        None \<Rightarrow> None
      | Some indexes \<Rightarrow> if prefix added (drop (length indexes) (rp_variables rp)) then Some indexes else None)"

definition trie_node_for :: "relation_pattern \<Rightarrow> binding_row \<Rightarrow> nat list \<Rightarrow> bytes trie_node option result" where
  "trie_node_for rp row indexes = rbind (row_key row indexes) (\<lambda>key. Ok (trie_get (rp_trie rp) key))"

fun count_extensions :: "bytes trie_node \<Rightarrow> nat \<Rightarrow> usize" where
  "count_extensions n 0 = 1"
| "count_extensions n (Suc d) = sum_list (map (\<lambda>(_, c). count_extensions c d) (children n))"

fun add_extensions :: "bytes trie_node \<Rightarrow> nat \<Rightarrow> binding_row \<Rightarrow> binding_row list \<Rightarrow> binding_row list" where
  "add_extensions n 0 values extensions = extensions @ [values]"
| "add_extensions n (Suc d) values extensions =
     foldl (\<lambda>extensions (v, c). add_extensions c d (values @ [v]) extensions) extensions (children n)"

definition relation_candidate_extensions ::
  "relation_pattern \<Rightarrow> binding_row \<Rightarrow> nat list \<Rightarrow> nat \<Rightarrow> binding_row list result" where
  "relation_candidate_extensions rp row indexes depth =
     rbind (trie_node_for rp row indexes) (\<lambda>found.
     case found of None \<Rightarrow> Ok [] | Some n \<Rightarrow> Ok (add_extensions n depth [] []))"

definition relation_count ::
  "relation_pattern \<Rightarrow> binding_bag \<Rightarrow> variable list \<Rightarrow> proposal list \<Rightarrow> proposal list result" where
  "relation_count rp input added proposals =
     rbind (ensure (length proposals = length (bb_rows input)) ''Proposal sidecar has the wrong number of rows'') (\<lambda>_.
     rbind (ensure (added \<noteq> []) ''Relation pattern cannot count an empty proposal'') (\<lambda>_.
     rbind (ok_or (prefix_indexes rp input added) ''Relation cannot propose the requested variables'') (\<lambda>indexes.
     rmapM (\<lambda>(row, proposal).
       rbind (trie_node_for rp row indexes) (\<lambda>found.
       let count = (case found of None \<Rightarrow> 0 | Some n \<Rightarrow> count_extensions n (length added))
       in Ok (proposal_consider proposal (rp_id rp) count)))
       (zip (bb_rows input) proposals))))"

definition relation_join ::
  "relation_pattern \<Rightarrow> binding_bag \<Rightarrow> variable list \<Rightarrow> variable list \<Rightarrow> binding_bag result" where
  "relation_join rp input added target =
     (if added = [] then
        rbind (ensure (target = bb_variables input) ''Relation validation must preserve the input layout'') (\<lambda>_.
        rbind (ok_or (prefix_indexes rp input added) ''Relation validation requires bound variables to form a prefix'') (\<lambda>indexes.
        rbind (if rp_has_rows rp
               then rfilter (\<lambda>(i, row). rbind (trie_node_for rp row indexes) (\<lambda>found. Ok (found \<noteq> None)))
                      (enumerate 0 (bb_rows input))
               else Ok []) (\<lambda>matches.
        select_rows input (map fst matches))))
      else
        rbind (ok_or (prefix_indexes rp input added) ''Relation cannot propose the requested variables'') (\<lambda>indexes.
        rbind (rmapM (\<lambda>row. relation_candidate_extensions rp row indexes (length added)) (bb_rows input)) (\<lambda>extensions.
        rbind (extend_rows input added extensions) (\<lambda>extended.
        reorder extended target))))"

definition relation_exec :: "relation_pattern \<Rightarrow> exec_pattern" where
  "relation_exec rp =
     \<lparr>ep_id = rp_id rp, ep_variables = rp_variables rp, ep_count = relation_count rp, ep_join = relation_join rp\<rparr>"

section \<open>What a trie contains\<close>

fun trie_wf :: "'a trie_node \<Rightarrow> bool" where
  "trie_wf (TrieNode cs) \<longleftrightarrow> distinct (map fst cs) \<and> (\<forall>(_, c) \<in> set cs. trie_wf c)"

lemma trie_wf_children:
  "trie_wf n \<longleftrightarrow> distinct (map fst (children n)) \<and> (\<forall>c. c \<in> snd ` set (children n) \<longrightarrow> trie_wf c)"
  by (cases n) force

lemma hm_modify_values: "snd ` set (hm_modify k d f m) \<subseteq> snd ` set m \<union> f ` insert d (snd ` set m)"
  by (induction m) auto

lemma trie_wfD:
  assumes "trie_wf n"
  shows "hm_wf (children n)" and "(v, c) \<in> set (children n) \<Longrightarrow> trie_wf c"
proof -
  obtain cs where n: "n = TrieNode cs" by (cases n)
  have "\<forall>x \<in> set cs. trie_wf (snd x)" using assms n by (simp add: split_beta)
  then show "(v, c) \<in> set (children n) \<Longrightarrow> trie_wf c" using n by (metis snd_conv trie_node.sel)
  show "hm_wf (children n)" using assms n by simp
qed

lemma trie_insert_wf: "trie_wf n \<Longrightarrow> trie_wf (trie_insert xs n)"
proof (induction xs arbitrary: n)
  case (Cons x xs)
  have "trie_wf c" if "c \<in> snd ` set (hm_modify x (TrieNode []) (trie_insert xs) (children n))" for c
  proof -
    have "c \<in> snd ` set (children n) \<union> trie_insert xs ` insert (TrieNode []) (snd ` set (children n))"
      by (rule subsetD [OF hm_modify_values that])
    then show ?thesis using trie_wfD(2) [OF Cons.prems] Cons.IH by auto
  qed
  moreover have "hm_wf (hm_modify x (TrieNode []) (trie_insert xs) (children n))"
    by (rule hm_modify_wf [OF trie_wfD(1) [OF Cons.prems]])
  ultimately show ?case by (subst trie_wf_children) simp
qed simp

lemma contains_prefix_simps [simp]:
  "contains_prefix n []"
  "contains_prefix n (x # xs) \<longleftrightarrow> (case map_of (children n) x of None \<Rightarrow> False | Some c \<Rightarrow> contains_prefix c xs)"
  by (auto simp: contains_prefix_def split: option.split)

lemma contains_prefix_empty [simp]: "contains_prefix (TrieNode []) xs \<longleftrightarrow> xs = []"
  by (cases xs) simp_all

lemma contains_prefix_insert: "contains_prefix (trie_insert ys n) xs \<longleftrightarrow> prefix xs ys \<or> contains_prefix n xs"
proof (induction ys arbitrary: n xs)
  case (Cons y ys)
  show ?case
  proof (cases xs)
    case (Cons x xs')
    then show ?thesis by (auto simp: hm_modify_lookup or_insert_def Cons.IH split: option.split)
  qed simp
qed auto

lemma trie_rows:
  "trie_wf (foldl (\<lambda>t row. trie_insert row t) trie_new rs)"
  "contains_prefix (foldl (\<lambda>t row. trie_insert row t) trie_new rs) xs \<longleftrightarrow> xs = [] \<or> (\<exists>r \<in> set rs. prefix xs r)"
proof -
  have w: "trie_wf (foldl (\<lambda>t row. trie_insert row t) t rs)" if "trie_wf t" for t :: "'a trie_node"
    using that by (induction rs arbitrary: t) (simp_all add: trie_insert_wf)
  have c: "contains_prefix (foldl (\<lambda>t row. trie_insert row t) t rs) xs \<longleftrightarrow>
      contains_prefix t xs \<or> (\<exists>r \<in> set rs. prefix xs r)" for t :: "'a trie_node"
    by (induction rs arbitrary: t) (auto simp: contains_prefix_insert)
  show "trie_wf (foldl (\<lambda>t row. trie_insert row t) trie_new rs)" by (rule w) (simp add: trie_new_def)
  show "contains_prefix (foldl (\<lambda>t row. trie_insert row t) trie_new rs) xs \<longleftrightarrow> xs = [] \<or> (\<exists>r \<in> set rs. prefix xs r)"
    unfolding c by (auto simp: trie_new_def)
qed

lemma contains_prefix_append:
  "contains_prefix n (xs @ ys) \<longleftrightarrow> (case trie_get n xs of None \<Rightarrow> False | Some m \<Rightarrow> contains_prefix m ys)"
  by (induction xs arbitrary: n) (auto split: option.split)

lemma trie_get_wf: "trie_wf n \<Longrightarrow> trie_get n xs = Some m \<Longrightarrow> trie_wf m"
  by (induction xs arbitrary: n) (auto split: option.splits dest: trie_wfD(2) map_of_SomeD)

text \<open>The extensions of a node are the paths of the given length below it, each once.\<close>

lemma foldl_append: "foldl (\<lambda>xs a. xs @ g a) xs cs = xs @ concat (map g cs)"
  by (induction cs arbitrary: xs) simp_all

lemma add_extensions_append: "add_extensions n d vs exts = exts @ add_extensions n d vs []"
proof (induction d arbitrary: n vs exts)
  case (Suc d)
  let ?g = "\<lambda>(v, c). add_extensions c d (vs @ [v]) []"
  have "(\<lambda>exts (v, c). add_extensions c d (vs @ [v]) exts) = (\<lambda>exts a. exts @ ?g a)"
  proof (intro ext)
    fix exts and a :: "bytes \<times> bytes trie_node"
    show "(case a of (v, c) \<Rightarrow> add_extensions c d (vs @ [v]) exts) = exts @ ?g a"
      unfolding prod.case_eq_if by (rule Suc.IH)
  qed
  then show ?case by (simp add: foldl_append)
qed simp

lemma add_extensions_Suc:
  "add_extensions n (Suc d) vs [] = concat (map (\<lambda>(v, c). add_extensions c d (vs @ [v]) []) (children n))"
proof -
  let ?g = "\<lambda>(v, c). add_extensions c d (vs @ [v]) []"
  have "(\<lambda>exts (v, c). add_extensions c d (vs @ [v]) exts) = (\<lambda>exts a. exts @ ?g a)"
  proof (intro ext)
    fix exts and a :: "bytes \<times> bytes trie_node"
    show "(case a of (v, c) \<Rightarrow> add_extensions c d (vs @ [v]) exts) = exts @ ?g a"
      unfolding prod.case_eq_if by (rule add_extensions_append)
  qed
  then show ?thesis by (simp add: foldl_append)
qed

lemma add_extensions_set:
  assumes "trie_wf n"
  shows "set (add_extensions n d vs []) = {vs @ xs | xs. length xs = d \<and> contains_prefix n xs}"
  using assms
proof (induction d arbitrary: n vs)
  case 0
  then show ?case by (auto simp: contains_prefix_def)
next
  case (Suc d)
  note wf = trie_wfD [OF Suc.prems]
  have e: "x \<in> set (add_extensions c d (vs @ [v]) []) \<longleftrightarrow> (\<exists>xs. x = vs @ v # xs \<and> length xs = d \<and> contains_prefix c xs)"
    if "(v, c) \<in> set (children n)" for v c x
    unfolding Suc.IH [OF wf(2) [OF that]] by auto
  have "x \<in> set (add_extensions n (Suc d) vs []) \<longleftrightarrow> (\<exists>p \<in> set (children n). x \<in> set (case p of (v, c) \<Rightarrow> add_extensions c d (vs @ [v]) []))" for x
    unfolding add_extensions_Suc by simp
  also have "\<dots> x \<longleftrightarrow> (\<exists>p \<in> set (children n). \<exists>xs. x = vs @ fst p # xs \<and> length xs = d \<and> contains_prefix (snd p) xs)" for x
    by (intro bex_cong refl) (simp add: e split_beta)
  also have "\<dots> x \<longleftrightarrow> (\<exists>v c xs. map_of (children n) v = Some c \<and> x = vs @ v # xs \<and> length xs = d \<and> contains_prefix c xs)" for x
    unfolding hm_mem_iff [OF wf(1), symmetric] by force
  also have "\<dots> x \<longleftrightarrow> x \<in> {vs @ xs | xs. length xs = Suc d \<and> contains_prefix n xs}" for x
    by (auto simp: length_Suc_conv split: option.splits)
  finally show ?case by blast
qed

lemma add_extensions_distinct: "trie_wf n \<Longrightarrow> distinct (add_extensions n d vs [])"
proof (induction d arbitrary: n vs)
  case (Suc d)
  note wf = trie_wfD [OF Suc.prems]
  have "distinct (concat (map (\<lambda>(v, c). add_extensions c d (vs @ [v]) []) cs))"
    if "hm_wf cs" "\<And>v c. (v, c) \<in> set cs \<Longrightarrow> trie_wf c" for cs
    using that
  proof (induction cs)
    case (Cons a cs)
    obtain v c where a: "a = (v, c)" by (cases a)
    have "w \<noteq> v" if "(w, e) \<in> set cs" for w e using Cons.prems(1) a that by force
    then have "set (add_extensions c d (vs @ [v]) []) \<inter>
        set (concat (map (\<lambda>(v, c). add_extensions c d (vs @ [v]) []) cs)) = {}"
      using Cons.prems(2) a by (fastforce simp: add_extensions_set)
    moreover have "trie_wf c" using Cons.prems(2) [of v c] a by simp
    moreover have "distinct (concat (map (\<lambda>(v, c). add_extensions c d (vs @ [v]) []) cs))"
      using Cons.prems by (intro Cons.IH) auto
    ultimately show ?case using Suc.IH [of c "vs @ [v]"] a by simp
  qed simp
  then show ?case unfolding add_extensions_Suc using wf by blast
qed simp

section \<open>The relation keeps the contract of patterns\<close>

definition relation_sat :: "binding_bag \<Rightarrow> (variable \<rightharpoonup> bytes) \<Rightarrow> bool" where
  "relation_sat rel k \<longleftrightarrow> k |` set (bb_variables rel) \<in> bag_maps rel"

text \<open>The bound variables of the relation are its first ones, and the next ones are added.\<close>

definition relation_can :: "(bytes \<Rightarrow> bool) \<Rightarrow> binding_bag \<Rightarrow> variable set \<Rightarrow> variable list \<Rightarrow> bool" where
  "relation_can G rel bound added \<longleftrightarrow> bag_ok G rel \<and>
     (\<exists>n \<le> length (bb_variables rel). (\<forall>v \<in> set (take n (bb_variables rel)). v \<in> bound) \<and>
        (\<forall>v \<in> set (drop n (bb_variables rel)). v \<notin> bound) \<and> prefix added (drop n (bb_variables rel)))"

lemma prefix_loop_unbound:
  "\<forall>v \<in> set vs. cols v = None \<Longrightarrow> prefix_loop cols is b vs = Some is"
  by (induction vs arbitrary: b) simp_all

lemma prefix_loop_bound:
  assumes "\<forall>v \<in> set us. cols v \<noteq> None" "\<forall>v \<in> set ws. cols v = None"
  shows "prefix_loop cols is False (us @ ws) = Some (is @ map (\<lambda>v. the (cols v)) us)"
  using assms by (induction us arbitrary: "is") (auto simp: prefix_loop_unbound)

lemma prefix_indexes_ok:
  assumes "bb_variables rel = us @ ws" "set us \<subseteq> set vs" "set ws \<inter> set vs = {}" "prefix added ws"
  shows "prefix_indexes (relation_new i rel) (mk_bag vs rs) added =
    Some (map (\<lambda>v. the (map_of (zip vs [0..<length vs]) v)) us)"
proof -
  have "\<forall>v \<in> set us. map_of (zip vs [0..<length vs]) v \<noteq> None" "\<forall>v \<in> set ws. map_of (zip vs [0..<length vs]) v = None"
    using assms(2,3) zip_pos [of vs] by auto
  then show ?thesis
    using assms(1,4) prefix_loop_bound [of us "map_of (zip vs [0..<length vs])" ws "[]"]
    by (simp add: prefix_indexes_def relation_new_def)
qed

lemma relation_node:
  assumes "layout_ok vs rs" "r \<in> set rs" "set us \<subseteq> set vs"
  shows "trie_node_for rp r (map (\<lambda>v. the (map_of (zip vs [0..<length vs]) v)) us) =
    Ok (trie_get (rp_trie rp) (proj vs us r))"
  using assms row_key_proj [of vs r us] by (simp add: trie_node_for_def layout_ok_def)

text \<open>A partial row \<open>us \<mapsto> x\<close> is a prefix of a row of the relation exactly when some satisfying assignment
  extends it.\<close>

lemma relation_prefix:
  assumes "layout_ok (us @ ws) rows" "length x = length us"
  shows "(\<exists>r \<in> set rows. prefix x r) \<longleftrightarrow> (\<exists>n. relation_sat (mk_bag (us @ ws) rows) n \<and> row_map us x \<subseteq>\<^sub>m n)"
proof
  assume "\<exists>r \<in> set rows. prefix x r"
  then obtain y where r: "x @ y \<in> set rows" by (auto simp: prefix_def)
  then have "length (x @ y) = length (us @ ws)" using assms(1) unfolding layout_ok_def by blast
  then have "row_map (us @ ws) (x @ y) |` set (us @ ws) = row_map (us @ ws) (x @ y)"
    by (intro restrict_dom eq_refl dom_row_map)
  then have "relation_sat (mk_bag (us @ ws) rows) (row_map (us @ ws) (x @ y))"
    using r by (auto simp: relation_sat_def bag_maps_def)
  moreover have "row_map us x \<subseteq>\<^sub>m row_map (us @ ws) (x @ y)"
    using assms(2) by (simp add: row_map_def map_le_def map_add_def split: option.split)
  ultimately show "\<exists>n. relation_sat (mk_bag (us @ ws) rows) n \<and> row_map us x \<subseteq>\<^sub>m n" by blast
next
  assume "\<exists>n. relation_sat (mk_bag (us @ ws) rows) n \<and> row_map us x \<subseteq>\<^sub>m n"
  then obtain n r where n: "row_map us x \<subseteq>\<^sub>m n" "r \<in> set rows" "n |` set (us @ ws) = row_map (us @ ws) r"
    by (auto simp: relation_sat_def bag_maps_def)
  have len: "length r = length us + length ws" and d: "distinct (us @ ws)"
    using assms(1) n(2) by (auto simp: layout_ok_def)
  have "x ! i = r ! i" if "i < length us" for i
  proof -
    have "row_map us x (us ! i) = Some (x ! i)" using d assms(2) that by (intro row_map_nth) auto
    then have "n (us ! i) = Some (x ! i)" using n(1) by (metis domI map_le_def)
    moreover have "row_map (us @ ws) r (us ! i) = Some (r ! i)"
      using row_map_nth [OF d, of r i] len that by (simp add: nth_append)
    ultimately show ?thesis using n(3) that by (metis Un_iff nth_mem option.inject restrict_in set_append)
  qed
  then have "x = take (length us) r" using assms(2) len by (intro nth_equalityI) auto
  then show "\<exists>r \<in> set rows. prefix x r" using n(2) take_is_prefix by metis
qed

lemma relation_trie:
  assumes "rp = relation_new i rel"
  shows "trie_wf (rp_trie rp)"
    and "contains_prefix (rp_trie rp) xs \<longleftrightarrow> xs = [] \<or> (\<exists>r \<in> set (bb_rows rel). prefix xs r)"
    and "rp_has_rows rp \<longleftrightarrow> bb_rows rel \<noteq> []" and "rp_variables rp = bb_variables rel" and "rp_id rp = i"
  using trie_rows assms by (simp_all add: relation_new_def)

definition relation_extensions :: "relation_pattern \<Rightarrow> variable list \<Rightarrow> variable list \<Rightarrow> nat \<Rightarrow> binding_row \<Rightarrow> binding_row list" where
  "relation_extensions rp vs us d r =
     (case trie_get (rp_trie rp) (proj vs us r) of None \<Rightarrow> [] | Some n \<Rightarrow> add_extensions n d [] [])"

lemma relation_extensions_set:
  assumes "trie_wf (rp_trie rp)"
  shows "set (relation_extensions rp vs us d r) = {x. length x = d \<and> contains_prefix (rp_trie rp) (proj vs us r @ x)}"
    and "distinct (relation_extensions rp vs us d r)"
proof -
  have "set (relation_extensions rp vs us d r) = {x. length x = d \<and> contains_prefix (rp_trie rp) (proj vs us r @ x)} \<and>
      distinct (relation_extensions rp vs us d r)"
  proof (cases "trie_get (rp_trie rp) (proj vs us r)")
    case (Some n)
    then have "trie_wf n" by (rule trie_get_wf [OF assms])
    then show ?thesis
      using Some by (auto simp: relation_extensions_def contains_prefix_append add_extensions_set add_extensions_distinct)
  qed (simp add: relation_extensions_def contains_prefix_append)
  then show "set (relation_extensions rp vs us d r) = {x. length x = d \<and> contains_prefix (rp_trie rp) (proj vs us r @ x)}"
    and "distinct (relation_extensions rp vs us d r)" by simp_all
qed

lemma prefix_same_length: "prefix xs ys \<Longrightarrow> length xs = length ys \<Longrightarrow> xs = ys"
  by (auto simp: prefix_def)

lemma relation_validate:
  assumes rel: "layout_ok (us @ ws) rows" and ok: "bag_ok G (mk_bag vs rs)" and us: "set us \<subseteq> set vs" "set ws \<inter> set vs = {}"
    and rp: "rp = relation_new i (mk_bag (us @ ws) rows)"
  shows "\<exists>c. relation_join rp (mk_bag vs rs) [] vs = Ok c \<and>
    joined G (relation_sat (mk_bag (us @ ws) rows)) (set (us @ ws)) (mk_bag vs rs) vs c"
proof -
  have b: "layout_ok vs rs" using bag_ok_wf [OF ok] by simp
  let ?is = "map (\<lambda>v. the (map_of (zip vs [0..<length vs]) v)) us"
  let ?Q = "\<lambda>r. \<exists>x \<in> set rows. prefix (proj vs us r) x"
  note T = relation_trie [OF rp]
  have ix: "prefix_indexes rp (mk_bag vs rs) [] = Some ?is"
    unfolding rp by (rule prefix_indexes_ok) (use us in auto)
  have len: "length r = length vs" if "r \<in> set rs" for r using b that by (simp add: layout_ok_def)
  have "relation_join rp (mk_bag vs rs) [] vs = Ok (mk_bag vs (filter ?Q rs))"
  proof (cases "rows = []")
    case True
    then have "filter ?Q rs = []" by simp
    then show ?thesis using True ix T(3) by (simp add: relation_join_def select_rows_ok)
  next
    case False
    have "rbind (trie_node_for rp r ?is) (\<lambda>found. Ok (found \<noteq> None)) = Ok (?Q r)" if "r \<in> set rs" for r
      using T(2) [of "proj vs us r"] False relation_node [OF b that us(1)]
      by (auto simp: contains_prefix_def neq_Nil_conv)
    then have "rbind (rfilter (\<lambda>(i, row). rbind (trie_node_for rp row ?is) (\<lambda>found. Ok (found \<noteq> None))) (enumerate 0 rs))
        (\<lambda>matches. select_rows (mk_bag vs rs) (map fst matches)) = Ok (mk_bag vs (filter ?Q rs))"
      by (intro select_matches) (auto simp: in_set_enumerate_eq)
    then show ?thesis using False ix T(3) by (simp add: relation_join_def)
  qed
  moreover have "joined G (relation_sat (mk_bag (us @ ws) rows)) (set (us @ ws)) (mk_bag vs rs) vs (mk_bag vs (filter ?Q rs))"
  proof (rule joined_select [OF ok])
    fix r k n assume r: "r \<in> set rs" "k = row_map vs r" "relation_sat (mk_bag (us @ ws) rows) n" "k \<subseteq>\<^sub>m n"
    have "row_map us (proj vs us r) = row_map vs r |` set us" by (rule row_map_proj [OF us(1) len [OF r(1)]])
    then have "row_map us (proj vs us r) \<subseteq>\<^sub>m n" using r(2,4) map_le_restrict map_le_trans by metis
    then show "?Q r" using relation_prefix [OF rel, of "proj vs us r"] r(3) by auto
  next
    fix r assume r: "set (us @ ws) \<subseteq> set vs" "r \<in> set rs" "?Q r"
    have ws: "ws = []" using r(1) us(2) by (cases ws) auto
    then have "length (proj vs us r) = length x" if "x \<in> set rows" for x using rel that by (simp add: layout_ok_def)
    then have "proj vs us r \<in> set rows" using r(3) prefix_same_length by metis
    moreover have "row_map us (proj vs us r) = row_map vs r |` set us" by (rule row_map_proj [OF us(1) len [OF r(2)]])
    ultimately show "relation_sat (mk_bag (us @ ws) rows) (row_map vs r)"
      unfolding relation_sat_def bag_maps_def ws by (metis append_Nil2 image_eqI mk_bag_simps(1,2))
  qed
  ultimately show ?thesis by blast
qed

lemma relation_propose:
  assumes rel: "bag_ok G (mk_bag (us @ added @ ws) rows)" and ok: "bag_ok G (mk_bag vs rs)" and us: "set us \<subseteq> set vs" "set ws \<inter> set vs = {}"
    and added: "added \<noteq> []" "set vs \<inter> set added = {}"
    and target: "distinct target" "set target = set vs \<union> set added"
    and rp: "rp = relation_new i (mk_bag (us @ added @ ws) rows)"
  shows "\<exists>c. relation_join rp (mk_bag vs rs) added target = Ok c \<and>
    joined G (relation_sat (mk_bag (us @ added @ ws) rows)) (set (us @ added @ ws)) (mk_bag vs rs) target c"
proof -
  have b: "layout_ok vs rs" and relw: "layout_ok (us @ added @ ws) rows"
    using bag_ok_wf [OF ok] bag_ok_wf [OF rel] by simp_all
  let ?is = "map (\<lambda>v. the (map_of (zip vs [0..<length vs]) v)) us" and ?rel = "mk_bag (us @ added @ ws) rows"
  let ?exts = "relation_extensions rp vs us (length added)"
  note T = relation_trie [OF rp] and E = relation_extensions_set [OF relation_trie(1) [OF rp]]
  have da: "distinct added" "distinct (us @ added)" using relw by (auto simp: layout_ok_def)
  have ix: "prefix_indexes rp (mk_bag vs rs) added = Some ?is"
    unfolding rp by (rule prefix_indexes_ok [where ws = "added @ ws"]) (use us added in auto)
  have len: "length r = length vs" if "r \<in> set rs" for r using b that by (simp add: layout_ok_def)
  have ext: "rmapM (\<lambda>row. relation_candidate_extensions rp row ?is (length added)) rs = Ok (map ?exts rs)"
    by (rule rmapM_total) (simp add: relation_candidate_extensions_def relation_extensions_def relation_node [OF b _ us(1)] split: option.split)
  have mem: "x \<in> set (?exts r) \<longleftrightarrow> length x = length added \<and> (\<exists>y \<in> set rows. prefix (proj vs us r @ x) y)" for r x
    using added(1) unfolding E(1) T(2) by auto
  have "\<exists>c. rbind (extend_rows (mk_bag vs rs) added (map ?exts rs)) (\<lambda>b. reorder b target) = Ok c \<and>
      joined G (relation_sat ?rel) (set (us @ added @ ws)) (mk_bag vs rs) target c"
  proof (rule joined_extend [OF ok da(1) added(2) target])
    fix r k n assume r: "r \<in> set rs" "dom k = set target" "k |` set vs = row_map vs r" "relation_sat ?rel n" "k \<subseteq>\<^sub>m n"
    let ?x = "map (\<lambda>v. the (k v)) added"
    have "map (\<lambda>v. the (k v)) us = proj vs us r"
      unfolding proj_def using r(3) us(1) by (intro map_cong refl) (metis restrict_in subsetD)
    then have "row_map (us @ added) (proj vs us r @ ?x) = k |` set (us @ added)"
      using row_map_values [of "us @ added" k] r(2) target(2) us(1) by auto
    then have "row_map (us @ added) (proj vs us r @ ?x) \<subseteq>\<^sub>m n" using r(5) map_le_restrict map_le_trans by metis
    moreover have "layout_ok ((us @ added) @ ws) rows" using relw by simp
    ultimately show "?x \<in> set (?exts r)"
      using relation_prefix [of "us @ added" ws rows "proj vs us r @ ?x"] r(4) by (auto simp: mem)
  next
    fix r x assume r: "set (us @ added @ ws) \<subseteq> set target" "r \<in> set rs" "x \<in> set (?exts r)"
    have ws: "ws = []"
    proof (cases ws)
      case (Cons w ws')
      then have "w \<in> set vs \<union> set added" "w \<notin> set added" using r(1) target(2) relw by (auto simp: layout_ok_def)
      then show ?thesis using us(2) Cons by auto
    qed simp
    have x: "length x = length added" "\<exists>y \<in> set rows. prefix (proj vs us r @ x) y" using r(3) mem by auto
    have "length (proj vs us r @ x) = length y" if "y \<in> set rows" for y using relw that ws x(1) by (simp add: layout_ok_def)
    then have "proj vs us r @ x \<in> set rows" using x(2) prefix_same_length by metis
    moreover have "row_map (us @ added) (proj vs us r @ x) = row_map (vs @ added) (r @ x) |` set (us @ added)"
      using row_map_proj [of "us @ added" "vs @ added" "r @ x"] us(1) len [OF r(2)] x(1)
        proj_append [OF len [OF r(2)] x(1) da(1) added(2) us(1)] by auto
    ultimately show "relation_sat ?rel (row_map (vs @ added) (r @ x))"
      unfolding relation_sat_def bag_maps_def ws by (metis append_Nil2 image_eqI mk_bag_simps(1,2))
  next
    fix r x y assume r: "x \<in> set (?exts r)" "y \<in> set x"
    then obtain z where z: "z \<in> set rows" "y \<in> set z" unfolding mem by (auto simp: prefix_def)
    then have "y \<in> ran (row_map (us @ added @ ws) z)"
      using relw by (auto simp: row_map_def ran_map_of_zip layout_ok_def)
    then show "G y" using rel z(1) by (auto simp: bag_ok_def bag_maps_def)
  qed (use E(2) mem in auto)
  then show ?thesis using added(1) ix ext by (simp add: relation_join_def)
qed

lemma relation_can_split:
  assumes "relation_can G rel bound added"
  obtains us ws rows where "rel = mk_bag (us @ added @ ws) rows" "bag_ok G (mk_bag (us @ added @ ws) rows)"
    "set us \<subseteq> bound" "set ws \<inter> bound = {}"
proof -
  from assms obtain n where n: "n \<le> length (bb_variables rel)" "\<forall>v \<in> set (take n (bb_variables rel)). v \<in> bound"
    "\<forall>v \<in> set (drop n (bb_variables rel)). v \<notin> bound" "prefix added (drop n (bb_variables rel))" and ok: "bag_ok G rel"
    unfolding relation_can_def bag_ok_def by blast
  obtain ws where ws: "drop n (bb_variables rel) = added @ ws" using n(4) by (auto simp: prefix_def)
  have V: "bb_variables rel = take n (bb_variables rel) @ added @ ws" by (metis append_take_drop_id ws)
  show thesis
    by (rule that [of "take n (bb_variables rel)" ws "bb_rows rel"])
       (use ok bag_ok_wf [OF ok] V n(2,3) ws in \<open>auto simp: bag_wf_def\<close>)
qed

lemma relation_can_disjoint: "relation_can G rel bound added \<Longrightarrow> set added \<inter> bound = {}"
  unfolding relation_can_def by (auto dest: set_mono_prefix)

lemma relation_exec_simps [simp]:
  "ep_id (relation_exec rp) = rp_id rp" "ep_variables (relation_exec rp) = rp_variables rp"
  "ep_count (relation_exec rp) = relation_count rp" "ep_join (relation_exec rp) = relation_join rp"
  by (simp_all add: relation_exec_def)

interpretation rel: exec_pattern_law G "relation_exec (relation_new i r)" "relation_sat r" "relation_can G r" for G i r
proof unfold_locales
  fix k show "relation_sat r k \<longleftrightarrow> relation_sat r (k |` set (ep_variables (relation_exec (relation_new i r))))"
    by (simp add: relation_sat_def relation_new_def)
next
  fix b added target
  assume b: "bag_ok G b" "relation_can G r (set (bb_variables b)) added" "distinct added" "distinct target"
    "set (bb_variables b) \<inter> set added = {}" "set target = set (bb_variables b) \<union> set added"
    "added = [] \<Longrightarrow> target = bb_variables b"
  obtain us ws rows where r: "r = mk_bag (us @ added @ ws) rows" "bag_ok G (mk_bag (us @ added @ ws) rows)"
    "set us \<subseteq> set (bb_variables b)" "set ws \<inter> set (bb_variables b) = {}"
    by (rule relation_can_split [OF b(2)])
  obtain vs rs where B: "b = mk_bag vs rs" "layout_ok vs rs" using bag_ok_wf [OF b(1)] by (metis bag_wf_def)
  have "\<exists>c. relation_join (relation_new i r) (mk_bag vs rs) added target = Ok c \<and>
      joined G (relation_sat r) (set (us @ added @ ws)) (mk_bag vs rs) target c"
  proof (cases "added = []")
    case True
    then show ?thesis
      using relation_validate [of us ws rows G vs rs "relation_new i r" i] r B bag_ok_wf [OF r(2)] b(1,7) by simp
  next
    case False
    then show ?thesis
      using relation_propose [of G us added ws rows vs rs target "relation_new i r" i] r B b(1,4-6) by simp
  qed
  then show "\<exists>c. ep_join (relation_exec (relation_new i r)) b added target = Ok c \<and>
      joined G (relation_sat r) (set (ep_variables (relation_exec (relation_new i r)))) b target c"
    using B(1) r(1) by (simp add: relation_new_def)
qed

interpretation rel: counting_pattern_law G "relation_exec (relation_new i r)" "relation_sat r" "relation_can G r" for G i r
proof unfold_locales
  fix b added and ps :: "proposal list"
  assume b: "bag_ok G b" "relation_can G r (set (bb_variables b)) added" "added \<noteq> []" "length ps = length (bb_rows b)"
  obtain vs rs where B: "b = mk_bag vs rs" "layout_ok vs rs" using bag_ok_wf [OF b(1)] by (metis bag_wf_def)
  obtain us ws rows where r: "r = mk_bag (us @ added @ ws) rows" "bag_ok G (mk_bag (us @ added @ ws) rows)"
    "set us \<subseteq> set vs" "set ws \<inter> set vs = {}" "set added \<inter> set vs = {}"
    using relation_can_split [OF b(2)] b(2) unfolding B(1) mk_bag_simps by (metis relation_can_disjoint)
  let ?rp = "relation_new i r" and ?is = "map (\<lambda>v. the (map_of (zip vs [0..<length vs]) v)) us"
  let ?n = "\<lambda>row. case trie_get (rp_trie ?rp) (proj vs us row) of None \<Rightarrow> 0 | Some n \<Rightarrow> count_extensions n (length added)"
  have ix: "prefix_indexes ?rp b added = Some ?is"
    unfolding B(1) by (rule prefix_indexes_ok [where ws = "added @ ws"]) (use r in auto)
  have "rmapM (\<lambda>(row, p). rbind (trie_node_for ?rp row ?is) (\<lambda>found.
        let count = (case found of None \<Rightarrow> 0 | Some n \<Rightarrow> count_extensions n (length added))
        in Ok (proposal_consider p (rp_id ?rp) count))) (zip rs ps) =
      Ok (map (\<lambda>(row, p). proposal_consider p (rp_id ?rp) (?n row)) (zip rs ps))"
    by (rule rmapM_total) (auto simp: relation_node [OF B(2) set_zip_leftD r(3)] Let_def)
  moreover have "map (\<lambda>(row, p). proposal_consider p (rp_id ?rp) (?n row)) (zip rs ps) =
      map2 (\<lambda>p n. proposal_consider p (rp_id ?rp) n) ps (map ?n rs)"
    using b(4) B(1) by (intro nth_equalityI) simp_all
  ultimately have "relation_count ?rp b added ps = Ok (map2 (\<lambda>p n. proposal_consider p (rp_id ?rp) n) ps (map ?n rs))"
    using b(3,4) ix B(1) by (simp add: relation_count_def)
  then show "\<exists>f. ep_count (relation_exec ?rp) b added ps =
      Ok (map2 (\<lambda>p n. proposal_consider p (ep_id (relation_exec ?rp)) n) ps f) \<and> length f = length ps"
    using b(4) B(1) by (intro exI [of _ "map ?n rs"]) simp
qed

end
