(* ===== verification/Dyn_Index.thy ===== *)
theory Dyn_Index
  imports Temporal_Props
begin

text \<open>
  The boxed iterators of the triple patterns, \<^verbatim>\<open>Box<dyn Index>\<close> of
  \<^verbatim>\<open>src/iterator/slate_iterator.rs\<close>: a plain scan or a temporal one behind the same operations.
  The locale \<open>value_cursor\<close> is what the patterns rely on: a cursor stands before an increasing list
  of values; reading gives the first one, and seeking drops the values below the target.
\<close>

section \<open>Dispatch\<close>

datatype 'it dyn_index = DynSlate "'it slate_iterator" | DynTemporal "'it tfi"

fun dyn_seek :: "('db, 'it) slate_ops \<Rightarrow> nat \<Rightarrow> 'it dyn_index \<Rightarrow> bytes \<Rightarrow> 'it dyn_index result" where
  "dyn_seek ops n (DynSlate s) key = rbind (si_seek ops s key) (\<lambda>s. Ok (DynSlate s))"
| "dyn_seek ops n (DynTemporal s) key = rbind (tfi_seek ops n s key) (\<lambda>s. Ok (DynTemporal s))"

fun dyn_next :: "('db, 'it) slate_ops \<Rightarrow> nat \<Rightarrow> 'it dyn_index \<Rightarrow> (bytes option \<times> 'it dyn_index) result" where
  "dyn_next ops n (DynSlate s) = rbind (si_next ops s) (\<lambda>(v, s). Ok (v, DynSlate s))"
| "dyn_next ops n (DynTemporal s) = rbind (tfi_next ops n s) (\<lambda>(v, s). Ok (v, DynTemporal s))"

fun dyn_get_value :: "'it dyn_index \<Rightarrow> bytes option result" where
  "dyn_get_value (DynSlate s) = si_get_value s"
| "dyn_get_value (DynTemporal s) = tfi_get_value s"

fun dyn_has_next :: "'it dyn_index \<Rightarrow> bool" where
  "dyn_has_next (DynSlate s) = si_has_next s"
| "dyn_has_next (DynTemporal s) = tfi_has_next s"

section \<open>The contract of a cursor\<close>

text \<open>\<open>view A s vs\<close>: the cursor \<open>s\<close> stands before the values \<open>vs\<close>; the values it may pass over are in \<open>A\<close>.\<close>

locale value_cursor =
  fixes view :: "bytes set \<Rightarrow> 's \<Rightarrow> bytes list \<Rightarrow> bool"
    and get_value :: "'s \<Rightarrow> bytes option result"
    and next_value :: "'s \<Rightarrow> (bytes option \<times> 's) result"
    and has_next :: "'s \<Rightarrow> bool"
    and seek :: "'s \<Rightarrow> bytes \<Rightarrow> 's result"
  assumes view_sorted: "view A s vs \<Longrightarrow> sorted_wrt (<) vs"
    and get_value_law: "view A s vs \<Longrightarrow> get_value s = Ok (first_of vs)"
    and has_next_law: "view A s vs \<Longrightarrow> has_next s \<longleftrightarrow> vs \<noteq> []"
    and next_law: "view A s vs \<Longrightarrow> \<exists>v s'. next_value s = Ok (v, s') \<and> view A s' (tl vs)"
    and seek_law: "view A s vs \<Longrightarrow> vs \<noteq> [] \<Longrightarrow> (\<And>v. v \<in> A \<Longrightarrow> \<not> strict_prefix v key) \<Longrightarrow>
      \<exists>s'. seek s key = Ok s' \<and> view A s' (filter (\<lambda>v. key \<le> v) vs)"

text \<open>The loops of the clients: taking the values that start with a prefix, and looking values up in
  increasing order.\<close>

primrec prefix_values ::
  "('s \<Rightarrow> bytes option result) \<Rightarrow> ('s \<Rightarrow> (bytes option \<times> 's) result) \<Rightarrow> nat \<Rightarrow> bytes \<Rightarrow> 's \<Rightarrow> (bytes list \<times> 's) result" where
  "prefix_values get nxt 0 first s = Error OutOfFuel"
| "prefix_values get nxt (Suc n) first s =
     rbind (get s) (\<lambda>v. case v of
        None \<Rightarrow> Ok ([], s)
      | Some x \<Rightarrow>
          if \<not> prefix first x then Ok ([], s)
          else rbind (nxt s) (\<lambda>(_, s').
               rbind (prefix_values get nxt n first s') (\<lambda>(xs, s''). Ok (drop (length first) x # xs, s''))))"

definition set_at :: "'a list \<Rightarrow> 'a \<Rightarrow> nat \<Rightarrow> 'a list result" where
  "set_at xs x i = (if i < length xs then Ok (xs[i := x]) else Error (Panic ''index out of bounds''))"

primrec extend_groups ::
  "('s \<Rightarrow> bytes option result) \<Rightarrow> ('s \<Rightarrow> (bytes option \<times> 's) result) \<Rightarrow> ('s \<Rightarrow> bool) \<Rightarrow> ('s \<Rightarrow> bytes \<Rightarrow> 's result) \<Rightarrow>
     nat \<Rightarrow> 's \<Rightarrow> (bytes \<times> nat list) list \<Rightarrow> bytes list list list \<Rightarrow> bytes list list list result" where
  "extend_groups get nxt has sk n s [] extensions = Ok extensions"
| "extend_groups get nxt has sk n s (g # gs) extensions =
     (if \<not> has s then Ok extensions
      else
        rbind (sk s (fst g)) (\<lambda>s.
        rbind (prefix_values get nxt n (fst g) s) (\<lambda>(values, s).
        rbind (rfold (\<lambda>es i. set_at es (map (\<lambda>v. [v]) values) i) extensions (snd g)) (\<lambda>extensions.
        extend_groups get nxt has sk n s gs extensions))))"

primrec check_groups ::
  "('s \<Rightarrow> bytes option result) \<Rightarrow> ('s \<Rightarrow> bool) \<Rightarrow> ('s \<Rightarrow> bytes \<Rightarrow> 's result) \<Rightarrow> 's \<Rightarrow>
     (bytes \<times> nat list) list \<Rightarrow> bool list \<Rightarrow> bool list result" where
  "check_groups get has sk s [] matches = Ok matches"
| "check_groups get has sk s (g # gs) matches =
     (if \<not> has s then Ok matches
      else
        rbind (sk s (fst g)) (\<lambda>s.
        rbind (get s) (\<lambda>v.
        rbind (if v = Some (fst g) then rfold (\<lambda>m i. set_at m True i) matches (snd g) else Ok matches) (\<lambda>matches.
        check_groups get has sk s gs matches))))"

lemma set_all:
  "\<forall>i \<in> set is. i < length xs \<Longrightarrow>
     \<exists>ys. rfold (\<lambda>xs i. set_at xs x i) xs is = Ok ys \<and> length ys = length xs \<and>
       (\<forall>i < length xs. ys ! i = (if i \<in> set is then x else xs ! i))"
proof (induction "is" arbitrary: xs)
  case (Cons i "is")
  then obtain ys where "rfold (\<lambda>xs i. set_at xs x i) (xs[i := x]) is = Ok ys" "length ys = length xs"
    "\<forall>j < length xs. ys ! j = (if j \<in> set is then x else xs[i := x] ! j)" using Cons.IH [of "xs[i := x]"] by auto
  then show ?case using Cons.prems by (auto simp: set_at_def nth_list_update)
qed simp

lemma prefix_block:
  fixes vs :: "bytes list"
  assumes "sorted_wrt (<) vs" "\<And>v. v \<in> set vs \<Longrightarrow> p \<le> v"
  shows "filter (prefix p) vs = takeWhile (prefix p) vs"
  using assms
proof (induction vs)
  case (Cons v vs)
  show ?case
  proof (cases "prefix p v")
    case False
    then show ?thesis using filter_prefix_Cons_not [of v vs p] Cons.prems by simp
  qed (use Cons in auto)
qed simp

lemma prefix_run_below:
  fixes p q v :: bytes
  assumes "p < q" "\<not> prefix p q" "prefix p v" shows "v < q"
  using assms between_prefix [of p v q] by (metis less_imp_le not_le_imp_less)

context value_cursor
begin

lemma collect_view:
  "view A s vs \<Longrightarrow> length vs < n \<Longrightarrow> collect_values get_value next_value n s = Ok vs"
proof (induction n arbitrary: s vs)
  case (Suc n)
  show ?case
  proof (cases vs)
    case Nil
    then show ?thesis using get_value_law [OF Suc.prems(1)] by (simp add: first_of_def)
  next
    case (Cons v ws)
    obtain x s' where "next_value s = Ok (x, s')" "view A s' ws" using next_law [OF Suc.prems(1)] Cons by auto
    moreover have "collect_values get_value next_value n s' = Ok ws"
      by (rule Suc.IH [OF calculation(2)]) (use Suc.prems(2) Cons in simp)
    ultimately show ?thesis using get_value_law [OF Suc.prems(1)] Cons by (simp add: first_of_def)
  qed
qed simp

lemma prefix_values_ok:
  "view A s vs \<Longrightarrow> length vs < n \<Longrightarrow>
     \<exists>s'. prefix_values get_value next_value n p s = Ok (map (drop (length p)) (takeWhile (prefix p) vs), s') \<and>
       view A s' (dropWhile (prefix p) vs)"
proof (induction n arbitrary: s vs)
  case (Suc n)
  note g = get_value_law [OF Suc.prems(1)]
  show ?case
  proof (cases vs)
    case Nil
    then show ?thesis using g Suc.prems(1) by (simp add: first_of_def)
  next
    case (Cons v ws)
    show ?thesis
    proof (cases "prefix p v")
      case False
      then show ?thesis using g Suc.prems(1) Cons by (simp add: first_of_def)
    next
      case True
      obtain x s' where s': "next_value s = Ok (x, s')" "view A s' ws" using next_law [OF Suc.prems(1)] Cons by auto
      have "length ws < n" using Suc.prems(2) Cons by simp
      with Suc.IH [OF s'(2)] obtain s'' where
        "prefix_values get_value next_value n p s' = Ok (map (drop (length p)) (takeWhile (prefix p) ws), s'')"
        "view A s'' (dropWhile (prefix p) ws)" by blast
      then show ?thesis using g s'(1) True Cons by (simp add: first_of_def)
    qed
  qed
qed simp

lemma extend_groups_ok:
  assumes "view A s ws" "length ws < n"
    and "sorted_wrt (\<lambda>g h. fst g < fst h \<and> \<not> prefix (fst g) (fst h)) gs"
    and "\<forall>g \<in> set gs. \<forall>v \<in> A. \<not> strict_prefix v (fst g)"
    and "distinct (concat (map snd gs))"
    and "\<forall>g \<in> set gs. \<forall>i \<in> set (snd g). i < length es \<and> es ! i = []"
  shows "\<exists>es'. extend_groups get_value next_value has_next seek n s gs es = Ok es' \<and> length es' = length es \<and>
    (\<forall>g \<in> set gs. \<forall>i \<in> set (snd g). es' ! i = map (\<lambda>v. [drop (length (fst g)) v]) (filter (prefix (fst g)) ws)) \<and>
    (\<forall>i < length es. (\<forall>g \<in> set gs. i \<notin> set (snd g)) \<longrightarrow> es' ! i = es ! i)"
  using assms
proof (induction gs arbitrary: s ws es)
  case (Cons g gs)
  let ?p = "fst g"
  show ?case
  proof (cases "ws = []")
    case True
    then have "\<not> has_next s" using has_next_law [OF Cons.prems(1)] by simp
    then show ?thesis using True Cons.prems(6) by simp
  next
    case False
    let ?f = "filter (\<lambda>v. ?p \<le> v) ws"
    have so: "sorted_wrt (<) ?f" using view_sorted [OF Cons.prems(1)] by (rule sorted_wrt_filter)
    obtain s1 where s1: "seek s ?p = Ok s1" "view A s1 ?f"
      using seek_law [OF Cons.prems(1) False, of ?p] Cons.prems(4) by auto
    have "length ?f < n" using Cons.prems(2) length_filter_le [of "\<lambda>v. ?p \<le> v" ws] by linarith
    then obtain s2 where s2: "prefix_values get_value next_value n ?p s1 = Ok (map (drop (length ?p)) (takeWhile (prefix ?p) ?f), s2)"
      "view A s2 (dropWhile (prefix ?p) ?f)" using prefix_values_ok [OF s1(2)] by blast
    have "filter (prefix ?p) ws = filter (prefix ?p) ?f" using prefix_imp_le [of ?p] by (auto intro!: filter_cong)
    also have "\<dots> = takeWhile (prefix ?p) ?f" by (rule prefix_block [OF so]) simp
    finally have tw: "takeWhile (prefix ?p) ?f = filter (prefix ?p) ws" ..
    let ?new = "map (\<lambda>v. [drop (length ?p) v]) (filter (prefix ?p) ws)"
    have "\<forall>i \<in> set (snd g). i < length es" using Cons.prems(6) by simp
    from set_all [OF this, of ?new] obtain es1 where es1:
      "rfold (\<lambda>es i. set_at es ?new i) es (snd g) = Ok es1" "length es1 = length es"
      "\<forall>i < length es. es1 ! i = (if i \<in> set (snd g) then ?new else es ! i)" by blast
    let ?ws = "dropWhile (prefix ?p) ?f"
    have keep: "filter (prefix (fst h)) ?ws = filter (prefix (fst h)) ws" if h: "h \<in> set gs" for h
    proof -
      have lt: "?p < fst h" "\<not> prefix ?p (fst h)" using Cons.prems(3) h by auto
      have no: "\<not> prefix (fst h) v" if "prefix ?p v" for v
        using prefix_run_below [OF lt that] prefix_imp_le [of "fst h" v] by auto
      have "filter (prefix (fst h)) ?f = filter (prefix (fst h)) ws"
        using lt prefix_imp_le [of "fst h"] by (auto intro!: filter_cong intro: order_less_imp_le less_le_trans)
      moreover have "filter (prefix (fst h)) ?f = filter (prefix (fst h)) (takeWhile (prefix ?p) ?f @ ?ws)" by simp
      moreover have "filter (prefix (fst h)) (takeWhile (prefix ?p) ?f) = []"
        using no by (auto simp: filter_empty_conv dest: set_takeWhileD)
      ultimately show ?thesis by (metis append_Nil filter_append)
    qed
    have dis: "i \<notin> set (snd g)" if "h \<in> set gs" "i \<in> set (snd h)" for h i
      using Cons.prems(5) that by auto
    have "\<exists>es'. extend_groups get_value next_value has_next seek n s2 gs es1 = Ok es' \<and> length es' = length es1 \<and>
      (\<forall>g \<in> set gs. \<forall>i \<in> set (snd g). es' ! i = map (\<lambda>v. [drop (length (fst g)) v]) (filter (prefix (fst g)) ?ws)) \<and>
      (\<forall>i < length es1. (\<forall>g \<in> set gs. i \<notin> set (snd g)) \<longrightarrow> es' ! i = es1 ! i)"
    proof (rule Cons.IH [OF s2(2)])
      show "length ?ws < n" using \<open>length ?f < n\<close> length_dropWhile_le [of "prefix ?p" ?f] by linarith
      show "\<forall>g \<in> set gs. \<forall>i \<in> set (snd g). i < length es1 \<and> es1 ! i = []"
        using Cons.prems(6) es1(2,3) dis by auto
    qed (use Cons.prems in auto)
    then obtain es2 where es2: "extend_groups get_value next_value has_next seek n s2 gs es1 = Ok es2" "length es2 = length es1"
      "\<forall>h \<in> set gs. \<forall>i \<in> set (snd h). es2 ! i = map (\<lambda>v. [drop (length (fst h)) v]) (filter (prefix (fst h)) ?ws)"
      "\<forall>i < length es1. (\<forall>h \<in> set gs. i \<notin> set (snd h)) \<longrightarrow> es2 ! i = es1 ! i" by blast
    have "has_next s" using has_next_law [OF Cons.prems(1)] False by simp
    then have "extend_groups get_value next_value has_next seek n s (g # gs) es = Ok es2"
      using s1(1) s2(1) tw es1(1) es2(1) by (simp add: o_def)
    moreover have "es2 ! i = ?new" if "i \<in> set (snd g)" for i
      using that es2(4) es1(2,3) dis Cons.prems(6) by auto
    moreover have "es2 ! i = es ! i" if "i < length es" "\<forall>h \<in> set (g # gs). i \<notin> set (snd h)" for i
      using that es2(4) es1(2,3) by simp
    ultimately show ?thesis using es2(2,3) es1(2) keep by auto
  qed
qed simp

lemma check_groups_ok:
  assumes "view A s ws"
    and "sorted_wrt (\<lambda>g h. fst g < fst h) gs"
    and "\<forall>g \<in> set gs. \<forall>v \<in> A. \<not> strict_prefix v (fst g)"
    and "distinct (concat (map snd gs))"
    and "\<forall>g \<in> set gs. \<forall>i \<in> set (snd g). i < length ms \<and> \<not> ms ! i"
  shows "\<exists>ms'. check_groups get_value has_next seek s gs ms = Ok ms' \<and> length ms' = length ms \<and>
    (\<forall>g \<in> set gs. \<forall>i \<in> set (snd g). ms' ! i \<longleftrightarrow> fst g \<in> set ws) \<and>
    (\<forall>i < length ms. (\<forall>g \<in> set gs. i \<notin> set (snd g)) \<longrightarrow> ms' ! i = ms ! i)"
  using assms
proof (induction gs arbitrary: s ws ms)
  case (Cons g gs)
  let ?p = "fst g"
  show ?case
  proof (cases "ws = []")
    case True
    then have "\<not> has_next s" using has_next_law [OF Cons.prems(1)] by simp
    then show ?thesis using True Cons.prems(5) by simp
  next
    case False
    let ?f = "filter (\<lambda>v. ?p \<le> v) ws"
    have so: "sorted_wrt (<) ?f" using view_sorted [OF Cons.prems(1)] by (rule sorted_wrt_filter)
    obtain s1 where s1: "seek s ?p = Ok s1" "view A s1 ?f"
      using seek_law [OF Cons.prems(1) False, of ?p] Cons.prems(3) by auto
    have found: "first_of ?f = Some ?p \<longleftrightarrow> ?p \<in> set ws"
    proof (cases ?f)
      case Nil
      then show ?thesis by (auto simp: first_of_def filter_empty_conv)
    next
      case (Cons x xs)
      have "?p \<in> set ws \<longleftrightarrow> ?p \<in> set ?f" by simp
      moreover have "x \<in> set ?f" unfolding Cons by simp
      then have "?p \<le> x" by simp
      ultimately show ?thesis using so Cons by (auto simp: first_of_def)
    qed
    have "\<forall>i \<in> set (snd g). i < length ms" using Cons.prems(5) by simp
    from set_all [OF this, of True] obtain ms1 where ms1:
      "rfold (\<lambda>m i. set_at m True i) ms (snd g) = Ok ms1" "length ms1 = length ms"
      "\<forall>i < length ms. ms1 ! i = (if i \<in> set (snd g) then True else ms ! i)" by blast
    let ?m = "if ?p \<in> set ws then ms1 else ms"
    have dis: "i \<notin> set (snd g)" if "h \<in> set gs" "i \<in> set (snd h)" for h i
      using Cons.prems(4) that by auto
    have "\<exists>ms'. check_groups get_value has_next seek s1 gs ?m = Ok ms' \<and> length ms' = length ?m \<and>
      (\<forall>g \<in> set gs. \<forall>i \<in> set (snd g). ms' ! i \<longleftrightarrow> fst g \<in> set ?f) \<and>
      (\<forall>i < length ?m. (\<forall>g \<in> set gs. i \<notin> set (snd g)) \<longrightarrow> ms' ! i = ?m ! i)"
    proof (rule Cons.IH [OF s1(2)])
      show "\<forall>g \<in> set gs. \<forall>i \<in> set (snd g). i < length ?m \<and> \<not> ?m ! i"
        using Cons.prems(5) ms1(2,3) dis by auto
    qed (use Cons.prems in auto)
    then obtain ms2 where ms2: "check_groups get_value has_next seek s1 gs ?m = Ok ms2" "length ms2 = length ?m"
      "\<forall>h \<in> set gs. \<forall>i \<in> set (snd h). ms2 ! i \<longleftrightarrow> fst h \<in> set ?f"
      "\<forall>i < length ?m. (\<forall>h \<in> set gs. i \<notin> set (snd h)) \<longrightarrow> ms2 ! i = ?m ! i" by blast
    have "has_next s" using has_next_law [OF Cons.prems(1)] False by simp
    then have "check_groups get_value has_next seek s (g # gs) ms = Ok ms2"
      using s1(1) ms1(1) ms2(1) get_value_law [OF s1(2)] found by (cases "?p \<in> set ws") simp_all
    moreover have "ms2 ! i \<longleftrightarrow> ?p \<in> set ws" if "i \<in> set (snd g)" for i
      using that ms2(4) ms1(2,3) dis Cons.prems(5) by (auto split: if_splits)
    moreover have "ms2 ! i = ms ! i" if "i < length ms" "\<forall>h \<in> set (g # gs). i \<notin> set (snd h)" for i
      using that ms2(4) ms1(2,3) by (auto split: if_splits)
    moreover have "fst h \<in> set ?f \<longleftrightarrow> fst h \<in> set ws" if "h \<in> set gs" for h
      using Cons.prems(2) that by (auto intro: less_imp_le)
    ultimately show ?thesis using ms2(2,3) ms1(2) by (auto split: if_splits)
  qed
qed simp

end

section \<open>Both iterators are cursors\<close>

text \<open>The value of a key is what follows the prefix of the scan, without transaction and operation for
  the temporal one.\<close>

definition si_cursor :: "('it \<Rightarrow> bytes list) \<Rightarrow> ('it \<Rightarrow> bytes option) \<Rightarrow> bytes set \<Rightarrow> 'it slate_iterator \<Rightarrow> bytes list \<Rightarrow> bool" where
  "si_cursor rest lk A s vs \<longleftrightarrow>
     sorted_wrt (<) (si_keys rest s) \<and>
     (case si_current_key s of None \<Rightarrow> rest (si_inner s) = [] | Some k \<Rightarrow> lk (si_inner s) = Some k) \<and>
     (\<forall>k \<in> set (si_keys rest s). \<exists>v \<in> A. k = si_prefix s @ v \<and> si_extractor s k = Ok v) \<and>
     vs = map (drop (length (si_prefix s))) (si_keys rest s)"

definition tfi_cursor ::
  "('it \<Rightarrow> bytes list) \<Rightarrow> ('it \<Rightarrow> bytes option) \<Rightarrow> nat \<Rightarrow> bytes set \<Rightarrow> 'it tfi \<Rightarrow> bytes list \<Rightarrow> bool" where
  "tfi_cursor rest lk n A s vs \<longleftrightarrow>
     tfi_ok rest lk n s \<and>
     (\<forall>k \<in> set (tfi_all rest s). \<exists>v \<in> A. logical_key k = t_prefix s @ v \<and> t_extractor s k = Ok v) \<and>
     vs = map (\<lambda>k. drop (length (t_prefix s)) (logical_key k)) (tfi_keys rest s)"

definition dyn_cursor ::
  "('db, 'it) slate_ops \<Rightarrow> ('db \<Rightarrow> bytes set) \<Rightarrow> ('it \<Rightarrow> bytes list) \<Rightarrow> ('it \<Rightarrow> bytes option) \<Rightarrow> nat \<Rightarrow> bytes set \<Rightarrow>
     'it dyn_index \<Rightarrow> bytes list \<Rightarrow> bool" where
  "dyn_cursor ops keys rest lk n A s vs \<longleftrightarrow> slate_law ops keys rest lk \<and>
     (case s of DynSlate s \<Rightarrow> si_cursor rest lk A s vs | DynTemporal s \<Rightarrow> tfi_cursor rest lk n A s vs)"

lemma si_get_keys: "si_get_value s = (case si_keys rest s of [] \<Rightarrow> Ok None | k # _ \<Rightarrow> rbind (si_extractor s k) (\<lambda>v. Ok (Some v)))"
  by (simp add: si_get_value_def si_keys_def split: option.split)

lemma si_seek_ok:
  assumes law: "slate_law ops keys rest lk" and cur: "si_cursor rest lk A s vs" "vs \<noteq> []"
  shows "\<exists>s'. si_seek ops s ext = Ok s' \<and> si_cursor rest lk A s' (filter (\<lambda>v. ext \<le> v) vs)"
proof -
  let ?p = "si_prefix s" and ?r = "rest (si_inner s)"
  obtain c where c: "si_current_key s = Some c" using cur by (cases "si_current_key s") (auto simp: si_cursor_def si_keys_def)
  then have so: "sorted_wrt (<) (c # ?r)" and lk: "lk (si_inner s) = Some c"
    and ks: "\<forall>k \<in> set (c # ?r). \<exists>v \<in> A. k = ?p @ v \<and> si_extractor s k = Ok v" and vs: "vs = map (drop (length ?p)) (c # ?r)"
    using cur(1) by (simp_all add: si_cursor_def si_keys_def)
  have le: "?p @ ext \<le> k \<longleftrightarrow> ext \<le> drop (length ?p) k" if "k \<in> set (c # ?r)" for k
    using ks that by (metis append_eq_conv_conj lex_le_append_same)
  have flt: "filter (\<lambda>v. ext \<le> v) vs = map (drop (length ?p)) (filter (\<lambda>k. ?p @ ext \<le> k) (c # ?r))"
    unfolding vs filter_map o_def using le by (auto intro!: arg_cong [of _ _ "map _"] filter_cong)
  have dw: "dropWhile (\<lambda>y. y < ?p @ ext) ks = filter (\<lambda>k. ?p @ ext \<le> k) ks" if "sorted_wrt (<) ks" for ks
    using that
  proof (induction ks)
    case (Cons k ks)
    then show ?case by (auto simp: not_less intro!: filter_True [symmetric] intro: less_imp_le order_trans)
  qed simp
  show ?thesis
  proof (cases "?p @ ext \<le> c")
    case True
    then have "filter (\<lambda>k. ?p @ ext \<le> k) (c # ?r) = c # ?r"
      using so by (auto intro!: filter_True intro: order_trans less_imp_le)
    then show ?thesis using True c flt vs cur(1) by (simp add: si_seek_def)
  next
    case False
    then have "c < ?p @ ext" by simp
    then obtain it where it: "it_seek ops (si_inner s) (?p @ ext) = Ok it" "rest it = dropWhile (\<lambda>y. y < ?p @ ext) ?r"
      using slate_seek [OF law, of "si_inner s" "?p @ ext"] lk by auto
    have r: "rest it = filter (\<lambda>k. ?p @ ext \<le> k) (c # ?r)" using it(2) dw [of ?r] so False by simp
    have sor: "sorted_wrt (<) (rest it)" unfolding r using so by (rule sorted_wrt_filter)
    show ?thesis
    proof (cases "rest it")
      case Nil
      from slate_next_Nil [OF law Nil] obtain it' where "it_next ops it = Ok (None, it')" "rest it' = []" by blast
      then show ?thesis using it(1) c False flt r Nil
        by (intro exI [of _ "s\<lparr>si_inner := it', si_current_key := None\<rparr>"])
          (simp add: si_seek_def si_cursor_def si_keys_def)
    next
      case (Cons k ks)
      from slate_next_Cons [OF law Cons] obtain it' where "it_next ops it = Ok (Some k, it')" "rest it' = ks" "lk it' = Some k" by blast
      moreover have "\<forall>x \<in> set (k # ks). x \<in> set (c # ?r)" using r Cons by (metis filter_is_subset subsetD)
      ultimately show ?thesis using it(1) c False flt r Cons sor ks
        by (intro exI [of _ "s\<lparr>si_inner := it', si_current_key := Some k\<rparr>"])
          (simp add: si_seek_def si_cursor_def si_keys_def)
    qed
  qed
qed

lemma si_next_cursor:
  assumes law: "slate_law ops keys rest lk" and cur: "si_cursor rest lk A s vs"
  shows "\<exists>v s'. si_next ops s = Ok (v, s') \<and> si_cursor rest lk A s' (tl vs)"
proof (cases "rest (si_inner s)")
  case Nil
  from slate_next_Nil [OF law Nil] obtain it' where "it_next ops (si_inner s) = Ok (None, it')" "rest it' = []" by blast
  then show ?thesis using Nil cur
    by (intro exI [of _ None] exI [of _ "s\<lparr>si_inner := it', si_current_key := None\<rparr>"])
      (auto simp: si_cursor_def si_keys_def si_next_def split: option.splits)
next
  case (Cons k ks)
  from slate_next_Cons [OF law Cons] obtain it' where "it_next ops (si_inner s) = Ok (Some k, it')" "rest it' = ks" "lk it' = Some k" by blast
  moreover obtain c where "si_current_key s = Some c" using cur Cons by (cases "si_current_key s") (auto simp: si_cursor_def)
  moreover obtain v where "si_extractor s k = Ok v" using cur Cons calculation(4) by (auto simp: si_cursor_def si_keys_def)
  ultimately show ?thesis using Cons cur
    by (intro exI [of _ "Some v"] exI [of _ "s\<lparr>si_inner := it', si_current_key := Some k\<rparr>"])
      (auto simp: si_cursor_def si_keys_def si_next_def)
qed

lemma tfi_values_sorted:
  assumes "tfi_ok rest lk n s" "\<forall>k \<in> set (tfi_all rest s). \<exists>v \<in> A. logical_key k = t_prefix s @ v \<and> Q k v"
  shows "sorted_wrt (<) (map (\<lambda>k. drop (length (t_prefix s)) (logical_key k)) (tfi_keys rest s))"
proof -
  let ?K = "tfi_all rest s"
  have so: "sorted_wrt (<) ?K" and v: "versioned (set ?K)" using assms(1) by (simp_all add: tfi_ok_def)
  have sk: "sorted_wrt (<) (tfi_keys rest s)" unfolding tfi_keys_def by (rule live_list_sorted [OF so])
  have mem: "x \<in> set (tfi_keys rest s) \<longleftrightarrow> holds_in (tfi_vis s) (set ?K) x" for x
    unfolding tfi_keys_def by (rule live_list_iff [OF so v])
  have "drop (length (t_prefix s)) (logical_key x) < drop (length (t_prefix s)) (logical_key y)"
    if xy: "x \<in> set (tfi_keys rest s)" "y \<in> set (tfi_keys rest s)" "x < y" for x y
  proof -
    have hx: "holds_in (tfi_vis s) (set ?K) x" and hy: "holds_in (tfi_vis s) (set ?K) y" using xy(1,2) mem by simp_all
    then have K: "x \<in> set ?K" "y \<in> set ?K" by (simp_all add: holds_in_def)
    have "logical_key x \<noteq> logical_key y" using hx hy xy(3) unfolding holds_in_def by (metis leD)
    then have "\<not> prefix (logical_key y) x" using versionedD [OF v K(2,1)] by auto
    then have "\<not> logical_key y \<le> x" using between_prefix [OF logical_key_prefix [of y], of x] less_imp_le [OF xy(3)] by blast
    then have "x < logical_key y" by simp
    then have "logical_key x < logical_key y"
      using prefix_imp_le [OF logical_key_prefix [of x]] by (rule le_less_trans [rotated])
    moreover obtain a b where "logical_key x = t_prefix s @ a" "logical_key y = t_prefix s @ b" using assms(2) K by blast
    ultimately show ?thesis by simp
  qed
  then show ?thesis unfolding sorted_wrt_map using sk by (rule sorted_wrt_mono_rel)
qed

lemma tfi_next_cursor:
  assumes law: "slate_law ops keys rest lk" and cur: "tfi_cursor rest lk n A s vs"
  shows "\<exists>v s'. tfi_next ops n s = Ok (v, s') \<and> tfi_cursor rest lk n A s' (tl vs)"
proof -
  have ok: "tfi_ok rest lk n s" using cur by (simp add: tfi_cursor_def)
  obtain s' where s': "advance_past_current_group ops n s = Ok s'" "tfi_ok rest lk n s'" "same_view s s'"
    "tfi_keys rest s' = tl (tfi_keys rest s)" "set (tfi_all rest s') \<subseteq> set (tfi_all rest s)"
    using advance_past_ok [OF law ok] by blast
  have all: "\<forall>k \<in> set (tfi_all rest s'). \<exists>v \<in> A. logical_key k = t_prefix s' @ v \<and> t_extractor s' k = Ok v"
    using cur s'(3,5) unfolding tfi_cursor_def same_view_def by (simp add: subset_iff)
  have "tfi_cursor rest lk n A s' (tl vs)"
    using cur s' all by (simp add: tfi_cursor_def same_view_def map_tl)
  moreover have "\<exists>v. tfi_next ops n s = Ok (v, s')"
  proof (cases "t_current_key s'")
    case (Some k)
    then have "k \<in> set (tfi_all rest s')" by (simp add: tfi_all_def)
    then obtain v where "t_extractor s' k = Ok v" using all by blast
    then show ?thesis using s'(1) Some by (simp add: tfi_next_def)
  qed (use s'(1) in \<open>simp add: tfi_next_def\<close>)
  ultimately show ?thesis by blast
qed

lemma tfi_seek_cursor:
  assumes law: "slate_law ops keys rest lk" and cur: "tfi_cursor rest lk n A s vs" "vs \<noteq> []"
    and no: "\<And>v. v \<in> A \<Longrightarrow> \<not> strict_prefix v ext"
  shows "\<exists>s'. tfi_seek ops n s ext = Ok s' \<and> tfi_cursor rest lk n A s' (filter (\<lambda>v. ext \<le> v) vs)"
proof -
  let ?p = "t_prefix s"
  have ok: "tfi_ok rest lk n s" and ks: "\<forall>k \<in> set (tfi_all rest s). \<exists>v \<in> A. logical_key k = ?p @ v \<and> t_extractor s k = Ok v"
    and vs: "vs = map (\<lambda>k. drop (length ?p) (logical_key k)) (tfi_keys rest s)" using cur(1) by (simp_all add: tfi_cursor_def)
  obtain k where k: "t_current_key s = Some k" using cur(2) vs tfi_keys_None [of s rest] by (cases "t_current_key s") auto
  have "\<forall>k \<in> set (tfi_all rest s). \<not> strict_prefix (logical_key k) (?p @ ext)"
    using ks no by (metis same_prefix_prefix strict_prefix_def append_same_eq same_append_eq)
  from tfi_seek_ok [OF law ok k this] obtain s' where s': "tfi_seek ops n s ext = Ok s'" "tfi_ok rest lk n s'" "same_view s s'"
    "tfi_keys rest s' = filter (\<lambda>k. ?p @ ext \<le> logical_key k) (tfi_keys rest s)" "set (tfi_all rest s') \<subseteq> set (tfi_all rest s)" by blast
  have "set (tfi_keys rest s) \<subseteq> set (tfi_all rest s)" unfolding tfi_keys_def by (rule live_list_subset)
  then have "?p @ ext \<le> logical_key k \<longleftrightarrow> ext \<le> drop (length ?p) (logical_key k)" if "k \<in> set (tfi_keys rest s)" for k
    using ks that by (metis append_eq_conv_conj lex_le_append_same subsetD)
  then have "filter (\<lambda>v. ext \<le> v) vs = map (\<lambda>k. drop (length ?p) (logical_key k)) (tfi_keys rest s')"
    unfolding vs filter_map o_def s'(4) by (auto intro!: arg_cong [of _ _ "map _"] filter_cong)
  then have "tfi_cursor rest lk n A s' (filter (\<lambda>v. ext \<le> v) vs)"
    using s'(2,3,5) ks unfolding tfi_cursor_def same_view_def by (auto simp: subset_iff)
  then show ?thesis using s'(1) by blast
qed

interpretation dyn: value_cursor "dyn_cursor ops keys rest lk n" dyn_get_value "dyn_next ops n" dyn_has_next "dyn_seek ops n"
  for ops :: "('db, 'it) slate_ops" and keys rest lk n
proof
  fix A s vs assume view: "dyn_cursor ops keys rest lk n A s vs"
  then have law: "slate_law ops keys rest lk" by (simp add: dyn_cursor_def)
  show "sorted_wrt (<) vs"
  proof (cases s)
    case (DynSlate si)
    then have cur: "si_cursor rest lk A si vs" using view by (simp add: dyn_cursor_def)
    have "drop (length (si_prefix si)) x < drop (length (si_prefix si)) y"
      if xy: "x \<in> set (si_keys rest si)" "y \<in> set (si_keys rest si)" "x < y" for x y
      using cur xy unfolding si_cursor_def by (metis append_eq_conv_conj lex_append_same)
    moreover have "sorted_wrt (<) (si_keys rest si)" using cur by (simp add: si_cursor_def)
    ultimately have "sorted_wrt (\<lambda>x y. drop (length (si_prefix si)) x < drop (length (si_prefix si)) y) (si_keys rest si)"
      by (rule sorted_wrt_mono_rel)
    then show ?thesis using cur by (simp add: si_cursor_def sorted_wrt_map)
  qed (use view tfi_values_sorted in \<open>auto simp: dyn_cursor_def tfi_cursor_def\<close>)
  show "dyn_get_value s = Ok (first_of vs)"
  proof (cases s)
    case (DynSlate si)
    then show ?thesis
      using view si_get_keys [of si rest]
      by (cases "si_keys rest si") (auto simp: dyn_cursor_def si_cursor_def first_of_def)
  next
    case (DynTemporal t)
    then have cur: "tfi_cursor rest lk n A t vs" using view by (simp add: dyn_cursor_def)
    show ?thesis
    proof (cases "t_current_key t")
      case (Some k)
      then have "\<exists>v \<in> A. logical_key k = t_prefix t @ v \<and> t_extractor t k = Ok v"
        using cur by (simp add: tfi_cursor_def tfi_all_def)
      then show ?thesis using cur Some tfi_keys_Some [of rest lk n t k] DynTemporal
        by (auto simp: tfi_cursor_def tfi_get_value_def first_of_def)
    qed (use cur DynTemporal tfi_keys_None [of t rest] in \<open>auto simp: tfi_cursor_def tfi_get_value_def first_of_def\<close>)
  qed
  show "dyn_has_next s \<longleftrightarrow> vs \<noteq> []"
  proof (cases s)
    case (DynTemporal t)
    then show ?thesis using view tfi_keys_None [of t rest] tfi_keys_Some [of rest lk n t]
      by (cases "t_current_key t") (auto simp: dyn_cursor_def tfi_cursor_def tfi_has_next_def)
  qed (use view in \<open>auto simp: dyn_cursor_def si_cursor_def si_has_next_def si_keys_def split: option.splits\<close>)
  show "\<exists>v s'. dyn_next ops n s = Ok (v, s') \<and> dyn_cursor ops keys rest lk n A s' (tl vs)"
  proof (cases s)
    case (DynSlate si)
    then show ?thesis using si_next_cursor [OF law, of A si vs] view by (auto simp: dyn_cursor_def)
  next
    case (DynTemporal t)
    then show ?thesis using tfi_next_cursor [OF law, of n A t vs] view by (auto simp: dyn_cursor_def)
  qed
  fix key assume seek: "vs \<noteq> []" "\<And>v. v \<in> A \<Longrightarrow> \<not> strict_prefix v key"
  show "\<exists>s'. dyn_seek ops n s key = Ok s' \<and> dyn_cursor ops keys rest lk n A s' (filter (\<lambda>v. key \<le> v) vs)"
  proof (cases s)
    case (DynSlate si)
    then show ?thesis using si_seek_ok [OF law, of A si vs key] view seek(1) by (auto simp: dyn_cursor_def)
  next
    case (DynTemporal t)
    then show ?thesis using tfi_seek_cursor [OF law, of n A t vs key] view seek by (auto simp: dyn_cursor_def)
  qed
qed

end
