(* ===== verification/Float64.thy ===== *)
theory Float64
  imports Data_Types
begin

text \<open>
  Arithmetic of 64-bit floats on their bit patterns, as IEEE 754 and the language prescribe it:
  the exact result, rounded to nearest with ties to even. A finite float is
  \<open>(-1)\<^sup>s * n * 2\<^sup>x\<close> for the natural number \<open>n\<close> and the exponent \<open>x\<close> that \<open>f64_parts\<close> gives. The
  language leaves open which NaN an operation returns; it is \<open>f64_nan\<close> here.
\<close>

definition f64_inf_mag :: nat where "f64_inf_mag = 0x7FF0000000000000"

definition f64_nan :: u64 where "f64_nan = 0x7FF8000000000000"

definition f64_is_inf :: "u64 \<Rightarrow> bool" where "f64_is_inf b \<longleftrightarrow> f_mag b = f64_inf_mag"

definition f64_is_zero :: "u64 \<Rightarrow> bool" where "f64_is_zero b \<longleftrightarrow> f_mag b = 0"

definition f64_make :: "bool \<Rightarrow> nat \<Rightarrow> u64" where
  "f64_make s mag = word_of_nat ((if s then 2 ^ 63 else 0) + mag)"

definition f64_parts :: "u64 \<Rightarrow> nat \<times> int" where
  "f64_parts b =
     (let e = f_mag b div 2 ^ 52; f = f_mag b mod 2 ^ 52
      in if e = 0 then (f, - 1074) else (2 ^ 52 + f, int e - 1075))"

text \<open>The magnitude nearest to \<open>n * 2\<^sup>x\<close>: \<open>s\<close> is the number of bits of \<open>n\<close> that do not fit.\<close>

definition f64_round :: "nat \<Rightarrow> int \<Rightarrow> nat" where
  "f64_round n x =
     (if n = 0 then 0
      else let k = int (bit_length n) - 1;
               s = max (k - 52) (- 1074 - x);
               f = (if s \<le> 0 then n * 2 ^ nat (- s) else round_shift (nat s) n);
               base = (if - 1022 \<le> k + x then nat (k + x + 1022) * 2 ^ 52 else 0)
           in min f64_inf_mag (base + f))"

definition f64_signed :: "u64 \<Rightarrow> int \<Rightarrow> int" where
  "f64_signed b x = (let (n, e) = f64_parts b; m = int n * 2 ^ nat (e - x) in if f_sign b then - m else m)"

definition f64_add :: "u64 \<Rightarrow> u64 \<Rightarrow> u64" where
  "f64_add a b =
     (if f64_is_nan a \<or> f64_is_nan b then f64_nan
      else if f64_is_inf a then (if f64_is_inf b \<and> f_sign a \<noteq> f_sign b then f64_nan else a)
      else if f64_is_inf b then b
      else let x = min (snd (f64_parts a)) (snd (f64_parts b)); t = f64_signed a x + f64_signed b x
           in if t = 0 then f64_make (f_sign a \<and> f_sign b) 0
              else f64_make (t < 0) (f64_round (nat \<bar>t\<bar>) x))"

definition f64_neg :: "u64 \<Rightarrow> u64" where "f64_neg b = f64_make (\<not> f_sign b) (f_mag b)"

definition f64_sub :: "u64 \<Rightarrow> u64 \<Rightarrow> u64" where
  "f64_sub a b = (if f64_is_nan a \<or> f64_is_nan b then f64_nan else f64_add a (f64_neg b))"

definition f64_mul :: "u64 \<Rightarrow> u64 \<Rightarrow> u64" where
  "f64_mul a b =
     (let s = (f_sign a \<noteq> f_sign b)
      in if f64_is_nan a \<or> f64_is_nan b then f64_nan
         else if f64_is_inf a \<or> f64_is_inf b
           then (if f64_is_zero a \<or> f64_is_zero b then f64_nan else f64_make s f64_inf_mag)
         else f64_make s (f64_round (fst (f64_parts a) * fst (f64_parts b)) (snd (f64_parts a) + snd (f64_parts b))))"

text \<open>The quotient is computed to more bits than fit, the last one set when something is left.\<close>

definition f64_div :: "u64 \<Rightarrow> u64 \<Rightarrow> u64" where
  "f64_div a b =
     (let s = (f_sign a \<noteq> f_sign b)
      in if f64_is_nan a \<or> f64_is_nan b then f64_nan
         else if f64_is_inf a then (if f64_is_inf b then f64_nan else f64_make s f64_inf_mag)
         else if f64_is_inf b then f64_make s 0
         else if f64_is_zero b then (if f64_is_zero a then f64_nan else f64_make s f64_inf_mag)
         else let (n, x) = f64_parts a; (m, y) = f64_parts b;
                  q = n * 2 ^ 120 div m; r = n * 2 ^ 120 mod m
              in f64_make s (f64_round (2 * q + (if r = 0 then 0 else 1)) (x - y - 121)))"

text \<open>The remainder has the sign of the dividend and is exact.\<close>

definition f64_rem :: "u64 \<Rightarrow> u64 \<Rightarrow> u64" where
  "f64_rem a b =
     (if f64_is_nan a \<or> f64_is_nan b \<or> f64_is_inf a \<or> f64_is_zero b then f64_nan
      else if f64_is_inf b then a
      else let (n, x) = f64_parts a; (m, y) = f64_parts b; z = min x y
           in f64_make (f_sign a) (f64_round (n * 2 ^ nat (x - z) mod (m * 2 ^ nat (y - z))) z))"

definition f64_abs :: "u64 \<Rightarrow> u64" where "f64_abs b = f64_make False (f_mag b)"

end
