(* ===== verification/Expressions.thy ===== *)
theory Expressions
  imports Float64 Tx
begin

text \<open>
  Numbers and expressions of queries, \<^verbatim>\<open>src/numeric.rs\<close> and \<^verbatim>\<open>src/expr.rs\<close>. Arithmetic on
  integers is checked, so that an overflow has no value; a value of another type than an operator
  expects makes the expression have no value, which filters the row.

  What comes from outside the repository or from tables of the standard library is a record of
  functions: regular expressions, the calendar, Unicode case mapping, and the printing of floats,
  UUIDs and debug output.
\<close>

section \<open>Numbers\<close>

datatype numeric_value = NLong i64 | NDouble u64

fun from_expression :: "data_type \<Rightarrow> numeric_value option" where
  "from_expression (DLong v) = Some (NLong v)"
| "from_expression (DDouble v) = Some (NDouble v)"
| "from_expression _ = None"

fun from_aggregate :: "data_type \<Rightarrow> numeric_value result" where
  "from_aggregate (DLong v) = Ok (NLong v)"
| "from_aggregate (DDouble v) = Ok (NDouble v)"
| "from_aggregate (DFloat v) = Ok (NDouble (f32_to_f64 v))"
| "from_aggregate (DBigInt v) = Ok (NDouble (int_to_f64 (sint v)))"
| "from_aggregate _ = Error (Err ''cannot convert to numeric for aggregation'')"

fun as_f64 :: "numeric_value \<Rightarrow> u64" where
  "as_f64 (NLong v) = int_to_f64 (sint v)"
| "as_f64 (NDouble v) = v"

definition checked_i64 :: "int \<Rightarrow> i64 option" where
  "checked_i64 x = (if - (2 ^ 63) \<le> x \<and> x < 2 ^ 63 then Some (word_of_int x) else None)"

definition trunc_div :: "int \<Rightarrow> int \<Rightarrow> int" where
  "trunc_div a b = sgn a * sgn b * (\<bar>a\<bar> div \<bar>b\<bar>)"

definition trunc_rem :: "int \<Rightarrow> int \<Rightarrow> int" where
  "trunc_rem a b = sgn a * (\<bar>a\<bar> mod \<bar>b\<bar>)"

fun checked_add :: "numeric_value \<Rightarrow> numeric_value \<Rightarrow> numeric_value option" where
  "checked_add (NLong l) (NLong r) = map_option NLong (checked_i64 (sint l + sint r))"
| "checked_add l r = Some (NDouble (f64_add (as_f64 l) (as_f64 r)))"

fun checked_sub :: "numeric_value \<Rightarrow> numeric_value \<Rightarrow> numeric_value option" where
  "checked_sub (NLong l) (NLong r) = map_option NLong (checked_i64 (sint l - sint r))"
| "checked_sub l r = Some (NDouble (f64_sub (as_f64 l) (as_f64 r)))"

fun checked_mul :: "numeric_value \<Rightarrow> numeric_value \<Rightarrow> numeric_value option" where
  "checked_mul (NLong l) (NLong r) = map_option NLong (checked_i64 (sint l * sint r))"
| "checked_mul l r = Some (NDouble (f64_mul (as_f64 l) (as_f64 r)))"

fun checked_div :: "numeric_value \<Rightarrow> numeric_value \<Rightarrow> numeric_value option" where
  "checked_div (NLong l) (NLong r) =
     (if r = 0 then None else map_option NLong (checked_i64 (trunc_div (sint l) (sint r))))"
| "checked_div l r =
     (let d = as_f64 r
      in if f64_partial_cmp d 0 = Some Equal then None else Some (NDouble (f64_div (as_f64 l) d)))"

text \<open>The remainder of the least integer by minus one overflows, like their quotient.\<close>

fun checked_rem :: "numeric_value \<Rightarrow> numeric_value \<Rightarrow> numeric_value option" where
  "checked_rem (NLong l) (NLong r) =
     (if r = 0 \<or> checked_i64 (trunc_div (sint l) (sint r)) = None then None
      else Some (NLong (word_of_int (trunc_rem (sint l) (sint r)))))"
| "checked_rem l r =
     (let d = as_f64 r
      in if f64_partial_cmp d 0 = Some Equal then None else Some (NDouble (f64_rem (as_f64 l) d)))"

fun into_data_type :: "numeric_value \<Rightarrow> data_type" where
  "into_data_type (NLong v) = DLong v"
| "into_data_type (NDouble v) = DDouble v"

section \<open>Expressions\<close>

datatype binary_op = OpLt | OpLtEq | OpGt | OpGtEq | OpEq | OpNotEq | OpAdd | OpSub | OpMul | OpDiv | OpMod | OpConcat

datatype unary_op = OpNot | OpAbs | OpUpper | OpLower | OpStrlen | OpStr | OpYear | OpMonth

datatype expr =
    EVariable variable
  | ELiteral data_type
  | EBinary expr binary_op expr
  | EUnary unary_op expr
  | ERegexpLike string expr
  | EIf expr expr expr

text \<open>Functions from outside the repository.\<close>

record text_ops =
  to_uppercase :: "string \<Rightarrow> string"
  to_lowercase :: "string \<Rightarrow> string"
  f64_to_string :: "u64 \<Rightarrow> string"
  f32_to_string :: "u32 \<Rightarrow> string"
  uuid_to_string :: "128 word \<Rightarrow> string"
  debug_string :: "data_type \<Rightarrow> string"
  is_match :: "string \<Rightarrow> string \<Rightarrow> bool"
  year_of :: "datetime \<Rightarrow> int"
  month_of :: "datetime \<Rightarrow> int"

fun collect_vars :: "expr \<Rightarrow> variable set \<times> variable list \<Rightarrow> variable set \<times> variable list" where
  "collect_vars (EVariable v) (seen, vars) = (if v \<in> seen then (seen, vars) else (insert v seen, vars @ [v]))"
| "collect_vars (ELiteral _) s = s"
| "collect_vars (EBinary l _ r) s = collect_vars r (collect_vars l s)"
| "collect_vars (EUnary _ e) s = collect_vars e s"
| "collect_vars (ERegexpLike _ e) s = collect_vars e s"
| "collect_vars (EIf c t e) s = collect_vars e (collect_vars t (collect_vars c s))"

definition expr_variables :: "expr \<Rightarrow> variable list" where
  "expr_variables e = snd (collect_vars e ({}, []))"

fun arithmetic_op :: "binary_op \<Rightarrow> (numeric_value \<Rightarrow> numeric_value \<Rightarrow> numeric_value option) option" where
  "arithmetic_op OpAdd = Some checked_add"
| "arithmetic_op OpSub = Some checked_sub"
| "arithmetic_op OpMul = Some checked_mul"
| "arithmetic_op OpDiv = Some checked_div"
| "arithmetic_op OpMod = Some checked_rem"
| "arithmetic_op _ = None"

definition eval_arithmetic :: "data_type \<Rightarrow> binary_op \<Rightarrow> data_type \<Rightarrow> data_type option" where
  "eval_arithmetic left op right =
     (case from_expression left of
        None \<Rightarrow> None
      | Some l \<Rightarrow> case from_expression right of
          None \<Rightarrow> None
        | Some r \<Rightarrow> case arithmetic_op op of
            None \<Rightarrow> None
          | Some f \<Rightarrow> map_option into_data_type (f l r))"

definition eval_comparison :: "data_type \<Rightarrow> ordering set \<Rightarrow> data_type \<Rightarrow> data_type option" where
  "eval_comparison left wanted right =
     (case partial_compare left right of Inl _ \<Rightarrow> None | Inr o' \<Rightarrow> Some (DBoolean (o' \<in> wanted)))"

fun eval_binary_op :: "data_type \<Rightarrow> binary_op \<Rightarrow> data_type \<Rightarrow> data_type option" where
  "eval_binary_op l OpLt r = eval_comparison l {Less} r"
| "eval_binary_op l OpLtEq r = eval_comparison l {Less, Equal} r"
| "eval_binary_op l OpGt r = eval_comparison l {Greater} r"
| "eval_binary_op l OpGtEq r = eval_comparison l {Greater, Equal} r"
| "eval_binary_op l OpEq r = Some (DBoolean (dt_eq l r))"
| "eval_binary_op l OpNotEq r = Some (DBoolean (\<not> dt_eq l r))"
| "eval_binary_op l OpConcat r =
     (case (l, r) of (DString a, DString b) \<Rightarrow> Some (DString (a @ b)) | _ \<Rightarrow> None)"
| "eval_binary_op l op r = eval_arithmetic l op r"

definition show_int :: "int \<Rightarrow> string" where
  "show_int x = (if x < 0 then ''-'' @ show_nat (nat (- x)) else show_nat (nat x))"

definition value_to_string :: "text_ops \<Rightarrow> data_type \<Rightarrow> string" where
  "value_to_string T v =
     (case v of
        DLong n \<Rightarrow> show_int (sint n)
      | DBigInt n \<Rightarrow> show_int (sint n)
      | DDouble n \<Rightarrow> f64_to_string T n
      | DFloat n \<Rightarrow> f32_to_string T n
      | DBoolean b \<Rightarrow> (if b then ''true'' else ''false'')
      | DString s \<Rightarrow> s
      | DUuid u \<Rightarrow> uuid_to_string T u
      | other \<Rightarrow> debug_string T other)"

definition eval_unary_op :: "text_ops \<Rightarrow> unary_op \<Rightarrow> data_type \<Rightarrow> data_type option" where
  "eval_unary_op T op v =
     (case op of
        OpNot \<Rightarrow> (case v of DBoolean b \<Rightarrow> Some (DBoolean (\<not> b)) | _ \<Rightarrow> None)
      | OpAbs \<Rightarrow> (case v of
            DLong n \<Rightarrow> map_option DLong (checked_i64 \<bar>sint n\<bar>)
          | DDouble n \<Rightarrow> Some (DDouble (f64_abs n))
          | _ \<Rightarrow> None)
      | OpUpper \<Rightarrow> (case v of DString s \<Rightarrow> Some (DString (to_uppercase T s)) | _ \<Rightarrow> None)
      | OpLower \<Rightarrow> (case v of DString s \<Rightarrow> Some (DString (to_lowercase T s)) | _ \<Rightarrow> None)
      | OpStrlen \<Rightarrow> (case v of DString s \<Rightarrow> Some (DLong (word_of_nat (length s))) | _ \<Rightarrow> None)
      | OpStr \<Rightarrow> Some (DString (value_to_string T v))
      | OpYear \<Rightarrow> (case v of DInstant t \<Rightarrow> Some (DLong (word_of_int (year_of T t))) | _ \<Rightarrow> None)
      | OpMonth \<Rightarrow> (case v of DInstant t \<Rightarrow> Some (DLong (word_of_int (month_of T t))) | _ \<Rightarrow> None))"

fun evaluate :: "text_ops \<Rightarrow> (variable \<rightharpoonup> data_type) \<Rightarrow> expr \<Rightarrow> data_type option" where
  "evaluate T ctx (EVariable v) = ctx v"
| "evaluate T ctx (ELiteral d) = Some d"
| "evaluate T ctx (EBinary l op r) =
     (case evaluate T ctx l of
        None \<Rightarrow> None
      | Some x \<Rightarrow> case evaluate T ctx r of None \<Rightarrow> None | Some y \<Rightarrow> eval_binary_op x op y)"
| "evaluate T ctx (EUnary op e) =
     (case evaluate T ctx e of None \<Rightarrow> None | Some x \<Rightarrow> eval_unary_op T op x)"
| "evaluate T ctx (ERegexpLike p e) =
     (case evaluate T ctx e of Some (DString s) \<Rightarrow> Some (DBoolean (is_match T p s)) | _ \<Rightarrow> None)"
| "evaluate T ctx (EIf c t e) =
     (if evaluate T ctx c = Some (DBoolean True) then evaluate T ctx t else evaluate T ctx e)"

definition evaluate_as_bool :: "text_ops \<Rightarrow> (variable \<rightharpoonup> data_type) \<Rightarrow> expr \<Rightarrow> bool" where
  "evaluate_as_bool T ctx e \<longleftrightarrow> evaluate T ctx e = Some (DBoolean True)"

section \<open>Integer arithmetic is exact\<close>

lemma sint_of_int_i64: "- (2 ^ 63) \<le> x \<Longrightarrow> x < 2 ^ 63 \<Longrightarrow> sint (word_of_int x :: i64) = x"
  by (simp add: sint_sbintrunc' signed_take_bit_int_eq_self)

lemma checked_i64_Some: "checked_i64 x = Some w \<longleftrightarrow> sint w = x"
proof
  assume "checked_i64 x = Some w"
  then have "w = word_of_int x" "- (2 ^ 63) \<le> x" "x < 2 ^ 63" by (auto simp: checked_i64_def split: if_splits)
  then show "sint w = x" by (simp add: sint_of_int_i64)
next
  assume "sint w = x"
  moreover have "- (2 ^ 63) \<le> sint w" "sint w < 2 ^ 63"
    using sint_bounds_i64 [of w] by auto
  ultimately show "checked_i64 x = Some w" by (auto simp: checked_i64_def)
qed

lemma checked_i64_None: "checked_i64 x = None \<longleftrightarrow> x < - (2 ^ 63) \<or> 2 ^ 63 \<le> x"
  by (auto simp: checked_i64_def)

text \<open>What the operators mean on the integers.\<close>

fun int_op :: "binary_op \<Rightarrow> int \<Rightarrow> int \<Rightarrow> int option" where
  "int_op OpAdd a b = Some (a + b)"
| "int_op OpSub a b = Some (a - b)"
| "int_op OpMul a b = Some (a * b)"
| "int_op OpDiv a b = (if b = 0 then None else Some (trunc_div a b))"
| "int_op OpMod a b = (if b = 0 then None else Some (a - b * trunc_div a b))"
| "int_op _ a b = None"

lemma trunc_rem_eq: "trunc_rem a b = a - b * trunc_div a b"
proof -
  have "\<bar>a\<bar> = \<bar>b\<bar> * (\<bar>a\<bar> div \<bar>b\<bar>) + \<bar>a\<bar> mod \<bar>b\<bar>" by simp
  then have "sgn a * \<bar>a\<bar> = sgn a * (\<bar>b\<bar> * (\<bar>a\<bar> div \<bar>b\<bar>)) + sgn a * (\<bar>a\<bar> mod \<bar>b\<bar>)"
    by (metis distrib_left)
  moreover have "sgn a * (\<bar>b\<bar> * (\<bar>a\<bar> div \<bar>b\<bar>)) = b * trunc_div a b"
    by (simp add: trunc_div_def abs_sgn mult_ac)
  moreover have "sgn a * \<bar>a\<bar> = a" by (simp add: sgn_mult_abs)
  ultimately show ?thesis by (simp add: trunc_rem_def)
qed

lemma trunc_rem_bound: "b \<noteq> 0 \<Longrightarrow> \<bar>trunc_rem a b\<bar> < \<bar>b\<bar>"
  by (simp add: trunc_rem_def abs_mult abs_sgn_eq)

lemma sint_eq_0: "sint (r :: i64) = 0 \<longleftrightarrow> r = 0"
  by (metis signed_0 signed_word_eqI)

text \<open>The remainder overflows only where the quotient does, by minus one.\<close>

lemma checked_rem_exact:
  fixes l r :: i64
  assumes "r \<noteq> 0" and "checked_i64 (trunc_div (sint l) (sint r)) \<noteq> None"
  shows "sint (word_of_int (trunc_rem (sint l) (sint r)) :: i64) = sint l - sint r * trunc_div (sint l) (sint r)"
proof -
  have "\<bar>trunc_rem (sint l) (sint r)\<bar> < \<bar>sint r\<bar>" using assms(1) sint_eq_0 [of r] by (intro trunc_rem_bound) simp
  moreover have "\<bar>sint r\<bar> \<le> 2 ^ 63" using sint_bounds_i64 [of r] by auto
  ultimately have "- (2 ^ 63) \<le> trunc_rem (sint l) (sint r)" "trunc_rem (sint l) (sint r) < 2 ^ 63" by auto
  then have "sint (word_of_int (trunc_rem (sint l) (sint r)) :: i64) = trunc_rem (sint l) (sint r)"
    by (rule sint_of_int_i64)
  then show ?thesis by (simp add: trunc_rem_eq)
qed


section \<open>Types of expressions\<close>

text \<open>The static type of an expression is the tag of its values.\<close>

inductive typed :: "(variable \<rightharpoonup> u8) \<Rightarrow> expr \<Rightarrow> u8 \<Rightarrow> bool" for \<Gamma> where
  T_Variable: "\<Gamma> v = Some t \<Longrightarrow> typed \<Gamma> (EVariable v) t"
| T_Literal: "typed \<Gamma> (ELiteral d) (data_type_tag d)"
| T_Compare: "typed \<Gamma> l t \<Longrightarrow> typed \<Gamma> r u \<Longrightarrow> op \<in> {OpLt, OpLtEq, OpGt, OpGtEq, OpEq, OpNotEq} \<Longrightarrow>
    typed \<Gamma> (EBinary l op r) TAG_BOOLEAN"
| T_Long: "typed \<Gamma> l TAG_LONG \<Longrightarrow> typed \<Gamma> r TAG_LONG \<Longrightarrow> op \<in> {OpAdd, OpSub, OpMul, OpDiv, OpMod} \<Longrightarrow>
    typed \<Gamma> (EBinary l op r) TAG_LONG"
| T_Double: "typed \<Gamma> l t \<Longrightarrow> typed \<Gamma> r u \<Longrightarrow> {t, u} \<subseteq> {TAG_LONG, TAG_DOUBLE} \<Longrightarrow> TAG_DOUBLE \<in> {t, u} \<Longrightarrow>
    op \<in> {OpAdd, OpSub, OpMul, OpDiv, OpMod} \<Longrightarrow> typed \<Gamma> (EBinary l op r) TAG_DOUBLE"
| T_Concat: "typed \<Gamma> l TAG_STRING \<Longrightarrow> typed \<Gamma> r TAG_STRING \<Longrightarrow> typed \<Gamma> (EBinary l OpConcat r) TAG_STRING"
| T_Not: "typed \<Gamma> e TAG_BOOLEAN \<Longrightarrow> typed \<Gamma> (EUnary OpNot e) TAG_BOOLEAN"
| T_Abs: "typed \<Gamma> e t \<Longrightarrow> t \<in> {TAG_LONG, TAG_DOUBLE} \<Longrightarrow> typed \<Gamma> (EUnary OpAbs e) t"
| T_Case: "typed \<Gamma> e TAG_STRING \<Longrightarrow> op \<in> {OpUpper, OpLower} \<Longrightarrow> typed \<Gamma> (EUnary op e) TAG_STRING"
| T_Strlen: "typed \<Gamma> e TAG_STRING \<Longrightarrow> typed \<Gamma> (EUnary OpStrlen e) TAG_LONG"
| T_Str: "typed \<Gamma> e t \<Longrightarrow> typed \<Gamma> (EUnary OpStr e) TAG_STRING"
| T_Date: "typed \<Gamma> e TAG_INSTANT \<Longrightarrow> op \<in> {OpYear, OpMonth} \<Longrightarrow> typed \<Gamma> (EUnary op e) TAG_LONG"
| T_Regexp: "typed \<Gamma> e TAG_STRING \<Longrightarrow> typed \<Gamma> (ERegexpLike p e) TAG_BOOLEAN"
| T_If: "typed \<Gamma> c u \<Longrightarrow> typed \<Gamma> t a \<Longrightarrow> typed \<Gamma> e a \<Longrightarrow> typed \<Gamma> (EIf c t e) a"

definition well_typed_context :: "(variable \<rightharpoonup> u8) \<Rightarrow> (variable \<rightharpoonup> data_type) \<Rightarrow> bool" where
  "well_typed_context \<Gamma> ctx \<longleftrightarrow> (\<forall>v x. ctx v = Some x \<longrightarrow> \<Gamma> v = Some (data_type_tag x))"

lemma tag_inverse:
  "data_type_tag x = TAG_LONG \<longleftrightarrow> (\<exists>a. x = DLong a)" "data_type_tag x = TAG_DOUBLE \<longleftrightarrow> (\<exists>a. x = DDouble a)"
  "data_type_tag x = TAG_STRING \<longleftrightarrow> (\<exists>a. x = DString a)" "data_type_tag x = TAG_BOOLEAN \<longleftrightarrow> (\<exists>a. x = DBoolean a)"
  "data_type_tag x = TAG_INSTANT \<longleftrightarrow> (\<exists>a. x = DInstant a)"
  by (cases x; simp add: tag_defs)+

lemma comparison_tag:
  "eval_binary_op x op y = Some z \<Longrightarrow> op \<in> {OpLt, OpLtEq, OpGt, OpGtEq, OpEq, OpNotEq} \<Longrightarrow> data_type_tag z = TAG_BOOLEAN"
  by (auto simp: eval_comparison_def split: sum.splits)

lemma long_tag:
  assumes "eval_binary_op (DLong a) op (DLong b) = Some z" "op \<in> {OpAdd, OpSub, OpMul, OpDiv, OpMod}"
  shows "data_type_tag z = TAG_LONG"
  using assms by (auto simp: eval_arithmetic_def split: if_splits)

lemma double_tag:
  assumes "eval_binary_op x op y = Some z" "op \<in> {OpAdd, OpSub, OpMul, OpDiv, OpMod}"
    "x = DLong a \<and> y = DDouble d \<or> x = DDouble d \<and> y = DLong a \<or> x = DDouble d \<and> y = DDouble e"
  shows "data_type_tag z = TAG_DOUBLE"
  using assms by (auto simp: eval_arithmetic_def Let_def split: if_splits)

lemma typed_value:
  assumes "typed \<Gamma> e t" and "well_typed_context \<Gamma> ctx" and "evaluate T ctx e = Some x"
  shows "data_type_tag x = t"
  using assms(1,3)
proof (induction arbitrary: x rule: typed.induct)
  case (T_Variable v t)
  then show ?case using assms(2) by (simp add: well_typed_context_def)
next
  case (T_Compare l t r u op)
  then obtain y z where "eval_binary_op y op z = Some x" by (auto split: option.splits)
  then show ?case by (rule comparison_tag [OF _ T_Compare.hyps(3)])
next
  case (T_Long l r op)
  then obtain y z where yz: "evaluate T ctx l = Some y" "evaluate T ctx r = Some z" "eval_binary_op y op z = Some x"
    by (auto split: option.splits)
  then have "data_type_tag y = TAG_LONG" "data_type_tag z = TAG_LONG" using T_Long.IH by blast+
  then show ?case using long_tag [OF _ T_Long.hyps(3)] yz(3) by (auto simp: tag_inverse)
next
  case (T_Double l t r u op)
  then obtain y z where yz: "evaluate T ctx l = Some y" "evaluate T ctx r = Some z" "eval_binary_op y op z = Some x"
    by (auto split: option.splits)
  then have "data_type_tag y = t" "data_type_tag z = u" using T_Double.IH by blast+
  then obtain a d e where "y = DLong a \<and> z = DDouble d \<or> y = DDouble d \<and> z = DLong a \<or> y = DDouble d \<and> z = DDouble e"
    using T_Double.hyps(3,4) by (auto simp: tag_inverse) (simp_all add: tag_defs)
  then show ?case using double_tag [OF yz(3) T_Double.hyps(5)] by blast
qed (auto simp: eval_unary_op_def tag_inverse split: option.splits data_type.splits if_splits)

text \<open>C40: Types of query expressions are sound: if an expression has a type and the variables hold values of
  their types, the value of the expression, when it has one, is of that type: a comparison, a
  negation or a match is a boolean, integer arithmetic stays integer, arithmetic with a float is
  a float, and the branches of a conditional decide its type.\<close>

theorem expression_types_sound:
  assumes "typed \<Gamma> e t" and "well_typed_context \<Gamma> ctx" and "evaluate T ctx e = Some x"
  shows "data_type_tag x = t \<and>
    (t \<noteq> TAG_BOOLEAN \<longrightarrow> \<not> evaluate_as_bool T ctx e) \<and>
    (t = TAG_BOOLEAN \<longrightarrow> evaluate_as_bool T ctx e \<noteq> evaluate_as_bool T ctx (EUnary OpNot e))"
proof -
  have tag: "data_type_tag x = t" by (rule typed_value [OF assms])
  then show ?thesis
    using assms(3) by (cases x) (auto simp: evaluate_as_bool_def eval_unary_op_def tag_defs)
qed

definition plain_text :: text_ops where
  "plain_text = \<lparr>to_uppercase = (\<lambda>s. s), to_lowercase = (\<lambda>s. s), f64_to_string = (\<lambda>_. []), f32_to_string = (\<lambda>_. []),
     uuid_to_string = (\<lambda>_. []), debug_string = (\<lambda>_. []), is_match = (\<lambda>p s. p = s), year_of = (\<lambda>_. 1970), month_of = (\<lambda>_. 1)\<rparr>"

theorem expression_types_sound_witness:
  "data_type_tag (DBoolean True) = TAG_BOOLEAN \<and>
   (evaluate_as_bool plain_text [''?age'' \<mapsto> DLong 30] (EBinary (EVariable ''?age'') OpLt (EBinary (ELiteral (DLong 20)) OpMul (ELiteral (DLong 2)))) \<noteq>
    evaluate_as_bool plain_text [''?age'' \<mapsto> DLong 30]
      (EUnary OpNot (EBinary (EVariable ''?age'') OpLt (EBinary (ELiteral (DLong 20)) OpMul (ELiteral (DLong 2))))))"
proof -
  let ?e = "EBinary (EVariable ''?age'') OpLt (EBinary (ELiteral (DLong 20)) OpMul (ELiteral (DLong 2)))"
  let ?ctx = "[''?age'' \<mapsto> DLong 30]" and ?\<Gamma> = "[''?age'' \<mapsto> TAG_LONG]"
  have lit: "typed ?\<Gamma> (ELiteral (DLong n)) TAG_LONG" for n using T_Literal [of ?\<Gamma> "DLong n"] by simp
  have "typed ?\<Gamma> ?e TAG_BOOLEAN"
    by (rule T_Compare [OF T_Variable T_Long [OF lit lit]]) simp_all
  moreover have "well_typed_context ?\<Gamma> ?ctx" by (simp add: well_typed_context_def)
  moreover have "evaluate plain_text ?ctx ?e = Some (DBoolean True)"
    by (simp add: eval_arithmetic_def checked_i64_def eval_comparison_def partial_compare_def cmp_int_def)
  ultimately show ?thesis using expression_types_sound [of ?\<Gamma> ?e TAG_BOOLEAN ?ctx plain_text "DBoolean True"] by simp
qed

end
