(* ===== verification/Expr_Patterns.thy ===== *)
theory Expr_Patterns
  imports Join_Engine Expressions
begin

text \<open>
  Patterns that evaluate expressions, \<^verbatim>\<open>src/query/patterns/evaluation.rs\<close>,
  \<^verbatim>\<open>src/query/patterns/predicate.rs\<close> and \<^verbatim>\<open>src/query/patterns/function.rs\<close>: a predicate filters
  rows, a function adds the value of an expression under a new variable or checks it.
\<close>

section \<open>Evaluation over rows\<close>

definition binding_positions :: "binding_bag \<Rightarrow> variable list \<Rightarrow> (variable \<times> nat) list result" where
  "binding_positions input vs = rmapM (\<lambda>v. rbind (column_index input v) (\<lambda>i. Ok (v, i))) vs"

definition update_bindings ::
  "timestamp_opt \<Rightarrow> binding_row \<Rightarrow> (variable \<times> nat) list \<Rightarrow> (variable \<rightharpoonup> data_type) \<Rightarrow> (variable \<rightharpoonup> data_type) result" where
  "update_bindings ts row positions bindings =
     rfold (\<lambda>bindings (v, column).
       if column < length row
       then rbind (decode ts (row ! column)) (\<lambda>x. Ok (bindings(v \<mapsto> x)))
       else Error (Panic ''index out of bounds'')) bindings positions"

section \<open>Predicates\<close>

record predicate_pattern =
  pp_id :: pattern_id
  pp_variables :: "variable list"
  pp_expression :: expr

definition predicate_new :: "pattern_id \<Rightarrow> expr \<Rightarrow> predicate_pattern" where
  "predicate_new i e = \<lparr>pp_id = i, pp_variables = expr_variables e, pp_expression = e\<rparr>"

definition predicate_matches ::
  "text_ops \<Rightarrow> timestamp_opt \<Rightarrow> predicate_pattern \<Rightarrow> binding_row \<Rightarrow> (variable \<times> nat) list \<Rightarrow>
     (variable \<rightharpoonup> data_type) \<Rightarrow> (bool \<times> (variable \<rightharpoonup> data_type)) result" where
  "predicate_matches T ts pp row positions bindings =
     rbind (update_bindings ts row positions bindings) (\<lambda>bindings.
     Ok (evaluate_as_bool T bindings (pp_expression pp), bindings))"

definition predicate_step ::
  "text_ops \<Rightarrow> timestamp_opt \<Rightarrow> predicate_pattern \<Rightarrow> (variable \<times> nat) list \<Rightarrow>
     nat list \<times> (variable \<rightharpoonup> data_type) \<Rightarrow> nat \<times> binding_row \<Rightarrow> (nat list \<times> (variable \<rightharpoonup> data_type)) result" where
  "predicate_step T ts pp positions = (\<lambda>(matches, bindings) (i, row).
     rbind (predicate_matches T ts pp row positions bindings) (\<lambda>(m, bindings).
     Ok (if m then matches @ [i] else matches, bindings)))"

definition predicate_join ::
  "text_ops \<Rightarrow> timestamp_opt \<Rightarrow> predicate_pattern \<Rightarrow> binding_bag \<Rightarrow> variable list \<Rightarrow> variable list \<Rightarrow> binding_bag result" where
  "predicate_join T ts pp input added target =
     rbind (ensure (added = []) ''Predicate pattern cannot propose variables'') (\<lambda>_.
     rbind (ensure (target = bb_variables input) ''Predicate pattern validation must preserve the input layout'') (\<lambda>_.
     rbind (ensure_all (\<lambda>v. v \<in> set (bb_variables input)) ''Predicate pattern requires bound variable'' (pp_variables pp)) (\<lambda>_.
     rbind (binding_positions input (pp_variables pp)) (\<lambda>positions.
     rbind (rfold (predicate_step T ts pp positions) ([], Map.empty) (enumerate 0 (bb_rows input))) (\<lambda>(matches, _).
     select_rows input matches)))))"

definition predicate_exec :: "text_ops \<Rightarrow> timestamp_opt \<Rightarrow> predicate_pattern \<Rightarrow> exec_pattern" where
  "predicate_exec T ts pp =
     \<lparr>ep_id = pp_id pp, ep_variables = pp_variables pp, ep_count = default_count, ep_join = predicate_join T ts pp\<rparr>"

section \<open>Functions\<close>

record function_pattern =
  fp_id :: pattern_id
  fp_variables :: "variable list"
  fp_input_variables :: "variable list"
  fp_output :: variable
  fp_expression :: expr

definition function_new :: "pattern_id \<Rightarrow> expr \<Rightarrow> variable \<Rightarrow> function_pattern result" where
  "function_new i e output =
     rbind (ensure (output \<notin> set (expr_variables e)) ''Function pattern output is also an input'') (\<lambda>_.
     Ok \<lparr>fp_id = i, fp_variables = expr_variables e @ [output], fp_input_variables = expr_variables e,
         fp_output = output, fp_expression = e\<rparr>)"

definition ensure_inputs_bound :: "function_pattern \<Rightarrow> binding_bag \<Rightarrow> unit result" where
  "ensure_inputs_bound fp input =
     ensure_all (\<lambda>v. v \<in> set (bb_variables input)) ''Function pattern requires bound input'' (fp_input_variables fp)"

definition ensure_can_propose :: "function_pattern \<Rightarrow> binding_bag \<Rightarrow> variable list \<Rightarrow> unit result" where
  "ensure_can_propose fp input added =
     rbind (ensure_inputs_bound fp input) (\<lambda>_.
     rbind (ensure (added = [fp_output fp]) ''Function pattern can only propose output'') (\<lambda>_.
     ensure (fp_output fp \<notin> set (bb_variables input)) ''Function pattern cannot add already-bound output''))"

definition function_compute ::
  "text_ops \<Rightarrow> timestamp_opt \<Rightarrow> function_pattern \<Rightarrow> binding_row \<Rightarrow> (variable \<times> nat) list \<Rightarrow>
     (variable \<rightharpoonup> data_type) \<Rightarrow> (data_type option \<times> (variable \<rightharpoonup> data_type)) result" where
  "function_compute T ts fp row positions bindings =
     rbind (update_bindings ts row positions bindings) (\<lambda>bindings.
     Ok (evaluate T bindings (fp_expression fp), bindings))"

definition function_count ::
  "function_pattern \<Rightarrow> binding_bag \<Rightarrow> variable list \<Rightarrow> proposal list \<Rightarrow> proposal list result" where
  "function_count fp input added proposals =
     rbind (ensure (length proposals = length (bb_rows input)) ''Function pattern received the wrong number of proposals'') (\<lambda>_.
     rbind (ensure_can_propose fp input added) (\<lambda>_.
     Ok (map (\<lambda>p. proposal_consider p (fp_id fp) 1) proposals)))"

definition function_check_step ::
  "text_ops \<Rightarrow> timestamp_opt \<Rightarrow> function_pattern \<Rightarrow> nat \<Rightarrow> (variable \<times> nat) list \<Rightarrow>
     nat list \<times> (variable \<rightharpoonup> data_type) \<Rightarrow> nat \<times> binding_row \<Rightarrow> (nat list \<times> (variable \<rightharpoonup> data_type)) result" where
  "function_check_step T ts fp column positions = (\<lambda>(matches, bindings) (i, row).
     rbind (if column < length row then decode ts (row ! column) else Error (Panic ''index out of bounds'')) (\<lambda>output.
     rbind (function_compute T ts fp row positions bindings) (\<lambda>(computed, bindings).
     Ok (if (case computed of None \<Rightarrow> False | Some x \<Rightarrow> dt_eq x output) then matches @ [i] else matches, bindings))))"

definition function_extend_step ::
  "text_ops \<Rightarrow> timestamp_opt \<Rightarrow> function_pattern \<Rightarrow> (variable \<times> nat) list \<Rightarrow>
     binding_row list list \<times> (variable \<rightharpoonup> data_type) \<Rightarrow> binding_row \<Rightarrow> (binding_row list list \<times> (variable \<rightharpoonup> data_type)) result" where
  "function_extend_step T ts fp positions = (\<lambda>(extensions, bindings) row.
     rbind (function_compute T ts fp row positions bindings) (\<lambda>(computed, bindings).
     Ok (extensions @ [case computed of None \<Rightarrow> [] | Some x \<Rightarrow> [[encode x]]], bindings)))"

definition function_join ::
  "text_ops \<Rightarrow> timestamp_opt \<Rightarrow> function_pattern \<Rightarrow> binding_bag \<Rightarrow> variable list \<Rightarrow> variable list \<Rightarrow> binding_bag result" where
  "function_join T ts fp input added target =
     rbind (if added = [] then ensure_inputs_bound fp input else ensure_can_propose fp input added) (\<lambda>_.
     rbind (binding_positions input (fp_input_variables fp)) (\<lambda>positions.
     if added = [] then
       rbind (ensure (target = bb_variables input) ''Function pattern validation must preserve the input layout'') (\<lambda>_.
       rbind (ensure (fp_output fp \<in> set (bb_variables input)) ''Function pattern validation requires bound output'') (\<lambda>_.
       rbind (column_index input (fp_output fp)) (\<lambda>column.
       rbind (rfold (function_check_step T ts fp column positions) ([], Map.empty) (enumerate 0 (bb_rows input))) (\<lambda>(matches, _).
       select_rows input matches))))
     else
       rbind (rfold (function_extend_step T ts fp positions) ([], Map.empty) (bb_rows input)) (\<lambda>(extensions, _).
       rbind (extend_rows input added extensions) (\<lambda>extended.
       reorder extended target))))"

definition function_exec :: "text_ops \<Rightarrow> timestamp_opt \<Rightarrow> function_pattern \<Rightarrow> exec_pattern" where
  "function_exec T ts fp =
     \<lparr>ep_id = fp_id fp, ep_variables = fp_variables fp, ep_count = function_count fp, ep_join = function_join T ts fp\<rparr>"

section \<open>Values of rows\<close>

definition value_good :: "(int \<Rightarrow> bool) \<Rightarrow> bytes \<Rightarrow> bool" where
  "value_good okt b \<longleftrightarrow> (\<exists>v. dt_wf okt v \<and> b = encode v)"

definition decoded :: "timestamp_opt \<Rightarrow> (variable \<rightharpoonup> bytes) \<Rightarrow> variable \<rightharpoonup> data_type" where
  "decoded ts k v = (case k v of None \<Rightarrow> None | Some b \<Rightarrow> (case decode ts b of Inl _ \<Rightarrow> None | Inr x \<Rightarrow> Some x))"

lemma decode_encode_ok: "timestamp_law ts okt \<Longrightarrow> dt_wf okt v \<Longrightarrow> decode ts (encode v) = Ok v"
  using decode_encode_datatype [of ts okt v "[]"] by (simp add: decode_def encode_def)

lemma encode_inj: "dt_wf okt v \<Longrightarrow> dt_wf okt w \<Longrightarrow> encode v = encode w \<longleftrightarrow> v = w"
proof -
  assume "dt_wf okt v" "dt_wf okt w"
  then have "storable v" "storable w" using dt_wf_storable(1) by blast+
  then have "decode any_timestamp (encode v) = Ok v" "decode any_timestamp (encode w) = Ok w"
    using decode_encode_ok [OF any_timestamp_law] by simp_all
  then show ?thesis by (metis Inr_inject)
qed

fun expr_vars :: "expr \<Rightarrow> variable set" where
  "expr_vars (EVariable v) = {v}"
| "expr_vars (ELiteral _) = {}"
| "expr_vars (EBinary l _ r) = expr_vars l \<union> expr_vars r"
| "expr_vars (EUnary _ e) = expr_vars e"
| "expr_vars (ERegexpLike _ e) = expr_vars e"
| "expr_vars (EIf c t e) = expr_vars c \<union> expr_vars t \<union> expr_vars e"

lemma collect_vars_ok:
  "distinct vs \<Longrightarrow> \<exists>ws. collect_vars e (set vs, vs) = (set ws, ws) \<and> distinct ws \<and> set ws = set vs \<union> expr_vars e"
proof (induction e arbitrary: vs)
  case (EVariable v)
  then show ?case by (cases "v \<in> set vs") (auto intro!: exI [of _ "vs @ [v]"])
next
  case (EBinary l op r)
  then obtain ws where "collect_vars l (set vs, vs) = (set ws, ws)" "distinct ws" "set ws = set vs \<union> expr_vars l" by blast
  with EBinary.IH(2) [of ws] show ?case by auto
next
  case (EIf c t e)
  then obtain ws where ws: "collect_vars c (set vs, vs) = (set ws, ws)" "distinct ws" "set ws = set vs \<union> expr_vars c" by blast
  then obtain us where "collect_vars t (set ws, ws) = (set us, us)" "distinct us" "set us = set ws \<union> expr_vars t"
    using EIf.IH(2) by blast
  with EIf.IH(3) [of us] ws show ?case by auto
qed auto

lemma expr_variables_ok: "distinct (expr_variables e)" "set (expr_variables e) = expr_vars e"
proof -
  obtain ws where "collect_vars e ({}, []) = (set ws, ws)" "distinct ws" "set ws = expr_vars e"
    using collect_vars_ok [of "[]" e] by auto
  then show "distinct (expr_variables e)" "set (expr_variables e) = expr_vars e" by (simp_all add: expr_variables_def)
qed

lemma evaluate_local: "(\<And>v. v \<in> expr_vars e \<Longrightarrow> ctx v = ctx' v) \<Longrightarrow> evaluate T ctx e = evaluate T ctx' e"
proof (induction e)
  case (EBinary l op r)
  then have "evaluate T ctx l = evaluate T ctx' l" "evaluate T ctx r = evaluate T ctx' r" by simp_all
  then show ?case unfolding evaluate.simps by (rule arg_cong2)
next
  case (EIf c t e)
  then have "evaluate T ctx c = evaluate T ctx' c" "evaluate T ctx t = evaluate T ctx' t" "evaluate T ctx e = evaluate T ctx' e"
    by simp_all
  then show ?case by simp
qed simp_all

text \<open>The bindings of a row are its decoded values.\<close>

lemma binding_positions_ok:
  assumes "set us \<subseteq> set vs"
  shows "binding_positions (mk_bag vs rs) us = Ok (map (\<lambda>v. (v, the (map_of (zip vs [0..<length vs]) v))) us)"
  unfolding binding_positions_def
proof (rule rmapM_total)
  fix v assume "v \<in> set us"
  then have "map_of (zip vs [0..<length vs]) v \<noteq> None" using assms zip_pos [of vs v] by (simp add: subset_iff)
  then show "rbind (column_index (mk_bag vs rs) v) (\<lambda>i. Ok (v, i)) = Ok (v, the (map_of (zip vs [0..<length vs]) v))"
    by (auto simp: column_index_def)
qed

lemma row_position:
  assumes "layout_ok vs rs" "r \<in> set rs" "v \<in> set vs"
  obtains i where "map_of (zip vs [0..<length vs]) v = Some i" "i < length r" "row_map vs r v = Some (r ! i)"
proof -
  obtain i where i: "i < length vs" "v = vs ! i" using assms(3) by (auto simp: in_set_conv_nth)
  have d: "distinct vs" "length r = length vs" using assms(1,2) by (auto simp: layout_ok_def)
  have "map_of (zip vs [0..<length vs]) (vs ! i) = Some ([0..<length vs] ! i)" using d i by (intro map_of_zip_nth) simp_all
  then show thesis using that [of i] i d row_map_nth [of vs r i] by simp
qed

lemma update_bindings_ok:
  assumes ok: "bag_ok (value_good okt) (mk_bag vs rs)" "timestamp_law ts okt" and r: "r \<in> set rs" and us: "set us \<subseteq> set vs"
  shows "update_bindings ts r (map (\<lambda>v. (v, the (map_of (zip vs [0..<length vs]) v))) us) B =
    Ok (\<lambda>v. if v \<in> set us then decoded ts (row_map vs r) v else B v)"
  using us
proof (induction us arbitrary: B)
  case (Cons u us)
  have layout: "layout_ok vs rs" using bag_ok_wf [OF ok(1)] by simp
  obtain i where i: "map_of (zip vs [0..<length vs]) u = Some i" "i < length r" "row_map vs r u = Some (r ! i)"
    using row_position [OF layout r] Cons.prems by (metis list.set_intros(1) subsetD)
  have "value_good okt (r ! i)" using ok(1) r i(3) by (auto simp: bag_ok_def bag_maps_def ran_def)
  then obtain x where x: "decode ts (r ! i) = Ok x" using decode_encode_ok [OF ok(2)] by (auto simp: value_good_def)
  have "update_bindings ts r (map (\<lambda>v. (v, the (map_of (zip vs [0..<length vs]) v))) (u # us)) B =
      update_bindings ts r (map (\<lambda>v. (v, the (map_of (zip vs [0..<length vs]) v))) us) (B(u \<mapsto> x))"
    using i x by (simp add: update_bindings_def)
  then show ?case using Cons i x by (auto simp: decoded_def fun_eq_iff)
qed (simp add: update_bindings_def)

lemma row_evaluate:
  assumes "expr_vars e \<subseteq> A"
  shows "evaluate T (\<lambda>v. if v \<in> A then decoded ts k v else B v) e = evaluate T (decoded ts k) e"
  by (rule evaluate_local) (use assms in auto)

section \<open>The law of predicates\<close>

definition predicate_sat :: "text_ops \<Rightarrow> timestamp_opt \<Rightarrow> expr \<Rightarrow> (variable \<rightharpoonup> bytes) \<Rightarrow> bool" where
  "predicate_sat T ts e k \<longleftrightarrow> expr_vars e \<subseteq> dom k \<and> evaluate_as_bool T (decoded ts k) e"

definition predicate_can :: "timestamp_opt \<Rightarrow> (int \<Rightarrow> bool) \<Rightarrow> expr \<Rightarrow> variable set \<Rightarrow> variable list \<Rightarrow> bool" where
  "predicate_can ts okt e bound added \<longleftrightarrow> timestamp_law ts okt \<and> added = [] \<and> expr_vars e \<subseteq> bound"

lemma decoded_restrict: "v \<in> A \<Longrightarrow> decoded ts (k |` A) v = decoded ts k v"
  by (simp add: decoded_def)

lemma decoded_le: "k \<subseteq>\<^sub>m n \<Longrightarrow> v \<in> dom k \<Longrightarrow> decoded ts n v = decoded ts k v"
  by (simp add: decoded_def map_le_def)

lemma evaluate_restrict: "expr_vars e \<subseteq> A \<Longrightarrow> evaluate T (decoded ts (k |` A)) e = evaluate T (decoded ts k) e"
  by (rule evaluate_local) (auto simp: decoded_restrict)

lemma evaluate_le: "k \<subseteq>\<^sub>m n \<Longrightarrow> expr_vars e \<subseteq> dom k \<Longrightarrow> evaluate T (decoded ts n) e = evaluate T (decoded ts k) e"
  by (rule evaluate_local) (meson decoded_le subsetD)

lemma ensure_all_ok: "(\<And>x. x \<in> set xs \<Longrightarrow> Q x) \<Longrightarrow> ensure_all Q msg xs = Ok ()"
  by (simp add: ensure_all_Ok)

lemma predicate_join_ok:
  assumes b: "bag_ok (value_good okt) (mk_bag vs rs)" and can: "predicate_can ts okt e (set vs) []"
  shows "predicate_join T ts (predicate_new i e) (mk_bag vs rs) [] vs =
    Ok (mk_bag vs (filter (\<lambda>r. evaluate_as_bool T (decoded ts (row_map vs r)) e) rs))"
proof -
  let ?us = "expr_variables e" and ?Q = "\<lambda>r. evaluate_as_bool T (decoded ts (row_map vs r)) e"
  let ?pos = "map (\<lambda>v. (v, the (map_of (zip vs [0..<length vs]) v))) ?us"
  have law: "timestamp_law ts okt" and us: "set ?us \<subseteq> set vs"
    using can by (simp_all add: predicate_can_def expr_variables_ok)
  have step: "\<exists>B'. predicate_step T ts (predicate_new i e) ?pos (m, B) (j, r) = Ok (if ?Q r then m @ [j] else m, B')"
    if "(j, r) \<in> set (enumerate 0 rs)" for m B j r
  proof -
    have "r \<in> set rs" using that by (auto simp: in_set_enumerate_eq)
    from update_bindings_ok [OF b law this us] show ?thesis
      by (simp add: predicate_step_def predicate_matches_def predicate_new_def evaluate_as_bool_def row_evaluate expr_variables_ok)
  qed
  obtain B' where "rfold (predicate_step T ts (predicate_new i e) ?pos) ([], Map.empty) (enumerate 0 rs) =
      Ok ([] @ map fst (filter (\<lambda>x. ?Q (snd x)) (enumerate 0 rs)), B')"
    using fold_matches [where Q = ?Q, OF step] by blast
  then show ?thesis
    using us binding_positions_ok [OF us, of rs] select_filter [of vs rs ?Q]
    by (simp add: predicate_join_def predicate_new_def ensure_all_ok subset_iff)
qed

interpretation pred: exec_pattern_law "value_good okt" "predicate_exec T ts (predicate_new i e)" "predicate_sat T ts e"
  "predicate_can ts okt e" for okt T ts i e
proof unfold_locales
  have vars: "set (ep_variables (predicate_exec T ts (predicate_new i e))) = expr_vars e"
    by (simp add: predicate_exec_def predicate_new_def expr_variables_ok)
  show "predicate_sat T ts e k \<longleftrightarrow> predicate_sat T ts e (k |` set (ep_variables (predicate_exec T ts (predicate_new i e))))" for k
    unfolding vars by (simp add: predicate_sat_def evaluate_as_bool_def evaluate_restrict)
  fix b added target
  assume b: "bag_ok (value_good okt) b" and can: "predicate_can ts okt e (set (bb_variables b)) added"
    and target: "added = [] \<Longrightarrow> target = bb_variables b"
  obtain vs rs where bag: "b = mk_bag vs rs" using bag_wfE [OF bag_ok_wf [OF b]] by metis
  have added: "added = []" "target = vs" and sub: "expr_vars e \<subseteq> set vs"
    using can target bag by (auto simp: predicate_can_def)
  have law: "bag_ok (value_good okt) (mk_bag vs rs)" using b bag by simp
  have layout: "layout_ok vs rs" using bag_ok_wf [OF law] by simp
  have dom: "dom (row_map vs r) = set vs" if "r \<in> set rs" for r
    using layout that by (simp add: layout_ok_def dom_row_map)
  have "joined (value_good okt) (predicate_sat T ts e) (expr_vars e) (mk_bag vs rs) vs
      (mk_bag vs (filter (\<lambda>r. evaluate_as_bool T (decoded ts (row_map vs r)) e) rs))"
  proof (rule joined_select [OF law])
    fix r k n assume "r \<in> set rs" "k = row_map vs r" "predicate_sat T ts e n" "k \<subseteq>\<^sub>m n"
    with evaluate_le [of k n e T ts] dom sub show "evaluate_as_bool T (decoded ts (row_map vs r)) e"
      by (simp add: predicate_sat_def evaluate_as_bool_def)
  qed (use dom sub in \<open>simp add: predicate_sat_def\<close>)
  then show "\<exists>c. ep_join (predicate_exec T ts (predicate_new i e)) b added target = Ok c \<and>
      joined (value_good okt) (predicate_sat T ts e) (set (ep_variables (predicate_exec T ts (predicate_new i e)))) b target c"
    unfolding vars using predicate_join_ok [OF law, of ts e T i] can bag added by (simp add: predicate_exec_def)
qed

section \<open>The law of functions\<close>

text \<open>A function pattern proposes the encoding of its result and validates with the equality of values,
  which differ on zeros of both signs and on NaN; the two agree for expressions with exact results.\<close>

definition exact_results :: "text_ops \<Rightarrow> (int \<Rightarrow> bool) \<Rightarrow> expr \<Rightarrow> bool" where
  "exact_results T okt e \<longleftrightarrow>
     (\<forall>ctx x. (\<forall>y \<in> ran ctx. dt_wf okt y) \<longrightarrow> evaluate T ctx e = Some x \<longrightarrow>
        dt_wf okt x \<and> (\<forall>y. dt_wf okt y \<longrightarrow> dt_eq x y \<longleftrightarrow> x = y))"

definition function_sat :: "text_ops \<Rightarrow> timestamp_opt \<Rightarrow> expr \<Rightarrow> variable \<Rightarrow> (variable \<rightharpoonup> bytes) \<Rightarrow> bool" where
  "function_sat T ts e out k \<longleftrightarrow> expr_vars e \<subseteq> dom k \<and> out \<in> dom k \<and> k out = map_option encode (evaluate T (decoded ts k) e)"

definition function_can ::
  "text_ops \<Rightarrow> timestamp_opt \<Rightarrow> (int \<Rightarrow> bool) \<Rightarrow> expr \<Rightarrow> variable \<Rightarrow> variable set \<Rightarrow> variable list \<Rightarrow> bool" where
  "function_can T ts okt e out bound added \<longleftrightarrow>
     timestamp_law ts okt \<and> exact_results T okt e \<and> expr_vars e \<subseteq> bound \<and> out \<notin> expr_vars e \<and>
     (if added = [] then out \<in> bound else added = [out] \<and> out \<notin> bound)"

abbreviation mk_function :: "pattern_id \<Rightarrow> expr \<Rightarrow> variable \<Rightarrow> function_pattern" where
  "mk_function i e out \<equiv> \<lparr>fp_id = i, fp_variables = expr_variables e @ [out], fp_input_variables = expr_variables e,
      fp_output = out, fp_expression = e\<rparr>"

lemma function_new_Ok: "function_new i e out = Ok fp \<longleftrightarrow> out \<notin> expr_vars e \<and> fp = mk_function i e out"
  by (auto simp: function_new_def ensure_def expr_variables_ok)

lemma row_result_wf:
  assumes b: "bag_ok (value_good okt) (mk_bag vs rs)" and law: "timestamp_law ts okt" "exact_results T okt e"
    and r: "r \<in> set rs" and x: "evaluate T (decoded ts (row_map vs r)) e = Some x"
  shows "dt_wf okt x" "dt_wf okt y \<Longrightarrow> dt_eq x y \<longleftrightarrow> encode x = encode y"
proof -
  have "dt_wf okt z" if vz: "decoded ts (row_map vs r) v = Some z" for v z
  proof -
    obtain c where c: "row_map vs r v = Some c" "decode ts c = Ok z"
      using vz by (auto simp: decoded_def split: option.splits sum.splits)
    then have "value_good okt c" using b r by (auto simp: bag_ok_def bag_maps_def ran_def)
    then show ?thesis using c(2) decode_encode_ok [OF law(1)] by (auto simp: value_good_def)
  qed
  then have "\<forall>z \<in> ran (decoded ts (row_map vs r)). dt_wf okt z" by (auto simp: ran_def)
  with law(2) x show wf: "dt_wf okt x" and "dt_wf okt y \<Longrightarrow> dt_eq x y \<longleftrightarrow> encode x = encode y"
    unfolding exact_results_def using encode_inj [of okt x y] by blast+
qed

lemma function_compute_ok:
  assumes b: "bag_ok (value_good okt) (mk_bag vs rs)" "timestamp_law ts okt" and r: "r \<in> set rs" and e: "expr_vars e \<subseteq> set vs"
  shows "\<exists>B'. function_compute T ts (mk_function i e out) r
    (map (\<lambda>v. (v, the (map_of (zip vs [0..<length vs]) v))) (expr_variables e)) B =
    Ok (evaluate T (decoded ts (row_map vs r)) e, B')"
proof -
  have us: "set (expr_variables e) \<subseteq> set vs" using e by (simp add: expr_variables_ok)
  show ?thesis using update_bindings_ok [OF b r us, of B]
    by (simp add: function_compute_def row_evaluate expr_variables_ok)
qed

lemma row_map_snoc1:
  assumes "length r = length vs" "v \<notin> set vs" shows "row_map (vs @ [v]) (r @ [x]) = (row_map vs r)(v \<mapsto> x)"
proof -
  have "row_map vs r v = None" using dom_row_map [OF assms(1)] assms(2) by auto
  moreover have "row_map (vs @ [v]) (r @ [x]) = [v \<mapsto> x] ++ row_map vs r" using assms(1) by (simp add: row_map_def)
  ultimately show ?thesis by (auto simp: fun_eq_iff map_add_def split: option.split)
qed

definition function_results :: "text_ops \<Rightarrow> timestamp_opt \<Rightarrow> expr \<Rightarrow> variable list \<Rightarrow> binding_row \<Rightarrow> binding_row list" where
  "function_results T ts e vs r =
     (case evaluate T (decoded ts (row_map vs r)) e of None \<Rightarrow> [] | Some x \<Rightarrow> [[encode x]])"

lemma function_propose:
  assumes b: "bag_ok (value_good okt) (mk_bag vs rs)" "timestamp_law ts okt" and e: "expr_vars e \<subseteq> set vs"
    and out: "out \<notin> set vs"
  shows "function_join T ts (mk_function i e out) (mk_bag vs rs) [out] target =
    rbind (extend_rows (mk_bag vs rs) [out] (map (function_results T ts e vs) rs)) (\<lambda>b. reorder b target)"
proof -
  let ?pos = "map (\<lambda>v. (v, the (map_of (zip vs [0..<length vs]) v))) (expr_variables e)"
  have us: "set (expr_variables e) \<subseteq> set vs" using e by (simp add: expr_variables_ok)
  have "\<exists>B'. rfold (function_extend_step T ts (mk_function i e out) ?pos) (xs, B) ss =
      Ok (xs @ map (function_results T ts e vs) ss, B')" if "set ss \<subseteq> set rs" for ss xs B
    using that
  proof (induction ss arbitrary: xs B)
    case (Cons r ss)
    obtain B' where "function_compute T ts (mk_function i e out) r ?pos B = Ok (evaluate T (decoded ts (row_map vs r)) e, B')"
      using function_compute_ok [OF b _ e] Cons.prems by fastforce
    then have "function_extend_step T ts (mk_function i e out) ?pos (xs, B) r = Ok (xs @ [function_results T ts e vs r], B')"
      by (simp add: function_extend_step_def function_results_def)
    then show ?case using Cons.IH [of "xs @ [function_results T ts e vs r]" B'] Cons.prems by simp
  qed simp
  then obtain B' where "rfold (function_extend_step T ts (mk_function i e out) ?pos) ([], Map.empty) rs =
      Ok ([] @ map (function_results T ts e vs) rs, B')" by blast
  then show ?thesis
    using us out binding_positions_ok [OF us, of rs]
    by (simp add: function_join_def ensure_can_propose_def ensure_inputs_bound_def ensure_all_ok subset_iff)
qed

lemma function_validate:
  assumes b: "bag_ok (value_good okt) (mk_bag vs rs)" and law: "timestamp_law ts okt" "exact_results T okt e"
    and e: "expr_vars e \<subseteq> set vs" and out: "out \<in> set vs"
  shows "function_join T ts (mk_function i e out) (mk_bag vs rs) [] vs =
    Ok (mk_bag vs (filter (\<lambda>r. function_sat T ts e out (row_map vs r)) rs))"
proof -
  let ?pos = "map (\<lambda>v. (v, the (map_of (zip vs [0..<length vs]) v))) (expr_variables e)"
  let ?Q = "\<lambda>r. function_sat T ts e out (row_map vs r)"
  have us: "set (expr_variables e) \<subseteq> set vs" using e by (simp add: expr_variables_ok)
  have layout: "layout_ok vs rs" using bag_ok_wf [OF b] by simp
  obtain c where c: "map_of (zip vs [0..<length vs]) out = Some c"
    using zip_pos [of vs out] out by (cases "map_of (zip vs [0..<length vs]) out") simp_all
  have step: "\<exists>B'. function_check_step T ts (mk_function i e out) c ?pos (m, B) (j, r) = Ok (if ?Q r then m @ [j] else m, B')"
    if jr: "(j, r) \<in> set (enumerate 0 rs)" for m B j r
  proof -
    have r: "r \<in> set rs" using jr by (auto simp: in_set_enumerate_eq)
    obtain i' where i': "map_of (zip vs [0..<length vs]) out = Some i'" "i' < length r" "row_map vs r out = Some (r ! i')"
      by (rule row_position [OF layout r out])
    then have ci: "c < length r" "row_map vs r out = Some (r ! c)" using c by simp_all
    have "value_good okt (r ! c)" using b r ci(2) by (auto simp: bag_ok_def bag_maps_def ran_def)
    then obtain y where y: "dt_wf okt y" "r ! c = encode y" "decode ts (r ! c) = Ok y"
      using decode_encode_ok [OF law(1)] by (auto simp: value_good_def)
    have dom: "dom (row_map vs r) = set vs" using layout r by (simp add: layout_ok_def dom_row_map)
    obtain B' where B': "function_compute T ts (mk_function i e out) r ?pos B = Ok (evaluate T (decoded ts (row_map vs r)) e, B')"
      using function_compute_ok [OF b law(1) r e] by blast
    have "(case evaluate T (decoded ts (row_map vs r)) e of None \<Rightarrow> False | Some x \<Rightarrow> dt_eq x y) = ?Q r"
      using row_result_wf(2) [OF b law r _ y(1)] y(2) ci(2) dom e out
      by (cases "evaluate T (decoded ts (row_map vs r)) e") (auto simp: function_sat_def)
    then show ?thesis using B' y(3) ci(1) by (auto simp: function_check_step_def)
  qed
  obtain B' where "rfold (function_check_step T ts (mk_function i e out) c ?pos) ([], Map.empty) (enumerate 0 rs) =
      Ok ([] @ map fst (filter (\<lambda>x. ?Q (snd x)) (enumerate 0 rs)), B')"
    using fold_matches [where Q = ?Q, OF step] by blast
  then show ?thesis
    using us out c binding_positions_ok [OF us, of rs] select_filter [of vs rs ?Q]
    by (simp add: function_join_def ensure_inputs_bound_def ensure_all_ok subset_iff column_index_def)
qed

interpretation func: counting_pattern_law "value_good okt" "function_exec T ts (mk_function i e out)" "function_sat T ts e out"
  "function_can T ts okt e out" for okt T ts i e out
proof unfold_locales
  let ?P = "function_exec T ts (mk_function i e out)"
  have vars: "set (ep_variables ?P) = insert out (expr_vars e)"
    by (simp add: function_exec_def expr_variables_ok)
  show "function_sat T ts e out k \<longleftrightarrow> function_sat T ts e out (k |` set (ep_variables ?P))" for k
    unfolding vars by (auto simp: function_sat_def evaluate_restrict subset_insertI)
  fix b added
  assume b: "bag_ok (value_good okt) b" and can: "function_can T ts okt e out (set (bb_variables b)) added"
  obtain vs rs where bag: "b = mk_bag vs rs" using bag_wfE [OF bag_ok_wf [OF b]] by metis
  have ok: "bag_ok (value_good okt) (mk_bag vs rs)" using b bag by simp
  have law: "timestamp_law ts okt" "exact_results T okt e" and sub: "expr_vars e \<subseteq> set vs"
    and out: "added = [] \<Longrightarrow> out \<in> set vs" "added \<noteq> [] \<Longrightarrow> added = [out] \<and> out \<notin> set vs"
    using can bag by (auto simp: function_can_def split: if_splits)
  have layout: "layout_ok vs rs" using bag_ok_wf [OF ok] by simp
  have dom: "dom (row_map vs r) = set vs" if "r \<in> set rs" for r
    using layout that by (simp add: layout_ok_def dom_row_map)
  show "\<exists>f. ep_count ?P b added ps = Ok (map2 (\<lambda>p n. proposal_consider p (ep_id ?P) n) ps f) \<and> length f = length ps"
    if "added \<noteq> []" "length ps = length (bb_rows b)" for ps
  proof -
    have "map2 (\<lambda>p n. proposal_consider p i n) ps (replicate (length ps) 1) = map (\<lambda>p. proposal_consider p i 1) ps"
      by (rule nth_equalityI) simp_all
    then show ?thesis
      using that out(2) sub bag
      by (intro exI [of _ "replicate (length ps) 1"])
        (auto simp: function_exec_def function_count_def ensure_can_propose_def ensure_inputs_bound_def expr_variables_ok
          ensure_all_ok)
  qed
  show "\<exists>c. ep_join ?P b added target = Ok c \<and> joined (value_good okt) (function_sat T ts e out) (set (ep_variables ?P)) b target c"
    if target: "distinct added" "distinct target" "set (bb_variables b) \<inter> set added = {}"
      "set target = set (bb_variables b) \<union> set added" "added = [] \<Longrightarrow> target = bb_variables b" for target
  proof (cases "added = []")
    case True
    have "joined (value_good okt) (function_sat T ts e out) (insert out (expr_vars e)) (mk_bag vs rs) vs
        (mk_bag vs (filter (\<lambda>r. function_sat T ts e out (row_map vs r)) rs))"
    proof (rule joined_select [OF ok])
      fix r k n assume r: "r \<in> set rs" "k = row_map vs r" "function_sat T ts e out n" "k \<subseteq>\<^sub>m n"
      then have "n out = k out" using dom out(1) [OF True] by (metis map_le_def)
      with evaluate_le [of k n e T ts] r dom sub out(1) [OF True] show "function_sat T ts e out (row_map vs r)"
        by (simp add: function_sat_def)
    qed
    then show ?thesis
      unfolding vars using function_validate [OF ok law sub out(1), of i] True target(5) bag by (simp add: function_exec_def)
  next
    case False
    then have added: "added = [out]" "out \<notin> set vs" using out(2) by simp_all
    have "\<exists>c. rbind (extend_rows (mk_bag vs rs) [out] (map (function_results T ts e vs) rs)) (\<lambda>b. reorder b target) = Ok c \<and>
        joined (value_good okt) (function_sat T ts e out) (insert out (expr_vars e)) (mk_bag vs rs) target c"
    proof (rule joined_extend [OF ok])
      fix r x assume r: "r \<in> set rs" "x \<in> set (function_results T ts e vs r)"
      then obtain z where z: "evaluate T (decoded ts (row_map vs r)) e = Some z" "x = [encode z]"
        by (cases "evaluate T (decoded ts (row_map vs r)) e") (auto simp: function_results_def)
      show "value_good okt y" if "y \<in> set x" for y
        using that z row_result_wf(1) [OF ok law r(1) z(1)] by (auto simp: value_good_def)
      let ?k = "row_map (vs @ [out]) (r @ x)"
      have k: "?k = (row_map vs r)(out \<mapsto> encode z)"
        using z(2) layout r(1) added(2) by (simp add: row_map_snoc1 layout_ok_def)
      have le: "row_map vs r \<subseteq>\<^sub>m ?k" using added(2) dom [OF r(1)] by (auto simp: k map_le_def)
      show "function_sat T ts e out ?k"
        using evaluate_le [OF le, of e T ts] dom [OF r(1)] sub z(1) k by (simp add: function_sat_def subset_insertI2)
    next
      fix r k n assume r: "r \<in> set rs" "dom k = set target" "k |` set vs = row_map vs r" "function_sat T ts e out n" "k \<subseteq>\<^sub>m n"
      have "row_map vs r \<subseteq>\<^sub>m k" using r(3) by (metis map_le_restrict)
      then have "row_map vs r \<subseteq>\<^sub>m n" using r(5) map_le_trans by blast
      then have "evaluate T (decoded ts n) e = evaluate T (decoded ts (row_map vs r)) e"
        by (rule evaluate_le) (use sub dom [OF r(1)] in simp)
      moreover have "out \<in> dom k" using r(2) target(4) added(1) by simp
      then have "k out = n out" using r(5) by (simp add: map_le_def)
      ultimately show "map (\<lambda>v. the (k v)) [out] \<in> set (function_results T ts e vs r)"
        using r(4) by (cases "evaluate T (decoded ts (row_map vs r)) e") (auto simp: function_sat_def function_results_def)
    qed (use target added bag in \<open>auto simp: function_results_def split: option.splits\<close>)
    then show ?thesis
      unfolding vars using function_propose [OF ok law(1) sub added(2), of T i target] added(1) bag by (simp add: function_exec_def)
  qed
qed

end
