(* ===== verification/Triple_Pattern.thy ===== *)
theory Triple_Pattern
  imports Dyn_Index Expr_Patterns Indexer_Inv "HOL-Library.Product_Lexorder"
begin

text \<open>
  Patterns over stored facts, \<^verbatim>\<open>src/query/patterns/triple.rs\<close>, and the database value they read,
  \<^verbatim>\<open>src/db_value.rs\<close>. A pattern with one variable bound seeks through the sorted index once for all
  rows; with nothing bound it proposes from the indices of entities and of values, which keep what
  was retracted, so that the pair is checked later.
\<close>

section \<open>The database value\<close>

text \<open>The estimates of key counts come from a package outside the repository.\<close>

record 'db db_value =
  dv_sdb :: 'db
  dv_ident_map :: "keyword \<rightharpoonup> entid"
  dv_tx_key :: tx_key
  dv_range_stats :: "bytes \<Rightarrow> u64 result"

definition dv_as_of :: "'db db_value \<Rightarrow> i64 result" where
  "dv_as_of db = tx_eid_from_tx_id (tx_id (dv_tx_key db))"

section \<open>The pattern\<close>

datatype triple_term = TVariable variable | TConstant bytes

fun term_variable :: "triple_term \<Rightarrow> variable option" where
  "term_variable (TVariable v) = Some v"
| "term_variable (TConstant _) = None"

datatype triple_position = Entity_position | Value_position

record 'db triple_pattern =
  tp_id :: pattern_id
  tp_variables :: "variable list"
  tp_entity :: triple_term
  tp_attribute :: i64
  tp_value :: triple_term
  tp_db :: "'db db_value"

definition triple_new :: "pattern_id \<Rightarrow> triple_term \<Rightarrow> i64 \<Rightarrow> triple_term \<Rightarrow> 'db db_value \<Rightarrow> 'db triple_pattern result" where
  "triple_new i entity attribute value db =
     (let variables = (case term_variable entity of Some v \<Rightarrow> [v] | None \<Rightarrow> []) in
      rbind (case term_variable value of
               Some v \<Rightarrow> rbind (ensure (v \<notin> set variables) ''Triple pattern repeats variable'') (\<lambda>_. Ok (variables @ [v]))
             | None \<Rightarrow> Ok variables) (\<lambda>variables.
      Ok \<lparr>tp_id = i, tp_variables = variables, tp_entity = entity, tp_attribute = attribute, tp_value = value, tp_db = db\<rparr>))"

definition base_prefix :: "'db triple_pattern \<Rightarrow> index_type \<Rightarrow> bytes result" where
  "base_prefix tp it = rbind (index_type_to_prefix it) (\<lambda>b. Ok ([b] @ encode_i64_bytes (tp_attribute tp)))"

definition position_for_variable :: "'db triple_pattern \<Rightarrow> variable \<Rightarrow> triple_position option" where
  "position_for_variable tp v =
     (if term_variable (tp_entity tp) = Some v then Some Entity_position
      else if term_variable (tp_value tp) = Some v then Some Value_position
      else None)"

fun index_type_for :: "triple_position \<Rightarrow> bool \<Rightarrow> index_type" where
  "index_type_for Entity_position False = AE_index"
| "index_type_for Entity_position True = AVE_index"
| "index_type_for Value_position False = AV_index"
| "index_type_for Value_position True = AEV_index"

definition estimate_count :: "'db triple_pattern \<Rightarrow> bytes \<Rightarrow> usize result" where
  "estimate_count tp p = dv_range_stats (tp_db tp) p"

definition create_iterator ::
  "('db, 'it) slate_ops \<Rightarrow> nat \<Rightarrow> 'db triple_pattern \<Rightarrow> bytes \<Rightarrow> index_type \<Rightarrow> (bytes \<Rightarrow> bytes result) \<Rightarrow> 'it dyn_index result" where
  "create_iterator ops n tp p it extractor =
     (if it \<in> {AE_index, AV_index}
      then rbind (si_new ops p (dv_sdb (tp_db tp)) extractor) (\<lambda>s. Ok (DynSlate s))
      else
        rbind (dv_as_of (tp_db tp)) (\<lambda>as_of.
        rbind (tfi_new ops n p (dv_sdb (tp_db tp)) extractor as_of) (\<lambda>s. Ok (DynTemporal s))))"

definition attr_var_iterator :: "('db, 'it) slate_ops \<Rightarrow> nat \<Rightarrow> 'db triple_pattern \<Rightarrow> index_type \<Rightarrow> 'it dyn_index result" where
  "attr_var_iterator ops n tp it =
     rbind (ensure (it \<in> {AE_index, AV_index}) ''Component iterator requires an AE or AV index'') (\<lambda>_.
     rbind (base_prefix tp it) (\<lambda>p.
     create_iterator ops n tp p it (make_extractor 1 it)))"

text \<open>What follows a prefix in a key of a temporal index, up to the transaction.\<close>

definition after_prefix :: "nat \<Rightarrow> bytes \<Rightarrow> bytes result" where
  "after_prefix prefix_len key = rbind (usub (length key) TX_EID_OP_SUFFIX) (get_slice key prefix_len)"

definition attr_var_pair_iterator :: "('db, 'it) slate_ops \<Rightarrow> nat \<Rightarrow> 'db triple_pattern \<Rightarrow> index_type \<Rightarrow> 'it dyn_index result" where
  "attr_var_pair_iterator ops n tp it =
     rbind (ensure (it \<in> {AEV_index, AVE_index}) ''Pair iterator requires an AEV or AVE index'') (\<lambda>_.
     rbind (base_prefix tp it) (\<lambda>p.
     create_iterator ops n tp p it (after_prefix (length p))))"

text \<open>The rows of a bag, grouped by the value under a key in increasing order.\<close>

definition row_at :: "binding_row \<Rightarrow> nat \<Rightarrow> bytes result" where
  "row_at row i = (if i < length row then Ok (row ! i) else Error (Panic ''index out of bounds''))"

definition group_rows :: "(binding_row \<Rightarrow> 'k::linorder result) \<Rightarrow> binding_row list \<Rightarrow> ('k \<times> nat list) list result" where
  "group_rows key rows =
     rfold (\<lambda>groups (i, row). rbind (key row) (\<lambda>k. Ok (bt_insert k (or_insert (map_of groups) k [] @ [i]) groups)))
       [] (enumerate 0 rows)"

definition other_term :: "'db triple_pattern \<Rightarrow> triple_position \<Rightarrow> triple_term" where
  "other_term tp pos = (case pos of Entity_position \<Rightarrow> tp_value tp | Value_position \<Rightarrow> tp_entity tp)"

definition triple_candidate_extensions ::
  "('db, 'it) slate_ops \<Rightarrow> nat \<Rightarrow> 'db triple_pattern \<Rightarrow> binding_bag \<Rightarrow> triple_position \<Rightarrow> binding_row list list result" where
  "triple_candidate_extensions ops n tp input pos =
     (if bb_rows input = [] then Ok []
      else case other_term tp pos of
        TVariable other_var \<Rightarrow>
          if other_var \<in> set (bb_variables input) then
            rbind (column_index input other_var) (\<lambda>index.
            rbind (group_rows (\<lambda>row. row_at row index) (bb_rows input)) (\<lambda>groups.
            if groups = [] then Ok (replicate (length (bb_rows input)) [])
            else
              rbind (attr_var_pair_iterator ops n tp (index_type_for pos True)) (\<lambda>iterator.
              extend_groups dyn_get_value (dyn_next ops n) dyn_has_next (dyn_seek ops n) n iterator groups
                (replicate (length (bb_rows input)) []))))
          else
            rbind (attr_var_iterator ops n tp (index_type_for pos False)) (\<lambda>iterator.
            rbind (collect_values dyn_get_value (dyn_next ops n) n iterator) (\<lambda>values.
            Ok (replicate (length (bb_rows input)) (map (\<lambda>v. [v]) values))))
      | TConstant c \<Rightarrow>
          rbind (base_prefix tp (index_type_for pos True)) (\<lambda>base.
          let p = base @ c in
          rbind (create_iterator ops n tp p (index_type_for pos True) (after_prefix (length p))) (\<lambda>iterator.
          rbind (collect_values dyn_get_value (dyn_next ops n) n iterator) (\<lambda>values.
          Ok (replicate (length (bb_rows input)) (map (\<lambda>v. [v]) values))))))"

definition check_column ::
  "('db, 'it) slate_ops \<Rightarrow> nat \<Rightarrow> binding_bag \<Rightarrow> variable \<Rightarrow> 'it dyn_index result \<Rightarrow> bool list result" where
  "check_column ops n input v new_iterator =
     rbind (column_index input v) (\<lambda>index.
     rbind (group_rows (\<lambda>row. row_at row index) (bb_rows input)) (\<lambda>groups.
     rbind new_iterator (\<lambda>iterator.
     check_groups dyn_get_value dyn_has_next (dyn_seek ops n) iterator groups
       (replicate (length (bb_rows input)) False))))"

definition triple_matches ::
  "('db, 'it) slate_ops \<Rightarrow> nat \<Rightarrow> 'db triple_pattern \<Rightarrow> binding_bag \<Rightarrow> bool list result" where
  "triple_matches ops n tp input =
     (let is_bound = (\<lambda>v. column_indexes input v \<noteq> None);
          constant_iterator = (\<lambda>it c.
            rbind (base_prefix tp it) (\<lambda>base. create_iterator ops n tp (base @ c) it (make_extractor 2 it)));
          unbound = Error (Err ''Triple pattern has no bound variables to validate'')
      in case (tp_entity tp, tp_value tp) of
        (TConstant entity, TConstant value) \<Rightarrow>
          rbind (constant_iterator AEV_index entity) (\<lambda>iterator.
          rbind (if dyn_has_next iterator
                 then rbind (dyn_seek ops n iterator value) (\<lambda>iterator.
                      rbind (dyn_get_value iterator) (\<lambda>v. Ok (v = Some value)))
                 else Ok False) (\<lambda>has_match.
          Ok (replicate (length (bb_rows input)) has_match)))
      | (TVariable entity_var, TConstant value) \<Rightarrow>
          if is_bound entity_var then check_column ops n input entity_var (constant_iterator AVE_index value) else unbound
      | (TConstant entity, TVariable value_var) \<Rightarrow>
          if is_bound value_var then check_column ops n input value_var (constant_iterator AEV_index entity) else unbound
      | (TVariable entity_var, TVariable value_var) \<Rightarrow>
          if is_bound entity_var \<and> \<not> is_bound value_var
          then check_column ops n input entity_var (attr_var_iterator ops n tp AE_index)
          else if \<not> is_bound entity_var \<and> is_bound value_var
          then check_column ops n input value_var (attr_var_iterator ops n tp AV_index)
          else if is_bound entity_var \<and> is_bound value_var then
            rbind (column_index input entity_var) (\<lambda>entity_index.
            rbind (column_index input value_var) (\<lambda>value_index.
            rbind (group_rows (\<lambda>row. rbind (row_at row entity_index) (\<lambda>e. rbind (row_at row value_index) (\<lambda>v. Ok (e, v))))
                     (bb_rows input)) (\<lambda>groups.
            rbind (attr_var_pair_iterator ops n tp AEV_index) (\<lambda>iterator.
            check_groups dyn_get_value dyn_has_next (dyn_seek ops n) iterator (map (\<lambda>((e, v), is). (e @ v, is)) groups)
              (replicate (length (bb_rows input)) False)))))
          else unbound)"

definition triple_validate :: "('db, 'it) slate_ops \<Rightarrow> nat \<Rightarrow> 'db triple_pattern \<Rightarrow> binding_bag \<Rightarrow> binding_bag result" where
  "triple_validate ops n tp input =
     rbind (ensure (tp_variables tp = [] \<or> (\<exists>v \<in> set (tp_variables tp). column_indexes input v \<noteq> None))
              ''Triple pattern has no bound variables to validate'') (\<lambda>_.
     if bb_rows input = [] then select_rows input []
     else
       rbind (triple_matches ops n tp input) (\<lambda>matches.
       select_rows input (map fst (filter snd (enumerate 0 matches)))))"

definition triple_propose ::
  "('db, 'it) slate_ops \<Rightarrow> nat \<Rightarrow> 'db triple_pattern \<Rightarrow> binding_bag \<Rightarrow> variable list \<Rightarrow> binding_bag result" where
  "triple_propose ops n tp input added =
     rbind (ensure (length added = 1) ''Triple pattern can propose exactly one variable'') (\<lambda>_.
     rbind (ensure (hd added \<notin> set (bb_variables input)) ''Triple pattern cannot add already-bound variable'') (\<lambda>_.
     rbind (ok_or (position_for_variable tp (hd added)) ''Triple pattern cannot propose variable'') (\<lambda>pos.
     rbind (triple_candidate_extensions ops n tp input pos) (\<lambda>extensions.
     extend_rows input added extensions))))"

definition triple_count ::
  "'db triple_pattern \<Rightarrow> binding_bag \<Rightarrow> variable list \<Rightarrow> proposal list \<Rightarrow> proposal list result" where
  "triple_count tp input added proposals =
     rbind (ensure (length proposals = length (bb_rows input)) ''Triple pattern received the wrong number of proposals'') (\<lambda>_.
     rbind (ensure (length added = 1) ''Triple pattern can count exactly one variable'') (\<lambda>_.
     rbind (ok_or (position_for_variable tp (hd added)) ''Triple pattern can only count variables it can propose'') (\<lambda>pos.
     if bb_rows input = [] then Ok proposals
     else
       let other = other_term tp pos;
           other_resolved = (case other of TVariable v \<Rightarrow> column_indexes input v \<noteq> None | TConstant _ \<Rightarrow> True)
       in rbind (base_prefix tp (index_type_for pos other_resolved)) (\<lambda>base.
          case other of
            TVariable other_var \<Rightarrow>
              if other_var \<in> set (bb_variables input) then
                rbind (column_index input other_var) (\<lambda>index.
                rmapM (\<lambda>(row, p).
                  rbind (row_at row index) (\<lambda>x.
                  rbind (estimate_count tp (base @ x)) (\<lambda>count.
                  Ok (proposal_consider p (tp_id tp) count)))) (zip (bb_rows input) proposals))
              else
                rbind (estimate_count tp base) (\<lambda>count.
                Ok (map (\<lambda>p. proposal_consider p (tp_id tp) count) proposals))
          | TConstant c \<Rightarrow>
              rbind (estimate_count tp (base @ c)) (\<lambda>count.
              Ok (map (\<lambda>p. proposal_consider p (tp_id tp) count) proposals))))))"

definition triple_join ::
  "('db, 'it) slate_ops \<Rightarrow> nat \<Rightarrow> 'db triple_pattern \<Rightarrow> binding_bag \<Rightarrow> variable list \<Rightarrow> variable list \<Rightarrow> binding_bag result" where
  "triple_join ops n tp input added target =
     (if added = [] then
        rbind (triple_validate ops n tp input) (\<lambda>res.
        rbind (ensure (target = bb_variables res) ''Triple pattern target layout does not match the computed layout'') (\<lambda>_.
        Ok res))
      else rbind (triple_propose ops n tp input added) (\<lambda>b. reorder b target))"

definition triple_exec :: "('db, 'it) slate_ops \<Rightarrow> nat \<Rightarrow> 'db triple_pattern \<Rightarrow> exec_pattern" where
  "triple_exec ops n tp =
     \<lparr>ep_id = tp_id tp, ep_variables = tp_variables tp, ep_count = triple_count tp, ep_join = triple_join ops n tp\<rparr>"

end
