(* ===== verification/Query_Plan.thy ===== *)
theory Query_Plan
  imports Relation_Pattern Triple_Pattern
begin

text \<open>
  The planner, \<^verbatim>\<open>src/query/plan.rs\<close>, with the disjunctions and negations that execute nested plans,
  \<^verbatim>\<open>src/query/patterns/or.rs\<close> and \<^verbatim>\<open>src/query/patterns/not.rs\<close>, and the places of patterns from
  \<^verbatim>\<open>edn/src/query.rs\<close> and \<^verbatim>\<open>src/query.rs\<close>. Descriptors are planned into stages of participants; a
  plan is turned into executable patterns when it runs, the plans of nested scopes for every call of
  their pattern.
\<close>

section \<open>Places\<close>

datatype non_value_place = NPlaceholder | NVariable variable | NEntid i64 | NIdent keyword

datatype non_integer_constant =
    CBoolean bool
  | CBigInteger int
  | CFloat u64
  | CText string
  | CInstant datetime
  | CUuid "128 word"

datatype value_place =
    VPlaceholder
  | VVariable variable
  | VEntidOrInteger i64
  | VIdentOrKeyword keyword
  | VConstant non_integer_constant

text \<open>The source and the transaction of a pattern are not read by the planner.\<close>

record pattern =
  pat_entity :: non_value_place
  pat_attribute :: non_value_place
  pat_value :: value_place

definition pattern_variables :: "pattern \<Rightarrow> variable list" where
  "pattern_variables p =
     (case pat_entity p of NVariable v \<Rightarrow> [v] | _ \<Rightarrow> []) @
     (case pat_attribute p of NVariable v \<Rightarrow> [v] | _ \<Rightarrow> []) @
     (case pat_value p of VVariable v \<Rightarrow> [v] | _ \<Rightarrow> [])"

fun resolve_attribute_from_pattern :: "non_value_place \<Rightarrow> (keyword \<rightharpoonup> entid) \<Rightarrow> i64 result" where
  "resolve_attribute_from_pattern (NIdent key) m = ok_or (m key) ''Unknown attribute''"
| "resolve_attribute_from_pattern (NEntid i) m = Ok i"
| "resolve_attribute_from_pattern _ m = Error (Err ''Attribute must be a keyword or entid'')"

fun non_value_place_to_datatype :: "non_value_place \<Rightarrow> data_type option" where
  "non_value_place_to_datatype (NEntid i) = Some (DLong i)"
| "non_value_place_to_datatype (NIdent key) = Some (DKeyword key)"
| "non_value_place_to_datatype _ = None"

fun non_integer_constant_to_datatype :: "non_integer_constant \<Rightarrow> data_type option" where
  "non_integer_constant_to_datatype (CBoolean b) = Some (DBoolean b)"
| "non_integer_constant_to_datatype (CBigInteger i) =
     (if - (2 ^ 127) \<le> i \<and> i < 2 ^ 127 then Some (DBigInt (word_of_int i)) else None)"
| "non_integer_constant_to_datatype (CFloat f) = Some (DDouble f)"
| "non_integer_constant_to_datatype (CText s) = Some (DString s)"
| "non_integer_constant_to_datatype (CInstant t) = Some (DInstant t)"
| "non_integer_constant_to_datatype (CUuid u) = Some (DUuid u)"

fun value_place_to_datatype :: "value_place \<Rightarrow> data_type option" where
  "value_place_to_datatype (VEntidOrInteger i) = Some (DLong i)"
| "value_place_to_datatype (VIdentOrKeyword key) = Some (DKeyword key)"
| "value_place_to_datatype (VConstant c) = non_integer_constant_to_datatype c"
| "value_place_to_datatype _ = None"

definition encoded_term :: "data_type \<Rightarrow> triple_term" where
  "encoded_term v = TConstant (encode v)"

fun entity_term :: "non_value_place \<Rightarrow> triple_term result" where
  "entity_term (NVariable v) = Ok (TVariable v)"
| "entity_term NPlaceholder = Error (Err ''Triple entity placeholders are not executable'')"
| "entity_term place =
     rbind (ok_or (non_value_place_to_datatype place) ''Unsupported triple entity term'') (\<lambda>v. Ok (encoded_term v))"

fun value_term :: "value_place \<Rightarrow> triple_term result" where
  "value_term (VVariable v) = Ok (TVariable v)"
| "value_term VPlaceholder = Error (Err ''Triple value placeholders are not executable'')"
| "value_term place =
     rbind (ok_or (value_place_to_datatype place) ''Unsupported triple value term'') (\<lambda>v. Ok (encoded_term v))"

section \<open>Descriptors\<close>

datatype descriptor = Descriptor (de_id: pattern_id) (de_variables: "variable list") (de_kind: descriptor_kind)
and descriptor_kind =
    KTriple pattern
  | KRelation "data_type list list"
  | KPredicate expr
  | KFunction expr "variable list" variable
  | KOr "descriptor list list"
  | KNot "descriptor list"

definition relation_bound_prefix_len :: "variable list \<Rightarrow> variable set \<Rightarrow> nat option" where
  "relation_bound_prefix_len vs bound =
     (let prefix_len = length (takeWhile (\<lambda>v. v \<in> bound) vs)
      in if \<exists>v \<in> set (drop prefix_len vs). v \<in> bound then None else Some prefix_len)"

definition relation_groundable :: "variable list \<Rightarrow> variable set \<Rightarrow> variable list" where
  "relation_groundable vs bound =
     (case relation_bound_prefix_len vs bound of
        None \<Rightarrow> []
      | Some n \<Rightarrow> if n < length vs then [vs ! n] else [])"

text \<open>The loop that lets the descriptors of a branch ground variables until nothing changes. A pass that
  changes something adds a variable of the branch, so one pass more than there are variables is enough.\<close>

definition derive_pass :: "(variable set \<Rightarrow> variable list) list \<Rightarrow> variable set \<Rightarrow> variable set" where
  "derive_pass gs bound = foldl (\<lambda>bound g. bound \<union> set (g bound)) bound gs"

primrec derive_loop :: "nat \<Rightarrow> (variable set \<Rightarrow> variable list) list \<Rightarrow> variable set \<Rightarrow> variable set" where
  "derive_loop 0 gs bound = bound"
| "derive_loop (Suc n) gs bound =
     (let bound' = derive_pass gs bound in if bound' = bound then bound else derive_loop n gs bound')"

definition all_variables :: "descriptor list \<Rightarrow> variable list" where
  "all_variables ds = concat (map de_variables ds)"

fun groundable :: "descriptor \<Rightarrow> variable set \<Rightarrow> variable list" where
  "groundable (Descriptor i vs (KTriple p)) bound = filter (\<lambda>v. v \<notin> bound) vs"
| "groundable (Descriptor i vs (KRelation rows)) bound = relation_groundable vs bound"
| "groundable (Descriptor i vs (KPredicate e)) bound = []"
| "groundable (Descriptor i vs (KNot inner)) bound = []"
| "groundable (Descriptor i vs (KFunction e inputs output)) bound =
     (if output \<notin> bound \<and> (\<forall>v \<in> set inputs. v \<in> bound) then [output] else [])"
| "groundable (Descriptor i vs (KOr branches)) bound =
     (let missing = filter (\<lambda>v. v \<notin> bound) vs
      in if missing = [] \<or>
            \<not> (\<forall>branch \<in> set branches.
                 set missing \<subseteq> derive_loop (Suc (length (all_variables branch))) (map groundable branch) bound)
         then [] else missing)"

definition branch_derives :: "descriptor list \<Rightarrow> variable set \<Rightarrow> variable list \<Rightarrow> bool" where
  "branch_derives ds bound required \<longleftrightarrow>
     set required \<subseteq> derive_loop (Suc (length (all_variables ds))) (map groundable ds) bound"

fun is_or :: "descriptor \<Rightarrow> bool" where
  "is_or (Descriptor i vs (KOr branches)) = True"
| "is_or _ = False"

section \<open>Logical stages\<close>

datatype participant_ref = PPattern pattern_id | PIncoming

record logical_stage =
  ls_added :: "variable list"
  ls_proposers :: "participant_ref list"
  ls_participants :: "participant_ref list"
  ls_target :: "variable list"

definition fully_bound :: "variable list \<Rightarrow> variable set \<Rightarrow> bool" where
  "fully_bound vs bound \<longleftrightarrow> (\<forall>v \<in> set vs. v \<in> bound)"

text \<open>The incoming participant first, then the descriptors, that satisfy a condition.\<close>

definition select_participants ::
  "descriptor list \<Rightarrow> variable list option \<Rightarrow> (variable list \<Rightarrow> bool) \<Rightarrow> (descriptor \<Rightarrow> bool) \<Rightarrow> participant_ref list" where
  "select_participants ds incoming P Q =
     (case incoming of Some vs \<Rightarrow> if P vs then [PIncoming] else [] | None \<Rightarrow> []) @
     map (\<lambda>d. PPattern (de_id d)) (filter Q ds)"

definition add_validation_stage ::
  "descriptor list \<Rightarrow> variable list option \<Rightarrow> variable list \<Rightarrow> participant_ref set \<times> logical_stage list \<Rightarrow>
     participant_ref set \<times> logical_stage list" where
  "add_validation_stage ds incoming bound = (\<lambda>(completed, stages).
     let participants = select_participants ds incoming
           (\<lambda>vs. PIncoming \<notin> completed \<and> fully_bound vs (set bound))
           (\<lambda>d. PPattern (de_id d) \<notin> completed \<and> fully_bound (de_variables d) (set bound))
     in if participants = [] then (completed, stages)
        else (completed \<union> set participants,
          stages @ [\<lparr>ls_added = [], ls_proposers = [], ls_participants = participants, ls_target = bound\<rparr>]))"

definition can_validate_grouped_or_addition :: "variable list \<Rightarrow> variable list \<Rightarrow> bool" where
  "can_validate_grouped_or_addition ground added \<longleftrightarrow> ground \<noteq> [] \<and> (\<exists>v \<in> set ground. v \<in> set added)"

definition relation_can_validate_grouped_or_addition ::
  "variable list \<Rightarrow> variable set \<Rightarrow> variable list \<Rightarrow> variable set \<Rightarrow> bool" where
  "relation_can_validate_grouped_or_addition vs bound added target \<longleftrightarrow>
     can_validate_grouped_or_addition (relation_groundable vs bound) added \<and> relation_bound_prefix_len vs target \<noteq> None"

definition validator_can :: "descriptor \<Rightarrow> variable set \<Rightarrow> variable list \<Rightarrow> variable set \<Rightarrow> bool" where
  "validator_can d bound added target \<longleftrightarrow>
     (case de_kind d of
        KRelation rows \<Rightarrow> relation_can_validate_grouped_or_addition (de_variables d) bound added target
      | _ \<Rightarrow> can_validate_grouped_or_addition (groundable d bound) added)"

definition single_stage ::
  "variable \<Rightarrow> participant_ref list \<Rightarrow> descriptor list \<Rightarrow> variable list option \<Rightarrow> variable list \<Rightarrow> participant_ref set \<Rightarrow>
     logical_stage \<times> participant_ref list" where
  "single_stage v props ds incoming bound completed =
     (let target = bound @ [v];
          participants = select_participants ds incoming
            (\<lambda>vs. PIncoming \<notin> completed \<and> (PIncoming \<in> set props \<or> fully_bound vs (set target)))
            (\<lambda>d. PPattern (de_id d) \<notin> completed \<and> (PPattern (de_id d) \<in> set props \<or> fully_bound (de_variables d) (set target)));
          newly_completed = filter (\<lambda>p. case p of
              PIncoming \<Rightarrow> (case incoming of Some vs \<Rightarrow> fully_bound vs (set target) | None \<Rightarrow> False)
            | PPattern i \<Rightarrow> (case find (\<lambda>d. de_id d = i) ds of Some d \<Rightarrow> fully_bound (de_variables d) (set target) | None \<Rightarrow> False))
            participants
      in (\<lparr>ls_added = [v], ls_proposers = props, ls_participants = participants, ls_target = target\<rparr>, newly_completed))"

definition grouped_stage ::
  "descriptor \<Rightarrow> descriptor list \<Rightarrow> variable list option \<Rightarrow> variable list \<Rightarrow> participant_ref set \<Rightarrow>
     logical_stage \<times> participant_ref list" where
  "grouped_stage d ds incoming bound completed =
     (let added = groundable d (set bound);
          target = bound @ added;
          participant = PPattern (de_id d);
          validators = select_participants ds incoming
            (\<lambda>vs. PIncoming \<notin> completed \<and> relation_can_validate_grouped_or_addition vs (set bound) added (set target))
            (\<lambda>d'. \<not> (PPattern (de_id d') \<in> completed \<or> is_or d') \<and> validator_can d' (set bound) added (set target));
          complete = select_participants ds incoming
            (\<lambda>vs. PIncoming \<notin> completed \<and> relation_can_validate_grouped_or_addition vs (set bound) added (set target) \<and>
               fully_bound vs (set target))
            (\<lambda>d'. \<not> (PPattern (de_id d') \<in> completed \<or> is_or d') \<and> validator_can d' (set bound) added (set target) \<and>
               fully_bound (de_variables d') (set target))
      in (\<lparr>ls_added = added, ls_proposers = [participant], ls_participants = participant # validators, ls_target = target\<rparr>,
          participant # complete))"

definition proposing_stage_for ::
  "variable \<Rightarrow> descriptor list \<Rightarrow> variable list option \<Rightarrow> variable list \<Rightarrow> participant_ref set \<Rightarrow>
     (logical_stage \<times> participant_ref list) option" where
  "proposing_stage_for v ds incoming bound completed =
     (let props = select_participants ds incoming
            (\<lambda>vs. PIncoming \<notin> completed \<and> v \<in> set (relation_groundable vs (set bound)))
            (\<lambda>d. PPattern (de_id d) \<notin> completed \<and> \<not> is_or d \<and> v \<in> set (groundable d (set bound)))
      in if props \<noteq> [] then Some (single_stage v props ds incoming bound completed)
         else case find (\<lambda>d. PPattern (de_id d) \<notin> completed \<and> is_or d \<and> v \<in> set (groundable d (set bound))) ds of
             None \<Rightarrow> None
           | Some d \<Rightarrow> Some (grouped_stage d ds incoming bound completed))"

primrec first_stage ::
  "variable list \<Rightarrow> descriptor list \<Rightarrow> variable list option \<Rightarrow> variable list \<Rightarrow> participant_ref set \<Rightarrow>
     (logical_stage \<times> participant_ref list) option" where
  "first_stage [] ds incoming bound completed = None"
| "first_stage (v # vs) ds incoming bound completed =
     (case proposing_stage_for v ds incoming bound completed of
        Some x \<Rightarrow> Some x
      | None \<Rightarrow> first_stage vs ds incoming bound completed)"

text \<open>Every turn of the loop that goes on binds a variable of the order, so one turn more than there are
  variables is enough.\<close>

primrec plan_loop ::
  "nat \<Rightarrow> descriptor list \<Rightarrow> variable list option \<Rightarrow> variable list \<Rightarrow> variable list \<Rightarrow> participant_ref set \<Rightarrow> logical_stage list \<Rightarrow>
     logical_stage list result" where
  "plan_loop 0 ds incoming order bound completed stages = Error OutOfFuel"
| "plan_loop (Suc n) ds incoming order bound completed stages =
     (let (completed, stages) = add_validation_stage ds incoming bound (completed, stages);
          remaining = filter (\<lambda>v. v \<notin> set bound) order
      in if remaining = [] then
           (if card completed = length ds + (if incoming = None then 0 else 1) then Ok stages
            else Error (Err ''Unable to place query participants''))
         else case first_stage remaining ds incoming bound completed of
             None \<Rightarrow> Error (Err ''Insufficient binding to ground variable'')
           | Some (stage, newly_completed) \<Rightarrow>
               plan_loop n ds incoming order (ls_target stage) (completed \<union> set newly_completed) (stages @ [stage]))"

definition plan_stages ::
  "descriptor list \<Rightarrow> variable list \<Rightarrow> variable list option \<Rightarrow> logical_stage list result" where
  "plan_stages ds variable_order incoming =
     (let relevant = set (all_variables ds);
          order = filter (\<lambda>v. v \<in> relevant) variable_order
      in rbind (ensure (length order = card relevant) ''Scope contains variables missing from the global variable order'') (\<lambda>_.
         let incoming = map_option (filter (\<lambda>v. v \<in> relevant)) incoming
         in plan_loop (Suc (length order)) ds incoming order [] {} []))"

section \<open>Logical plans\<close>

datatype logical_plan =
    LogicalPlan (lp_incoming: "variable list option") (lp_descriptors: "logical_descriptor list") (lp_stages: "logical_stage list")
and logical_descriptor = LogicalDescriptor (ld_id: pattern_id) (ld_variables: "variable list") (ld_kind: logical_kind)
and logical_kind =
    LTriple pattern
  | LRelation "data_type list list"
  | LPredicate expr
  | LFunction expr "variable list" variable
  | LOr "logical_plan list"
  | LNot logical_plan

text \<open>The layout that a descriptor finds at the first stage it takes part in.\<close>

primrec input_layout :: "variable list \<Rightarrow> logical_stage list \<Rightarrow> pattern_id \<Rightarrow> variable list option" where
  "input_layout previous [] i = None"
| "input_layout previous (st # sts) i =
     (if PPattern i \<in> set (ls_participants st)
      then Some (if PPattern i \<in> set (ls_proposers st) then previous else ls_target st)
      else input_layout (ls_target st) sts i)"

definition descriptor_input_layout :: "logical_stage list \<Rightarrow> descriptor \<Rightarrow> variable list option result" where
  "descriptor_input_layout stages d =
     (case de_kind d of
        KOr _ \<Rightarrow> rbind (ok_or (input_layout [] stages (de_id d)) ''Descriptor is not placed in any logical stage'')
          (\<lambda>layout. Ok (Some (filter (\<lambda>v. v \<in> set (de_variables d)) layout)))
      | KNot _ \<Rightarrow> rbind (ok_or (input_layout [] stages (de_id d)) ''Descriptor is not placed in any logical stage'')
          (\<lambda>layout. Ok (Some (filter (\<lambda>v. v \<in> set (de_variables d)) layout)))
      | _ \<Rightarrow> Ok None)"

lemma rmapM_cong [fundef_cong]: "xs = ys \<Longrightarrow> (\<And>x. x \<in> set ys \<Longrightarrow> f x = g x) \<Longrightarrow> rmapM f xs = rmapM g ys"
  by (induction ys arbitrary: xs) auto

lemma member_size: "x \<in> set xs \<Longrightarrow> f x < size_list f xs"
  by (induction xs) auto

lemma nested_size: "x \<in> set xs \<Longrightarrow> size_list f x \<le> Suc (size_list (size_list f) xs)"
  using member_size [of x xs "size_list f"] by simp

function plan_descriptor :: "descriptor \<Rightarrow> variable list option \<Rightarrow> variable list \<Rightarrow> logical_descriptor result"
  and plan_scope :: "descriptor list \<Rightarrow> variable list \<Rightarrow> variable list option \<Rightarrow> logical_plan result" where
  "plan_descriptor (Descriptor i vs k) incoming order =
     (case k of
        KTriple p \<Rightarrow> Ok (LogicalDescriptor i vs (LTriple p))
      | KRelation rows \<Rightarrow> Ok (LogicalDescriptor i vs (LRelation rows))
      | KPredicate e \<Rightarrow> Ok (LogicalDescriptor i vs (LPredicate e))
      | KFunction e inputs output \<Rightarrow> Ok (LogicalDescriptor i vs (LFunction e inputs output))
      | KOr branches \<Rightarrow>
          (case incoming of
             None \<Rightarrow> Error (Panic ''OR has an incoming layout'')
           | Some layout \<Rightarrow>
               rbind (rmapM (\<lambda>branch. plan_scope branch order (Some layout)) branches) (\<lambda>plans.
               Ok (LogicalDescriptor i vs (LOr plans))))
      | KNot inner \<Rightarrow>
          (case incoming of
             None \<Rightarrow> Error (Panic ''NOT has an incoming layout'')
           | Some layout \<Rightarrow>
               rbind (ensure (set layout = set vs) ''NOT incoming layout does not contain every correlated variable'') (\<lambda>_.
               rbind (plan_scope inner order (Some layout)) (\<lambda>plan.
               Ok (LogicalDescriptor i vs (LNot plan))))))"
| "plan_scope ds order incoming =
     (let incoming = map_option (filter (\<lambda>v. v \<in> set (all_variables ds))) incoming in
      rbind (plan_stages ds order incoming) (\<lambda>stages.
      rbind (rmapM (\<lambda>d. rbind (descriptor_input_layout stages d) (\<lambda>layout. plan_descriptor d layout order)) ds) (\<lambda>planned.
      Ok (LogicalPlan incoming planned stages))))"
  by pat_completeness auto
termination
  by (relation "measure (\<lambda>x. case x of Inl (d, _, _) \<Rightarrow> size d | Inr (ds, _, _) \<Rightarrow> size_list size ds)")
    (auto simp: less_Suc_eq_le intro: nested_size member_size)

definition output_variables :: "logical_plan \<Rightarrow> variable list" where
  "output_variables plan =
     (if lp_stages plan \<noteq> [] then ls_target (last (lp_stages plan))
      else case lp_incoming plan of Some vs \<Rightarrow> vs | None \<Rightarrow> [])"

end
