(* ===== verification/Plan_Stages.thy ===== *)
theory Plan_Stages
  imports Query_Plan
begin

text \<open>
  What the stages of a plan guarantee: every stage extends the layout of the one before it, calls its
  participants only in situations they support, lets several patterns propose only when each of them can
  count, and at the end every participant has seen all its variables bound.
\<close>

section \<open>Participants\<close>

definition refs :: "descriptor list \<Rightarrow> variable list option \<Rightarrow> participant_ref set" where
  "refs ds incoming = (\<lambda>d. PPattern (de_id d)) ` set ds \<union> (if incoming = None then {} else {PIncoming})"

definition described :: "descriptor list \<Rightarrow> pattern_id \<Rightarrow> descriptor option" where
  "described ds i = find (\<lambda>d. de_id d = i) ds"

lemma described_eq: "distinct (map de_id ds) \<Longrightarrow> d \<in> set ds \<Longrightarrow> described ds (de_id d) = Some d"
  unfolding described_def
  by (induction ds) (auto simp: rev_image_eqI)

fun ref_variables :: "descriptor list \<Rightarrow> variable list option \<Rightarrow> participant_ref \<Rightarrow> variable set" where
  "ref_variables ds incoming PIncoming = (case incoming of None \<Rightarrow> {} | Some vs \<Rightarrow> set vs)"
| "ref_variables ds incoming (PPattern i) = (case described ds i of None \<Rightarrow> {} | Some d \<Rightarrow> set (de_variables d))"

text \<open>When a participant may be called, with the bound variables and the ones it is asked to add.\<close>

definition layout_can :: "variable list \<Rightarrow> variable set \<Rightarrow> variable list \<Rightarrow> bool" where
  "layout_can vs bound added \<longleftrightarrow>
     (\<exists>n \<le> length vs. (\<forall>v \<in> set (take n vs). v \<in> bound) \<and> (\<forall>v \<in> set (drop n vs). v \<notin> bound) \<and> prefix added (drop n vs))"

definition desc_can :: "descriptor \<Rightarrow> variable set \<Rightarrow> variable list \<Rightarrow> bool" where
  "desc_can d bound added \<longleftrightarrow>
     (let vars = set (de_variables d) in
      case de_kind d of
        KTriple p \<Rightarrow> (if added = [] then vars = {} \<or> vars \<inter> bound \<noteq> {} else \<exists>x \<in> vars. added = [x] \<and> x \<notin> bound)
      | KRelation rows \<Rightarrow> layout_can (de_variables d) bound added
      | KPredicate e \<Rightarrow> added = [] \<and> vars \<subseteq> bound
      | KFunction e inputs output \<Rightarrow> set inputs \<subseteq> bound \<and> (if added = [] then output \<in> bound else added = [output] \<and> output \<notin> bound)
      | KOr branches \<Rightarrow> (if added = [] then vars \<subseteq> bound else set added = vars - bound)
      | KNot inner \<Rightarrow> added = [] \<and> vars \<subseteq> bound)"

fun ref_can :: "descriptor list \<Rightarrow> variable list option \<Rightarrow> participant_ref \<Rightarrow> variable set \<Rightarrow> variable list \<Rightarrow> bool" where
  "ref_can ds incoming PIncoming bound added \<longleftrightarrow> (case incoming of None \<Rightarrow> False | Some vs \<Rightarrow> layout_can vs bound added)"
| "ref_can ds incoming (PPattern i) bound added \<longleftrightarrow> (case described ds i of None \<Rightarrow> False | Some d \<Rightarrow> desc_can d bound added)"

definition desc_counts :: "descriptor \<Rightarrow> bool" where
  "desc_counts d \<longleftrightarrow> (case de_kind d of KTriple _ \<Rightarrow> True | KRelation _ \<Rightarrow> True | KFunction _ _ _ \<Rightarrow> True | _ \<Rightarrow> False)"

fun ref_counts :: "descriptor list \<Rightarrow> participant_ref \<Rightarrow> bool" where
  "ref_counts ds PIncoming \<longleftrightarrow> True"
| "ref_counts ds (PPattern i) \<longleftrightarrow> (case described ds i of None \<Rightarrow> False | Some d \<Rightarrow> desc_counts d)"

text \<open>The variables of a descriptor are distinct, and those of a function are its inputs and its output.\<close>

definition desc_shape :: "descriptor \<Rightarrow> bool" where
  "desc_shape d \<longleftrightarrow> distinct (de_variables d) \<and>
     (case de_kind d of KFunction e inputs output \<Rightarrow> set (de_variables d) = insert output (set inputs) | _ \<Rightarrow> True)"

definition scope_shape :: "descriptor list \<Rightarrow> variable list option \<Rightarrow> bool" where
  "scope_shape ds incoming \<longleftrightarrow> distinct (map de_id ds) \<and> (\<forall>d \<in> set ds. desc_shape d) \<and>
     (\<forall>vs. incoming = Some vs \<longrightarrow> distinct vs \<and> set vs \<subseteq> set (all_variables ds))"

section \<open>What descriptors ground\<close>

lemma prefix_len_can:
  assumes "relation_bound_prefix_len vs bound = Some n"
  shows "n = length (takeWhile (\<lambda>v. v \<in> bound) vs)" "n \<le> length vs" "\<forall>v \<in> set (take n vs). v \<in> bound"
    "\<forall>v \<in> set (drop n vs). v \<notin> bound"
proof -
  define m where "m = length (takeWhile (\<lambda>v. v \<in> bound) vs)"
  have "(if \<exists>v \<in> set (drop m vs). v \<in> bound then None else Some m) = Some n"
    using assms unfolding relation_bound_prefix_len_def Let_def m_def .
  then have "m = n" "\<forall>v \<in> set (drop m vs). v \<notin> bound" by (meson option.distinct(1) option.inject)+
  then show n: "n = length (takeWhile (\<lambda>v. v \<in> bound) vs)" and "\<forall>v \<in> set (drop n vs). v \<notin> bound"
    using m_def by blast+
  show "n \<le> length vs" unfolding n by (rule length_takeWhile_le)
  have "take n vs = takeWhile (\<lambda>v. v \<in> bound) vs" unfolding n by (metis takeWhile_eq_take)
  then show "\<forall>v \<in> set (take n vs). v \<in> bound" by (auto dest: set_takeWhileD)
qed

lemma layout_can_validate: "relation_bound_prefix_len vs bound \<noteq> None \<Longrightarrow> layout_can vs bound []"
  unfolding layout_can_def using prefix_len_can(2-4) [of vs bound] by (metis Nil_prefix option.exhaust)

lemma layout_can_bound: "set vs \<subseteq> bound \<Longrightarrow> layout_can vs bound []"
  unfolding layout_can_def by (rule exI [of _ "length vs"]) auto

lemma relation_groundable_can:
  assumes "v \<in> set (relation_groundable vs bound)"
  shows "v \<in> set vs" "v \<notin> bound" "layout_can vs bound [v]" "distinct vs \<Longrightarrow> layout_can vs (insert v bound) []"
proof -
  obtain n where n: "relation_bound_prefix_len vs bound = Some n" "n < length vs" "v = vs ! n"
    using assms unfolding relation_groundable_def
    by (cases "relation_bound_prefix_len vs bound") (simp_all split: if_split_asm)
  note len = prefix_len_can [OF n(1)]
  have drop: "drop n vs = v # drop (Suc n) vs" using n(2,3) by (simp add: Cons_nth_drop_Suc)
  show "v \<in> set vs" using n(2,3) by simp
  show "v \<notin> bound" using len(4) drop by simp
  show "layout_can vs bound [v]" unfolding layout_can_def using len(2-4) drop by (intro exI [of _ n]) simp
  assume d: "distinct vs"
  have take: "take (Suc n) vs = take n vs @ [v]" using n(2,3) by (simp add: take_Suc_conv_app_nth)
  have "distinct (drop n vs)" using d by (rule distinct_drop)
  then have "v \<notin> set (drop (Suc n) vs)" using drop by simp
  then have "\<forall>w \<in> set (drop (Suc n) vs). w \<notin> insert v bound" using len(4) drop by auto
  then show "layout_can vs (insert v bound) []"
    unfolding layout_can_def using n(2) len(3) take by (intro exI [of _ "Suc n"]) auto
qed

lemma groundable_or: "groundable (Descriptor i vs (KOr branches)) bound = [] \<or>
    groundable (Descriptor i vs (KOr branches)) bound = filter (\<lambda>v. v \<notin> bound) vs"
  by (simp add: Let_def)

lemma groundable_vars:
  assumes "desc_shape d" "v \<in> set (groundable d bound)"
  shows "v \<in> set (de_variables d)" "v \<notin> bound"
proof -
  obtain i vs k where d: "d = Descriptor i vs k" by (cases d)
  have "v \<in> set vs \<and> v \<notin> bound"
  proof (cases k)
    case (KOr branches)
    then show ?thesis using assms(2) groundable_or [of i vs branches bound] unfolding d by auto
  qed (use assms relation_groundable_can [of v vs bound] in \<open>auto simp: d desc_shape_def split: if_splits\<close>)
  then show "v \<in> set (de_variables d)" "v \<notin> bound" by (simp_all add: d)
qed

lemma groundable_can:
  assumes "desc_shape d" "\<not> is_or d" "v \<in> set (groundable d bound)"
  shows "desc_can d bound [v]" "desc_can d (insert v bound) []" "desc_counts d"
proof -
  obtain i vs k where d: "d = Descriptor i vs k" by (cases d)
  have "desc_can d bound [v] \<and> desc_can d (insert v bound) [] \<and> desc_counts d"
    using assms relation_groundable_can [of v vs bound]
    by (cases k) (auto simp: d desc_can_def desc_shape_def desc_counts_def split: if_splits)
  then show "desc_can d bound [v]" "desc_can d (insert v bound) []" "desc_counts d" by simp_all
qed

lemma bound_can:
  assumes "desc_shape d" "set (de_variables d) \<subseteq> bound"
  shows "desc_can d bound []"
proof -
  obtain i vs k where d: "d = Descriptor i vs k" by (cases d)
  show ?thesis
    using assms layout_can_bound [of vs bound] by (cases k) (auto simp: d desc_can_def desc_shape_def Int_absorb2)
qed

lemma or_can_propose:
  assumes "desc_shape d" "is_or d" "groundable d bound \<noteq> []"
  shows "desc_can d bound (groundable d bound)" "distinct (groundable d bound)"
    "set (groundable d bound) = set (de_variables d) - bound"
proof -
  obtain i vs branches where d: "d = Descriptor i vs (KOr branches)" using assms(2) by (cases d rule: is_or.cases) auto
  have g: "groundable d bound = filter (\<lambda>v. v \<notin> bound) vs"
    using assms(3) groundable_or [of i vs branches bound] unfolding d by auto
  show "set (groundable d bound) = set (de_variables d) - bound" unfolding g by (auto simp: d)
  then show "desc_can d bound (groundable d bound)" using assms(3) by (simp add: desc_can_def d)
  show "distinct (groundable d bound)" unfolding g using assms(1) by (simp add: d desc_shape_def)
qed

lemma validator_can_validate:
  assumes "desc_shape d" "\<not> is_or d" "validator_can d bound added (bound \<union> set added)"
  shows "desc_can d (bound \<union> set added) []"
proof -
  obtain i vs k where d: "d = Descriptor i vs k" by (cases d)
  show ?thesis
  proof (cases k)
    case (KRelation rows)
    then show ?thesis using assms(3) layout_can_validate
      by (auto simp: d desc_can_def validator_can_def relation_can_validate_grouped_or_addition_def)
  qed (use assms in \<open>auto simp: d desc_can_def desc_shape_def validator_can_def can_validate_grouped_or_addition_def split: if_splits\<close>)
qed

section \<open>Stages that are ready\<close>

definition lstage_ready :: "descriptor list \<Rightarrow> variable list option \<Rightarrow> variable list \<Rightarrow> logical_stage \<Rightarrow> bool" where
  "lstage_ready ds incoming bound st \<longleftrightarrow>
     ls_target st = bound @ ls_added st \<and> distinct (ls_target st) \<and>
     ls_participants st \<noteq> [] \<and> distinct (ls_participants st) \<and> set (ls_participants st) \<subseteq> refs ds incoming \<and>
     distinct (ls_proposers st) \<and> set (ls_proposers st) \<subseteq> set (ls_participants st) \<and>
     (ls_added st = [] \<longleftrightarrow> ls_proposers st = []) \<and>
     (\<forall>p \<in> set (ls_proposers st). ref_can ds incoming p (set bound) (ls_added st)) \<and>
     (\<forall>p \<in> set (ls_participants st). ls_proposers st \<noteq> [p] \<longrightarrow> ref_can ds incoming p (set (ls_target st)) []) \<and>
     (1 < length (ls_proposers st) \<longrightarrow> (\<forall>p \<in> set (ls_proposers st). ref_counts ds p))"

primrec lplan_ready :: "descriptor list \<Rightarrow> variable list option \<Rightarrow> variable list \<Rightarrow> logical_stage list \<Rightarrow> bool" where
  "lplan_ready ds incoming bound [] \<longleftrightarrow> True"
| "lplan_ready ds incoming bound (st # sts) \<longleftrightarrow> lstage_ready ds incoming bound st \<and> lplan_ready ds incoming (ls_target st) sts"

primrec lfinal :: "variable list \<Rightarrow> logical_stage list \<Rightarrow> variable list" where
  "lfinal bound [] = bound"
| "lfinal bound (st # sts) = lfinal (ls_target st) sts"

definition lcompleted :: "descriptor list \<Rightarrow> variable list option \<Rightarrow> logical_stage list \<Rightarrow> participant_ref set" where
  "lcompleted ds incoming sts =
     {p. \<exists>st \<in> set sts. p \<in> set (ls_participants st) \<and> ref_variables ds incoming p \<subseteq> set (ls_target st)}"

lemma lfinal_append: "lfinal bound (xs @ ys) = lfinal (lfinal bound xs) ys"
  by (induction xs arbitrary: bound) simp_all

lemma lplan_ready_append:
  "lplan_ready ds incoming bound (xs @ ys) \<longleftrightarrow> lplan_ready ds incoming bound xs \<and> lplan_ready ds incoming (lfinal bound xs) ys"
  by (induction xs arbitrary: bound) auto

lemma lcompleted_append: "lcompleted ds incoming (xs @ ys) = lcompleted ds incoming xs \<union> lcompleted ds incoming ys"
  by (auto simp: lcompleted_def)

lemma lcompleted_refs: "lplan_ready ds incoming bound sts \<Longrightarrow> lcompleted ds incoming sts \<subseteq> refs ds incoming"
  by (induction sts arbitrary: bound) (auto simp: lcompleted_def lstage_ready_def)

section \<open>Every turn of the planner\<close>

lemma selected_iff:
  "p \<in> set (select_participants ds incoming P Q) \<longleftrightarrow>
     (p = PIncoming \<and> (\<exists>vs. incoming = Some vs \<and> P vs)) \<or> (\<exists>d \<in> set ds. p = PPattern (de_id d) \<and> Q d)"
  by (auto simp: select_participants_def split: option.splits)

lemma selected_distinct:
  assumes "distinct (map de_id ds)" shows "distinct (select_participants ds incoming P Q)"
proof -
  have "distinct (map (\<lambda>d. PPattern (de_id d)) (filter Q ds))"
    using assms by (auto simp: distinct_map inj_on_def)
  then show ?thesis by (auto simp: select_participants_def split: option.split)
qed

lemma selected_refs: "set (select_participants ds incoming P Q) \<subseteq> refs ds incoming"
  by (auto simp: selected_iff refs_def)

text \<open>A fact about a participant follows from the facts for the incoming layout and for descriptors.\<close>

lemma selected_all:
  assumes "p \<in> set (select_participants ds incoming P Q)"
    and "\<And>vs. incoming = Some vs \<Longrightarrow> P vs \<Longrightarrow> R PIncoming"
    and "\<And>d. d \<in> set ds \<Longrightarrow> Q d \<Longrightarrow> R (PPattern (de_id d))"
  shows "R p"
  using assms(1) unfolding selected_iff by (auto intro: assms(2,3))

lemma shape_described: "scope_shape ds incoming \<Longrightarrow> d \<in> set ds \<Longrightarrow> described ds (de_id d) = Some d \<and> desc_shape d"
  by (simp add: scope_shape_def described_eq)

definition plan_inv ::
  "descriptor list \<Rightarrow> variable list option \<Rightarrow> variable list \<Rightarrow> participant_ref set \<Rightarrow> logical_stage list \<Rightarrow> bool" where
  "plan_inv ds incoming bound completed stages \<longleftrightarrow>
     lplan_ready ds incoming [] stages \<and> lfinal [] stages = bound \<and> distinct bound \<and>
     set bound \<subseteq> set (all_variables ds) \<and> completed \<subseteq> lcompleted ds incoming stages"

lemma plan_inv_snoc:
  assumes "plan_inv ds incoming bound completed stages" "lstage_ready ds incoming bound st"
    and "set (ls_added st) \<subseteq> set (all_variables ds)"
    and "\<And>p. p \<in> new \<Longrightarrow> p \<in> set (ls_participants st) \<and> ref_variables ds incoming p \<subseteq> set (ls_target st)"
  shows "plan_inv ds incoming (ls_target st) (completed \<union> new) (stages @ [st])"
  using assms
  by (auto simp: plan_inv_def lplan_ready_append lfinal_append lcompleted_append lstage_ready_def)
    (auto simp: lcompleted_def)

lemma validation_inv:
  assumes shape: "scope_shape ds incoming" and inv: "plan_inv ds incoming bound completed stages"
    and result: "add_validation_stage ds incoming bound (completed, stages) = (completed', stages')"
  shows "plan_inv ds incoming bound completed' stages'"
proof -
  define ps where "ps = select_participants ds incoming
     (\<lambda>vs. PIncoming \<notin> completed \<and> fully_bound vs (set bound))
     (\<lambda>d. PPattern (de_id d) \<notin> completed \<and> fully_bound (de_variables d) (set bound))"
  define st where "st = \<lparr>ls_added = [], ls_proposers = [], ls_participants = ps, ls_target = bound\<rparr>"
  have eq: "(completed', stages') = (if ps = [] then (completed, stages) else (completed \<union> set ps, stages @ [st]))"
    using result unfolding add_validation_stage_def Let_def prod.case ps_def [symmetric] st_def [symmetric] by simp
  have each: "ref_can ds incoming p (set bound) [] \<and> ref_variables ds incoming p \<subseteq> set bound" if "p \<in> set ps" for p
    using that [unfolded ps_def]
  proof (rule selected_all)
    fix d assume "d \<in> set ds" "PPattern (de_id d) \<notin> completed \<and> fully_bound (de_variables d) (set bound)"
    then show "ref_can ds incoming (PPattern (de_id d)) (set bound) [] \<and> ref_variables ds incoming (PPattern (de_id d)) \<subseteq> set bound"
      using shape_described [OF shape] bound_can by (simp add: fully_bound_def subset_iff)
  qed (auto simp: fully_bound_def intro: layout_can_bound)
  show ?thesis
  proof (cases "ps = []")
    case False
    have "lstage_ready ds incoming bound st"
      using inv False each shape selected_refs [of ds incoming] selected_distinct [of ds incoming]
      by (auto simp: lstage_ready_def st_def plan_inv_def scope_shape_def ps_def)
    from plan_inv_snoc [OF inv this, of "set ps"] show ?thesis
      using eq False each by (simp add: st_def)
  qed (use eq inv in simp)
qed

lemma single_inv:
  assumes shape: "scope_shape ds incoming" and inv: "plan_inv ds incoming bound completed stages"
    and props: "props = select_participants ds incoming
            (\<lambda>vs. PIncoming \<notin> completed \<and> v \<in> set (relation_groundable vs (set bound)))
            (\<lambda>d. PPattern (de_id d) \<notin> completed \<and> \<not> is_or d \<and> v \<in> set (groundable d (set bound)))" "props \<noteq> []"
    and result: "single_stage v props ds incoming bound completed = (st, new)"
  shows "plan_inv ds incoming (ls_target st) (completed \<union> set new) (stages @ [st])"
proof -
  let ?T = "insert v (set bound)"
  define ps where "ps = select_participants ds incoming
     (\<lambda>vs. PIncoming \<notin> completed \<and> (PIncoming \<in> set props \<or> fully_bound vs ?T))
     (\<lambda>d. PPattern (de_id d) \<notin> completed \<and> (PPattern (de_id d) \<in> set props \<or> fully_bound (de_variables d) ?T))"
  have st: "st = \<lparr>ls_added = [v], ls_proposers = props, ls_participants = ps, ls_target = bound @ [v]\<rparr>"
    and new: "set new \<subseteq> {p \<in> set ps. ref_variables ds incoming p \<subseteq> ?T}"
    using result by (auto simp: single_stage_def ps_def Let_def fully_bound_def described_def split: option.splits participant_ref.splits)
  have proposing: "v \<notin> set bound \<and> v \<in> set (all_variables ds) \<and> ref_can ds incoming p (set bound) [v] \<and> ref_can ds incoming p ?T [] \<and>
      ref_counts ds p \<and> p \<in> set ps" if "p \<in> set props" for p
  proof -
    have "v \<notin> set bound \<and> v \<in> set (all_variables ds) \<and> ref_can ds incoming p (set bound) [v] \<and> ref_can ds incoming p ?T [] \<and> ref_counts ds p"
      using that [unfolded props(1)]
    proof (rule selected_all)
      fix d assume d: "d \<in> set ds" "PPattern (de_id d) \<notin> completed \<and> \<not> is_or d \<and> v \<in> set (groundable d (set bound))"
      then show "v \<notin> set bound \<and> v \<in> set (all_variables ds) \<and> ref_can ds incoming (PPattern (de_id d)) (set bound) [v] \<and>
          ref_can ds incoming (PPattern (de_id d)) ?T [] \<and> ref_counts ds (PPattern (de_id d))"
        using shape_described [OF shape d(1)] groundable_vars [of d v "set bound"] groundable_can [of d v "set bound"]
        by (auto simp: all_variables_def)
    next
      fix vs assume vs: "incoming = Some vs" "PIncoming \<notin> completed \<and> v \<in> set (relation_groundable vs (set bound))"
      then show "v \<notin> set bound \<and> v \<in> set (all_variables ds) \<and> ref_can ds incoming PIncoming (set bound) [v] \<and>
          ref_can ds incoming PIncoming ?T [] \<and> ref_counts ds PIncoming"
        using shape relation_groundable_can [of v vs "set bound"] by (auto simp: scope_shape_def)
    qed
    moreover have "p \<in> set ps"
      using that unfolding ps_def props(1) selected_iff by auto
    ultimately show ?thesis by blast
  qed
  obtain q where "q \<in> set props" using props(2) by (cases props) auto
  then have v: "v \<notin> set bound" "v \<in> set (all_variables ds)" and ne: "ps \<noteq> []" using proposing by auto
  have each: "ref_can ds incoming p ?T []" if "p \<in> set ps" for p
  proof (cases "p \<in> set props")
    case False
    have "p \<notin> set props \<longrightarrow> ref_can ds incoming p ?T []"
      using that [unfolded ps_def]
    proof (rule selected_all [where R = "\<lambda>p. p \<notin> set props \<longrightarrow> ref_can ds incoming p ?T []"])
      fix d assume d: "d \<in> set ds" "PPattern (de_id d) \<notin> completed \<and> (PPattern (de_id d) \<in> set props \<or> fully_bound (de_variables d) ?T)"
      show "PPattern (de_id d) \<notin> set props \<longrightarrow> ref_can ds incoming (PPattern (de_id d)) ?T []"
      proof
        assume "PPattern (de_id d) \<notin> set props"
        then have "set (de_variables d) \<subseteq> ?T" using d(2) by (simp add: fully_bound_def subset_iff)
        then show "ref_can ds incoming (PPattern (de_id d)) ?T []" using shape_described [OF shape d(1)] bound_can by simp
      qed
    qed (auto simp: fully_bound_def intro: layout_can_bound)
    then show ?thesis using False by simp
  qed (use proposing in blast)
  have "lstage_ready ds incoming bound st"
    using inv v ne proposing each shape selected_refs [of ds incoming] selected_distinct [of ds incoming] props
    by (auto simp: lstage_ready_def st plan_inv_def scope_shape_def ps_def)
  then show ?thesis
    by (rule plan_inv_snoc [OF inv]) (use v(2) new in \<open>auto simp: st\<close>)
qed

lemma grouped_inv:
  assumes shape: "scope_shape ds incoming" and inv: "plan_inv ds incoming bound completed stages"
    and d: "d \<in> set ds" "is_or d" "groundable d (set bound) \<noteq> []"
    and result: "grouped_stage d ds incoming bound completed = (st, new)"
  shows "plan_inv ds incoming (ls_target st) (completed \<union> set new) (stages @ [st])"
proof -
  let ?A = "groundable d (set bound)"
  let ?T = "set bound \<union> set ?A"
  define vals where "vals = select_participants ds incoming
     (\<lambda>vs. PIncoming \<notin> completed \<and> relation_can_validate_grouped_or_addition vs (set bound) ?A ?T)
     (\<lambda>d'. \<not> (PPattern (de_id d') \<in> completed \<or> is_or d') \<and> validator_can d' (set bound) ?A ?T)"
  define compl where "compl = select_participants ds incoming
     (\<lambda>vs. PIncoming \<notin> completed \<and> relation_can_validate_grouped_or_addition vs (set bound) ?A ?T \<and> fully_bound vs ?T)
     (\<lambda>d'. \<not> (PPattern (de_id d') \<in> completed \<or> is_or d') \<and> validator_can d' (set bound) ?A ?T \<and> fully_bound (de_variables d') ?T)"
  have st: "st = \<lparr>ls_added = ?A, ls_proposers = [PPattern (de_id d)], ls_participants = PPattern (de_id d) # vals, ls_target = bound @ ?A\<rparr>"
    and new: "new = PPattern (de_id d) # compl"
    using result by (simp_all add: grouped_stage_def vals_def compl_def Let_def)
  have dd: "described ds (de_id d) = Some d" "desc_shape d" using shape_described [OF shape d(1)] by auto
  note ground = or_can_propose [OF dd(2) d(2,3)]
  have vars: "set (de_variables d) \<subseteq> ?T" "set ?A \<inter> set bound = {}" "set ?A \<subseteq> set (all_variables ds)"
    using ground(3) d(1) by (auto simp: all_variables_def)
  have each: "ref_can ds incoming p ?T [] \<and> p \<noteq> PPattern (de_id d)" if "p \<in> set vals" for p
    using that [unfolded vals_def]
  proof (rule selected_all)
    fix d' assume d': "d' \<in> set ds" "\<not> (PPattern (de_id d') \<in> completed \<or> is_or d') \<and> validator_can d' (set bound) ?A ?T"
    then have "de_id d' \<noteq> de_id d" using shape_described [OF shape d'(1)] dd(1) d(2) by auto
    then show "ref_can ds incoming (PPattern (de_id d')) ?T [] \<and> PPattern (de_id d') \<noteq> PPattern (de_id d)"
      using shape_described [OF shape d'(1)] validator_can_validate [of d' "set bound" ?A] d'(2) by simp
  qed (auto simp: relation_can_validate_grouped_or_addition_def intro: layout_can_validate)
  have "lstage_ready ds incoming bound st"
    using inv ground(1,2) d(3) vars(2) each shape selected_refs [of ds incoming] selected_distinct [of ds incoming] dd(1) d(1)
    by (auto simp: lstage_ready_def st plan_inv_def scope_shape_def vals_def refs_def)
  then show ?thesis
  proof (rule plan_inv_snoc [OF inv])
    fix p assume p: "p \<in> set new"
    show "p \<in> set (ls_participants st) \<and> ref_variables ds incoming p \<subseteq> set (ls_target st)"
    proof (cases "p = PPattern (de_id d)")
      case False
      then have "p \<in> set compl" using p new by simp
      then show ?thesis unfolding compl_def
      proof (rule selected_all)
        fix d' assume d': "d' \<in> set ds" "\<not> (PPattern (de_id d') \<in> completed \<or> is_or d') \<and> validator_can d' (set bound) ?A ?T \<and>
            fully_bound (de_variables d') ?T"
        then have "PPattern (de_id d') \<in> set vals" unfolding vals_def selected_iff by auto
        then show "PPattern (de_id d') \<in> set (ls_participants st) \<and> ref_variables ds incoming (PPattern (de_id d')) \<subseteq> set (ls_target st)"
          using shape_described [OF shape d'(1)] d'(2) by (auto simp: st fully_bound_def)
      qed (auto simp: st vals_def selected_iff fully_bound_def)
    qed (use dd(1) vars(1) in \<open>simp add: st\<close>)
  qed (use vars(3) in \<open>simp add: st\<close>)
qed

lemma proposing_inv:
  assumes shape: "scope_shape ds incoming" and inv: "plan_inv ds incoming bound completed stages"
    and result: "proposing_stage_for v ds incoming bound completed = Some (st, new)"
  shows "plan_inv ds incoming (ls_target st) (completed \<union> set new) (stages @ [st])"
proof -
  define props where "props = select_participants ds incoming
     (\<lambda>vs. PIncoming \<notin> completed \<and> v \<in> set (relation_groundable vs (set bound)))
     (\<lambda>d. PPattern (de_id d) \<notin> completed \<and> \<not> is_or d \<and> v \<in> set (groundable d (set bound)))"
  let ?F = "find (\<lambda>d. PPattern (de_id d) \<notin> completed \<and> is_or d \<and> v \<in> set (groundable d (set bound))) ds"
  have eq: "(if props \<noteq> [] then Some (single_stage v props ds incoming bound completed)
      else case ?F of None \<Rightarrow> None | Some d \<Rightarrow> Some (grouped_stage d ds incoming bound completed)) = Some (st, new)"
    using result unfolding proposing_stage_for_def Let_def props_def .
  show ?thesis
  proof (cases "props = []")
    case True
    then obtain d where d: "?F = Some d" "grouped_stage d ds incoming bound completed = (st, new)"
      using eq by (cases ?F) auto
    then have "d \<in> set ds" "is_or d" "v \<in> set (groundable d (set bound))" by (auto simp: find_Some_iff)
    then show ?thesis using grouped_inv [OF shape inv _ _ _ d(2)] by fastforce
  next
    case False
    then show ?thesis using eq by (intro single_inv [OF shape inv props_def]) simp_all
  qed
qed

lemma first_stage_proposing:
  "first_stage vs ds incoming bound completed = Some x \<Longrightarrow> \<exists>v \<in> set vs. proposing_stage_for v ds incoming bound completed = Some x"
  by (induction vs) (auto split: option.splits)

lemma plan_loop_inv:
  assumes "scope_shape ds incoming" "plan_inv ds incoming bound completed stages"
    and "plan_loop n ds incoming order bound completed stages = Ok sts"
  shows "\<exists>bound completed. plan_inv ds incoming bound completed sts \<and> set order \<subseteq> set bound \<and>
    card completed = length ds + (if incoming = None then 0 else 1)"
  using assms(2,3)
proof (induction n arbitrary: bound completed stages)
  case (Suc n)
  obtain completed' stages' where v: "add_validation_stage ds incoming bound (completed, stages) = (completed', stages')"
    by (cases "add_validation_stage ds incoming bound (completed, stages)")
  have inv: "plan_inv ds incoming bound completed' stages'" by (rule validation_inv [OF assms(1) Suc.prems(1) v])
  let ?R = "filter (\<lambda>v. v \<notin> set bound) order"
  have loop: "(if ?R = [] then
           (if card completed' = length ds + (if incoming = None then 0 else 1) then Ok stages'
            else Error (Err ''Unable to place query participants''))
         else case first_stage ?R ds incoming bound completed' of
             None \<Rightarrow> Error (Err ''Insufficient binding to ground variable'')
           | Some (stage, newly_completed) \<Rightarrow>
               plan_loop n ds incoming order (ls_target stage) (completed' \<union> set newly_completed) (stages' @ [stage])) = Ok sts"
    using Suc.prems(2) by (simp add: v Let_def)
  show ?case
  proof (cases "?R = []")
    case True
    then have "sts = stages'" "card completed' = length ds + (if incoming = None then 0 else 1)" "set order \<subseteq> set bound"
      using loop by (auto simp: filter_empty_conv split: if_splits)
    then show ?thesis using inv by blast
  next
    case False
    then obtain st new where st: "first_stage ?R ds incoming bound completed' = Some (st, new)"
      "plan_loop n ds incoming order (ls_target st) (completed' \<union> set new) (stages' @ [st]) = Ok sts"
      using loop by (auto split: option.splits)
    from first_stage_proposing [OF st(1)] obtain v where "proposing_stage_for v ds incoming bound completed' = Some (st, new)" by blast
    from Suc.IH [OF proposing_inv [OF assms(1) inv this] st(2)] show ?thesis .
  qed
qed simp

lemma card_refs:
  assumes "distinct (map de_id ds)"
  shows "card (refs ds incoming) = length ds + (if incoming = None then 0 else 1)"
proof -
  have "card ((\<lambda>d. PPattern (de_id d)) ` set ds) = card (PPattern ` set (map de_id ds))" by (simp add: image_image)
  also have "\<dots> = length ds"
    using distinct_card [OF assms] by (subst card_image) (auto simp: inj_on_def)
  finally have n: "card ((\<lambda>d. PPattern (de_id d)) ` set ds) = length ds" .
  have "PIncoming \<notin> (\<lambda>d. PPattern (de_id d)) ` set ds" by auto
  then show ?thesis using n by (simp add: refs_def)
qed

text \<open>The stages of a plan are ready, bind the variables of the scope, and complete every participant.\<close>

lemma plan_stages_ready:
  assumes shape: "scope_shape ds incoming" and order: "distinct order" and plan: "plan_stages ds order incoming = Ok sts"
  shows "lplan_ready ds incoming [] sts" "set (lfinal [] sts) = set (all_variables ds)" "lcompleted ds incoming sts = refs ds incoming"
proof -
  let ?V = "set (all_variables ds)"
  let ?order = "filter (\<lambda>v. v \<in> ?V) order"
  have same: "map_option (filter (\<lambda>v. v \<in> ?V)) incoming = incoming"
    using shape by (cases incoming) (auto simp: scope_shape_def filter_id_conv)
  have len: "length ?order = card ?V"
    and loop: "plan_loop (Suc (length ?order)) ds incoming ?order [] {} [] = Ok sts"
    using plan unfolding plan_stages_def Let_def same rbind_eq_Ok ensure_eq_Ok by (blast, blast)
  have "plan_inv ds incoming [] {} []" by (simp add: plan_inv_def)
  from plan_loop_inv [OF shape this loop] obtain bound completed where
    inv: "plan_inv ds incoming bound completed sts" "set ?order \<subseteq> set bound"
    "card completed = length ds + (if incoming = None then 0 else 1)" by blast
  show ready: "lplan_ready ds incoming [] sts" using inv(1) by (simp add: plan_inv_def)
  have bound: "lfinal [] sts = bound" "distinct bound" "set bound \<subseteq> ?V" using inv(1) by (auto simp: plan_inv_def)
  have "set ?order = ?V"
  proof (rule card_subset_eq)
    show "card (set ?order) = card ?V" using order len distinct_card [of ?order] by simp
  qed auto
  then show "set (lfinal [] sts) = ?V" using bound inv(2) by auto
  have "card (refs ds incoming) = length ds + (if incoming = None then 0 else 1)"
    by (rule card_refs) (use shape in \<open>simp add: scope_shape_def\<close>)
  moreover have "completed \<subseteq> lcompleted ds incoming sts" using inv(1) by (simp add: plan_inv_def)
  moreover have "lcompleted ds incoming sts \<subseteq> refs ds incoming" by (rule lcompleted_refs [OF ready])
  moreover have "finite (refs ds incoming)" by (simp add: refs_def)
  ultimately show "lcompleted ds incoming sts = refs ds incoming"
    using inv(3) card_subset_eq [of "refs ds incoming" completed] by auto
qed

section \<open>The layouts of nested scopes\<close>

text \<open>The layout recorded for a pattern is bound whenever the pattern is called.\<close>

lemma input_layout_bound:
  assumes "lplan_ready ds incoming prev sts" "input_layout prev sts i = Some layout"
  shows "distinct prev \<Longrightarrow> distinct layout"
    and "set prev \<subseteq> set layout"
proof -
  show "distinct layout" if "distinct prev"
    using assms that
  proof (induction sts arbitrary: prev)
    case (Cons st sts)
    then show ?case by (auto simp: lstage_ready_def split: if_splits)
  qed simp
  show "set prev \<subseteq> set layout"
    using assms
  proof (induction sts arbitrary: prev)
    case (Cons st sts)
    have "set prev \<subseteq> set (ls_target st)" using Cons.prems(1) by (simp add: lstage_ready_def)
    then show ?case using Cons.prems Cons.IH [of "ls_target st"] by (auto split: if_splits)
  qed simp
qed

text \<open>\<open>called prev sts p bound\<close>: the participant is called in one of the stages with these variables bound.\<close>

primrec called :: "variable list \<Rightarrow> logical_stage list \<Rightarrow> participant_ref \<Rightarrow> variable set \<Rightarrow> bool" where
  "called prev [] p bound \<longleftrightarrow> False"
| "called prev (st # sts) p bound \<longleftrightarrow>
     p \<in> set (ls_participants st) \<and> (p \<in> set (ls_proposers st) \<and> bound = set prev \<or> bound = set (ls_target st)) \<or>
     called (ls_target st) sts p bound"

lemma called_grows:
  assumes "lplan_ready ds incoming prev sts" "called prev sts p bound" shows "set prev \<subseteq> bound"
  using assms
proof (induction sts arbitrary: prev)
  case (Cons st sts)
  have "set prev \<subseteq> set (ls_target st)" using Cons.prems(1) by (simp add: lstage_ready_def)
  then show ?case using Cons.prems Cons.IH [of "ls_target st"] by auto
qed simp

lemma called_layout:
  assumes "lplan_ready ds incoming prev sts" "called prev sts (PPattern i) bound"
  shows "\<exists>layout. input_layout prev sts i = Some layout \<and> set layout \<subseteq> bound"
  using assms
proof (induction sts arbitrary: prev)
  case (Cons st sts)
  have sub: "set prev \<subseteq> set (ls_target st)" using Cons.prems(1) by (simp add: lstage_ready_def)
  have rest: "lplan_ready ds incoming (ls_target st) sts" using Cons.prems(1) by simp
  show ?case
  proof (cases "PPattern i \<in> set (ls_participants st)")
    case True
    then show ?thesis using Cons.prems(2) sub called_grows [OF rest, of "PPattern i" bound] by auto
  next
    case False
    then show ?thesis using Cons.prems(2) Cons.IH [OF rest] by simp
  qed
qed simp

end
