(* ===== verification/Query_Exec.thy ===== *)
theory Query_Exec
  imports Query_Plan
begin

text \<open>
  From a plan to its execution: \<^verbatim>\<open>materialize\<close> of \<^verbatim>\<open>src/query/plan.rs\<close>, and the patterns
  \<^verbatim>\<open>src/query/patterns/or.rs\<close> and \<^verbatim>\<open>src/query/patterns/not.rs\<close>, which project their input to the
  variables that their nested plans know, run these plans over it, and join the input with the union of
  the results, or keep the rows that match none of them.
\<close>

section \<open>Stages\<close>

definition seen_proposer :: "participant_ref list \<Rightarrow> participant_ref set \<Rightarrow> participant_ref \<Rightarrow> participant_ref set result" where
  "seen_proposer participants seen p =
     rbind (ensure (p \<notin> seen) ''Logical stage contains duplicate proposer'') (\<lambda>_.
     rbind (ensure (p \<in> set participants) ''Logical stage proposer is not a participant'') (\<lambda>_.
     Ok (insert p seen)))"

definition proposer_positions :: "logical_stage \<Rightarrow> nat list result" where
  "proposer_positions st =
     rbind (rfold (seen_proposer (ls_participants st)) {} (ls_proposers st)) (\<lambda>props.
     Ok (map fst (filter (\<lambda>(i, p). p \<in> props) (enumerate 0 (ls_participants st)))))"

definition stage_materialize ::
  "logical_stage \<Rightarrow> (pattern_id \<rightharpoonup> exec_pattern) \<Rightarrow> exec_pattern option \<Rightarrow> stage result" where
  "stage_materialize st patterns incoming =
     rbind (rmapM (\<lambda>p. case p of
              PPattern i \<Rightarrow> ok_or (patterns i) ''Unknown logical stage pattern id''
            | PIncoming \<Rightarrow> ok_or incoming ''Root logical stage cannot contain Incoming'') (ls_participants st)) (\<lambda>participants.
     rbind (proposer_positions st) (\<lambda>positions.
     stage_new (ls_added st) participants positions (ls_target st)))"

section \<open>Disjunctions\<close>

text \<open>A nested plan is given by what it materializes to for an incoming pattern.\<close>

type_synonym nested = "exec_pattern \<Rightarrow> stage list result"

definition or_new :: "variable list \<Rightarrow> logical_plan list \<Rightarrow> variable list result" where
  "or_new vs plans =
     rbind (ensure_unique ''OR variables must be unique'' vs) (\<lambda>_.
     rbind (ok_or (case plans of [] \<Rightarrow> None | p # _ \<Rightarrow> lp_incoming p) ''OR must contain at least one nested branch'') (\<lambda>incoming.
     rbind (ensure_unique ''OR incoming variables must be unique'' incoming) (\<lambda>_.
     rbind (ensure (\<forall>v \<in> set incoming. v \<in> set vs) ''OR incoming variables must be OR variables'') (\<lambda>_.
     rbind (rfold (\<lambda>_ plan.
       rbind (ensure (set (output_variables plan) = set vs) ''OR branch does not produce the OR variable set'') (\<lambda>_.
       ensure (lp_incoming plan = Some incoming) ''OR branch has a different incoming layout'')) () plans) (\<lambda>_.
     Ok incoming)))))"

definition run_nested :: "nested \<Rightarrow> exec_pattern \<Rightarrow> variable list \<Rightarrow> binding_bag result" where
  "run_nested branch incoming vs =
     rbind (branch incoming) (\<lambda>stages.
     rbind (execute stages bb_unit) (\<lambda>b. reorder b vs))"

definition execute_branches ::
  "pattern_id \<Rightarrow> variable list \<Rightarrow> variable list \<Rightarrow> nested list \<Rightarrow> binding_bag \<Rightarrow> binding_bag result" where
  "execute_branches i vs incoming_variables branches input =
     rbind (ensure_all (\<lambda>v. v \<in> set (bb_variables input)) ''OR pattern requires incoming variable'' incoming_variables) (\<lambda>_.
     rbind (project input incoming_variables) (\<lambda>projected.
     let incoming = relation_exec (relation_new i projected) in
     rbind (bb_empty vs) (\<lambda>result.
     rfold (\<lambda>result branch. rbind (run_nested branch incoming vs) (\<lambda>b. distinct_union result b)) result branches)))"

definition or_join ::
  "pattern_id \<Rightarrow> variable list \<Rightarrow> variable list \<Rightarrow> nested list \<Rightarrow> binding_bag \<Rightarrow> variable list \<Rightarrow> variable list \<Rightarrow> binding_bag result" where
  "or_join i vs incoming_variables branches input added target =
     (if added = [] then
        rbind (ensure (target = bb_variables input) ''OR pattern validation must preserve the input layout'') (\<lambda>_.
        rbind (ensure (\<forall>v \<in> set vs. v \<in> set (bb_variables input)) ''OR pattern validation requires every OR variable to be bound'') (\<lambda>_.
        rbind (execute_branches i vs incoming_variables branches input) (\<lambda>b. semijoin input b)))
      else
        rbind (ensure (set added = set (filter (\<lambda>v. v \<notin> set (bb_variables input)) vs)) ''OR pattern must propose every missing OR variable'') (\<lambda>_.
        rbind (execute_branches i vs incoming_variables branches input) (\<lambda>b.
        rbind (natural_join input b) (\<lambda>joined. reorder joined target))))"

definition or_exec :: "pattern_id \<Rightarrow> variable list \<Rightarrow> variable list \<Rightarrow> nested list \<Rightarrow> exec_pattern" where
  "or_exec i vs incoming_variables branches =
     \<lparr>ep_id = i, ep_variables = vs, ep_count = default_count, ep_join = or_join i vs incoming_variables branches\<rparr>"

section \<open>Negations\<close>

definition not_new :: "variable list \<Rightarrow> logical_plan \<Rightarrow> variable list result" where
  "not_new vs plan =
     rbind (ensure_unique ''NOT variables must be unique'' vs) (\<lambda>_.
     rbind (ok_or (lp_incoming plan) ''NOT logical plan must be nested'') (\<lambda>incoming.
     rbind (ensure (set incoming = set vs) ''NOT incoming variables must be the NOT variable set'') (\<lambda>_.
     rbind (ensure (set (output_variables plan) = set vs) ''NOT body does not produce the NOT variable set'') (\<lambda>_.
     Ok incoming))))"

definition execute_logical_plan ::
  "pattern_id \<Rightarrow> variable list \<Rightarrow> variable list \<Rightarrow> nested \<Rightarrow> binding_bag \<Rightarrow> binding_bag result" where
  "execute_logical_plan i vs incoming_variables plan input =
     rbind (project input incoming_variables) (\<lambda>projected.
     run_nested plan (relation_exec (relation_new i projected)) vs)"

definition not_join ::
  "pattern_id \<Rightarrow> variable list \<Rightarrow> variable list \<Rightarrow> nested \<Rightarrow> binding_bag \<Rightarrow> variable list \<Rightarrow> variable list \<Rightarrow> binding_bag result" where
  "not_join i vs incoming_variables plan input added target =
     rbind (ensure (added = []) ''NOT pattern cannot propose variables'') (\<lambda>_.
     rbind (ensure (target = bb_variables input) ''NOT pattern validation must preserve the input layout'') (\<lambda>_.
     rbind (ensure (\<forall>v \<in> set vs. v \<in> set (bb_variables input)) ''NOT pattern requires every correlated variable to be bound'') (\<lambda>_.
     rbind (execute_logical_plan i vs incoming_variables plan input) (\<lambda>b. antijoin input b))))"

definition not_exec :: "pattern_id \<Rightarrow> variable list \<Rightarrow> variable list \<Rightarrow> nested \<Rightarrow> exec_pattern" where
  "not_exec i vs incoming_variables plan =
     \<lparr>ep_id = i, ep_variables = vs, ep_count = default_count, ep_join = not_join i vs incoming_variables plan\<rparr>"

section \<open>Materialization\<close>

record ('db, 'it) query_env =
  qe_ops :: "('db, 'it) slate_ops"
  qe_fuel :: nat
  qe_db :: "'db db_value"
  qe_text :: text_ops
  qe_timestamp :: timestamp_opt

definition check_incoming :: "variable list option \<Rightarrow> exec_pattern option \<Rightarrow> unit result" where
  "check_incoming expected incoming =
     (case (expected, incoming) of
        (None, None) \<Rightarrow> Ok ()
      | (None, Some _) \<Rightarrow> Error (Err ''Root logical plan cannot accept Incoming'')
      | (Some _, None) \<Rightarrow> Error (Err ''Nested logical plan requires Incoming'')
      | (Some vs, Some p) \<Rightarrow> ensure (ep_variables p = vs) ''Incoming pattern variables do not match planned layout'')"

lemma rfold_cong [fundef_cong]:
  "xs = ys \<Longrightarrow> s = t \<Longrightarrow> (\<And>x a. x \<in> set ys \<Longrightarrow> f a x = g a x) \<Longrightarrow> rfold f s xs = rfold g t ys"
proof (induction ys arbitrary: xs s t)
  case (Cons y ys)
  then show ?case by (cases "g t y") (auto simp: rbind_def)
qed simp

function materialize_descriptor :: "('db, 'it) query_env \<Rightarrow> logical_descriptor \<Rightarrow> exec_pattern result"
  and materialize_plan :: "('db, 'it) query_env \<Rightarrow> logical_plan \<Rightarrow> exec_pattern option \<Rightarrow> stage list result" where
  "materialize_descriptor env (LogicalDescriptor i vs k) =
     (case k of
        LTriple p \<Rightarrow>
          rbind (resolve_attribute_from_pattern (pat_attribute p) (dv_ident_map (qe_db env))) (\<lambda>attribute.
          rbind (entity_term (pat_entity p)) (\<lambda>entity.
          rbind (value_term (pat_value p)) (\<lambda>value.
          rbind (triple_new i entity attribute value (qe_db env)) (\<lambda>tp.
          Ok (triple_exec (qe_ops env) (qe_fuel env) tp)))))
      | LRelation rows \<Rightarrow>
          rbind (bb_new vs (map (map encode) rows)) (\<lambda>relation. Ok (relation_exec (relation_new i relation)))
      | LPredicate e \<Rightarrow> Ok (predicate_exec (qe_text env) (qe_timestamp env) (predicate_new i e))
      | LFunction e inputs output \<Rightarrow>
          rbind (function_new i e output) (\<lambda>fp. Ok (function_exec (qe_text env) (qe_timestamp env) fp))
      | LOr plans \<Rightarrow>
          rbind (or_new vs plans) (\<lambda>incoming_variables.
          Ok (or_exec i vs incoming_variables (map (\<lambda>plan incoming. materialize_plan env plan (Some incoming)) plans)))
      | LNot plan \<Rightarrow>
          rbind (not_new vs plan) (\<lambda>incoming_variables.
          Ok (not_exec i vs incoming_variables (\<lambda>incoming. materialize_plan env plan (Some incoming)))))"
| "materialize_plan env (LogicalPlan expected ds stages) incoming =
     rbind (check_incoming expected incoming) (\<lambda>_.
     rbind (rfold (\<lambda>patterns d.
       rbind (materialize_descriptor env d) (\<lambda>p.
       rbind (ensure (patterns (ld_id d) = None) ''Duplicate descriptor id in one scope'') (\<lambda>_.
       Ok (patterns(ld_id d \<mapsto> p))))) Map.empty ds) (\<lambda>patterns.
     rmapM (\<lambda>st. stage_materialize st patterns incoming) stages))"
  by pat_completeness auto
termination
  by (relation "measure (\<lambda>x. case x of Inl (_, d) \<Rightarrow> size d | Inr (_, plan, _) \<Rightarrow> size plan)")
    (auto simp: less_Suc_eq_le intro: member_size less_imp_le less_SucI [OF member_size, THEN less_imp_le])

text \<open>The execution of a root plan.\<close>

definition run_plan :: "('db, 'it) query_env \<Rightarrow> logical_plan \<Rightarrow> binding_bag result" where
  "run_plan env plan =
     rbind (materialize_plan env plan None) (\<lambda>stages.
     rbind (execute stages bb_unit) (\<lambda>bindings.
     rbind (ensure (bb_variables bindings = output_variables plan) ''Query execution produced unexpected variables'') (\<lambda>_.
     Ok bindings)))"

end
