(* ===== verification/Triple_Props.thy ===== *)
theory Triple_Props
  imports Triple_Pattern
begin

text \<open>
  Triple patterns keep the contract of patterns: what they denote are the facts that hold as of the
  transaction of the database value.
\<close>

section \<open>Groups of rows\<close>

lemma group_rows_ok:
  assumes "\<And>row. row \<in> set rows \<Longrightarrow> key row = Ok (f row)"
  obtains gs where "group_rows key rows = Ok gs" "bt_wf gs"
    "\<forall>k is. (k, is) \<in> set gs \<longleftrightarrow> is = filter (\<lambda>i. f (rows ! i) = k) [0..<length rows] \<and> is \<noteq> []"
proof -
  let ?step = "\<lambda>groups (i, row). rbind (key row) (\<lambda>k. Ok (bt_insert k (or_insert (map_of groups) k [] @ [i]) groups))"
  let ?is = "\<lambda>ss k. filter (\<lambda>i. f (ss ! i) = k) [0..<length ss]"
  have "\<exists>gs. rfold ?step [] (enumerate 0 ss) = Ok gs \<and> bt_wf gs \<and>
      map_of gs = (\<lambda>k. if ?is ss k = [] then None else Some (?is ss k))"
    if "set ss \<subseteq> set rows" for ss
    using that
  proof (induction ss rule: rev_induct)
    case (snoc s ss)
    then obtain gs where gs: "rfold ?step [] (enumerate 0 ss) = Ok gs" "bt_wf gs"
      "map_of gs = (\<lambda>k. if ?is ss k = [] then None else Some (?is ss k))" by auto
    have s: "?is (ss @ [s]) k = ?is ss k @ (if f s = k then [length ss] else [])" for k
      by (auto simp: nth_append intro: filter_cong)
    have "key s = Ok (f s)" using snoc.prems assms by simp
    then have "rfold ?step [] (enumerate 0 (ss @ [s])) = Ok (bt_insert (f s) (or_insert (map_of gs) (f s) [] @ [length ss]) gs)"
      by (simp add: enumerate_snoc rfold_append gs(1))
    moreover have "map_of (bt_insert (f s) (or_insert (map_of gs) (f s) [] @ [length ss]) gs) =
        (\<lambda>k. if ?is (ss @ [s]) k = [] then None else Some (?is (ss @ [s]) k))"
      unfolding s by (auto simp: bt_insert_lookup gs(3) or_insert_def fun_eq_iff)
    ultimately show ?case using bt_insert_wf [OF gs(2)] by blast
  qed (simp add: fun_eq_iff)
  from this [of rows] obtain gs where gs: "group_rows key rows = Ok gs" "bt_wf gs"
    "map_of gs = (\<lambda>k. if ?is rows k = [] then None else Some (?is rows k))" unfolding group_rows_def by blast
  have "distinct (map fst gs)" using gs(2) unfolding strict_sorted_iff by blast
  then have "(k, is) \<in> set gs \<longleftrightarrow> is = ?is rows k \<and> is \<noteq> []" for k "is"
    using map_of_eq_Some_iff [of gs k "is"] by (auto simp: gs(3) split: if_splits)
  then show thesis using that gs(1,2) by blast
qed

lemma groups_distinct:
  assumes "bt_wf gs" "\<And>k is. (k, is) \<in> set gs \<Longrightarrow> distinct is \<and> (\<forall>i \<in> set is. g i = k)"
  shows "distinct (concat (map snd gs))"
  using assms
proof (induction gs)
  case (Cons x gs)
  obtain k js where x: "x = (k, js)" by (cases x)
  have "set js \<inter> set (concat (map snd gs)) = {}"
  proof (rule ccontr)
    assume "set js \<inter> set (concat (map snd gs)) \<noteq> {}"
    then obtain i l ks where i: "i \<in> set js" "(l, ks) \<in> set gs" "i \<in> set ks" by force
    then have "g i = k" "g i = l" using Cons.prems(2) x by force+
    then show False using Cons.prems(1) x i(2) by force
  qed
  moreover have "distinct (concat (map snd gs))"
    using Cons.prems by (intro Cons.IH) auto
  ultimately show ?case using Cons.prems(2) [of k js] x by simp
qed simp

section \<open>The encodings of values are prefix free\<close>

definition encoded :: "bytes \<Rightarrow> bool" where
  "encoded b \<longleftrightarrow> (\<exists>v. storable v \<and> b = encode_datatype v)"

lemma encoded_append: "encoded a \<Longrightarrow> encoded b \<Longrightarrow> a @ s = b @ t \<longleftrightarrow> a = b \<and> s = t"
  unfolding encoded_def using value_append_eq_iff by auto

lemma encoded_prefix: "encoded a \<Longrightarrow> encoded b \<Longrightarrow> prefix a (b @ s) \<longleftrightarrow> a = b"
  using encoded_append by (auto simp: prefix_def)

lemma encoded_entity [simp]: "encoded (entity_bytes e)"
  unfolding encoded_def entity_bytes_def by (rule exI [of _ "DLong e"]) simp

lemma encoded_nonempty: "encoded a \<Longrightarrow> a \<noteq> []"
  using encoded_prefix [of a "entity_bytes 0" "[]"] by (metis Nil_prefix encoded_entity length_entity_bytes list.size(3) zero_neq_numeral)

lemma value_good_encoded: "value_good okt b \<Longrightarrow> encoded b"
  unfolding value_good_def encoded_def encode_def using dt_wf_storable(1) by blast

lemma encoded_order:
  assumes "encoded a" "encoded b" "a < b" shows "a @ s < b @ t"
  using assms encoded_prefix [of a b "[]"] by (intro lex_less_appendI) auto

section \<open>The store under the patterns\<close>

text \<open>What a pattern reads: the indices of a set of versions, as of a transaction.\<close>

definition triple_store ::
  "('db, 'it) slate_ops \<Rightarrow> ('db \<Rightarrow> bytes set) \<Rightarrow> ('it \<Rightarrow> bytes list) \<Rightarrow> ('it \<Rightarrow> bytes option) \<Rightarrow> nat \<Rightarrow>
     (int \<Rightarrow> bool) \<Rightarrow> schema \<Rightarrow> i64 \<Rightarrow> version set \<Rightarrow> 'db db_value \<Rightarrow> bool" where
  "triple_store ops keys rest lk n okt s as_of R db \<longleftrightarrow>
     slate_law ops keys rest lk \<and> index_state keys (dv_sdb db) s R \<and> ops_wf R \<and>
     (\<forall>(e, a, v, tx, op) \<in> R. dt_wf okt v) \<and> dv_as_of db = Ok as_of \<and> card (keys (dv_sdb db)) < n \<and>
     (\<forall>p. \<exists>c. dv_range_stats db p = Ok c)"

definition pair_bytes :: "index_type \<Rightarrow> entid \<Rightarrow> data_type \<Rightarrow> bytes" where
  "pair_bytes it e v =
     (if it = AVE_index then encode_datatype v @ entity_bytes e else entity_bytes e @ encode_datatype v)"

definition pairs_in :: "index_type \<Rightarrow> i64 \<Rightarrow> version set \<Rightarrow> bytes set" where
  "pairs_in it a R = {pair_bytes it e v | e v tx op. (e, a, v, tx, op) \<in> R}"

definition pairs_at :: "index_type \<Rightarrow> i64 \<Rightarrow> i64 \<Rightarrow> version set \<Rightarrow> bytes set" where
  "pairs_at it as_of a R = {pair_bytes it e v | e v tx op. fact_holds as_of R (e, a, v, tx, op)}"

lemma fact_holds_mem: "fact_holds as_of R x \<Longrightarrow> x \<in> R"
  by (cases x) (simp add: fact_holds_def)

lemma pairs_at_in: "pairs_at it as_of a R \<subseteq> pairs_in it a R"
  unfolding pairs_at_def pairs_in_def using fact_holds_mem by blast

lemma fact_key_pair:
  "it \<in> {AEV_index, AVE_index} \<Longrightarrow> fact_key it e a v = index_byte it # encode_i64_bytes a @ pair_bytes it e v"
  by (auto simp: fact_key_def pair_bytes_def index_byte_def)

lemma base_prefix_eq: "base_prefix tp it = Ok (index_byte it # encode_i64_bytes (tp_attribute tp))"
  by (cases it) (simp_all add: base_prefix_def index_type_to_prefix_def index_byte_def)

lemma fact_holds_restrict:
  assumes "\<And>e a v tx op tx' op'. (e, a, v, tx, op) \<in> R \<Longrightarrow> (e, a, v, tx', op') \<in> R \<Longrightarrow> Q (e, a, v, tx, op) \<longleftrightarrow> Q (e, a, v, tx', op')"
    and "x \<in> R" "Q x"
  shows "fact_holds as_of {x \<in> R. Q x} x \<longleftrightarrow> fact_holds as_of R x"
proof -
  obtain e a v tx op where x: "x = (e, a, v, tx, op)" by (cases x)
  have Q: "Q (e, a, v, tx', op')" if "(e, a, v, tx', op') \<in> R" for tx' op'
    using assms(1) [of e a v tx op] assms(2,3) that unfolding x by blast
  have restr: "(\<forall>y \<in> {x \<in> R. Q x}. F y) \<longleftrightarrow> (\<forall>y \<in> R. F y)" if "\<And>y. y \<in> R \<Longrightarrow> \<not> Q y \<Longrightarrow> F y" for F
    using that by blast
  show ?thesis unfolding x fact_holds_def prod.case
    by (subst restr) (use assms(2,3) Q in \<open>auto simp: x\<close>)
qed

lemma tfi_new_all:
  assumes "slate_law ops keys rest lk" and "versioned {k \<in> keys db. prefix p k}"
    and "card {k \<in> keys db. prefix p k} < n" and "tfi_new ops n p db ext as_of = Ok s"
  shows "set (tfi_all rest s) \<subseteq> {k \<in> keys db. prefix p k}"
proof -
  let ?K = "{k \<in> keys db. prefix p k}"
  have fin: "finite ?K" using assms(1) by (simp add: slate_law_def)
  obtain it where it: "scan_prefix ops db p = Ok it" "rest it = sorted_list_of_set ?K"
    using slate_scan [OF assms(1)] by metis
  let ?s = "\<lparr>t_inner = it, t_current_key = None, t_prefix = p, t_extractor = ext,
    t_as_of = encode_i64_bytes as_of\<rparr>"
  have "advance_to_next_valid ops n ?s = Ok s" using assms(4) it by (simp add: tfi_new_def)
  moreover have "sorted_wrt (<) (rest it)" "versioned (set (rest it))" "length (rest it) < n"
    using fin assms(2,3) by (simp_all add: it)
  ultimately show ?thesis using advance_ok [OF assms(1), of ?s n] fin it(2) by auto
qed

lemma strict_sorted_set: "sorted_wrt (<) xs \<Longrightarrow> sorted_list_of_set (set xs) = (xs :: bytes list)"
  unfolding strict_sorted_iff using sorted_list_of_set.idem_if_sorted_distinct by blast

lemma drop_key: "drop (length (x # ys @ c)) (x # ys @ w) = drop (length c) w"
  by simp

text \<open>A temporal scan below a prefix stands before what follows the prefix in the pairs that hold.\<close>

lemma temporal_cursor:
  assumes store: "triple_store ops keys rest lk n okt s as_of R (tp_db tp)" and it: "it \<in> {AEV_index, AVE_index}"
    and c: "\<And>e v tx op r. (e, tp_attribute tp, v, tx, op) \<in> R \<Longrightarrow> prefix c (pair_bytes it e v @ r) \<longleftrightarrow> prefix c (pair_bytes it e v)"
    and ext: "\<And>e v tx op. (e, tp_attribute tp, v, tx, op) \<in> R \<Longrightarrow> prefix c (pair_bytes it e v) \<Longrightarrow>
      ext (version_key it (e, tp_attribute tp, v, tx, op)) = Ok (drop (length c) (pair_bytes it e v))"
    and p: "p = index_byte it # encode_i64_bytes (tp_attribute tp) @ c"
  shows "\<exists>d. create_iterator ops n tp p it ext = Ok d \<and>
    dyn_cursor ops keys rest lk n (drop (length c) ` {x \<in> pairs_in it (tp_attribute tp) R. prefix c x}) d
      (sorted_list_of_set (drop (length c) ` {x \<in> pairs_at it as_of (tp_attribute tp) R. prefix c x}))"
proof -
  let ?a = "tp_attribute tp" and ?db = "dv_sdb (tp_db tp)"
  have law: "slate_law ops keys rest lk" and ix: "index_state keys ?db s R" and wf: "\<forall>(e, a, v, tx, op) \<in> R. dt_wf okt v"
    and as_of: "dv_as_of (tp_db tp) = Ok as_of" and card: "card (keys ?db) < n"
    using store by (simp_all add: triple_store_def)
  have st: "storable_versions R" using wf dt_wf_storable(1) by (fastforce simp: storable_versions_def)
  have tmp: "temporal_index it" using it by (auto simp: temporal_index_def)
  have fin: "finite (keys ?db)" using law by (simp add: slate_law_def)
  have keys: "{k \<in> keys ?db. prefix [index_byte it] k} = version_key it ` R"
    using ix it by (auto simp: index_state_def indexed_def)
  have vk: "version_key it (e, a, v, tx, op) = index_byte it # encode_i64_bytes a @ pair_bytes it e v @ encode_i64_bytes tx @ [op]" for e a v tx op
    using version_key_eq [OF tmp] fact_key_pair [OF it] by simp
  have pk: "prefix p (version_key it (e, a, v, tx, op)) \<longleftrightarrow> a = ?a \<and> prefix c (pair_bytes it e v)"
    if "(e, a, v, tx, op) \<in> R" for e a v tx op
  proof -
    have "prefix p (version_key it (e, a, v, tx, op)) \<longleftrightarrow> ?a = a \<and> prefix c (pair_bytes it e v @ encode_i64_bytes tx @ [op])"
      unfolding p vk by (auto simp: prefix_def encode_i64_bytes_eq_iff)
    then show ?thesis using c [of e v tx op] that by auto
  qed
  let ?R = "{x \<in> R. prefix p (version_key it x)}"
  let ?K = "{k \<in> keys ?db. prefix p k}"
  have K: "?K = version_key it ` ?R"
  proof -
    have "prefix [index_byte it] k" if "prefix p k" for k using that unfolding p by (cases k) auto
    then have "?K = {k \<in> {k \<in> keys ?db. prefix [index_byte it] k}. prefix p k}" by blast
    then show ?thesis unfolding keys by auto
  qed
  have stR: "storable_versions ?R" using st by (auto simp: storable_versions_def)
  have vK: "versioned ?K" unfolding K by (rule version_keys_versioned [OF tmp stR])
  have "card ?K \<le> card (keys ?db)" by (rule card_mono [OF fin]) auto
  then have n: "card ?K < n" using card by simp
  obtain t where t: "tfi_new ops n p ?db ext as_of = Ok t" "tfi_ok rest lk n t" "t_extractor t = ext" "t_prefix t = p"
    and "t_as_of t = encode_i64_bytes as_of" and tk: "tfi_keys rest t = sorted_list_of_set {k. holds_in (\<lambda>k. encode_i64_bytes as_of \<le> key_ts k) ?K k}"
    by (rule tfi_new_ok [OF law refl vK n])
  have all: "\<forall>k \<in> set (tfi_all rest t). \<exists>v \<in> drop (length c) ` {x \<in> pairs_in it ?a R. prefix c x}.
      logical_key k = t_prefix t @ v \<and> t_extractor t k = Ok v"
  proof
    fix k assume "k \<in> set (tfi_all rest t)"
    then have "k \<in> version_key it ` ?R" using tfi_new_all [OF law vK n t(1)] K by blast
    then obtain e a v tx op where x: "k = version_key it (e, a, v, tx, op)" "(e, a, v, tx, op) \<in> R" "prefix p k" by auto
    then have a: "a = ?a" "prefix c (pair_bytes it e v)" using pk by simp_all
    have "logical_key k = p @ drop (length c) (pair_bytes it e v)"
      using a(2) unfolding x(1) version_key_parts(1) [OF tmp] fact_key_pair [OF it] p a(1) by (auto simp: prefix_def)
    moreover have "ext k = Ok (drop (length c) (pair_bytes it e v))" using ext [of e v tx op] x a by simp
    moreover have "pair_bytes it e v \<in> pairs_in it ?a R" using x(2) a(1) by (auto simp: pairs_in_def)
    ultimately show "\<exists>v \<in> drop (length c) ` {x \<in> pairs_in it ?a R. prefix c x}. logical_key k = t_prefix t @ v \<and> t_extractor t k = Ok v"
      using a(2) t(3,4) by blast
  qed
  let ?vs = "map (\<lambda>k. drop (length p) (logical_key k)) (tfi_keys rest t)"
  have hold: "{k. holds_in (\<lambda>k. encode_i64_bytes as_of \<le> key_ts k) ?K k} = version_key it ` {x \<in> ?R. fact_holds as_of R x}"
  proof -
    have same: "fact_holds as_of ?R x \<longleftrightarrow> fact_holds as_of R x" if "x \<in> ?R" for x
      by (rule fact_holds_restrict) (use that pk in simp_all)
    then have "{x. fact_holds as_of ?R x} = {x \<in> ?R. fact_holds as_of R x}"
      using fact_holds_mem [of as_of ?R] by (metis (lifting) Collect_cong)
    then show ?thesis unfolding K holding_keys [OF tmp stR] by simp
  qed
  have "finite {k. holds_in (\<lambda>k. encode_i64_bytes as_of \<le> key_ts k) ?K k}"
    by (rule finite_subset [of _ ?K]) (auto simp: holds_in_def fin)
  then have "set ?vs = (\<lambda>k. drop (length p) (logical_key k)) ` version_key it ` {x \<in> ?R. fact_holds as_of R x}"
    using tk hold by simp
  also have "\<dots> = drop (length c) ` {x \<in> pairs_at it as_of ?a R. prefix c x}"
  proof (intro set_eqI iffI)
    fix y assume "y \<in> (\<lambda>k. drop (length p) (logical_key k)) ` version_key it ` {x \<in> ?R. fact_holds as_of R x}"
    then obtain e a v tx op where x: "(e, a, v, tx, op) \<in> R" "prefix p (version_key it (e, a, v, tx, op))"
      "fact_holds as_of R (e, a, v, tx, op)" "y = drop (length p) (logical_key (version_key it (e, a, v, tx, op)))" by auto
    then have a: "a = ?a" "prefix c (pair_bytes it e v)" using pk by simp_all
    then have "y = drop (length c) (pair_bytes it e v)"
      using x(4) unfolding a(1) version_key_parts(1) [OF tmp] fact_key_pair [OF it] p drop_key by simp
    moreover have "pair_bytes it e v \<in> pairs_at it as_of ?a R" using x(3) a(1) by (auto simp: pairs_at_def)
    ultimately show "y \<in> drop (length c) ` {x \<in> pairs_at it as_of ?a R. prefix c x}" using a(2) by blast
  next
    fix y assume "y \<in> drop (length c) ` {x \<in> pairs_at it as_of ?a R. prefix c x}"
    then obtain e v tx op where x: "fact_holds as_of R (e, ?a, v, tx, op)" "prefix c (pair_bytes it e v)"
      "y = drop (length c) (pair_bytes it e v)" by (auto simp: pairs_at_def)
    then have "(e, ?a, v, tx, op) \<in> {x \<in> ?R. fact_holds as_of R x}" using pk fact_holds_mem by blast
    moreover have "y = drop (length p) (logical_key (version_key it (e, ?a, v, tx, op)))"
      unfolding version_key_parts(1) [OF tmp] fact_key_pair [OF it] p drop_key by (rule x(3))
    ultimately show "y \<in> (\<lambda>k. drop (length p) (logical_key k)) ` version_key it ` {x \<in> ?R. fact_holds as_of R x}" by blast
  qed
  finally have sv: "set ?vs = drop (length c) ` {x \<in> pairs_at it as_of ?a R. prefix c x}" .
  have "sorted_wrt (<) ?vs" using tfi_values_sorted [OF t(2) all] t(4) by simp
  then have "?vs = sorted_list_of_set (set ?vs)" by (rule strict_sorted_set [symmetric])
  then have "tfi_cursor rest lk n (drop (length c) ` {x \<in> pairs_in it ?a R. prefix c x}) t
      (sorted_list_of_set (drop (length c) ` {x \<in> pairs_at it as_of ?a R. prefix c x}))"
    unfolding tfi_cursor_def using t(2,4) all sv by simp
  moreover have "create_iterator ops n tp p it ext = Ok (DynTemporal t)"
    using it as_of t(1) by (auto simp: create_iterator_def)
  ultimately show ?thesis using law by (auto simp: dyn_cursor_def)
qed

text \<open>The scans of the indices of entities and of values stand before every component that was ever asserted.\<close>

definition component_bytes :: "index_type \<Rightarrow> entid \<Rightarrow> data_type \<Rightarrow> bytes" where
  "component_bytes it e v = (if it = AE_index then entity_bytes e else encode_datatype v)"

definition components_in :: "index_type \<Rightarrow> i64 \<Rightarrow> version set \<Rightarrow> bytes set" where
  "components_in it a R = {component_bytes it e v | e v tx. (e, a, v, tx, ADD) \<in> R}"

lemma attr_var_cursor:
  assumes store: "triple_store ops keys rest lk n okt s as_of R (tp_db tp)" and it: "it \<in> {AE_index, AV_index}"
  shows "\<exists>d. attr_var_iterator ops n tp it = Ok d \<and>
    dyn_cursor ops keys rest lk n (components_in it (tp_attribute tp) R) d (sorted_list_of_set (components_in it (tp_attribute tp) R))"
proof -
  let ?a = "tp_attribute tp" and ?db = "dv_sdb (tp_db tp)"
  let ?p = "index_byte it # encode_i64_bytes ?a" and ?C = "components_in it ?a R"
  let ?K = "{k \<in> keys ?db. prefix ?p k}"
  have law: "slate_law ops keys rest lk" and ix: "index_state keys ?db s R"
    using store by (simp_all add: triple_store_def)
  have vk: "version_key it (e, a, v, tx, op) = index_byte it # encode_i64_bytes a @ component_bytes it e v" for e a v tx op
    using it by (auto simp: version_key_def index_key_def index_byte_def component_bytes_def)
  have keys: "{k \<in> keys ?db. prefix [index_byte it] k} = version_key it ` {(e, a, v, tx, op) \<in> R. op = ADD}"
    using ix it by (auto simp: index_state_def indexed_def)
  have K: "?K = (@) ?p ` ?C"
  proof -
    have "prefix [index_byte it] k" if "prefix ?p k" for k using that by (cases k) auto
    then have "?K = {k \<in> {k \<in> keys ?db. prefix [index_byte it] k}. prefix ?p k}" by blast
    also have "\<dots> = (@) ?p ` ?C" unfolding keys
      by (auto simp: vk components_in_def prefix_def encode_i64_bytes_eq_iff image_iff) blast+
    finally show ?thesis .
  qed
  have fin: "finite ?K" using law by (simp add: slate_law_def)
  obtain i0 where i0: "scan_prefix ops ?db ?p = Ok i0" "rest i0 = sorted_list_of_set ?K"
    using slate_scan [OF law, of ?db ?p] by blast
  have ext: "make_extractor 1 it k = Ok (drop (length ?p) k)" "drop (length ?p) k \<in> ?C" "k = ?p @ drop (length ?p) k" if k: "k \<in> ?K" for k
  proof -
    have "k \<in> (@) ?p ` ?C" using k K by simp
    then obtain e v tx where x: "k = ?p @ component_bytes it e v" "(e, ?a, v, tx, ADD) \<in> R" by (auto simp: components_in_def)
    then have kk: "k = index_key it (entity_bytes e) (encode_i64_bytes ?a) (encode_datatype v) (encode_i64_bytes tx) ADD"
      using vk [of e ?a v tx ADD] by (simp add: version_key_def)
    have "make_extractor 1 it k = Ok (key_slots it (entity_bytes e) (encode_i64_bytes ?a) (encode_datatype v) ! 1)"
      unfolding kk by (rule extract_slot) (use it in \<open>auto simp: key_slots_def\<close>)
    then show "make_extractor 1 it k = Ok (drop (length ?p) k)" "drop (length ?p) k \<in> ?C" "k = ?p @ drop (length ?p) k"
      using it x by (auto simp: key_slots_def component_bytes_def components_in_def)
  qed
  have so: "sorted_wrt (<) (rest i0)" unfolding i0(2) by (rule strict_sorted_list_of_set)
  obtain i1 where i1: "it_next ops i0 = Ok (first_of (rest i0), i1)" "rest i1 = tl (rest i0)"
    "\<And>k ks. rest i0 = k # ks \<Longrightarrow> lk i1 = Some k"
    using slate_next [OF law, of i0] by (cases "rest i0") (auto simp: first_of_def)
  let ?s = "\<lparr>si_inner = i1, si_current_key = first_of (rest i0), si_prefix = ?p, si_extractor = make_extractor 1 it\<rparr>"
  have ks: "si_keys rest ?s = rest i0" using i1(2) by (cases "rest i0") (auto simp: si_keys_def first_of_def)
  have vs: "map (drop (length ?p)) (rest i0) = sorted_list_of_set ?C"
  proof -
    have "set (map (drop (length ?p)) (rest i0)) = ?C" using fin by (simp add: i0(2) K image_image)
    moreover have "sorted_wrt (\<lambda>x y. drop (length ?p) x < drop (length ?p) y) (rest i0)"
    proof (rule sorted_wrt_mono_rel [OF _ so])
      fix x y assume xy: "x \<in> set (rest i0)" "y \<in> set (rest i0)" "x < y"
      then have "x = ?p @ drop (length ?p) x" "y = ?p @ drop (length ?p) y" using ext(3) fin by (simp_all add: i0(2))
      then show "drop (length ?p) x < drop (length ?p) y" using xy(3) lex_append_same [of ?p] by metis
    qed
    ultimately show ?thesis using strict_sorted_set [of "map (drop (length ?p)) (rest i0)"] by (simp add: sorted_wrt_map)
  qed
  have "si_cursor rest lk ?C ?s (sorted_list_of_set ?C)"
    unfolding si_cursor_def ks
  proof (intro conjI)
    show "case si_current_key ?s of None \<Rightarrow> rest (si_inner ?s) = [] | Some k \<Rightarrow> lk (si_inner ?s) = Some k"
      using i1(2,3) by (cases "rest i0") (auto simp: first_of_def)
    show "\<forall>k \<in> set (rest i0). \<exists>v \<in> ?C. k = si_prefix ?s @ v \<and> si_extractor ?s k = Ok v"
      using ext fin unfolding i0(2) by auto
  qed (use so vs in simp_all)
  moreover have "attr_var_iterator ops n tp it = Ok (DynSlate ?s)"
    using it i0(1) i1(1) by (auto simp: attr_var_iterator_def base_prefix_eq create_iterator_def si_new_def)
  ultimately show ?thesis using law by (auto simp: dyn_cursor_def)
qed

lemma after_prefix_version:
  assumes "temporal_index it" "prefix p (fact_key it e a v)"
  shows "after_prefix (length p) (version_key it (e, a, v, tx, op)) = Ok (drop (length p) (fact_key it e a v))"
proof -
  have "length p \<le> length (fact_key it e a v)" using assms(2) by (rule prefix_length_le)
  then show ?thesis
    by (simp add: after_prefix_def version_key_eq [OF assms(1)] usub_def get_slice_def key_length_defs)
qed

lemma pair_cursor:
  assumes store: "triple_store ops keys rest lk n okt s as_of R (tp_db tp)" and it: "it \<in> {AEV_index, AVE_index}"
  shows "\<exists>d. attr_var_pair_iterator ops n tp it = Ok d \<and>
    dyn_cursor ops keys rest lk n (pairs_in it (tp_attribute tp) R) d (sorted_list_of_set (pairs_at it as_of (tp_attribute tp) R))"
proof -
  let ?p = "index_byte it # encode_i64_bytes (tp_attribute tp)"
  have tmp: "temporal_index it" using it by (auto simp: temporal_index_def)
  have ext: "after_prefix (length ?p) (version_key it (e, tp_attribute tp, v, tx, op)) = Ok (drop (length ([] :: bytes)) (pair_bytes it e v))" for e v tx op
    using after_prefix_version [OF tmp, of ?p e "tp_attribute tp" v] drop_key [of "index_byte it" "encode_i64_bytes (tp_attribute tp)" "[]"]
    unfolding fact_key_pair [OF it] by simp
  have "\<exists>d. create_iterator ops n tp ?p it (after_prefix (length ?p)) = Ok d \<and>
    dyn_cursor ops keys rest lk n (drop (length ([] :: bytes)) ` {x \<in> pairs_in it (tp_attribute tp) R. prefix [] x}) d
      (sorted_list_of_set (drop (length ([] :: bytes)) ` {x \<in> pairs_at it as_of (tp_attribute tp) R. prefix [] x}))"
  proof (rule temporal_cursor [where c = "[]", OF store it])
    show "after_prefix (length ?p) (version_key it (e, tp_attribute tp, v, tx, op)) = Ok (drop (length ([] :: bytes)) (pair_bytes it e v))" for e v tx op
      by (rule ext)
  qed simp_all
  then show ?thesis using it by (simp add: attr_var_pair_iterator_def base_prefix_eq)
qed

lemma pair_prefix:
  assumes "encoded c" "storable v"
  shows "prefix c (pair_bytes it e v @ r) \<longleftrightarrow> c = (if it = AVE_index then encode_datatype v else entity_bytes e)"
proof -
  have "encoded (encode_datatype v)" using assms(2) by (auto simp: encoded_def)
  then show ?thesis using encoded_prefix [OF assms(1)] by (auto simp: pair_bytes_def)
qed

lemma constant_cursor:
  assumes store: "triple_store ops keys rest lk n okt s as_of R (tp_db tp)" and it: "it \<in> {AEV_index, AVE_index}"
    and c: "encoded c" and p: "p = index_byte it # encode_i64_bytes (tp_attribute tp) @ c"
    and ext: "ext = after_prefix (length p) \<or> ext = make_extractor 2 it"
  shows "\<exists>d. create_iterator ops n tp p it ext = Ok d \<and>
    dyn_cursor ops keys rest lk n (drop (length c) ` {x \<in> pairs_in it (tp_attribute tp) R. prefix c x}) d
      (sorted_list_of_set (drop (length c) ` {x \<in> pairs_at it as_of (tp_attribute tp) R. prefix c x}))"
proof (rule temporal_cursor [OF store it _ _ p])
  let ?a = "tp_attribute tp"
  have tmp: "temporal_index it" using it by (auto simp: temporal_index_def)
  fix e v tx op assume x: "(e, ?a, v, tx, op) \<in> R"
  then have st: "storable v" using store dt_wf_storable(1) unfolding triple_store_def by fastforce
  show "prefix c (pair_bytes it e v @ r) \<longleftrightarrow> prefix c (pair_bytes it e v)" for r
    using pair_prefix [OF c st, of it e r] pair_prefix [OF c st, of it e "[]"] by simp
  assume pc: "prefix c (pair_bytes it e v)"
  have d: "drop (length p) (fact_key it e ?a v) = drop (length c) (pair_bytes it e v)"
    unfolding p fact_key_pair [OF it] drop_key ..
  have "prefix p (fact_key it e ?a v)" unfolding p fact_key_pair [OF it] using pc by simp
  then have "after_prefix (length p) (version_key it (e, ?a, v, tx, op)) = Ok (drop (length c) (pair_bytes it e v))"
    using after_prefix_version [OF tmp] d by metis
  moreover have "make_extractor 2 it (version_key it (e, ?a, v, tx, op)) = Ok (drop (length c) (pair_bytes it e v))"
  proof -
    have "make_extractor 2 it (version_key it (e, ?a, v, tx, op)) =
        Ok (key_slots it (entity_bytes e) (encode_i64_bytes ?a) (encode_datatype v) ! 2)"
      unfolding version_key_def prod.case by (rule extract_slot) (use it in \<open>auto simp: key_slots_def\<close>)
    then show ?thesis using it pair_prefix [OF c st, of it e "[]"] pc by (auto simp: key_slots_def pair_bytes_def)
  qed
  ultimately show "ext (version_key it (e, ?a, v, tx, op)) = Ok (drop (length c) (pair_bytes it e v))" using ext by blast
qed

section \<open>Sizes\<close>

lemma finite_keys: "triple_store ops keys rest lk n okt s as_of R db \<Longrightarrow> finite (keys (dv_sdb db))"
  by (simp add: triple_store_def slate_law_def)

lemma pairs_in_keys:
  assumes store: "triple_store ops keys rest lk n okt s as_of R db" and it: "it \<in> {AEV_index, AVE_index}"
  shows "pairs_in it a R \<subseteq> (\<lambda>k. drop 9 (logical_key k)) ` keys (dv_sdb db)"
proof
  fix x assume "x \<in> pairs_in it a R"
  then obtain e v tx op where x: "x = pair_bytes it e v" "(e, a, v, tx, op) \<in> R" by (auto simp: pairs_in_def)
  have tmp: "temporal_index it" using it by (auto simp: temporal_index_def)
  have "version_key it (e, a, v, tx, op) \<in> version_key it ` indexed s it R" using x(2) it by (auto simp: indexed_def)
  then have "version_key it (e, a, v, tx, op) \<in> keys (dv_sdb db)"
    using store unfolding triple_store_def index_state_def by blast
  moreover have "x = drop 9 (logical_key (version_key it (e, a, v, tx, op)))"
    unfolding version_key_parts(1) [OF tmp] fact_key_pair [OF it] x(1) by simp
  ultimately show "x \<in> (\<lambda>k. drop 9 (logical_key k)) ` keys (dv_sdb db)" by blast
qed

lemma components_in_keys:
  assumes store: "triple_store ops keys rest lk n okt s as_of R db" and it: "it \<in> {AE_index, AV_index}"
  shows "components_in it a R \<subseteq> drop 9 ` keys (dv_sdb db)"
proof
  fix x assume "x \<in> components_in it a R"
  then obtain e v tx where x: "x = component_bytes it e v" "(e, a, v, tx, ADD) \<in> R" by (auto simp: components_in_def)
  have "version_key it (e, a, v, tx, ADD) \<in> version_key it ` indexed s it R" using x(2) it by (auto simp: indexed_def)
  then have "version_key it (e, a, v, tx, ADD) \<in> keys (dv_sdb db)"
    using store unfolding triple_store_def index_state_def by blast
  moreover have "x = drop 9 (version_key it (e, a, v, tx, ADD))"
    using it x(1) by (auto simp: version_key_def index_key_def component_bytes_def)
  ultimately show "x \<in> drop 9 ` keys (dv_sdb db)" by blast
qed

lemma small_values:
  assumes "triple_store ops keys rest lk n okt s as_of R db" "V \<subseteq> f ` keys (dv_sdb db)"
  shows "finite V" "length (sorted_list_of_set V) < n"
proof -
  have fin: "finite (keys (dv_sdb db))" by (rule finite_keys [OF assms(1)])
  then show "finite V" using assms(2) finite_subset by blast
  have "card V \<le> card (f ` keys (dv_sdb db))" using assms(2) fin by (simp add: card_mono)
  also have "\<dots> \<le> card (keys (dv_sdb db))" by (rule card_image_le [OF fin])
  also have "\<dots> < n" using assms(1) by (simp add: triple_store_def)
  finally show "length (sorted_list_of_set V) < n" by simp
qed

section \<open>Looking rows up\<close>

lemma check_rows:
  assumes view: "dyn_cursor ops keys rest lk n A d ws"
    and key: "\<And>row. row \<in> set rows \<Longrightarrow> key row = Ok (f row)"
    and order: "\<And>x y. x \<in> f ` set rows \<Longrightarrow> y \<in> f ` set rows \<Longrightarrow> x < y \<Longrightarrow> h x < h y"
    and free: "\<And>x v. x \<in> f ` set rows \<Longrightarrow> v \<in> A \<Longrightarrow> \<not> strict_prefix v (h x)"
  shows "rbind (group_rows key rows) (\<lambda>gs. check_groups dyn_get_value dyn_has_next (dyn_seek ops n) d
      (map (\<lambda>(k, is). (h k, is)) gs) (replicate (length rows) False)) = Ok (map (\<lambda>row. h (f row) \<in> set ws) rows)"
proof -
  obtain gs where gs: "group_rows key rows = Ok gs" "bt_wf gs"
    "\<forall>k is. (k, is) \<in> set gs \<longleftrightarrow> is = filter (\<lambda>i. f (rows ! i) = k) [0..<length rows] \<and> is \<noteq> []"
    by (rule group_rows_ok [of rows key f, OF key])
  note gs = gs(1,2) spec [OF spec [OF gs(3)]]
  have mem: "k \<in> f ` set rows" "set js = {i. i < length rows \<and> f (rows ! i) = k}" if "(k, js) \<in> set gs" for k js
    using that gs(3) [of k js] by (auto simp: filter_empty_conv)
  let ?gs = "map (\<lambda>(k, is). (h k, is)) gs"
  have dis: "distinct (concat (map snd gs))"
    by (rule groups_distinct [OF gs(2), of "\<lambda>i. f (rows ! i)"]) (auto simp: gs(3))
  have snds: "map snd ?gs = map snd gs" by (simp add: o_def split_beta)
  have "sorted_wrt (\<lambda>g h'. h (fst g) < h (fst h')) gs"
  proof (rule sorted_wrt_mono_rel [of gs "\<lambda>g h'. fst g < fst h'"])
    show "sorted_wrt (\<lambda>g h'. fst g < fst h') gs" using gs(2) by (simp add: sorted_wrt_map)
    fix x y assume "x \<in> set gs" "y \<in> set gs" "fst x < fst y"
    then show "h (fst x) < h (fst y)" using order mem(1) by (metis prod.collapse)
  qed
  then have so: "sorted_wrt (\<lambda>g h'. fst g < fst h') ?gs" by (simp add: sorted_wrt_map split_beta)
  have pre: "\<forall>g \<in> set ?gs. \<forall>v \<in> A. \<not> strict_prefix v (fst g)" using free mem(1) by auto
  have ini: "\<forall>g \<in> set ?gs. \<forall>i \<in> set (snd g). i < length (replicate (length rows) False) \<and> \<not> replicate (length rows) False ! i"
    using mem(2) by auto
  obtain ms where ms: "check_groups dyn_get_value dyn_has_next (dyn_seek ops n) d ?gs (replicate (length rows) False) = Ok ms"
    "length ms = length rows" "\<forall>g \<in> set ?gs. \<forall>i \<in> set (snd g). ms ! i \<longleftrightarrow> fst g \<in> set ws"
    using dyn.check_groups_ok [OF view so pre _ ini] dis snds by (metis length_replicate)
  have "ms ! i = (h (f (rows ! i)) \<in> set ws)" if "i < length rows" for i
  proof -
    let ?is = "filter (\<lambda>j. f (rows ! j) = f (rows ! i)) [0..<length rows]"
    have "i \<in> set ?is" using that by simp
    then have "(f (rows ! i), ?is) \<in> set gs" using gs(3) by (metis empty_iff empty_set)
    then have "(h (f (rows ! i)), ?is) \<in> set ?gs" by force
    then show ?thesis using bspec [OF bspec [OF ms(3)]] \<open>i \<in> set ?is\<close> by fastforce
  qed
  then have "ms = map (\<lambda>row. h (f row) \<in> set ws) rows" using ms(2) by (intro nth_equalityI) simp_all
  then show ?thesis using gs(1) ms(1) by simp
qed

lemma extend_rows_groups:
  assumes view: "dyn_cursor ops keys rest lk n A d ws" "length ws < n"
    and key: "\<And>row. row \<in> set rows \<Longrightarrow> key row = Ok (f row)"
    and order: "\<And>x. x \<in> f ` set rows \<Longrightarrow> encoded x"
    and free: "\<And>x v. x \<in> f ` set rows \<Longrightarrow> v \<in> A \<Longrightarrow> \<not> strict_prefix v x"
  shows "rbind (group_rows key rows) (\<lambda>gs. extend_groups dyn_get_value (dyn_next ops n) dyn_has_next (dyn_seek ops n) n d
      gs (replicate (length rows) [])) =
    Ok (map (\<lambda>row. map (\<lambda>v. [drop (length (f row)) v]) (filter (prefix (f row)) ws)) rows)"
proof -
  obtain gs where gs: "group_rows key rows = Ok gs" "bt_wf gs"
    "\<forall>k is. (k, is) \<in> set gs \<longleftrightarrow> is = filter (\<lambda>i. f (rows ! i) = k) [0..<length rows] \<and> is \<noteq> []"
    by (rule group_rows_ok [of rows key f, OF key])
  note gs = gs(1,2) spec [OF spec [OF gs(3)]]
  have mem: "k \<in> f ` set rows" "set js = {i. i < length rows \<and> f (rows ! i) = k}" if "(k, js) \<in> set gs" for k js
    using that gs(3) [of k js] by (auto simp: filter_empty_conv)
  have dis: "distinct (concat (map snd gs))"
    by (rule groups_distinct [OF gs(2), of "\<lambda>i. f (rows ! i)"]) (auto simp: gs(3))
  have so: "sorted_wrt (\<lambda>g h. fst g < fst h \<and> \<not> prefix (fst g) (fst h)) gs"
  proof (rule sorted_wrt_mono_rel [of gs "\<lambda>g h'. fst g < fst h'"])
    show "sorted_wrt (\<lambda>g h'. fst g < fst h') gs" using gs(2) by (simp add: sorted_wrt_map)
    fix x y assume xy: "x \<in> set gs" "y \<in> set gs" "fst x < fst y"
    have "encoded (fst x)" "encoded (fst y)" using xy(1,2) mem(1) order by (metis prod.collapse)+
    then show "fst x < fst y \<and> \<not> prefix (fst x) (fst y)" using encoded_prefix [of "fst x" "fst y" "[]"] xy(3) by auto
  qed
  have pre: "\<forall>g \<in> set gs. \<forall>v \<in> A. \<not> strict_prefix v (fst g)" using free mem(1) by auto
  have ini: "\<forall>g \<in> set gs. \<forall>i \<in> set (snd g). i < length (replicate (length rows) []) \<and> replicate (length rows) [] ! i = []"
    using mem(2) by auto
  obtain es where es: "extend_groups dyn_get_value (dyn_next ops n) dyn_has_next (dyn_seek ops n) n d gs (replicate (length rows) []) = Ok es"
    "length es = length rows"
    "\<forall>g \<in> set gs. \<forall>i \<in> set (snd g). es ! i = map (\<lambda>v. [drop (length (fst g)) v]) (filter (prefix (fst g)) ws)"
    using dyn.extend_groups_ok [OF view so pre dis ini] by (metis length_replicate)
  have "es ! i = map (\<lambda>v. [drop (length (f (rows ! i))) v]) (filter (prefix (f (rows ! i))) ws)" if "i < length rows" for i
  proof -
    let ?is = "filter (\<lambda>j. f (rows ! j) = f (rows ! i)) [0..<length rows]"
    have "i \<in> set ?is" using that by simp
    then have "(f (rows ! i), ?is) \<in> set gs" using gs(3) by (metis empty_iff empty_set)
    then show ?thesis using bspec [OF bspec [OF es(3)]] \<open>i \<in> set ?is\<close> by fastforce
  qed
  then have "es = map (\<lambda>row. map (\<lambda>v. [drop (length (f row)) v]) (filter (prefix (f row)) ws)) rows"
    using es(2) by (intro nth_equalityI) simp_all
  then show ?thesis using gs(1) es(1) by simp
qed

section \<open>What a triple pattern denotes\<close>

definition triple_facts :: "i64 \<Rightarrow> version set \<Rightarrow> i64 \<Rightarrow> (bytes \<times> bytes) set" where
  "triple_facts as_of R a = {(entity_bytes e, encode_datatype v) | e v tx op. fact_holds as_of R (e, a, v, tx, op)}"

fun term_is :: "(variable \<rightharpoonup> bytes) \<Rightarrow> triple_term \<Rightarrow> bytes \<Rightarrow> bool" where
  "term_is k (TVariable v) b \<longleftrightarrow> k v = Some b"
| "term_is k (TConstant c) b \<longleftrightarrow> c = b"

definition triple_sat :: "(bytes \<times> bytes) set \<Rightarrow> triple_term \<Rightarrow> triple_term \<Rightarrow> (variable \<rightharpoonup> bytes) \<Rightarrow> bool" where
  "triple_sat F en vl k \<longleftrightarrow> (\<exists>(e, v) \<in> F. term_is k en e \<and> term_is k vl v)"

fun term_vars :: "triple_term \<Rightarrow> variable list" where
  "term_vars (TVariable v) = [v]"
| "term_vars (TConstant _) = []"

fun term_good :: "(int \<Rightarrow> bool) \<Rightarrow> triple_term \<Rightarrow> bool" where
  "term_good okt (TVariable v) \<longleftrightarrow> True"
| "term_good okt (TConstant c) \<longleftrightarrow> value_good okt c"

abbreviation mk_triple :: "pattern_id \<Rightarrow> triple_term \<Rightarrow> i64 \<Rightarrow> triple_term \<Rightarrow> 'db db_value \<Rightarrow> 'db triple_pattern" where
  "mk_triple i en a vl db \<equiv> \<lparr>tp_id = i, tp_variables = term_vars en @ term_vars vl, tp_entity = en, tp_attribute = a,
     tp_value = vl, tp_db = db\<rparr>"

lemma triple_new_Ok: "triple_new i en a vl db = Ok tp \<longleftrightarrow> distinct (term_vars en @ term_vars vl) \<and> tp = mk_triple i en a vl db"
  by (cases en; cases vl) (auto simp: triple_new_def Let_def)

text \<open>A triple pattern is called to validate when it has no variable or one of them is bound, and to propose
  one of its variables.\<close>

definition triple_can ::
  "('db, 'it) slate_ops \<Rightarrow> ('db \<Rightarrow> bytes set) \<Rightarrow> ('it \<Rightarrow> bytes list) \<Rightarrow> ('it \<Rightarrow> bytes option) \<Rightarrow> nat \<Rightarrow>
     (int \<Rightarrow> bool) \<Rightarrow> schema \<Rightarrow> i64 \<Rightarrow> version set \<Rightarrow> 'db db_value \<Rightarrow> triple_term \<Rightarrow> triple_term \<Rightarrow> variable set \<Rightarrow> variable list \<Rightarrow> bool" where
  "triple_can ops keys rest lk n okt s as_of R db en vl bound added \<longleftrightarrow>
     triple_store ops keys rest lk n okt s as_of R db \<and> term_good okt en \<and> term_good okt vl \<and>
     distinct (term_vars en @ term_vars vl) \<and>
     (if added = [] then term_vars en @ term_vars vl = [] \<or> set (term_vars en @ term_vars vl) \<inter> bound \<noteq> {}
      else \<exists>x \<in> set (term_vars en @ term_vars vl). added = [x] \<and> x \<notin> bound)"

lemma pairs_at_facts:
  "pairs_at AEV_index as_of a R = (\<lambda>(e, v). e @ v) ` triple_facts as_of R a"
  "pairs_at AVE_index as_of a R = (\<lambda>(e, v). v @ e) ` triple_facts as_of R a"
  by (force simp: pairs_at_def triple_facts_def pair_bytes_def)+

lemma store_values:
  assumes "triple_store ops keys rest lk n okt s as_of R db" "(e, a, v, tx, op) \<in> R"
  shows "dt_wf okt v" "storable v" "encoded (encode_datatype v)" "value_good okt (encode_datatype v)" "value_good okt (entity_bytes e)"
proof -
  show v: "dt_wf okt v" using assms by (auto simp: triple_store_def)
  then show "storable v" using dt_wf_storable(1) by blast
  then show "encoded (encode_datatype v)" by (auto simp: encoded_def)
  show "value_good okt (encode_datatype v)" using v by (auto simp: value_good_def encode_def)
  show "value_good okt (entity_bytes e)"
    unfolding value_good_def encode_def entity_bytes_def by (rule exI [of _ "DLong e"]) simp
qed

lemma facts_good:
  assumes "triple_store ops keys rest lk n okt s as_of R db" "(e, v) \<in> triple_facts as_of R a"
  shows "value_good okt e" "value_good okt v" "encoded e" "encoded v"
    "e \<in> components_in AE_index a R" "v \<in> components_in AV_index a R"
proof -
  obtain e' v' tx op where x: "e = entity_bytes e'" "v = encode_datatype v'" "fact_holds as_of R (e', a, v', tx, op)"
    using assms(2) by (auto simp: triple_facts_def)
  have R: "(e', a, v', tx, op) \<in> R" using x(3) by (rule fact_holds_mem)
  have "op \<noteq> RETRACT" using x(3) by (simp add: fact_holds_def)
  then have "op = ADD" using assms(1) R by (auto simp: triple_store_def ops_wf_def)
  then show "e \<in> components_in AE_index a R" "v \<in> components_in AV_index a R"
    using R x(1,2) by (auto simp: components_in_def component_bytes_def)
  show "value_good okt e" "value_good okt v" "encoded e" "encoded v"
    using store_values [OF assms(1) R] x(1,2) by simp_all
qed

text \<open>No value that a cursor passes over is a proper prefix of what is sought.\<close>

lemma pairs_not_prefix:
  assumes "triple_store ops keys rest lk n okt s as_of R db" "x \<in> pairs_in it a R"
  shows "encoded w \<Longrightarrow> \<not> strict_prefix x w" "encoded w \<Longrightarrow> encoded y \<Longrightarrow> \<not> strict_prefix x (w @ y)"
proof -
  obtain e v tx op where x: "x = pair_bytes it e v" "(e, a, v, tx, op) \<in> R" using assms(2) by (auto simp: pairs_in_def)
  have ev: "encoded (encode_datatype v)" using store_values [OF assms(1) x(2)] by simp
  obtain p q where pq: "x = p @ q" "encoded p" "encoded q" using ev x(1) by (auto simp: pair_bytes_def split: if_splits)
  show "\<not> strict_prefix x w" if w: "encoded w"
  proof
    assume "strict_prefix x w"
    then obtain z where "w = p @ q @ z" using pq(1) by (auto simp: strict_prefix_def prefix_def)
    then have "q @ z = []" using encoded_append [OF pq(2) w, of "q @ z" "[]"] by simp
    then show False using encoded_nonempty [OF pq(3)] by simp
  qed
  show "\<not> strict_prefix x (w @ y)" if w: "encoded w" "encoded y"
  proof
    assume s: "strict_prefix x (w @ y)"
    then obtain z where z: "w @ y = p @ q @ z" using pq(1) by (auto simp: strict_prefix_def prefix_def)
    then have "p = w" "q @ z = y" using encoded_append [OF pq(2) w(1), of "q @ z" y] by simp_all
    then have "z = []" using encoded_append [OF pq(3) w(2), of z "[]"] by simp
    then show False using s z pq(1) by (simp add: strict_prefix_def)
  qed
qed

lemma encoded_not_prefix: "encoded x \<Longrightarrow> encoded w \<Longrightarrow> \<not> strict_prefix x w"
  using encoded_prefix [of x w "[]"] by (auto simp: strict_prefix_def)

lemma components_encoded:
  assumes "triple_store ops keys rest lk n okt s as_of R db" "x \<in> components_in it a R"
  shows "encoded x" "value_good okt x"
  using assms(2) store_values [OF assms(1)] by (auto simp: components_in_def component_bytes_def)

lemma rest_of_pairs:
  assumes "triple_store ops keys rest lk n okt s as_of R db" "encoded c"
  shows "x \<in> drop (length c) ` {x \<in> pairs_in it a R. prefix c x} \<Longrightarrow> encoded x"
    "x \<in> drop (length c) ` {x \<in> pairs_at AEV_index as_of a R. prefix c x} \<longleftrightarrow> (c, x) \<in> triple_facts as_of R a"
    "x \<in> drop (length c) ` {x \<in> pairs_at AVE_index as_of a R. prefix c x} \<longleftrightarrow> (x, c) \<in> triple_facts as_of R a"
proof -
  show "encoded x" if x: "x \<in> drop (length c) ` {x \<in> pairs_in it a R. prefix c x}"
  proof -
    obtain e v tx op where y: "x = drop (length c) (pair_bytes it e v)" "prefix c (pair_bytes it e v)" "(e, a, v, tx, op) \<in> R"
      using x by (auto simp: pairs_in_def)
    have "storable v" "encoded (encode_datatype v)" using store_values [OF assms(1) y(3)] by simp_all
    then show ?thesis using y pair_prefix [OF assms(2), of v it e "[]"] by (auto simp: pair_bytes_def split: if_splits)
  qed
  show "x \<in> drop (length c) ` {x \<in> pairs_at AEV_index as_of a R. prefix c x} \<longleftrightarrow> (c, x) \<in> triple_facts as_of R a"
  proof
    assume "x \<in> drop (length c) ` {x \<in> pairs_at AEV_index as_of a R. prefix c x}"
    then obtain e v where "(e, v) \<in> triple_facts as_of R a" "prefix c (e @ v)" "x = drop (length c) (e @ v)"
      unfolding pairs_at_facts by auto
    then show "(c, x) \<in> triple_facts as_of R a" using facts_good(3) [OF assms(1)] encoded_prefix [OF assms(2)] by auto
  next
    assume "(c, x) \<in> triple_facts as_of R a"
    then have "c @ x \<in> {x \<in> pairs_at AEV_index as_of a R. prefix c x}" unfolding pairs_at_facts by force
    then show "x \<in> drop (length c) ` {x \<in> pairs_at AEV_index as_of a R. prefix c x}"
      by (rule rev_image_eqI) simp
  qed
  show "x \<in> drop (length c) ` {x \<in> pairs_at AVE_index as_of a R. prefix c x} \<longleftrightarrow> (x, c) \<in> triple_facts as_of R a"
  proof
    assume "x \<in> drop (length c) ` {x \<in> pairs_at AVE_index as_of a R. prefix c x}"
    then obtain e v where "(e, v) \<in> triple_facts as_of R a" "prefix c (v @ e)" "x = drop (length c) (v @ e)"
      unfolding pairs_at_facts by auto
    then show "(x, c) \<in> triple_facts as_of R a" using facts_good(4) [OF assms(1)] encoded_prefix [OF assms(2)] by auto
  next
    assume "(x, c) \<in> triple_facts as_of R a"
    then have "c @ x \<in> {x \<in> pairs_at AVE_index as_of a R. prefix c x}" unfolding pairs_at_facts by force
    then show "x \<in> drop (length c) ` {x \<in> pairs_at AVE_index as_of a R. prefix c x}"
      by (rule rev_image_eqI) simp
  qed
qed

lemma column_row:
  assumes "layout_ok vs rs" "v \<in> set vs"
  obtains i where "column_index (mk_bag vs rs) v = Ok i" "\<And>r. r \<in> set rs \<Longrightarrow> row_at r i = Ok (the (row_map vs r v))"
proof -
  obtain i where i: "map_of (zip vs [0..<length vs]) v = Some i"
    using zip_pos [of vs v] assms(2) by (cases "map_of (zip vs [0..<length vs]) v") simp_all
  have "row_at r i = Ok (the (row_map vs r v))" if "r \<in> set rs" for r
    using row_position [OF assms(1) that assms(2)] i by (metis option.inject option.sel row_at_def)
  then show thesis using that [of i] i by (simp add: column_index_def)
qed

lemma check_column_ok:
  assumes layout: "layout_ok vs rs" "v \<in> set vs" and iter: "new_iterator = Ok d"
    and view: "dyn_cursor ops keys rest lk n A d ws"
    and good: "\<And>r. r \<in> set rs \<Longrightarrow> encoded (the (row_map vs r v))"
    and free: "\<And>x w. x \<in> A \<Longrightarrow> encoded w \<Longrightarrow> \<not> strict_prefix x w"
  shows "check_column ops n (mk_bag vs rs) v new_iterator = Ok (map (\<lambda>r. the (row_map vs r v) \<in> set ws) rs)"
proof -
  obtain i where i: "column_index (mk_bag vs rs) v = Ok i" "\<And>r. r \<in> set rs \<Longrightarrow> row_at r i = Ok (the (row_map vs r v))"
    by (rule column_row [OF layout]) blast
  have "rbind (group_rows (\<lambda>row. row_at row i) rs) (\<lambda>gs. check_groups dyn_get_value dyn_has_next (dyn_seek ops n) d
      (map (\<lambda>(k, is). (k, is)) gs) (replicate (length rs) False)) = Ok (map (\<lambda>r. the (row_map vs r v) \<in> set ws) rs)"
    by (rule check_rows [OF view]) (use i(2) good free in auto)
  then show ?thesis using i(1) iter by (simp add: check_column_def)
qed

section \<open>Validation\<close>

fun term_value :: "(variable \<rightharpoonup> bytes) \<Rightarrow> triple_term \<Rightarrow> bytes" where
  "term_value k (TVariable v) = the (k v)"
| "term_value k (TConstant c) = c"

definition triple_row ::
  "i64 \<Rightarrow> version set \<Rightarrow> i64 \<Rightarrow> triple_term \<Rightarrow> triple_term \<Rightarrow> variable list \<Rightarrow> binding_row \<Rightarrow> bool" where
  "triple_row as_of R a en vl vs r \<longleftrightarrow>
     (if set (term_vars en) \<subseteq> set vs \<and> set (term_vars vl) \<subseteq> set vs
      then (term_value (row_map vs r) en, term_value (row_map vs r) vl) \<in> triple_facts as_of R a
      else if set (term_vars en) \<subseteq> set vs then term_value (row_map vs r) en \<in> components_in AE_index a R
      else term_value (row_map vs r) vl \<in> components_in AV_index a R)"

lemma bag_values:
  assumes "bag_ok (value_good okt) (mk_bag vs rs)" "r \<in> set rs" "v \<in> set vs"
  shows "value_good okt (the (row_map vs r v))" "encoded (the (row_map vs r v))" "row_map vs r v = Some (the (row_map vs r v))"
proof -
  have "layout_ok vs rs" using bag_ok_wf [OF assms(1)] by simp
  then obtain i where i: "row_map vs r v = Some (r ! i)" using row_position [OF _ assms(2,3)] by blast
  then show "value_good okt (the (row_map vs r v))" using assms(1,2) by (auto simp: bag_ok_def bag_maps_def ran_def)
  then show "encoded (the (row_map vs r v))" by (rule value_good_encoded)
  show "row_map vs r v = Some (the (row_map vs r v))" using i by simp
qed

lemma facts_pair:
  assumes "triple_store ops keys rest lk n okt s as_of R db" "encoded e" "encoded v"
  shows "e @ v \<in> pairs_at AEV_index as_of a R \<longleftrightarrow> (e, v) \<in> triple_facts as_of R a"
proof
  assume "e @ v \<in> pairs_at AEV_index as_of a R"
  then obtain e' v' where x: "(e', v') \<in> triple_facts as_of R a" "e @ v = e' @ v'" unfolding pairs_at_facts by auto
  then show "(e, v) \<in> triple_facts as_of R a"
    using encoded_append [OF assms(2) facts_good(3) [OF assms(1) x(1)], of v v'] by simp
qed (auto simp: pairs_at_facts)

lemma constant_iterator:
  assumes store: "triple_store ops keys rest lk n okt s as_of R (tp_db tp)" and it: "it \<in> {AEV_index, AVE_index}" and c: "encoded c"
  obtains d where "rbind (base_prefix tp it) (\<lambda>base. create_iterator ops n tp (base @ c) it (make_extractor 2 it)) = Ok d"
    "dyn_cursor ops keys rest lk n (drop (length c) ` {x \<in> pairs_in it (tp_attribute tp) R. prefix c x}) d
      (sorted_list_of_set (drop (length c) ` {x \<in> pairs_at it as_of (tp_attribute tp) R. prefix c x}))"
    "set (sorted_list_of_set (drop (length c) ` {x \<in> pairs_at it as_of (tp_attribute tp) R. prefix c x})) =
      drop (length c) ` {x \<in> pairs_at it as_of (tp_attribute tp) R. prefix c x}"
proof -
  have "finite (pairs_at it as_of (tp_attribute tp) R)"
    using small_values(1) [OF store pairs_in_keys [OF store it]] pairs_at_in finite_subset by metis
  then have "finite (drop (length c) ` {x \<in> pairs_at it as_of (tp_attribute tp) R. prefix c x})" by simp
  then show thesis
    using that constant_cursor [OF store it c refl, of "make_extractor 2 it"] by (auto simp: base_prefix_eq)
qed

lemma pair_indices: "AEV_index \<in> {AEV_index, AVE_index}" "AVE_index \<in> {AEV_index, AVE_index}"
  by simp_all

lemma triple_matches_ok:
  assumes can: "triple_can ops keys rest lk n okt s as_of R db en vl (set vs) []"
    and b: "bag_ok (value_good okt) (mk_bag vs rs)"
  shows "triple_matches ops n (mk_triple i en a vl db) (mk_bag vs rs) = Ok (map (triple_row as_of R a en vl vs) rs)"
proof -
  let ?tp = "mk_triple i en a vl db"
  have store: "triple_store ops keys rest lk n okt s as_of R (tp_db ?tp)" and good: "term_good okt en" "term_good okt vl"
    and vars: "term_vars en @ term_vars vl = [] \<or> set (term_vars en @ term_vars vl) \<inter> set vs \<noteq> {}"
    using can by (simp_all add: triple_can_def)
  have store': "triple_store ops keys rest lk n okt s as_of R db" using store by simp
  have layout: "layout_ok vs rs" using bag_ok_wf [OF b] by simp
  have bound: "column_indexes (mk_bag vs rs) v = None \<longleftrightarrow> v \<notin> set vs" for v using zip_pos [of vs v] by auto
  have comp: "\<exists>d. attr_var_iterator ops n ?tp it = Ok d \<and> dyn_cursor ops keys rest lk n (components_in it a R) d
      (sorted_list_of_set (components_in it a R))" "finite (components_in it a R)" if "it \<in> {AE_index, AV_index}" for it
    using attr_var_cursor [OF store that] small_values(1) [OF store' components_in_keys [OF store' that]] by simp_all
  show ?thesis
  proof (cases en)
    case en: (TConstant e)
    then have e: "encoded e" using good(1) value_good_encoded by simp
    obtain d where d: "rbind (base_prefix ?tp AEV_index) (\<lambda>base. create_iterator ops n ?tp (base @ e) AEV_index (make_extractor 2 AEV_index)) = Ok d"
      "dyn_cursor ops keys rest lk n (drop (length e) ` {x \<in> pairs_in AEV_index (tp_attribute ?tp) R. prefix e x}) d
        (sorted_list_of_set (drop (length e) ` {x \<in> pairs_at AEV_index as_of (tp_attribute ?tp) R. prefix e x}))"
      and ws: "set (sorted_list_of_set (drop (length e) ` {x \<in> pairs_at AEV_index as_of (tp_attribute ?tp) R. prefix e x})) =
        drop (length e) ` {x \<in> pairs_at AEV_index as_of (tp_attribute ?tp) R. prefix e x}"
      by (rule constant_iterator [OF store pair_indices(1) e])
    have in_ws: "x \<in> set (sorted_list_of_set (drop (length e) ` {x \<in> pairs_at AEV_index as_of (tp_attribute ?tp) R. prefix e x})) \<longleftrightarrow>
        (e, x) \<in> triple_facts as_of R a" for x unfolding ws using rest_of_pairs(2) [OF store' e] by simp
    have free: "\<not> strict_prefix x w" if "x \<in> drop (length e) ` {x \<in> pairs_in AEV_index (tp_attribute ?tp) R. prefix e x}" "encoded w" for x w
      using rest_of_pairs(1) [OF store' e that(1)] that(2) by (rule encoded_not_prefix)
    show ?thesis
    proof (cases vl)
      case vl: (TConstant v)
      then have v: "encoded v" using good(2) value_good_encoded by simp
      have "rbind (if dyn_has_next d then rbind (dyn_seek ops n d v) (\<lambda>d. rbind (dyn_get_value d) (\<lambda>x. Ok (x = Some v))) else Ok False)
          (\<lambda>m. Ok (replicate (length rs) m)) = Ok (replicate (length rs) ((e, v) \<in> triple_facts as_of R a))"
      proof -
        let ?ws = "sorted_list_of_set (drop (length e) ` {x \<in> pairs_at AEV_index as_of (tp_attribute ?tp) R. prefix e x})"
        have "check_groups dyn_get_value dyn_has_next (dyn_seek ops n) d [(v, [0])] [False] = Ok [v \<in> set ?ws]"
        proof -
          have so: "sorted_wrt (\<lambda>g h. fst g < fst h) [(v, [0])]" by simp
          have fr: "\<forall>g \<in> set [(v, [0])]. \<forall>x \<in> drop (length e) ` {x \<in> pairs_in AEV_index (tp_attribute ?tp) R. prefix e x}. \<not> strict_prefix x (fst g)"
            using free v by simp
          have di: "distinct (concat (map snd [(v, [0 :: nat])]))" by simp
          have ini: "\<forall>g \<in> set [(v, [0])]. \<forall>i \<in> set (snd g). i < length [False] \<and> \<not> [False] ! i" by simp
          obtain ms where ms: "check_groups dyn_get_value dyn_has_next (dyn_seek ops n) d [(v, [0])] [False] = Ok ms"
            "length ms = length [False]" "\<forall>g \<in> set [(v, [0])]. \<forall>i \<in> set (snd g). ms ! i \<longleftrightarrow> fst g \<in> set ?ws"
            using dyn.check_groups_ok [OF d(2) so fr di ini] by blast
          then show ?thesis by (cases ms) simp_all
        qed
        then show ?thesis unfolding in_ws
          by (cases "dyn_seek ops n d v"; cases "dyn_has_next d") (auto simp: set_at_def rbind_def split: sum.splits if_splits)
      qed
      moreover have "tp_entity ?tp = TConstant e" "tp_value ?tp = TConstant v" using en vl by simp_all
      moreover have "map (triple_row as_of R a en vl vs) rs = replicate (length rs) ((e, v) \<in> triple_facts as_of R a)"
      proof -
        have "triple_row as_of R a en vl vs = (\<lambda>_. (e, v) \<in> triple_facts as_of R a)"
          using en vl by (simp add: triple_row_def fun_eq_iff)
        then show ?thesis by (simp add: map_replicate_const)
      qed
      ultimately show ?thesis
        unfolding triple_matches_def Let_def by (simp only: prod.case triple_term.case d(1) rbind_simps mk_bag_simps)
    next
      case vl: (TVariable y)
      then have y: "y \<in> set vs" using vars en by simp
      have "check_column ops n (mk_bag vs rs) y (rbind (base_prefix ?tp AEV_index) (\<lambda>base.
          create_iterator ops n ?tp (base @ e) AEV_index (make_extractor 2 AEV_index))) =
        Ok (map (\<lambda>r. the (row_map vs r y) \<in> set (sorted_list_of_set (drop (length e) ` {x \<in> pairs_at AEV_index as_of (tp_attribute ?tp) R. prefix e x}))) rs)"
        by (rule check_column_ok [OF layout y d]) (use bag_values(2) [OF b _ y] free in blast)+
      then show ?thesis unfolding in_ws using en vl y bound [of y]
        by (auto simp: triple_matches_def Let_def triple_row_def)
    qed
  next
    case en: (TVariable x)
    show ?thesis
    proof (cases vl)
      case vl: (TConstant v)
      then have v: "encoded v" using good(2) value_good_encoded by simp
      have x: "x \<in> set vs" using vars en vl by simp
      obtain d where d: "rbind (base_prefix ?tp AVE_index) (\<lambda>base. create_iterator ops n ?tp (base @ v) AVE_index (make_extractor 2 AVE_index)) = Ok d"
        "dyn_cursor ops keys rest lk n (drop (length v) ` {x \<in> pairs_in AVE_index (tp_attribute ?tp) R. prefix v x}) d
          (sorted_list_of_set (drop (length v) ` {x \<in> pairs_at AVE_index as_of (tp_attribute ?tp) R. prefix v x}))"
        and ws: "set (sorted_list_of_set (drop (length v) ` {x \<in> pairs_at AVE_index as_of (tp_attribute ?tp) R. prefix v x})) =
          drop (length v) ` {x \<in> pairs_at AVE_index as_of (tp_attribute ?tp) R. prefix v x}"
        by (rule constant_iterator [OF store pair_indices(2) v])
      have in_ws: "x \<in> set (sorted_list_of_set (drop (length v) ` {x \<in> pairs_at AVE_index as_of (tp_attribute ?tp) R. prefix v x})) \<longleftrightarrow>
          (x, v) \<in> triple_facts as_of R a" for x unfolding ws using rest_of_pairs(3) [OF store' v] by simp
      have free: "\<not> strict_prefix x w" if "x \<in> drop (length v) ` {x \<in> pairs_in AVE_index (tp_attribute ?tp) R. prefix v x}" "encoded w" for x w
        using rest_of_pairs(1) [OF store' v that(1)] that(2) by (rule encoded_not_prefix)
      have "check_column ops n (mk_bag vs rs) x (rbind (base_prefix ?tp AVE_index) (\<lambda>base.
          create_iterator ops n ?tp (base @ v) AVE_index (make_extractor 2 AVE_index))) =
        Ok (map (\<lambda>r. the (row_map vs r x) \<in> set (sorted_list_of_set (drop (length v) ` {x \<in> pairs_at AVE_index as_of (tp_attribute ?tp) R. prefix v x}))) rs)"
        by (rule check_column_ok [OF layout x d]) (use bag_values(2) [OF b _ x] free in blast)+
      then show ?thesis unfolding in_ws using en vl x bound [of x]
        by (auto simp: triple_matches_def Let_def triple_row_def)
    next
      case vl: (TVariable y)
      have one: "check_column ops n (mk_bag vs rs) z (attr_var_iterator ops n ?tp it) = Ok (map (\<lambda>r. the (row_map vs r z) \<in> components_in it a R) rs)"
        if z: "z \<in> set vs" "it \<in> {AE_index, AV_index}" for z it
      proof -
        obtain d where d: "attr_var_iterator ops n ?tp it = Ok d" "dyn_cursor ops keys rest lk n (components_in it a R) d (sorted_list_of_set (components_in it a R))"
          using comp(1) [OF z(2)] by blast
        have "check_column ops n (mk_bag vs rs) z (attr_var_iterator ops n ?tp it) =
            Ok (map (\<lambda>r. the (row_map vs r z) \<in> set (sorted_list_of_set (components_in it a R))) rs)"
          by (rule check_column_ok [OF layout z(1) d])
            (use bag_values(2) [OF b _ z(1)] components_encoded(1) [OF store'] encoded_not_prefix in blast)+
        then show ?thesis using comp(2) [OF z(2)] by simp
      qed
      show ?thesis
      proof (cases "x \<in> set vs \<and> y \<in> set vs")
        case False
        then consider "x \<in> set vs" "y \<notin> set vs" | "x \<notin> set vs" "y \<in> set vs" using vars en vl by auto
        then show ?thesis
          by cases (use one [of x AE_index] one [of y AV_index] en vl bound [of x] bound [of y] in
              \<open>auto simp: triple_matches_def Let_def triple_row_def\<close>)
      next
        case True
        obtain d where d: "attr_var_pair_iterator ops n ?tp AEV_index = Ok d"
          "dyn_cursor ops keys rest lk n (pairs_in AEV_index a R) d (sorted_list_of_set (pairs_at AEV_index as_of a R))"
          using pair_cursor [OF store, of AEV_index] by auto
        have fin: "finite (pairs_at AEV_index as_of a R)"
          using small_values(1) [OF store' pairs_in_keys [OF store']] pairs_at_in finite_subset by (metis insertI1)
        obtain ix where ix: "column_index (mk_bag vs rs) x = Ok ix" "\<And>r. r \<in> set rs \<Longrightarrow> row_at r ix = Ok (the (row_map vs r x))"
          by (rule column_row [OF layout conjunct1 [OF True]]) blast
        obtain iy where iy: "column_index (mk_bag vs rs) y = Ok iy" "\<And>r. r \<in> set rs \<Longrightarrow> row_at r iy = Ok (the (row_map vs r y))"
          by (rule column_row [OF layout conjunct2 [OF True]]) blast
        let ?f = "\<lambda>r. (the (row_map vs r x), the (row_map vs r y))"
        have enc: "encoded (fst (?f r))" "encoded (snd (?f r))" if "r \<in> set rs" for r
          using bag_values(2) [OF b that] True by simp_all
        have "rbind (group_rows (\<lambda>row. rbind (row_at row ix) (\<lambda>e. rbind (row_at row iy) (\<lambda>v. Ok (e, v)))) rs)
            (\<lambda>gs. check_groups dyn_get_value dyn_has_next (dyn_seek ops n) d (map (\<lambda>(k, is). ((\<lambda>(e, v). e @ v) k, is)) gs)
              (replicate (length rs) False)) =
          Ok (map (\<lambda>r. (\<lambda>(e, v). e @ v) (?f r) \<in> set (sorted_list_of_set (pairs_at AEV_index as_of a R))) rs)"
        proof (rule check_rows [OF d(2)])
          fix p q assume pq: "p \<in> ?f ` set rs" "q \<in> ?f ` set rs" "p < q"
          then have "encoded (fst p)" "encoded (fst q)" using enc(1) by auto
          then show "(\<lambda>(e, v). e @ v) p < (\<lambda>(e, v). e @ v) q"
            using pq(3) encoded_order [of "fst p" "fst q"] by (cases p; cases q) (auto simp: less_prod_def le_less)
        next
          fix p w assume "p \<in> ?f ` set rs" "w \<in> pairs_in AEV_index a R"
          then show "\<not> strict_prefix w ((\<lambda>(e, v). e @ v) p)" using pairs_not_prefix(2) [OF store'] enc by auto
        qed (use ix(2) iy(2) in simp)
        moreover have eqf: "(\<lambda>(k, is). ((\<lambda>(e, v). e @ v) k, is)) = (\<lambda>((e, v), is). (e @ v, is :: nat list))"
          by (auto simp: fun_eq_iff)
        ultimately have found: "rbind (group_rows (\<lambda>row. rbind (row_at row ix) (\<lambda>e. rbind (row_at row iy) (\<lambda>v. Ok (e, v)))) rs)
            (\<lambda>gs. check_groups dyn_get_value dyn_has_next (dyn_seek ops n) d (map (\<lambda>((e, v), is). (e @ v, is)) gs)
              (replicate (length rs) False)) =
          Ok (map (\<lambda>r. (\<lambda>(e, v). e @ v) (?f r) \<in> set (sorted_list_of_set (pairs_at AEV_index as_of a R))) rs)"
          by (simp only: eqf)
        have "(\<lambda>(e, v). e @ v) (?f r) \<in> pairs_at AEV_index as_of a R \<longleftrightarrow> ?f r \<in> triple_facts as_of R a" if "r \<in> set rs" for r
          using facts_pair [OF store'] enc [OF that] by simp
        then have rows: "map (\<lambda>r. (\<lambda>(e, v). e @ v) (?f r) \<in> set (sorted_list_of_set (pairs_at AEV_index as_of a R))) rs =
            map (triple_row as_of R a en vl vs) rs"
          using fin True en vl by (simp add: triple_row_def)
        have bd: "column_indexes (mk_bag vs rs) x \<noteq> None" "column_indexes (mk_bag vs rs) y \<noteq> None"
          using True bound by auto
        have tm: "tp_entity ?tp = TVariable x" "tp_value ?tp = TVariable y" using en vl by simp_all
        show ?thesis
          unfolding triple_matches_def Let_def tm prod.case triple_term.case ix(1) iy(1) d(1) rbind_simps rows [symmetric]
          using bd found by (simp only: prod.case mk_bag_simps not_False_eq_True simp_thms if_True if_False)
      qed
    qed
  qed
qed

lemma enumerate_matches: "map fst (filter snd (enumerate 0 (map Q rs))) = map fst (filter (\<lambda>x. Q (snd x)) (enumerate 0 rs))"
proof -
  have "enumerate 0 (map Q rs) = map (\<lambda>(i, r). (i, Q r)) (enumerate 0 rs)"
    by (rule nth_equalityI) (simp_all add: nth_enumerate_eq)
  then show ?thesis by (simp add: filter_map o_def split_beta)
qed

lemma triple_validate_ok:
  assumes can: "triple_can ops keys rest lk n okt s as_of R db en vl (set vs) []"
    and b: "bag_ok (value_good okt) (mk_bag vs rs)"
  shows "triple_validate ops n (mk_triple i en a vl db) (mk_bag vs rs) = Ok (mk_bag vs (filter (triple_row as_of R a en vl vs) rs))"
proof -
  have bound: "column_indexes (mk_bag vs rs) v = None \<longleftrightarrow> v \<notin> set vs" for v using zip_pos [of vs v] by auto
  have vars: "term_vars en @ term_vars vl = [] \<or> (\<exists>v \<in> set (term_vars en @ term_vars vl). column_indexes (mk_bag vs rs) v \<noteq> None)"
    unfolding bound using can by (auto simp: triple_can_def)
  show ?thesis
  proof (cases "rs = []")
    case True
    then show ?thesis using vars select_rows_ok [of "[]" rs vs] by (simp add: triple_validate_def)
  next
    case False
    then show ?thesis
      using vars triple_matches_ok [OF can b, of i a] select_filter [of vs rs "triple_row as_of R a en vl vs"]
      by (simp add: triple_validate_def enumerate_matches)
  qed
qed

lemma term_is_value: "set (term_vars t) \<subseteq> dom k \<Longrightarrow> term_is k t b \<longleftrightarrow> term_value k t = b"
  by (cases t) auto

lemma term_is_le: "k \<subseteq>\<^sub>m n \<Longrightarrow> set (term_vars t) \<subseteq> dom k \<Longrightarrow> term_is n t b \<Longrightarrow> term_value k t = b"
  by (cases t) (auto simp: map_le_def domIff)

lemma triple_row_sat:
  assumes "layout_ok vs rs" "r \<in> set rs" "set (term_vars en @ term_vars vl) \<subseteq> set vs"
  shows "triple_row as_of R a en vl vs r \<longleftrightarrow> triple_sat (triple_facts as_of R a) en vl (row_map vs r)"
proof -
  have "dom (row_map vs r) = set vs" using assms(1,2) by (simp add: layout_ok_def dom_row_map)
  then show ?thesis
    using assms(3) term_is_value [of en "row_map vs r"] term_is_value [of vl "row_map vs r"]
    by (auto simp: triple_row_def triple_sat_def)
qed

lemma triple_row_complete:
  assumes store: "triple_store ops keys rest lk n okt s as_of R db" and "layout_ok vs rs" "r \<in> set rs"
    and "triple_sat (triple_facts as_of R a) en vl m" "row_map vs r \<subseteq>\<^sub>m m"
    and some: "term_vars en @ term_vars vl = [] \<or> set (term_vars en @ term_vars vl) \<inter> set vs \<noteq> {}"
    and "distinct (term_vars en @ term_vars vl)"
  shows "triple_row as_of R a en vl vs r"
proof -
  have dom: "dom (row_map vs r) = set vs" using assms(2,3) by (simp add: layout_ok_def dom_row_map)
  obtain e v where ev: "(e, v) \<in> triple_facts as_of R a" "term_is m en e" "term_is m vl v"
    using assms(4) by (auto simp: triple_sat_def)
  have "term_value (row_map vs r) en = e" if "set (term_vars en) \<subseteq> set vs"
    using term_is_le [OF assms(5) _ ev(2)] that dom by simp
  moreover have "term_value (row_map vs r) vl = v" if "set (term_vars vl) \<subseteq> set vs"
    using term_is_le [OF assms(5) _ ev(3)] that dom by simp
  moreover have "set (term_vars en) \<subseteq> set vs \<or> set (term_vars vl) \<subseteq> set vs"
    using some by (cases en; cases vl) auto
  ultimately show ?thesis using ev(1) facts_good(5,6) [OF store ev(1)] by (auto simp: triple_row_def)
qed

section \<open>Proposals\<close>

definition position_index :: "triple_position \<Rightarrow> index_type" where
  "position_index pos = (case pos of Entity_position \<Rightarrow> AE_index | Value_position \<Rightarrow> AV_index)"

definition candidate ::
  "i64 \<Rightarrow> version set \<Rightarrow> i64 \<Rightarrow> triple_position \<Rightarrow> triple_term \<Rightarrow> variable list \<Rightarrow> binding_row \<Rightarrow> bytes \<Rightarrow> bool" where
  "candidate as_of R a pos other vs r w \<longleftrightarrow>
     (if set (term_vars other) \<subseteq> set vs
      then (case pos of Entity_position \<Rightarrow> (w, term_value (row_map vs r) other) \<in> triple_facts as_of R a
            | Value_position \<Rightarrow> (term_value (row_map vs r) other, w) \<in> triple_facts as_of R a)
      else w \<in> components_in (position_index pos) a R)"

lemma pair_rest:
  assumes "triple_store ops keys rest lk n okt s as_of R db" "encoded c"
  shows "[w] \<in> set (map (\<lambda>v. [drop (length c) v]) (filter (prefix c) (sorted_list_of_set (pairs_at (index_type_for pos True) as_of a R)))) \<longleftrightarrow>
    (case pos of Entity_position \<Rightarrow> (w, c) \<in> triple_facts as_of R a | Value_position \<Rightarrow> (c, w) \<in> triple_facts as_of R a)"
    "distinct (map (\<lambda>v. [drop (length c) v]) (filter (prefix c) (sorted_list_of_set (pairs_at (index_type_for pos True) as_of a R))))"
proof -
  let ?P = "pairs_at (index_type_for pos True) as_of a R"
  have it: "index_type_for pos True \<in> {AEV_index, AVE_index}" by (cases pos) simp_all
  have "finite ?P" using small_values(1) [OF assms(1) pairs_in_keys [OF assms(1) it]] pairs_at_in finite_subset by metis
  then have "[w] \<in> set (map (\<lambda>v. [drop (length c) v]) (filter (prefix c) (sorted_list_of_set ?P))) \<longleftrightarrow>
      w \<in> drop (length c) ` {x \<in> ?P. prefix c x}" by auto
  then show "[w] \<in> set (map (\<lambda>v. [drop (length c) v]) (filter (prefix c) (sorted_list_of_set ?P))) \<longleftrightarrow>
    (case pos of Entity_position \<Rightarrow> (w, c) \<in> triple_facts as_of R a | Value_position \<Rightarrow> (c, w) \<in> triple_facts as_of R a)"
    using rest_of_pairs(2,3) [OF assms, of w a] by (cases pos) auto
  have "inj_on (\<lambda>v. [drop (length c) v]) (set (filter (prefix c) (sorted_list_of_set ?P)))"
    by (auto simp: inj_on_def prefix_def)
  then show "distinct (map (\<lambda>v. [drop (length c) v]) (filter (prefix c) (sorted_list_of_set ?P)))"
    by (simp add: distinct_map)
qed

lemma triple_candidates:
  assumes store: "triple_store ops keys rest lk n okt s as_of R db"
    and good: "term_good okt en" "term_good okt vl" and b: "bag_ok (value_good okt) (mk_bag vs rs)"
    and other: "other = other_term (mk_triple i en a vl db) pos"
  obtains exts where "triple_candidate_extensions ops n (mk_triple i en a vl db) (mk_bag vs rs) pos = Ok (map exts rs)"
    "\<forall>r \<in> set rs. distinct (exts r) \<and> (\<forall>x \<in> set (exts r). \<exists>w. x = [w]) \<and> (\<forall>w. [w] \<in> set (exts r) \<longleftrightarrow> candidate as_of R a pos other vs r w)"
proof (cases "rs = []")
  case True
  then show thesis using that [of "\<lambda>_. []"] by (simp add: triple_candidate_extensions_def)
next
  case False
  let ?tp = "mk_triple i en a vl db" and ?it = "index_type_for pos True"
  have store': "triple_store ops keys rest lk n okt s as_of R (tp_db ?tp)" using store by simp
  have layout: "layout_ok vs rs" using bag_ok_wf [OF b] by simp
  have it: "?it \<in> {AEV_index, AVE_index}" by (cases pos) simp_all
  have og: "term_good okt other" using good other by (cases pos) (simp_all add: other_term_def)
  show thesis
  proof (cases other)
    case c: (TConstant c)
    have ce: "encoded c" using og c value_good_encoded by simp
    let ?p = "index_byte ?it # encode_i64_bytes a @ c"
    let ?W = "drop (length c) ` {x \<in> pairs_at ?it as_of a R. prefix c x}"
    obtain d where d: "create_iterator ops n ?tp ?p ?it (after_prefix (length ?p)) = Ok d"
      "dyn_cursor ops keys rest lk n (drop (length c) ` {x \<in> pairs_in ?it a R. prefix c x}) d (sorted_list_of_set ?W)"
      using constant_cursor [OF store' it ce, of ?p "after_prefix (length ?p)"] by auto
    have sub: "?W \<subseteq> (\<lambda>k. drop (length c) (drop 9 (logical_key k))) ` keys (dv_sdb db)"
      using pairs_in_keys [OF store it, of a] pairs_at_in [of ?it as_of a R] by blast
    have W: "finite ?W" "length (sorted_list_of_set ?W) < n" using small_values [OF store sub] by simp_all
    have "collect_values dyn_get_value (dyn_next ops n) n d = Ok (sorted_list_of_set ?W)"
      by (rule dyn.collect_view [OF d(2) W(2)])
    moreover have "index_byte ?it # encode_i64_bytes a @ c = (index_byte ?it # encode_i64_bytes a) @ c" by simp
    ultimately have "triple_candidate_extensions ops n ?tp (mk_bag vs rs) pos =
        Ok (map (\<lambda>_. map (\<lambda>v. [v]) (sorted_list_of_set ?W)) rs)"
      using False d(1) c other [symmetric] base_prefix_eq [of ?tp ?it]
      by (simp add: triple_candidate_extensions_def Let_def map_replicate_const)
    moreover have "w \<in> ?W \<longleftrightarrow> candidate as_of R a pos other vs r w" for w r
      using rest_of_pairs(2,3) [OF store ce, of w a] c by (cases pos) (auto simp: candidate_def)
    ultimately show thesis
      using W(1) by (intro that [of "\<lambda>_. map (\<lambda>v. [v]) (sorted_list_of_set ?W)"]) (auto simp: distinct_map inj_on_def)
  next
    case v: (TVariable y)
    show thesis
    proof (cases "y \<in> set vs")
      case True
      obtain ix where ix: "column_index (mk_bag vs rs) y = Ok ix" "\<And>r. r \<in> set rs \<Longrightarrow> row_at r ix = Ok (the (row_map vs r y))"
        by (rule column_row [OF layout True]) blast
      let ?ws = "sorted_list_of_set (pairs_at ?it as_of a R)"
      let ?f = "\<lambda>r. the (row_map vs r y)"
      let ?exts = "\<lambda>r. map (\<lambda>v. [drop (length (?f r)) v]) (filter (prefix (?f r)) ?ws)"
      obtain d where d: "attr_var_pair_iterator ops n ?tp ?it = Ok d" "dyn_cursor ops keys rest lk n (pairs_in ?it a R) d ?ws"
        using pair_cursor [OF store' it] by auto
      have "pairs_at ?it as_of a R \<subseteq> (\<lambda>k. drop 9 (logical_key k)) ` keys (dv_sdb db)"
        using pairs_in_keys [OF store it] pairs_at_in by blast
      then have len: "length ?ws < n" using small_values(2) [OF store] by blast
      have run: "rbind (group_rows (\<lambda>row. row_at row ix) rs) (\<lambda>gs. extend_groups dyn_get_value (dyn_next ops n) dyn_has_next (dyn_seek ops n) n d
          gs (replicate (length rs) [])) = Ok (map ?exts rs)"
        by (rule extend_rows_groups [OF d(2) len])
          (use ix(2) bag_values(2) [OF b _ True] pairs_not_prefix(1) [OF store] in auto)
      have ne: "groups \<noteq> []" if "group_rows (\<lambda>row. row_at row ix) rs = Ok groups" for groups
      proof -
        obtain gs where gs: "group_rows (\<lambda>row. row_at row ix) rs = Ok gs" "bt_wf gs"
          "\<forall>k is. (k, is) \<in> set gs \<longleftrightarrow> is = filter (\<lambda>i. ?f (rs ! i) = k) [0..<length rs] \<and> is \<noteq> []"
          by (rule group_rows_ok [of rs "\<lambda>row. row_at row ix" ?f, OF ix(2)])
        have "0 \<in> set (filter (\<lambda>i. ?f (rs ! i) = ?f (rs ! 0)) [0..<length rs])" using False by simp
        then have "(?f (rs ! 0), filter (\<lambda>i. ?f (rs ! i) = ?f (rs ! 0)) [0..<length rs]) \<in> set gs"
          using gs(3) by (metis empty_iff empty_set)
        then show ?thesis using gs(1) that by auto
      qed
      have "triple_candidate_extensions ops n ?tp (mk_bag vs rs) pos = Ok (map ?exts rs)"
        using run False ix(1) d(1) v True other [symmetric] ne
        by (auto simp: triple_candidate_extensions_def)
      moreover have "distinct (?exts r) \<and> (\<forall>x \<in> set (?exts r). \<exists>w. x = [w]) \<and>
          (\<forall>w. [w] \<in> set (?exts r) \<longleftrightarrow> candidate as_of R a pos other vs r w)" if "r \<in> set rs" for r
      proof -
        note enc = bag_values(2) [OF b that True]
        have "candidate as_of R a pos other vs r w \<longleftrightarrow> [w] \<in> set (?exts r)" for w
          unfolding pair_rest(1) [OF store enc] using v True by (cases pos) (simp_all add: candidate_def)
        then show ?thesis using pair_rest(2) [OF store enc, of pos a] by auto
      qed
      ultimately show thesis using that by blast
    next
      case False': False
      let ?ci = "position_index pos" and ?W = "components_in (position_index pos) a R"
      have ci: "?ci \<in> {AE_index, AV_index}" "index_type_for pos False = ?ci" by (cases pos; simp add: position_index_def)+
      obtain d where d: "attr_var_iterator ops n ?tp ?ci = Ok d" "dyn_cursor ops keys rest lk n ?W d (sorted_list_of_set ?W)"
        using attr_var_cursor [OF store' ci(1)] by auto
      have W: "finite ?W" "length (sorted_list_of_set ?W) < n"
        using small_values [OF store components_in_keys [OF store ci(1)]] by simp_all
      have "collect_values dyn_get_value (dyn_next ops n) n d = Ok (sorted_list_of_set ?W)"
        by (rule dyn.collect_view [OF d(2) W(2)])
      then have "triple_candidate_extensions ops n ?tp (mk_bag vs rs) pos = Ok (map (\<lambda>_. map (\<lambda>v. [v]) (sorted_list_of_set ?W)) rs)"
        using False d(1) v False' other [symmetric] ci(2)
        by (simp add: triple_candidate_extensions_def map_replicate_const)
      then show thesis
        using W(1) v False' by (intro that [of "\<lambda>_. map (\<lambda>v. [v]) (sorted_list_of_set ?W)"])
          (auto simp: distinct_map inj_on_def candidate_def)
    qed
  qed
qed

section \<open>Triple patterns keep the contract\<close>

lemma triple_sat_iff: "triple_sat F en vl k \<longleftrightarrow> (\<exists>e v. (e, v) \<in> F \<and> term_is k en e \<and> term_is k vl v)"
  by (auto simp: triple_sat_def)

lemma position_ok:
  assumes "x \<in> set (term_vars en @ term_vars vl)"
  obtains pos where "position_for_variable (mk_triple i en a vl db) x = Some pos"
    "pos = Entity_position \<and> en = TVariable x \<or> pos = Value_position \<and> vl = TVariable x"
proof (cases "en = TVariable x")
  case True
  then show thesis using that [of Entity_position] by (simp add: position_for_variable_def)
next
  case False
  then have "vl = TVariable x" "term_variable en \<noteq> Some x" using assms by (cases en; cases vl; auto)+
  then show thesis using that [of Value_position] by (simp add: position_for_variable_def)
qed

lemma triple_propose_ok:
  assumes can: "triple_can ops keys rest lk n okt s as_of R db en vl (set vs) [x]"
    and b: "bag_ok (value_good okt) (mk_bag vs rs)"
    and target: "distinct target" "set target = set vs \<union> {x}"
  shows "\<exists>c. triple_join ops n (mk_triple i en a vl db) (mk_bag vs rs) [x] target = Ok c \<and>
    joined (value_good okt) (triple_sat (triple_facts as_of R a) en vl) (set (term_vars en @ term_vars vl)) (mk_bag vs rs) target c"
proof -
  let ?tp = "mk_triple i en a vl db" and ?F = "triple_facts as_of R a"
  have store: "triple_store ops keys rest lk n okt s as_of R db" and good: "term_good okt en" "term_good okt vl"
    and dis: "distinct (term_vars en @ term_vars vl)" and x: "x \<in> set (term_vars en @ term_vars vl)" "x \<notin> set vs"
    using can by (auto simp: triple_can_def)
  have layout: "layout_ok vs rs" using bag_ok_wf [OF b] by simp
  obtain pos where pos: "position_for_variable ?tp x = Some pos"
    "pos = Entity_position \<and> en = TVariable x \<or> pos = Value_position \<and> vl = TVariable x"
    by (rule position_ok [OF x(1)])
  let ?other = "other_term ?tp pos"
  have other: "x \<notin> set (term_vars ?other)" "set (term_vars en @ term_vars vl) = insert x (set (term_vars ?other))"
    using pos(2) dis by (auto simp: other_term_def)
  have sat_iff: "triple_sat ?F en vl k \<longleftrightarrow> (\<exists>w o'. k x = Some w \<and> term_is k ?other o' \<and>
      (case pos of Entity_position \<Rightarrow> (w, o') \<in> ?F | Value_position \<Rightarrow> (o', w) \<in> ?F))" for k
    using pos(2) unfolding triple_sat_iff by (elim disjE conjE) (auto simp: other_term_def)
  obtain exts where exts: "triple_candidate_extensions ops n ?tp (mk_bag vs rs) pos = Ok (map exts rs)"
    "\<forall>r \<in> set rs. distinct (exts r) \<and> (\<forall>x \<in> set (exts r). \<exists>w. x = [w]) \<and> (\<forall>w. [w] \<in> set (exts r) \<longleftrightarrow> candidate as_of R a pos ?other vs r w)"
    by (rule triple_candidates [OF store good b refl])
  have dom: "dom (row_map vs r) = set vs" if "r \<in> set rs" for r using layout that by (simp add: layout_ok_def dom_row_map)
  have cg: "value_good okt w" if "candidate as_of R a pos ?other vs r w" for r w
    using that facts_good(1,2) [OF store] components_encoded(2) [OF store]
    by (cases pos) (auto simp: candidate_def split: if_splits)
  have "\<exists>c. rbind (extend_rows (mk_bag vs rs) [x] (map exts rs)) (\<lambda>b. reorder b target) = Ok c \<and>
      joined (value_good okt) (triple_sat ?F en vl) (set (term_vars en @ term_vars vl)) (mk_bag vs rs) target c"
  proof (rule joined_extend [OF b])
    fix r y z assume "r \<in> set rs" "y \<in> set (exts r)" "z \<in> set y"
    note yz = this
    note er = bspec [OF exts(2) yz(1)]
    obtain w where w1: "y = [w]" using conjunct1 [OF conjunct2 [OF er]] yz(2) by blast
    then have "candidate as_of R a pos ?other vs r w" using spec [OF conjunct2 [OF conjunct2 [OF er]], of w] yz(2) by simp
    then show "value_good okt z" using cg w1 yz(3) by simp
  next
    fix r k m assume r: "r \<in> set rs" "dom k = set target" "k |` set vs = row_map vs r" "triple_sat ?F en vl m" "k \<subseteq>\<^sub>m m"
    obtain w o' where w: "m x = Some w" "term_is m ?other o'"
      "case pos of Entity_position \<Rightarrow> (w, o') \<in> ?F | Value_position \<Rightarrow> (o', w) \<in> ?F" using r(4) sat_iff by blast
    have kx: "k x = Some w" using r(2,5) target(2) w(1) by (auto simp: map_le_def)
    have "row_map vs r \<subseteq>\<^sub>m k" unfolding r(3) [symmetric] by (rule map_le_restrict)
    then have "row_map vs r \<subseteq>\<^sub>m m" using r(5) by (rule map_le_trans)
    then have "term_value (row_map vs r) ?other = o'" if "set (term_vars ?other) \<subseteq> set vs"
      using term_is_le [OF _ _ w(2)] that dom [OF r(1)] by blast
    then have "candidate as_of R a pos ?other vs r w"
      using w(3) facts_good(5,6) [OF store] by (cases pos) (auto simp: candidate_def position_index_def)
    then show "map (\<lambda>v. the (k v)) [x] \<in> set (exts r)" using exts(2) r(1) kx by simp
  next
    fix r y assume r: "set (term_vars en @ term_vars vl) \<subseteq> set target" "r \<in> set rs" "y \<in> set (exts r)"
    note er = bspec [OF exts(2) r(2)]
    obtain w where w1: "y = [w]" using conjunct1 [OF conjunct2 [OF er]] r(3) by blast
    then have "candidate as_of R a pos ?other vs r w" using spec [OF conjunct2 [OF conjunct2 [OF er]], of w] r(3) by simp
    with w1 have w: "y = [w]" "candidate as_of R a pos ?other vs r w" .
    have sub: "set (term_vars ?other) \<subseteq> set vs" using r(1) other target(2) by auto
    have k: "row_map (vs @ [x]) (r @ y) = (row_map vs r)(x \<mapsto> w)"
      using row_map_snoc1 [of r vs x w] w(1) layout r(2) x(2) by (simp add: layout_ok_def)
    have "term_is ((row_map vs r)(x \<mapsto> w)) ?other (term_value (row_map vs r) ?other)"
    proof (cases ?other)
      case (TVariable z)
      then have "z \<in> dom (row_map vs r)" "z \<noteq> x" using sub dom [OF r(2)] other(1) by simp_all
      then show ?thesis using TVariable by auto
    qed simp
    moreover have "case pos of Entity_position \<Rightarrow> (w, term_value (row_map vs r) ?other) \<in> ?F | Value_position \<Rightarrow> (term_value (row_map vs r) ?other, w) \<in> ?F"
      using w(2) sub by (simp add: candidate_def)
    ultimately show "triple_sat ?F en vl (row_map (vs @ [x]) (r @ y))" unfolding k sat_iff by auto
  next
    fix r assume "r \<in> set rs"
    note er = bspec [OF exts(2) this]
    show "distinct (exts r) \<and> (\<forall>y \<in> set (exts r). length y = length [x])"
      using conjunct1 [OF er] conjunct1 [OF conjunct2 [OF er]] by fastforce
  qed (use target x(2) in auto)
  moreover have "triple_join ops n ?tp (mk_bag vs rs) [x] target =
      rbind (extend_rows (mk_bag vs rs) [x] (map exts rs)) (\<lambda>b. reorder b target)"
    using pos(1) exts(1) x(2) by (simp add: triple_join_def triple_propose_def)
  ultimately show ?thesis by simp
qed

lemma triple_count_ok:
  assumes can: "triple_can ops keys rest lk n okt s as_of R db en vl (set vs) [x]"
    and b: "bag_ok (value_good okt) (mk_bag vs rs)" and ps: "length ps = length rs"
  shows "\<exists>f. triple_count (mk_triple i en a vl db) (mk_bag vs rs) [x] ps = Ok (map2 (\<lambda>p m. proposal_consider p i m) ps f) \<and> length f = length ps"
proof (cases "rs = []")
  case True
  have "x \<in> set (term_vars en @ term_vars vl)" using can by (auto simp: triple_can_def)
  then obtain pos where "position_for_variable (mk_triple i en a vl db) x = Some pos" by (rule position_ok)
  then show ?thesis using True ps by (auto simp: triple_count_def)
next
  case False
  let ?tp = "mk_triple i en a vl db"
  have stats: "\<forall>p. \<exists>c. dv_range_stats db p = Ok c" and x: "x \<in> set (term_vars en @ term_vars vl)"
    using can by (auto simp: triple_can_def triple_store_def)
  obtain g where g: "\<And>p. estimate_count ?tp p = Ok (g p)"
    using choice [OF stats] by (auto simp: estimate_count_def)
  have layout: "layout_ok vs rs" using bag_ok_wf [OF b] by simp
  obtain pos where pos: "position_for_variable ?tp x = Some pos" by (rule position_ok [OF x])
  have same: "map2 (\<lambda>p m. proposal_consider p i m) ps (replicate (length ps) c) = map (\<lambda>p. proposal_consider p i c) ps" for c
    by (rule nth_equalityI) simp_all
  show ?thesis
  proof (cases "other_term ?tp pos")
    case (TConstant c)
    show ?thesis
      by (intro exI [of _ "replicate (length ps) (g ((index_byte (index_type_for pos True) # encode_i64_bytes a) @ c))"])
        (use TConstant False ps pos same base_prefix_eq [of ?tp] g in \<open>simp add: triple_count_def Let_def\<close>)
  next
    case (TVariable y)
    show ?thesis
    proof (cases "y \<in> set vs")
      case True
      obtain ix where ix: "column_index (mk_bag vs rs) y = Ok ix" "\<And>r. r \<in> set rs \<Longrightarrow> row_at r ix = Ok (the (row_map vs r y))"
        by (rule column_row [OF layout True]) blast
      have bd: "column_indexes (mk_bag vs rs) y \<noteq> None" using zip_pos [of vs y] True by simp
      let ?base = "index_byte (index_type_for pos True) # encode_i64_bytes a"
      let ?c = "\<lambda>r. g (?base @ the (row_map vs r y))"
      have "rmapM (\<lambda>(row, p). rbind (row_at row ix) (\<lambda>x. rbind (estimate_count ?tp (?base @ x)) (\<lambda>count.
          Ok (proposal_consider p (tp_id ?tp) count)))) (zip rs ps) = Ok (map (\<lambda>(row, p). proposal_consider p i (?c row)) (zip rs ps))"
        by (rule rmapM_total) (use ix(2) g in \<open>auto dest: set_zip_leftD\<close>)
      moreover have "map (\<lambda>(row, p). proposal_consider p i (?c row)) (zip rs ps) = map2 (\<lambda>p m. proposal_consider p i m) ps (map ?c rs)"
        using ps by (intro nth_equalityI) simp_all
      ultimately have "triple_count ?tp (mk_bag vs rs) [x] ps = Ok (map2 (\<lambda>p m. proposal_consider p i m) ps (map ?c rs))"
        using TVariable False ps pos base_prefix_eq [of ?tp] ix(1) True bd by (simp add: triple_count_def Let_def)
      then show ?thesis using ps by (intro exI [of _ "map ?c rs"]) simp
    next
      case False': False
      have bd: "column_indexes (mk_bag vs rs) y = None" using zip_pos [of vs y] False' by simp
      show ?thesis
        by (intro exI [of _ "replicate (length ps) (g (index_byte (index_type_for pos False) # encode_i64_bytes a))"])
          (use TVariable False False' ps pos same base_prefix_eq [of ?tp] g bd in \<open>simp add: triple_count_def Let_def\<close>)
    qed
  qed
qed

interpretation triple: counting_pattern_law "value_good okt" "triple_exec ops n (mk_triple i en a vl db)"
  "triple_sat (triple_facts as_of R a) en vl" "triple_can ops keys rest lk n okt s as_of R db en vl"
  for ops :: "('db, 'it) slate_ops" and keys rest lk n okt s as_of R db en vl i a
proof unfold_locales
  let ?P = "triple_exec ops n (mk_triple i en a vl db)"
  have vars: "set (ep_variables ?P) = set (term_vars en @ term_vars vl)" by (simp add: triple_exec_def)
  have local: "term_is (k |` A) t b \<longleftrightarrow> term_is k t b" if "set (term_vars t) \<subseteq> A" for k A t b
    using that by (cases t) auto
  show "triple_sat (triple_facts as_of R a) en vl k \<longleftrightarrow> triple_sat (triple_facts as_of R a) en vl (k |` set (ep_variables ?P))" for k
    unfolding vars triple_sat_def by (simp add: local)
  fix b added
  assume b: "bag_ok (value_good okt) b"
    and can: "triple_can ops keys rest lk n okt s as_of R db en vl (set (bb_variables b)) added"
  obtain vs rs where bag: "b = mk_bag vs rs" using bag_wfE [OF bag_ok_wf [OF b]] by metis
  have ok: "bag_ok (value_good okt) (mk_bag vs rs)" using b bag by simp
  have layout: "layout_ok vs rs" using bag_ok_wf [OF ok] by simp
  show "\<exists>f. ep_count ?P b added ps = Ok (map2 (\<lambda>p n. proposal_consider p (ep_id ?P) n) ps f) \<and> length f = length ps"
    if "added \<noteq> []" "length ps = length (bb_rows b)" for ps
  proof -
    obtain x where "added = [x]" using can \<open>added \<noteq> []\<close> by (auto simp: triple_can_def split: if_splits)
    then show ?thesis
      using triple_count_ok [of ops keys rest lk n okt s as_of R db en vl vs x rs ps i a] can ok bag that(2)
      by (simp add: triple_exec_def)
  qed
  show "\<exists>c. ep_join ?P b added target = Ok c \<and>
      joined (value_good okt) (triple_sat (triple_facts as_of R a) en vl) (set (ep_variables ?P)) b target c"
    if target: "distinct added" "distinct target" "set (bb_variables b) \<inter> set added = {}"
      "set target = set (bb_variables b) \<union> set added" "added = [] \<Longrightarrow> target = bb_variables b" for target
  proof (cases "added = []")
    case False
    then obtain x where "added = [x]" using can by (auto simp: triple_can_def split: if_splits)
    then show ?thesis
      unfolding vars using triple_propose_ok [of ops keys rest lk n okt s as_of R db en vl vs x rs target i a] can ok bag target(2,4)
      by (simp add: triple_exec_def)
  next
    case True
    have can': "triple_can ops keys rest lk n okt s as_of R db en vl (set vs) []" using can True bag by simp
    then have store: "triple_store ops keys rest lk n okt s as_of R db" and dis: "distinct (term_vars en @ term_vars vl)"
      and some: "term_vars en @ term_vars vl = [] \<or> set (term_vars en @ term_vars vl) \<inter> set vs \<noteq> {}"
      by (simp_all add: triple_can_def)
    have "joined (value_good okt) (triple_sat (triple_facts as_of R a) en vl) (set (term_vars en @ term_vars vl)) (mk_bag vs rs) vs
        (mk_bag vs (filter (triple_row as_of R a en vl vs) rs))"
    proof (rule joined_select [OF ok])
      fix r k m assume "r \<in> set rs" "k = row_map vs r" "triple_sat (triple_facts as_of R a) en vl m" "k \<subseteq>\<^sub>m m"
      then show "triple_row as_of R a en vl vs r" using triple_row_complete [OF store layout _ _ _ some dis] by blast
    next
      fix r assume "set (term_vars en @ term_vars vl) \<subseteq> set vs" "r \<in> set rs" "triple_row as_of R a en vl vs r"
      then show "triple_sat (triple_facts as_of R a) en vl (row_map vs r)" using triple_row_sat [OF layout] by blast
    qed
    then show ?thesis
      unfolding vars using triple_validate_ok [OF can' ok, of i a] True target(5) bag by (simp add: triple_exec_def triple_join_def)
  qed
qed

end
