(* ===== verification/Nested_Patterns.thy ===== *)
theory Nested_Patterns
  imports Query_Exec Triple_Props Expr_Patterns
begin

text \<open>
  Disjunctions and negations keep the contract of patterns, provided that their nested plans do what the
  theory \<open>Query_Correct\<close> shows of every plan: given the projected input as a relation, a plan returns
  the assignments of the scope's variables that agree with a row of the relation and satisfy the scope.
\<close>

section \<open>Projections and joins as sets of assignments\<close>

lemma project_maps:
  assumes "bag_ok G b" "distinct vs" "set vs \<subseteq> set (bb_variables b)"
  obtains c where "project b vs = Ok c" "bag_ok G c" "bb_variables c = vs" "bag_maps c = (\<lambda>k. k |` set vs) ` bag_maps b"
proof -
  obtain us rs where b: "b = mk_bag us rs" and layout: "layout_ok us rs"
    using bag_ok_wf [OF assms(1)] by (metis bag_wf_def)
  let ?c = "mk_bag vs (map (proj us vs) rs)"
  have "row_map vs (proj us vs r) = row_map us r |` set vs" if "r \<in> set rs" for r
    using row_map_proj [of vs us r] assms(3) b layout that by (simp add: layout_ok_def)
  then have maps: "bag_maps ?c = (\<lambda>k. k |` set vs) ` bag_maps b"
    by (auto simp: bag_maps_def b image_image cong: image_cong_simp)
  have "ran (k |` A) \<subseteq> ran k" for k :: "variable \<rightharpoonup> bytes" and A by (auto simp: ran_def restrict_map_def split: if_splits)
  then have "bag_ok G ?c"
    using assms(1,2) unfolding bag_ok_def maps by (simp add: layout_ok_def) blast
  then show thesis
    using that [of ?c] project_ok [OF layout assms(2)] assms(3) b maps by simp
qed

lemma has_match_maps:
  assumes "layout_ok us ls" "l \<in> set ls" "layout_ok ws rs" "set ws \<subseteq> set us"
  shows "has_match us l ws rs \<longleftrightarrow> row_map us l |` set ws \<in> bag_maps (mk_bag ws rs)"
proof -
  have l: "dom (row_map us l) = set us" using assms(1,2) by (simp add: layout_ok_def dom_row_map)
  have "agree (row_map us l) (row_map ws r) \<longleftrightarrow> row_map us l |` set ws = row_map ws r" if "r \<in> set rs" for r
  proof -
    have r: "dom (row_map ws r) = set ws" using assms(3) that by (simp add: layout_ok_def dom_row_map)
    show ?thesis
    proof
      assume a: "agree (row_map us l) (row_map ws r)"
      show "row_map us l |` set ws = row_map ws r"
      proof
        fix v show "(row_map us l |` set ws) v = row_map ws r v"
          using a [unfolded agree_def, rule_format, of v] r l assms(4) domIff [of v "row_map ws r"]
          by (cases "v \<in> set ws") (auto simp: restrict_map_def subset_iff)
      qed
    next
      assume "row_map us l |` set ws = row_map ws r"
      then show "agree (row_map us l) (row_map ws r)"
        unfolding agree_def using r by (metis Int_iff restrict_in)
    qed
  qed
  then show ?thesis by (auto simp: has_match_def bag_maps_def image_iff)
qed

lemma nested_join_product:
  "nested_join us ls ws rs = map (\<lambda>(l, r). l @ proj ws (right_only us ws) r)
     (filter (\<lambda>(l, r). agree (row_map us l) (row_map ws r)) (List.product ls rs))"
  by (induction ls) (simp_all add: nested_join_def filter_map o_def)

lemma joined_row_map:
  assumes "length l = length us" "length r = length ws" "agree (row_map us l) (row_map ws r)"
  shows "row_map (us @ right_only us ws) (l @ proj ws (right_only us ws) r) = row_map us l ++ row_map ws r"
proof
  fix v
  have d: "dom (row_map us l) = set us" "dom (row_map ws r) = set ws" using assms by (simp_all add: dom_row_map)
  have ro: "row_map (right_only us ws) (proj ws (right_only us ws) r) = row_map ws r |` set (right_only us ws)"
    by (rule row_map_proj) (use assms(2) in \<open>auto simp: right_only_def\<close>)
  have split: "row_map (us @ right_only us ws) (l @ proj ws (right_only us ws) r) =
      (row_map ws r |` set (right_only us ws)) ++ row_map us l"
    using assms(1) ro by (simp add: row_map_def)
  show "row_map (us @ right_only us ws) (l @ proj ws (right_only us ws) r) v = (row_map us l ++ row_map ws r) v"
  proof (cases "v \<in> set us")
    case True
    then obtain x where x: "row_map us l v = Some x" using d(1) by blast
    then show ?thesis using assms(3) [unfolded agree_def, rule_format, of v] d unfolding split
      by (cases "row_map ws r v") (auto simp: map_add_def split: option.split)
  next
    case False
    then have n: "row_map us l v = None" using d(1) by blast
    show ?thesis using False n d(2) unfolding split
      by (cases "v \<in> set ws") (auto simp: map_add_def restrict_map_def right_only_def domIff split: option.split)
  qed
qed

lemma agree_restrict:
  assumes "agree k m" shows "(k ++ m) |` dom k = k" "(k ++ m) |` dom m = m"
proof -
  show "(k ++ m) |` dom k = k"
  proof
    fix v show "((k ++ m) |` dom k) v = k v"
      using assms [unfolded agree_def, rule_format, of v]
      by (cases "k v"; cases "m v") (auto simp: restrict_map_def map_add_def domIff)
  qed
  show "(k ++ m) |` dom m = m"
  proof
    fix v show "((k ++ m) |` dom m) v = m v"
      by (cases "m v") (auto simp: restrict_map_def map_add_def)
  qed
qed

lemma natural_join_maps:
  assumes "bag_wf b" "bag_wf c"
  obtains j where "natural_join b c = Ok j" "bag_wf j" "set (bb_variables j) = set (bb_variables b) \<union> set (bb_variables c)"
    "distinct (bb_rows b) \<and> distinct (bb_rows c) \<longrightarrow> distinct (bb_rows j)"
    "bag_maps j = {m. dom m = set (bb_variables b) \<union> set (bb_variables c) \<and>
       m |` set (bb_variables b) \<in> bag_maps b \<and> m |` set (bb_variables c) \<in> bag_maps c}"
proof -
  obtain us ls where b: "b = mk_bag us ls" and L: "layout_ok us ls" using assms(1) by (metis bag_wf_def)
  obtain ws rs where c: "c = mk_bag ws rs" and R: "layout_ok ws rs" using assms(2) by (metis bag_wf_def)
  let ?vs = "us @ right_only us ws" and ?J = "nested_join us ls ws rs"
  let ?j = "mk_bag ?vs ?J" and ?row = "\<lambda>(l, r). l @ proj ws (right_only us ws) r"
  let ?prs = "filter (\<lambda>(l, r). agree (row_map us l) (row_map ws r)) (List.product ls rs)"
  have dl: "dom (row_map us l) = set us" if "l \<in> set ls" for l using that L by (simp add: layout_ok_def dom_row_map)
  have dr: "dom (row_map ws r) = set ws" if "r \<in> set rs" for r using that R by (simp add: layout_ok_def dom_row_map)
  have row: "row_map ?vs (l @ proj ws (right_only us ws) r) = row_map us l ++ row_map ws r"
    and parts: "(row_map us l ++ row_map ws r) |` set us = row_map us l" "(row_map us l ++ row_map ws r) |` set ws = row_map ws r"
    if "(l, r) \<in> set ?prs" for l r
  proof -
    have lr: "l \<in> set ls" "r \<in> set rs" "agree (row_map us l) (row_map ws r)" using that by auto
    show "row_map ?vs (l @ proj ws (right_only us ws) r) = row_map us l ++ row_map ws r"
      by (rule joined_row_map) (use lr L R in \<open>auto simp: layout_ok_def\<close>)
    show "(row_map us l ++ row_map ws r) |` set us = row_map us l" "(row_map us l ++ row_map ws r) |` set ws = row_map ws r"
      using agree_restrict [OF lr(3)] dl [OF lr(1)] dr [OF lr(2)] by simp_all
  qed
  have join: "natural_join b c = Ok ?j" unfolding b c by (rule natural_join_ok [OF L R])
  have wf: "bag_wf ?j" using nested_join_layout [OF L R] by simp
  have inj: "inj_on ?row (set ?prs)"
  proof (rule inj_onI)
    fix x y assume xy: "x \<in> set ?prs" "y \<in> set ?prs" "?row x = ?row y"
    obtain l r l' r' where p: "x = (l, r)" "y = (l', r')" by (cases x; cases y)
    have eq: "row_map us l ++ row_map ws r = row_map us l' ++ row_map ws r'"
      using row [of l r] row [of l' r'] xy p by simp
    have "row_map us l = row_map us l'" "row_map ws r = row_map ws r'"
      using parts [of l r] parts [of l' r'] xy(1,2) p unfolding eq by metis+
    then have "l = l'" "r = r'"
      using xy(1,2) p L R by (auto simp: layout_ok_def intro: row_map_inj)
    then show "x = y" using p by simp
  qed
  have dist: "distinct ls \<and> distinct rs \<longrightarrow> distinct ?J"
    unfolding nested_join_product using inj by (simp add: distinct_map distinct_product)
  have "bag_maps ?j = (\<lambda>(l, r). row_map us l ++ row_map ws r) ` set ?prs"
    unfolding bag_maps_def mk_bag_simps nested_join_product set_map image_image
    by (rule image_cong [OF refl]) (use row in auto)
  also have "\<dots> = {m. dom m = set us \<union> set ws \<and> m |` set us \<in> bag_maps b \<and> m |` set ws \<in> bag_maps c}"
  proof (intro set_eqI iffI)
    fix m assume "m \<in> (\<lambda>(l, r). row_map us l ++ row_map ws r) ` set ?prs"
    then obtain l r where lr: "(l, r) \<in> set ?prs" "m = row_map us l ++ row_map ws r" by auto
    then have "l \<in> set ls" "r \<in> set rs" by auto
    then show "m \<in> {m. dom m = set us \<union> set ws \<and> m |` set us \<in> bag_maps b \<and> m |` set ws \<in> bag_maps c}"
      using parts [OF lr(1)] lr(2) dl dr by (simp add: bag_maps_def b c Un_commute)
  next
    fix m assume "m \<in> {m. dom m = set us \<union> set ws \<and> m |` set us \<in> bag_maps b \<and> m |` set ws \<in> bag_maps c}"
    then obtain l r where lr: "l \<in> set ls" "r \<in> set rs" "m |` set us = row_map us l" "m |` set ws = row_map ws r"
      and dm: "dom m = set us \<union> set ws" by (auto simp: bag_maps_def b c)
    have "agree (row_map us l) (row_map ws r)"
      unfolding lr(3,4) [symmetric] by (auto simp: agree_def restrict_map_def split: if_splits)
    moreover have "m = row_map us l ++ row_map ws r"
    proof
      fix v show "m v = (row_map us l ++ row_map ws r) v"
        unfolding lr(3,4) [symmetric] using dm
        by (cases "m v") (auto simp: map_add_def restrict_map_def domIff split: option.split)
    qed
    ultimately show "m \<in> (\<lambda>(l, r). row_map us l ++ row_map ws r) ` set ?prs" using lr(1,2) by force
  qed
  finally have maps: "bag_maps ?j = {m. dom m = set us \<union> set ws \<and> m |` set us \<in> bag_maps b \<and> m |` set ws \<in> bag_maps c}" .
  have vars: "set (bb_variables ?j) = set (bb_variables b) \<union> set (bb_variables c)" by (auto simp: b c right_only_def)
  show thesis by (rule that [OF join wf vars]) (use dist maps in \<open>simp_all add: b c\<close>)
qed

section \<open>What a nested plan returns\<close>

definition nested_ok ::
  "(bytes \<Rightarrow> bool) \<Rightarrow> pattern_id \<Rightarrow> variable list \<Rightarrow> variable set \<Rightarrow> nested \<Rightarrow> ((variable \<rightharpoonup> bytes) \<Rightarrow> bool) \<Rightarrow> bool" where
  "nested_ok G i inc vars branch sat \<longleftrightarrow>
     (\<forall>r. bag_ok G r \<longrightarrow> bb_variables r = inc \<longrightarrow>
        (\<exists>stages c. branch (relation_exec (relation_new i r)) = Ok stages \<and> execute stages bb_unit = Ok c \<and>
           bag_ok G c \<and> set (bb_variables c) = vars \<and> distinct (bb_rows c) \<and>
           bag_maps c = {k. dom k = vars \<and> relation_sat r k \<and> sat k}))"

lemma run_nested_ok:
  assumes "nested_ok G i inc (set vs) branch sat" "bag_ok G r" "bb_variables r = inc" "distinct vs"
  obtains c where "run_nested branch (relation_exec (relation_new i r)) vs = Ok c" "bag_ok G c" "bb_variables c = vs"
    "distinct (bb_rows c)" "bag_maps c = {k. dom k = set vs \<and> relation_sat r k \<and> sat k}"
proof -
  obtain stages c where c: "branch (relation_exec (relation_new i r)) = Ok stages" "execute stages bb_unit = Ok c"
    "bag_ok G c" "set (bb_variables c) = set vs" "distinct (bb_rows c)"
    "bag_maps c = {k. dom k = set vs \<and> relation_sat r k \<and> sat k}"
    using assms(1-3) unfolding nested_ok_def by blast
  obtain d where d: "reorder c vs = Ok d" "bag_wf d" "bb_variables d = vs" "bag_maps d = bag_maps c"
    "distinct (bb_rows c) \<longrightarrow> distinct (bb_rows d)"
    using reorder_same_maps [OF bag_ok_wf [OF c(3)] assms(4)] c(4) by blast
  have "bag_ok G d" using c(3) d(2,4) by (simp add: bag_ok_def)
  then show thesis using that [of d] c d by (simp add: run_nested_def)
qed

lemma distinct_union_maps:
  assumes "bag_ok G b" "bag_ok G c" "bb_variables b = bb_variables c"
  obtains u where "distinct_union b c = Ok u" "bag_ok G u" "bb_variables u = bb_variables c" "distinct (bb_rows u)"
    "bag_maps u = bag_maps b \<union> bag_maps c"
proof -
  obtain vs rs where b: "b = mk_bag vs rs" "layout_ok vs rs" using bag_ok_wf [OF assms(1)] by (metis bag_wf_def)
  obtain ss where c: "c = mk_bag vs ss" "layout_ok vs ss" using bag_ok_wf [OF assms(2)] assms(3) b(1) by (metis bag_wf_def mk_bag_simps(1))
  let ?u = "mk_bag vs (distinct_loop {} (rs @ ss))"
  have maps: "bag_maps ?u = bag_maps b \<union> bag_maps c" by (simp add: bag_maps_def distinct_loop_set b c image_Un)
  have "bag_wf ?u" using b(2) c(2) by (auto simp: layout_ok_def distinct_loop_set)
  then have "bag_ok G ?u" using assms(1,2) maps by (auto simp: bag_ok_def)
  then show thesis
    using that [of ?u] maps distinct_union_ok [of vs rs ss] by (simp add: b c distinct_loop_distinct)
qed

lemma branches_fold:
  assumes "list_all2 (nested_ok G i inc (set vs)) branches sats" "bag_ok G r" "bb_variables r = inc" "distinct vs"
    and "bag_ok G res" "bb_variables res = vs" "distinct (bb_rows res)"
  shows "\<exists>u. rfold (\<lambda>result branch. rbind (run_nested branch (relation_exec (relation_new i r)) vs) (\<lambda>b. distinct_union result b)) res branches = Ok u \<and>
     bag_ok G u \<and> bb_variables u = vs \<and> distinct (bb_rows u) \<and>
     bag_maps u = bag_maps res \<union> {k. dom k = set vs \<and> relation_sat r k \<and> (\<exists>s \<in> set sats. s k)}"
  using assms(1,5-7)
proof (induction branches sats arbitrary: res rule: list_all2_induct)
  case (Cons branch branches s sats)
  obtain c where c: "run_nested branch (relation_exec (relation_new i r)) vs = Ok c" "bag_ok G c" "bb_variables c = vs"
    "distinct (bb_rows c)" "bag_maps c = {k. dom k = set vs \<and> relation_sat r k \<and> s k}"
    by (rule run_nested_ok [OF Cons.hyps(1) assms(2-4)])
  obtain u where u: "distinct_union res c = Ok u" "bag_ok G u" "bb_variables u = bb_variables c" "distinct (bb_rows u)"
    "bag_maps u = bag_maps res \<union> bag_maps c"
    by (rule distinct_union_maps [OF Cons.prems(1) c(2)]) (use Cons.prems(2) c(3) in simp)
  have "bag_maps u \<union> {k. dom k = set vs \<and> relation_sat r k \<and> (\<exists>s \<in> set sats. s k)} =
      bag_maps res \<union> {k. dom k = set vs \<and> relation_sat r k \<and> (\<exists>s \<in> set (s # sats). s k)}"
    unfolding u(5) c(5) by auto
  then show ?case using Cons.IH [OF u(2) _ u(4)] u(1,3) c(1,3) by simp
qed simp

section \<open>Bags that are exactly a join\<close>

lemma joined_exact:
  assumes "bag_ok G c" "bb_variables c = target" "distinct (bb_rows b) \<longrightarrow> distinct (bb_rows c)"
    and maps: "bag_maps c = {k. dom k = set target \<and> k |` set (bb_variables b) \<in> bag_maps b \<and> sat k}"
    and "vars \<subseteq> set target" and local: "\<And>k. sat k \<longleftrightarrow> sat (k |` vars)"
  shows "joined G sat vars b target c"
proof -
  have "sat k" if k: "dom k = set target" "sat n" "k \<subseteq>\<^sub>m n" for k n
  proof -
    have "k |` vars = n |` vars"
    proof
      fix v show "(k |` vars) v = (n |` vars) v"
        using k(1,3) assms(5) unfolding map_le_def restrict_map_def by (metis subsetD)
    qed
    then show ?thesis using k(2) local by metis
  qed
  then show ?thesis unfolding joined_def using assms(1-4) by simp
qed

lemma filter_maps:
  assumes "layout_ok vs rs"
    and "\<And>r. r \<in> set rs \<Longrightarrow> Q r \<longleftrightarrow> sat (row_map vs r)"
  shows "bag_maps (mk_bag vs (filter Q rs)) =
    {k. dom k = set vs \<and> k |` set vs \<in> bag_maps (mk_bag vs rs) \<and> sat k}"
proof -
  have dom: "dom (row_map vs r) = set vs" if "r \<in> set rs" for r
    using that assms(1) by (simp add: layout_ok_def dom_row_map)
  have "k |` set vs = k" if "dom k = set vs" for k :: "variable \<rightharpoonup> bytes" using that by (simp add: restrict_dom)
  then show ?thesis using dom assms(2) by (auto simp: bag_maps_def)
qed

lemma filter_joined:
  assumes "bag_ok G (mk_bag vs rs)" "\<And>r. r \<in> set rs \<Longrightarrow> Q r \<longleftrightarrow> sat (row_map vs r)"
    and "vars \<subseteq> set vs" "\<And>k. sat k \<longleftrightarrow> sat (k |` vars)"
  shows "joined G sat vars (mk_bag vs rs) vs (mk_bag vs (filter Q rs))"
proof (rule joined_exact)
  show "vars \<subseteq> set vs" "\<And>k. sat k \<longleftrightarrow> sat (k |` vars)" by (fact assms(3), fact assms(4))
  have layout: "layout_ok vs rs" using bag_ok_wf [OF assms(1)] by simp
  show "bag_ok G (mk_bag vs (filter Q rs))"
    by (rule bag_ok_subset [OF assms(1)]) (use layout in \<open>auto simp: layout_ok_def bag_maps_def\<close>)
  show "bag_maps (mk_bag vs (filter Q rs)) =
      {k. dom k = set vs \<and> k |` set (bb_variables (mk_bag vs rs)) \<in> bag_maps (mk_bag vs rs) \<and> sat k}"
    using filter_maps [of vs rs Q sat] layout assms(2) by simp
qed simp_all

section \<open>The law of disjunctions\<close>

text \<open>A disjunction is called with its incoming variables bound, to validate when all its variables are
  bound, and to propose exactly the missing ones.\<close>

definition or_sat :: "variable set \<Rightarrow> ((variable \<rightharpoonup> bytes) \<Rightarrow> bool) list \<Rightarrow> (variable \<rightharpoonup> bytes) \<Rightarrow> bool" where
  "or_sat vars sats k \<longleftrightarrow> vars \<subseteq> dom k \<and> (\<exists>s \<in> set sats. s (k |` vars))"

lemma or_sat_local: "or_sat vars sats k \<longleftrightarrow> or_sat vars sats (k |` vars)"
  by (auto simp: or_sat_def)

definition or_can ::
  "(bytes \<Rightarrow> bool) \<Rightarrow> pattern_id \<Rightarrow> variable list \<Rightarrow> variable list \<Rightarrow> nested list \<Rightarrow> ((variable \<rightharpoonup> bytes) \<Rightarrow> bool) list \<Rightarrow>
     variable set \<Rightarrow> variable list \<Rightarrow> bool" where
  "or_can G i vs inc branches sats bound added \<longleftrightarrow>
     list_all2 (nested_ok G i inc (set vs)) branches sats \<and> distinct vs \<and> distinct inc \<and>
     set inc \<subseteq> set vs \<and> set inc \<subseteq> bound \<and>
     (if added = [] then set vs \<subseteq> bound else set added = set vs - bound)"

lemma execute_branches_ok:
  assumes "list_all2 (nested_ok G i inc (set vs)) branches sats" "distinct vs" "distinct inc"
    and b: "bag_ok G b" "set inc \<subseteq> set (bb_variables b)"
  obtains u where "execute_branches i vs inc branches b = Ok u" "bag_ok G u" "bb_variables u = vs" "distinct (bb_rows u)"
    "bag_maps u = {k. dom k = set vs \<and> k |` set inc \<in> (\<lambda>k. k |` set inc) ` bag_maps b \<and> (\<exists>s \<in> set sats. s k)}"
proof -
  obtain r where r: "project b inc = Ok r" "bag_ok G r" "bb_variables r = inc" "bag_maps r = (\<lambda>k. k |` set inc) ` bag_maps b"
    by (rule project_maps [OF b(1) assms(3) b(2)])
  have e: "bag_ok G (mk_bag vs [])" "bb_empty vs = Ok (mk_bag vs [])"
    using assms(2) by (simp_all add: bag_ok_def bag_maps_def layout_ok_def bb_empty_def)
  obtain u where u: "rfold (\<lambda>result branch. rbind (run_nested branch (relation_exec (relation_new i r)) vs) (\<lambda>b. distinct_union result b))
      (mk_bag vs []) branches = Ok u" "bag_ok G u" "bb_variables u = vs" "distinct (bb_rows u)"
    "bag_maps u = bag_maps (mk_bag vs []) \<union> {k. dom k = set vs \<and> relation_sat r k \<and> (\<exists>s \<in> set sats. s k)}"
    using branches_fold [OF assms(1) r(2,3) assms(2) e(1)] by auto
  have all: "ensure_all (\<lambda>v. v \<in> set (bb_variables b)) ''OR pattern requires incoming variable'' inc = Ok ()"
    using b(2) by auto
  have "bag_maps (mk_bag vs []) = {}" by (simp add: bag_maps_def)
  then show thesis
    using that [of u] u r e(2) all by (simp add: execute_branches_def relation_sat_def Let_def)
qed

lemma or_propose:
  assumes b: "bag_ok G b" and u: "bag_ok G u" "bb_variables u = vs" "distinct (bb_rows u)"
    and target: "distinct target" "set target = set (bb_variables b) \<union> set vs"
    and sat: "\<And>k. k |` set (bb_variables b) \<in> bag_maps b \<Longrightarrow> dom k = set target \<Longrightarrow> k |` set vs \<in> bag_maps u \<longleftrightarrow> sat k"
    and local: "\<And>k. sat k \<longleftrightarrow> sat (k |` set vs)"
  shows "\<exists>c. rbind (natural_join b u) (\<lambda>j. reorder j target) = Ok c \<and> joined G sat (set vs) b target c"
proof -
  obtain j where j: "natural_join b u = Ok j" "bag_wf j" "set (bb_variables j) = set (bb_variables b) \<union> set (bb_variables u)"
    "distinct (bb_rows b) \<and> distinct (bb_rows u) \<longrightarrow> distinct (bb_rows j)"
    and maps: "bag_maps j = {m. dom m = set (bb_variables b) \<union> set (bb_variables u) \<and>
       m |` set (bb_variables b) \<in> bag_maps b \<and> m |` set (bb_variables u) \<in> bag_maps u}"
    by (rule natural_join_maps [OF bag_ok_wf [OF b] bag_ok_wf [OF u(1)]])
  obtain c where c: "reorder j target = Ok c" "bag_wf c" "bb_variables c = target" "bag_maps c = bag_maps j"
    "distinct (bb_rows j) \<longrightarrow> distinct (bb_rows c)"
    using reorder_same_maps [OF j(2) target(1)] j(3) target(2) u(2) by blast
  have "G x" if "k \<in> bag_maps c" "x \<in> ran k" for k x
  proof -
    have k: "dom k = set (bb_variables b) \<union> set (bb_variables u)" "k |` set (bb_variables b) \<in> bag_maps b"
      "k |` set (bb_variables u) \<in> bag_maps u" using that(1) unfolding c(4) maps by auto
    from that(2) obtain v where v: "k v = Some x" by (auto simp: ran_def)
    then have "v \<in> set (bb_variables b) \<or> v \<in> set (bb_variables u)" using k(1) by blast
    then have "x \<in> ran (k |` set (bb_variables b)) \<or> x \<in> ran (k |` set (bb_variables u))"
      using v by (auto simp: ran_def restrict_map_def)
    then show ?thesis using b u(1) k(2,3) unfolding bag_ok_def by blast
  qed
  then have ok: "bag_ok G c" using c(2) by (simp add: bag_ok_def)
  have "bag_maps c = {k. dom k = set target \<and> k |` set (bb_variables b) \<in> bag_maps b \<and> sat k}"
    unfolding c(4) maps using sat target(2) u(2) by auto
  then have "joined G sat (set vs) b target c"
    using ok c(3,5) j(4) u(3) target(2) local by (intro joined_exact) auto
  then show ?thesis using j(1) c(1) by auto
qed

lemma or_sat_maps:
  assumes "bag_maps u = {k. dom k = set vs \<and> k |` set inc \<in> (\<lambda>k. k |` set inc) ` bag_maps b \<and> (\<exists>s \<in> set sats. s k)}"
    and "set vs \<subseteq> dom k" "set inc \<subseteq> set vs" "set inc \<subseteq> B" and "k |` B \<in> bag_maps b"
  shows "k |` set vs \<in> bag_maps u \<longleftrightarrow> or_sat (set vs) sats k"
proof -
  have "k |` set vs |` set inc = k |` B |` set inc"
    using assms(3,4) by (simp add: inf.absorb2)
  then have "k |` set vs |` set inc \<in> (\<lambda>k. k |` set inc) ` bag_maps b" using assms(5) by (metis imageI)
  moreover have "dom (k |` set vs) = set vs" using assms(2) by auto
  ultimately show ?thesis using assms(2) unfolding assms(1) or_sat_def by blast
qed

interpretation disj: exec_pattern_law G "or_exec i vs inc branches" "or_sat (set vs) sats" "or_can G i vs inc branches sats"
  for G i vs inc branches sats
proof unfold_locales
  let ?P = "or_exec i vs inc branches" and ?sat = "or_sat (set vs) sats"
  have vars: "ep_variables ?P = vs" by (simp add: or_exec_def)
  show "?sat k \<longleftrightarrow> ?sat (k |` set (ep_variables ?P))" for k
    unfolding vars by (rule or_sat_local)
  fix b added target
  assume b: "bag_ok G b" and can: "or_can G i vs inc branches sats (set (bb_variables b)) added"
    and target: "distinct added" "distinct target" "set (bb_variables b) \<inter> set added = {}"
      "set target = set (bb_variables b) \<union> set added" "added = [] \<Longrightarrow> target = bb_variables b"
  obtain u where u: "execute_branches i vs inc branches b = Ok u" "bag_ok G u" "bb_variables u = vs" "distinct (bb_rows u)"
    and maps: "bag_maps u = {k. dom k = set vs \<and> k |` set inc \<in> (\<lambda>k. k |` set inc) ` bag_maps b \<and> (\<exists>s \<in> set sats. s k)}"
    by (rule execute_branches_ok [of G i inc vs branches sats b]) (use b can in \<open>auto simp: or_can_def\<close>)
  have sub: "set inc \<subseteq> set vs" "set inc \<subseteq> set (bb_variables b)" using can by (auto simp: or_can_def)
  note sat = or_sat_maps [OF maps _ sub]
  have "\<exists>c. or_join i vs inc branches b added target = Ok c \<and> joined G ?sat (set vs) b target c"
  proof (cases "added = []")
    case True
    then have all: "set vs \<subseteq> set (bb_variables b)" "target = bb_variables b" using can target(5) by (auto simp: or_can_def)
    obtain us ls where B: "b = mk_bag us ls" "layout_ok us ls" using bag_ok_wf [OF b] by (metis bag_wf_def)
    obtain rs where U: "u = mk_bag vs rs" "layout_ok vs rs" using bag_ok_wf [OF u(2)] u(3) by (metis bag_wf_def)
    have "joined G ?sat (set vs) (mk_bag us ls) us (mk_bag us (filter (\<lambda>l. has_match us l vs rs) ls))"
    proof (rule filter_joined)
      show "?sat k \<longleftrightarrow> ?sat (k |` set vs)" for k by (rule or_sat_local)
      fix l assume l: "l \<in> set ls"
      have dl: "dom (row_map us l) = set us" using l B(2) by (simp add: layout_ok_def dom_row_map)
      have "row_map us l |` set (bb_variables b) \<in> bag_maps b"
        using l dl restrict_dom [of "row_map us l" "set us"] by (auto simp: B(1) bag_maps_def)
      then show "has_match us l vs rs \<longleftrightarrow> ?sat (row_map us l)"
        using has_match_maps [OF B(2) l U(2)] all(1) sat [of "row_map us l"] dl U(1) B(1) by simp
    qed (use b B(1) all(1) in simp_all)
    then show ?thesis
      using True all B U u(1) semijoin_ok [OF B(2) U(2)] by (auto simp: or_join_def)
  next
    case False
    have missing: "set added = set vs - set (bb_variables b)" using can False by (simp add: or_can_def)
    have "\<exists>c. rbind (natural_join b u) (\<lambda>j. reorder j target) = Ok c \<and> joined G ?sat (set vs) b target c"
      using missing target(4) sat or_sat_local by (intro or_propose [OF b u(2-4) target(2)]) auto
    then show ?thesis using False missing u(1) by (auto simp: or_join_def)
  qed
  then show "\<exists>c. ep_join ?P b added target = Ok c \<and> joined G ?sat (set (ep_variables ?P)) b target c"
    by (simp add: or_exec_def)
qed

section \<open>The law of negations\<close>

definition not_sat :: "variable set \<Rightarrow> ((variable \<rightharpoonup> bytes) \<Rightarrow> bool) \<Rightarrow> (variable \<rightharpoonup> bytes) \<Rightarrow> bool" where
  "not_sat vars sat k \<longleftrightarrow> vars \<subseteq> dom k \<and> \<not> sat (k |` vars)"

lemma not_sat_local: "not_sat vars sat k \<longleftrightarrow> not_sat vars sat (k |` vars)"
  by (auto simp: not_sat_def)

definition not_can ::
  "(bytes \<Rightarrow> bool) \<Rightarrow> pattern_id \<Rightarrow> variable list \<Rightarrow> variable list \<Rightarrow> nested \<Rightarrow> ((variable \<rightharpoonup> bytes) \<Rightarrow> bool) \<Rightarrow>
     variable set \<Rightarrow> variable list \<Rightarrow> bool" where
  "not_can G i vs inc plan sat bound added \<longleftrightarrow>
     nested_ok G i inc (set vs) plan sat \<and> distinct vs \<and> distinct inc \<and> set inc = set vs \<and>
     added = [] \<and> set vs \<subseteq> bound"

interpretation neg: exec_pattern_law G "not_exec i vs inc plan" "not_sat (set vs) sat" "not_can G i vs inc plan sat"
  for G i vs inc plan sat
proof unfold_locales
  let ?P = "not_exec i vs inc plan" and ?sat = "not_sat (set vs) sat"
  have vars: "ep_variables ?P = vs" by (simp add: not_exec_def)
  show "?sat k \<longleftrightarrow> ?sat (k |` set (ep_variables ?P))" for k
    unfolding vars by (rule not_sat_local)
  fix b added target
  assume b: "bag_ok G b" and can: "not_can G i vs inc plan sat (set (bb_variables b)) added"
    and "added = [] \<Longrightarrow> target = bb_variables b"
  then have add: "added = []" "target = bb_variables b" and sub: "set vs \<subseteq> set (bb_variables b)" "set inc = set vs" "distinct inc"
    by (auto simp: not_can_def)
  have nested: "nested_ok G i inc (set vs) plan sat" "distinct vs" using can by (simp_all add: not_can_def)
  obtain r where r: "project b inc = Ok r" "bag_ok G r" "bb_variables r = inc" "bag_maps r = (\<lambda>k. k |` set inc) ` bag_maps b"
    by (rule project_maps [OF b sub(3)]) (use sub in auto)
  obtain u where u: "run_nested plan (relation_exec (relation_new i r)) vs = Ok u" "bag_ok G u" "bb_variables u = vs"
    and maps: "bag_maps u = {k. dom k = set vs \<and> relation_sat r k \<and> sat k}"
    by (rule run_nested_ok [OF nested(1) r(2,3) nested(2)])
  obtain us ls where B: "b = mk_bag us ls" "layout_ok us ls" using bag_ok_wf [OF b] by (metis bag_wf_def)
  obtain rs where U: "u = mk_bag vs rs" "layout_ok vs rs" using bag_ok_wf [OF u(2)] u(3) by (metis bag_wf_def)
  have "joined G ?sat (set vs) (mk_bag us ls) us (mk_bag us (filter (\<lambda>l. \<not> has_match us l vs rs) ls))"
  proof (rule filter_joined)
    show "?sat k \<longleftrightarrow> ?sat (k |` set vs)" for k by (rule not_sat_local)
    fix l assume l: "l \<in> set ls"
    have dl: "dom (row_map us l) = set us" using l B(2) by (simp add: layout_ok_def dom_row_map)
    have "row_map us l |` set inc \<in> bag_maps r" unfolding r(4) using l by (auto simp: B(1) bag_maps_def)
    then have "relation_sat r (row_map us l |` set vs)" using sub(2) r(3) by (simp add: relation_sat_def)
    moreover have "dom (row_map us l |` set vs) = set vs" using dl sub(1) B(1) by auto
    ultimately have "row_map us l |` set vs \<in> bag_maps u \<longleftrightarrow> sat (row_map us l |` set vs)" unfolding maps by blast
    then show "\<not> has_match us l vs rs \<longleftrightarrow> ?sat (row_map us l)"
      using has_match_maps [OF B(2) l U(2)] sub(1) dl U(1) B(1) by (simp add: not_sat_def)
  qed (use b B(1) sub(1) in simp_all)
  then have "\<exists>c. not_join i vs inc plan b added target = Ok c \<and> joined G ?sat (set vs) b target c"
    using add sub(1) B U u(1) r(1) antijoin_ok [OF B(2) U(2)] by (auto simp: not_join_def execute_logical_plan_def)
  then show "\<exists>c. ep_join ?P b added target = Ok c \<and> joined G ?sat (set (ep_variables ?P)) b target c"
    by (simp add: not_exec_def)
qed

end
