(* ===== verification/Query_Correct.thy ===== *)
theory Query_Correct
  imports Plan_Stages Nested_Patterns
begin

text \<open>
  The query engine answers queries: when the planner accepts the descriptors of a query, the plan can be
  turned into executable stages, these run without error, and the bindings they return are exactly the
  assignments that satisfy every descriptor. The meaning of descriptors is compositional: facts at the
  point in time of the database value, rows, values of expressions, some branch of a disjunction, and the
  absence of a solution of a negation.
\<close>

section \<open>The meaning of descriptors\<close>

fun desc_sat ::
  "('db, 'it) query_env \<Rightarrow> (i64 \<Rightarrow> (bytes \<times> bytes) set) \<Rightarrow> descriptor \<Rightarrow> (variable \<rightharpoonup> bytes) \<Rightarrow> bool" where
  "desc_sat env F (Descriptor i vs (KTriple p)) k \<longleftrightarrow>
     (\<exists>a en vl. resolve_attribute_from_pattern (pat_attribute p) (dv_ident_map (qe_db env)) = Ok a \<and>
        entity_term (pat_entity p) = Ok en \<and> value_term (pat_value p) = Ok vl \<and> triple_sat (F a) en vl k)"
| "desc_sat env F (Descriptor i vs (KRelation rows)) k \<longleftrightarrow> (\<exists>row \<in> set rows. k |` set vs = row_map vs (map encode row))"
| "desc_sat env F (Descriptor i vs (KPredicate e)) k \<longleftrightarrow> predicate_sat (qe_text env) (qe_timestamp env) e k"
| "desc_sat env F (Descriptor i vs (KFunction e inputs output)) k \<longleftrightarrow> function_sat (qe_text env) (qe_timestamp env) e output k"
| "desc_sat env F (Descriptor i vs (KOr branches)) k \<longleftrightarrow> (\<exists>branch \<in> set branches. \<forall>d \<in> set branch. desc_sat env F d k)"
| "desc_sat env F (Descriptor i vs (KNot inner)) k \<longleftrightarrow> set vs \<subseteq> dom k \<and> \<not> (\<forall>d \<in> set inner. desc_sat env F d k)"

text \<open>What query validation and the construction of descriptors provide: attributes and terms that can be
  resolved, rows of the right length, the variables that belong to each kind, and ids that are unique in a
  scope.\<close>

fun desc_ok :: "('db, 'it) query_env \<Rightarrow> (int \<Rightarrow> bool) \<Rightarrow> descriptor \<Rightarrow> bool" where
  "desc_ok env okt (Descriptor i vs (KTriple p)) \<longleftrightarrow> distinct vs \<and>
     (\<exists>a en vl. resolve_attribute_from_pattern (pat_attribute p) (dv_ident_map (qe_db env)) = Ok a \<and>
        entity_term (pat_entity p) = Ok en \<and> value_term (pat_value p) = Ok vl \<and>
        vs = term_vars en @ term_vars vl \<and> term_good okt en \<and> term_good okt vl)"
| "desc_ok env okt (Descriptor i vs (KRelation rows)) \<longleftrightarrow> distinct vs \<and>
     (\<forall>row \<in> set rows. length row = length vs \<and> (\<forall>v \<in> set row. dt_wf okt v))"
| "desc_ok env okt (Descriptor i vs (KPredicate e)) \<longleftrightarrow> distinct vs \<and> set vs = expr_vars e"
| "desc_ok env okt (Descriptor i vs (KFunction e inputs output)) \<longleftrightarrow> distinct vs \<and>
     set inputs = expr_vars e \<and> output \<notin> expr_vars e \<and> set vs = insert output (set inputs) \<and> exact_results (qe_text env) okt e"
| "desc_ok env okt (Descriptor i vs (KOr branches)) \<longleftrightarrow> distinct vs \<and> branches \<noteq> [] \<and>
     (\<forall>branch \<in> set branches. set (all_variables branch) = set vs \<and> distinct (map de_id branch) \<and> i \<notin> de_id ` set branch \<and>
        (\<forall>d \<in> set branch. desc_ok env okt d))"
| "desc_ok env okt (Descriptor i vs (KNot inner)) \<longleftrightarrow> distinct vs \<and>
     set (all_variables inner) = set vs \<and> distinct (map de_id inner) \<and> i \<notin> de_id ` set inner \<and> (\<forall>d \<in> set inner. desc_ok env okt d)"

definition scope_ok :: "('db, 'it) query_env \<Rightarrow> (int \<Rightarrow> bool) \<Rightarrow> descriptor list \<Rightarrow> bool" where
  "scope_ok env okt ds \<longleftrightarrow> distinct (map de_id ds) \<and> (\<forall>d \<in> set ds. desc_ok env okt d)"

lemma desc_ok_shape: "desc_ok env okt d \<Longrightarrow> desc_shape d"
  by (cases "(env, okt, d)" rule: desc_ok.cases) (auto simp: desc_shape_def)

lemma scope_ok_shape:
  "scope_ok env okt ds \<Longrightarrow> (\<And>vs. incoming = Some vs \<Longrightarrow> distinct vs \<and> set vs \<subseteq> set (all_variables ds)) \<Longrightarrow> scope_shape ds incoming"
  by (auto simp: scope_ok_def scope_shape_def intro: desc_ok_shape)

section \<open>Satisfaction depends on the variables of a descriptor\<close>

lemma restrict_sub: "A \<subseteq> B \<Longrightarrow> k |` B |` A = k |` A"
  by (simp add: inf.absorb2)

lemma local_mono:
  assumes "\<And>k. sat k \<longleftrightarrow> sat (k |` A)" "A \<subseteq> B" shows "sat (k |` B) \<longleftrightarrow> sat k"
  using assms(1) [of "k |` B"] assms(1) [of k] restrict_sub [OF assms(2), of k] by simp

lemma member_variables: "d \<in> set ds \<Longrightarrow> set (de_variables d) \<subseteq> set (all_variables ds)"
  by (auto simp: all_variables_def)

lemma scope_sat_local:
  assumes "\<forall>d \<in> set ds. \<forall>k. desc_sat env F d (k |` set (de_variables d)) \<longleftrightarrow> desc_sat env F d k"
    and "set (all_variables ds) \<subseteq> A"
  shows "(\<forall>d \<in> set ds. desc_sat env F d (k |` A)) \<longleftrightarrow> (\<forall>d \<in> set ds. desc_sat env F d k)"
proof (rule ball_cong [OF refl])
  fix d assume d: "d \<in> set ds"
  then have "set (de_variables d) \<subseteq> A" using assms(2) member_variables by blast
  then show "desc_sat env F d (k |` A) \<longleftrightarrow> desc_sat env F d k"
    using assms(1) d by (intro local_mono) auto
qed

lemma term_local: "set (term_vars t) \<subseteq> A \<Longrightarrow> term_is (k |` A) t b \<longleftrightarrow> term_is k t b"
  by (cases t) auto

lemma desc_sat_variables:
  "desc_ok env okt d \<Longrightarrow> \<forall>k. (desc_sat env F d (k |` set (de_variables d)) \<longleftrightarrow> desc_sat env F d k) \<and>
     (desc_sat env F d k \<longrightarrow> set (de_variables d) \<subseteq> dom k)"
proof (induction env okt d rule: desc_ok.induct)
  case (1 env okt i vs p)
  have "set (term_vars t) \<subseteq> dom k" if "term_is k t b" for t b and k :: "variable \<rightharpoonup> bytes" using that by (cases t) auto
  then have dom: "set (term_vars en @ term_vars vl) \<subseteq> dom k" if "triple_sat A en vl k" for A en vl k
    using that by (fastforce simp: triple_sat_def)
  have local: "triple_sat A en vl (k |` set (term_vars en @ term_vars vl)) \<longleftrightarrow> triple_sat A en vl k" for A en vl k
    by (simp add: triple_sat_def term_local)
  obtain a en vl where eq: "resolve_attribute_from_pattern (pat_attribute p) (dv_ident_map (qe_db env)) = Ok a"
    "entity_term (pat_entity p) = Ok en" "value_term (pat_value p) = Ok vl" "vs = term_vars en @ term_vars vl" using 1 by auto
  then have "desc_sat env F (Descriptor i vs (KTriple p)) = triple_sat (F a) en vl" by (auto simp: fun_eq_iff)
  then show ?case using dom [of "F a" en vl] local [of "F a" en vl] eq(4) by simp
next
  case (2 env okt i vs rows)
  have "set vs \<subseteq> dom k" if "row \<in> set rows" "k |` set vs = row_map vs (map encode row)" for k row
  proof -
    have "dom (k |` set vs) = set vs" unfolding that(2) using 2 that(1) by (simp add: dom_row_map)
    then show ?thesis by auto
  qed
  then show ?case by auto
next
  case (3 env okt i vs e)
  then show ?case by (auto simp: predicate_sat_def evaluate_as_bool_def evaluate_restrict)
next
  case (4 env okt i vs e inputs out)
  then show ?case by (auto simp: function_sat_def evaluate_restrict subset_insertI)
next
  case (5 env okt i vs branches)
  have ih: "\<forall>k. (desc_sat env F d (k |` set (de_variables d)) \<longleftrightarrow> desc_sat env F d k) \<and> (desc_sat env F d k \<longrightarrow> set (de_variables d) \<subseteq> dom k)"
    if "branch \<in> set branches" "d \<in> set branch" for branch d using 5 that by simp
  have vars: "set (all_variables branch) = set vs" if "branch \<in> set branches" for branch using 5 that by simp
  have "(\<forall>d \<in> set branch. desc_sat env F d (k |` set vs)) \<longleftrightarrow> (\<forall>d \<in> set branch. desc_sat env F d k)"
    if "branch \<in> set branches" for branch k
    using ih [OF that] vars [OF that] by (intro scope_sat_local) auto
  moreover have "set vs \<subseteq> dom k" if "branch \<in> set branches" "\<forall>d \<in> set branch. desc_sat env F d k" for branch k
  proof -
    have "set (de_variables d) \<subseteq> dom k" if "d \<in> set branch" for d
      using ih [OF \<open>branch \<in> set branches\<close> that] that \<open>\<forall>d \<in> set branch. desc_sat env F d k\<close> by blast
    then show ?thesis unfolding vars [OF that(1), symmetric] all_variables_def by auto
  qed
  ultimately show ?case unfolding desc_sat.simps descriptor.sel by blast
next
  case (6 env okt i vs inner)
  have "(\<forall>d \<in> set inner. desc_sat env F d (k |` set vs)) \<longleftrightarrow> (\<forall>d \<in> set inner. desc_sat env F d k)" for k
    using 6 by (intro scope_sat_local) auto
  then show ?case by auto
qed

lemma scope_sat_restrict:
  assumes "\<forall>d \<in> set ds. desc_ok env okt d" "set (all_variables ds) \<subseteq> A"
  shows "(\<forall>d \<in> set ds. desc_sat env F d (k |` A)) \<longleftrightarrow> (\<forall>d \<in> set ds. desc_sat env F d k)"
  using assms desc_sat_variables by (intro scope_sat_local) blast+

section \<open>Materialized stages\<close>

text \<open>The stage that a logical stage becomes when its participants are the patterns \<open>f\<close>.\<close>

definition positions_of :: "logical_stage \<Rightarrow> nat list" where
  "positions_of st = map fst (filter (\<lambda>(i, p). p \<in> set (ls_proposers st)) (enumerate 0 (ls_participants st)))"

definition mat_stage :: "(participant_ref \<Rightarrow> exec_pattern) \<Rightarrow> logical_stage \<Rightarrow> stage" where
  "mat_stage f st = \<lparr>st_added = ls_added st, st_participants = map f (ls_participants st),
     st_proposer_positions = positions_of st, st_target_variables = ls_target st\<rparr>"

lemma proposers_fold:
  "distinct ps \<Longrightarrow> set ps \<inter> seen = {} \<Longrightarrow> set ps \<subseteq> set participants \<Longrightarrow>
     rfold (seen_proposer participants) seen ps = Ok (seen \<union> set ps)"
  by (induction ps arbitrary: seen) (auto simp: seen_proposer_def)

lemma positions_set: "set (positions_of st) = {i. i < length (ls_participants st) \<and> ls_participants st ! i \<in> set (ls_proposers st)}"
  by (force simp: positions_of_def in_set_enumerate_eq)

lemma positions_nth: "map ((!) (ls_participants st)) (positions_of st) = filter (\<lambda>p. p \<in> set (ls_proposers st)) (ls_participants st)"
proof -
  have "map ((!) xs) (map fst (filter (\<lambda>(i, p). p \<in> A) (enumerate 0 xs))) = filter (\<lambda>p. p \<in> A) xs" for xs :: "participant_ref list" and A
  proof (induction xs rule: rev_induct)
    case (snoc x xs)
    have "map ((!) (xs @ [x]) \<circ> fst) (filter (\<lambda>(i, p). p \<in> A) (enumerate 0 xs)) =
        map ((!) xs \<circ> fst) (filter (\<lambda>(i, p). p \<in> A) (enumerate 0 xs))"
      by (rule map_cong [OF refl]) (auto simp: in_set_enumerate_eq nth_append)
    also have "\<dots> = filter (\<lambda>p. p \<in> A) xs" using snoc by simp
    finally show ?case by (simp add: enumerate_snoc)
  qed simp
  then show ?thesis by (simp add: positions_of_def)
qed

lemma positions_sorted: "sorted_wrt (<) (positions_of st)"
proof -
  have "sorted_wrt (<) (map fst (enumerate 0 (ls_participants st)))" by simp
  then show ?thesis unfolding positions_of_def sorted_wrt_map by (rule sorted_wrt_filter)
qed

lemma sorted_pairs: "sorted_wrt (<) xs \<Longrightarrow> (p, q) \<in> set (zip xs (tl xs)) \<Longrightarrow> (p :: nat) < q"
  by (auto simp: in_set_zip nth_tl sorted_wrt_iff_nth_less)

lemma positions_length:
  assumes "distinct (ls_participants st)" "distinct (ls_proposers st)" "set (ls_proposers st) \<subseteq> set (ls_participants st)"
  shows "length (positions_of st) = length (ls_proposers st)"
proof -
  let ?F = "filter (\<lambda>p. p \<in> set (ls_proposers st)) (ls_participants st)"
  have "set ?F = set (ls_proposers st)" using assms(3) by auto
  then have "length ?F = length (ls_proposers st)"
    using distinct_card [of ?F] distinct_card [of "ls_proposers st"] assms(1,2) by simp
  then show ?thesis using positions_nth [of st] by (metis length_map)
qed

lemma participants_fold:
  "distinct (map ep_id ps) \<Longrightarrow> ids \<inter> ep_id ` set ps = {} \<Longrightarrow> \<exists>s. rfold participant_step ids ps = Ok s"
  by (induction ps arbitrary: ids) (auto simp: participant_step_def)

lemma stage_new_mat:
  assumes ready: "lstage_ready ds incoming bound st" and inj: "inj_on (\<lambda>p. ep_id (f p)) (refs ds incoming)"
  shows "stage_new (ls_added st) (map f (ls_participants st)) (positions_of st) (ls_target st) = Ok (mat_stage f st)"
proof -
  have st: "ls_target st = bound @ ls_added st" "distinct (ls_target st)" "ls_participants st \<noteq> []" "distinct (ls_participants st)"
    "set (ls_participants st) \<subseteq> refs ds incoming" "distinct (ls_proposers st)" "set (ls_proposers st) \<subseteq> set (ls_participants st)"
    "ls_added st = [] \<longleftrightarrow> ls_proposers st = []" using ready unfolding lstage_ready_def by blast+
  have "distinct (map ep_id (map f (ls_participants st)))"
    using st(4) inj_on_subset [OF inj st(5)] by (simp add: distinct_map o_def)
  then obtain s where ids: "rfold participant_step {} (map f (ls_participants st)) = Ok s" using participants_fold by blast
  have empty: "positions_of st = [] \<longleftrightarrow> ls_proposers st = []" using positions_length [OF st(4,6,7)] by (metis length_0_conv)
  have range: "\<forall>i \<in> set (positions_of st). i < length (ls_participants st)" by (simp add: positions_set)
  have order: "\<forall>(p, q) \<in> set (zip (positions_of st) (tl (positions_of st))). p < q"
    using sorted_pairs [OF positions_sorted] by blast
  have "ensure_proposer_positions (ls_added st) (length (ls_participants st)) (positions_of st) = Ok ()"
    using order range st(8) empty by (auto simp: ensure_proposer_positions_def)
  then show ?thesis
    using st(1-3) ids by (auto simp: stage_new_def ensure_unique_def unseen_fold mat_stage_def)
qed

lemma stage_materialize_mat:
  assumes ready: "lstage_ready ds incoming bound st" and inj: "inj_on (\<lambda>p. ep_id (f p)) (refs ds incoming)"
    and f: "\<forall>p \<in> refs ds incoming. (case p of PPattern i \<Rightarrow> patterns i | PIncoming \<Rightarrow> inc) = Some (f p)"
  shows "stage_materialize st patterns inc = Ok (mat_stage f st)"
proof -
  have st: "set (ls_participants st) \<subseteq> refs ds incoming" "distinct (ls_proposers st)" "set (ls_proposers st) \<subseteq> set (ls_participants st)"
    using ready unfolding lstage_ready_def by blast+
  have "rmapM (\<lambda>p. case p of PPattern i \<Rightarrow> ok_or (patterns i) ''Unknown logical stage pattern id''
      | PIncoming \<Rightarrow> ok_or inc ''Root logical stage cannot contain Incoming'') (ls_participants st) = Ok (map f (ls_participants st))"
  proof (rule rmapM_total)
    fix p assume "p \<in> set (ls_participants st)"
    then have "(case p of PPattern i \<Rightarrow> patterns i | PIncoming \<Rightarrow> inc) = Some (f p)" using st(1) f by blast
    then show "(case p of PPattern i \<Rightarrow> ok_or (patterns i) ''Unknown logical stage pattern id''
      | PIncoming \<Rightarrow> ok_or inc ''Root logical stage cannot contain Incoming'') = Ok (f p)" by (cases p) simp_all
  qed
  moreover have "proposer_positions st = Ok (positions_of st)"
    using proposers_fold [OF st(2) _ st(3), of "{}"] by (simp add: proposer_positions_def positions_of_def)
  ultimately show ?thesis using stage_new_mat [OF ready inj] by (simp add: stage_materialize_def)
qed

lemma stage_ready_mat:
  assumes ready: "lstage_ready ds incoming bound st" and inj: "inj_on (\<lambda>p. ep_id (f p)) (refs ds incoming)"
    and C: "\<And>p added. p \<in> set (ls_proposers st) \<Longrightarrow> ref_can ds incoming p (set bound) added \<Longrightarrow> C (ep_id (f p)) (set bound) added"
    and V: "\<And>p. p \<in> set (ls_participants st) \<Longrightarrow> ref_can ds incoming p (set (ls_target st)) [] \<Longrightarrow> C (ep_id (f p)) (set (ls_target st)) []"
  shows "stage_ready C (set bound) (mat_stage f st)"
proof -
  have st: "ls_target st = bound @ ls_added st" "distinct (ls_target st)" "distinct (ls_participants st)"
    "distinct (ls_proposers st)" "set (ls_proposers st) \<subseteq> set (ls_participants st)" "ls_added st = [] \<longleftrightarrow> ls_proposers st = []"
    and can: "\<forall>p \<in> set (ls_proposers st). ref_can ds incoming p (set bound) (ls_added st)"
    "\<forall>p \<in> set (ls_participants st). ls_proposers st \<noteq> [p] \<longrightarrow> ref_can ds incoming p (set (ls_target st)) []"
    using ready unfolding lstage_ready_def by blast+
  let ?ps = "ls_participants st"
  have one: "\<exists>i. positions_of st = [i] \<and> ?ps ! i = p" if sole: "ls_proposers st = [p]" for p
  proof -
    obtain i where i: "positions_of st = [i]"
      using positions_length [OF st(3,4,5)] sole by (cases "positions_of st") auto
    then have "?ps ! i \<in> set (ls_proposers st)" using positions_set [of st] by auto
    then show ?thesis using i sole by simp
  qed
  have range: "i < length ?ps \<and> ?ps ! i \<in> set (ls_proposers st)" if "i \<in> set (positions_of st)" for i
    using that by (simp add: positions_set)
  have added: "C (ep_id (map f ?ps ! i)) (set bound) (ls_added st)" if "i \<in> set (positions_of st)" for i
    using range [OF that] can(1) C by simp
  have valid: "C (ep_id (f p)) (set (ls_target st)) []"
    if "p \<in> set ?ps" "\<forall>i. positions_of st = [i] \<longrightarrow> f p \<noteq> map f ?ps ! i" for p
  proof -
    have "ls_proposers st \<noteq> [p]" using one [of p] that(2) range by (metis list.set_intros(1) nth_map)
    then show ?thesis using can(2) V that(1) by blast
  qed
  have empty: "C (ep_id (f p)) (set bound) []" if "ls_added st = []" "p \<in> set ?ps" for p
    using V [OF that(2)] can(2) that st(1,6) by auto
  have "set bound \<inter> set (ls_added st) = {}" "set bound \<union> set (ls_added st) = set (ls_target st)" using st(1,2) by auto
  then show ?thesis
    unfolding stage_ready_def using stage_new_mat [OF ready inj] added valid empty by (auto simp: mat_stage_def)
qed

lemma plan_materialize:
  assumes "lplan_ready ds incoming prev sts" and inj: "inj_on (\<lambda>p. ep_id (f p)) (refs ds incoming)"
    and f: "\<forall>p \<in> refs ds incoming. (case p of PPattern i \<Rightarrow> patterns i | PIncoming \<Rightarrow> inc) = Some (f p)"
    and laws: "\<forall>p \<in> refs ds incoming. exec_pattern_law G (f p) (S (ep_id (f p))) (C (ep_id (f p)))"
    and counts: "\<forall>p \<in> refs ds incoming. ref_counts ds p \<longrightarrow> counting_pattern_law G (f p) (S (ep_id (f p))) (C (ep_id (f p)))"
    and C: "\<forall>p \<in> refs ds incoming. \<forall>bound added. called prev sts p bound \<longrightarrow> ref_can ds incoming p bound added \<longrightarrow> C (ep_id (f p)) bound added"
  shows "rmapM (\<lambda>st. stage_materialize st patterns inc) sts = Ok (map (mat_stage f) sts)"
    "plan_ready C (set prev) (map (mat_stage f) sts)" "\<forall>st \<in> set (map (mat_stage f) sts). stage_lawful G S C st"
proof -
  have "rmapM (\<lambda>st. stage_materialize st patterns inc) sts = Ok (map (mat_stage f) sts) \<and>
    plan_ready C (set prev) (map (mat_stage f) sts) \<and> (\<forall>st \<in> set (map (mat_stage f) sts). stage_lawful G S C st)"
    using assms(1) C
  proof (induction sts arbitrary: prev)
    case (Cons st sts)
    have ready: "lstage_ready ds incoming prev st" and rest: "lplan_ready ds incoming (ls_target st) sts"
      using Cons.prems(1) by auto
    have st: "set (ls_participants st) \<subseteq> refs ds incoming" "set (ls_proposers st) \<subseteq> set (ls_participants st)"
      "distinct (ls_participants st)" "distinct (ls_proposers st)"
      "1 < length (ls_proposers st) \<Longrightarrow> \<forall>p \<in> set (ls_proposers st). ref_counts ds p"
      using ready unfolding lstage_ready_def by blast+
    have "stage_ready C (set prev) (mat_stage f st)"
    proof (rule stage_ready_mat [OF ready inj])
      fix p added assume "p \<in> set (ls_proposers st)" "ref_can ds incoming p (set prev) added"
      moreover from this have "p \<in> refs ds incoming" "called prev (st # sts) p (set prev)" using st(1,2) by auto
      ultimately show "C (ep_id (f p)) (set prev) added" using Cons.prems(2) by blast
    next
      fix p assume "p \<in> set (ls_participants st)" "ref_can ds incoming p (set (ls_target st)) []"
      moreover from this have "p \<in> refs ds incoming" "called prev (st # sts) p (set (ls_target st))" using st(1) by auto
      ultimately show "C (ep_id (f p)) (set (ls_target st)) []" using Cons.prems(2) by blast
    qed
    moreover have "stage_lawful G S C (mat_stage f st)"
    proof -
      have "f (ls_participants st ! i) = map f (ls_participants st) ! i \<and> ls_participants st ! i \<in> refs ds incoming \<and>
          ls_participants st ! i \<in> set (ls_proposers st)"
        if "i \<in> set (positions_of st)" for i using that st(1,2) by (auto simp: positions_set)
      then show ?thesis
        using laws counts st(1,5) positions_length [OF st(3,4,2)] unfolding stage_lawful_def mat_stage_def by fastforce
    qed
    ultimately show ?case
      using Cons.IH [OF rest] Cons.prems(2) stage_materialize_mat [OF ready inj f] by (simp add: mat_stage_def)
  qed simp
  then show "rmapM (\<lambda>st. stage_materialize st patterns inc) sts = Ok (map (mat_stage f) sts)"
    "plan_ready C (set prev) (map (mat_stage f) sts)" "\<forall>st \<in> set (map (mat_stage f) sts). stage_lawful G S C st" by blast+
qed

lemma final_mat: "final_variables prev (map (mat_stage f) sts) = lfinal prev sts"
  by (induction sts arbitrary: prev) (simp_all add: mat_stage_def)

lemma participants_mat:
  assumes "lplan_ready ds incoming prev sts" "lcompleted ds incoming sts = refs ds incoming"
    and vars: "\<forall>p \<in> refs ds incoming. set (ep_variables (f p)) = ref_variables ds incoming p"
  shows "participants_in (map (mat_stage f) sts) = f ` refs ds incoming"
    "completed_in (map (mat_stage f) sts) = participants_in (map (mat_stage f) sts)"
proof -
  have sub: "set (ls_participants st) \<subseteq> refs ds incoming" if "st \<in> set sts" for st
    using assms(1) that by (induction sts arbitrary: prev) (auto simp: lstage_ready_def)
  have "refs ds incoming \<subseteq> (\<Union>st \<in> set sts. set (ls_participants st))"
    using assms(2) unfolding lcompleted_def by blast
  then have all: "(\<Union>st \<in> set sts. set (ls_participants st)) = refs ds incoming" using sub by blast
  show parts: "participants_in (map (mat_stage f) sts) = f ` refs ds incoming"
    unfolding all [symmetric] by (auto simp: participants_in_def mat_stage_def)
  have "f p \<in> completed_in (map (mat_stage f) sts)" if p: "p \<in> refs ds incoming" for p
  proof -
    obtain st where st: "st \<in> set sts" "p \<in> set (ls_participants st)" "ref_variables ds incoming p \<subseteq> set (ls_target st)"
      using p assms(2) unfolding lcompleted_def by blast
    then show ?thesis using vars p by (auto simp: completed_in_def mat_stage_def)
  qed
  moreover have "completed_in (map (mat_stage f) sts) \<subseteq> participants_in (map (mat_stage f) sts)"
    by (auto simp: completed_in_def participants_in_def)
  ultimately show "completed_in (map (mat_stage f) sts) = participants_in (map (mat_stage f) sts)" using parts by auto
qed

section \<open>Patterns of descriptors\<close>

lemma law_weaken:
  assumes "exec_pattern_law G p s c" "\<And>k. s' k \<longleftrightarrow> s k" "\<And>bound added. c' bound added \<Longrightarrow> c bound added"
  shows "exec_pattern_law G p s' c'"
proof -
  have "s' = s" using assms(2) by blast
  then show ?thesis using assms(1,3) unfolding exec_pattern_law_def by simp
qed

lemma counting_weaken:
  assumes "counting_pattern_law G p s c" "\<And>k. s' k \<longleftrightarrow> s k" "\<And>bound added. c' bound added \<Longrightarrow> c bound added"
  shows "counting_pattern_law G p s' c'"
proof (intro counting_pattern_law.intro counting_pattern_law_axioms.intro)
  show "exec_pattern_law G p s' c'"
    by (rule law_weaken [OF counting_pattern_law.axioms(1) [OF assms(1)] assms(2)]) (rule assms(3))
  fix b added and ps :: "proposal list"
  assume "bag_ok G b" "c' (set (bb_variables b)) added" "added \<noteq> []" "length ps = length (bb_rows b)"
  then show "\<exists>f. ep_count p b added ps = Ok (map2 (\<lambda>q n. proposal_consider q (ep_id p) n) ps f) \<and> length f = length ps"
    using counting_pattern_law.count_ok [OF assms(1)] assms(3) by blast
qed

text \<open>A descriptor is called when its kind allows it and its incoming layout, if it has one, is bound.\<close>

definition callable :: "descriptor \<Rightarrow> variable list option \<Rightarrow> variable set \<Rightarrow> variable list \<Rightarrow> bool" where
  "callable d layout bound added \<longleftrightarrow> desc_can d bound added \<and> (\<forall>vs. layout = Some vs \<longrightarrow> set vs \<subseteq> bound)"

definition pattern_of ::
  "('db, 'it) query_env \<Rightarrow> (int \<Rightarrow> bool) \<Rightarrow> (i64 \<Rightarrow> (bytes \<times> bytes) set) \<Rightarrow> descriptor \<Rightarrow> variable list option \<Rightarrow> exec_pattern \<Rightarrow> bool" where
  "pattern_of env okt F d layout p \<longleftrightarrow> ep_id p = de_id d \<and> set (ep_variables p) = set (de_variables d) \<and>
     exec_pattern_law (value_good okt) p (desc_sat env F d) (callable d layout) \<and>
     (desc_counts d \<longrightarrow> counting_pattern_law (value_good okt) p (desc_sat env F d) (callable d layout))"

definition env_ok ::
  "('db, 'it) query_env \<Rightarrow> ('db \<Rightarrow> bytes set) \<Rightarrow> ('it \<Rightarrow> bytes list) \<Rightarrow> ('it \<Rightarrow> bytes option) \<Rightarrow>
     (int \<Rightarrow> bool) \<Rightarrow> schema \<Rightarrow> i64 \<Rightarrow> version set \<Rightarrow> bool" where
  "env_ok env keys rest lk okt s as_of R \<longleftrightarrow>
     triple_store (qe_ops env) keys rest lk (qe_fuel env) okt s as_of R (qe_db env) \<and> timestamp_law (qe_timestamp env) okt"

lemma counting_pattern_of:
  assumes "counting_pattern_law (value_good okt) p (desc_sat env F d) (callable d layout)"
    "ep_id p = de_id d" "set (ep_variables p) = set (de_variables d)"
  shows "pattern_of env okt F d layout p"
  using assms counting_pattern_law.axioms(1) unfolding pattern_of_def by blast

lemma triple_materialized:
  assumes "desc_ok env okt (Descriptor i vs (KTriple p))" "env_ok env keys rest lk okt s as_of R"
  shows "\<exists>q. materialize_descriptor env (LogicalDescriptor i vs (LTriple p)) = Ok q \<and>
    pattern_of env okt (triple_facts as_of R) (Descriptor i vs (KTriple p)) layout q"
proof -
  let ?d = "Descriptor i vs (KTriple p)"
  obtain a en vl where eq: "resolve_attribute_from_pattern (pat_attribute p) (dv_ident_map (qe_db env)) = Ok a"
    "entity_term (pat_entity p) = Ok en" "value_term (pat_value p) = Ok vl" "vs = term_vars en @ term_vars vl"
    and good: "term_good okt en" "term_good okt vl" "distinct vs" using assms(1) by auto
  let ?q = "triple_exec (qe_ops env) (qe_fuel env) (mk_triple i en a vl (qe_db env))"
  have store: "triple_store (qe_ops env) keys rest lk (qe_fuel env) okt s as_of R (qe_db env)" using assms(2) by (simp add: env_ok_def)
  have new: "triple_new i en a vl (qe_db env) = Ok (mk_triple i en a vl (qe_db env))"
    using triple_new_Ok [of i en a vl "qe_db env"] good(3) eq(4) by simp
  have "counting_pattern_law (value_good okt) ?q (desc_sat env (triple_facts as_of R) ?d) (callable ?d layout)"
  proof (rule counting_weaken [OF triple.counting_pattern_law_axioms])
    show "desc_sat env (triple_facts as_of R) ?d k \<longleftrightarrow> triple_sat (triple_facts as_of R a) en vl k" for k
      using eq(1-3) by simp
    show "triple_can (qe_ops env) keys rest lk (qe_fuel env) okt s as_of R (qe_db env) en vl bound added"
      if "callable ?d layout bound added" for bound added
      using that store good eq(4) by (auto simp: callable_def desc_can_def triple_can_def split: if_splits)
  qed
  then have "pattern_of env okt (triple_facts as_of R) ?d layout ?q"
    by (rule counting_pattern_of) (simp_all add: triple_exec_def eq(4))
  then show ?thesis using eq new by simp
qed

lemma relation_materialized:
  assumes "desc_ok env okt (Descriptor i vs (KRelation rows))"
  shows "\<exists>q. materialize_descriptor env (LogicalDescriptor i vs (LRelation rows)) = Ok q \<and>
    pattern_of env okt F (Descriptor i vs (KRelation rows)) layout q"
proof -
  let ?d = "Descriptor i vs (KRelation rows)" and ?rs = "map (map encode) rows"
  let ?r = "mk_bag vs ?rs"
  have layout: "layout_ok vs ?rs" using assms by (auto simp: layout_ok_def)
  have "value_good okt x" if "row \<in> set rows" "x \<in> ran (row_map vs (map encode row))" for row x
  proof -
    from that(2) have "x \<in> encode ` set row" unfolding row_map_def by (auto simp: ran_def dest!: map_of_SomeD set_zip_rightD)
    then show ?thesis using assms that(1) by (auto simp: value_good_def)
  qed
  then have ok: "bag_ok (value_good okt) ?r" using layout by (auto simp: bag_ok_def bag_maps_def)
  have "counting_pattern_law (value_good okt) (relation_exec (relation_new i ?r)) (desc_sat env F ?d) (callable ?d layout)"
  proof (rule counting_weaken [OF rel.counting_pattern_law_axioms])
    show "desc_sat env F ?d k \<longleftrightarrow> relation_sat ?r k" for k by (auto simp: relation_sat_def bag_maps_def)
    show "relation_can (value_good okt) ?r bound added" if "callable ?d layout bound added" for bound added
      using that ok by (simp add: callable_def desc_can_def relation_can_def layout_can_def)
  qed
  then have "pattern_of env okt F ?d layout (relation_exec (relation_new i ?r))"
    by (rule counting_pattern_of) (simp_all add: relation_new_def)
  then show ?thesis using layout by simp
qed

lemma predicate_materialized:
  assumes "desc_ok env okt (Descriptor i vs (KPredicate e))" "timestamp_law (qe_timestamp env) okt"
  shows "\<exists>q. materialize_descriptor env (LogicalDescriptor i vs (LPredicate e)) = Ok q \<and>
    pattern_of env okt F (Descriptor i vs (KPredicate e)) layout q"
proof -
  let ?d = "Descriptor i vs (KPredicate e)" and ?q = "predicate_exec (qe_text env) (qe_timestamp env) (predicate_new i e)"
  have "exec_pattern_law (value_good okt) ?q (desc_sat env F ?d) (callable ?d layout)"
  proof (rule law_weaken [OF pred.exec_pattern_law_axioms])
    show "desc_sat env F ?d k \<longleftrightarrow> predicate_sat (qe_text env) (qe_timestamp env) e k" for k by simp
    show "predicate_can (qe_timestamp env) okt e bound added" if "callable ?d layout bound added" for bound added
      using that assms by (simp add: callable_def desc_can_def predicate_can_def)
  qed
  then have "pattern_of env okt F ?d layout ?q"
    using assms(1) by (simp add: pattern_of_def desc_counts_def predicate_exec_def predicate_new_def expr_variables_ok)
  then show ?thesis by simp
qed

lemma function_materialized:
  assumes "desc_ok env okt (Descriptor i vs (KFunction e inputs out))" "timestamp_law (qe_timestamp env) okt"
  shows "\<exists>q. materialize_descriptor env (LogicalDescriptor i vs (LFunction e inputs out)) = Ok q \<and>
    pattern_of env okt F (Descriptor i vs (KFunction e inputs out)) layout q"
proof -
  let ?d = "Descriptor i vs (KFunction e inputs out)" and ?q = "function_exec (qe_text env) (qe_timestamp env) (mk_function i e out)"
  have "counting_pattern_law (value_good okt) ?q (desc_sat env F ?d) (callable ?d layout)"
  proof (rule counting_weaken [OF func.counting_pattern_law_axioms])
    show "desc_sat env F ?d k \<longleftrightarrow> function_sat (qe_text env) (qe_timestamp env) e out k" for k by simp
    show "function_can (qe_text env) (qe_timestamp env) okt e out bound added" if "callable ?d layout bound added" for bound added
      using that assms by (simp add: callable_def desc_can_def function_can_def)
  qed
  then have "pattern_of env okt F ?d layout ?q"
    by (rule counting_pattern_of) (use assms(1) in \<open>simp_all add: function_exec_def expr_variables_ok\<close>)
  moreover have "function_new i e out = Ok (mk_function i e out)" using assms(1) function_new_Ok [of i e out] by simp
  ultimately show ?thesis by simp
qed

section \<open>One scope\<close>

definition input_ok :: "(int \<Rightarrow> bool) \<Rightarrow> descriptor list \<Rightarrow> variable list option \<Rightarrow> (pattern_id \<times> binding_bag) option \<Rightarrow> bool" where
  "input_ok okt ds incoming inp \<longleftrightarrow>
     (case inp of None \<Rightarrow> incoming = None
      | Some (j, r) \<Rightarrow> incoming = Some (bb_variables r) \<and> bag_ok (value_good okt) r \<and> j \<notin> de_id ` set ds)"

definition input_sat :: "(pattern_id \<times> binding_bag) option \<Rightarrow> (variable \<rightharpoonup> bytes) \<Rightarrow> bool" where
  "input_sat inp k \<longleftrightarrow> (case inp of None \<Rightarrow> True | Some (j, r) \<Rightarrow> relation_sat r k)"

definition input_pattern :: "(pattern_id \<times> binding_bag) option \<Rightarrow> exec_pattern option" where
  "input_pattern inp = map_option (\<lambda>(j, r). relation_exec (relation_new j r)) inp"

text \<open>A plan is correct when it materializes and executes for every admissible input, and returns the
  assignments of the scope's variables that agree with the input and satisfy the descriptors.\<close>

definition plan_correct ::
  "('db, 'it) query_env \<Rightarrow> (int \<Rightarrow> bool) \<Rightarrow> (i64 \<Rightarrow> (bytes \<times> bytes) set) \<Rightarrow> descriptor list \<Rightarrow> variable list option \<Rightarrow> logical_plan \<Rightarrow> bool" where
  "plan_correct env okt F ds incoming plan \<longleftrightarrow>
     lp_incoming plan = incoming \<and> set (output_variables plan) = set (all_variables ds) \<and>
     (\<forall>inp. input_ok okt ds incoming inp \<longrightarrow>
        (\<exists>stages c. materialize_plan env plan (input_pattern inp) = Ok stages \<and> execute stages bb_unit = Ok c \<and>
           bag_ok (value_good okt) c \<and> bb_variables c = output_variables plan \<and> distinct (bb_rows c) \<and>
           bag_maps c = {k. dom k = set (all_variables ds) \<and> input_sat inp k \<and> (\<forall>d \<in> set ds. desc_sat env F d k)}))"

definition layout_of :: "logical_stage list \<Rightarrow> descriptor \<Rightarrow> variable list option" where
  "layout_of sts d = (case descriptor_input_layout sts d of Inr layout \<Rightarrow> layout | Inl _ \<Rightarrow> None)"

lemma layout_of_bound:
  assumes "lplan_ready ds incoming [] sts" "called [] sts (PPattern (de_id d)) bound" "layout_of sts d = Some vs"
  shows "set vs \<subseteq> bound"
proof -
  obtain layout where layout: "input_layout [] sts (de_id d) = Some layout" "set layout \<subseteq> bound"
    using called_layout [OF assms(1,2)] by blast
  then show ?thesis
    using assms(3) by (cases "de_kind d") (auto simp: layout_of_def descriptor_input_layout_def)
qed

lemma patterns_fold:
  assumes "list_all2 (\<lambda>d ld. ld_id ld = de_id d \<and> (\<exists>p. materialize_descriptor env ld = Ok p \<and> Q d p)) ds lds"
    and "distinct (map de_id ds)" "dom m \<inter> de_id ` set ds = {}"
  shows "\<exists>m'. rfold (\<lambda>patterns d.
       rbind (materialize_descriptor env d) (\<lambda>p.
       rbind (ensure (patterns (ld_id d) = None) ''Duplicate descriptor id in one scope'') (\<lambda>_.
       Ok (patterns(ld_id d \<mapsto> p))))) m lds = Ok m' \<and>
     (\<forall>d \<in> set ds. \<exists>p. m' (de_id d) = Some p \<and> Q d p) \<and> (\<forall>i. i \<notin> de_id ` set ds \<longrightarrow> m' i = m i)"
  using assms
proof (induction ds lds arbitrary: m rule: list_all2_induct)
  case (Cons d ds ld lds)
  obtain p where p: "materialize_descriptor env ld = Ok p" "Q d p" "ld_id ld = de_id d" using Cons.hyps(1) by blast
  have free: "m (de_id d) = None" "de_id d \<notin> de_id ` set ds" using Cons.prems by (auto simp: domIff)
  have "dom (m(de_id d \<mapsto> p)) \<inter> de_id ` set ds = {}" using Cons.prems free(2) by auto
  moreover have "distinct (map de_id ds)" using Cons.prems(1) by simp
  ultimately obtain m' where
    m': "rfold (\<lambda>patterns d.
       rbind (materialize_descriptor env d) (\<lambda>p.
       rbind (ensure (patterns (ld_id d) = None) ''Duplicate descriptor id in one scope'') (\<lambda>_.
       Ok (patterns(ld_id d \<mapsto> p))))) (m(de_id d \<mapsto> p)) lds = Ok m'"
    "\<forall>d \<in> set ds. \<exists>p. m' (de_id d) = Some p \<and> Q d p" "\<forall>i. i \<notin> de_id ` set ds \<longrightarrow> m' i = (m(de_id d \<mapsto> p)) i"
    using Cons.IH [of "m(de_id d \<mapsto> p)"] by blast
  have "m' (de_id d) = Some p" using m'(3) free(2) by simp
  then have "\<forall>d' \<in> set (d # ds). \<exists>p. m' (de_id d') = Some p \<and> Q d' p" using p(2) m'(2) by simp
  moreover have "\<forall>i. i \<notin> de_id ` set (d # ds) \<longrightarrow> m' i = m i" using m'(3) by simp
  ultimately show ?case using m'(1) p(1,3) free(1) by (intro exI [of _ m'] conjI) (simp_all del: fun_upd_apply)
qed simp

lemma lfinal_last: "sts \<noteq> [] \<Longrightarrow> lfinal prev sts = ls_target (last sts)"
  by (induction sts arbitrary: prev) auto

text \<open>What a participant of a scope needs for the stages to be lawful and ready.\<close>

definition participant_ok ::
  "(bytes \<Rightarrow> bool) \<Rightarrow> descriptor list \<Rightarrow> variable list option \<Rightarrow> logical_stage list \<Rightarrow> (pattern_id \<rightharpoonup> exec_pattern) \<Rightarrow> exec_pattern option \<Rightarrow>
     (participant_ref \<Rightarrow> exec_pattern) \<Rightarrow> (pattern_id \<Rightarrow> (variable \<rightharpoonup> bytes) \<Rightarrow> bool) \<Rightarrow> (pattern_id \<Rightarrow> variable set \<Rightarrow> variable list \<Rightarrow> bool) \<Rightarrow>
     participant_ref \<Rightarrow> bool" where
  "participant_ok G ds incoming sts patterns inc f S C p \<longleftrightarrow>
     (case p of PPattern i \<Rightarrow> patterns i | PIncoming \<Rightarrow> inc) = Some (f p) \<and>
     set (ep_variables (f p)) = ref_variables ds incoming p \<and>
     exec_pattern_law G (f p) (S (ep_id (f p))) (C (ep_id (f p))) \<and>
     (ref_counts ds p \<longrightarrow> counting_pattern_law G (f p) (S (ep_id (f p))) (C (ep_id (f p)))) \<and>
     (\<forall>bound added. called [] sts p bound \<longrightarrow> ref_can ds incoming p bound added \<longrightarrow> C (ep_id (f p)) bound added)"

lemma descriptor_participant:
  assumes ready: "lplan_ready ds incoming [] sts" and d: "described ds (de_id d) = Some d" "patterns (de_id d) = Some (f (PPattern (de_id d)))"
    "pattern_of env okt F d (layout_of sts d) (f (PPattern (de_id d)))"
    and own: "S (de_id d) = desc_sat env F d" "C (de_id d) = callable d (layout_of sts d)"
  shows "participant_ok (value_good okt) ds incoming sts patterns inc f S C (PPattern (de_id d))"
proof -
  have "ep_id (f (PPattern (de_id d))) = de_id d" using d(3) by (simp add: pattern_of_def)
  then show ?thesis
    using d own layout_of_bound [OF ready] by (auto simp: participant_ok_def pattern_of_def callable_def)
qed

lemma incoming_participant:
  assumes "f PIncoming = relation_exec (relation_new j r)" "incoming = Some (bb_variables r)" "bag_ok (value_good okt) r"
    "inc = Some (f PIncoming)" "S j = relation_sat r" "C j = relation_can (value_good okt) r"
  shows "participant_ok (value_good okt) ds incoming sts patterns inc f S C PIncoming"
proof -
  have id: "ep_id (f PIncoming) = j" using assms(1) by (simp add: relation_new_def)
  have "C j bound added" if "layout_can (bb_variables r) bound added" for bound added
    using that assms(3,6) by (simp add: relation_can_def layout_can_def)
  then show ?thesis
    unfolding participant_ok_def id assms(5,6)
    using assms(1-4,6) rel.exec_pattern_law_axioms rel.counting_pattern_law_axioms by (auto simp: relation_new_def)
qed

lemma scope_run:
  assumes ready: "lplan_ready ds incoming [] sts" "lcompleted ds incoming sts = refs ds incoming"
    and parts: "\<forall>p \<in> refs ds incoming. participant_ok G ds incoming sts patterns inc f S C p"
    and inj: "inj_on (\<lambda>p. ep_id (f p)) (refs ds incoming)"
  shows "rmapM (\<lambda>st. stage_materialize st patterns inc) sts = Ok (map (mat_stage f) sts)"
    "\<exists>c. execute (map (mat_stage f) sts) bb_unit = Ok c \<and> bag_ok G c \<and> bb_variables c = lfinal [] sts \<and> distinct (bb_rows c) \<and>
       bag_maps c = {k. dom k = set (lfinal [] sts) \<and> (\<forall>p \<in> refs ds incoming. S (ep_id (f p)) k)}"
proof -
  have pats: "\<forall>p \<in> refs ds incoming. (case p of PPattern i \<Rightarrow> patterns i | PIncoming \<Rightarrow> inc) = Some (f p)"
    and vars: "\<forall>p \<in> refs ds incoming. set (ep_variables (f p)) = ref_variables ds incoming p"
    and laws: "\<forall>p \<in> refs ds incoming. exec_pattern_law G (f p) (S (ep_id (f p))) (C (ep_id (f p)))"
    and counts: "\<forall>p \<in> refs ds incoming. ref_counts ds p \<longrightarrow> counting_pattern_law G (f p) (S (ep_id (f p))) (C (ep_id (f p)))"
    and calls: "\<forall>p \<in> refs ds incoming. \<forall>bound added. called [] sts p bound \<longrightarrow> ref_can ds incoming p bound added \<longrightarrow> C (ep_id (f p)) bound added"
    using parts by (simp_all add: participant_ok_def)
  note mat = plan_materialize [OF ready(1) inj pats laws counts calls]
  show "rmapM (\<lambda>st. stage_materialize st patterns inc) sts = Ok (map (mat_stage f) sts)" by (rule mat(1))
  show "\<exists>c. execute (map (mat_stage f) sts) bb_unit = Ok c \<and> bag_ok G c \<and> bb_variables c = lfinal [] sts \<and> distinct (bb_rows c) \<and>
      bag_maps c = {k. dom k = set (lfinal [] sts) \<and> (\<forall>p \<in> refs ds incoming. S (ep_id (f p)) k)}"
    using execute_ok [of C "map (mat_stage f) sts" G S] mat(2,3) participants_mat [OF ready vars] unfolding final_mat by auto
qed

lemma scope_output:
  assumes "lcompleted ds incoming sts = refs ds incoming"
  shows "output_variables (LogicalPlan incoming lds sts) = lfinal [] sts"
proof (cases "sts = []")
  case True
  then have "incoming = None" using assms by (auto simp: lcompleted_def refs_def split: if_splits)
  then show ?thesis using True by (simp add: output_variables_def)
qed (simp add: output_variables_def lfinal_last)

lemma scope_executes:
  assumes ready: "lplan_ready ds incoming [] sts" "lcompleted ds incoming sts = refs ds incoming"
    and ids: "distinct (map de_id ds)" and inp: "input_ok okt ds incoming inp"
    and mats: "list_all2 (\<lambda>d ld. ld_id ld = de_id d \<and>
      (\<exists>p. materialize_descriptor env ld = Ok p \<and> pattern_of env okt F d (layout_of sts d) p)) ds lds"
  shows "\<exists>stages c. materialize_plan env (LogicalPlan incoming lds sts) (input_pattern inp) = Ok stages \<and> execute stages bb_unit = Ok c \<and>
      bag_ok (value_good okt) c \<and> bb_variables c = lfinal [] sts \<and> distinct (bb_rows c) \<and>
      bag_maps c = {k. dom k = set (lfinal [] sts) \<and> input_sat inp k \<and> (\<forall>d \<in> set ds. desc_sat env F d k)}"
proof -
  obtain m where m: "rfold (\<lambda>patterns d.
       rbind (materialize_descriptor env d) (\<lambda>p.
       rbind (ensure (patterns (ld_id d) = None) ''Duplicate descriptor id in one scope'') (\<lambda>_.
       Ok (patterns(ld_id d \<mapsto> p))))) Map.empty lds = Ok m"
    "\<forall>d \<in> set ds. \<exists>p. m (de_id d) = Some p \<and> pattern_of env okt F d (layout_of sts d) p"
    using patterns_fold [OF mats ids, of Map.empty] by auto
  let ?j = "fst (the inp)" and ?r = "snd (the inp)" and ?D = "\<lambda>i. the (described ds i)"
  define f where "f = (\<lambda>p. case p of PPattern i \<Rightarrow> the (m i) | PIncoming \<Rightarrow> relation_exec (relation_new ?j ?r))"
  define S where "S = (\<lambda>i. if inp \<noteq> None \<and> i = ?j then relation_sat ?r else desc_sat env F (?D i))"
  define C where "C = (\<lambda>i. if inp \<noteq> None \<and> i = ?j then relation_can (value_good okt) ?r else callable (?D i) (layout_of sts (?D i)))"
  have fd: "m (de_id d) = Some (f (PPattern (de_id d)))" "pattern_of env okt F d (layout_of sts d) (f (PPattern (de_id d)))"
    if "d \<in> set ds" for d using m(2) that by (auto simp: f_def)
  have own: "S (de_id d) = desc_sat env F d" "C (de_id d) = callable d (layout_of sts d)" if d: "d \<in> set ds" for d
    using inp d described_eq [OF ids d] by (auto simp: S_def C_def input_ok_def)
  have eid: "ep_id (f (PPattern (de_id d))) = de_id d" if "d \<in> set ds" for d using fd(2) [OF that] by (simp add: pattern_of_def)
  have iid: "ep_id (f PIncoming) = ?j" by (simp add: f_def relation_new_def)
  have some: "inp = Some (?j, ?r) \<and> incoming = Some (bb_variables ?r) \<and> bag_ok (value_good okt) ?r \<and> ?j \<notin> de_id ` set ds"
    if "incoming \<noteq> None" using inp that by (cases inp) (auto simp: input_ok_def)
  have none: "incoming = None \<longleftrightarrow> inp = None" using inp by (cases inp) (auto simp: input_ok_def)
  have "\<forall>p \<in> refs ds incoming. participant_ok (value_good okt) ds incoming sts m (input_pattern inp) f S C p"
  proof
    fix p assume "p \<in> refs ds incoming"
    then consider d where "d \<in> set ds" "p = PPattern (de_id d)" | "incoming \<noteq> None" "p = PIncoming"
      by (auto simp: refs_def split: if_splits)
    then show "participant_ok (value_good okt) ds incoming sts m (input_pattern inp) f S C p"
    proof cases
      case 1
      show ?thesis
        unfolding 1(2)
        by (rule descriptor_participant [OF ready(1) described_eq [OF ids 1(1)]]) (rule fd [OF 1(1)] own [OF 1(1)])+
    next
      case 2
      obtain j r where jr: "inp = Some (j, r)" using 2(1) none by (cases inp) auto
      show ?thesis
        unfolding 2(2)
        by (rule incoming_participant [of f j r]) (use some [OF 2(1)] jr in \<open>auto simp: f_def S_def C_def input_pattern_def\<close>)
    qed
  qed
  moreover have "inj_on (\<lambda>p. ep_id (f p)) (refs ds incoming)"
  proof -
    have "\<forall>d \<in> set ds. incoming \<noteq> None \<longrightarrow> ?j \<noteq> de_id d"
      using some by (metis imageI)
    then show ?thesis by (auto simp: inj_on_def refs_def eid iid split: if_splits)
  qed
  ultimately have run: "rmapM (\<lambda>st. stage_materialize st m (input_pattern inp)) sts = Ok (map (mat_stage f) sts)"
    "\<exists>c. execute (map (mat_stage f) sts) bb_unit = Ok c \<and> bag_ok (value_good okt) c \<and> bb_variables c = lfinal [] sts \<and> distinct (bb_rows c) \<and>
       bag_maps c = {k. dom k = set (lfinal [] sts) \<and> (\<forall>p \<in> refs ds incoming. S (ep_id (f p)) k)}"
    using scope_run [OF ready] by blast+
  have "check_incoming incoming (input_pattern inp) = Ok ()"
    using inp by (cases inp) (auto simp: input_ok_def input_pattern_def check_incoming_def relation_new_def)
  then have "materialize_plan env (LogicalPlan incoming lds sts) (input_pattern inp) = Ok (map (mat_stage f) sts)"
    unfolding materialize_plan.simps using m(1) run(1) by simp
  moreover have "(\<forall>p \<in> refs ds incoming. S (ep_id (f p)) k) \<longleftrightarrow> input_sat inp k \<and> (\<forall>d \<in> set ds. desc_sat env F d k)" for k
  proof -
    have "input_sat inp k \<longleftrightarrow> (incoming \<noteq> None \<longrightarrow> S (ep_id (f PIncoming)) k)"
      using none by (cases inp) (auto simp: input_sat_def S_def iid)
    then show ?thesis by (auto simp: refs_def eid own)
  qed
  ultimately show ?thesis using run(2) by auto
qed

lemma scope_correct:
  assumes ok: "scope_ok env okt ds" and order: "distinct order"
    and inc: "\<And>vs. incoming = Some vs \<Longrightarrow> distinct vs \<and> set vs \<subseteq> set (all_variables ds)"
    and plan: "plan_stages ds order incoming = Ok sts"
    and mats: "list_all2 (\<lambda>d ld. ld_id ld = de_id d \<and>
      (\<exists>p. materialize_descriptor env ld = Ok p \<and> pattern_of env okt F d (layout_of sts d) p)) ds lds"
  shows "plan_correct env okt F ds incoming (LogicalPlan incoming lds sts)"
proof -
  have ids: "distinct (map de_id ds)" using ok by (simp add: scope_ok_def)
  note ready = plan_stages_ready [OF scope_ok_shape [OF ok inc] order plan]
  have out: "output_variables (LogicalPlan incoming lds sts) = lfinal [] sts" by (rule scope_output [OF ready(3)])
  show ?thesis
    using scope_executes [OF ready(1,3) ids _ mats] ready(2)
    by (simp add: plan_correct_def out del: materialize_plan.simps)
qed

section \<open>Nested scopes\<close>

lemma filter_incoming: "set vs \<subseteq> A \<Longrightarrow> filter (\<lambda>v. v \<in> A) vs = vs"
  by (simp add: filter_id_conv subset_iff)

lemma nested_scope:
  assumes "plan_correct env okt F ds (Some layout) plan" "i \<notin> de_id ` set ds" "set (all_variables ds) = vars"
  shows "nested_ok (value_good okt) i layout vars (\<lambda>incoming. materialize_plan env plan (Some incoming)) (\<lambda>k. \<forall>d \<in> set ds. desc_sat env F d k)"
  unfolding nested_ok_def
proof (intro allI impI)
  fix r assume r: "bag_ok (value_good okt) r" "bb_variables r = layout"
  then have "input_ok okt ds (Some layout) (Some (i, r))" using assms(2) by (simp add: input_ok_def)
  with assms(1) obtain stages c where c: "materialize_plan env plan (input_pattern (Some (i, r))) = Ok stages" "execute stages bb_unit = Ok c"
    "bag_ok (value_good okt) c" "bb_variables c = output_variables plan" "distinct (bb_rows c)"
    "bag_maps c = {k. dom k = set (all_variables ds) \<and> input_sat (Some (i, r)) k \<and> (\<forall>d \<in> set ds. desc_sat env F d k)}"
    unfolding plan_correct_def by blast
  have "set (bb_variables c) = vars" using assms(1,3) c(4) by (simp add: plan_correct_def)
  then show "\<exists>stages c. materialize_plan env plan (Some (relation_exec (relation_new i r))) = Ok stages \<and> execute stages bb_unit = Ok c \<and>
      bag_ok (value_good okt) c \<and> set (bb_variables c) = vars \<and> distinct (bb_rows c) \<and>
      bag_maps c = {k. dom k = vars \<and> relation_sat r k \<and> (\<forall>d \<in> set ds. desc_sat env F d k)}"
    using c assms(3) by (simp add: input_pattern_def input_sat_def)
qed

lemma or_new_ok:
  assumes "distinct vs" "distinct layout" "set layout \<subseteq> set vs" "plans \<noteq> []"
    and "\<forall>plan \<in> set plans. lp_incoming plan = Some layout \<and> set (output_variables plan) = set vs"
  shows "or_new vs plans = Ok layout"
proof -
  have "rfold (\<lambda>_ plan.
      rbind (ensure (set (output_variables plan) = set vs) ''OR branch does not produce the OR variable set'') (\<lambda>_.
      ensure (lp_incoming plan = Some layout) ''OR branch has a different incoming layout'')) () plans = Ok ()"
    using assms(5) by (induction plans) simp_all
  moreover have "(case plans of [] \<Rightarrow> None | p # _ \<Rightarrow> lp_incoming p) = Some layout"
    using assms(4,5) by (cases plans) simp_all
  ultimately show ?thesis
    using assms(1-3) by (auto simp: or_new_def ensure_unique_def unseen_fold)
qed

lemma or_materialized:
  assumes ok: "desc_ok env okt (Descriptor i vs (KOr branches))"
    and layout: "distinct layout" "set layout \<subseteq> set vs"
    and plans: "list_all2 (\<lambda>branch plan. plan_correct env okt F branch (Some layout) plan) branches plans"
  shows "\<exists>q. materialize_descriptor env (LogicalDescriptor i vs (LOr plans)) = Ok q \<and>
    pattern_of env okt F (Descriptor i vs (KOr branches)) (Some layout) q"
proof -
  let ?d = "Descriptor i vs (KOr branches)"
  let ?sats = "map (\<lambda>branch k. \<forall>d \<in> set branch. desc_sat env F d k) branches"
  let ?runs = "map (\<lambda>plan incoming. materialize_plan env plan (Some incoming)) plans"
  let ?q = "or_exec i vs layout ?runs"
  have branch: "set (all_variables branch) = set vs" "i \<notin> de_id ` set branch" "\<forall>d \<in> set branch. desc_ok env okt d"
    if "branch \<in> set branches" for branch using ok that by auto
  have each: "\<exists>branch \<in> set branches. plan_correct env okt F branch (Some layout) plan" if "plan \<in> set plans" for plan
    using plans that by (metis in_set_conv_nth list_all2_conv_all_nth)
  have "or_new vs plans = Ok layout"
  proof (rule or_new_ok [OF _ layout])
    show "plans \<noteq> []" using ok plans by (auto simp: list_all2_Nil2)
    show "\<forall>plan \<in> set plans. lp_incoming plan = Some layout \<and> set (output_variables plan) = set vs"
      using each branch(1) by (fastforce simp: plan_correct_def)
  qed (use ok in simp)
  moreover have "list_all2 (nested_ok (value_good okt) i layout (set vs)) ?runs ?sats"
    unfolding list_all2_map1 list_all2_map2
    using plans by (intro list_all2_all_nthI) (auto simp: list_all2_conv_all_nth intro!: nested_scope branch(1,2))
  moreover have "desc_sat env F ?d k \<longleftrightarrow> or_sat (set vs) ?sats k" for k
  proof -
    have "set vs \<subseteq> dom k" if "desc_sat env F ?d k" using desc_sat_variables [OF ok, of F] that by auto
    moreover have "(\<forall>d \<in> set branch. desc_sat env F d (k |` set vs)) \<longleftrightarrow> (\<forall>d \<in> set branch. desc_sat env F d k)"
      if "branch \<in> set branches" for branch
      by (rule scope_sat_restrict) (use branch [OF that] in auto)
    ultimately show ?thesis by (auto simp: or_sat_def)
  qed
  ultimately have "exec_pattern_law (value_good okt) ?q (desc_sat env F ?d) (callable ?d (Some layout))"
    using ok layout
    by (intro law_weaken [OF disj.exec_pattern_law_axioms [of "value_good okt" i vs layout ?runs ?sats]])
      (auto simp: callable_def desc_can_def or_can_def)
  then have "pattern_of env okt F ?d (Some layout) ?q" by (simp add: pattern_of_def or_exec_def desc_counts_def)
  then show ?thesis using \<open>or_new vs plans = Ok layout\<close> by simp
qed

lemma not_materialized:
  assumes ok: "desc_ok env okt (Descriptor i vs (KNot inner))"
    and layout: "distinct layout" "set layout = set vs"
    and plan: "plan_correct env okt F inner (Some layout) plan"
  shows "\<exists>q. materialize_descriptor env (LogicalDescriptor i vs (LNot plan)) = Ok q \<and>
    pattern_of env okt F (Descriptor i vs (KNot inner)) (Some layout) q"
proof -
  let ?d = "Descriptor i vs (KNot inner)"
  let ?sat = "\<lambda>k. \<forall>d \<in> set inner. desc_sat env F d k"
  let ?run = "\<lambda>incoming. materialize_plan env plan (Some incoming)"
  let ?q = "not_exec i vs layout ?run"
  have inner: "set (all_variables inner) = set vs" "i \<notin> de_id ` set inner" "\<forall>d \<in> set inner. desc_ok env okt d"
    using ok by auto
  have new: "not_new vs plan = Ok layout"
    using plan ok layout by (auto simp: not_new_def plan_correct_def ensure_unique_def unseen_fold)
  have "nested_ok (value_good okt) i layout (set vs) ?run ?sat" by (rule nested_scope [OF plan inner(2,1)])
  moreover have "desc_sat env F ?d k \<longleftrightarrow> not_sat (set vs) ?sat k" for k
    using scope_sat_restrict [OF inner(3), of "set vs" F k] inner(1) by (simp add: not_sat_def)
  ultimately have "exec_pattern_law (value_good okt) ?q (desc_sat env F ?d) (callable ?d (Some layout))"
    using ok layout
    by (intro law_weaken [OF neg.exec_pattern_law_axioms [of "value_good okt" i vs layout ?run ?sat]])
      (auto simp: callable_def desc_can_def not_can_def)
  then have "pattern_of env okt F ?d (Some layout) ?q" by (simp add: pattern_of_def not_exec_def desc_counts_def)
  then show ?thesis using new by simp
qed

section \<open>Every plan is correct\<close>

lemma layout_of_scope:
  assumes "lplan_ready ds incoming [] sts" "descriptor_input_layout sts d = Ok layout"
  shows "layout = layout_of sts d" and "layout = Some vs \<Longrightarrow> distinct vs \<and> set vs \<subseteq> set (de_variables d)"
proof -
  show "layout = layout_of sts d" using assms(2) by (simp add: layout_of_def)
  assume "layout = Some vs"
  then obtain l where "input_layout [] sts (de_id d) = Some l" "vs = filter (\<lambda>v. v \<in> set (de_variables d)) l"
    using assms(2) by (cases "de_kind d") (auto simp: descriptor_input_layout_def)
  then show "distinct vs \<and> set vs \<subseteq> set (de_variables d)" using input_layout_bound(1) [OF assms(1)] by auto
qed

definition planned_ok ::
  "('db, 'it) query_env \<Rightarrow> (int \<Rightarrow> bool) \<Rightarrow> (i64 \<Rightarrow> (bytes \<times> bytes) set) \<Rightarrow> descriptor \<Rightarrow> variable list option \<Rightarrow> logical_descriptor \<Rightarrow> bool" where
  "planned_ok env okt F d layout ld \<longleftrightarrow> ld_id ld = de_id d \<and>
     (\<exists>p. materialize_descriptor env ld = Ok p \<and> pattern_of env okt F d layout p)"

lemma plan_or:
  assumes ok: "desc_ok env okt (Descriptor i vs (KOr branches))" and order: "distinct order"
    and layout: "distinct layout" "set layout \<subseteq> set vs"
    and plan: "plan_descriptor (Descriptor i vs (KOr branches)) (Some layout) order = Ok ld"
    and ih: "\<And>branch plan. branch \<in> set branches \<Longrightarrow> plan_scope branch order (Some layout) = Ok plan \<Longrightarrow> scope_ok env okt branch \<Longrightarrow>
      plan_correct env okt F branch (Some (filter (\<lambda>v. v \<in> set (all_variables branch)) layout)) plan"
  shows "planned_ok env okt F (Descriptor i vs (KOr branches)) (Some layout) ld"
proof -
  obtain plans where p: "rmapM (\<lambda>branch. plan_scope branch order (Some layout)) branches = Ok plans"
    "ld = LogicalDescriptor i vs (LOr plans)" using plan by auto
  have "plan_correct env okt F branch (Some layout) plan"
    if "branch \<in> set branches" "plan_scope branch order (Some layout) = Ok plan" for branch plan
  proof -
    have "set (all_variables branch) = set vs" "scope_ok env okt branch" using ok that(1) by (auto simp: scope_ok_def)
    then show ?thesis using ih [OF that] filter_incoming [OF layout(2)] by simp
  qed
  then have "list_all2 (\<lambda>branch plan. plan_correct env okt F branch (Some layout) plan) branches plans"
    using p(1) unfolding rmapM_eq_Ok list_all2_conv_all_nth by simp
  then show ?thesis using or_materialized [OF ok layout] p(2) by (simp add: planned_ok_def)
qed

lemma plan_not:
  assumes ok: "desc_ok env okt (Descriptor i vs (KNot inner))" and layout: "distinct layout"
    and plan: "plan_descriptor (Descriptor i vs (KNot inner)) (Some layout) order = Ok ld"
    and ih: "\<And>plan. plan_scope inner order (Some layout) = Ok plan \<Longrightarrow> scope_ok env okt inner \<Longrightarrow>
      plan_correct env okt F inner (Some (filter (\<lambda>v. v \<in> set (all_variables inner)) layout)) plan"
  shows "planned_ok env okt F (Descriptor i vs (KNot inner)) (Some layout) ld"
proof -
  obtain plan where p: "set layout = set vs" "plan_scope inner order (Some layout) = Ok plan"
    "ld = LogicalDescriptor i vs (LNot plan)" using plan by auto
  have "set (all_variables inner) = set vs" "scope_ok env okt inner" using ok by (auto simp: scope_ok_def)
  then have "plan_correct env okt F inner (Some layout) plan"
    using ih [OF p(2)] filter_incoming [of layout "set vs"] p(1) by simp
  then show ?thesis using not_materialized [OF ok layout p(1)] p(3) by (simp add: planned_ok_def)
qed

lemma plan_leaf:
  assumes "desc_ok env okt (Descriptor i vs k)" "env_ok env keys rest lk okt s as_of R"
    and "plan_descriptor (Descriptor i vs k) layout order = Ok ld" "\<nexists>branches. k = KOr branches" "\<nexists>inner. k = KNot inner"
  shows "planned_ok env okt (triple_facts as_of R) (Descriptor i vs k) layout ld"
proof -
  have ts: "timestamp_law (qe_timestamp env) okt" using assms(2) by (simp add: env_ok_def)
  show ?thesis
  proof (cases k)
  case (KTriple p)
  have ld: "ld = LogicalDescriptor i vs (LTriple p)" using assms(3) KTriple by simp
  show ?thesis
    unfolding planned_ok_def ld KTriple
    using triple_materialized [OF assms(1) [unfolded KTriple] assms(2)] by (simp del: materialize_descriptor.simps)
next
  case (KRelation rows)
  have ld: "ld = LogicalDescriptor i vs (LRelation rows)" using assms(3) KRelation by simp
  show ?thesis
    unfolding planned_ok_def ld KRelation
    using relation_materialized [OF assms(1) [unfolded KRelation]] by (simp del: materialize_descriptor.simps)
next
  case (KPredicate e)
  have ld: "ld = LogicalDescriptor i vs (LPredicate e)" using assms(3) KPredicate by simp
  show ?thesis
    unfolding planned_ok_def ld KPredicate
    using predicate_materialized [OF assms(1) [unfolded KPredicate] ts] by (simp del: materialize_descriptor.simps)
next
  case (KFunction e inputs out)
  have ld: "ld = LogicalDescriptor i vs (LFunction e inputs out)" using assms(3) KFunction by simp
  show ?thesis
    unfolding planned_ok_def ld KFunction
    using function_materialized [OF assms(1) [unfolded KFunction] ts] by (simp del: materialize_descriptor.simps)
qed (use assms(4,5) in simp_all)
qed

lemma plan_scope_stages:
  assumes "plan_scope ds order incoming = Ok plan" "incoming' = map_option (filter (\<lambda>v. v \<in> set (all_variables ds))) incoming"
  obtains sts lds where "plan_stages ds order incoming' = Ok sts" "plan = LogicalPlan incoming' lds sts"
    "list_all2 (\<lambda>d ld. \<exists>layout. descriptor_input_layout sts d = Ok layout \<and> plan_descriptor d layout order = Ok ld) ds lds"
proof -
  obtain sts lds where "plan_stages ds order incoming' = Ok sts" "plan = LogicalPlan incoming' lds sts"
    "rmapM (\<lambda>d. rbind (descriptor_input_layout sts d) (\<lambda>layout. plan_descriptor d layout order)) ds = Ok lds"
    using assms(1) unfolding plan_scope.simps Let_def rbind_eq_Ok assms(2) [symmetric] by blast
  then show thesis using that [of sts lds] by (simp add: rmapM_eq_Ok)
qed

lemma plans_correct:
  fixes env :: "('db, 'it) query_env"
  assumes env: "env_ok env keys rest lk okt s as_of R"
  shows "\<forall>ld. distinct order \<longrightarrow> plan_descriptor d layout order = Ok ld \<longrightarrow> desc_ok env okt d \<longrightarrow>
      (\<forall>vs. layout = Some vs \<longrightarrow> distinct vs \<and> set vs \<subseteq> set (de_variables d)) \<longrightarrow>
      planned_ok env okt (triple_facts as_of R) d layout ld"
    and "\<forall>plan. distinct order' \<longrightarrow> plan_scope ds order' incoming = Ok plan \<longrightarrow> scope_ok env okt ds \<longrightarrow>
      (\<forall>vs. incoming = Some vs \<longrightarrow> distinct vs) \<longrightarrow>
      plan_correct env okt (triple_facts as_of R) ds (map_option (filter (\<lambda>v. v \<in> set (all_variables ds))) incoming) plan"
proof (induction d layout order and ds order' incoming rule: plan_descriptor_plan_scope.induct)
  case (1 i vs k layout order)
  show ?case
  proof (intro allI impI)
    fix ld assume order: "distinct order" and plan: "plan_descriptor (Descriptor i vs k) layout order = Ok ld"
      and ok: "desc_ok env okt (Descriptor i vs k)"
      and lay: "\<forall>us. layout = Some us \<longrightarrow> distinct us \<and> set us \<subseteq> set (de_variables (Descriptor i vs k))"
    show "planned_ok env okt (triple_facts as_of R) (Descriptor i vs k) layout ld"
    proof (cases k)
      case (KOr branches)
      obtain us where us: "layout = Some us" using plan KOr by (cases layout) simp_all
      show ?thesis
        using plan ok lay 1(1) [OF KOr us] order unfolding KOr us by (intro plan_or) auto
    next
      case (KNot inner)
      obtain us where us: "layout = Some us" using plan KNot by (cases layout) simp_all
      show ?thesis
        using plan ok lay 1(2) [OF KNot us] order unfolding KNot us by (intro plan_not) auto
    qed (use plan_leaf [OF ok env plan] in simp_all)
  qed
next
  case (2 ds order incoming)
  define inc where "inc = map_option (filter (\<lambda>v. v \<in> set (all_variables ds))) incoming"
  show ?case
  proof (intro allI impI)
    fix plan assume order: "distinct order" and plan: "plan_scope ds order incoming = Ok plan"
      and ok: "scope_ok env okt ds" and dist: "\<forall>vs. incoming = Some vs \<longrightarrow> distinct vs"
    obtain sts lds where p: "plan_stages ds order inc = Ok sts" "plan = LogicalPlan inc lds sts"
      and lds: "list_all2 (\<lambda>d ld. \<exists>layout. descriptor_input_layout sts d = Ok layout \<and> plan_descriptor d layout order = Ok ld) ds lds"
      by (rule plan_scope_stages [OF plan inc_def])
    have inc: "distinct vs \<and> set vs \<subseteq> set (all_variables ds)" if "inc = Some vs" for vs
      using that dist by (auto simp: inc_def)
    have ready: "lplan_ready ds inc [] sts" by (rule plan_stages_ready(1) [OF scope_ok_shape [OF ok inc] order p(1)])
    have "planned_ok env okt (triple_facts as_of R) d (layout_of sts d) ld"
      if "d \<in> set ds" "descriptor_input_layout sts d = Ok layout" "plan_descriptor d layout order = Ok ld" for d layout ld
      using 2 [OF inc_def p(1) that(1,2)] order that ok layout_of_scope [OF ready that(2)] by (auto simp: scope_ok_def)
    then have "list_all2 (\<lambda>d ld. ld_id ld = de_id d \<and> (\<exists>p. materialize_descriptor env ld = Ok p \<and>
        pattern_of env okt (triple_facts as_of R) d (layout_of sts d) p)) ds lds"
      using lds unfolding list_all2_conv_all_nth planned_ok_def by (metis nth_mem)
    from scope_correct [OF ok order inc p(1) this]
    show "plan_correct env okt (triple_facts as_of R) ds (map_option (filter (\<lambda>v. v \<in> set (all_variables ds))) incoming) plan"
      unfolding p(2) inc_def [symmetric] .
  qed
qed

end
