(* ===== verification/Query_Props.thy ===== *)
theory Query_Props
  imports Query_Correct
begin

text \<open>
  The properties of the query engine: a plan that the planner accepts is executed without error and
  returns the answers of the query, and the loops of the planner end.
\<close>

section \<open>Answers\<close>


text \<open>The example: two entities with a number, and the query for those whose number is not 4.\<close>

definition some_facts :: "version list" where
  "some_facts = [(5, 70, DLong 3, 0, ADD), (6, 70, DLong 4, 0, ADD)]"

definition some_keys :: "bytes list" where
  "some_keys = concat (map (\<lambda>it. map (version_key it) some_facts) [EAV_index, AVE_index, AEV_index, AE_index, AV_index])"

abbreviation no_text :: text_ops where
  "no_text \<equiv> \<lparr>to_uppercase = (\<lambda>s. s), to_lowercase = (\<lambda>s. s), f64_to_string = (\<lambda>_. []), f32_to_string = (\<lambda>_. []),
     uuid_to_string = (\<lambda>_. []), debug_string = (\<lambda>_. []), is_match = (\<lambda>_ _. False), year_of = (\<lambda>_. 0), month_of = (\<lambda>_. 0)\<rparr>"

definition some_env :: "(bytes list, bytes list \<times> bytes option) query_env" where
  "some_env = \<lparr>qe_ops = list_slate, qe_fuel = 11,
     qe_db = \<lparr>dv_sdb = some_keys, dv_ident_map = Map.empty, dv_tx_key = TxKey 0 \<lparr>dt_micros = 0, dt_subnanos = 0\<rparr>, dv_range_stats = (\<lambda>_. Ok 0)\<rparr>,
     qe_text = no_text, qe_timestamp = any_timestamp\<rparr>"

definition some_query :: "descriptor list" where
  "some_query =
     [Descriptor 0 [''?e'', ''?v''] (KTriple \<lparr>pat_entity = NVariable ''?e'', pat_attribute = NEntid 70, pat_value = VVariable ''?v''\<rparr>),
      Descriptor 1 [''?e''] (KNot
        [Descriptor 2 [''?e''] (KTriple \<lparr>pat_entity = NVariable ''?e'', pat_attribute = NEntid 70, pat_value = VEntidOrInteger 4\<rparr>)])]"

lemma some_index_state: "index_state set some_keys empty_schema (set some_facts)"
  unfolding index_state_def
proof
  fix it
  have "{k \<in> set some_keys. prefix [index_byte it] k} =
      (if it = VAE_index then {} else version_key it ` set some_facts)"
    by (cases it) (auto simp: some_keys_def some_facts_def version_key_prefix)
  moreover have "indexed empty_schema it (set some_facts) = (if it = VAE_index then {} else set some_facts)"
    by (cases it) (auto simp: indexed_def some_facts_def unique_attr_def empty_schema_def)
  ultimately show "{k \<in> set some_keys. prefix [index_byte it] k} = version_key it ` indexed empty_schema it (set some_facts)"
    by simp
qed

lemma some_env_ok: "\<exists>as_of. env_ok some_env set fst snd (\<lambda>_. True) empty_schema as_of (set some_facts) \<and> 0 \<le> sint as_of"
proof -
  have "card (set some_keys) \<le> length some_keys" by (rule card_length)
  moreover have "length some_keys = 10" by (simp add: some_keys_def some_facts_def)
  ultimately have small: "card (set some_keys) < 11" by simp
  have wf: "ops_wf (set some_facts)" "\<forall>(e, a, v, tx, op) \<in> set some_facts. dt_wf (\<lambda>_. True) v"
    by (simp_all add: some_facts_def ops_wf_def)
  obtain as_of where as_of: "tx_eid_from_tx_id 0 = Ok as_of"
    using make_entity_id_total [of TX_PARTITION 0] by (auto simp: tx_eid_from_tx_id_def TX_PARTITION_def)
  then have "uint as_of < 2 ^ 62" using uint_make_entity_id(2) by (simp add: tx_eid_from_tx_id_def)
  then have pos: "0 \<le> sint as_of" by (simp add: sint_cases)
  have "env_ok some_env set fst snd (\<lambda>_. True) empty_schema as_of (set some_facts)"
    using small wf as_of some_index_state list_slate_law any_timestamp_law
    by (simp add: env_ok_def triple_store_def some_env_def dv_as_of_def)
  then show ?thesis using pos by blast
qed

lemma some_plan: "\<exists>plan. plan_scope some_query [''?e'', ''?v''] None = Ok plan"
  unfolding some_query_def
  by (simp add: plan_stages_def all_variables_def add_validation_stage_def select_participants_def fully_bound_def
    proposing_stage_for_def single_stage_def descriptor_input_layout_def relation_groundable_def
    relation_bound_prefix_len_def Let_def card_insert_if)

lemma some_triples:
  assumes "0 \<le> sint as_of"
  shows "triple_facts as_of (set some_facts) 70 = {(encode (DLong 5), encode (DLong 3)), (encode (DLong 6), encode (DLong 4))}"
proof -
  have "fact_holds as_of (set some_facts) (e, 70, v, tx, op) \<longleftrightarrow> (e, 70, v, tx, op) \<in> set some_facts" for e v tx op
    using assms by (auto simp: fact_holds_def some_facts_def ADD_def RETRACT_def)
  then have "triple_facts as_of (set some_facts) 70 = (\<lambda>(e, a, v, tx, op). (encode (DLong e), encode v)) ` set some_facts"
    by (force simp: triple_facts_def entity_bytes_def encode_def some_facts_def)
  then show ?thesis by (simp add: some_facts_def)
qed


section \<open>The loops of the planner\<close>

lemma proposing_binds:
  assumes "proposing_stage_for v ds incoming bound completed = Some (st, new)"
  shows "v \<in> set (ls_target st)" "set bound \<subseteq> set (ls_target st)"
proof -
  define props where "props = select_participants ds incoming
     (\<lambda>vs. PIncoming \<notin> completed \<and> v \<in> set (relation_groundable vs (set bound)))
     (\<lambda>d. PPattern (de_id d) \<notin> completed \<and> \<not> is_or d \<and> v \<in> set (groundable d (set bound)))"
  let ?F = "find (\<lambda>d. PPattern (de_id d) \<notin> completed \<and> is_or d \<and> v \<in> set (groundable d (set bound))) ds"
  have eq: "(if props \<noteq> [] then Some (single_stage v props ds incoming bound completed)
      else case ?F of None \<Rightarrow> None | Some d \<Rightarrow> Some (grouped_stage d ds incoming bound completed)) = Some (st, new)"
    using assms unfolding proposing_stage_for_def Let_def props_def .
  have "v \<in> set (ls_target st) \<and> set bound \<subseteq> set (ls_target st)"
  proof (cases "props = []")
    case True
    then obtain d where d: "?F = Some d" "grouped_stage d ds incoming bound completed = (st, new)"
      using eq by (cases ?F) auto
    then have "v \<in> set (groundable d (set bound))" by (auto simp: find_Some_iff)
    then show ?thesis using d(2) by (auto simp: grouped_stage_def Let_def)
  next
    case False
    then show ?thesis using eq by (auto simp: single_stage_def Let_def)
  qed
  then show "v \<in> set (ls_target st)" "set bound \<subseteq> set (ls_target st)" by simp_all
qed

lemma plan_loop_fuel:
  "card (set order - set bound) < n \<Longrightarrow> plan_loop n ds incoming order bound completed stages \<noteq> Error OutOfFuel"
proof (induction n arbitrary: bound completed stages)
  case (Suc n)
  obtain completed' stages' where v: "add_validation_stage ds incoming bound (completed, stages) = (completed', stages')"
    by (cases "add_validation_stage ds incoming bound (completed, stages)")
  let ?R = "filter (\<lambda>v. v \<notin> set bound) order"
  show ?case
  proof (cases "first_stage ?R ds incoming bound completed'")
    case (Some x)
    obtain st new where x: "x = (st, new)" by (cases x)
    obtain w where w: "w \<in> set order" "w \<notin> set bound" "proposing_stage_for w ds incoming bound completed' = Some (st, new)"
      using first_stage_proposing [OF Some] x by auto
    have "set order - set (ls_target st) \<subset> set order - set bound" using proposing_binds [OF w(3)] w(1,2) by auto
    then have "card (set order - set (ls_target st)) < card (set order - set bound)" by (intro psubset_card_mono) simp_all
    then have "plan_loop n ds incoming order (ls_target st) (completed' \<union> set new) (stages' @ [st]) \<noteq> Error OutOfFuel"
      using Suc.prems by (intro Suc.IH) simp
    then show ?thesis using Some x v by (simp add: Let_def)
  qed (simp add: v Let_def)
qed simp

lemma plan_stages_fuel: "plan_stages ds order incoming \<noteq> Error OutOfFuel"
proof -
  have "plan_loop (Suc (length os)) ds inc os [] {} [] \<noteq> Error OutOfFuel" for os inc
    using card_length [of os] by (intro plan_loop_fuel) simp
  then show ?thesis
    unfolding plan_stages_def Let_def by (auto simp: rbind_eq_Error ensure_def simp del: plan_loop.simps)
qed

lemma descriptor_layout_fuel: "descriptor_input_layout sts d \<noteq> Error OutOfFuel"
  by (cases "de_kind d"; cases "input_layout [] sts (de_id d)") (simp_all add: descriptor_input_layout_def)

lemma plans_fuel:
  "plan_descriptor d layout order \<noteq> Error OutOfFuel"
  "plan_scope ds order' incoming \<noteq> Error OutOfFuel"
proof (induction d layout order and ds order' incoming rule: plan_descriptor_plan_scope.induct)
  case (1 i vs k layout order)
  show ?case
  proof (cases k)
    case (KOr branches)
    show ?thesis
    proof (cases layout)
      case (Some us)
      have "rmapM (\<lambda>branch. plan_scope branch order (Some us)) branches \<noteq> Error OutOfFuel"
        using 1(1) [OF KOr Some] by (induction branches) (auto simp: rbind_eq_Error)
      then show ?thesis using KOr Some by (auto simp: rbind_eq_Error)
    qed (use KOr in simp)
  next
    case (KNot inner)
    show ?thesis
    proof (cases layout)
      case (Some us)
      then show ?thesis using KNot 1(2) [OF KNot Some] by (auto simp: rbind_eq_Error ensure_def)
    qed (use KNot in simp)
  qed simp_all
next
  case (2 ds order incoming)
  define inc where "inc = map_option (filter (\<lambda>v. v \<in> set (all_variables ds))) incoming"
  show ?case
  proof (cases "plan_stages ds order inc")
    case (Inl e)
    then show ?thesis using plan_stages_fuel [of ds order inc] by (simp add: inc_def [symmetric] Let_def)
  next
    case (Inr sts)
    have "plan_descriptor d layout order \<noteq> Error OutOfFuel" if "d \<in> set ds" "descriptor_input_layout sts d = Ok layout" for d layout
      by (rule 2 [OF inc_def Inr that])
    then have "rbind (descriptor_input_layout sts d) (\<lambda>layout. plan_descriptor d layout order) \<noteq> Error OutOfFuel" if "d \<in> set ds" for d
      using that descriptor_layout_fuel [of sts d] by (auto simp: rbind_eq_Error)
    then have "rmapM (\<lambda>d. rbind (descriptor_input_layout sts d) (\<lambda>layout. plan_descriptor d layout order)) ds \<noteq> Error OutOfFuel"
      by (induction ds) (auto simp: rbind_eq_Error)
    then show ?thesis using Inr by (auto simp: inc_def [symmetric] Let_def rbind_eq_Error)
  qed
qed

text \<open>The loop over the descriptors of a branch reaches a fixed point: a pass that changes the bound variables
  adds one of the branch.\<close>

lemma derive_pass_bounds:
  assumes "\<And>g b. g \<in> set gs \<Longrightarrow> set (g b) \<subseteq> V"
  shows "bound \<subseteq> derive_pass gs bound" "derive_pass gs bound \<subseteq> bound \<union> V"
  using assms unfolding derive_pass_def by (induction gs arbitrary: bound) fastforce+

lemma derive_loop_fixed:
  assumes "\<And>g b. g \<in> set gs \<Longrightarrow> set (g b) \<subseteq> V" "finite V" "card (V - bound) < n"
  shows "derive_pass gs (derive_loop n gs bound) = derive_loop n gs bound"
  using assms(3)
proof (induction n arbitrary: bound)
  case (Suc n)
  show ?case
  proof (cases "derive_pass gs bound = bound")
    case False
    have "V - derive_pass gs bound \<subset> V - bound"
      using derive_pass_bounds [of gs V bound] assms(1) False by blast
    then have "card (V - derive_pass gs bound) < card (V - bound)" using assms(2) by (intro psubset_card_mono) simp_all
    then show ?thesis using Suc False by (simp add: Let_def)
  qed simp
qed simp

lemma branch_fixed:
  assumes "\<forall>d \<in> set ds. desc_shape d"
  shows "derive_pass (map groundable ds) (derive_loop (Suc (length (all_variables ds))) (map groundable ds) bound) =
    derive_loop (Suc (length (all_variables ds))) (map groundable ds) bound"
proof (rule derive_loop_fixed)
  show "set (g b) \<subseteq> set (all_variables ds)" if "g \<in> set (map groundable ds)" for g b
    using that assms groundable_vars(1) member_variables by fastforce
  have "card (set (all_variables ds) - bound) \<le> card (set (all_variables ds))" by (rule card_mono) auto
  then show "card (set (all_variables ds) - bound) < Suc (length (all_variables ds))" using card_length [of "all_variables ds"] by simp
qed simp


end
