(* ===== verification/Spec2Isabelle.thy ===== *)
theory Spec2Isabelle
  imports Codec_Props Tx_Waiter Log_Props Query_Props
begin

text \<open>
  \<^bold>\<open>Triplox: a verification library.\<close>

  Triplox is a database of facts (entity, attribute, value) over an ordered key-value store.
  A client submits a transaction; a node appends it to a \<^emph>\<open>log\<close>, which gives it a number and a
  time; a \<^emph>\<open>subscription\<close> delivers the records of the log to the \<^emph>\<open>indexer\<close>; the indexer turns a
  record into datoms, checks them against the \<^emph>\<open>schema\<close>, resolves names, lookup references and
  temporary ids, and writes every datom under up to six \<^emph>\<open>index keys\<close> in one batch, or, when the
  transaction is refused, only an entity that records the refusal. Nothing is overwritten: a key
  ends in its transaction, so a read \<^emph>\<open>as of\<close> a transaction walks the versions of each fact with
  a temporal iterator. A waiter learns the outcome from the completions the indexer broadcasts or,
  when it has missed them, from the store. At start-up the counters, the schema and the latest
  transaction are read back from the indices. A \<^emph>\<open>query\<close> is planned into stages and answered by a
  generic join over the indices, one stage of variables after the other.

  \<^bold>\<open>Theories and sources\<close> (paths are relative to the root of the repository).

  \<^item> \<open>Prelude\<close>: machine integers, byte strings, the type of errors and results with the
    propagation that the source writes with the question mark, big-endian bytes, ordered maps as
    sorted association lists, lexicographic order and prefixes.
  \<^item> \<open>Data_Types\<close>: values, their tags and comparison, keywords
    (\<^verbatim>\<open>triplox-client/src/ops.rs\<close>, \<^verbatim>\<open>edn/src/namespaceable_name.rs\<close>).
    \<open>Datoms\<close>: operations, datoms, transaction keys (\<^verbatim>\<open>src/ops.rs\<close>,
    \<^verbatim>\<open>triplox-client/src/transaction.rs\<close>).
  \<^item> \<open>Codec_Prim\<close>, \<open>Codec\<close>, \<open>Codec_Props\<close>: \<^verbatim>\<open>src/codec.rs\<close>. The interface of an encoding is the
    locale \<open>codec\<close>, extended by \<open>ordered_codec\<close>; both are interpreted for the encodings of
    the source. Values round trip, encodings are uniquely readable, byte order is value order or
    its reverse, skipping a value is decoding it, and decoding ends on every input.
  \<^item> \<open>Partition\<close>: entity identifiers and the counters they are allocated from
    (\<^verbatim>\<open>src/partition.rs\<close>). \<open>Index_Keys\<close>: the keys of the six indices (\<^verbatim>\<open>src/index.rs\<close>,
    \<^verbatim>\<open>src/util.rs\<close>, \<^verbatim>\<open>write_index_entries\<close> of \<^verbatim>\<open>src/indexer.rs\<close>); keys are injective, and are taken
    apart into what they were built from.
  \<^item> \<open>Schema\<close>: \<^verbatim>\<open>src/schema.rs\<close>; which datoms are accepted, how schema datoms change the schema,
    and that a loaded schema is the one that was stored.
  \<^item> \<open>Slate_Iter\<close>, \<open>Temporal\<close>, \<open>Temporal_Props\<close>, \<open>Live_Scan\<close>: the iterators of \<^verbatim>\<open>src/iterator\<close>
    and the scans for live facts. The trait \<^verbatim>\<open>Index\<close> is the locale \<open>index_iter\<close>. Reading as of a
    transaction yields exactly the facts that hold then, each once, in key order.
  \<^item> \<open>Tx\<close>, \<open>Entity_Scan\<close>: \<^verbatim>\<open>src/tx.rs\<close>, from operations to datoms without names.
    \<open>Union_Find\<close>, \<open>Upsert\<close>, \<open>Tempids\<close>: \<^verbatim>\<open>src/union_find.rs\<close>, \<^verbatim>\<open>src/upsert_resolution.rs\<close> and
    \<^verbatim>\<open>src/tempids.rs\<close>, from temporary ids to identifiers.
  \<^item> \<open>Indexer\<close>, \<open>Indexer_Inv\<close>, \<open>Commit\<close>, \<open>Transactions\<close>: \<^verbatim>\<open>src/indexer.rs\<close> and
    \<^verbatim>\<open>src/metadata.rs\<close>. The record \<open>indexer\<close> is the state of the task; \<open>transact_tx\<close> is the handler of
    one record of the log, with all of its error paths. \<open>db_inv\<close> is the invariant of the database:
    the indices are projections of one set of versions, an attribute of cardinality one has one
    value, a unique value has one owner, the names of the schema are the stored names, everything
    stored has been allocated. The abstract database is a set of facts; \<open>abstract_step\<close> is a
    transaction on it, and the handler refines it.
  \<^item> \<open>Bootstrap\<close>, \<open>Boot_Tx\<close>, \<open>Recovery\<close>: \<^verbatim>\<open>src/bootstrap.rs\<close>; a fresh store gets the built-in schema
    and satisfies the invariant; an existing one gives back its counters and latest transaction.
  \<^item> \<open>Tx_Waiter\<close>: the waiters of \<^verbatim>\<open>src/indexer.rs\<close>; what the store says of a transaction is
    what was announced, and every waiter is answered.
  \<^item> \<open>Txlog\<close>, \<open>Log_Props\<close>: \<^verbatim>\<open>src/log.rs\<close>, \<^verbatim>\<open>src/memory_log.rs\<close>, \<^verbatim>\<open>src/file_log.rs\<close>,
    \<^verbatim>\<open>src/clock.rs\<close>. The logs share the locale \<open>tx_log_reader\<close>, interpreted for the log in memory
    and for the log in a file; every record is delivered exactly once and in order.

  \<^item> \<open>Binding_Bag\<close>, \<open>Join_Engine\<close>: \<^verbatim>\<open>src/query/binding_bag.rs\<close>, \<^verbatim>\<open>src/query/exec_pattern.rs\<close>,
    \<^verbatim>\<open>src/query/stage.rs\<close>, \<^verbatim>\<open>src/query/engine.rs\<close>. Bags of rows with their joins, and the engine: in a
    stage the proposers count their extensions of every row, the cheapest one proposes them, and the
    others filter. The trait \<^verbatim>\<open>ExecPattern\<close> is the locale \<open>exec_pattern_law\<close>, extended by
    \<open>counting_pattern_law\<close>; the engine is correct for all patterns that satisfy it.
  \<^item> \<open>Relation_Pattern\<close> (with \<^verbatim>\<open>src/algo/trie.rs\<close>), \<open>Float64\<close>, \<open>Expressions\<close> (\<^verbatim>\<open>src/expr.rs\<close>,
    \<^verbatim>\<open>src/numeric.rs\<close>), \<open>Expr_Patterns\<close>, \<open>Dyn_Index\<close>, \<open>Triple_Pattern\<close>, \<open>Triple_Props\<close>:
    the patterns of \<^verbatim>\<open>src/query/patterns\<close>, with an interpretation of the locale for each of them; a
    triple pattern denotes the facts that hold as of the transaction of the database value.
  \<^item> \<open>Query_Plan\<close>, \<open>Query_Exec\<close>: \<^verbatim>\<open>src/query/plan.rs\<close>, \<^verbatim>\<open>src/query/patterns/or.rs\<close> and
    \<^verbatim>\<open>src/query/patterns/not.rs\<close>: descriptors, the planning of stages and of nested scopes, and the
    materialization of a plan. \<open>Nested_Patterns\<close> interprets the locale for disjunctions and negations,
    \<open>Plan_Stages\<close> has the invariant of the planner, \<open>Query_Correct\<close> the meaning of descriptors and the
    induction over nested scopes, \<open>Query_Props\<close> the result: a query that is planned is answered
    with exactly the assignments that satisfy it.

  \<^bold>\<open>How code becomes definitions.\<close> A struct is a record, an enum a datatype, an integer a word of
  its width whose signed reading is \<open>sint\<close>. A fallible function returns a \<open>result\<close>: \<open>Err\<close> carries
  what the code returns as an error, with the fixed part of its message, and \<open>Panic\<close> stands for
  a panic (an index out of range, an overflow that is checked, an unwrap of nothing). State is
  passed and returned. Floats are bit patterns, compared as IEEE 754 prescribes.

  \<^bold>\<open>Parameters.\<close> SlateDB, bincode, and the calendar of chrono are packages outside the repository.
  The store is a record of operations, and \<open>slate_law\<close> says what the code relies on: scans in key
  order, seeking forward, writing a batch. \<open>timestamp_law\<close> says that a microsecond count within
  the calendar gives an instant with that count; \<open>bincode_law\<close> that decoding inverts encoding.
  The order in which a hash set is iterated is the argument \<open>order\<close>, any permutation. Text is
  well-formed UTF-8, as a Rust string is (\<open>str_wf\<close>). The conversions of text in expressions (case,
  printing of floats, regular expressions, fields of dates) are the record \<open>text_ops\<close>, about which
  nothing is assumed, and the key counts that the store estimates are a function of the prefix that
  returns some number: they influence which pattern proposes, never the answers. Every law is instantiated by a concrete
  function in the witnesses.

  \<^bold>\<open>Fuel.\<close> A loop over the store takes fuel, and one unit more than the number of stored versions
  is enough, as the properties state. The decoder of values takes fuel in proportion to its
  cursor, \<open>find\<close> of the union-find one unit more than its elements, and the rounds of tempid
  resolution one more than the tempids; each is shown to be enough, as are the turns of the planner,
  one more than the variables of a scope. What tasks meet from outside
  (records appended, lags, cancellations, completions) is a list of events; a list that ends
  before the loop does stands for a task that still runs.

  \<^bold>\<open>Not modelled.\<close> The Kafka log, the storage set-up, the node, the server and the configuration
  are I/O around the parts above. Of the query engine, the validation of parsed queries, the
  construction of descriptors from clauses, and the aggregates, projection, ordering and limit of the
  rows are left out; what the first two provide is the hypothesis \<open>scope_ok\<close>. The incremental circuits
  (on a dataflow package outside the repository), the wire codec and the reader of EDN (a grammar
  expanded by a parser generator) are separate programs over the same values. I/O failures of
  the store are outside \<open>slate_law\<close>; the definitions propagate them, the theorems assume none.
\<close>

end
